(* ===== verification/SF_Prelude.thy ===== *)
theory SF_Prelude
  imports Complex_Main "HOL-Library.Word"
begin

text \<open>
  Prelude of the development: names for the C integer types of the target, the collection
  \<open>unat_ops\<close> of equations that read word operations as operations on natural numbers, the
  \<open>jam\<close> shift (a right shift that keeps a sticky bit) and the relation \<open>agrees\<close> between a real
  number and the integer that stands for it in a rounding decision.
\<close>

unbundle bit_operations_syntax

section \<open>The integer types of the target\<close>

text \<open>
  The library is built for x86-64 with the GNU C library: there \<open>uint_fast8_t\<close> has 8 bits and
  \<open>uint_fast16_t\<close>, \<open>uint_fast32_t\<close> and \<open>uint_fast64_t\<close> have 64. Signed values that only hold
  exponents, exponent differences and shift distances are modelled by \<^typ>\<open>int\<close>.
\<close>

type_synonym u8 = "8 word"
type_synonym u16 = "16 word"
type_synonym u32 = "32 word"
type_synonym u64 = "64 word"
type_synonym uint_fast8 = "8 word"
type_synonym uint_fast16 = "64 word"
type_synonym uint_fast32 = "64 word"
type_synonym uint_fast64 = "64 word"

section \<open>Word operations as operations on natural numbers\<close>

named_theorems unat_ops

lemma unat_drop_bit [unat_ops]: "unat (drop_bit n (w::'a::len word)) = unat w div 2 ^ n"
  by (simp add: unsigned_drop_bit_eq) (simp add: drop_bit_eq_div take_bit_eq_mod)

lemma unat_take_bit [unat_ops]: "unat (take_bit n (w::'a::len word)) = unat w mod 2 ^ n"
  by (simp add: unsigned_take_bit_eq flip: take_bit_eq_mod)

lemma unat_push_bit_mod: "unat (push_bit n (w::'a::len word)) = unat w * 2 ^ n mod 2 ^ LENGTH('a)"
  by (simp only: unsigned_push_bit_eq) (simp add: push_bit_eq_mult take_bit_eq_mod)

lemma unat_push_bit [unat_ops]:
  "unat w * 2 ^ n < 2 ^ LENGTH('a) \<Longrightarrow> unat (push_bit n (w::'a::len word)) = unat w * 2 ^ n"
  by (simp add: unat_push_bit_mod)

lemma unat_add_small [unat_ops]:
  "unat a + unat b < 2 ^ LENGTH('a) \<Longrightarrow> unat (a + b :: 'a::len word) = unat a + unat b"
  by (simp add: unat_word_ariths)

lemma unat_mult_small [unat_ops]:
  "unat a * unat b < 2 ^ LENGTH('a) \<Longrightarrow> unat (a * b :: 'a::len word) = unat a * unat b"
  by (simp add: unat_word_ariths)

lemma unat_minus_small [unat_ops]:
  "unat b \<le> unat a \<Longrightarrow> unat (a - b :: 'a::len word) = unat a - unat b"
  by (simp add: unat_sub word_le_nat_alt)

lemma unat_ucast_mod: "unat (ucast (w::'a::len word) :: 'b::len word) = unat w mod 2 ^ LENGTH('b)"
  by (simp add: unsigned_ucast_eq flip: take_bit_eq_mod)

lemma unat_ucast_small [unat_ops]:
  "unat w < 2 ^ LENGTH('b) \<Longrightarrow> unat (ucast (w::'a::len word) :: 'b::len word) = unat w"
  by (simp add: unat_ucast_mod)

lemma unat_word_of_int [unat_ops]:
  "0 \<le> k \<Longrightarrow> k < 2 ^ LENGTH('a) \<Longrightarrow> unat (word_of_int k :: 'a::len word) = nat k"
  by (simp add: unsigned_of_int take_bit_int_eq_self)

lemma unat_and_mask: "unat (w AND (2 ^ n - 1) :: 'a::len word) = unat w mod 2 ^ n"
  by (simp add: unat_take_bit flip: take_bit_eq_mask mask_eq_exp_minus_1)

lemma unat_or_of_bool [unat_ops]:
  "unat (w OR of_bool b :: 'a::len word) = unat w + of_bool (b \<and> even (unat w))"
  by (cases b) (auto simp: unsigned_or_eq or_Suc_0_eq)

lemma unat_lt: "unat (w::'a::len word) < 2 ^ LENGTH('a)"
  by (rule unsigned_less)

lemma nat_or_disjoint:
  fixes a b :: nat
  assumes "a < 2 ^ n" and "2 ^ n dvd b"
  shows "a OR b = a + b"
proof -
  obtain c where b: "b = push_bit n c"
    using assms(2) by (auto simp: dvd_def push_bit_eq_mult mult.commute)
  have "a = take_bit n a"
    using assms(1) by (simp add: take_bit_nat_eq_self)
  then have "a AND b = take_bit n a AND push_bit n c"
    using b by simp
  also have "\<dots> = 0"
    by (rule bit_eqI) (auto simp: bit_simps)
  finally have "a AND b = 0" .
  then show ?thesis by (simp flip: disjunctive_add_eq_or)
qed

lemma unat_or_disjoint:
  "unat a < 2 ^ n \<Longrightarrow> 2 ^ n dvd unat b \<Longrightarrow> unat (a OR b :: 'a::len word) = unat a + unat b"
  by (simp add: unsigned_or_eq nat_or_disjoint)

lemma unat_and_not_of_bool [unat_ops]:
  "unat (w AND NOT (of_bool b) :: 'a::len word) = (if b then unat w div 2 * 2 else unat w)"
proof (cases b)
  case True
  have "w AND NOT 1 = push_bit (Suc 0) (drop_bit (Suc 0) w)"
    by (rule bit_eqI) (auto simp: bit_simps simp del: push_bit_of_0 push_bit_Suc)
  moreover have "unat (push_bit (Suc 0) (drop_bit (Suc 0) w)) = unat w div 2 * 2"
    using le_less_trans [OF div_times_less_eq_dividend [of "unat w" 2] unat_lt]
    by (subst unat_push_bit) (simp_all add: unat_drop_bit)
  ultimately show ?thesis using True by simp
qed simp

section \<open>Right shifts that keep a sticky bit\<close>

text \<open>
  \<open>jam n d\<close> shifts \<open>n\<close> right by \<open>d\<close> and sets the lowest bit of the result when a nonzero bit
  was shifted out. \<open>agrees k t n\<close> says that \<open>n\<close> lies on the same side of every multiple of
  \<open>2 ^ k\<close> as the real number \<open>t\<close>: a rounding decision whose thresholds are such multiples
  comes out the same for \<open>n\<close> as for \<open>t\<close>.
\<close>

definition jam :: "nat \<Rightarrow> nat \<Rightarrow> nat" where
  "jam n d = n div 2 ^ d + of_bool (n mod 2 ^ d \<noteq> 0 \<and> even (n div 2 ^ d))"

definition agrees :: "nat \<Rightarrow> real \<Rightarrow> nat \<Rightarrow> bool" where
  "agrees k t n \<longleftrightarrow>
     (\<forall>c::nat. (n < c * 2 ^ k \<longleftrightarrow> t < real (c * 2 ^ k)) \<and> (n = c * 2 ^ k \<longleftrightarrow> t = real (c * 2 ^ k)))"

lemma agreesD:
  assumes "agrees k t n"
  shows "n < c * 2 ^ k \<longleftrightarrow> t < real (c * 2 ^ k)" and "n = c * 2 ^ k \<longleftrightarrow> t = real (c * 2 ^ k)"
  using assms by (auto simp: agrees_def)

lemma agrees_nonneg: "agrees k t n \<Longrightarrow> 0 \<le> t"
  using agreesD(1) [of k t n 0] by simp

lemma agrees_refl [simp, intro]: "agrees k (real n) n"
  unfolding agrees_def by (simp only: of_nat_less_iff of_nat_eq_iff simp_thms)

text \<open>Two numbers strictly between the same multiples.\<close>

lemma agrees_between:
  fixes c n :: nat
  assumes "real (c * 2 ^ k) < t" and "t < real ((c + 1) * 2 ^ k)" and "c * 2 ^ k < n" and "n < (c + 1) * 2 ^ k"
  shows "agrees k t n"
proof -
  have "(n < e * 2 ^ k \<longleftrightarrow> t < real (e * 2 ^ k)) \<and> (n = e * 2 ^ k \<longleftrightarrow> t = real (e * 2 ^ k))" for e
  proof (cases "e \<le> c")
    case True
    then have "e * 2 ^ k \<le> c * 2 ^ k" by (rule mult_le_mono1)
    moreover from this have "real (e * 2 ^ k) \<le> real (c * 2 ^ k)" by (simp only: of_nat_le_iff)
    ultimately show ?thesis using assms by linarith
  next
    case False
    then have "(c + 1) * 2 ^ k \<le> e * 2 ^ k" by (intro mult_le_mono1) simp
    moreover from this have "real ((c + 1) * 2 ^ k) \<le> real (e * 2 ^ k)" by (simp only: of_nat_le_iff)
    ultimately show ?thesis using assms by linarith
  qed
  then show ?thesis by (simp add: agrees_def)
qed

lemma agrees_mono:
  assumes "agrees k t n" and "k \<le> k'"
  shows "agrees k' t n"
  unfolding agrees_def
proof
  fix c :: nat
  have "c * 2 ^ k' = (c * 2 ^ (k' - k)) * 2 ^ k"
    using assms(2) by (simp add: mult.assoc flip: power_add)
  then show "(n < c * 2 ^ k' \<longleftrightarrow> t < real (c * 2 ^ k')) \<and> (n = c * 2 ^ k' \<longleftrightarrow> t = real (c * 2 ^ k'))"
    using agreesD [OF assms(1), of "c * 2 ^ (k' - k)"] by (simp only: simp_thms)
qed

lemma agrees_scale: "agrees k t n \<Longrightarrow> agrees (k + j) (t * 2 ^ j) (n * 2 ^ j)"
proof -
  assume a: "agrees k t n"
  have e: "c * 2 ^ (k + j) = (c * 2 ^ k) * 2 ^ j" for c :: nat
    by (simp add: power_add)
  have "t * 2 ^ j < real (c * 2 ^ (k + j)) \<longleftrightarrow> t < real (c * 2 ^ k)"
    and "t * 2 ^ j = real (c * 2 ^ (k + j)) \<longleftrightarrow> t = real (c * 2 ^ k)" for c :: nat
    by (simp_all add: power_add flip: mult.assoc)
  then show ?thesis
    unfolding agrees_def using agreesD [OF a] by (simp add: e)
qed

lemma jam_less_iff:
  assumes "even c"
  shows "jam n d < c \<longleftrightarrow> n < c * 2 ^ d" and "jam n d = c \<longleftrightarrow> n = c * 2 ^ d"
proof -
  define q r where "q = n div 2 ^ d" and "r = n mod 2 ^ d"
  have n: "n = q * 2 ^ d + r" and r: "r < 2 ^ d"
    unfolding q_def r_def by (simp_all only: div_mult_mod_eq) simp
  have j: "jam n d = q + of_bool (r \<noteq> 0 \<and> even q)"
    by (simp add: jam_def q_def r_def)
  have lt: "n < c * 2 ^ d \<longleftrightarrow> q < c"
    by (simp add: q_def div_less_iff_less_mult)
  have eq: "n = c * 2 ^ d \<longleftrightarrow> q = c \<and> r = 0"
    using n r by (auto simp: q_def r_def)
  have "q < c \<Longrightarrow> even q \<Longrightarrow> q + 1 < c"
    using assms by presburger
  then show "jam n d < c \<longleftrightarrow> n < c * 2 ^ d"
    unfolding lt j by (auto split: if_splits)
  show "jam n d = c \<longleftrightarrow> n = c * 2 ^ d"
    unfolding eq j using assms by auto
qed

lemma agrees_jam:
  assumes "agrees k t n" and "1 \<le> k"
  shows "agrees k (t / 2 ^ d) (jam n d)"
proof -
  have "(jam n d < c * 2 ^ k \<longleftrightarrow> t / 2 ^ d < real (c * 2 ^ k)) \<and>
        (jam n d = c * 2 ^ k \<longleftrightarrow> t / 2 ^ d = real (c * 2 ^ k))" for c :: nat
  proof -
    have ev: "even (c * 2 ^ k)"
      using assms(2) by simp
    have e: "c * 2 ^ k * 2 ^ d = (c * 2 ^ d) * 2 ^ k"
      by simp
    have "t / 2 ^ d < real (c * 2 ^ k) \<longleftrightarrow> t < real ((c * 2 ^ d) * 2 ^ k)"
      and "t / 2 ^ d = real (c * 2 ^ k) \<longleftrightarrow> t = real ((c * 2 ^ d) * 2 ^ k)"
      by (simp_all add: field_simps)
    then show ?thesis
      using agreesD [OF assms(1), of "c * 2 ^ d"] by (simp only: jam_less_iff [OF ev] e simp_thms)
  qed
  then show ?thesis by (simp add: agrees_def)
qed

lemma agrees_jam_nat: "agrees 1 (real n / 2 ^ d) (jam n d)"
  by (rule agrees_jam) auto

lemma agrees_add:
  assumes "agrees k t n" and "2 ^ k dvd m"
  shows "agrees k (real m + t) (m + n)"
proof -
  obtain b where m: "m = b * 2 ^ k" using assms(2) by (auto simp: dvd_def mult.commute)
  have "(m + n < c * 2 ^ k \<longleftrightarrow> real m + t < real (c * 2 ^ k)) \<and>
        (m + n = c * 2 ^ k \<longleftrightarrow> real m + t = real (c * 2 ^ k))" for c :: nat
  proof (cases "b \<le> c")
    case True
    then have e: "c * 2 ^ k = m + (c - b) * 2 ^ k"
      by (simp add: m flip: add_mult_distrib)
    show ?thesis
      unfolding e using agreesD [OF assms(1), of "c - b"] by (simp del: of_nat_mult)
  next
    case False
    then have "c * 2 ^ k < m" by (simp add: m)
    moreover then have "real (c * 2 ^ k) < real m" by (simp only: of_nat_less_iff)
    ultimately show ?thesis
      using agrees_nonneg [OF assms(1)] by linarith
  qed
  then show ?thesis by (simp add: agrees_def)
qed

lemma agrees_diff:
  assumes "agrees k t n" and "2 ^ k dvd m" and "n \<le> m"
  shows "agrees k (real m - t) (m - n)"
proof -
  obtain b where m: "m = b * 2 ^ k" using assms(2) by (auto simp: dvd_def mult.commute)
  have le: "t \<le> real m"
    using agreesD [OF assms(1), of b] assms(3) by (auto simp: m le_less)
  have "(m - n < c * 2 ^ k \<longleftrightarrow> real m - t < real (c * 2 ^ k)) \<and>
        (m - n = c * 2 ^ k \<longleftrightarrow> real m - t = real (c * 2 ^ k))" for c :: nat
  proof (cases "c \<le> b")
    case True
    then have e: "m = (b - c) * 2 ^ k + c * 2 ^ k"
      by (simp add: m flip: add_mult_distrib)
    have "m - n < c * 2 ^ k \<longleftrightarrow> \<not> n < (b - c) * 2 ^ k \<and> n \<noteq> (b - c) * 2 ^ k"
      and "m - n = c * 2 ^ k \<longleftrightarrow> n = (b - c) * 2 ^ k"
      using assms(3) e by linarith+
    moreover have "real m = real ((b - c) * 2 ^ k) + real (c * 2 ^ k)"
      by (subst e) (simp only: of_nat_add)
    ultimately show ?thesis
      using agreesD [OF assms(1), of "b - c"] by linarith
  next
    case False
    then have "m < c * 2 ^ k" by (simp add: m)
    moreover then have "real m < real (c * 2 ^ k)" by (simp only: of_nat_less_iff)
    ultimately show ?thesis
      using agrees_nonneg [OF assms(1)] by linarith
  qed
  then show ?thesis by (simp add: agrees_def)
qed

lemma unat_ucast_up:
  "LENGTH('a) \<le> LENGTH('b) \<Longrightarrow> unat (ucast (w::'a::len word) :: 'b::len word) = unat w"
  by (intro unat_ucast_small less_le_trans [OF unat_lt] power_increasing) auto

lemma word_xor_eq_0_iff: "(a XOR b :: 'a::len word) = 0 \<longleftrightarrow> a = b"
  by (metis xor.assoc xor.left_neutral xor_self_eq)

lemma jam_le: "jam n d \<le> n" if "0 < d"
proof -
  have "n div 2 ^ d \<le> n div 2" using that by (intro div_le_mono2) (auto intro: self_le_power)
  moreover have "n \<noteq> 0 \<Longrightarrow> n div 2 + 1 \<le> n" by (cases n) auto
  ultimately show ?thesis by (cases "n = 0") (auto simp: jam_def of_bool_def)
qed

lemma cast_le_iff:
  fixes ex :: int
  assumes "- h \<le> ex" and "ex < 2 * h" and "c \<le> h" and "0 \<le> c"
  shows "c \<le> ex mod (2 * h) \<longleftrightarrow> ex < 0 \<or> c \<le> ex"
proof (cases "ex < 0")
  case True
  then have "(ex + 2 * h) mod (2 * h) = ex + 2 * h" using assms(1) by (intro mod_pos_pos_trivial) auto
  then have "ex mod (2 * h) = ex + 2 * h" by simp
  then show ?thesis using True assms by simp
qed (use assms in simp)

lemma int_and_mask: "(k::int) AND (2 ^ n - 1) = k mod 2 ^ n"
  using take_bit_eq_mask [of n k] by (simp add: take_bit_eq_mod mask_eq_exp_minus_1)

lemma word_and_1_eq_0_iff: "(w AND 1 :: 'a::len word) = 0 \<longleftrightarrow> even (unat w)"
proof -
  have "unat (w AND 1) = unat w mod 2" using unat_and_mask [of w 1] by simp
  then show ?thesis by (metis unat_eq_0 even_iff_mod_2_eq_zero)
qed

lemma sint_diff_small:
  assumes "unat a < 2 ^ 62" and "unat b < 2 ^ 62"
  shows "sint (a - b :: u64) = int (unat a) - int (unat b)"
proof -
  have range: "- (2 ^ 63) \<le> A - B \<and> A - B < 2 ^ 63" if "0 \<le> A" "0 \<le> B" "A < 2 ^ 62" "B < 2 ^ 62" for A B :: int
    using that by simp
  have "- (2 ^ 63) \<le> int (unat a) - int (unat b) \<and> int (unat a) - int (unat b) < 2 ^ 63"
    by (rule range) (use assms [folded of_nat_less_iff [where 'a = int]] in simp_all)
  then have s: "signed_take_bit 63 (int (unat a) - int (unat b)) = int (unat a) - int (unat b)"
    by (intro signed_take_bit_int_eq_self) blast+
  have "a - b = word_of_int (int (unat a) - int (unat b))"
    by simp
  then show ?thesis
    using s by (simp only: sint_sbintrunc') simp
qed

lemma unat_or_top:
  assumes "2 ^ n \<le> unat (s :: 'a::len word)" and "unat s < 2 ^ Suc n" and "unat c = 2 ^ n"
  shows "unat (s OR c) = unat s"
proof -
  define g where "g = unat s - 2 ^ n"
  have "g < 2 ^ n" using assms by (simp add: g_def)
  then have s: "unat s = g OR 2 ^ n" using assms(1) nat_or_disjoint [of g n "2 ^ n"] by (simp add: g_def)
  show ?thesis by (simp add: unsigned_or_eq assms(3) s or.assoc)
qed

lemma agrees_div:
  fixes n d :: nat
  assumes "0 < d" and "1 \<le> k"
  shows "agrees k (real n / real d) (n div d + of_bool ((n div d) mod 2 ^ k = 0 \<and> n mod d \<noteq> 0))"
proof -
  define q r where "q = n div d" and "r = n mod d"
  have n: "n = q * d + r" "r < d" using assms by (simp_all add: q_def r_def)
  have k: "(2::nat) \<le> 2 ^ k" using assms(2) self_le_power [of 2 k] by simp
  have "(q + of_bool (q mod 2 ^ k = 0 \<and> r \<noteq> 0) < c * 2 ^ k \<longleftrightarrow> real n / real d < real (c * 2 ^ k)) \<and>
    (q + of_bool (q mod 2 ^ k = 0 \<and> r \<noteq> 0) = c * 2 ^ k \<longleftrightarrow> real n / real d = real (c * 2 ^ k))" for c
  proof -
    have lt: "real n / real d < real (c * 2 ^ k) \<longleftrightarrow> q < c * 2 ^ k"
      unfolding q_def using assms(1) by (simp add: pos_divide_less_eq div_less_iff_less_mult flip: of_nat_mult of_nat_power)
    have "real n / real d = real (c * 2 ^ k) \<longleftrightarrow> n = c * 2 ^ k * d"
      using assms(1) by (simp add: field_simps flip: of_nat_mult of_nat_power)
    also have "\<dots> \<longleftrightarrow> q = c * 2 ^ k \<and> r = 0"
      using assms(1) by (auto simp: q_def r_def)
    finally have eq: "real n / real d = real (c * 2 ^ k) \<longleftrightarrow> q = c * 2 ^ k \<and> r = 0" .
    show ?thesis
    proof (cases "q mod 2 ^ k = 0")
      case True
      then obtain b where b: "q = b * 2 ^ k" by (auto simp: mod_eq_0_iff_dvd dvd_def mult.commute)
      have "b < c \<Longrightarrow> (b + 1) * 2 ^ k \<le> c * 2 ^ k" by (intro mult_le_mono1) simp
      moreover have "c < b \<Longrightarrow> (c + 1) * 2 ^ k \<le> b * 2 ^ k" by (intro mult_le_mono1) simp
      ultimately show ?thesis unfolding lt eq b using k True
        by (cases b c rule: linorder_cases) auto
    next
      case False
      then show ?thesis unfolding lt eq by auto
    qed
  qed
  then show ?thesis unfolding agrees_def q_def r_def by blast
qed

lemma jam_le_bound: "n \<le> c * 2 ^ d \<Longrightarrow> even c \<Longrightarrow> jam n d \<le> c"
  using jam_less_iff [of c n d] by (auto simp: le_less)

lemma word_and_field: "(a AND push_bit k (mask n) :: 'a::len word) = push_bit k (take_bit n (drop_bit k a))"
  by (rule bit_word_eqI) (auto simp: bit_simps)

lemma unat_and_field:
  assumes "k + n \<le> LENGTH('a)"
  shows "unat (a AND push_bit k (mask n) :: 'a::len word) = (unat a div 2 ^ k mod 2 ^ n) * 2 ^ k"
proof -
  have "unat (take_bit n (drop_bit k a)) = unat a div 2 ^ k mod 2 ^ n"
    by (simp only: unat_take_bit unat_drop_bit)
  moreover have "(unat a div 2 ^ k mod 2 ^ n) * 2 ^ k < 2 ^ LENGTH('a)"
  proof -
    have "(unat a div 2 ^ k mod 2 ^ n) * 2 ^ k < 2 ^ n * 2 ^ k" by simp
    also have "\<dots> \<le> 2 ^ LENGTH('a)" using assms by (simp add: add.commute flip: power_add)
    finally show ?thesis .
  qed
  ultimately show ?thesis unfolding word_and_field by (simp add: unat_push_bit)
qed

lemma word_not_and_eq_0_iff: "(NOT a AND m :: 'a::len word) = 0 \<longleftrightarrow> a AND m = m"
  by (auto simp: bit_eq_iff bit_simps)

lemma div_mod_range:
  fixes n w k :: nat
  assumes "0 < w"
  shows "n div w = k \<and> n mod w \<noteq> 0 \<longleftrightarrow> k * w < n \<and> n < (k + 1) * w"
proof -
  define q r where "q = n div w" and "r = n mod w"
  have n: "n = q * w + r" "r < w" using assms by (simp_all add: q_def r_def)
  have "q < k \<Longrightarrow> (q + 1) * w \<le> k * w" "k < q \<Longrightarrow> (k + 1) * w \<le> q * w" by (intro mult_le_mono1; simp)+
  then show ?thesis unfolding q_def [symmetric] r_def [symmetric] using n
    by (cases q k rule: linorder_cases) (auto simp: algebra_simps)
qed

end
