(* ===== verification/Rounding.thy ===== *)
theory Rounding
  imports SF_Prelude
begin

text \<open>
  The specification side of the development: what IEEE 754 rounding is. Magnitudes of finite
  numbers of a binary format are natural numbers counted in units of its least positive number
  (\<open>fmag\<close>), the encodings of magnitudes are the numbers \<open>0, 1, 2, \<dots>\<close> in the order of their
  values, and rounding picks one of the two encodings around a real number (\<open>fl_rounds\<close>).
  The locale \<open>fp_format\<close> proves once, for every format, that the integer algorithm of the
  library's round-and-pack routines (\<open>round_pack\<close>) computes that rounding and its exceptions.
\<close>

section \<open>Rounding modes and rounding to an integer\<close>

datatype rmode = Round_near_even | Round_minMag | Round_min | Round_max | Round_near_maxMag

text \<open>
  \<open>round_incr m s od f\<close>: in mode \<open>m\<close>, for a number of sign \<open>s\<close> whose magnitude lies a fraction
  \<open>f\<close> above its lower neighbour, is the magnitude rounded up? \<open>od\<close> tells whether the lower
  neighbour is odd.
\<close>

fun round_incr :: "rmode \<Rightarrow> bool \<Rightarrow> bool \<Rightarrow> real \<Rightarrow> bool" where
  "round_incr Round_near_even s od f = (1 / 2 < f \<or> f = 1 / 2 \<and> od)"
| "round_incr Round_near_maxMag s od f = (1 / 2 \<le> f)"
| "round_incr Round_min s od f = (s \<and> 0 < f)"
| "round_incr Round_max s od f = (\<not> s \<and> 0 < f)"
| "round_incr Round_minMag s od f = False"

definition round_mag :: "rmode \<Rightarrow> bool \<Rightarrow> real \<Rightarrow> nat" where
  "round_mag m s x = nat \<lfloor>x\<rfloor> + of_bool (round_incr m s (odd (nat \<lfloor>x\<rfloor>)) (frac x))"

lemma round_mag_le: "round_mag m s x \<le> nat \<lfloor>x\<rfloor> + 1"
  by (simp add: round_mag_def)

text \<open>
  The integer side: with \<open>G\<close> round bits, add an increment that depends on the mode, drop the
  round bits, and clear the last bit in the tie case of \<open>Round_near_even\<close>.
\<close>

fun round_inc :: "rmode \<Rightarrow> bool \<Rightarrow> nat \<Rightarrow> nat" where
  "round_inc Round_near_even s G = 2 ^ (G - 1)"
| "round_inc Round_near_maxMag s G = 2 ^ (G - 1)"
| "round_inc Round_min s G = (if s then 2 ^ G - 1 else 0)"
| "round_inc Round_max s G = (if s then 0 else 2 ^ G - 1)"
| "round_inc Round_minMag s G = 0"

definition round_sig :: "rmode \<Rightarrow> bool \<Rightarrow> nat \<Rightarrow> nat \<Rightarrow> nat" where
  "round_sig m s G n =
     (let z = (n + round_inc m s G) div 2 ^ G
      in if m = Round_near_even \<and> n mod 2 ^ G = 2 ^ (G - 1) then z div 2 * 2 else z)"

lemma floor_frac_agrees:
  assumes "agrees (G - 1) t n" and "1 \<le> G"
  shows "nat \<lfloor>t / 2 ^ G\<rfloor> = n div 2 ^ G"
    and "1 / 2 < frac (t / 2 ^ G) \<longleftrightarrow> 2 ^ (G - 1) < n mod 2 ^ G"
    and "frac (t / 2 ^ G) = 1 / 2 \<longleftrightarrow> n mod 2 ^ G = 2 ^ (G - 1)"
    and "0 < frac (t / 2 ^ G) \<longleftrightarrow> n mod 2 ^ G \<noteq> 0"
proof -
  define h :: nat where "h = 2 ^ (G - 1)"
  have two: "2 ^ G = 2 * h" and hpos: "0 < h"
    using assms(2) by (cases G) (simp_all add: h_def)
  have rtwo: "(2::real) ^ G = 2 * real h"
    using assms(2) by (cases G) (simp_all add: h_def)
  define q r where "q = n div (2 * h)" and "r = n mod (2 * h)"
  have n: "n = q * (2 * h) + r" and r: "r < 2 * h"
    using hpos by (simp_all only: q_def r_def div_mult_mod_eq) simp
  have a: "(n < c * h \<longleftrightarrow> t < real (c * h)) \<and> (n = c * h \<longleftrightarrow> t = real (c * h))" for c
    using agreesD [OF assms(1), of c] by (simp add: h_def)
  have c0: "2 * q * h = q * (2 * h)" and c1: "(2 * q + 1) * h = q * (2 * h) + h"
    and c2: "(2 * q + 2) * h = q * (2 * h) + 2 * h"
    by (simp_all add: algebra_simps)
  define b where "b = real (q * (2 * h))"
  have cmp: "b \<le> t" "t < b + 2 * real h" "t = b \<longleftrightarrow> r = 0" "t = b + real h \<longleftrightarrow> r = h" "t < b + real h \<longleftrightarrow> r < h"
    using a [of "2 * q"] a [of "2 * q + 1"] a [of "2 * q + 2"] n r
    unfolding c0 c1 c2 of_nat_add b_def by auto
  have tq: "t / 2 ^ G = real q + (t - b) / (2 * real h)"
    using hpos by (simp add: rtwo b_def field_simps)
  have f01: "0 \<le> (t - b) / (2 * real h)" "(t - b) / (2 * real h) < 1"
    using cmp hpos by (simp_all add: field_simps)
  have fl: "\<lfloor>t / 2 ^ G\<rfloor> = int q"
    using f01 unfolding tq by (intro floor_unique) auto
  have fr: "frac (t / 2 ^ G) = (t - b) / (2 * real h)"
    unfolding frac_def fl by (simp add: tq)
  show "nat \<lfloor>t / 2 ^ G\<rfloor> = n div 2 ^ G"
    by (simp add: fl two q_def)
  show "1 / 2 < frac (t / 2 ^ G) \<longleftrightarrow> 2 ^ (G - 1) < n mod 2 ^ G"
    unfolding fr two h_def [symmetric] r_def [symmetric] using cmp hpos by (auto simp: field_simps)
  show "frac (t / 2 ^ G) = 1 / 2 \<longleftrightarrow> n mod 2 ^ G = 2 ^ (G - 1)"
    unfolding fr two h_def [symmetric] r_def [symmetric] using cmp hpos by (auto simp: field_simps)
  show "0 < frac (t / 2 ^ G) \<longleftrightarrow> n mod 2 ^ G \<noteq> 0"
    unfolding fr two r_def [symmetric] using cmp hpos by (auto simp: field_simps)
qed

lemma add_div_carry:
  fixes r inc w :: nat
  assumes "r < w" and "inc \<le> w" and "0 < w"
  shows "(q * w + r + inc) div w = q + of_bool (w \<le> r + inc)"
proof -
  have "(r + inc) div w = of_bool (w \<le> r + inc)"
    using assms by (auto simp: div_nat_eqI)
  then show ?thesis
    using assms(3) by (simp add: add.assoc)
qed

lemma round_sig_eq:
  assumes "1 \<le> G"
  shows "round_sig m s G n = n div 2 ^ G +
    of_bool (case m of
        Round_near_even \<Rightarrow> 2 ^ (G - 1) < n mod 2 ^ G \<or> n mod 2 ^ G = 2 ^ (G - 1) \<and> odd (n div 2 ^ G)
      | Round_near_maxMag \<Rightarrow> 2 ^ (G - 1) \<le> n mod 2 ^ G
      | Round_min \<Rightarrow> s \<and> n mod 2 ^ G \<noteq> 0
      | Round_max \<Rightarrow> \<not> s \<and> n mod 2 ^ G \<noteq> 0
      | Round_minMag \<Rightarrow> False)"
proof -
  define h :: nat where "h = 2 ^ (G - 1)"
  have two: "2 ^ G = 2 * h" and hpos: "0 < h"
    using assms by (cases G) (simp_all add: h_def)
  define q r where "q = n div (2 * h)" and "r = n mod (2 * h)"
  have n: "n = q * (2 * h) + r" and r: "r < 2 * h"
    using hpos by (simp_all only: q_def r_def div_mult_mod_eq) simp
  have d: "(n + inc) div (2 * h) = q + of_bool (2 * h \<le> r + inc)" if "inc \<le> 2 * h" for inc
    using add_div_carry [OF r that] hpos n by simp
  have h: "2 ^ (G - Suc 0) = h"
    by (simp add: h_def)
  show ?thesis
    unfolding round_sig_def Let_def two h_def [symmetric] q_def [symmetric] r_def [symmetric]
    using hpos r
    by (cases m) (auto simp: d two h q_def [symmetric] elim!: oddE evenE)
qed

lemma round_sig_agrees:
  assumes "agrees (G - 1) t n" and "1 \<le> G"
  shows "round_sig m s G n = round_mag m s (t / 2 ^ G)"
  unfolding round_mag_def round_sig_eq [OF assms(2)]
  using floor_frac_agrees [OF assms]
  by (cases m) (auto simp: le_less)

section \<open>Magnitudes and their encodings\<close>

text \<open>
  A format with \<open>P\<close> fraction bits encodes the magnitude of a number by the number
  \<open>exponent * 2 ^ P + fraction\<close>; \<open>fmag P n\<close> is the magnitude that \<open>n\<close> encodes, in units of the
  least positive number of the format. The encodings from \<open>N = Emax * 2 ^ P\<close> on are those of
  infinity and the NaNs; there \<open>fmag\<close> continues with the magnitudes the format would have with
  an unbounded exponent, which is what the rounding rules refer to.
\<close>

definition fmag :: "nat \<Rightarrow> nat \<Rightarrow> nat" where
  "fmag P n = (if n < 2 ^ P then n else (2 ^ P + n mod 2 ^ P) * 2 ^ (n div 2 ^ P - 1))"

definition rounds_away :: "rmode \<Rightarrow> bool \<Rightarrow> bool" where
  "rounds_away m s \<longleftrightarrow> m = Round_near_even \<or> m = Round_near_maxMag \<or> m = Round_min \<and> s \<or> m = Round_max \<and> \<not> s"

definition between :: "nat \<Rightarrow> real \<Rightarrow> nat \<Rightarrow> bool" where
  "between P x k \<longleftrightarrow> real (fmag P k) \<le> x \<and> x < real (fmag P (Suc k))"

definition round_index :: "nat \<Rightarrow> rmode \<Rightarrow> bool \<Rightarrow> real \<Rightarrow> nat \<Rightarrow> nat" where
  "round_index P m s x k =
     k + of_bool (round_incr m s (odd k) ((x - real (fmag P k)) / (real (fmag P (Suc k)) - real (fmag P k))))"

text \<open>
  \<open>fl_rounds P N m s x n\<close>: the magnitude \<open>x\<close> of a number of sign \<open>s\<close> rounds to the encoding \<open>n\<close>
  in mode \<open>m\<close>. A magnitude of the overflow range goes to infinity or to the largest finite
  number.
\<close>

definition fl_rounds :: "nat \<Rightarrow> nat \<Rightarrow> rmode \<Rightarrow> bool \<Rightarrow> real \<Rightarrow> nat \<Rightarrow> bool" where
  "fl_rounds P N m s x n \<longleftrightarrow>
     (\<exists>k. between P x k \<and>
          n = (if k < N then round_index P m s x k else if rounds_away m s then N else N - 1))"

definition fl_overflow :: "nat \<Rightarrow> nat \<Rightarrow> rmode \<Rightarrow> bool \<Rightarrow> real \<Rightarrow> bool" where
  "fl_overflow P N m s x \<longleftrightarrow> (\<exists>k. between P x k \<and> N \<le> round_index P m s x k)"

definition fl_exact :: "nat \<Rightarrow> nat \<Rightarrow> real \<Rightarrow> bool" where
  "fl_exact P N x \<longleftrightarrow> (\<exists>n<N. real (fmag P n) = x)"

text \<open>Tininess: below the least normal number before rounding, or after rounding to \<open>P + 1\<close> bits.\<close>

definition fl_tiny :: "nat \<Rightarrow> bool \<Rightarrow> rmode \<Rightarrow> bool \<Rightarrow> real \<Rightarrow> bool" where
  "fl_tiny P after m s x \<longleftrightarrow> x < 2 ^ P \<and> (after \<longrightarrow> round_mag m s (2 * x) < 2 ^ (P + 1))"

lemma fmag_pack:
  assumes "s \<le> 2 ^ (P + 1)" and "2 ^ P \<le> s \<or> e = 0"
  shows "fmag P (e * 2 ^ P + s) = s * 2 ^ e"
proof (cases "s < 2 ^ P")
  case True
  then show ?thesis using assms by (simp add: fmag_def)
next
  case False
  show ?thesis
  proof (cases "s = 2 ^ (P + 1)")
    case True
    then have "e * 2 ^ P + s = (e + 2) * 2 ^ P"
      by (simp add: algebra_simps)
    then show ?thesis using True by (simp add: fmag_def)
  next
    case neq: False
    define f where "f = s - 2 ^ P"
    have s: "s = 2 ^ P + f" and f: "f < 2 ^ P"
      using False neq assms(1) by (auto simp: f_def)
    have "e * 2 ^ P + s = f + (e + 1) * 2 ^ P"
      by (simp add: s algebra_simps)
    then show ?thesis using f by (simp add: fmag_def s)
  qed
qed

lemma index_cases:
  fixes n P :: nat
  obtains e s where "n = e * 2 ^ P + s" and "s < 2 ^ (P + 1)" and "2 ^ P \<le> s \<or> e = 0"
proof (cases "n < 2 ^ P")
  case True
  then show ?thesis using that [of 0 n] by simp
next
  case False
  define q where "q = n div 2 ^ P"
  have q: "1 \<le> q" using False by (simp add: q_def Suc_le_eq div_greater_zero_iff)
  have "n = q * 2 ^ P + n mod 2 ^ P"
    unfolding q_def by (simp only: div_mult_mod_eq)
  also have "q * 2 ^ P = (q - 1) * 2 ^ P + 2 ^ P"
    using q by (simp add: algebra_simps)
  finally show ?thesis
    using that [of "q - 1" "2 ^ P + n mod 2 ^ P"] by (simp add: ac_simps)
qed

lemma fmag_Suc_pack:
  assumes "s < 2 ^ (P + 1)" and "2 ^ P \<le> s \<or> e = 0"
  shows "fmag P (Suc (e * 2 ^ P + s)) = (s + 1) * 2 ^ e"
  using fmag_pack [of "s + 1" P e] assms by auto

lemma fmag_less_Suc: "fmag P n < fmag P (Suc n)"
proof -
  obtain e s where "n = e * 2 ^ P + s" "s < 2 ^ (P + 1)" "2 ^ P \<le> s \<or> e = 0"
    by (rule index_cases)
  then show ?thesis
    using fmag_pack [of s P e] fmag_Suc_pack [of s P e] by simp
qed

lemma fmag_strict_mono: "strict_mono (fmag P)"
  by (simp add: strict_mono_Suc_iff fmag_less_Suc)

lemma fmag_less_iff [simp]: "fmag P m < fmag P n \<longleftrightarrow> m < n"
  by (rule strict_mono_less [OF fmag_strict_mono])

lemma fmag_le_iff [simp]: "fmag P m \<le> fmag P n \<longleftrightarrow> m \<le> n"
  by (rule strict_mono_less_eq [OF fmag_strict_mono])

lemma fmag_eq_iff [simp]: "fmag P m = fmag P n \<longleftrightarrow> m = n"
  by (rule strict_mono_eq [OF fmag_strict_mono])

lemma between_unique: "between P x k \<Longrightarrow> between P x k' \<Longrightarrow> k = k'"
proof -
  assume "between P x k" "between P x k'"
  then have "real (fmag P k) < real (fmag P (Suc k'))" "real (fmag P k') < real (fmag P (Suc k))"
    unfolding between_def by linarith+
  then show ?thesis by (simp add: less_Suc_eq_le)
qed

lemma between_exists: "0 \<le> x \<Longrightarrow> \<exists>k. between P x k"
proof -
  assume x: "0 \<le> x"
  have ge: "n \<le> fmag P n" for n
    by (rule strict_mono_imp_increasing [OF fmag_strict_mono])
  obtain b :: nat where "x < real b" using reals_Archimedean2 by blast
  then have up: "x < real (fmag P b)" using ge [of b] by linarith
  define k where "k = (LEAST k. x < real (fmag P k))"
  have k: "x < real (fmag P k)" unfolding k_def by (rule LeastI [of _ b]) (rule up)
  have "k \<noteq> 0" using k x by (cases k) (auto simp: fmag_def)
  then obtain j where j: "k = Suc j" by (cases k) auto
  have "\<not> x < real (fmag P j)"
    using not_less_Least [of j "\<lambda>k. x < real (fmag P k)"] j unfolding k_def by simp
  then show ?thesis using k j by (auto simp: between_def not_less)
qed


lemma fl_rounds_unique: "fl_rounds P N m s x n \<Longrightarrow> fl_rounds P N m s x n' \<Longrightarrow> n = n'"
  unfolding fl_rounds_def using between_unique by blast

lemma fl_rounds_exists: "0 \<le> x \<Longrightarrow> \<exists>n. fl_rounds P N m s x n"
  unfolding fl_rounds_def using between_exists by blast

text \<open>
  Rounding to nearest is the best approximation among all encodings, and the tie of
  \<open>Round_near_even\<close> goes to an even encoding; the directed modes stay on their side.
\<close>

lemma round_index_nearest:
  assumes "between P x k" and "m = Round_near_even \<or> m = Round_near_maxMag"
  shows "\<bar>real (fmag P (round_index P m s x k)) - x\<bar> \<le> \<bar>real (fmag P j) - x\<bar>"
    and "m = Round_near_even \<Longrightarrow> j \<noteq> round_index P m s x k \<Longrightarrow>
      \<bar>real (fmag P j) - x\<bar> = \<bar>real (fmag P (round_index P m s x k)) - x\<bar> \<Longrightarrow> even (round_index P m s x k)"
proof -
  define a b where "a = real (fmag P k)" and "b = real (fmag P (Suc k))"
  define f where "f = (x - a) / (b - a)"
  have ab: "a \<le> x" "x < b" using assms(1) by (auto simp: between_def a_def b_def)
  have f: "1 / 2 < f \<longleftrightarrow> b - x < x - a" "1 / 2 \<le> f \<longleftrightarrow> b - x \<le> x - a" "f = 1 / 2 \<longleftrightarrow> b - x = x - a"
    using ab by (auto simp: f_def field_simps)
  have r: "round_index P m s x k = k + of_bool (round_incr m s (odd k) f)"
    by (simp add: round_index_def f_def a_def b_def)
  have j: "(j = k \<and> real (fmag P j) = a) \<or> (j = Suc k \<and> real (fmag P j) = b) \<or> (j < k \<and> real (fmag P j) < a) \<or> (Suc k < j \<and> b < real (fmag P j))"
    by (cases j k rule: linorder_cases; cases "j = Suc k") (auto simp: a_def b_def)
  consider (down) "round_index P m s x k = k" "x - a \<le> b - x" "m = Round_near_even \<Longrightarrow> x - a = b - x \<Longrightarrow> even k"
    | (up) "round_index P m s x k = Suc k" "b - x \<le> x - a" "m = Round_near_even \<Longrightarrow> x - a = b - x \<Longrightarrow> odd k"
    using assms(2) f unfolding r by (cases "round_incr m s (odd k) f") auto
  then have "\<bar>real (fmag P (round_index P m s x k)) - x\<bar> \<le> \<bar>real (fmag P j) - x\<bar> \<and>
    (m = Round_near_even \<longrightarrow> j \<noteq> round_index P m s x k \<longrightarrow>
      \<bar>real (fmag P j) - x\<bar> = \<bar>real (fmag P (round_index P m s x k)) - x\<bar> \<longrightarrow> even (round_index P m s x k))"
  proof cases
    case down
    then show ?thesis using j ab unfolding down(1) a_def [symmetric] by (elim disjE) auto
  next
    case up
    then show ?thesis using j ab unfolding up(1) b_def [symmetric] by (elim disjE) auto
  qed
  then show "\<bar>real (fmag P (round_index P m s x k)) - x\<bar> \<le> \<bar>real (fmag P j) - x\<bar>"
    and "m = Round_near_even \<Longrightarrow> j \<noteq> round_index P m s x k \<Longrightarrow>
      \<bar>real (fmag P j) - x\<bar> = \<bar>real (fmag P (round_index P m s x k)) - x\<bar> \<Longrightarrow> even (round_index P m s x k)"
    by blast+
qed

lemma round_index_directed:
  assumes "between P x k"
  shows "real (fmag P (round_index P Round_minMag s x k)) \<le> x"
    and "real (fmag P (round_index P Round_min False x k)) \<le> x"
    and "real (fmag P (round_index P Round_max True x k)) \<le> x"
    and "x \<le> real (fmag P (round_index P Round_min True x k))"
    and "x \<le> real (fmag P (round_index P Round_max False x k))"
proof -
  have "(x - real (fmag P k)) / (real (fmag P (Suc k)) - real (fmag P k)) > 0 \<or> x = real (fmag P k)"
    using assms by (auto simp: between_def)
  then show "x \<le> real (fmag P (round_index P Round_min True x k))"
    and "x \<le> real (fmag P (round_index P Round_max False x k))"
    using assms by (auto simp: round_index_def between_def)
qed (use assms in \<open>auto simp: round_index_def between_def\<close>)

lemma between_pack:
  assumes "s < 2 ^ (P + 1)" and "2 ^ P \<le> s \<or> e = 0" and "0 \<le> y" and "nat \<lfloor>y\<rfloor> = s"
  shows "between P (y * 2 ^ e) (e * 2 ^ P + s)"
proof -
  have "real s \<le> y" "y < real s + 1"
    using assms(3,4) by linarith+
  then have "real s * 2 ^ e \<le> y * 2 ^ e" "y * 2 ^ e < (real s + 1) * 2 ^ e"
    by simp_all
  then show ?thesis
    using fmag_pack [of s P e] fmag_Suc_pack [of s P e] assms(1,2)
    by (simp add: between_def algebra_simps)
qed

lemma round_index_pack:
  assumes "s < 2 ^ (P + 1)" and "2 ^ P \<le> s \<or> e = 0" and "0 \<le> y" and "nat \<lfloor>y\<rfloor> = s" and "1 \<le> P"
  shows "round_index P m sg (y * 2 ^ e) (e * 2 ^ P + s) = e * 2 ^ P + round_mag m sg y"
proof -
  have odd: "odd (e * 2 ^ P + s) \<longleftrightarrow> odd s"
    using assms(5) by (cases P) auto
  have f: "fmag P (e * 2 ^ P + s) = s * 2 ^ e" "fmag P (Suc (e * 2 ^ P + s)) = (s + 1) * 2 ^ e"
    using assms(1,2) by (simp_all add: fmag_pack fmag_Suc_pack)
  have "frac y = y - real s"
    using assms(3,4) unfolding frac_def by linarith
  moreover have "(y * 2 ^ e - real (s * 2 ^ e)) / (real ((s + 1) * 2 ^ e) - real (s * 2 ^ e)) = y - real s"
    by (simp add: field_simps)
  ultimately show ?thesis
    using assms(4) unfolding round_index_def round_mag_def f odd by simp
qed

section \<open>The round-and-pack algorithm\<close>

text \<open>
  \<open>round_pack P G Emax m s e sig\<close> is the algorithm of the round-and-pack routines over integers:
  \<open>sig\<close> is a significand with \<open>G\<close> round bits below the \<open>P + 1\<close> bits of the result and \<open>e\<close> is the
  exponent field the result has before the leading bit of the significand is added to it.
\<close>

definition round_pack_tiny_sig :: "int \<Rightarrow> nat \<Rightarrow> nat" where
  "round_pack_tiny_sig e sig = (if e < 0 then jam sig (nat (- e)) else sig)"

definition round_pack_overflow :: "nat \<Rightarrow> nat \<Rightarrow> nat \<Rightarrow> rmode \<Rightarrow> bool \<Rightarrow> int \<Rightarrow> nat \<Rightarrow> bool" where
  "round_pack_overflow P G Emax m s e sig \<longleftrightarrow>
     int Emax - 2 < e \<or> e = int Emax - 2 \<and> 2 ^ (P + G + 1) \<le> sig + round_inc m s G"

definition round_pack :: "nat \<Rightarrow> nat \<Rightarrow> nat \<Rightarrow> rmode \<Rightarrow> bool \<Rightarrow> int \<Rightarrow> nat \<Rightarrow> nat" where
  "round_pack P G Emax m s e sig =
     (if round_pack_overflow P G Emax m s e sig then Emax * 2 ^ P - of_bool (round_inc m s G = 0)
      else nat e * 2 ^ P + round_sig m s G (round_pack_tiny_sig e sig))"

text \<open>
  The parameters of a binary format: \<open>P\<close> fraction bits, \<open>G\<close> round bits in the routines, exponent
  field \<open>Emax\<close> for infinities and NaNs.
\<close>

locale fp_format =
  fixes P G Emax :: nat
  assumes P_pos: "1 \<le> P" and G_two: "2 \<le> G" and Emax_three: "3 \<le> Emax"
begin

lemma inc_zero_iff: "round_inc m s G = 0 \<longleftrightarrow> \<not> rounds_away m s"
proof -
  have "(2::nat) ^ 1 < 2 ^ G" using G_two by (intro power_strict_increasing) auto
  then show ?thesis by (cases m) (auto simp: rounds_away_def)
qed

lemma inc_less: "round_inc m s G < 2 ^ G"
  using G_two by (cases m) (auto simp: power_strict_increasing)

lemma round_sig_le: "round_sig m s G n \<le> n div 2 ^ G + 1"
  using G_two by (subst round_sig_eq) auto

lemma round_sig_less_iff:
  assumes "n < 2 ^ (P + G + 1)"
  shows "round_sig m s G n < 2 ^ (P + 1) \<longleftrightarrow> n + round_inc m s G < 2 ^ (P + G + 1)"
proof -
  have e: "2 ^ (P + G + 1) = 2 ^ (P + 1) * (2 ^ G :: nat)"
    by (simp add: power_add)
  define z where "z = (n + round_inc m s G) div 2 ^ G"
  have z: "z < 2 ^ (P + 1) \<longleftrightarrow> n + round_inc m s G < 2 ^ (P + G + 1)"
    unfolding z_def e by (simp add: div_less_iff_less_mult)
  have "n div 2 ^ G < 2 ^ (P + 1)"
    using assms unfolding e by (simp add: div_less_iff_less_mult)
  moreover have "n + round_inc m s G < (n div 2 ^ G + 2) * 2 ^ G"
    using inc_less [of m s] dividend_less_div_times [of "2 ^ G" n] by (simp add: add_mult_distrib)
  then have "z < n div 2 ^ G + 2"
    unfolding z_def by (simp add: div_less_iff_less_mult)
  ultimately have "z \<le> 2 ^ (P + 1)" by linarith
  moreover have "round_sig m s G n = z \<or> round_sig m s G n = z div 2 * 2"
    by (auto simp: round_sig_def z_def Let_def)
  moreover have "z = 2 ^ (P + 1) \<Longrightarrow> z div 2 * 2 = z" by simp
  moreover have "z div 2 * 2 \<le> z" by simp
  ultimately have "round_sig m s G n < 2 ^ (P + 1) \<longleftrightarrow> z < 2 ^ (P + 1)"
    by (metis le_less_trans less_le)
  then show ?thesis using z by simp
qed


text \<open>
  The exact magnitude \<open>x = t * 2 powi (e - G)\<close> of which \<open>sig\<close> is the (possibly jammed) integer
  significand lies between the encodings around \<open>nat e * 2 ^ P + sig' div 2 ^ G\<close>.
\<close>

lemma pack_facts:
  fixes t :: real and sig :: nat and e :: int
  assumes "agrees (G - 1) t sig" and "2 ^ (P + G) \<le> sig" and "sig < 2 ^ (P + G + 1)"
  defines "sig' \<equiv> round_pack_tiny_sig e sig" and "x \<equiv> t * 2 powi (e - int G)"
  defines "k \<equiv> nat e * 2 ^ P + sig' div 2 ^ G"
  shows "between P x k" and "round_index P m s x k = nat e * 2 ^ P + round_sig m s G sig'"
    and "x = real (fmag P k) \<longleftrightarrow> sig' mod 2 ^ G = 0"
    and "sig' div 2 ^ G < 2 ^ (P + 1)" and "0 \<le> e \<Longrightarrow> 2 ^ P \<le> sig' div 2 ^ G"
    and "e < 0 \<Longrightarrow> sig' div 2 ^ G \<le> 2 ^ P"
proof -
  define t' where "t' = (if e < 0 then t / 2 ^ nat (- e) else t)"
  define y where "y = t' / 2 ^ G"
  have G1: "1 \<le> G" "1 \<le> G - 1" using G_two by simp_all
  have a: "agrees (G - 1) t' sig'"
    using assms(1) agrees_jam [OF assms(1) G1(2)]
    by (simp add: t'_def sig'_def round_pack_tiny_sig_def)
  have x: "x = y * 2 ^ nat e"
  proof (cases "e < 0")
    case True
    then have "nat (int G - e) = nat (- e) + G" by linarith
    then have "2 powi (e - int G) = (1::real) / (2 ^ nat (- e) * 2 ^ G)"
      using True by (simp add: power_int_def power_add divide_simps)
    then show ?thesis using True by (simp add: x_def y_def t'_def)
  next
    case False
    then have "2 powi (e - int G) = (2::real) ^ nat e / 2 ^ G"
      by (simp add: power_int_diff) (simp add: power_int_def)
    then show ?thesis using False by (simp add: x_def y_def t'_def)
  qed
  have p: "2 ^ (P + G) = 2 ^ P * (2 ^ G :: nat)" "2 ^ (P + G + 1) = 2 ^ (P + 1) * (2 ^ G :: nat)"
    by (simp_all add: power_add)
  have small: "jam sig d \<le> 2 ^ P * 2 ^ G" if "0 < d" for d
  proof -
    have "even (2 ^ P * 2 ^ G :: nat)" using P_pos by simp
    moreover have "sig < 2 ^ P * 2 ^ G * 2 ^ d"
      using assms(3) that by (cases d) (auto simp: power_add intro: order.strict_trans2)
    ultimately have "jam sig d < 2 ^ P * 2 ^ G" by (simp add: jam_less_iff)
    then show ?thesis by simp
  qed
  show lt: "sig' div 2 ^ G < 2 ^ (P + 1)"
    using assms(3) small [of "nat (- e)"] unfolding sig'_def round_pack_tiny_sig_def p
    by (auto simp: div_less_iff_less_mult intro: order.strict_trans1)
  show lo: "2 ^ P \<le> sig' div 2 ^ G" if "0 \<le> e"
    using that assms(2) unfolding sig'_def round_pack_tiny_sig_def p
    by (simp add: less_eq_div_iff_mult_less_eq)
  show "sig' div 2 ^ G \<le> 2 ^ P" if "e < 0"
    using that small [of "nat (- e)"] unfolding sig'_def round_pack_tiny_sig_def
    by (simp add: div_le_mono [of _ "2 ^ P * 2 ^ G" "2 ^ G", simplified])
  have fl: "nat \<lfloor>y\<rfloor> = sig' div 2 ^ G"
    unfolding y_def by (rule floor_frac_agrees(1) [OF a G1(1)])
  have y0: "0 \<le> y" using agrees_nonneg [OF a] by (simp add: y_def)
  have norm: "2 ^ P \<le> sig' div 2 ^ G \<or> nat e = 0" using lo by linarith
  show "between P x k"
    unfolding x k_def by (rule between_pack [OF lt norm y0 fl])
  show "round_index P m s x k = nat e * 2 ^ P + round_sig m s G sig'"
    unfolding x k_def round_index_pack [OF lt norm y0 fl P_pos]
    by (simp add: y_def round_sig_agrees [OF a G1(1)])
  have "x = real (fmag P k) \<longleftrightarrow> y = real (sig' div 2 ^ G)"
    unfolding x k_def by (subst fmag_pack) (use lt norm in auto)
  also have "\<dots> \<longleftrightarrow> \<not> 0 < frac y"
    unfolding frac_def fl [symmetric] using y0 by linarith
  also have "\<dots> \<longleftrightarrow> sig' mod 2 ^ G = 0"
    unfolding y_def using floor_frac_agrees(4) [OF a G1(1)] by simp
  finally show "x = real (fmag P k) \<longleftrightarrow> sig' mod 2 ^ G = 0" .
qed


lemma overflow_index:
  assumes "sig < 2 ^ (P + G + 1)" and "0 \<le> e" and "round_pack_overflow P G Emax m s e sig"
    and "\<not> int Emax - 2 < e"
  shows "nat e * 2 ^ P + round_sig m s G sig = Emax * 2 ^ P" and "round_inc m s G \<noteq> 0"
    and "sig mod 2 ^ G \<noteq> 0"
proof -
  have e: "e = int Emax - 2" and big: "2 ^ (P + G + 1) \<le> sig + round_inc m s G"
    using assms(3,4) by (auto simp: round_pack_overflow_def)
  have p: "2 ^ (P + G + 1) = 2 ^ (P + 1) * (2 ^ G :: nat)" by (simp add: power_add)
  have q: "sig div 2 ^ G < 2 ^ (P + 1)"
    using assms(1) unfolding p by (simp add: div_less_iff_less_mult)
  have "\<not> round_sig m s G sig < 2 ^ (P + 1)"
    using round_sig_less_iff [OF assms(1)] big by simp
  with round_sig_le [of m s sig] q have r: "round_sig m s G sig = 2 ^ (P + 1)" by linarith
  have "Emax = nat e + 2" using e Emax_three by linarith
  then show "nat e * 2 ^ P + round_sig m s G sig = Emax * 2 ^ P"
    by (simp add: r algebra_simps)
  show "round_inc m s G \<noteq> 0" using big assms(1) by (intro notI) simp
  show "sig mod 2 ^ G \<noteq> 0"
  proof
    assume "sig mod 2 ^ G = 0"
    then have "sig = sig div 2 ^ G * 2 ^ G" by auto
    moreover have "(sig div 2 ^ G + 1) * 2 ^ G \<le> 2 ^ (P + 1) * 2 ^ G"
      using q by (intro mult_le_mono1) simp
    ultimately show False
      using big inc_less [of m s] unfolding p by (simp add: add_mult_distrib)
  qed
qed

lemma far_overflow_index:
  assumes "2 ^ (P + G) \<le> sig" and "int Emax - 2 < e"
  shows "Emax * 2 ^ P \<le> nat e * 2 ^ P + sig div 2 ^ G"
proof -
  have "Emax \<le> nat e + 1" using assms(2) by linarith
  then have "Emax * 2 ^ P \<le> nat e * 2 ^ P + 2 ^ P"
    using mult_le_mono1 [of Emax "nat e + 1" "2 ^ P"] by simp
  moreover have "2 ^ P \<le> sig div 2 ^ G"
    using assms(1) by (simp add: less_eq_div_iff_mult_less_eq power_add)
  ultimately show ?thesis by linarith
qed

lemma overflow_tiny_sig:
  "round_pack_overflow P G Emax m s e sig \<Longrightarrow> 0 \<le> e \<and> round_pack_tiny_sig e sig = sig"
  using Emax_three by (auto simp: round_pack_overflow_def round_pack_tiny_sig_def)

lemma no_overflow_index:
  assumes "agrees (G - 1) t sig" and "2 ^ (P + G) \<le> sig" and "sig < 2 ^ (P + G + 1)"
    and "\<not> round_pack_overflow P G Emax m s e sig"
  shows "nat e * 2 ^ P + round_pack_tiny_sig e sig div 2 ^ G < Emax * 2 ^ P"
    and "nat e * 2 ^ P + round_sig m s G (round_pack_tiny_sig e sig) < Emax * 2 ^ P"
proof -
  let ?s = "round_pack_tiny_sig e sig"
  note f = pack_facts [OF assms(1-3), where e = e]
  have le: "nat e + 2 \<le> Emax"
    using assms(4) Emax_three unfolding round_pack_overflow_def by linarith
  then have top: "nat e * 2 ^ P + 2 ^ (P + 1) \<le> Emax * 2 ^ P"
    using mult_le_mono1 [OF le, of "2 ^ P"] by (simp add: algebra_simps)
  then show "nat e * 2 ^ P + ?s div 2 ^ G < Emax * 2 ^ P"
    using f(4) by linarith
  show "nat e * 2 ^ P + round_sig m s G ?s < Emax * 2 ^ P"
  proof (cases "e = int Emax - 2")
    case True
    then have "?s = sig" using Emax_three by (simp add: round_pack_tiny_sig_def)
    moreover have "sig + round_inc m s G < 2 ^ (P + G + 1)"
      using assms(4) True by (simp add: round_pack_overflow_def)
    ultimately show ?thesis
      using top round_sig_less_iff [OF assms(3), of m s] by simp
  next
    case False
    then have "nat e + 3 \<le> Emax" using le Emax_three by linarith
    then have "nat e * 2 ^ P + 3 * 2 ^ P \<le> Emax * 2 ^ P"
      using mult_le_mono1 [of "nat e + 3" Emax "2 ^ P"] by (simp add: algebra_simps)
    moreover have "(2::nat) \<le> 2 ^ P" using P_pos by (cases P) auto
    ultimately show ?thesis
      using f(4) round_sig_le [of m s ?s] by simp
  qed
qed

lemma round_pack_correct:
  assumes "agrees (G - 1) t sig" and "2 ^ (P + G) \<le> sig" and "sig < 2 ^ (P + G + 1)"
  shows "fl_rounds P (Emax * 2 ^ P) m s (t * 2 powi (e - int G)) (round_pack P G Emax m s e sig)"
proof -
  let ?s = "round_pack_tiny_sig e sig" and ?N = "Emax * 2 ^ P"
  let ?k = "nat e * 2 ^ P + ?s div 2 ^ G"
  note f = pack_facts [OF assms, where e = e]
  show ?thesis
  proof (cases "round_pack_overflow P G Emax m s e sig")
    case False
    then show ?thesis
      using f(1,2) no_overflow_index [OF assms False] by (auto simp: fl_rounds_def round_pack_def)
  next
    case True
    then have e: "0 \<le> e" and s: "?s = sig"
      by (simp_all add: overflow_tiny_sig)
    show ?thesis
    proof (cases "int Emax - 2 < e")
      case big: True
      then have "?N \<le> ?k"
        using far_overflow_index [OF assms(2) big] s by simp
      then show ?thesis
        using True f(1) inc_zero_iff [of m s]
        by (auto simp: fl_rounds_def round_pack_def intro!: exI [of _ ?k])
    next
      case False
      note o = overflow_index [OF assms(3) e True False]
      have "nat e + 2 = Emax" using True False Emax_three by (auto simp: round_pack_overflow_def)
      then have "?k < ?N" using f(4) s by (auto simp: algebra_simps)
      then show ?thesis
        using True f(1,2) o s by (auto simp: fl_rounds_def round_pack_def intro!: exI [of _ ?k])
    qed
  qed
qed


lemma round_pack_overflow_correct:
  assumes "agrees (G - 1) t sig" and "2 ^ (P + G) \<le> sig" and "sig < 2 ^ (P + G + 1)"
  shows "fl_overflow P (Emax * 2 ^ P) m s (t * 2 powi (e - int G)) \<longleftrightarrow> round_pack_overflow P G Emax m s e sig"
proof -
  let ?s = "round_pack_tiny_sig e sig" and ?N = "Emax * 2 ^ P"
  let ?k = "nat e * 2 ^ P + ?s div 2 ^ G" and ?x = "t * 2 powi (e - int G)"
  note f = pack_facts [OF assms, where e = e]
  have o: "fl_overflow P ?N m s ?x \<longleftrightarrow> ?N \<le> nat e * 2 ^ P + round_sig m s G ?s"
    unfolding fl_overflow_def using f(1,2) between_unique by metis
  show ?thesis
  proof (cases "round_pack_overflow P G Emax m s e sig")
    case False
    then show ?thesis using no_overflow_index(2) [OF assms False] o by simp
  next
    case True
    then have e: "0 \<le> e" and s: "?s = sig"
      by (simp_all add: overflow_tiny_sig)
    have "?N \<le> nat e * 2 ^ P + round_sig m s G ?s"
    proof (cases "int Emax - 2 < e")
      case big: True
      then have "?N \<le> ?k"
        using far_overflow_index [OF assms(2) big] s by simp
      moreover have "?s div 2 ^ G \<le> round_sig m s G ?s"
        using G_two by (subst round_sig_eq) auto
      ultimately show ?thesis by linarith
    next
      case False
      then show ?thesis using overflow_index(1) [OF assms(3) e True False] s by simp
    qed
    then show ?thesis using True o by simp
  qed
qed

lemma round_pack_exact_correct:
  assumes "agrees (G - 1) t sig" and "2 ^ (P + G) \<le> sig" and "sig < 2 ^ (P + G + 1)"
  shows "fl_exact P (Emax * 2 ^ P) (t * 2 powi (e - int G)) \<longleftrightarrow>
    \<not> round_pack_overflow P G Emax m s e sig \<and> round_pack_tiny_sig e sig mod 2 ^ G = 0"
proof -
  let ?s = "round_pack_tiny_sig e sig" and ?N = "Emax * 2 ^ P"
  let ?k = "nat e * 2 ^ P + ?s div 2 ^ G" and ?x = "t * 2 powi (e - int G)"
  note f = pack_facts [OF assms, where e = e]
  have ex: "fl_exact P ?N ?x \<longleftrightarrow> ?k < ?N \<and> ?s mod 2 ^ G = 0"
  proof
    assume "fl_exact P ?N ?x"
    then obtain n where n: "n < ?N" "?x = real (fmag P n)" by (auto simp: fl_exact_def)
    then have "between P ?x n" by (simp add: between_def)
    then have "n = ?k" using f(1) between_unique by blast
    then show "?k < ?N \<and> ?s mod 2 ^ G = 0" using n f(3) by simp
  next
    assume "?k < ?N \<and> ?s mod 2 ^ G = 0"
    then show "fl_exact P ?N ?x" using f(3) by (auto simp: fl_exact_def)
  qed
  show ?thesis
  proof (cases "round_pack_overflow P G Emax m s e sig")
    case False
    then show ?thesis using no_overflow_index(1) [OF assms False] ex by simp
  next
    case True
    then have e: "0 \<le> e" and s: "?s = sig"
      by (simp_all add: overflow_tiny_sig)
    have "\<not> (?k < ?N \<and> ?s mod 2 ^ G = 0)"
    proof (cases "int Emax - 2 < e")
      case big: True
      then have "?N \<le> ?k"
        using far_overflow_index [OF assms(2) big] s by simp
      then show ?thesis by simp
    next
      case False
      then show ?thesis using overflow_index(3) [OF assms(3) e True False] s by simp
    qed
    then show ?thesis using True ex by simp
  qed
qed

lemma round_pack_tiny_correct:
  assumes "agrees (G - 1) t sig" and "2 ^ (P + G) \<le> sig" and "sig < 2 ^ (P + G + 1)"
  shows "fl_tiny P after m s (t * 2 powi (e - int G)) \<longleftrightarrow>
    e < 0 \<and> (\<not> after \<or> e < - 1 \<or> sig + round_inc m s G < 2 ^ (P + G + 1))"
proof -
  let ?x = "t * 2 powi (e - int G)"
  have G1: "1 \<le> G" using G_two by simp
  have p: "2 ^ (P + G + 1) = (2 ^ (P + 2)) * (2 ^ (G - 1) :: nat)" "2 ^ (P + G) = (2 ^ (P + 1)) * (2 ^ (G - 1) :: nat)"
    using G1 by (cases G; simp add: power_add)+
  have t: "t < 2 ^ (P + G + 1)" "2 ^ (P + G) \<le> t"
    using agreesD(1) [OF assms(1), of "2 ^ (P + 2)"] agreesD(1) [OF assms(1), of "2 ^ (P + 1)"] assms(2,3)
    unfolding p [symmetric] by simp_all
  show ?thesis
  proof (cases "e < 0")
    case False
    then have pw: "2 powi (e - int G) = (2::real) ^ nat e / 2 ^ G"
      by (simp add: power_int_diff) (simp add: power_int_def)
    have le: "(2::real) ^ (P + G) * 1 \<le> t * 2 ^ nat e"
      using t by (intro mult_mono) auto
    have "2 ^ P \<le> ?x"
      unfolding pw using le by (simp add: field_simps power_add)
    then show ?thesis using False by (simp add: fl_tiny_def)
  next
    case True
    define d where "d = nat (- e - 1)"
    have e: "e = - 1 - int d" using True by (simp add: d_def)
    have x: "2 * ?x = t / 2 ^ G / 2 ^ d"
      unfolding e by (simp add: power_int_diff power_int_minus power_int_add field_simps)
    have tG: "t / 2 ^ G < 2 ^ (P + 1)"
      using t by (simp add: field_simps power_add)
    have pos: "0 \<le> t / 2 ^ G" using agrees_nonneg [OF assms(1)] by simp
    have "t / 2 ^ G / 2 ^ d \<le> t / 2 ^ G / 1"
      using pos by (intro divide_left_mono) auto
    then have xlt: "?x < 2 ^ P" using x tG by simp
    have "round_mag m s (2 * ?x) < 2 ^ (P + 1) \<longleftrightarrow> e < - 1 \<or> sig + round_inc m s G < 2 ^ (P + G + 1)"
    proof (cases "d = 0")
      case d0: True
      then have "round_mag m s (2 * ?x) = round_sig m s G sig"
        unfolding x by (simp add: round_sig_agrees [OF assms(1) G1])
      then show ?thesis using round_sig_less_iff [OF assms(3)] d0 e by simp
    next
      case False
      then have "t / 2 ^ G / 2 ^ d \<le> t / 2 ^ G / 2 ^ 1"
        using pos by (intro divide_left_mono power_increasing) auto
      then have "2 * ?x < 2 ^ P" using x tG by simp
      then have "nat \<lfloor>2 * ?x\<rfloor> < 2 ^ P"
        using pos x by (simp add: nat_less_iff floor_less_iff)
      moreover have "(2::nat) ^ (P + 1) = 2 ^ P + 2 ^ P" "(1::nat) < 2 ^ P"
        using P_pos one_less_power [of "2::nat" P] by simp_all
      ultimately have "round_mag m s (2 * ?x) < 2 ^ (P + 1)"
        using round_mag_le [of m s "2 * ?x"] by linarith
      then show ?thesis using False e by simp
    qed
    then show ?thesis using xlt True by (auto simp: fl_tiny_def)
  qed
qed

end

end
