(* ===== verification/SF_State.thy ===== *)
theory SF_State
  imports Rounding
begin

text \<open>
  The global state of SoftFloat (\<open>softfloat_state.c\<close>, \<open>softfloat.h\<close>) as a record that every
  operation takes and returns, the raising of exception flags
  (\<open>8086-SSE/softfloat_raiseFlags.c\<close>) and the reading of the rounding-mode byte. The build
  does not define \<open>SOFTFLOAT_ROUND_ODD\<close>, so a mode byte other than the five modes acts as
  \<open>softfloat_round_minMag\<close>.
\<close>

record softfloat_state =
  softfloat_roundingMode :: uint_fast8
  softfloat_detectTininess :: uint_fast8
  softfloat_exceptionFlags :: uint_fast8
  extF80_roundingPrecision :: uint_fast8

text \<open>The form in which a NaN travels between formats (\<open>8086-SSE/specialize.h\<close>).\<close>

record commonNaN =
  nan_sign :: bool
  nan_v64 :: u64
  nan_v0 :: u64

abbreviation (input) softfloat_tininess_beforeRounding :: uint_fast8 where "softfloat_tininess_beforeRounding \<equiv> 0"
abbreviation (input) softfloat_tininess_afterRounding :: uint_fast8 where "softfloat_tininess_afterRounding \<equiv> 1"

abbreviation (input) softfloat_round_near_even :: uint_fast8 where "softfloat_round_near_even \<equiv> 0"
abbreviation (input) softfloat_round_minMag :: uint_fast8 where "softfloat_round_minMag \<equiv> 1"
abbreviation (input) softfloat_round_min :: uint_fast8 where "softfloat_round_min \<equiv> 2"
abbreviation (input) softfloat_round_max :: uint_fast8 where "softfloat_round_max \<equiv> 3"
abbreviation (input) softfloat_round_near_maxMag :: uint_fast8 where "softfloat_round_near_maxMag \<equiv> 4"

abbreviation (input) softfloat_flag_inexact :: uint_fast8 where "softfloat_flag_inexact \<equiv> 1"
abbreviation (input) softfloat_flag_underflow :: uint_fast8 where "softfloat_flag_underflow \<equiv> 2"
abbreviation (input) softfloat_flag_overflow :: uint_fast8 where "softfloat_flag_overflow \<equiv> 4"
abbreviation (input) softfloat_flag_infinite :: uint_fast8 where "softfloat_flag_infinite \<equiv> 8"
abbreviation (input) softfloat_flag_invalid :: uint_fast8 where "softfloat_flag_invalid \<equiv> 16"

definition softfloat_init :: softfloat_state where
  "softfloat_init =
     \<lparr>softfloat_roundingMode = softfloat_round_near_even,
      softfloat_detectTininess = softfloat_tininess_afterRounding,
      softfloat_exceptionFlags = 0,
      extF80_roundingPrecision = 80\<rparr>"

definition softfloat_raiseFlags :: "uint_fast8 \<Rightarrow> softfloat_state \<Rightarrow> softfloat_state" where
  "softfloat_raiseFlags flags st =
     st\<lparr>softfloat_exceptionFlags := softfloat_exceptionFlags st OR flags\<rparr>"

text \<open>The rounding mode a mode byte stands for, and the mode of a state.\<close>

definition rmode_of :: "uint_fast8 \<Rightarrow> rmode" where
  "rmode_of b =
     (if b = softfloat_round_near_even then Round_near_even
      else if b = softfloat_round_near_maxMag then Round_near_maxMag
      else if b = softfloat_round_min then Round_min
      else if b = softfloat_round_max then Round_max
      else Round_minMag)"

abbreviation mode :: "softfloat_state \<Rightarrow> rmode" where
  "mode st \<equiv> rmode_of (softfloat_roundingMode st)"

abbreviation tiny_after :: "softfloat_state \<Rightarrow> bool" where
  "tiny_after st \<equiv> softfloat_detectTininess st \<noteq> softfloat_tininess_beforeRounding"

lemma raiseFlags_zero [simp]: "softfloat_raiseFlags 0 st = st"
  by (simp add: softfloat_raiseFlags_def)

lemma raiseFlags_twice [simp]:
  "softfloat_raiseFlags f (softfloat_raiseFlags g st) = softfloat_raiseFlags (g OR f) st"
  by (simp add: softfloat_raiseFlags_def or.assoc)

lemma raiseFlags_sel [simp]:
  "softfloat_roundingMode (softfloat_raiseFlags f st) = softfloat_roundingMode st"
  "softfloat_detectTininess (softfloat_raiseFlags f st) = softfloat_detectTininess st"
  "extF80_roundingPrecision (softfloat_raiseFlags f st) = extF80_roundingPrecision st"
  "softfloat_exceptionFlags (softfloat_raiseFlags f st) = softfloat_exceptionFlags st OR f"
  by (simp_all add: softfloat_raiseFlags_def)

lemma rmode_of_sel:
  "(if b \<noteq> softfloat_round_near_even \<and> b \<noteq> softfloat_round_near_maxMag
    then if b = (if s then softfloat_round_min else softfloat_round_max) then full else 0 else half) =
   (case rmode_of b of Round_near_even \<Rightarrow> half | Round_near_maxMag \<Rightarrow> half
      | Round_min \<Rightarrow> (if s then full else 0) | Round_max \<Rightarrow> (if s then 0 else full) | Round_minMag \<Rightarrow> 0)"
  by (auto simp: rmode_of_def)

lemma mode_init [simp]: "rmode_of (softfloat_roundingMode softfloat_init) = Round_near_even"
  by (simp add: softfloat_init_def rmode_of_def)

lemma rmode_near_even_iff: "rmode_of b = Round_near_even \<longleftrightarrow> b = softfloat_round_near_even"
  by (auto simp: rmode_of_def)

lemma rmode_min_iff: "rmode_of b = Round_min \<longleftrightarrow> b = softfloat_round_min"
  by (auto simp: rmode_of_def)

end
