(* ===== verification/Primitives.thy ===== *)
theory Primitives
  imports SF_State
begin

text \<open>
  The multiword integer primitives of SoftFloat (\<open>s_*.c\<close> under \<open>libraries/softfloat/source\<close>), each
  with the arithmetic fact its callers rely on. A pair of 64-bit words stands for a 128-bit
  number, a list of four 64-bit words (least significant first, the target is little endian)
  for a 256-bit number.
\<close>

record uint128 =
  v64 :: u64
  v0 :: u64

record uint64_extra =
  extra_v :: u64
  extra_extra :: u64

record uint128_extra =
  v128 :: uint128
  extra128 :: u64

section \<open>Comparisons\<close>

definition softfloat_eq128 :: "u64 \<Rightarrow> u64 \<Rightarrow> u64 \<Rightarrow> u64 \<Rightarrow> bool" where
  "softfloat_eq128 a64 a0 b64 b0 \<longleftrightarrow> a64 = b64 \<and> a0 = b0"

definition softfloat_le128 :: "u64 \<Rightarrow> u64 \<Rightarrow> u64 \<Rightarrow> u64 \<Rightarrow> bool" where
  "softfloat_le128 a64 a0 b64 b0 \<longleftrightarrow> a64 < b64 \<or> a64 = b64 \<and> a0 \<le> b0"

definition softfloat_lt128 :: "u64 \<Rightarrow> u64 \<Rightarrow> u64 \<Rightarrow> u64 \<Rightarrow> bool" where
  "softfloat_lt128 a64 a0 b64 b0 \<longleftrightarrow> a64 < b64 \<or> a64 = b64 \<and> a0 < b0"

section \<open>Shifts\<close>

definition softfloat_shortShiftLeft128 :: "u64 \<Rightarrow> u64 \<Rightarrow> uint_fast8 \<Rightarrow> uint128" where
  "softfloat_shortShiftLeft128 a64 a0 dst =
     \<lparr>v64 = push_bit (unat dst) a64 OR drop_bit (unat (- dst AND 63)) a0,
      v0 = push_bit (unat dst) a0\<rparr>"

definition softfloat_shortShiftRight128 :: "u64 \<Rightarrow> u64 \<Rightarrow> uint_fast8 \<Rightarrow> uint128" where
  "softfloat_shortShiftRight128 a64 a0 dst =
     \<lparr>v64 = drop_bit (unat dst) a64,
      v0 = push_bit (unat (- dst AND 63)) a64 OR drop_bit (unat dst) a0\<rparr>"

definition softfloat_shortShiftRightJam64 :: "u64 \<Rightarrow> uint_fast8 \<Rightarrow> u64" where
  "softfloat_shortShiftRightJam64 a dst =
     drop_bit (unat dst) a OR of_bool (a AND (push_bit (unat dst) 1 - 1) \<noteq> 0)"

definition softfloat_shortShiftRightJam64Extra :: "u64 \<Rightarrow> u64 \<Rightarrow> uint_fast8 \<Rightarrow> uint64_extra" where
  "softfloat_shortShiftRightJam64Extra a ext dst =
     \<lparr>extra_v = drop_bit (unat dst) a,
      extra_extra = push_bit (unat (- dst AND 63)) a OR of_bool (ext \<noteq> 0)\<rparr>"

definition softfloat_shortShiftRightJam128 :: "u64 \<Rightarrow> u64 \<Rightarrow> uint_fast8 \<Rightarrow> uint128" where
  "softfloat_shortShiftRightJam128 a64 a0 dst =
     (let uNegDist = - dst
      in \<lparr>v64 = drop_bit (unat dst) a64,
          v0 = push_bit (unat (uNegDist AND 63)) a64 OR drop_bit (unat dst) a0
                 OR of_bool (push_bit (unat (uNegDist AND 63)) a0 \<noteq> 0)\<rparr>)"

definition softfloat_shortShiftRightJam128Extra ::
    "u64 \<Rightarrow> u64 \<Rightarrow> u64 \<Rightarrow> uint_fast8 \<Rightarrow> uint128_extra" where
  "softfloat_shortShiftRightJam128Extra a64 a0 ext dst =
     (let uNegDist = - dst
      in \<lparr>v128 = \<lparr>v64 = drop_bit (unat dst) a64,
                 v0 = push_bit (unat (uNegDist AND 63)) a64 OR drop_bit (unat dst) a0\<rparr>,
          extra128 = push_bit (unat (uNegDist AND 63)) a0 OR of_bool (ext \<noteq> 0)\<rparr>)"

definition softfloat_shiftRightJam32 :: "u32 \<Rightarrow> uint_fast16 \<Rightarrow> u32" where
  "softfloat_shiftRightJam32 a dst =
     (if dst < 31
      then drop_bit (unat dst) a OR of_bool (push_bit (unat (- dst AND 31)) a \<noteq> 0)
      else of_bool (a \<noteq> 0))"

definition softfloat_shiftRightJam64 :: "u64 \<Rightarrow> uint_fast32 \<Rightarrow> u64" where
  "softfloat_shiftRightJam64 a dst =
     (if dst < 63
      then drop_bit (unat dst) a OR of_bool (push_bit (unat (- dst AND 63)) a \<noteq> 0)
      else of_bool (a \<noteq> 0))"

definition softfloat_shiftRightJam64Extra :: "u64 \<Rightarrow> u64 \<Rightarrow> uint_fast32 \<Rightarrow> uint64_extra" where
  "softfloat_shiftRightJam64Extra a ext dst =
     (let (zv, zextra) =
        (if dst < 64 then (drop_bit (unat dst) a, push_bit (unat (- dst AND 63)) a)
         else (0, if dst = 64 then a else of_bool (a \<noteq> 0)))
      in \<lparr>extra_v = zv, extra_extra = zextra OR of_bool (ext \<noteq> 0)\<rparr>)"

definition softfloat_shiftRightJam128 :: "u64 \<Rightarrow> u64 \<Rightarrow> uint_fast32 \<Rightarrow> uint128" where
  "softfloat_shiftRightJam128 a64 a0 dst =
     (if dst < 64 then
        let u8NegDist = ucast (- dst) :: uint_fast8
        in \<lparr>v64 = drop_bit (unat dst) a64,
            v0 = push_bit (unat (u8NegDist AND 63)) a64 OR drop_bit (unat dst) a0
                   OR of_bool (push_bit (unat (u8NegDist AND 63)) a0 \<noteq> 0)\<rparr>
      else
        \<lparr>v64 = 0,
         v0 = (if dst < 127
               then drop_bit (unat (dst AND 63)) a64
                      OR of_bool ((a64 AND (push_bit (unat (dst AND 63)) 1 - 1)) OR a0 \<noteq> 0)
               else of_bool (a64 OR a0 \<noteq> 0))\<rparr>)"

definition softfloat_shiftRightJam128Extra ::
    "u64 \<Rightarrow> u64 \<Rightarrow> u64 \<Rightarrow> uint_fast32 \<Rightarrow> uint128_extra" where
  "softfloat_shiftRightJam128Extra a64 a0 ext dst =
     (let u8NegDist = ucast (- dst) :: uint_fast8;
          (z64, z0, zextra, ext') =
            (if dst < 64 then
               (drop_bit (unat dst) a64,
                push_bit (unat (u8NegDist AND 63)) a64 OR drop_bit (unat dst) a0,
                push_bit (unat (u8NegDist AND 63)) a0, ext)
             else if dst = 64 then (0, a64, a0, ext)
             else
               let ext' = ext OR a0
               in if dst < 128
                  then (0, drop_bit (unat (dst AND 63)) a64, push_bit (unat (u8NegDist AND 63)) a64, ext')
                  else (0, 0, if dst = 128 then a64 else of_bool (a64 \<noteq> 0), ext'))
      in \<lparr>v128 = \<lparr>v64 = z64, v0 = z0\<rparr>, extra128 = zextra OR of_bool (ext' \<noteq> 0)\<rparr>)"

section \<open>Counting leading zeros\<close>

definition softfloat_countLeadingZeros8 :: "uint_fast8 list" where
  "softfloat_countLeadingZeros8 =
    [8, 7, 6, 6, 5, 5, 5, 5, 4, 4, 4, 4, 4, 4, 4, 4,
     3, 3, 3, 3, 3, 3, 3, 3, 3, 3, 3, 3, 3, 3, 3, 3,
     2, 2, 2, 2, 2, 2, 2, 2, 2, 2, 2, 2, 2, 2, 2, 2,
     2, 2, 2, 2, 2, 2, 2, 2, 2, 2, 2, 2, 2, 2, 2, 2,
     1, 1, 1, 1, 1, 1, 1, 1, 1, 1, 1, 1, 1, 1, 1, 1,
     1, 1, 1, 1, 1, 1, 1, 1, 1, 1, 1, 1, 1, 1, 1, 1,
     1, 1, 1, 1, 1, 1, 1, 1, 1, 1, 1, 1, 1, 1, 1, 1,
     1, 1, 1, 1, 1, 1, 1, 1, 1, 1, 1, 1, 1, 1, 1, 1,
     0, 0, 0, 0, 0, 0, 0, 0, 0, 0, 0, 0, 0, 0, 0, 0,
     0, 0, 0, 0, 0, 0, 0, 0, 0, 0, 0, 0, 0, 0, 0, 0,
     0, 0, 0, 0, 0, 0, 0, 0, 0, 0, 0, 0, 0, 0, 0, 0,
     0, 0, 0, 0, 0, 0, 0, 0, 0, 0, 0, 0, 0, 0, 0, 0,
     0, 0, 0, 0, 0, 0, 0, 0, 0, 0, 0, 0, 0, 0, 0, 0,
     0, 0, 0, 0, 0, 0, 0, 0, 0, 0, 0, 0, 0, 0, 0, 0,
     0, 0, 0, 0, 0, 0, 0, 0, 0, 0, 0, 0, 0, 0, 0, 0,
     0, 0, 0, 0, 0, 0, 0, 0, 0, 0, 0, 0, 0, 0, 0, 0]"

definition softfloat_countLeadingZeros16 :: "u16 \<Rightarrow> uint_fast8" where
  "softfloat_countLeadingZeros16 a =
     (let (count, a) = (if 0x100 \<le> a then (0, drop_bit 8 a) else (8, a))
      in count + softfloat_countLeadingZeros8 ! unat a)"

definition softfloat_countLeadingZeros32 :: "u32 \<Rightarrow> uint_fast8" where
  "softfloat_countLeadingZeros32 a =
     (let (count, a) = (if a < 0x10000 then (16, push_bit 16 a) else (0, a));
          (count, a) = (if a < 0x1000000 then (count + 8, push_bit 8 a) else (count, a))
      in count + softfloat_countLeadingZeros8 ! unat (drop_bit 24 a))"

definition softfloat_countLeadingZeros64 :: "u64 \<Rightarrow> uint_fast8" where
  "softfloat_countLeadingZeros64 a =
     (let (count, a32) = (0, ucast (drop_bit 32 a) :: u32);
          (count, a32) = (if a32 = 0 then (32, ucast a) else (count, a32));
          (count, a32) = (if a32 < 0x10000 then (count + 16, push_bit 16 a32) else (count, a32));
          (count, a32) = (if a32 < 0x1000000 then (count + 8, push_bit 8 a32) else (count, a32))
      in count + softfloat_countLeadingZeros8 ! unat (drop_bit 24 a32))"

section \<open>Addition, subtraction, multiplication\<close>

definition softfloat_add128 :: "u64 \<Rightarrow> u64 \<Rightarrow> u64 \<Rightarrow> u64 \<Rightarrow> uint128" where
  "softfloat_add128 a64 a0 b64 b0 =
     (let z0 = a0 + b0 in \<lparr>v64 = a64 + b64 + of_bool (z0 < a0), v0 = z0\<rparr>)"

definition softfloat_sub128 :: "u64 \<Rightarrow> u64 \<Rightarrow> u64 \<Rightarrow> u64 \<Rightarrow> uint128" where
  "softfloat_sub128 a64 a0 b64 b0 = \<lparr>v64 = a64 - b64 - of_bool (a0 < b0), v0 = a0 - b0\<rparr>"

definition softfloat_mul64ByShifted32To128 :: "u64 \<Rightarrow> u32 \<Rightarrow> uint128" where
  "softfloat_mul64ByShifted32To128 a b =
     (let mid = ucast (ucast a :: u32) * ucast b :: u64
      in \<lparr>v64 = ucast (ucast (drop_bit 32 a) :: u32) * ucast b + drop_bit 32 mid, v0 = push_bit 32 mid\<rparr>)"

definition softfloat_mul64To128 :: "u64 \<Rightarrow> u64 \<Rightarrow> uint128" where
  "softfloat_mul64To128 a b =
     (let a32 = ucast (drop_bit 32 a) :: u32; a0 = ucast a :: u32;
          b32 = ucast (drop_bit 32 b) :: u32; b0 = ucast b :: u32;
          z0 = ucast a0 * ucast b0 :: u64;
          mid1 = ucast a32 * ucast b0 :: u64;
          mid = mid1 + ucast a0 * ucast b32;
          z64 = ucast a32 * ucast b32 :: u64;
          z64 = z64 + (push_bit 32 (of_bool (mid < mid1)) OR drop_bit 32 mid);
          mid = push_bit 32 mid;
          z0 = z0 + mid;
          z64 = z64 + of_bool (z0 < mid)
      in \<lparr>v64 = z64, v0 = z0\<rparr>)"

definition softfloat_mul128By32 :: "u64 \<Rightarrow> u64 \<Rightarrow> u32 \<Rightarrow> uint128" where
  "softfloat_mul128By32 a64 a0 b =
     (let z0 = a0 * ucast b;
          mid = ucast (ucast (drop_bit 32 a0) :: u32) * ucast b :: uint_fast64;
          carry = ucast (ucast (drop_bit 32 z0 - mid) :: u32) :: uint_fast32
      in \<lparr>v64 = a64 * ucast b + drop_bit 32 (mid + carry), v0 = z0\<rparr>)"

definition softfloat_mul128To256M :: "u64 \<Rightarrow> u64 \<Rightarrow> u64 \<Rightarrow> u64 \<Rightarrow> u64 list" where
  "softfloat_mul128To256M a64 a0 b64 b0 =
     (let p0 = softfloat_mul64To128 a0 b0;
          p64 = softfloat_mul64To128 a64 b0;
          z64 = v0 p64 + v64 p0;
          z128 = v64 p64 + of_bool (z64 < v0 p64);
          p128 = softfloat_mul64To128 a64 b64;
          z128 = z128 + v0 p128;
          z192 = v64 p128 + of_bool (z128 < v0 p128);
          p64 = softfloat_mul64To128 a0 b64;
          z64 = z64 + v0 p64;
          p64_64 = v64 p64 + of_bool (z64 < v0 p64);
          z128 = z128 + p64_64
      in [v0 p0, z64, z128, z192 + of_bool (z128 < p64_64)])"

text \<open>The loops over the four words of a 256-bit number, from the least significant word on.\<close>

fun add256M_loop :: "u64 list \<Rightarrow> u64 list \<Rightarrow> u64 \<Rightarrow> u64 list" where
  "add256M_loop (wordA # as) (wordB # bs) carry =
     (let wordZ = wordA + wordB + carry;
          carry' = (if wordZ \<noteq> wordA then of_bool (wordZ < wordA) else carry)
      in wordZ # add256M_loop as bs carry')"
| "add256M_loop _ _ carry = []"

definition softfloat_add256M :: "u64 list \<Rightarrow> u64 list \<Rightarrow> u64 list" where
  "softfloat_add256M aPtr bPtr = add256M_loop aPtr bPtr 0"

fun sub256M_loop :: "u64 list \<Rightarrow> u64 list \<Rightarrow> u64 \<Rightarrow> u64 list" where
  "sub256M_loop (wordA # as) (wordB # bs) borrow =
     (let borrow' = (if borrow \<noteq> 0 then of_bool (wordA \<le> wordB) else of_bool (wordA < wordB))
      in (wordA - wordB - borrow) # sub256M_loop as bs borrow')"
| "sub256M_loop _ _ borrow = []"

definition softfloat_sub256M :: "u64 list \<Rightarrow> u64 list \<Rightarrow> u64 list" where
  "softfloat_sub256M aPtr bPtr = sub256M_loop aPtr bPtr 0"

text \<open>
  The reciprocal approximation: with \<open>SOFTFLOAT_FAST_DIV64TO32\<close> the callers use the macro of
  \<open>primitives.h\<close>.
\<close>

definition softfloat_approxRecip32_1 :: "u32 \<Rightarrow> u32" where
  "softfloat_approxRecip32_1 a = ucast (0x7FFFFFFFFFFFFFFF div (ucast a :: u64))"

section \<open>The shifts as arithmetic\<close>

lemma unat_neg_and_mask:
  fixes w :: "'a::len word"
  assumes "0 < unat w" and "unat w < 2 ^ n" and "n \<le> LENGTH('a)"
  shows "unat (- w AND (2 ^ n - 1)) = 2 ^ n - unat w"
proof -
  have w0: "w \<noteq> 0" using assms(1) by auto
  define c :: nat where "c = 2 ^ (LENGTH('a) - n)"
  have c: "2 ^ LENGTH('a) = 2 ^ n * c" "0 < c"
    using assms(3) by (simp_all add: c_def flip: power_add)
  then obtain c' where c': "c = Suc c'" by (cases c) auto
  have "unat (- w) = 2 ^ LENGTH('a) - unat w"
    using unat_sub_if' [of 0 w] w0 by (simp add: unat_eq_0)
  also have "\<dots> = (2 ^ n - unat w) + c' * 2 ^ n"
    using assms(2) unfolding c c' by (simp add: mult.commute)
  finally have "unat (- w) mod 2 ^ n = (2 ^ n - unat w) mod 2 ^ n"
    by (metis mod_mult_self1)
  then show ?thesis using assms(1,2) by (simp add: unat_and_mask)
qed

lemma push_bit_eq_0_iff_dvd:
  fixes a :: "'a::len word"
  assumes "d \<le> LENGTH('a)"
  shows "push_bit (LENGTH('a) - d) a = 0 \<longleftrightarrow> unat a mod 2 ^ d = 0"
proof -
  have p: "2 ^ LENGTH('a) = 2 ^ d * (2 ^ (LENGTH('a) - d) :: nat)"
    using assms by (simp flip: power_add)
  have "push_bit (LENGTH('a) - d) a = 0 \<longleftrightarrow> unat (push_bit (LENGTH('a) - d) a) = 0"
    by (simp add: unat_eq_0)
  also have "\<dots> \<longleftrightarrow> 2 ^ d dvd unat a"
    unfolding unat_push_bit_mod p by (simp add: mod_eq_0_iff_dvd)
  finally show ?thesis by (simp add: mod_eq_0_iff_dvd)
qed

lemma unat_neg_and_63: 
  "0 < unat (w::'a::len word) \<Longrightarrow> unat w < 64 \<Longrightarrow> 6 \<le> LENGTH('a) \<Longrightarrow> unat (- w AND 63) = 64 - unat w"
  using unat_neg_and_mask [of w 6] by simp
lemma unat_neg_and_31: 
  "0 < unat (w::'a::len word) \<Longrightarrow> unat w < 32 \<Longrightarrow> 5 \<le> LENGTH('a) \<Longrightarrow> unat (- w AND 31) = 32 - unat w"
  using unat_neg_and_mask [of w 5] by simp

lemma jam_nonzero:
  assumes "n \<noteq> 0" and "n < 2 ^ Suc d"
  shows "jam n d = 1"
proof (cases "n < 2 ^ d")
  case False
  then have "n div 2 ^ d = 1" using assms(2) by (simp add: div_nat_eqI)
  then show ?thesis by (simp add: jam_def)
qed (use assms(1) in \<open>simp add: jam_def\<close>)

lemma jam_0 [simp]: "jam 0 d = 0" by (simp add: jam_def)

lemma unat_shiftRightJam32:
  assumes "0 < unat dst"
  shows "unat (softfloat_shiftRightJam32 a dst) = jam (unat a) (unat dst)"
proof (cases "dst < 31")
  case True
  then have d: "unat dst < 31" by (simp add: word_less_nat_alt)
  have n: "unat (- dst AND 31) = 32 - unat dst"
    using assms d by (intro unat_neg_and_31) auto
  have "push_bit (32 - unat dst) a = 0 \<longleftrightarrow> unat a mod 2 ^ unat dst = 0"
    using push_bit_eq_0_iff_dvd [of "unat dst" a] d by simp
  then show ?thesis
    using True by (simp add: softfloat_shiftRightJam32_def unat_or_of_bool unat_drop_bit n jam_def)
next
  case False
  then have d: "31 \<le> unat dst" by (simp add: word_less_nat_alt)
  have "unat a < 2 ^ 32" using unat_lt [of a] by simp
  also have "(2::nat) ^ 32 \<le> 2 ^ Suc (unat dst)" using d by (intro power_increasing) auto
  finally have "a \<noteq> 0 \<Longrightarrow> jam (unat a) (unat dst) = 1"
    by (intro jam_nonzero) (auto simp: unat_eq_0)
  then show ?thesis using False by (auto simp: softfloat_shiftRightJam32_def)
qed

lemma unat_shiftRightJam64:
  assumes "0 < unat dst"
  shows "unat (softfloat_shiftRightJam64 a dst) = jam (unat a) (unat dst)"
proof (cases "dst < 63")
  case True
  then have d: "unat dst < 63" by (simp add: word_less_nat_alt)
  have n: "unat (- dst AND 63) = 64 - unat dst"
    using assms d by (intro unat_neg_and_63) auto
  have "push_bit (64 - unat dst) a = 0 \<longleftrightarrow> unat a mod 2 ^ unat dst = 0"
    using push_bit_eq_0_iff_dvd [of "unat dst" a] d by simp
  then show ?thesis
    using True by (simp add: softfloat_shiftRightJam64_def unat_or_of_bool unat_drop_bit n jam_def)
next
  case False
  then have d: "63 \<le> unat dst" by (simp add: word_less_nat_alt)
  have "unat a < 2 ^ 64" using unat_lt [of a] by simp
  also have "(2::nat) ^ 64 \<le> 2 ^ Suc (unat dst)" using d by (intro power_increasing) auto
  finally have "a \<noteq> 0 \<Longrightarrow> jam (unat a) (unat dst) = 1"
    by (intro jam_nonzero) (auto simp: unat_eq_0)
  then show ?thesis using False by (auto simp: softfloat_shiftRightJam64_def)
qed

lemma unat_shortShiftRightJam64:
  assumes "unat dst < 64"
  shows "unat (softfloat_shortShiftRightJam64 a dst) = jam (unat a) (unat dst)"
proof -
  have "push_bit (unat dst) 1 - 1 = (2 ^ unat dst - 1 :: u64)"
    by (simp add: push_bit_eq_mult)
  moreover have "a AND (2 ^ unat dst - 1) = 0 \<longleftrightarrow> unat a mod 2 ^ unat dst = 0"
    by (metis unat_and_mask unat_eq_0)
  ultimately show ?thesis
    by (simp add: softfloat_shortShiftRightJam64_def unat_or_of_bool unat_drop_bit jam_def)
qed

definition clz_spec :: "nat \<Rightarrow> nat \<Rightarrow> nat \<Rightarrow> bool" where
  "clz_spec w n c \<longleftrightarrow> (if n = 0 then c = w else c < w \<and> 2 ^ (w - 1 - c) \<le> n \<and> n < 2 ^ (w - c))"

lemma countLeadingZeros8_enumerate:
  "list_all (\<lambda>(i, c). clz_spec 8 i (unat c)) (enumerate 0 softfloat_countLeadingZeros8)"
  by (simp add: softfloat_countLeadingZeros8_def clz_spec_def)

lemma length_countLeadingZeros8: "length softfloat_countLeadingZeros8 = 256"
  by (simp add: softfloat_countLeadingZeros8_def)

lemma clz8: "i < 256 \<Longrightarrow> clz_spec 8 i (unat (softfloat_countLeadingZeros8 ! i))"
  using countLeadingZeros8_enumerate
  by (auto simp: list_all_length nth_enumerate_eq length_countLeadingZeros8)

lemma clz_shift:
  assumes "clz_spec w (n * 2 ^ k) c" and "n \<noteq> 0"
  shows "clz_spec w n (c + k)"
proof -
  have c: "c < w" "2 ^ (w - 1 - c) \<le> n * 2 ^ k" "n * 2 ^ k < 2 ^ (w - c)"
    using assms by (auto simp: clz_spec_def)
  have "1 * 2 ^ k \<le> n * (2 ^ k :: nat)" using assms(2) by (intro mult_le_mono1) simp
  with c(3) have "(2::nat) ^ k < 2 ^ (w - c)" by linarith
  then have k: "k < w - c" by simp
  have "n * 2 ^ k < 2 ^ (w - (c + k)) * 2 ^ k" using c(3) k by (simp flip: power_add)
  moreover have "2 ^ (w - 1 - (c + k)) * 2 ^ k \<le> n * (2 ^ k :: nat)" using c(2) k by (simp flip: power_add)
  ultimately show ?thesis using k assms(2) by (auto simp: clz_spec_def)
qed

lemma clz_high:
  assumes "clz_spec w (n div 2 ^ k) c" and "2 ^ k \<le> n"
  shows "clz_spec (w + k) n c"
proof -
  have "n div 2 ^ k \<noteq> 0" using assms(2) by (simp add: div_eq_0_iff not_less)
  then have c: "c < w" "2 ^ (w - 1 - c) \<le> n div 2 ^ k" "n div 2 ^ k < 2 ^ (w - c)"
    using assms(1) by (auto simp: clz_spec_def)
  have "2 ^ (w - 1 - c) * 2 ^ k \<le> n" using c(2) by (simp add: less_eq_div_iff_mult_less_eq)
  moreover have "n < 2 ^ (w - c) * 2 ^ k" using c(3) by (simp add: div_less_iff_less_mult)
  moreover have "n \<noteq> 0" using assms(2) by (intro notI) simp
  ultimately show ?thesis using c(1) by (auto simp: clz_spec_def simp flip: power_add)
qed

lemma clz_table_high: 
  "unat a < 2 ^ 32 \<Longrightarrow> 2 ^ 24 \<le> unat a \<Longrightarrow> clz_spec 32 (unat a) (unat (softfloat_countLeadingZeros8 ! unat (drop_bit 24 (a::u32))))"
  using clz_high [of 8 "unat a" 24] clz8 [of "unat a div 2 ^ 24"] by (simp add: unat_drop_bit div_less_iff_less_mult)

lemma clz_spec_le: "clz_spec w n c \<Longrightarrow> c \<le> w"
  by (auto simp: clz_spec_def split: if_splits)

abbreviation (input) clz_top :: "u32 \<Rightarrow> uint_fast8" where
  "clz_top a \<equiv> softfloat_countLeadingZeros8 ! unat (drop_bit 24 a)"

lemma clz_top_shift:
  assumes "2 ^ (24 - k) \<le> unat a" and "unat a < 2 ^ (32 - k)" and "k \<le> 24" and "b = push_bit k a" and "c = of_nat k"
  shows "clz_spec 32 (unat a) (unat (c + clz_top b))" 
proof -
  have "unat a * 2 ^ k < 2 ^ (32 - k) * 2 ^ k" using assms(2) by simp
  then have lt: "unat a * 2 ^ k < 2 ^ 32" using assms(3) by (simp flip: power_add)
  have "2 ^ (24 - k) * 2 ^ k \<le> unat a * 2 ^ k" using assms(1) by simp
  then have ge: "2 ^ 24 \<le> unat a * 2 ^ k" using assms(3) by (simp flip: power_add)
  have u: "unat b = unat a * 2 ^ k" unfolding assms(4) using lt by (intro unat_push_bit) simp
  have s: "clz_spec 32 (unat a * 2 ^ k) (unat (clz_top b))"
    using clz_table_high [of b] lt ge u by simp
  have "unat (of_nat k :: uint_fast8) = k" using assms(3) by (simp add: unat_of_nat)
  then have "unat (c + clz_top b) = unat (clz_top b) + k"
    using clz_spec_le [OF s] assms(3) unfolding assms(5) by (subst unat_add_small) auto
  moreover have "unat a \<noteq> 0" using assms(1) by (intro notI) simp
  ultimately show ?thesis using clz_shift [OF s] by simp
qed

lemma clz_top_zero: "softfloat_countLeadingZeros8 ! 0 = 8"
  by (simp add: softfloat_countLeadingZeros8_def)

lemma clz32_correct: "clz_spec 32 (unat a) (unat (softfloat_countLeadingZeros32 a))"
proof (cases "a = 0")
  case True
  then show ?thesis by (simp add: softfloat_countLeadingZeros32_def clz_top_zero clz_spec_def)
next
  case False
  then have n: "unat a \<noteq> 0" "unat a < 2 ^ 32" using unat_lt [of a] by (auto simp: unat_eq_0)
  consider "unat a < 2 ^ 8" | "2 ^ 8 \<le> unat a" "unat a < 2 ^ 16" | "2 ^ 16 \<le> unat a" "unat a < 2 ^ 24" | "2 ^ 24 \<le> unat a" by linarith
  then show ?thesis
  proof cases
    case 1
    then have "softfloat_countLeadingZeros32 a = 24 + clz_top (push_bit 24 a)"
      by (simp add: softfloat_countLeadingZeros32_def word_less_nat_alt unat_push_bit)
    then show ?thesis using clz_top_shift [of 24 a] 1 n by simp
  next
    case 2
    then have "softfloat_countLeadingZeros32 a = 16 + clz_top (push_bit 16 a)"
      by (simp add: softfloat_countLeadingZeros32_def word_less_nat_alt unat_push_bit)
    then show ?thesis using clz_top_shift [of 16 a] 2 by simp
  next
    case 3
    then have "softfloat_countLeadingZeros32 a = 8 + clz_top (push_bit 8 a)"
      by (simp add: softfloat_countLeadingZeros32_def word_less_nat_alt unat_push_bit)
    then show ?thesis using clz_top_shift [of 8 a] 3 by simp
  next
    case 4
    then have "softfloat_countLeadingZeros32 a = 0 + clz_top (push_bit 0 a)"
      by (simp add: softfloat_countLeadingZeros32_def word_less_nat_alt unat_push_bit)
    then show ?thesis using clz_top_shift [of 0 a] 4 n by simp
  qed
qed


lemma clz_spec_low: "clz_spec w n c \<Longrightarrow> n \<noteq> 0 \<Longrightarrow> clz_spec (w + k) n (c + k)"
  by (auto simp: clz_spec_def)

lemma clz64_by_32:
  "softfloat_countLeadingZeros64 a =
     (if unat a < 2 ^ 32 then 32 + softfloat_countLeadingZeros32 (ucast a)
      else softfloat_countLeadingZeros32 (ucast (drop_bit 32 a)))"
proof -
  have "unat (ucast (drop_bit 32 a) :: u32) = unat a div 2 ^ 32"
    using unat_lt [of a] by (subst unat_ucast_small) (simp_all add: unat_drop_bit div_less_iff_less_mult)
  then have "(ucast (drop_bit 32 a) :: u32) = 0 \<longleftrightarrow> unat a < 2 ^ 32"
    by (metis div_eq_0_iff unat_eq_0 zero_less_numeral zero_less_power not_less_zero power_eq_0_iff zero_neq_numeral)
  then show ?thesis
    by (simp add: softfloat_countLeadingZeros64_def softfloat_countLeadingZeros32_def Let_def add.assoc)
qed

lemma clz64_correct: "clz_spec 64 (unat a) (unat (softfloat_countLeadingZeros64 a))"
proof (cases "unat a < 2 ^ 32")
  case True
  then have u: "unat (ucast a :: u32) = unat a" by (simp add: unat_ucast_small)
  note c = clz32_correct [of "ucast a", unfolded u]
  have "unat (softfloat_countLeadingZeros64 a) = unat (softfloat_countLeadingZeros32 (ucast a)) + 32"
    using clz_spec_le [OF c] True by (simp add: clz64_by_32) (subst unat_add_small, auto)
  then show ?thesis using clz_spec_low [OF c, of 32] c by (cases "unat a = 0") (auto simp: clz_spec_def)
next
  case False
  have u: "unat (ucast (drop_bit 32 a) :: u32) = unat a div 2 ^ 32"
    using unat_lt [of a] by (subst unat_ucast_small) (simp_all add: unat_drop_bit div_less_iff_less_mult)
  show ?thesis
    using clz_high [of 32 "unat a" 32] clz32_correct [of "ucast (drop_bit 32 a)"] False u
    by (simp add: clz64_by_32 not_less)
qed

lemma clz16_correct: "clz_spec 16 (unat a) (unat (softfloat_countLeadingZeros16 a))"
proof (cases "0x100 \<le> a")
  case True
  then have "2 ^ 8 \<le> unat a" by (simp add: word_le_nat_alt)
  moreover have "unat a div 2 ^ 8 < 256" using unat_lt [of a] by (simp add: div_less_iff_less_mult)
  ultimately show ?thesis
    using True clz_high [of 8 "unat a" 8] clz8 by (simp add: softfloat_countLeadingZeros16_def unat_drop_bit)
next
  case False
  then have lt: "unat a < 256" by (simp add: word_le_nat_alt)
  note c = clz8 [OF lt]
  have "unat (softfloat_countLeadingZeros16 a) = unat (softfloat_countLeadingZeros8 ! unat a) + 8"
    using clz_spec_le [OF c] False by (simp add: softfloat_countLeadingZeros16_def) (subst unat_add_small, auto)
  then show ?thesis using clz_spec_low [OF c, of 8] c by (cases "unat a = 0") (auto simp: clz_spec_def)
qed

section \<open>128-bit numbers\<close>

lemma agrees_sticky:
  assumes "0 \<le> d" and "d < 1"
  shows "agrees 1 (real m + d) (m + of_bool (d \<noteq> 0 \<and> even m))"
  unfolding agrees_def
proof
  fix c :: nat
  have "even m \<Longrightarrow> m < 2 * c \<Longrightarrow> m + 1 < 2 * c" by presburger
  moreover have "even m \<Longrightarrow> m + 1 \<noteq> 2 * c" by presburger
  moreover have "m < 2 * c \<longleftrightarrow> real m + d < 2 * real c"
  proof
    assume "m < 2 * c"
    then have "real m + 1 \<le> 2 * real c" by linarith
    with assms show "real m + d < 2 * real c" by linarith
  next
    assume "real m + d < 2 * real c"
    with assms show "m < 2 * c" by linarith
  qed
  moreover have "real m + d = 2 * real c \<longleftrightarrow> m = 2 * c \<and> d = 0"
  proof
    assume eq: "real m + d = 2 * real c"
    then have d: "d = real_of_int (2 * int c - int m)" by simp
    then have "2 * int c - int m = 0" using assms by linarith
    then have "d = 0" using d by simp
    then show "m = 2 * c \<and> d = 0" using eq by linarith
  qed simp
  ultimately show "(m + of_bool (d \<noteq> 0 \<and> even m) < c * 2 ^ 1 \<longleftrightarrow> real m + d < real (c * 2 ^ 1)) \<and>
      (m + of_bool (d \<noteq> 0 \<and> even m) = c * 2 ^ 1 \<longleftrightarrow> real m + d = real (c * 2 ^ 1))"
    by (auto simp: mult.commute)
qed

lemma unat_add_carry:
  "unat (a + b :: 'a::len word) + of_bool (a + b < a) * 2 ^ LENGTH('a) = unat a + unat b"
proof (cases "unat a + unat b < 2 ^ LENGTH('a)")
  case True
  then show ?thesis by (simp add: word_less_nat_alt unat_add_small)
next
  case False
  then have "unat (a + b) = unat a + unat b - 2 ^ LENGTH('a)"
    by (simp add: unat_plus_if')
  moreover have "unat b < 2 ^ LENGTH('a)" by (rule unat_lt)
  ultimately have "unat (a + b) < unat a" "unat (a + b) + 2 ^ LENGTH('a) = unat a + unat b"
    using False by linarith+
  then show ?thesis by (simp add: word_less_nat_alt)
qed

lemma mod_concat: "r < w \<Longrightarrow> (q mod w) * w + r = (q * w + r) mod (w * w)" for q r w :: nat
  by (simp add: mod_mult2_eq mult.commute)

lemma unat_sub_borrow:
  "unat (a - b :: 'a::len word) + unat b = unat a + of_bool (a < b) * 2 ^ LENGTH('a)"
proof (cases "a < b")
  case True
  then have "unat (a - b) = unat a + 2 ^ LENGTH('a) - unat b"
    by (simp add: word_less_nat_alt unat_sub_if')
  moreover have "unat b \<le> 2 ^ LENGTH('a)"
    using unat_lt [of b] by (rule less_imp_le)
  ultimately show ?thesis using True by simp
next
  case False
  then show ?thesis by (simp add: not_less word_le_nat_alt unat_minus_small)
qed

lemma shift_right_concat:
  fixes a b d L :: nat
  assumes "d \<le> L"
  shows "(a * 2 ^ L + b) div 2 ^ d = (a div 2 ^ d) * 2 ^ L + (a * 2 ^ (L - d) mod 2 ^ L + b div 2 ^ d)"
proof -
  have L: "(2::nat) ^ L = 2 ^ (L - d) * 2 ^ d" using assms by (simp flip: power_add)
  have "(a * 2 ^ L + b) div 2 ^ d = a * 2 ^ (L - d) + b div 2 ^ d"
    unfolding L by (simp add: mult.assoc [symmetric])
  moreover have "a * 2 ^ (L - d) = a * 2 ^ (L - d) div 2 ^ L * 2 ^ L + a * 2 ^ (L - d) mod 2 ^ L"
    by (rule div_mult_mod_eq [symmetric])
  moreover have "a * 2 ^ (L - d) div 2 ^ L = a div 2 ^ d"
    unfolding L by (simp add: mult.commute)
  ultimately show ?thesis by simp
qed

lemma unat_or_shifts:
  fixes a b :: "'a::len word"
  assumes "d \<le> LENGTH('a)"
  shows "unat (push_bit (LENGTH('a) - d) a OR drop_bit d b) =
    unat a * 2 ^ (LENGTH('a) - d) mod 2 ^ LENGTH('a) + unat b div 2 ^ d"
proof -
  have L: "(2::nat) ^ LENGTH('a) = 2 ^ d * 2 ^ (LENGTH('a) - d)"
    using assms by (simp flip: power_add)
  have "unat b div 2 ^ d < 2 ^ (LENGTH('a) - d)"
    using unat_lt [of b] unfolding L by (simp add: div_less_iff_less_mult mult.commute)
  moreover have "2 ^ (LENGTH('a) - d) dvd unat a * 2 ^ (LENGTH('a) - d) mod 2 ^ LENGTH('a)"
    unfolding L by (simp add: dvd_mod_iff)
  ultimately show ?thesis
    using unat_or_disjoint [of "drop_bit d b" "LENGTH('a) - d" "push_bit (LENGTH('a) - d) a"]
    by (simp add: unat_drop_bit unat_push_bit_mod or.commute)
qed

abbreviation val128 :: "u64 \<Rightarrow> u64 \<Rightarrow> nat" where
  "val128 a64 a0 \<equiv> unat a64 * 2 ^ 64 + unat a0"

abbreviation u128 :: "uint128 \<Rightarrow> nat" where
  "u128 z \<equiv> val128 (v64 z) (v0 z)"

lemma val128_lt: "val128 a b < 2 ^ 128"
  using unat_lt [of a] unat_lt [of b] by simp

lemma concat_less: "a < b \<Longrightarrow> r < w \<Longrightarrow> a * w + r < b * w + s" for a b r s w :: nat
  using mult_le_mono1 [of "a + 1" b w] by simp

lemma concat_less_iff: "r < w \<Longrightarrow> s < w \<Longrightarrow> a * w + r < b * w + s \<longleftrightarrow> a < b \<or> a = b \<and> r < s"
  for a b r s w :: nat
  using concat_less [of a b r w s] concat_less [of b a s w r] by (cases a b rule: linorder_cases) auto

lemma lt128_correct: "softfloat_lt128 a64 a0 b64 b0 \<longleftrightarrow> val128 a64 a0 < val128 b64 b0"
  using concat_less_iff [of "unat a0" "2 ^ 64" "unat b0" "unat a64" "unat b64"] unat_lt [of a0] unat_lt [of b0]
  by (simp add: softfloat_lt128_def word_less_nat_alt word_unat_eq_iff)

lemma le128_correct: "softfloat_le128 a64 a0 b64 b0 \<longleftrightarrow> val128 a64 a0 \<le> val128 b64 b0"
proof -
  have "softfloat_le128 a64 a0 b64 b0 \<longleftrightarrow> \<not> softfloat_lt128 b64 b0 a64 a0"
    by (auto simp: softfloat_le128_def softfloat_lt128_def)
  then show ?thesis by (simp add: lt128_correct not_less)
qed

lemma eq128_correct: "softfloat_eq128 a64 a0 b64 b0 \<longleftrightarrow> val128 a64 a0 = val128 b64 b0"
proof -
  have "softfloat_eq128 a64 a0 b64 b0 \<longleftrightarrow> softfloat_le128 a64 a0 b64 b0 \<and> softfloat_le128 b64 b0 a64 a0"
    by (auto simp: softfloat_eq128_def softfloat_le128_def)
  then show ?thesis by (auto simp: le128_correct)
qed

lemma add128_correct:
  "u128 (softfloat_add128 a64 a0 b64 b0) = (val128 a64 a0 + val128 b64 b0) mod 2 ^ 128"
proof -
  let ?c = "of_bool (a0 + b0 < a0)"
  have c: "unat a0 + unat b0 = unat (a0 + b0) + ?c * 2 ^ 64"
    using unat_add_carry [of a0 b0] by simp
  have "unat (a64 + b64 + ?c) = (unat a64 + unat b64 + ?c) mod 2 ^ 64"
    by (auto simp: unat_word_ariths mod_simps)
  then have "u128 (softfloat_add128 a64 a0 b64 b0) = ((unat a64 + unat b64 + ?c) * 2 ^ 64 + unat (a0 + b0)) mod 2 ^ 128"
    using mod_concat [of "unat (a0 + b0)" "2 ^ 64" "unat a64 + unat b64 + ?c"] unat_lt [of "a0 + b0"]
    by (simp add: softfloat_add128_def Let_def)
  also have "(unat a64 + unat b64 + ?c) * 2 ^ 64 + unat (a0 + b0) = val128 a64 a0 + val128 b64 b0"
    using c by (simp add: algebra_simps)
  finally show ?thesis .
qed

lemma sub128_correct:
  assumes "val128 b64 b0 \<le> val128 a64 a0"
  shows "u128 (softfloat_sub128 a64 a0 b64 b0) = val128 a64 a0 - val128 b64 b0"
proof -
  let ?c = "of_bool (a0 < b0)"
  have c: "unat (a0 - b0) + unat b0 = unat a0 + ?c * 2 ^ 64"
    using unat_sub_borrow [of a0 b0] by simp
  have le: "unat b64 + ?c \<le> unat a64"
    using assms c unat_lt [of "a0 - b0"] unat_lt [of b0] unat_lt [of a0]
    by (auto simp: of_bool_def word_less_nat_alt split: if_splits)
  have "unat (a64 - b64) = unat a64 - unat b64" using le by (intro unat_minus_small) simp
  moreover then have "unat (a64 - b64 - ?c) = unat (a64 - b64) - ?c"
    using le by (subst unat_minus_small) auto
  ultimately show ?thesis
    using c le assms by (simp add: softfloat_sub128_def)
qed

lemma shortShiftLeft128_correct:
  assumes "0 < unat dst" and "unat dst < 64"
  shows "u128 (softfloat_shortShiftLeft128 a64 a0 dst) = val128 a64 a0 * 2 ^ unat dst mod 2 ^ 128"
proof -
  define d where "d = unat dst"
  have n: "unat (- dst AND 63) = 64 - d"
    using assms by (auto simp: d_def intro: unat_neg_and_63)
  have or: "unat (push_bit d a64 OR drop_bit (64 - d) a0) = unat a64 * 2 ^ d mod 2 ^ 64 + unat a0 div 2 ^ (64 - d)"
    using unat_or_shifts [of "64 - d" a64 a0] assms by (simp add: d_def)
  have low: "unat a0 * 2 ^ d = (unat a0 div 2 ^ (64 - d)) * 2 ^ 64 + unat a0 * 2 ^ d mod 2 ^ 64"
  proof -
    have "(2::nat) ^ 64 = 2 ^ (64 - d) * 2 ^ d"
      using assms unfolding power_add [symmetric] by (simp add: d_def)
    then have "unat a0 * 2 ^ d div 2 ^ 64 = unat a0 div 2 ^ (64 - d)"
      by (simp only: div_mult_mult2 power_not_zero zero_neq_numeral not_False_eq_True)
    then show ?thesis by (metis div_mult_mod_eq)
  qed
  have hi: "unat a64 * 2 ^ d mod 2 ^ 64 + unat a0 div 2 ^ (64 - d) = (unat a64 * 2 ^ d + unat a0 div 2 ^ (64 - d)) mod 2 ^ 64"
  proof -
    have "unat a64 * 2 ^ d mod 2 ^ 64 + unat a0 div 2 ^ (64 - d) < 2 ^ 64"
      using unat_lt [of "push_bit d a64 OR drop_bit (64 - d) a0"] or by simp
    then show ?thesis by (metis mod_add_left_eq mod_less)
  qed
  have "u128 (softfloat_shortShiftLeft128 a64 a0 dst) =
      ((unat a64 * 2 ^ d + unat a0 div 2 ^ (64 - d)) mod 2 ^ 64) * 2 ^ 64 + unat a0 * 2 ^ d mod 2 ^ 64"
    using n or hi by (simp add: softfloat_shortShiftLeft128_def unat_push_bit_mod flip: d_def)
  also have "\<dots> = ((unat a64 * 2 ^ d + unat a0 div 2 ^ (64 - d)) * 2 ^ 64 + unat a0 * 2 ^ d mod 2 ^ 64) mod (2 ^ 64 * 2 ^ 64)"
    by (rule mod_concat) simp
  also have "(unat a64 * 2 ^ d + unat a0 div 2 ^ (64 - d)) * 2 ^ 64 + unat a0 * 2 ^ d mod 2 ^ 64 = val128 a64 a0 * 2 ^ d"
    using low by (simp add: algebra_simps)
  finally show ?thesis by (simp add: d_def)
qed

lemma val128_shift:
  assumes "0 < d" and "d < 64"
  shows "val128 (drop_bit d a64) (push_bit (64 - d) a64 OR drop_bit d a0) = val128 a64 a0 div 2 ^ d"
  using unat_or_shifts [of d a64 a0] shift_right_concat [of d 64 "unat a64" "unat a0"] assms
  by (simp add: unat_drop_bit)

lemma val128_mod: "d \<le> 64 \<Longrightarrow> val128 a64 a0 mod 2 ^ d = unat a0 mod 2 ^ d"
proof -
  assume "d \<le> 64"
  then have "(2::nat) ^ 64 = 2 ^ (64 - d) * 2 ^ d" by (simp flip: power_add)
  then have "unat a64 * 2 ^ 64 = (unat a64 * 2 ^ (64 - d)) * 2 ^ d" by simp
  then show ?thesis by (metis mod_mult_self3)
qed

lemma shortShiftRight128_correct:
  assumes "0 < unat dst" and "unat dst < 64"
  shows "u128 (softfloat_shortShiftRight128 a64 a0 dst) = val128 a64 a0 div 2 ^ unat dst"
proof -
  have n: "unat (- dst AND 63) = 64 - unat dst"
    using assms by (auto intro: unat_neg_and_63)
  show ?thesis
    using val128_shift [OF assms, of a64 a0] by (simp add: softfloat_shortShiftRight128_def n)
qed

lemma val128_jam:
  assumes "0 < d" and "d < 64"
  shows "val128 (drop_bit d a64)
      ((push_bit (64 - d) a64 OR drop_bit d a0) OR of_bool (push_bit (64 - d) a0 \<noteq> 0)) = jam (val128 a64 a0) d"
proof -
  let ?w = "push_bit (64 - d) a64 OR drop_bit d a0"
  have q: "val128 a64 a0 div 2 ^ d = unat (drop_bit d a64) * 2 ^ 64 + unat ?w"
    using val128_shift [OF assms, of a64 a0] by simp
  have ev: "even (val128 a64 a0 div 2 ^ d) \<longleftrightarrow> even (unat ?w)"
    unfolding q by simp
  have nz: "push_bit (64 - d) a0 \<noteq> 0 \<longleftrightarrow> val128 a64 a0 mod 2 ^ d \<noteq> 0"
    using push_bit_eq_0_iff_dvd [of d a0] val128_mod [of d a64 a0] assms by simp
  show ?thesis
    unfolding jam_def ev nz q unat_or_of_bool by simp
qed

lemma shortShiftRightJam128_correct:
  assumes "0 < unat dst" and "unat dst < 64"
  shows "u128 (softfloat_shortShiftRightJam128 a64 a0 dst) = jam (val128 a64 a0) (unat dst)"
proof -
  have n: "unat (- dst AND 63) = 64 - unat dst"
    using assms by (auto intro: unat_neg_and_63)
  show ?thesis
    unfolding softfloat_shortShiftRightJam128_def Let_def n uint128.select_convs
    using val128_jam [OF assms, of a64 a0] by (simp only: or.assoc)
qed

lemma ucast_neg_and_63:
  assumes "0 < unat (dst::u64)" and "unat dst < 64"
  shows "unat ((ucast (- dst) :: u8) AND 63) = 64 - unat dst"
proof -
  have "(ucast (- dst) :: u8) AND 63 = ucast (- dst AND 63)"
    by (rule bit_eqI) (auto simp: bit_simps)
  moreover have "unat (- dst AND 63) = 64 - unat dst"
    using assms by (auto intro: unat_neg_and_63)
  ultimately show ?thesis by (simp add: unat_ucast_small)
qed

lemma unat_and_63: "unat (w AND 63 :: 'a::len word) = unat w mod 64"
  using unat_and_mask [of w 6] by simp

lemma val128_div_high: "64 \<le> d \<Longrightarrow> val128 a64 a0 div 2 ^ d = unat a64 div 2 ^ (d - 64)"
proof -
  assume "64 \<le> d"
  then have "(2::nat) ^ d = 2 ^ 64 * 2 ^ (d - 64)" by (metis le_add_diff_inverse power_add)
  moreover have "val128 a64 a0 div 2 ^ 64 = unat a64"
    using unat_lt [of a0] by simp
  ultimately show ?thesis by (simp only: div_mult2_eq)
qed

lemma val128_mod_high: "64 \<le> d \<Longrightarrow> val128 a64 a0 mod 2 ^ d = (unat a64 mod 2 ^ (d - 64)) * 2 ^ 64 + unat a0"
proof -
  assume "64 \<le> d"
  then have "(2::nat) ^ d = 2 ^ 64 * 2 ^ (d - 64)" by (metis le_add_diff_inverse power_add)
  moreover have "val128 a64 a0 div 2 ^ 64 = unat a64" "val128 a64 a0 mod 2 ^ 64 = unat a0"
    using unat_lt [of a0] by simp_all
  ultimately show ?thesis by (simp only: mod_mult2_eq) (simp add: mult.commute)
qed

lemma shiftRightJam128_correct:
  assumes "0 < unat dst"
  shows "u128 (softfloat_shiftRightJam128 a64 a0 dst) = jam (val128 a64 a0) (unat dst)"
proof -
  consider "unat dst < 64" | "64 \<le> unat dst" "unat dst < 127" | "127 \<le> unat dst" by linarith
  then show ?thesis
  proof cases
    case 1
    have n: "unat ((ucast (- dst) :: u8) AND 63) = 64 - unat dst"
      using ucast_neg_and_63 [OF assms 1] .
    have "dst < 64" using 1 by (simp add: word_less_nat_alt)
    then show ?thesis
      unfolding softfloat_shiftRightJam128_def Let_def n if_P [OF \<open>dst < 64\<close>] uint128.select_convs
      using val128_jam [OF assms 1, of a64 a0] by (simp only: or.assoc)
  next
    case 2
    define d where "d = unat dst - 64"
    have d: "unat dst = d + 64" "d < 63" using 2 by (auto simp: d_def)
    have m: "unat (dst AND 63) = d" using d by (simp add: unat_and_63)
    have "push_bit d 1 - 1 = (2 ^ d - 1 :: u64)"
      by (simp add: push_bit_eq_mult)
    moreover have "(a64 AND (2 ^ d - 1)) OR a0 = 0 \<longleftrightarrow> unat a64 mod 2 ^ d = 0 \<and> unat a0 = 0"
      by (metis unat_and_mask unat_eq_0 or_eq_0_iff)
    ultimately have "u128 (softfloat_shiftRightJam128 a64 a0 dst) =
        unat a64 div 2 ^ d + of_bool (\<not> (unat a64 mod 2 ^ d = 0 \<and> unat a0 = 0) \<and> even (unat a64 div 2 ^ d))"
      using 2 by (simp add: softfloat_shiftRightJam128_def word_less_nat_alt m unat_or_of_bool unat_drop_bit)
    then show ?thesis
      using val128_div_high [of "unat dst" a64 a0] val128_mod_high [of "unat dst" a64 a0] d
      by (simp add: jam_def)
  next
    case 3
    have "val128 a64 a0 < 2 ^ 128" by (rule val128_lt)
    also have "(2::nat) ^ 128 \<le> 2 ^ Suc (unat dst)" using 3 by (intro power_increasing) auto
    finally have j: "val128 a64 a0 \<noteq> 0 \<Longrightarrow> jam (val128 a64 a0) (unat dst) = 1"
      by (intro jam_nonzero) auto
    have "a64 OR a0 = 0 \<longleftrightarrow> val128 a64 a0 = 0"
      by (simp add: unat_eq_0 or_eq_0_iff)
    then show ?thesis using 3 j by (auto simp: softfloat_shiftRightJam128_def word_less_nat_alt)
  qed
qed

lemma clz32_shift:
  assumes "unat sig \<noteq> 0" and "unat sig < 2 ^ 32"
  defines "c \<equiv> unat (softfloat_countLeadingZeros32 (ucast (sig :: u64)))"
  shows "c < 32" and "2 ^ 31 \<le> unat sig * 2 ^ c" and "unat sig * 2 ^ c < 2 ^ 32"
proof -
  have u: "unat (ucast sig :: u32) = unat sig" using assms(2) by (simp add: unat_ucast_small)
  have c: "c < 32" "2 ^ (31 - c) \<le> unat sig" "unat sig < 2 ^ (32 - c)"
    using clz32_correct [of "ucast sig"] assms(1) unfolding u c_def by (auto simp: clz_spec_def)
  have p: "(2::nat) ^ 31 = 2 ^ (31 - c) * 2 ^ c" "(2::nat) ^ 32 = 2 ^ (32 - c) * 2 ^ c"
    unfolding power_add [symmetric] using c(1) by auto
  show "c < 32" by (fact c)
  show "2 ^ 31 \<le> unat sig * 2 ^ c" unfolding p using c(2) by (intro mult_le_mono1)
  show "unat sig * 2 ^ c < 2 ^ 32" unfolding p using c(3) by simp
qed

lemma clz64_shift:
  assumes "unat sig \<noteq> 0"
  defines "c \<equiv> unat (softfloat_countLeadingZeros64 sig)"
  shows "c < 64" and "2 ^ 63 \<le> unat sig * 2 ^ c" and "unat sig * 2 ^ c < 2 ^ 64"
proof -
  have c: "c < 64" "2 ^ (63 - c) \<le> unat sig" "unat sig < 2 ^ (64 - c)"
    using clz64_correct [of sig] assms(1) unfolding c_def by (auto simp: clz_spec_def)
  have p: "(2::nat) ^ 63 = 2 ^ (63 - c) * 2 ^ c" "(2::nat) ^ 64 = 2 ^ (64 - c) * 2 ^ c"
    unfolding power_add [symmetric] using c(1) by auto
  show "c < 64" by (fact c)
  show "2 ^ 63 \<le> unat sig * 2 ^ c" unfolding p using c(2) by (intro mult_le_mono1)
  show "unat sig * 2 ^ c < 2 ^ 64" unfolding p using c(3) by simp
qed

lemma unat_mult_u32:
  assumes "unat a < 2 ^ 32" and "unat b < 2 ^ 32"
  shows "unat (a * b :: u64) = unat a * unat b"
proof (rule unat_mult_small)
  have "unat a * unat b < 2 ^ 32 * 2 ^ 32" using assms by (intro mult_strict_mono) auto
  then show "unat a * unat b < 2 ^ LENGTH(64)" by simp
qed

lemma unat_split32:
  fixes a :: u64
  shows "unat (ucast (ucast (drop_bit 32 a) :: u32) :: u64) = unat a div 2 ^ 32"
    and "unat (ucast (ucast a :: u32) :: u64) = unat a mod 2 ^ 32"
    and "unat a = unat a div 2 ^ 32 * 2 ^ 32 + unat a mod 2 ^ 32"
    and "unat a div 2 ^ 32 < 2 ^ 32" and "unat a mod 2 ^ 32 < 2 ^ 32"
proof -
  show lt: "unat a div 2 ^ 32 < 2 ^ 32" using unat_lt [of a] by (simp add: div_less_iff_less_mult)
  show "unat (ucast (ucast (drop_bit 32 a) :: u32) :: u64) = unat a div 2 ^ 32"
    using lt by (simp add: unat_ucast_up unat_ucast_small unat_drop_bit)
  show "unat (ucast (ucast a :: u32) :: u64) = unat a mod 2 ^ 32"
    by (simp add: unat_ucast_up unat_ucast_mod)
qed (simp_all only: div_mult_mod_eq, simp)

lemma mul64To128_correct: "u128 (softfloat_mul64To128 a b) = unat a * unat b"
proof -
  define a1 a0 b1 b0 where "a1 = unat a div 2 ^ 32" and "a0 = unat a mod 2 ^ 32"
    and "b1 = unat b div 2 ^ 32" and "b0 = unat b mod 2 ^ 32"
  define A1 A0 B1 B0 :: u64 where "A1 = ucast (ucast (drop_bit 32 a) :: u32)" and "A0 = ucast (ucast a :: u32)"
    and "B1 = ucast (ucast (drop_bit 32 b) :: u32)" and "B0 = ucast (ucast b :: u32)"
  have u: "unat A1 = a1" "unat A0 = a0" "unat B1 = b1" "unat B0 = b0"
    unfolding A1_def A0_def B1_def B0_def a1_def a0_def b1_def b0_def by (rule unat_split32)+
  have lt: "a1 < 2 ^ 32" "a0 < 2 ^ 32" "b1 < 2 ^ 32" "b0 < 2 ^ 32"
    unfolding a1_def a0_def b1_def b0_def by (rule unat_split32)+
  have ab: "unat a = a1 * 2 ^ 32 + a0" "unat b = b1 * 2 ^ 32 + b0"
    unfolding a1_def a0_def b1_def b0_def by (rule unat_split32)+
  have p: "unat (A0 * B0) = a0 * b0" "unat (A1 * B0) = a1 * b0" "unat (A0 * B1) = a0 * b1" "unat (A1 * B1) = a1 * b1"
    using lt by (simp_all add: unat_mult_u32 u)
  define mid where "mid = A1 * B0 + A0 * B1"
  define c1 c2 :: bool where "c1 \<longleftrightarrow> mid < A1 * B0" and "c2 \<longleftrightarrow> A0 * B0 + push_bit 32 mid < push_bit 32 mid"
  have M: "a1 * b0 + a0 * b1 = unat mid + of_bool c1 * 2 ^ 64"
    using unat_add_carry [of "A1 * B0" "A0 * B1"] unfolding mid_def [symmetric] c1_def p
    by (simp only: len_num1 len_bit0) simp
  have Z: "a0 * b0 + unat (push_bit 32 mid) = unat (A0 * B0 + push_bit 32 mid) + of_bool c2 * 2 ^ 64"
    unfolding c2_def add.commute [of "A0 * B0"]
    using unat_add_carry [of "push_bit 32 mid" "A0 * B0"] p(1) by simp
  have s: "unat (push_bit 32 mid) = (unat mid mod 2 ^ 32) * 2 ^ 32"
    unfolding unat_push_bit_mod using mult_mod_left [of "unat mid" "2 ^ 32" "2 ^ 32"] by simp
  have h: "unat (push_bit 32 (of_bool c1) OR drop_bit 32 mid) = of_bool c1 * 2 ^ 32 + unat mid div 2 ^ 32"
    using unat_or_disjoint [of "drop_bit 32 mid" 32 "push_bit 32 (of_bool c1)"] unat_split32(4) [of mid]
    by (cases c1) (simp_all add: unat_drop_bit or.commute)
  define H where "H = a1 * b1 + (of_bool c1 * 2 ^ 32 + unat mid div 2 ^ 32) + of_bool c2"
  have total: "unat a * unat b = H * 2 ^ 64 + unat (A0 * B0 + push_bit 32 mid)"
  proof -
    have "unat a * unat b = a1 * b1 * 2 ^ 64 + (a1 * b0 + a0 * b1) * 2 ^ 32 + a0 * b0"
      unfolding ab by (simp add: algebra_simps)
    also have "\<dots> = a1 * b1 * 2 ^ 64 + unat mid * 2 ^ 32 + of_bool c1 * 2 ^ 96 + a0 * b0"
      unfolding M by (simp add: algebra_simps)
    also have "unat mid * 2 ^ 32 = unat mid div 2 ^ 32 * 2 ^ 64 + unat (push_bit 32 mid)"
    proof -
      have "(q * 2 ^ 32 + r) * 2 ^ 32 = q * 2 ^ 64 + r * 2 ^ 32" for q r :: nat by simp
      from this [of "unat mid div 2 ^ 32" "unat mid mod 2 ^ 32"] show ?thesis
        unfolding s by (simp only: div_mult_mod_eq)
    qed
    finally show ?thesis using Z unfolding H_def by (simp add: algebra_simps)
  qed
  have "unat a * unat b < 2 ^ 64 * 2 ^ 64"
    using unat_lt [of a] unat_lt [of b] by (intro mult_strict_mono) simp_all
  then have "H * 2 ^ 64 < 2 ^ 64 * 2 ^ 64" unfolding total by (rule add_lessD1)
  then have Hlt: "H < 2 ^ 64" by (simp only: mult_less_cancel2)
  have "unat (A1 * B1 + (push_bit 32 (of_bool c1) OR drop_bit 32 mid) + of_bool c2) = H"
    using Hlt unfolding H_def by (subst unat_add_small; subst unat_add_small) (auto simp: p h)
  then show ?thesis
    unfolding softfloat_mul64To128_def Let_def A1_def [symmetric] A0_def [symmetric] B1_def [symmetric] B0_def [symmetric]
      mid_def [symmetric] c1_def [symmetric] c2_def [symmetric] uint128.select_convs total
    by simp
qed


lemma val128_jam64: "unat (a64 OR of_bool (a0 \<noteq> 0)) = jam (val128 a64 a0) 64"
proof -
  have "val128 a64 a0 div 2 ^ 64 = unat a64" "val128 a64 a0 mod 2 ^ 64 = unat a0"
    using unat_lt [of a0] by simp_all
  moreover have "a0 \<noteq> 0 \<longleftrightarrow> unat a0 \<noteq> 0" by (simp add: unat_eq_0)
  ultimately show ?thesis unfolding jam_def unat_or_of_bool by (simp only:)
qed

end
