(* ===== verification/Format.thy ===== *)
theory Format
  imports Primitives
begin

text \<open>
  What the bit pattern of a binary floating-point number means and what a correctly rounded result
  is, for every format at once. A pattern is a natural number: sign, exponent field and fraction
  field from the top; \<open>P\<close> is the number of fraction bits and \<open>Emax\<close> the exponent field of
  infinities and NaNs. Magnitudes are counted in units of the least positive number.
\<close>

abbreviation (input) fp_inf :: "nat \<Rightarrow> nat \<Rightarrow> nat" where
  "fp_inf P Emax \<equiv> Emax * 2 ^ P"

definition fp_half :: "nat \<Rightarrow> nat \<Rightarrow> nat" where
  "fp_half P Emax = (Emax + 1) * 2 ^ P"

text \<open>The integer significand of a magnitude, leading bit included, and its exponent.\<close>

definition fp_sig :: "nat \<Rightarrow> nat \<Rightarrow> nat" where
  "fp_sig P n = (if n < 2 ^ P then n else 2 ^ P + n mod 2 ^ P)"

definition fp_exp :: "nat \<Rightarrow> nat \<Rightarrow> nat" where
  "fp_exp P n = n div 2 ^ P - 1"

text \<open>
  The exceptions of rounding the magnitude \<open>x\<close> and the result of a correctly rounded operation:
  the pattern \<open>r\<close> of sign \<open>s\<close> and the state with the exceptions raised.
\<close>

definition fl_flags :: "nat \<Rightarrow> nat \<Rightarrow> softfloat_state \<Rightarrow> bool \<Rightarrow> real \<Rightarrow> uint_fast8" where
  "fl_flags P Emax st s x =
     (if fl_exact P (fp_inf P Emax) x then 0
      else if fl_overflow P (fp_inf P Emax) (mode st) s x then softfloat_flag_overflow OR softfloat_flag_inexact
      else if fl_tiny P (tiny_after st) (mode st) s x then softfloat_flag_underflow OR softfloat_flag_inexact
      else softfloat_flag_inexact)"

definition fl_result ::
    "nat \<Rightarrow> nat \<Rightarrow> softfloat_state \<Rightarrow> bool \<Rightarrow> real \<Rightarrow> nat \<Rightarrow> softfloat_state \<Rightarrow> bool" where
  "fl_result P Emax st s x r st' \<longleftrightarrow>
     (\<exists>n. fl_rounds P (fp_inf P Emax) (mode st) s x n \<and> r = of_bool s * fp_half P Emax + n) \<and>
     st' = softfloat_raiseFlags (fl_flags P Emax st s x) st"

text \<open>The pattern and the exceptions the round-and-pack algorithm produces.\<close>

definition rp_pattern :: "nat \<Rightarrow> nat \<Rightarrow> nat \<Rightarrow> rmode \<Rightarrow> bool \<Rightarrow> int \<Rightarrow> nat \<Rightarrow> nat" where
  "rp_pattern P G Emax m s e sig = of_bool s * fp_half P Emax + round_pack P G Emax m s e sig"

definition rp_flags :: "nat \<Rightarrow> nat \<Rightarrow> nat \<Rightarrow> bool \<Rightarrow> rmode \<Rightarrow> bool \<Rightarrow> int \<Rightarrow> nat \<Rightarrow> uint_fast8" where
  "rp_flags P G Emax after m s e sig =
     (if round_pack_overflow P G Emax m s e sig then softfloat_flag_overflow OR softfloat_flag_inexact
      else if round_pack_tiny_sig e sig mod 2 ^ G = 0 then 0
      else if e < 0 \<and> (\<not> after \<or> e < - 1 \<or> sig + round_inc m s G < 2 ^ (P + G + 1))
      then softfloat_flag_underflow OR softfloat_flag_inexact
      else softfloat_flag_inexact)"

lemma fmag_sig_exp: "fmag P n = fp_sig P n * 2 ^ fp_exp P n"
  by (simp add: fmag_def fp_sig_def fp_exp_def)

lemma fp_sig_less: "fp_sig P n < 2 ^ (P + 1)"
  by (auto simp: fp_sig_def intro: less_le_trans [of _ "2 ^ P"])

lemma fp_sig_exp_index: "fp_exp P n * 2 ^ P + fp_sig P n = n"
proof (cases "n < 2 ^ P")
  case False
  then have "1 \<le> n div 2 ^ P" by (simp add: Suc_le_eq div_greater_zero_iff)
  then have "(n div 2 ^ P - 1) * 2 ^ P + 2 ^ P = n div 2 ^ P * 2 ^ P"
    by (simp add: algebra_simps)
  then show ?thesis
    using False div_mult_mod_eq [of n "2 ^ P"] by (simp add: fp_sig_def fp_exp_def)
qed (simp add: fp_sig_def fp_exp_def)

lemma fmag_0 [simp]: "fmag P 0 = 0"
  by (simp add: fmag_def)

lemma fmag_eq_0_iff [simp]: "fmag P n = 0 \<longleftrightarrow> n = 0"
  using fmag_eq_iff [of P n 0] by simp

lemma fl_rounds_exact:
  assumes "n < fp_inf P Emax"
  shows "fl_rounds P (fp_inf P Emax) m s (real (fmag P n)) n"
proof -
  have "between P (real (fmag P n)) n" by (simp add: between_def)
  moreover have "round_index P m s (real (fmag P n)) n = n"
    by (cases m) (simp_all add: round_index_def)
  ultimately show ?thesis using assms unfolding fl_rounds_def by (intro exI [of _ n]) simp
qed

lemma fl_flags_exact: "n < fp_inf P Emax \<Longrightarrow> fl_flags P Emax st s (real (fmag P n)) = 0"
  by (auto simp: fl_flags_def fl_exact_def)

lemma fl_result_exact:
  assumes "n < fp_inf P Emax" and "x = real (fmag P n)" and "r = of_bool s * fp_half P Emax + n"
  shows "fl_result P Emax st s x r st"
  unfolding fl_result_def using assms fl_rounds_exact [OF assms(1)] fl_flags_exact [OF assms(1)]
  by auto

lemma fl_result_unique:
  "fl_result P Emax st s x r st1 \<Longrightarrow> fl_result P Emax st s x r' st2 \<Longrightarrow> r = r' \<and> st1 = st2"
  unfolding fl_result_def using fl_rounds_unique by blast

lemma fl_result_exists: "0 \<le> x \<Longrightarrow> \<exists>r st'. fl_result P Emax st s x r st'"
  unfolding fl_result_def using fl_rounds_exists by blast

lemma pack_index_less:
  fixes e k P :: nat
  assumes "k < 2 ^ (P + 1)" and "e + 2 \<le> Emax"
  shows "e * 2 ^ P + k < Emax * 2 ^ P"
proof -
  have "e * 2 ^ P + 2 ^ (P + 1) \<le> Emax * 2 ^ P"
    using mult_le_mono1 [OF assms(2), of "2 ^ P"] by (simp add: algebra_simps)
  then show ?thesis using assms(1) by linarith
qed

lemma fl_result_pack:
  assumes "k < 2 ^ (P + 1)" and "2 ^ P \<le> k \<or> e = 0" and "e + 2 \<le> Emax"
    and "x = real k * 2 ^ e" and "r = of_bool s * fp_half P Emax + (e * 2 ^ P + k)"
  shows "fl_result P Emax st s x r st"
proof (rule fl_result_exact)
  show "e * 2 ^ P + k < fp_inf P Emax" using assms(1,3) by (rule pack_index_less)
  show "x = real (fmag P (e * 2 ^ P + k))" using fmag_pack [of k P e] assms(1,2,4) by simp
qed (fact assms(5))

context fp_format
begin

lemma rp_result:
  assumes "agrees (G - 1) t sig" and "2 ^ (P + G) \<le> sig" and "sig < 2 ^ (P + G + 1)"
    and "x = t * 2 powi (e - int G)"
  shows "fl_result P Emax st s x (rp_pattern P G Emax (mode st) s e sig)
           (softfloat_raiseFlags (rp_flags P G Emax (tiny_after st) (mode st) s e sig) st)"
proof -
  note a = assms(1-3)
  have "fl_flags P Emax st s x = rp_flags P G Emax (tiny_after st) (mode st) s e sig"
    unfolding fl_flags_def rp_flags_def assms(4) round_pack_exact_correct [OF a, where m = "mode st" and s = s and e = e]
      round_pack_overflow_correct [OF a] round_pack_tiny_correct [OF a]
    by simp
  moreover have "fl_rounds P (fp_inf P Emax) (mode st) s x (round_pack P G Emax (mode st) s e sig)"
    unfolding assms(4) by (rule round_pack_correct [OF a])
  ultimately show ?thesis by (auto simp: fl_result_def rp_pattern_def)
qed

end

lemma index_div_less: "n < Emax * 2 ^ P \<longleftrightarrow> n div 2 ^ P < (Emax::nat)"
  by (simp add: div_less_iff_less_mult)

definition align_sig :: "nat \<Rightarrow> nat \<Rightarrow> nat \<Rightarrow> nat" where
  "align_sig P k n = fp_sig P n * 2 ^ k * (if n < 2 ^ P then 2 else 1)"

lemma powi_diff_nat: "2 powi (int E - 1 - int k) = (2::real) ^ E / (2 * 2 ^ k)"
  by (simp add: power_int_diff)

lemma fmag_aligned:
  assumes "n div 2 ^ P \<le> E"
  shows "real (fmag P n) = real (align_sig P k n) / 2 ^ (E - n div 2 ^ P) * 2 powi (int E - 1 - int k)"
proof (cases "n < 2 ^ P")
  case True
  then show ?thesis by (simp add: align_sig_def fmag_def fp_sig_def powi_diff_nat)
next
  case False
  then obtain e where e: "n div 2 ^ P = Suc e"
    by (metis div_eq_0_iff not0_implies_Suc power_not_zero zero_neq_numeral)
  obtain j where j: "E = Suc e + j" using assms e by (metis le_add_diff_inverse)
  show ?thesis
    using False unfolding fmag_sig_exp align_sig_def powi_diff_nat fp_exp_def e j
    by (simp add: power_add)
qed

lemma align_sig_less: "align_sig P k n < 2 ^ (P + k + 1)"
proof (cases "n < 2 ^ P")
  case True
  then show ?thesis by (simp add: align_sig_def fp_sig_def power_add)
next
  case False
  have "fp_sig P n * 2 ^ k < 2 ^ (P + 1) * 2 ^ k" using fp_sig_less by simp
  then show ?thesis using False by (simp add: align_sig_def power_add)
qed

lemma align_sig_normal: "2 ^ P \<le> n \<Longrightarrow> align_sig P k n = (2 ^ P + n mod 2 ^ P) * 2 ^ k"
  by (simp add: align_sig_def fp_sig_def)

lemma align_sig_ge: "2 ^ P \<le> n \<Longrightarrow> 2 ^ (P + k) \<le> align_sig P k n"
  by (simp add: align_sig_normal power_add)

context fp_format
begin

lemma add_aligned:
  assumes "nA div 2 ^ P < nB div 2 ^ P" and "3 \<le> G"
    and "z = align_sig P (G - 1) nB + jam (align_sig P (G - 1) nA) (nB div 2 ^ P - nA div 2 ^ P)"
  obtains t where "agrees 1 t z" 
    and "real (fmag P nA) + real (fmag P nB) = t * 2 powi (int (nB div 2 ^ P) - int G)"
    and "2 ^ (P + G - 1) \<le> z" and "z < 2 ^ (P + G + 1)"
proof -
  define d where "d = nB div 2 ^ P - nA div 2 ^ P"
  define a b where "a = align_sig P (G - 1) nA" and "b = align_sig P (G - 1) nB"
  have nB: "2 ^ P \<le> nB" using assms(1) by (metis div_less not_less_zero not_le)
  have "even b" unfolding b_def align_sig_def using assms(2) by simp
  then have ag: "agrees 1 (real b + real a / 2 ^ d) z"
    unfolding assms(3) a_def [symmetric] b_def [symmetric] d_def [symmetric]
    by (intro agrees_add agrees_jam_nat) simp
  have "int (nB div 2 ^ P) - 1 - int (G - 1) = int (nB div 2 ^ P) - int G"
    using assms(2) by simp
  then have x: "real (fmag P nA) + real (fmag P nB) = (real b + real a / 2 ^ d) * 2 powi (int (nB div 2 ^ P) - int G)"
    using fmag_aligned [of nA P "nB div 2 ^ P" "G - 1"] fmag_aligned [of nB P "nB div 2 ^ P" "G - 1"] assms(1)
    by (simp add: a_def b_def d_def distrib_right)
  have pg: "P + (G - 1) = P + G - 1" "P + (G - 1) + 1 = P + G" using assms(2) by auto
  have b: "2 ^ (P + G - 1) \<le> b" "b < 2 ^ (P + G)"
    using align_sig_ge [OF nB, of "G - 1", unfolded pg(1)] align_sig_less [of P "G - 1" nB, unfolded pg(2)]
    unfolding b_def by simp_all
  have "a < 2 ^ (P + G)" using align_sig_less [of P "G - 1" nA, unfolded pg(2)] unfolding a_def .
  then have "a \<le> 2 ^ (P + G) * 2 ^ d" by (auto intro: order.trans less_imp_le)
  then have "jam a d \<le> 2 ^ (P + G)" using P_pos by (intro jam_le_bound) auto
  then have "z < 2 ^ (P + G + 1)" using b unfolding assms(3) a_def b_def d_def by simp
  moreover have "2 ^ (P + G - 1) \<le> z" using b(1) unfolding assms(3) b_def by simp
  ultimately show thesis using that [OF ag x] by simp
qed

lemma sub_aligned:
  assumes "nA div 2 ^ P < nB div 2 ^ P" and "3 \<le> G"
    and "z = align_sig P G nB - jam (align_sig P G nA) (nB div 2 ^ P - nA div 2 ^ P)"
  obtains t where "t = real z \<or> agrees (G - 2) t z \<and> 2 ^ (P + G - 1) \<le> z"
    and "real (fmag P nB) - real (fmag P nA) = t * 2 powi (int (nB div 2 ^ P) - 1 - int G)"
    and "z \<noteq> 0" and "z < 2 ^ (P + G + 1)" and "jam (align_sig P G nA) (nB div 2 ^ P - nA div 2 ^ P) \<le> align_sig P G nB"
proof -
  define d where "d = nB div 2 ^ P - nA div 2 ^ P"
  define a b where "a = align_sig P G nA" and "b = align_sig P G nB"
  define t where "t = real b - real a / 2 ^ d"
  have z: "z = b - jam a d" unfolding assms(3) a_def b_def d_def ..
  have nB: "2 ^ P \<le> nB" using assms(1) by (metis div_less not_less_zero not_le)
  have d: "1 \<le> d" using assms(1) by (simp add: d_def)
  have b: "2 ^ (P + G) \<le> b" "b < 2 ^ (P + G + 1)"
    using align_sig_ge [OF nB, of G] align_sig_less [of P G nB] unfolding b_def by simp_all
  have a: "a < 2 ^ (P + G + 1)" using align_sig_less [of P G nA] unfolding a_def .
  have x: "real (fmag P nB) - real (fmag P nA) = t * 2 powi (int (nB div 2 ^ P) - 1 - int G)"
    using fmag_aligned [of nA P "nB div 2 ^ P" G] fmag_aligned [of nB P "nB div 2 ^ P" G] assms(1)
    by (simp add: t_def a_def b_def d_def left_diff_distrib)
  have dv: "2 ^ G dvd a" "2 ^ G dvd b" by (simp_all add: a_def b_def align_sig_def)
  have pg: "(2::nat) ^ (P + G + 1) = 2 ^ (P + G) * 2" "(2::nat) ^ (P + G) = 2 ^ (P + G - 1) * 2"
    using assms(2) by (simp_all flip: power_Suc2)
  have ev: "even ((2::nat) ^ (P + G - 1))" "even ((2::nat) ^ (P + G))" using assms(2) by simp_all
  show thesis
  proof (cases "d = 1")
    case True
    have "2 dvd (2::nat) ^ G" using assms(2) by simp
    then have "even a" using dv(1) by (rule dvd_trans)
    then have j: "jam a d = a div 2" "a = a div 2 * 2" using True by (auto simp: jam_def)
    have lt: "a div 2 < 2 ^ (P + G)" using a by (simp add: pg less_mult_imp_div_less)
    have ra: "real a = real (a div 2) * 2" using j(2) by (metis of_nat_mult of_nat_numeral)
    have "t = real b - real (a div 2)" unfolding t_def True by (simp only: ra) simp
    then have "t = real z" using lt b j z by (simp add: of_nat_diff)
    moreover have "z \<noteq> 0" "z < 2 ^ (P + G + 1)" "jam a d \<le> b" using lt b z j by linarith+
    ultimately show thesis using that [OF _ x] unfolding a_def b_def d_def by blast
  next
    case False
    with d have d2: "2 \<le> d" by simp
    have "2 ^ (P + G - 1) * (2::nat) ^ 2 \<le> 2 ^ (P + G - 1) * 2 ^ d"
      using d2 by (intro mult_le_mono2 power_increasing) auto
    moreover have "a < 2 ^ (P + G - 1) * 2 ^ 2" using a unfolding pg by simp
    ultimately have "a < 2 ^ (P + G - 1) * 2 ^ d" by (rule less_le_trans [rotated])
    then have j: "jam a d < 2 ^ (P + G - 1)" using ev by (simp add: jam_less_iff)
    have "2 ^ (G - 2) dvd b" using dv(2) by (rule dvd_trans [rotated]) (simp add: le_imp_power_dvd)
    then have "agrees (G - 2) t z"
      unfolding t_def z using agrees_mono [OF agrees_jam_nat, of "G - 2" a d] assms(2) j b pg
      by (intro agrees_diff) auto
    moreover have "2 ^ (P + G - 1) \<le> z" "z \<noteq> 0" using j b pg z by auto
    moreover have "z < 2 ^ (P + G + 1)" "jam a d \<le> b" using j b pg z by linarith+
    ultimately show thesis using that [OF _ x] unfolding a_def b_def d_def by blast
  qed
qed

end

end
