(* ===== verification/Round_Int.thy ===== *)
theory Round_Int
  imports Format
begin

text \<open>
  Rounding to an integer, for the conversions from floating point: the specification
  (\<open>round_int\<close>, \<open>int_rounded\<close>), its reading in each rounding mode, and the lemmas that connect it
  with the shifted significands the conversions work on. With the \<open>8086-SSE\<close> specialization every
  invalid conversion returns the same value per result type, whether from a NaN or from an overflow.
\<close>

abbreviation (input) i32_fromPosOverflow :: int where "i32_fromPosOverflow \<equiv> - 0x7FFFFFFF - 1"
abbreviation (input) i32_fromNegOverflow :: int where "i32_fromNegOverflow \<equiv> - 0x7FFFFFFF - 1"
abbreviation (input) i32_fromNaN :: int where "i32_fromNaN \<equiv> - 0x7FFFFFFF - 1"
abbreviation (input) ui32_fromPosOverflow :: uint_fast32 where "ui32_fromPosOverflow \<equiv> 0xFFFFFFFF"
abbreviation (input) ui32_fromNegOverflow :: uint_fast32 where "ui32_fromNegOverflow \<equiv> 0xFFFFFFFF"
abbreviation (input) ui32_fromNaN :: uint_fast32 where "ui32_fromNaN \<equiv> 0xFFFFFFFF"
abbreviation (input) i64_fromPosOverflow :: int where "i64_fromPosOverflow \<equiv> - 0x7FFFFFFFFFFFFFFF - 1"
abbreviation (input) i64_fromNegOverflow :: int where "i64_fromNegOverflow \<equiv> - 0x7FFFFFFFFFFFFFFF - 1"
abbreviation (input) i64_fromNaN :: int where "i64_fromNaN \<equiv> - 0x7FFFFFFFFFFFFFFF - 1"
abbreviation (input) ui64_fromPosOverflow :: uint_fast64 where "ui64_fromPosOverflow \<equiv> 0xFFFFFFFFFFFFFFFF"
abbreviation (input) ui64_fromNegOverflow :: uint_fast64 where "ui64_fromNegOverflow \<equiv> 0xFFFFFFFFFFFFFFFF"
abbreviation (input) ui64_fromNaN :: uint_fast64 where "ui64_fromNaN \<equiv> 0xFFFFFFFFFFFFFFFF"

abbreviation (input) raise_inexact :: "softfloat_state \<Rightarrow> softfloat_state" where
  "raise_inexact st \<equiv> st\<lparr>softfloat_exceptionFlags := softfloat_exceptionFlags st OR softfloat_flag_inexact\<rparr>"

section \<open>Rounding to an integer\<close>

text \<open>
  The integer nearest to a real number in a rounding mode, and what a conversion to the range
  \<open>lo .. hi\<close> returns: the rounded value, with the inexact flag if the caller asked for it and the
  value changed, or the default and the invalid flag when the rounded value does not fit.
\<close>

definition round_int :: "rmode \<Rightarrow> real \<Rightarrow> int" where
  "round_int m x = (if x < 0 then - int (round_mag m True (- x)) else int (round_mag m False x))"

definition int_rounded :: "int \<Rightarrow> int \<Rightarrow> int \<Rightarrow> rmode \<Rightarrow> bool \<Rightarrow> real \<Rightarrow> softfloat_state \<Rightarrow> int \<times> softfloat_state" where
  "int_rounded lo hi dflt m exact x st =
     (let z = round_int m x
      in if lo \<le> z \<and> z \<le> hi
         then (z, if exact \<and> of_int z \<noteq> x then softfloat_raiseFlags softfloat_flag_inexact st else st)
         else (dflt, softfloat_raiseFlags softfloat_flag_invalid st))"

text \<open>The same on a magnitude that is already rounded to \<open>k\<close>.\<close>

definition to_int :: "int \<Rightarrow> int \<Rightarrow> int \<Rightarrow> bool \<Rightarrow> nat \<Rightarrow> bool \<Rightarrow> bool \<Rightarrow> softfloat_state \<Rightarrow> int \<times> softfloat_state" where
  "to_int lo hi dflt s k inexact exact st =
     (let z = if s then - int k else int k
      in if lo \<le> z \<and> z \<le> hi
         then (z, if inexact \<and> exact then softfloat_raiseFlags softfloat_flag_inexact st else st)
         else (dflt, softfloat_raiseFlags softfloat_flag_invalid st))"

lemma round_mag_0 [simp]: "round_mag m s 0 = 0"
  by (cases m) (simp_all add: round_mag_def)

lemma round_mag_exact_iff: "0 \<le> y \<Longrightarrow> real (round_mag m s y) = y \<longleftrightarrow> frac y = 0"
proof
  assume "0 \<le> y" "frac y = 0"
  then show "real (round_mag m s y) = y"
    by (cases m) (simp_all add: round_mag_def frac_def)
next
  assume e: "real (round_mag m s y) = y"
  have "frac (real (round_mag m s y)) = 0" by (metis Ints_of_nat frac_eq_0_iff)
  with e show "frac y = 0" by simp
qed

lemma round_int_signed:
  assumes "0 \<le> y"
  shows "round_int m (if s then - y else y) = (if s then - int (round_mag m s y) else int (round_mag m s y))"
  using assms by (cases "y = 0") (auto simp: round_int_def)

text \<open>The modes that have names of their own in mathematics.\<close>

lemma round_int_min: "round_int Round_min x = \<lfloor>x\<rfloor>"
proof (cases "x < 0")
  case True
  have "frac (- x) = 0 \<longleftrightarrow> - x = of_int \<lfloor>- x\<rfloor>" by (simp add: frac_def)
  moreover have "0 \<le> \<lfloor>- x\<rfloor>" using True by simp
  moreover have "0 \<le> frac (- x)" by simp
  moreover have "of_int \<lfloor>- x\<rfloor> \<le> - x" "- x < of_int \<lfloor>- x\<rfloor> + 1" by linarith+
  ultimately show ?thesis
    using True by (auto simp: round_int_def round_mag_def le_less; linarith)
qed (simp add: round_int_def round_mag_def)

lemma round_int_max: "round_int Round_max x = \<lceil>x\<rceil>"
proof (cases "x < 0")
  case True
  then show ?thesis by (simp add: round_int_def round_mag_def ceiling_def)
next
  case False
  have "frac x = 0 \<longleftrightarrow> x = of_int \<lfloor>x\<rfloor>" by (simp add: frac_def)
  moreover have "0 \<le> \<lfloor>x\<rfloor>" using False by simp
  moreover have "0 \<le> frac x" by simp
  moreover have "of_int \<lfloor>x\<rfloor> \<le> x" "x < of_int \<lfloor>x\<rfloor> + 1" by linarith+
  ultimately show ?thesis
    using False by (auto simp: round_int_def round_mag_def le_less; linarith)
qed

lemma round_int_minMag: "round_int Round_minMag x = (if x < 0 then \<lceil>x\<rceil> else \<lfloor>x\<rfloor>)"
  by (simp add: round_int_def round_mag_def ceiling_def)

lemma round_mag_nearest: "m = Round_near_even \<or> m = Round_near_maxMag \<Longrightarrow> 0 \<le> y \<Longrightarrow> \<bar>real (round_mag m s y) - y\<bar> \<le> 1 / 2"
proof -
  assume m: "m = Round_near_even \<or> m = Round_near_maxMag" and y: "0 \<le> y"
  have f: "y = real (nat \<lfloor>y\<rfloor>) + frac y" using y by (simp add: frac_def)
  define k r where "k = nat \<lfloor>y\<rfloor>" and "r = frac y"
  have "0 \<le> r" "r < 1" by (simp_all add: r_def frac_lt_1)
  then show ?thesis using m f unfolding k_def [symmetric] r_def [symmetric] round_mag_def by auto
qed

lemma round_int_nearest: "m = Round_near_even \<or> m = Round_near_maxMag \<Longrightarrow> \<bar>of_int (round_int m x) - x\<bar> \<le> 1 / 2"
proof -
  assume m: "m = Round_near_even \<or> m = Round_near_maxMag"
  have "\<bar>of_int (round_int m x) - x\<bar> = (if x < 0 then \<bar>real (round_mag m True (- x)) - (- x)\<bar> else \<bar>real (round_mag m False x) - x\<bar>)"
    by (auto simp: round_int_def abs_if)
  then show ?thesis using round_mag_nearest [OF m, of x False] round_mag_nearest [OF m, of "- x" True] by auto
qed

lemma to_int_rounded:
  assumes "agrees (G - 1) (y * 2 ^ G) n" and "1 \<le> G" and "x = (if s then - y else y)"
  shows "to_int lo hi dflt s (round_sig m s G n) (n mod 2 ^ G \<noteq> 0) exact st = int_rounded lo hi dflt m exact x st"
proof -
  have y: "0 \<le> y" using agrees_nonneg [OF assms(1)] zero_less_power [of "2::real" G] by (auto simp: zero_le_mult_iff simp del: zero_less_power)
  have k: "round_sig m s G n = round_mag m s y"
    using round_sig_agrees [OF assms(1,2), of m s] by simp
  have "y * 2 ^ G / 2 ^ G = y" by simp
  then have "n mod 2 ^ G \<noteq> 0 \<longleftrightarrow> 0 < frac y"
    using floor_frac_agrees(4) [OF assms(1,2)] by (simp only:)
  moreover have "0 < frac y \<longleftrightarrow> frac y \<noteq> 0" by (metis frac_ge_0 less_le)
  ultimately have "n mod 2 ^ G \<noteq> 0 \<longleftrightarrow> frac y \<noteq> 0" by (simp only:)
  then have i: "n mod 2 ^ G \<noteq> 0 \<longleftrightarrow> real (round_mag m s y) \<noteq> y" using round_mag_exact_iff [OF y] by simp
  show ?thesis
    unfolding int_rounded_def to_int_def assms(3) round_int_signed [OF y] k i Let_def by auto
qed

lemma round_mag_ge: "real c \<le> y \<Longrightarrow> c \<le> round_mag m s y"
  by (simp add: round_mag_def le_nat_floor trans_le_add1)

lemma int_rounded_invalid:
  assumes "real c \<le> y" and "x = (if s then - y else y)" and "int c > hi" and "- int c < lo"
  shows "int_rounded lo hi dflt m exact x st = (dflt, softfloat_raiseFlags softfloat_flag_invalid st)"
proof -
  have "0 \<le> y" using assms(1) by (rule order_trans [rotated]) simp
  then show ?thesis
    unfolding int_rounded_def assms(2) using round_int_signed [of y m s] round_mag_ge [OF assms(1), of m s] assms(3,4) by auto
qed

lemma agrees_tiny: "0 < t \<Longrightarrow> t < 2 ^ k \<Longrightarrow> 0 < n \<Longrightarrow> n < 2 ^ k \<Longrightarrow> agrees k t n"
proof -
  assume t: "0 < t" "t < 2 ^ k" and n: "0 < n" "n < 2 ^ k"
  have "(n < c * 2 ^ k \<longleftrightarrow> t < real (c * 2 ^ k)) \<and> (n = c * 2 ^ k \<longleftrightarrow> t = real (c * 2 ^ k))" for c
  proof (cases c)
    case (Suc e)
    have "2 ^ k \<le> c * 2 ^ k" using Suc by simp
    moreover from this have "(2::real) ^ k \<le> real (c * 2 ^ k)"
      by (metis of_nat_le_iff of_nat_numeral of_nat_power)
    ultimately show ?thesis using t n by linarith
  qed (use t n in simp)
  then show ?thesis by (simp add: agrees_def)
qed

section \<open>Words as integers\<close>

lemma round_sig_top:
  assumes "n + round_inc m s G < 2 ^ (G + k)" and "1 \<le> k"
  shows "round_sig m s G n < 2 ^ k"
proof -
  have "(n + round_inc m s G) div 2 ^ G < 2 ^ k"
    using assms(1) by (simp add: div_less_iff_less_mult power_add mult.commute)
  moreover have "z div 2 * 2 \<le> z" for z :: nat by simp
  ultimately show ?thesis by (auto simp: round_sig_def Let_def intro: le_less_trans)
qed

lemma round_sig_over:
  assumes "2 ^ (G + k) \<le> n + round_inc m s G" and "1 \<le> k"
  shows "2 ^ k \<le> round_sig m s G n"
proof -
  have le: "2 ^ k \<le> (n + round_inc m s G) div 2 ^ G"
    using assms(1) by (simp add: less_eq_div_iff_mult_less_eq power_add mult.commute)
  obtain j where k: "k = Suc j" using assms(2) by (cases k) auto
  have "2 ^ j \<le> (n + round_inc m s G) div 2 ^ G div 2"
    using le by (simp add: k less_eq_div_iff_mult_less_eq mult.commute)
  then have "2 ^ k \<le> (n + round_inc m s G) div 2 ^ G div 2 * 2" by (simp add: k)
  with le show ?thesis unfolding round_sig_def Let_def by (simp only: split: if_split) blast
qed

text \<open>Reading the low half of a word as a signed number.\<close>

lemma mod_shift_half:
  fixes k h :: int
  assumes "0 \<le> k" and "k < 2 * h"
  shows "(k + h) mod (2 * h) - h = (if k < h then k else k - 2 * h)"
proof (cases "k < h")
  case True
  then show ?thesis using assms by (simp add: mod_pos_pos_trivial)
next
  case False
  then have "(k + h) mod (2 * h) = (k - h) mod (2 * h)"
    using mod_add_self2 [of "k - h" "2 * h"] by (simp add: algebra_simps)
  also have "\<dots> = k - h" using assms False by (intro mod_pos_pos_trivial) auto
  finally show ?thesis using False by simp
qed

lemma sint_small:
  "sint (w :: 'a::len word) = (if unat w < 2 ^ (LENGTH('a) - 1) then int (unat w) else int (unat w) - 2 ^ LENGTH('a))"
proof -
  obtain n where n: "LENGTH('a) = Suc n" by (metis len_not_eq_0 not0_implies_Suc)
  define k where "k = int (unat w)"
  have "unat w < 2 ^ Suc n" using unat_lt [of w] by (simp only: n)
  then have k: "0 \<le> k" "k < 2 * 2 ^ n" unfolding k_def
    by (simp, metis of_nat_less_iff of_nat_numeral of_nat_power power_Suc)
  have "unat w < 2 ^ n \<longleftrightarrow> k < 2 ^ n" unfolding k_def by (metis of_nat_less_iff of_nat_numeral of_nat_power)
  moreover have "sint w = signed_take_bit n k" unfolding k_def by (simp only: sint_uint uint_nat n) simp
  ultimately show ?thesis
    using mod_shift_half [OF k] unfolding n signed_take_bit_eq_take_bit_shift take_bit_eq_mod k_def [symmetric] by simp
qed

text \<open>
  The magnitude \<open>k\<close> with its sign, stored in a word and read back as a signed number, has the wrong
  sign exactly when it does not fit.
\<close>

lemma unat_neg: "unat (- w :: 'a::len word) = (if w = 0 then 0 else 2 ^ LENGTH('a) - unat w)"
proof (cases "w = 0")
  case False
  have "unat (- w) = unat (0 - w)" by simp
  also have "\<dots> = 2 ^ LENGTH('a) - unat w" using False by (simp only: unat_sub_if' unat_0) (simp add: unat_eq_0)
  finally show ?thesis using False by simp
qed simp

lemma signed_magnitude:
  fixes w :: "'a::len word"
  assumes "unat w = k" and "z = sint (if s then - w else w)" and "h = 2 ^ (LENGTH('a) - 1)"
  shows "z \<noteq> 0 \<and> (z < 0) \<noteq> s \<longleftrightarrow> \<not> (- h \<le> (if s then - int k else int k) \<and> (if s then - int k else int k) \<le> h - 1)"
    and "\<not> (z \<noteq> 0 \<and> (z < 0) \<noteq> s) \<Longrightarrow> z = (if s then - int k else int k)"
proof -
  obtain n where n: "LENGTH('a) = Suc n" by (metis len_not_eq_0 not0_implies_Suc)
  have k: "k < 2 * 2 ^ n" using unat_lt [of w] assms(1) by (simp add: n)
  then have ik: "int k < 2 * 2 ^ n" by (metis of_nat_less_iff of_nat_mult of_nat_numeral of_nat_power)
  have h: "h = 2 ^ n" "int (2 ^ n) = h" using assms(3) by (simp_all add: n)
  have lt: "m < 2 ^ n \<longleftrightarrow> int m < h" for m unfolding h(2) [symmetric] by (simp only: of_nat_less_iff)
  have neg: "unat (- w) = (if k = 0 then 0 else 2 * 2 ^ n - k)"
    using assms(1) unat_neg [of w] unat_eq_0 [of w] unfolding n by auto
  have sw: "sint v = (if int (unat v) < h then int (unat v) else int (unat v) - 2 * h)" for v :: "'a word"
    using sint_small [of v] lt [of "unat v"] unfolding n by (simp only: diff_Suc_1 h(1) power_Suc)
  have nk: "int (2 * 2 ^ n - k) = 2 * h - int k" using k by (simp add: of_nat_diff h)
  have z: "z = (if s then if k = 0 then 0 else if 2 * h - int k < h then 2 * h - int k else - int k
               else if int k < h then int k else int k - 2 * h)"
  proof (cases s)
    case True
    have hp: "0 < h" using h(1) by simp
    show ?thesis unfolding assms(2) if_P [OF True] using sw [of "- w", unfolded neg] nk hp
      by (cases "k = 0") (simp_all only: if_True if_False nk of_nat_0, simp_all)
  next
    case False
    then show ?thesis unfolding assms(2) using sw [of w, unfolded assms(1)] by (simp only: if_False)
  qed
  have "0 < h" using h(1) by simp
  then show "z \<noteq> 0 \<and> (z < 0) \<noteq> s \<longleftrightarrow> \<not> (- h \<le> (if s then - int k else int k) \<and> (if s then - int k else int k) \<le> h - 1)"
    and "\<not> (z \<noteq> 0 \<and> (z < 0) \<noteq> s) \<Longrightarrow> z = (if s then - int k else int k)"
    unfolding z using ik h(1) by (auto split: if_splits)
qed

lemma ucast_uminus: "LENGTH('b) \<le> LENGTH('a) \<Longrightarrow> (ucast (- w :: 'a::len word) :: 'b::len word) = - ucast w"
  by transfer (metis min_def take_bit_minus take_bit_take_bit)

lemma raise_inexact_eq: "raise_inexact st = softfloat_raiseFlags softfloat_flag_inexact st"
  by (simp add: softfloat_raiseFlags_def)

lemma round_inc_less: "1 \<le> G \<Longrightarrow> round_inc m s G < 2 ^ G"
  by (cases m) auto

lemma round_sig_0 [simp]: "1 \<le> G \<Longrightarrow> round_sig m s G 0 = 0"
  by (cases m) (auto simp: round_sig_eq)

text \<open>
  The magnitude of a number with exponent field \<open>E\<close> and significand \<open>M\<close>, as the shifted
  significand the conversions hand to the rounding routine.
\<close>

lemma scaled_shift:
  assumes "1 \<le> E" and "E \<le> D" and "D + G = B + 1 + j"
  shows "real M * 2 ^ (E - 1) / 2 ^ B = real (M * 2 ^ j) / 2 ^ (D - E) / 2 ^ G"
proof -
  obtain e where e: "E = Suc e" using assms(1) by (cases E) auto
  have "(2::real) ^ e * 2 ^ (D - E) * 2 ^ G = 2 ^ (e + (D - E) + G)" by (simp add: power_add)
  also have "e + (D - E) + G = B + j" using assms e by simp
  finally have p: "(2::real) ^ e * 2 ^ (D - E) * 2 ^ G = 2 ^ B * 2 ^ j" by (simp add: power_add)
  show ?thesis unfolding e diff_Suc_1 using p unfolding e by (simp add: field_simps)
qed

lemma tiny_scaled:
  assumes "M < 2 ^ P" and "P + G \<le> B + k"
  shows "real M * 2 ^ (0 - 1) / 2 ^ B * 2 ^ G < 2 ^ k"
proof -
  have "real M < 2 ^ P" using assms(1) by (metis of_nat_less_iff of_nat_numeral of_nat_power)
  then have "real M * 2 ^ G < 2 ^ P * 2 ^ G" by simp
  also have "\<dots> = 2 ^ (P + G)" by (simp add: power_add)
  also have "\<dots> \<le> 2 ^ (B + k)" using assms(2) by (intro power_increasing) auto
  finally show ?thesis by (simp add: field_simps power_add)
qed

section \<open>Rounding the low bits of a word\<close>

lemma round_mag_fraction:
  assumes "0 < y" and "y < 1"
  shows "round_mag m s y = of_bool (case m of Round_near_even \<Rightarrow> 1 / 2 < y | Round_near_maxMag \<Rightarrow> 1 / 2 \<le> y
    | Round_min \<Rightarrow> s | Round_max \<Rightarrow> \<not> s | Round_minMag \<Rightarrow> False)"
proof -
  have "\<lfloor>y\<rfloor> = 0" using assms by linarith
  then have "nat \<lfloor>y\<rfloor> = 0" "frac y = y" by (simp_all add: frac_def)
  then show ?thesis unfolding round_mag_def using assms(1) by (cases m) simp_all
qed

text \<open>Clearing low bits.\<close>

lemma unat_and_not_low: "unat (w AND NOT (push_bit d 1 - 1) :: 'a::len word) = unat w div 2 ^ d * 2 ^ d"
proof -
  have "push_bit d 1 - 1 = (mask d :: 'a word)" by (simp add: mask_eq_exp_minus_1 push_bit_eq_mult)
  then have "w AND NOT (push_bit d 1 - 1) = push_bit d (drop_bit d w)"
    by (auto intro!: bit_word_eqI simp: bit_simps)
  then have "unat (w AND NOT (push_bit d 1 - 1)) = unat (push_bit d (drop_bit d w))" by simp
  also have "\<dots> = unat w div 2 ^ d * 2 ^ d"
    by (subst unat_push_bit) (simp_all add: unat_drop_bit le_less_trans [OF div_times_less_eq_dividend unat_lt])
  finally show ?thesis .
qed

lemma unat_and_not_bit:
  assumes "unat (w :: 'a::len word) mod 2 ^ d = 0"
  shows "unat (w AND NOT (push_bit d 1)) = unat w div 2 ^ Suc d * 2 ^ Suc d"
proof -
  have "take_bit d w = 0" using assms by (simp add: word_unat_eq_iff unat_take_bit)
  then have low: "n < d \<Longrightarrow> \<not> bit w n" for n
  proof -
    assume "n < d"
    then have "bit w n \<longleftrightarrow> bit (take_bit d w) n" by (simp add: bit_take_bit_iff)
    then show ?thesis using \<open>take_bit d w = 0\<close> by simp
  qed
  have "push_bit (Suc d) 1 - 1 = (mask (Suc d) :: 'a word)" by (simp add: mask_eq_exp_minus_1 push_bit_eq_mult)
  then have "w AND NOT (push_bit d 1) = w AND NOT (push_bit (Suc d) 1 - 1)"
    using low by (auto intro!: bit_word_eqI simp: bit_simps less_Suc_eq)
  then show ?thesis by (simp only: unat_and_not_low)
qed

text \<open>
  Rounding the pattern: the low \<open>d\<close> bits of the magnitude are round bits, and the result is the
  rounded quotient in their place.
\<close>

lemma round_low_bits:
  fixes w :: u64
  assumes "unat w + 2 ^ d < 2 ^ 64" and "1 \<le> d" and "d < 63" and "L = push_bit d 1"
    and "z = (if b = softfloat_round_near_maxMag then w + drop_bit 1 L
              else if b = softfloat_round_near_even then
                if w + drop_bit 1 L AND (L - 1) = 0 then w + drop_bit 1 L AND NOT L else w + drop_bit 1 L
              else if b = (if s then softfloat_round_min else softfloat_round_max) then w + (L - 1)
              else w) AND NOT (L - 1)"
  shows "unat z = round_sig (rmode_of b) s d (unat w) * 2 ^ d"
proof -
  have p: "(2::nat) ^ d \<le> 2 ^ 62" using assms(3) by (intro power_increasing) auto
  have L: "unat L = 2 ^ d" unfolding assms(4) using p by (subst unat_push_bit) simp_all
  define H where "H = drop_bit 1 L"
  have h: "unat H = 2 ^ (d - 1)"
    unfolding H_def using assms(2) by (simp only: unat_drop_bit L) (cases d; simp)
  have l1: "unat (L - 1) = 2 ^ d - 1" using p by (subst unat_minus_small) (simp_all add: L)
  have hd: "unat w + (2::nat) ^ (d - 1) < 2 ^ 64"
    using assms(1) power_increasing [of "d - 1" d "2::nat"] by linarith
  have a1: "unat (w + H) = unat w + 2 ^ (d - 1)" using hd by (subst unat_add_small) (simp_all add: h)
  have a2: "unat (w + (L - 1)) = unat w + (2 ^ d - 1)" using assms(1) by (subst unat_add_small) (simp_all add: l1)
  have mk: "v AND (L - 1) = 0 \<longleftrightarrow> unat v mod 2 ^ d = 0" for v :: u64
  proof -
    have "L - 1 = 2 ^ d - 1" unfolding assms(4) by (simp add: push_bit_eq_mult)
    then show ?thesis by (metis unat_and_mask unat_eq_0)
  qed
  have tie: "(unat w + 2 ^ (d - 1)) mod 2 ^ d = 0 \<longleftrightarrow> unat w mod 2 ^ d = 2 ^ (d - 1)"
  proof -
    obtain e where d: "d = Suc e" using assms(2) by (cases d) auto
    define r where "r = unat w mod 2 ^ d"
    have r: "r < 2 * 2 ^ e" unfolding r_def d by simp
    have "(unat w + 2 ^ (d - 1)) mod 2 ^ d = (r + 2 ^ e) mod (2 * 2 ^ e)" by (simp add: r_def d mod_add_left_eq)
    also have "\<dots> = (if r < 2 ^ e then r + 2 ^ e else r - 2 ^ e)"
      using r by (auto simp: mod_if)
    finally show ?thesis unfolding r_def [symmetric] by (auto simp: d)
  qed
  have clr: "unat (v AND NOT (L - 1)) = unat v div 2 ^ d * 2 ^ d" for v :: u64
    unfolding assms(4) by (rule unat_and_not_low)
  have clr2: "unat (v AND NOT L) = unat v div 2 ^ Suc d * 2 ^ Suc d" if "unat v mod 2 ^ d = 0" for v :: u64
    unfolding assms(4) by (rule unat_and_not_bit [OF that])
  have q: "n div 2 ^ Suc d * 2 ^ Suc d div 2 ^ d * 2 ^ d = n div 2 ^ d div 2 * 2 * 2 ^ d" for n :: nat
  proof -
    have "n div 2 ^ Suc d = n div 2 ^ d div 2" by (simp only: power_Suc2 div_mult2_eq)
    moreover have "j * 2 ^ Suc d div 2 ^ d = j * 2" for j :: nat
      by (simp only: power_Suc mult.assoc [symmetric]) simp
    ultimately show ?thesis by (simp only:)
  qed
  have t2: "unat ((w + H AND NOT L) AND NOT (L - 1)) = (unat w + 2 ^ (d - 1)) div 2 ^ d div 2 * 2 * 2 ^ d"
    if "unat w mod 2 ^ d = 2 ^ (d - 1)"
    unfolding clr using clr2 [of "w + H"] that unfolding a1 tie q by (simp only: q)
  show ?thesis
    unfolding assms(5) H_def [symmetric] round_sig_def Let_def mk a1 tie
    using t2 by (auto simp: rmode_of_def clr a1 a2)
qed

lemma round_sig_shift:
  assumes "1 \<le> d" and "even c"
  shows "round_sig m s d (c * 2 ^ d + n) = c + round_sig m s d n"
  using assms by (cases m) (auto simp: round_sig_eq)

end
