(* ===== verification/FP_Compare.thy ===== *)
theory FP_Compare
  imports Format
begin

text \<open>
  The contract of the six comparison operations of a format, as a locale: on numbers they decide
  the order of the values and leave the state alone, on NaNs they answer false, and the signaling
  ones raise the invalid exception for every NaN, the quiet ones for signaling NaNs only. What a
  client of the comparisons relies on is proved here once.
\<close>

text \<open>
  The value of a pattern with sign \<open>s\<close> and magnitude index \<open>n\<close>, in units of the least positive
  number. An infinity reads as the magnitude that follows the largest finite one.
\<close>

definition signed_mag :: "nat \<Rightarrow> bool \<Rightarrow> nat \<Rightarrow> int" where
  "signed_mag P s n = (if s then - int (fmag P n) else int (fmag P n))"

locale fp_compare =
  fixes val :: "'a \<Rightarrow> real"
    and nan snan :: "'a \<Rightarrow> bool"
    and feq feq_signaling fle fle_quiet flt flt_quiet :: "'a \<Rightarrow> 'a \<Rightarrow> softfloat_state \<Rightarrow> bool \<times> softfloat_state"
  assumes snan_nan: "snan a \<Longrightarrow> nan a"
    and eq_number: "\<not> nan a \<Longrightarrow> \<not> nan b \<Longrightarrow> feq a b st = (val a = val b, st)"
    and eq_signaling_number: "\<not> nan a \<Longrightarrow> \<not> nan b \<Longrightarrow> feq_signaling a b st = (val a = val b, st)"
    and le_number: "\<not> nan a \<Longrightarrow> \<not> nan b \<Longrightarrow> fle a b st = (val a \<le> val b, st)"
    and le_quiet_number: "\<not> nan a \<Longrightarrow> \<not> nan b \<Longrightarrow> fle_quiet a b st = (val a \<le> val b, st)"
    and lt_number: "\<not> nan a \<Longrightarrow> \<not> nan b \<Longrightarrow> flt a b st = (val a < val b, st)"
    and lt_quiet_number: "\<not> nan a \<Longrightarrow> \<not> nan b \<Longrightarrow> flt_quiet a b st = (val a < val b, st)"
    and eq_nan: "nan a \<or> nan b \<Longrightarrow>
      feq a b st = (False, if snan a \<or> snan b then softfloat_raiseFlags softfloat_flag_invalid st else st)"
    and eq_signaling_nan: "nan a \<or> nan b \<Longrightarrow> feq_signaling a b st = (False, softfloat_raiseFlags softfloat_flag_invalid st)"
    and le_nan: "nan a \<or> nan b \<Longrightarrow> fle a b st = (False, softfloat_raiseFlags softfloat_flag_invalid st)"
    and le_quiet_nan: "nan a \<or> nan b \<Longrightarrow>
      fle_quiet a b st = (False, if snan a \<or> snan b then softfloat_raiseFlags softfloat_flag_invalid st else st)"
    and lt_nan: "nan a \<or> nan b \<Longrightarrow> flt a b st = (False, softfloat_raiseFlags softfloat_flag_invalid st)"
    and lt_quiet_nan: "nan a \<or> nan b \<Longrightarrow>
      flt_quiet a b st = (False, if snan a \<or> snan b then softfloat_raiseFlags softfloat_flag_invalid st else st)"
begin

lemmas number = eq_number eq_signaling_number le_number le_quiet_number lt_number lt_quiet_number
lemmas unordered = eq_nan eq_signaling_nan le_nan le_quiet_nan lt_nan lt_quiet_nan

text \<open>Exactly one of less, equal, greater and unordered holds.\<close>

lemma relation_cases:
  "(nan a \<or> nan b) \<and> \<not> fst (flt a b st) \<and> \<not> fst (feq a b st) \<and> \<not> fst (flt b a st) \<or>
   \<not> (nan a \<or> nan b) \<and>
     (fst (flt a b st) \<and> \<not> fst (feq a b st) \<and> \<not> fst (flt b a st) \<or>
      \<not> fst (flt a b st) \<and> fst (feq a b st) \<and> \<not> fst (flt b a st) \<or>
      \<not> fst (flt a b st) \<and> \<not> fst (feq a b st) \<and> fst (flt b a st))"
proof (cases "nan a \<or> nan b")
  case True
  then have "nan b \<or> nan a" by blast
  with True show ?thesis by (simp add: unordered)
next
  case False
  then have "\<not> nan a" "\<not> nan b" by simp_all
  then show ?thesis by (cases "val a" "val b" rule: linorder_cases) (simp_all add: number)
qed

lemma le_iff: "fst (fle a b st) \<longleftrightarrow> fst (flt a b st) \<or> fst (feq a b st)"
proof (cases "nan a \<or> nan b")
  case True
  then show ?thesis by (simp add: unordered)
next
  case False
  then have "\<not> nan a" "\<not> nan b" by simp_all
  then show ?thesis by (auto simp: number)
qed

lemma quiet_same_answer:
  "fst (fle_quiet a b st) = fst (fle a b st) \<and> fst (flt_quiet a b st) = fst (flt a b st) \<and>
   fst (feq_signaling a b st) = fst (feq a b st)"
proof (cases "nan a \<or> nan b")
  case True
  then show ?thesis by (simp add: unordered)
next
  case False
  then have "\<not> nan a" "\<not> nan b" by simp_all
  then show ?thesis by (simp add: number)
qed

lemma less_trans: "fst (flt a b st) \<Longrightarrow> fst (flt b c st) \<Longrightarrow> fst (flt a c st)"
proof -
  assume l: "fst (flt a b st)" "fst (flt b c st)"
  then have "\<not> nan a" "\<not> nan b" "\<not> nan c"
    using lt_nan [of a b st] lt_nan [of b c st] by auto
  then show ?thesis using l by (simp add: number)
qed

lemma eq_refl_iff: "fst (feq a a st) \<longleftrightarrow> \<not> nan a"
  by (cases "nan a") (simp_all add: number unordered)

end

text \<open>The bit-level tests of the comparison routines decide the order of the values.\<close>

lemma signed_mag_eq_iff:
  "signed_mag P sA nA = signed_mag P sB nB \<longleftrightarrow> sA = sB \<and> nA = nB \<or> nA = 0 \<and> nB = 0"
proof -
  have "int (fmag P nA) = - int (fmag P nB) \<longleftrightarrow> nA = 0 \<and> nB = 0" "- int (fmag P nA) = int (fmag P nB) \<longleftrightarrow> nA = 0 \<and> nB = 0"
    by (smt (verit) fmag_eq_0_iff of_nat_eq_0_iff of_nat_0_le_iff)+
  then show ?thesis by (auto simp: signed_mag_def)
qed

lemma signed_mag_less_iff:
  "signed_mag P sA nA < signed_mag P sB nB \<longleftrightarrow>
   (if sA \<noteq> sB then sA \<and> \<not> (nA = 0 \<and> nB = 0) else nA \<noteq> nB \<and> sA \<noteq> (nA < nB))"
proof -
  have "- int (fmag P nA) < int (fmag P nB) \<longleftrightarrow> \<not> (nA = 0 \<and> nB = 0)" "\<not> int (fmag P nA) < - int (fmag P nB)"
    by (smt (verit) fmag_eq_0_iff of_nat_eq_0_iff of_nat_0_le_iff)+
  then show ?thesis by (auto simp: signed_mag_def)
qed

lemma signed_mag_le_iff:
  "signed_mag P sA nA \<le> signed_mag P sB nB \<longleftrightarrow>
   (if sA \<noteq> sB then sA \<or> nA = 0 \<and> nB = 0 else nA = nB \<or> sA \<noteq> (nA < nB))"
  using signed_mag_less_iff [of P sA nA sB nB] signed_mag_eq_iff [of P sA nA sB nB]
  by (auto simp: le_less split: if_splits)

end
