(* ===== verification/F32_Format.thy ===== *)
theory F32_Format
  imports Format
begin

text \<open>
  The 32-bit format: the field macros of \<open>include/internals.h\<close>, the NaN handling of the
  \<open>8086-SSE\<close> specialization, and the routines that build a result from sign, exponent and
  significand. A \<open>float32_t\<close> is its 32-bit pattern; the routines work on it as a
  \<open>uint_fast32_t\<close>, which has 64 bits.
\<close>

type_synonym float32_t = u32

definition signF32UI :: "uint_fast32 \<Rightarrow> bool" where
  "signF32UI a \<longleftrightarrow> drop_bit 31 (ucast a :: u32) \<noteq> 0"

definition expF32UI :: "uint_fast32 \<Rightarrow> int" where
  "expF32UI a = sint (drop_bit 23 a) AND 0xFF"

definition fracF32UI :: "uint_fast32 \<Rightarrow> uint_fast32" where
  "fracF32UI a = a AND 0x007FFFFF"

definition packToF32UI :: "bool \<Rightarrow> int \<Rightarrow> uint_fast32 \<Rightarrow> uint_fast32" where
  "packToF32UI sign ex sig =
     ucast (push_bit 31 (of_bool sign :: u32) + push_bit 23 (word_of_int ex)) + sig"

definition isNaNF32UI :: "uint_fast32 \<Rightarrow> bool" where
  "isNaNF32UI a \<longleftrightarrow> NOT a AND 0x7F800000 = 0 \<and> a AND 0x007FFFFF \<noteq> 0"

definition softfloat_isSigNaNF32UI :: "uint_fast32 \<Rightarrow> bool" where
  "softfloat_isSigNaNF32UI uiA \<longleftrightarrow> uiA AND 0x7FC00000 = 0x7F800000 \<and> uiA AND 0x003FFFFF \<noteq> 0"

definition defaultNaNF32UI :: uint_fast32 where
  "defaultNaNF32UI = 0xFFC00000"

definition softfloat_propagateNaNF32UI ::
    "uint_fast32 \<Rightarrow> uint_fast32 \<Rightarrow> softfloat_state \<Rightarrow> uint_fast32 \<times> softfloat_state" where
  "softfloat_propagateNaNF32UI uiA uiB st =
     (let isSigNaNA = softfloat_isSigNaNF32UI uiA
      in if isSigNaNA \<or> softfloat_isSigNaNF32UI uiB then
           let st = softfloat_raiseFlags softfloat_flag_invalid st
           in if isSigNaNA then (uiA OR 0x00400000, st)
              else ((if isNaNF32UI uiA then uiA else uiB) OR 0x00400000, st)
         else ((if isNaNF32UI uiA then uiA else uiB) OR 0x00400000, st))"

definition softfloat_f32UIToCommonNaN :: "uint_fast32 \<Rightarrow> softfloat_state \<Rightarrow> commonNaN \<times> softfloat_state" where
  "softfloat_f32UIToCommonNaN uiA st =
     (let st = (if softfloat_isSigNaNF32UI uiA then softfloat_raiseFlags softfloat_flag_invalid st else st)
      in (\<lparr>nan_sign = drop_bit 31 uiA \<noteq> 0, nan_v64 = push_bit 41 uiA, nan_v0 = 0\<rparr>, st))"

definition softfloat_commonNaNToF32UI :: "commonNaN \<Rightarrow> uint_fast32" where
  "softfloat_commonNaNToF32UI a =
     push_bit 31 (of_bool (nan_sign a)) OR 0x7FC00000 OR drop_bit 41 (nan_v64 a)"

record exp16_sig32 =
  exp_f32 :: int
  sig_f32 :: uint_fast32

definition softfloat_normSubnormalF32Sig :: "uint_fast32 \<Rightarrow> exp16_sig32" where
  "softfloat_normSubnormalF32Sig sig =
     (let shiftDist = uint (softfloat_countLeadingZeros32 (ucast sig)) - 8
      in \<lparr>exp_f32 = 1 - shiftDist, sig_f32 = push_bit (nat shiftDist) sig\<rparr>)"

text \<open>
  Round and pack: \<open>sig\<close> has the leading bit at bit 30 and seven round bits; \<open>exp\<close> is one less
  than the exponent field of the result. The cast \<open>(unsigned int) exp\<close> is the reduction modulo
  \<open>2 ^ 32\<close>. The first definition is the part after the label-free fall through, which every branch
  but the overflow branch reaches.
\<close>

definition roundPackToF32_tail ::
    "bool \<Rightarrow> bool \<Rightarrow> uint_fast8 \<Rightarrow> int \<Rightarrow> uint_fast32 \<Rightarrow> uint_fast8 \<Rightarrow> softfloat_state \<Rightarrow> float32_t \<times> softfloat_state" where
  "roundPackToF32_tail sign roundNearEven roundIncrement ex sig roundBits st =
     (let sig = drop_bit 7 (sig + ucast roundIncrement);
          st = (if roundBits \<noteq> 0
                then st\<lparr>softfloat_exceptionFlags := softfloat_exceptionFlags st OR softfloat_flag_inexact\<rparr>
                else st);
          sig = sig AND NOT (of_bool ((roundBits XOR 0x40) = 0 \<and> roundNearEven));
          ex = (if sig = 0 then 0 else ex)
      in (ucast (packToF32UI sign ex sig), st))"

definition softfloat_roundPackToF32 ::
    "bool \<Rightarrow> int \<Rightarrow> uint_fast32 \<Rightarrow> softfloat_state \<Rightarrow> float32_t \<times> softfloat_state" where
  "softfloat_roundPackToF32 sign ex sig st =
     (let roundingMode = softfloat_roundingMode st;
          roundNearEven = (roundingMode = softfloat_round_near_even);
          roundIncrement =
            (if \<not> roundNearEven \<and> roundingMode \<noteq> softfloat_round_near_maxMag
             then if roundingMode = (if sign then softfloat_round_min else softfloat_round_max) then 0x7F else 0
             else 0x40) :: uint_fast8;
          roundBits = ucast (sig AND 0x7F) :: uint_fast8
      in if 0xFD \<le> ex mod 2 ^ 32 then
           if ex < 0 then
             let isTiny = (softfloat_detectTininess st = softfloat_tininess_beforeRounding
                           \<or> ex < - 1 \<or> sig + ucast roundIncrement < 0x80000000);
                 sig = ucast (softfloat_shiftRightJam32 (ucast sig) (word_of_int (- ex)));
                 roundBits = ucast (sig AND 0x7F);
                 st = (if isTiny \<and> roundBits \<noteq> 0 then softfloat_raiseFlags softfloat_flag_underflow st else st)
             in roundPackToF32_tail sign roundNearEven roundIncrement 0 sig roundBits st
           else if 0xFD < ex \<or> 0x80000000 \<le> sig + ucast roundIncrement then
             (ucast (packToF32UI sign 0xFF 0 - of_bool (roundIncrement = 0)),
              softfloat_raiseFlags (softfloat_flag_overflow OR softfloat_flag_inexact) st)
           else roundPackToF32_tail sign roundNearEven roundIncrement ex sig roundBits st
         else roundPackToF32_tail sign roundNearEven roundIncrement ex sig roundBits st)"

definition softfloat_normRoundPackToF32 ::
    "bool \<Rightarrow> int \<Rightarrow> uint_fast32 \<Rightarrow> softfloat_state \<Rightarrow> float32_t \<times> softfloat_state" where
  "softfloat_normRoundPackToF32 sign ex sig st =
     (let shiftDist = uint (softfloat_countLeadingZeros32 (ucast sig)) - 1;
          ex = ex - shiftDist
      in if 7 \<le> shiftDist \<and> ex mod 2 ^ 32 < 0xFD
         then (ucast (packToF32UI sign (if sig \<noteq> 0 then ex else 0) (push_bit (nat (shiftDist - 7)) sig)), st)
         else softfloat_roundPackToF32 sign ex (push_bit (nat shiftDist) sig) st)"

text \<open>What a pattern means.\<close>

definition f32_finite :: "float32_t \<Rightarrow> bool" where
  "f32_finite a \<longleftrightarrow> unat a mod 2 ^ 31 < fp_inf 23 255"

definition f32_real :: "float32_t \<Rightarrow> real" where
  "f32_real a = (if 2 ^ 31 \<le> unat a then - 1 else 1) * real (fmag 23 (unat a mod 2 ^ 31)) / 2 ^ 149"

text \<open>
  \<open>f32_rounded st zs x (z, st')\<close>: in state \<open>st\<close> the pattern \<open>z\<close> is the number \<open>x\<close> correctly rounded
  (a zero result of an exact zero has sign \<open>zs\<close>), and \<open>st'\<close> has exactly the exceptions of that
  rounding raised.
\<close>

definition f32_rounded :: "softfloat_state \<Rightarrow> bool \<Rightarrow> real \<Rightarrow> float32_t \<times> softfloat_state \<Rightarrow> bool" where
  "f32_rounded st zs x res \<longleftrightarrow>
     fl_result 23 255 st (if x = 0 then zs else x < 0) (\<bar>x\<bar> * 2 ^ 149) (unat (fst res)) (snd res)"

interpretation f32: fp_format 23 7 255
  by unfold_locales simp_all

lemma signF32UI_iff: "unat a < 2 ^ 32 \<Longrightarrow> signF32UI a \<longleftrightarrow> 2 ^ 31 \<le> unat a"
proof -
  assume "unat a < 2 ^ 32"
  then have "unat (drop_bit 31 (ucast a :: u32)) = unat a div 2 ^ 31"
    by (simp add: unat_drop_bit unat_ucast_small)
  then have "signF32UI a \<longleftrightarrow> unat a div 2 ^ 31 \<noteq> 0"
    by (metis signF32UI_def unat_eq_0)
  then show ?thesis by (simp add: div_eq_0_iff not_less)
qed

lemma expF32UI_eq: "expF32UI a = int (unat a div 2 ^ 23 mod 256)"
proof -
  have "unat a div 2 ^ 23 < 2 ^ 41" using unat_lt [of a] by (simp add: div_less_iff_less_mult)
  moreover have u: "uint (drop_bit 23 a) = int (unat a div 2 ^ 23)"
    by (simp only: uint_nat unat_drop_bit)
  ultimately have "sint (drop_bit 23 a) = int (unat a div 2 ^ 23)"
    unfolding sint_uint u by (intro signed_take_bit_int_eq_self) simp_all
  then show ?thesis using int_and_mask [of _ 8] by (simp add: expF32UI_def zmod_int)
qed

lemma unat_fracF32UI [unat_ops]: "unat (fracF32UI a) = unat a mod 2 ^ 23"
  using unat_and_mask [of a 23] by (simp add: fracF32UI_def)

lemma unat_packToF32UI:
  assumes "0 \<le> ex" and "nat ex * 2 ^ 23 + unat sig < 2 ^ 31"
  shows "unat (packToF32UI sign ex sig) = of_bool sign * 2 ^ 31 + nat ex * 2 ^ 23 + unat sig"
proof -
  have e: "nat ex * 2 ^ 23 < 2 ^ 31" "nat ex < 2 ^ 8" using assms(2) by simp_all
  then have u: "unat (word_of_int ex :: u32) = nat ex" using assms(1) by (simp add: unat_word_of_int)
  have 1: "unat (push_bit 31 (of_bool sign :: u32)) = of_bool sign * 2 ^ 31"
    by (cases sign) simp_all
  have 2: "unat (push_bit 23 (word_of_int ex :: u32)) = nat ex * 2 ^ 23"
    using e by (subst unat_push_bit) (simp_all add: u)
  have 3: "unat (push_bit 31 (of_bool sign :: u32) + push_bit 23 (word_of_int ex)) = of_bool sign * 2 ^ 31 + nat ex * 2 ^ 23"
    using e by (subst unat_add_small) (auto simp: 1 2)
  show ?thesis unfolding packToF32UI_def
    using e assms(2) by (subst unat_add_small; subst unat_ucast_small) (auto simp: 3)
qed

section \<open>Round and pack\<close>

lemma roundBitsF32: "unat (ucast (sig AND 0x7F :: u64) :: uint_fast8) = unat sig mod 2 ^ 7"
  using unat_and_mask [of sig 7] by (simp add: unat_ucast_mod)

lemma roundBitsF32_tie: "(ucast (sig AND 0x7F :: u64) XOR 0x40 :: uint_fast8) = 0 \<longleftrightarrow> unat sig mod 2 ^ 7 = 2 ^ 6"
  unfolding word_xor_eq_0_iff by (simp only: word_unat_eq_iff roundBitsF32) simp

lemma round_sigF32:
  assumes "unat inc = round_inc m s 7" and "unat sig < 2 ^ 31" and "ne \<longleftrightarrow> m = Round_near_even"
  shows "unat (drop_bit 7 (sig + ucast (inc :: uint_fast8)) AND
      NOT (of_bool ((ucast (sig AND 0x7F) XOR 0x40 :: uint_fast8) = 0 \<and> ne)) :: u64) = round_sig m s 7 (unat sig)"
proof -
  have "unat inc < 2 ^ 7" using f32.inc_less assms(1) by simp
  then have "unat (sig + ucast inc) = unat sig + round_inc m s 7"
    using assms(1,2) by (subst unat_add_small) (auto simp: unat_ucast_up)
  then show ?thesis
    unfolding unat_and_not_of_bool unat_drop_bit roundBitsF32_tie round_sig_def Let_def
    using assms(3) by auto
qed

lemma round_incF32:
  "unat (if softfloat_roundingMode st \<noteq> softfloat_round_near_even \<and> softfloat_roundingMode st \<noteq> softfloat_round_near_maxMag
      then if softfloat_roundingMode st = (if s then softfloat_round_min else softfloat_round_max) then 0x7F else 0
      else 0x40 :: uint_fast8) = round_inc (mode st) s 7"
  unfolding rmode_of_sel by (cases "mode st") simp_all

lemma packF32_small:
  assumes "0 \<le> ex" and "nat ex * 2 ^ 23 + unat sig < 2 ^ 31"
  shows "unat (ucast (packToF32UI s ex sig) :: u32) = of_bool s * 2 ^ 31 + nat ex * 2 ^ 23 + unat sig"
  using unat_packToF32UI [OF assms, of s] assms by (subst unat_ucast_small) auto

lemma roundPackToF32_tail_eq:
  assumes "unat inc = round_inc (mode st0) s 7" and "unat sig < 2 ^ 31" and "0 \<le> ex"
    and "nat ex * 2 ^ 23 + round_sig (mode st0) s 7 (unat sig) < 2 ^ 31" and "ex = 0 \<or> 2 ^ 30 \<le> unat sig"
    and "ne \<longleftrightarrow> mode st0 = Round_near_even"
  shows "unat (fst (roundPackToF32_tail s ne inc ex sig (ucast (sig AND 0x7F)) st)) =
      of_bool s * 2 ^ 31 + nat ex * 2 ^ 23 + round_sig (mode st0) s 7 (unat sig) \<and>
    snd (roundPackToF32_tail s ne inc ex sig (ucast (sig AND 0x7F)) st) =
      softfloat_raiseFlags (if unat sig mod 2 ^ 7 = 0 then 0 else softfloat_flag_inexact) st"
proof -
  let ?z = "drop_bit 7 (sig + ucast (inc :: uint_fast8)) AND
      NOT (of_bool ((ucast (sig AND 0x7F) XOR 0x40 :: uint_fast8) = 0 \<and> ne)) :: u64"
  have z: "unat ?z = round_sig (mode st0) s 7 (unat sig)"
    by (rule round_sigF32) (use assms in auto)
  have "unat sig div 2 ^ 7 \<le> unat ?z"
    unfolding z by (subst round_sig_eq) auto
  then have "ex \<noteq> 0 \<Longrightarrow> ?z \<noteq> 0"
    using assms(5) by (auto simp: div_eq_0_iff)
  then have e: "(if ?z = 0 then 0 else ex) = ex" by metis
  have "(ucast (sig AND 0x7F) :: uint_fast8) = 0 \<longleftrightarrow> unat sig mod 2 ^ 7 = 0"
    by (simp only: word_unat_eq_iff roundBitsF32) simp
  then show ?thesis
    unfolding roundPackToF32_tail_def Let_def e fst_conv snd_conv
    using packF32_small [of ex ?z s] assms(3,4) z by (auto simp: softfloat_raiseFlags_def)
qed

lemma roundPackToF32_eq:
  assumes "2 ^ 30 \<le> unat sig" and "unat sig < 2 ^ 31" and "- (2 ^ 31) \<le> ex" and "ex < 2 ^ 31"
  shows "unat (fst (softfloat_roundPackToF32 s ex sig st)) = rp_pattern 23 7 255 (mode st) s ex (unat sig) \<and>
    snd (softfloat_roundPackToF32 s ex sig st) =
      softfloat_raiseFlags (rp_flags 23 7 255 (tiny_after st) (mode st) s ex (unat sig)) st"
proof -
  define inc :: uint_fast8 where "inc = (if softfloat_roundingMode st \<noteq> softfloat_round_near_even \<and> softfloat_roundingMode st \<noteq> softfloat_round_near_maxMag
      then if softfloat_roundingMode st = (if s then softfloat_round_min else softfloat_round_max) then 0x7F else 0
      else 0x40)"
  define m where "m = mode st"
  have inc: "unat inc = round_inc m s 7" unfolding inc_def m_def by (rule round_incF32)
  have inc_lt: "round_inc m s 7 < 128" using f32.inc_less [of m s] by simp
  have inc0: "inc = 0 \<longleftrightarrow> round_inc m s 7 = 0" using inc by (simp add: unat_eq_0 flip: inc)
  have add: "unat (sig + ucast inc) = unat sig + round_inc m s 7"
    using assms(2) inc_lt by (subst unat_add_small) (auto simp: unat_ucast_up inc)
  have ne: "softfloat_roundingMode st = softfloat_round_near_even \<longleftrightarrow> m = Round_near_even"
    by (simp add: m_def rmode_near_even_iff)
  have cast: "253 \<le> ex mod 2 ^ 32 \<longleftrightarrow> ex < 0 \<or> 253 \<le> ex"
    using cast_le_iff [of "2 ^ 31" ex 253] assms(3,4) by simp
  note unf = softfloat_roundPackToF32_def [of s ex sig st, unfolded Let_def, folded inc_def, unfolded cast]
  consider (neg) "ex < 0" | (ovf) "0 \<le> ex" "round_pack_overflow 23 7 255 m s ex (unat sig)"
    | (mid) "0 \<le> ex" "\<not> round_pack_overflow 23 7 255 m s ex (unat sig)" by linarith
  then show ?thesis
  proof cases
    case neg
    define w :: u64 where "w = ucast (softfloat_shiftRightJam32 (ucast sig) (word_of_int (- ex)))"
    have d: "unat (word_of_int (- ex) :: u64) = nat (- ex)"
      using neg assms(3) by (intro unat_word_of_int) auto
    have w: "unat w = jam (unat sig) (nat (- ex))"
      unfolding w_def using neg assms(2) d
      by (simp only: unat_ucast_up len_num1 len_bit0 unat_shiftRightJam32) (simp add: unat_ucast_small unat_shiftRightJam32)
    have ov: "\<not> round_pack_overflow 23 7 255 m s ex (unat sig)"
      using neg by (simp add: round_pack_overflow_def)
    define tiny where "tiny \<longleftrightarrow> softfloat_detectTininess st = softfloat_tininess_beforeRounding \<or> ex < - 1 \<or> sig + ucast inc < 0x80000000"
    define st1 where "st1 = (if tiny \<and> (ucast (w AND 0x7F) :: uint_fast8) \<noteq> 0 then softfloat_raiseFlags softfloat_flag_underflow st else st)"
    have e: "softfloat_roundPackToF32 s ex sig st =
        roundPackToF32_tail s (softfloat_roundingMode st = 0) inc 0 w (ucast (w AND 0x7F)) st1"
      unfolding unf using neg by (simp only: st1_def tiny_def w_def simp_thms if_True)
    have ti: "tiny \<longleftrightarrow> \<not> tiny_after st \<or> ex < - 1 \<or> unat sig + round_inc m s 7 < 2 ^ 31"
      by (simp add: tiny_def word_less_nat_alt add)
    have rb: "(ucast (w AND 0x7F) :: uint_fast8) = 0 \<longleftrightarrow> unat w mod 2 ^ 7 = 0"
      by (simp only: word_unat_eq_iff roundBitsF32) simp
    have wlt: "unat w < 2 ^ 31" unfolding w using neg assms(2) by (intro le_less_trans [OF jam_le]) auto
    have "round_sig m s 7 (unat w) < 2 ^ 31"
      using f32.no_overflow_index(2) [OF agrees_refl _ _ ov] neg assms(1,2) w by (simp add: round_pack_tiny_sig_def)
    then show ?thesis
      unfolding e using roundPackToF32_tail_eq [of inc st s w 0 _ st1] wlt inc ne ov neg w ti rb
      by (auto simp: rp_pattern_def rp_flags_def round_pack_def fp_half_def round_pack_tiny_sig_def m_def st1_def or.commute)
  next
    case ovf
    have "unat (packToF32UI s 255 0) = of_bool s * 2 ^ 31 + 255 * 2 ^ 23"
      by (subst unat_packToF32UI) auto
    then have p: "unat (ucast (packToF32UI s 255 0 - of_bool (inc = 0)) :: u32) = of_bool s * 2 ^ 31 + (255 * 2 ^ 23 - of_bool (inc = 0))"
      by (subst unat_ucast_small; subst unat_minus_small) (auto simp: of_bool_def)
    have "253 < ex \<or> 0x80000000 \<le> sig + ucast inc" "ex < 0 \<or> 253 \<le> ex" "\<not> ex < 0"
      using ovf by (auto simp: round_pack_overflow_def word_le_nat_alt add)
    then show ?thesis
      unfolding unf if_P [OF \<open>ex < 0 \<or> 253 \<le> ex\<close>] using ovf p inc0
      by (auto simp: rp_pattern_def rp_flags_def round_pack_def fp_half_def m_def)
  next
    case mid
    have "\<not> (253 < ex \<or> 0x80000000 \<le> sig + ucast inc) \<or> \<not> (ex < 0 \<or> 253 \<le> ex)" "\<not> ex < 0"
      using mid by (auto simp: round_pack_overflow_def word_le_nat_alt add)
    then have e: "softfloat_roundPackToF32 s ex sig st =
        roundPackToF32_tail s (softfloat_roundingMode st = 0) inc ex sig (ucast (sig AND 0x7F)) st"
      unfolding unf by auto
    have "nat ex * 2 ^ 23 + round_sig m s 7 (unat sig) < 2 ^ 31"
      using f32.no_overflow_index(2) [OF agrees_refl _ _ mid(2)] mid(1) assms(1,2) by (simp add: round_pack_tiny_sig_def)
    then show ?thesis
      unfolding e using roundPackToF32_tail_eq [of inc st s sig ex _ st] assms inc ne mid
      by (auto simp: rp_pattern_def rp_flags_def round_pack_def fp_half_def round_pack_tiny_sig_def m_def)
  qed
qed

lemma roundPackToF32_result:
  assumes "agrees 6 t (unat sig)" and "2 ^ 30 \<le> unat sig" and "unat sig < 2 ^ 31"
    and "- (2 ^ 31) \<le> ex" and "ex < 2 ^ 31" and "x = t * 2 powi (ex - 7)"
  shows "fl_result 23 255 st s x (unat (fst (softfloat_roundPackToF32 s ex sig st)))
           (snd (softfloat_roundPackToF32 s ex sig st))"
  using f32.rp_result [of t "unat sig" x ex st s] roundPackToF32_eq [OF assms(2-5), of s st] assms
  by simp

lemma normRoundPackToF32_result:
  assumes "unat sig \<noteq> 0" and "unat sig < 2 ^ 31" and "t = real (unat sig) \<or> agrees 5 t (unat sig) \<and> 2 ^ 29 \<le> unat sig"
    and "- (2 ^ 30) \<le> ex" and "ex < 2 ^ 30" and "x = t * 2 powi (ex - 7)"
  shows "fl_result 23 255 st s x (unat (fst (softfloat_normRoundPackToF32 s ex sig st)))
           (snd (softfloat_normRoundPackToF32 s ex sig st))"
proof -
  define c where "c = unat (softfloat_countLeadingZeros32 (ucast sig))"
  have "unat sig < 2 ^ 32" using assms(2) by simp
  note cl = clz32_shift [OF assms(1) this, folded c_def]
  have "c \<noteq> 0" using cl(2) assms(2) by (intro notI) simp
  then obtain d where d: "c = Suc d" by (cases c) auto
  have sd: "uint (softfloat_countLeadingZeros32 (ucast sig)) - 1 = int d"
    using d by (simp add: c_def uint_nat)
  have lo: "2 ^ 30 \<le> unat sig * 2 ^ d" and hi: "unat sig * 2 ^ d < 2 ^ 31" and d31: "d < 31"
    using cl unfolding d by simp_all
  have cast: "(ex - int d) mod 2 ^ 32 < 253 \<longleftrightarrow> 0 \<le> ex - int d \<and> ex - int d < 253"
    using cast_le_iff [of "2 ^ 31" "ex - int d" 253] assms(4,5) d31 by auto
  show ?thesis
  proof (cases "7 \<le> d \<and> 0 \<le> ex - int d \<and> ex - int d < 253")
    case True
    define k where "k = unat sig * 2 ^ (d - 7)"
    have "unat sig * 2 ^ d = k * 2 ^ 7"
      using True unfolding k_def by (simp only: mult.assoc power_add [symmetric]) simp
    then have k: "2 ^ 23 \<le> k" "k < 2 ^ 24" using lo hi by simp_all
    have u: "unat (push_bit (d - 7) sig) = k"
      unfolding k_def using k by (intro unat_push_bit) (simp add: k_def)
    have i: "nat (ex - int d) * 2 ^ 23 + k < 255 * 2 ^ 23"
      using k(2) True pack_index_less [of k 23 "nat (ex - int d)" 255] by auto
    have t: "t = real (unat sig)"
    proof -
      have "unat sig * 2 ^ 7 \<le> unat sig * 2 ^ d" using True by (intro mult_le_mono2 power_increasing) auto
      from le_less_trans [OF this hi] have "\<not> 2 ^ 29 \<le> unat sig" by simp
      then show ?thesis using assms(3) by blast
    qed
    have "2 powi (ex - 7) = (2::real) ^ (d - 7) * 2 ^ nat (ex - int d)"
    proof -
      have "ex - 7 = int ((d - 7) + nat (ex - int d))" using True by (simp add: of_nat_diff)
      then show ?thesis by (simp only: power_int_of_nat power_add)
    qed
    then have x: "x = real k * 2 ^ nat (ex - int d)" by (simp add: assms(6) t k_def)
    have e: "softfloat_normRoundPackToF32 s ex sig st =
        (ucast (packToF32UI s (ex - int d) (push_bit (d - 7) sig)), st)"
      unfolding softfloat_normRoundPackToF32_def Let_def sd cast using True assms(1)
      by (auto simp: nat_diff_distrib nat_int_add)
    show ?thesis unfolding e fst_conv snd_conv
      by (rule fl_result_pack [of k _ "nat (ex - int d)"])
         (use k True x i packF32_small [of "ex - int d" "push_bit (d - 7) sig" s] u in \<open>auto simp: fp_half_def\<close>)
  next
    case False
    have e: "softfloat_normRoundPackToF32 s ex sig st = softfloat_roundPackToF32 s (ex - int d) (push_bit d sig) st"
      unfolding softfloat_normRoundPackToF32_def Let_def sd cast using False by auto
    have u: "unat (push_bit d sig) = unat sig * 2 ^ d" using hi by (intro unat_push_bit) simp
    have a: "agrees 6 (t * 2 ^ d) (unat sig * 2 ^ d)"
      using assms(3)
    proof
      assume "t = real (unat sig)"
      then show ?thesis using agrees_refl [of 6 "unat sig * 2 ^ d"] by simp
    next
      assume a: "agrees 5 t (unat sig) \<and> 2 ^ 29 \<le> unat sig"
      then have "2 ^ 29 * 2 ^ d \<le> unat sig * 2 ^ d" by simp
      then have "(2::nat) ^ (29 + d) < 2 ^ 31" using hi unfolding power_add by linarith
      then have "5 + d \<le> 6" by (subst (asm) power_strict_increasing_iff) auto
      then show ?thesis using agrees_mono [OF agrees_scale [of 5 t "unat sig" d]] a by simp
    qed
    have x: "x = t * 2 ^ d * 2 powi (ex - int d - 7)"
      unfolding assms(6) by (simp add: power_int_diff power_int_add field_simps)
    show ?thesis unfolding e
      by (rule roundPackToF32_result [OF _ _ _ _ _ x]) (use a lo hi u assms(4,5) d31 in auto)
  qed
qed

lemma expF32UI_index: "expF32UI a = int (unat a mod 2 ^ 31 div 2 ^ 23)"
  unfolding expF32UI_eq using drop_bit_take_bit [of 23 31 "unat a"]
  by (simp add: drop_bit_eq_div take_bit_eq_mod)

lemma fracF32UI_index: "unat (fracF32UI a) = unat a mod 2 ^ 31 mod 2 ^ 23"
  by (simp add: unat_fracF32UI mod_mod_cancel)

lemma half_f32 [simp]: "fp_half 23 255 = 2 ^ 31"
  by (simp add: fp_half_def)

lemma unat_sign_index:
  "unat a < 2 ^ 32 \<Longrightarrow> unat a = of_bool (signF32UI a) * 2 ^ 31 + unat a mod 2 ^ 31"
proof -
  assume a: "unat a < 2 ^ 32"
  have "unat a div 2 ^ 31 = of_bool (2 ^ 31 \<le> unat a)"
    using a by (cases "2 ^ 31 \<le> unat a") (simp_all add: div_nat_eqI)
  then show ?thesis using div_mult_mod_eq [of "unat a" "2 ^ 31"] signF32UI_iff [OF a] by simp
qed

lemma unat_alignF32:
  assumes "k \<le> 7" and "unat c = 2 ^ (23 + k)"
  shows "unat (push_bit k (fracF32UI a) + (if expF32UI a \<noteq> 0 then c else push_bit k (fracF32UI a))) =
    align_sig 23 k (unat a mod 2 ^ 31)"
    and "2 ^ 23 \<le> unat a mod 2 ^ 31 \<Longrightarrow> unat (c + push_bit k (fracF32UI a)) = align_sig 23 k (unat a mod 2 ^ 31)"
    and "2 ^ 23 \<le> unat a mod 2 ^ 31 \<Longrightarrow> unat (push_bit k (fracF32UI a) OR c) = align_sig 23 k (unat a mod 2 ^ 31)"
proof -
  define n f where "n = unat a mod 2 ^ 31" and "f = n mod 2 ^ 23"
  have f: "f < 2 ^ 23" by (simp add: f_def)
  then have fk: "f * 2 ^ k < 2 ^ (23 + k)" by (simp add: power_add)
  have "(2::nat) ^ (23 + k) \<le> 2 ^ 30" using assms(1) by (intro power_increasing) auto
  then have lt: "f * 2 ^ k < 2 ^ 30" "unat c \<le> 2 ^ 30" using fk assms(2) by linarith+
  have u: "unat (push_bit k (fracF32UI a)) = f * 2 ^ k"
    using lt by (subst unat_push_bit) (simp_all add: fracF32UI_index n_def f_def)
  have s: "n < 2 ^ 23 \<Longrightarrow> f = n" by (simp add: f_def)
  have e: "expF32UI a \<noteq> 0 \<longleftrightarrow> 2 ^ 23 \<le> n"
    unfolding expF32UI_index n_def [symmetric] by (simp add: div_eq_0_iff not_less)
  have al: "align_sig 23 k n = (if 2 ^ 23 \<le> n then unat c + f * 2 ^ k else f * 2 ^ k + f * 2 ^ k)"
    using s unfolding assms(2) align_sig_def fp_sig_def f_def [symmetric] power_add
    by (simp add: distrib_right)
  show "unat (push_bit k (fracF32UI a) + (if expF32UI a \<noteq> 0 then c else push_bit k (fracF32UI a))) = align_sig 23 k n"
    unfolding e al using lt by (subst unat_add_small) (auto simp: u)
  show "unat (c + push_bit k (fracF32UI a)) = align_sig 23 k n" if "2 ^ 23 \<le> n"
    unfolding al using lt that by (simp add: unat_add_small u)
  have "unat (push_bit k (fracF32UI a) OR c) = f * 2 ^ k + unat c"
    using fk by (subst unat_or_disjoint [of _ "23 + k"]) (simp_all only: u assms(2) dvd_refl)
  then show "unat (push_bit k (fracF32UI a) OR c) = align_sig 23 k n" if "2 ^ 23 \<le> n"
    unfolding al using that by simp
qed

lemma roundPackToF32_norm1:
  assumes "agrees 5 t (unat z)" and "2 ^ 29 \<le> unat z" and "unat z < 2 ^ 31"
    and "- (2 ^ 30) \<le> ex" and "ex < 2 ^ 30" and "x = t * 2 powi (ex - 7)"
    and "res = (if z < 0x40000000 then softfloat_roundPackToF32 s (ex - 1) (push_bit 1 z) st
                else softfloat_roundPackToF32 s ex z st)"
  shows "fl_result 23 255 st s x (unat (fst res)) (snd res)"
proof (cases "z < 0x40000000")
  case True
  then have lt: "unat z < 2 ^ 30" by (simp add: word_less_nat_alt)
  then have u: "unat (push_bit 1 z) = unat z * 2 ^ 1" by (intro unat_push_bit) simp
  have x: "x = t * 2 ^ 1 * 2 powi (ex - 1 - 7)" unfolding assms(6) by (simp add: power_int_diff field_simps)
  have "agrees 6 (t * 2 ^ 1) (unat z * 2 ^ 1)" using agrees_scale [OF assms(1), of 1] by simp
  then show ?thesis using True lt assms(2,4,5,7) u
    by (simp only: if_True) (intro roundPackToF32_result [OF _ _ _ _ _ x], auto)
next
  case False
  then have ge: "2 ^ 30 \<le> unat z" by (simp add: word_less_nat_alt)
  have "agrees 6 t (unat z)" using agrees_mono [OF assms(1)] by simp
  then show ?thesis using False ge assms(3-7)
    by (simp only: if_False) (intro roundPackToF32_result, auto)
qed

lemma ucast_f32 [simp]: "unat (ucast (a :: float32_t) :: u64) = unat a"
  by (simp add: unat_ucast_up)

lemma unat_f32_less: "unat (a :: float32_t) < 2 ^ 32"
  using unat_lt [of a] by simp

lemma f32_sign [simp]: "signF32UI (ucast (a :: float32_t)) \<longleftrightarrow> 2 ^ 31 \<le> unat a"
  using signF32UI_iff [of "ucast a"] unat_f32_less [of a] by simp

lemma signF32UI_bit: "signF32UI w \<longleftrightarrow> bit w 31"
proof -
  have "drop_bit 31 v = of_bool (bit v 31)" for v :: u32
    by (rule bit_word_eqI, subst bit_drop_bit_eq, case_tac "n = 0") (auto simp: bit_simps dest: bit_imp_le_length)
  then show ?thesis by (simp add: signF32UI_def bit_simps)
qed

lemma f32_sign_xor: "signF32UI (ucast (a :: float32_t) XOR ucast (b :: float32_t)) \<longleftrightarrow> (2 ^ 31 \<le> unat a) \<noteq> (2 ^ 31 \<le> unat b)"
  unfolding f32_sign [of a, symmetric] f32_sign [of b, symmetric] signF32UI_bit bit_xor_iff ..

lemma f32_roundedI:
  assumes "fl_result 23 255 st s \<bar>v\<bar> (unat (fst res)) (snd res)"
    and "x = (if neg then - 1 else 1) * v / 2 ^ 149" and "s \<longleftrightarrow> (if v = 0 then zs else neg \<noteq> (v < 0))"
  shows "f32_rounded st zs x res"
proof -
  have "\<bar>x\<bar> * 2 ^ 149 = \<bar>v\<bar>" "x = 0 \<longleftrightarrow> v = 0" "v \<noteq> 0 \<Longrightarrow> x < 0 \<longleftrightarrow> neg \<noteq> (v < 0)"
    unfolding assms(2) by (auto simp: abs_mult abs_divide zero_less_divide_iff divide_less_0_iff)
  then show ?thesis using assms(1,3) unfolding f32_rounded_def by auto
qed

lemma normSubnormalF32Sig_eq:
  assumes "0 < unat sig" and "unat sig < 2 ^ 23"
  obtains h where "exp_f32 (softfloat_normSubnormalF32Sig sig) = 1 - int h" and "h < 24"
    and "unat (sig_f32 (softfloat_normSubnormalF32Sig sig)) = unat sig * 2 ^ h"
    and "2 ^ 23 \<le> unat sig * 2 ^ h" and "unat sig * 2 ^ h < 2 ^ 24"
proof -
  define c where "c = unat (softfloat_countLeadingZeros32 (ucast sig))"
  have cl: "c < 32" "2 ^ 31 \<le> unat sig * 2 ^ c" "unat sig * 2 ^ c < 2 ^ 32"
    using clz32_shift [of sig] assms unfolding c_def by simp_all
  have "8 \<le> c"
  proof (rule ccontr)
    assume "\<not> 8 \<le> c"
    then have "unat sig * 2 ^ c \<le> unat sig * 2 ^ 7" by (intro mult_le_mono2 power_increasing) auto
    from le_trans [OF cl(2) this] assms(2) show False by simp
  qed
  then obtain h where h: "c = h + 8" by (metis add.commute le_add_diff_inverse)
  have sd: "uint (softfloat_countLeadingZeros32 (ucast sig)) - 8 = int h" using h by (simp add: c_def uint_nat)
  have hb: "2 ^ 23 \<le> unat sig * 2 ^ h" "unat sig * 2 ^ h < 2 ^ 24" using cl unfolding h power_add by simp_all
  show thesis
    by (rule that [of h]) (use hb cl h in \<open>simp_all add: softfloat_normSubnormalF32Sig_def Let_def sd unat_push_bit\<close>)
qed

lemma f32_nonzero_iff: "expF32UI a = 0 \<and> fracF32UI a = 0 \<longleftrightarrow> unat a mod 2 ^ 31 = 0"
proof -
  have "fracF32UI a = 0 \<longleftrightarrow> unat (fracF32UI a) = 0" by (simp add: unat_eq_0)
  then show ?thesis
    unfolding expF32UI_index fracF32UI_index
    using div_mult_mod_eq [of "unat a mod 2 ^ 31" "2 ^ 23"] by auto
qed

lemma f32_finite_exp: "f32_finite a \<Longrightarrow> expF32UI (ucast a) \<noteq> 0xFF"
  unfolding f32_finite_def expF32UI_index
  using index_div_less [of "unat a mod 2 ^ 31" 255 23] by simp

lemma isNaNF32UI_iff: "isNaNF32UI a \<longleftrightarrow> fp_inf 23 255 < unat a mod 2 ^ 31"
proof -
  define n where "n = unat a mod 2 ^ 31"
  have m: "(0x7F800000 :: u64) = push_bit 23 (mask 8)" by (simp add: mask_eq_exp_minus_1)
  have d: "unat a div 2 ^ 23 mod 2 ^ 8 = n div 2 ^ 23"
    using expF32UI_eq [of a] expF32UI_index [of a] by (simp add: n_def)
  have "a AND 0x7F800000 = 0x7F800000 \<longleftrightarrow> unat (a AND 0x7F800000) = 255 * 2 ^ 23"
    by (simp add: word_unat_eq_iff)
  also have "\<dots> \<longleftrightarrow> n div 2 ^ 23 = 255"
    unfolding m by (subst unat_and_field) (simp_all add: d [simplified])
  finally have 1: "NOT a AND 0x7F800000 = 0 \<longleftrightarrow> n div 2 ^ 23 = 255"
    by (simp add: word_not_and_eq_0_iff)
  have 2: "a AND 0x007FFFFF \<noteq> 0 \<longleftrightarrow> n mod 2 ^ 23 \<noteq> 0"
    using fracF32UI_index [of a] unfolding n_def by (metis fracF32UI_def unat_eq_0)
  have "n < 2 ^ 31" by (simp add: n_def)
  then have "n div 2 ^ 23 = 255 \<and> n mod 2 ^ 23 \<noteq> 0 \<longleftrightarrow> 255 * 2 ^ 23 < n"
    unfolding div_mod_range [OF zero_less_power [OF zero_less_numeral]] by simp
  then show ?thesis unfolding isNaNF32UI_def 1 2 by (simp add: n_def)
qed

lemma isSigNaNF32UI_iff:
  "softfloat_isSigNaNF32UI a \<longleftrightarrow> fp_inf 23 255 < unat a mod 2 ^ 31 \<and> unat a mod 2 ^ 31 < fp_inf 23 255 + 2 ^ 22"
proof -
  define n where "n = unat a mod 2 ^ 31"
  have m: "(0x7FC00000 :: u64) = push_bit 22 (mask 9)" by (simp add: mask_eq_exp_minus_1)
  have d: "unat a div 2 ^ 22 mod 2 ^ 9 = n div 2 ^ 22"
    using drop_bit_take_bit [of 22 31 "unat a"] by (simp add: n_def drop_bit_eq_div take_bit_eq_mod)
  have "a AND 0x7FC00000 = 0x7F800000 \<longleftrightarrow> unat (a AND 0x7FC00000) = 510 * 2 ^ 22"
    by (simp add: word_unat_eq_iff)
  also have "\<dots> \<longleftrightarrow> n div 2 ^ 22 = 510"
    unfolding m by (subst unat_and_field) (simp_all add: d [simplified])
  finally have 1: "a AND 0x7FC00000 = 0x7F800000 \<longleftrightarrow> n div 2 ^ 22 = 510" .
  have "unat (a AND 0x003FFFFF) = unat a mod 2 ^ 22" using unat_and_mask [of a 22] by simp
  also have "\<dots> = n mod 2 ^ 22" by (simp add: n_def mod_mod_cancel)
  finally have 2: "a AND 0x003FFFFF \<noteq> 0 \<longleftrightarrow> n mod 2 ^ 22 \<noteq> 0" by (metis unat_eq_0)
  have "n < 2 ^ 31" by (simp add: n_def)
  then have "n div 2 ^ 22 = 510 \<and> n mod 2 ^ 22 \<noteq> 0 \<longleftrightarrow> 255 * 2 ^ 23 < n \<and> n < 255 * 2 ^ 23 + 2 ^ 22"
    unfolding div_mod_range [OF zero_less_power [OF zero_less_numeral]] by simp
  then show ?thesis unfolding softfloat_isSigNaNF32UI_def 1 2 by (simp add: n_def)
qed

end
