(* ===== verification/F32_Compare.thy ===== *)
theory F32_Compare
  imports FP_Compare F32_Format
begin

text \<open>
  The comparisons of 32-bit numbers (\<open>f32_eq.c\<close>, \<open>f32_eq_signaling.c\<close>, \<open>f32_le.c\<close>, \<open>f32_le_quiet.c\<close>,
  \<open>f32_lt.c\<close>, \<open>f32_lt_quiet.c\<close>) and \<open>f32_isSignalingNaN.c\<close>; they satisfy the contract
  \<open>fp_compare\<close>.
\<close>

definition f32_isSignalingNaN :: "float32_t \<Rightarrow> bool" where
  "f32_isSignalingNaN a = softfloat_isSigNaNF32UI (ucast a)"

definition f32_eq :: "float32_t \<Rightarrow> float32_t \<Rightarrow> softfloat_state \<Rightarrow> bool \<times> softfloat_state" where
  "f32_eq a b st =
     (let uiA = ucast a :: uint_fast32; uiB = ucast b :: uint_fast32
      in if isNaNF32UI uiA \<or> isNaNF32UI uiB then
           (False, if softfloat_isSigNaNF32UI uiA \<or> softfloat_isSigNaNF32UI uiB
                   then softfloat_raiseFlags softfloat_flag_invalid st else st)
         else (uiA = uiB \<or> (ucast (push_bit 1 (uiA OR uiB)) :: u32) = 0, st))"

definition f32_eq_signaling :: "float32_t \<Rightarrow> float32_t \<Rightarrow> softfloat_state \<Rightarrow> bool \<times> softfloat_state" where
  "f32_eq_signaling a b st =
     (let uiA = ucast a :: uint_fast32; uiB = ucast b :: uint_fast32
      in if isNaNF32UI uiA \<or> isNaNF32UI uiB then (False, softfloat_raiseFlags softfloat_flag_invalid st)
         else (uiA = uiB \<or> (ucast (push_bit 1 (uiA OR uiB)) :: u32) = 0, st))"

definition f32_le :: "float32_t \<Rightarrow> float32_t \<Rightarrow> softfloat_state \<Rightarrow> bool \<times> softfloat_state" where
  "f32_le a b st =
     (let uiA = ucast a :: uint_fast32; uiB = ucast b :: uint_fast32
      in if isNaNF32UI uiA \<or> isNaNF32UI uiB then (False, softfloat_raiseFlags softfloat_flag_invalid st)
         else
           let signA = signF32UI uiA; signB = signF32UI uiB
           in (if signA \<noteq> signB then signA \<or> (ucast (push_bit 1 (uiA OR uiB)) :: u32) = 0
               else uiA = uiB \<or> signA \<noteq> (uiA < uiB), st))"

definition f32_le_quiet :: "float32_t \<Rightarrow> float32_t \<Rightarrow> softfloat_state \<Rightarrow> bool \<times> softfloat_state" where
  "f32_le_quiet a b st =
     (let uiA = ucast a :: uint_fast32; uiB = ucast b :: uint_fast32
      in if isNaNF32UI uiA \<or> isNaNF32UI uiB then
           (False, if softfloat_isSigNaNF32UI uiA \<or> softfloat_isSigNaNF32UI uiB
                   then softfloat_raiseFlags softfloat_flag_invalid st else st)
         else
           let signA = signF32UI uiA; signB = signF32UI uiB
           in (if signA \<noteq> signB then signA \<or> (ucast (push_bit 1 (uiA OR uiB)) :: u32) = 0
               else uiA = uiB \<or> signA \<noteq> (uiA < uiB), st))"

definition f32_lt :: "float32_t \<Rightarrow> float32_t \<Rightarrow> softfloat_state \<Rightarrow> bool \<times> softfloat_state" where
  "f32_lt a b st =
     (let uiA = ucast a :: uint_fast32; uiB = ucast b :: uint_fast32
      in if isNaNF32UI uiA \<or> isNaNF32UI uiB then (False, softfloat_raiseFlags softfloat_flag_invalid st)
         else
           let signA = signF32UI uiA; signB = signF32UI uiB
           in (if signA \<noteq> signB then signA \<and> (ucast (push_bit 1 (uiA OR uiB)) :: u32) \<noteq> 0
               else uiA \<noteq> uiB \<and> signA \<noteq> (uiA < uiB), st))"

definition f32_lt_quiet :: "float32_t \<Rightarrow> float32_t \<Rightarrow> softfloat_state \<Rightarrow> bool \<times> softfloat_state" where
  "f32_lt_quiet a b st =
     (let uiA = ucast a :: uint_fast32; uiB = ucast b :: uint_fast32
      in if isNaNF32UI uiA \<or> isNaNF32UI uiB then
           (False, if softfloat_isSigNaNF32UI uiA \<or> softfloat_isSigNaNF32UI uiB
                   then softfloat_raiseFlags softfloat_flag_invalid st else st)
         else
           let signA = signF32UI uiA; signB = signF32UI uiB
           in (if signA \<noteq> signB then signA \<and> (ucast (push_bit 1 (uiA OR uiB)) :: u32) \<noteq> 0
               else uiA \<noteq> uiB \<and> signA \<noteq> (uiA < uiB), st))"

text \<open>NaNs and signaling NaNs by their patterns: the quiet bit is bit 22.\<close>

definition f32_nan :: "float32_t \<Rightarrow> bool" where
  "f32_nan a \<longleftrightarrow> fp_inf 23 255 < unat a mod 2 ^ 31"

definition f32_snan :: "float32_t \<Rightarrow> bool" where
  "f32_snan a \<longleftrightarrow> f32_nan a \<and> unat a mod 2 ^ 31 < fp_inf 23 255 + 2 ^ 22"

lemma isNaN_f32 [simp]: "isNaNF32UI (ucast (a :: float32_t)) \<longleftrightarrow> f32_nan a"
  by (simp add: isNaNF32UI_iff f32_nan_def)

lemma isSigNaN_f32 [simp]: "softfloat_isSigNaNF32UI (ucast (a :: float32_t)) \<longleftrightarrow> f32_snan a"
  by (simp add: isSigNaNF32UI_iff f32_nan_def f32_snan_def)

lemma f32_isSignalingNaN_iff: "f32_isSignalingNaN a \<longleftrightarrow> f32_snan a"
  by (simp add: f32_isSignalingNaN_def)

lemma f32_real_signed_mag:
  "f32_real a = real_of_int (signed_mag 23 (2 ^ 31 \<le> unat a) (unat a mod 2 ^ 31)) / 2 ^ 149"
  by (simp add: f32_real_def signed_mag_def)

lemma f32_both_zero:
  fixes a b :: float32_t
  shows "(ucast (push_bit 1 (ucast a OR ucast b :: uint_fast32)) :: u32) = 0 \<longleftrightarrow>
    unat a mod 2 ^ 31 = 0 \<and> unat b mod 2 ^ 31 = 0"
proof -
  have "(ucast (push_bit k (ucast a OR ucast b :: uint_fast32)) :: u32) = push_bit k a OR push_bit k b" for k
    by (rule bit_word_eqI) (auto simp: bit_simps)
  moreover have "push_bit 1 c = 0 \<longleftrightarrow> unat c mod 2 ^ 31 = 0" for c :: u32
    using push_bit_eq_0_iff_dvd [of 31 c] by simp
  ultimately show ?thesis by (simp only: or_eq_0_iff)
qed

lemma f32_pattern_order:
  fixes a b :: float32_t
  shows "(ucast a :: uint_fast32) = ucast b \<longleftrightarrow> (2 ^ 31 \<le> unat a) = (2 ^ 31 \<le> unat b) \<and> unat a mod 2 ^ 31 = unat b mod 2 ^ 31"
    and "(2 ^ 31 \<le> unat a) = (2 ^ 31 \<le> unat b) \<Longrightarrow>
      (ucast a :: uint_fast32) < ucast b \<longleftrightarrow> unat a mod 2 ^ 31 < unat b mod 2 ^ 31"
proof -
  define sA sB nA nB where "sA \<longleftrightarrow> 2 ^ 31 \<le> unat a" and "sB \<longleftrightarrow> 2 ^ 31 \<le> unat b"
    and "nA = unat a mod 2 ^ 31" and "nB = unat b mod 2 ^ 31"
  have "unat c = of_bool (2 ^ 31 \<le> unat c) * 2 ^ 31 + unat c mod 2 ^ 31" for c :: float32_t
    using unat_sign_index [of "ucast c"] unat_f32_less [of c] by simp
  from this [of a] this [of b] have u: "unat a = of_bool sA * 2 ^ 31 + nA" "unat b = of_bool sB * 2 ^ 31 + nB"
    unfolding sA_def sB_def nA_def nB_def by blast+
  have n: "nA < 2 ^ 31" "nB < 2 ^ 31" by (simp_all add: nA_def nB_def)
  have "unat a = unat b \<longleftrightarrow> sA = sB \<and> nA = nB" "sA = sB \<Longrightarrow> unat a < unat b \<longleftrightarrow> nA < nB"
    unfolding u using n by (cases sA; cases sB; auto)+
  then show "(ucast a :: uint_fast32) = ucast b \<longleftrightarrow> (2 ^ 31 \<le> unat a) = (2 ^ 31 \<le> unat b) \<and> unat a mod 2 ^ 31 = unat b mod 2 ^ 31"
    and "(2 ^ 31 \<le> unat a) = (2 ^ 31 \<le> unat b) \<Longrightarrow>
      (ucast a :: uint_fast32) < ucast b \<longleftrightarrow> unat a mod 2 ^ 31 < unat b mod 2 ^ 31"
    unfolding word_unat_eq_iff word_less_nat_alt ucast_f32 sA_def sB_def nA_def nB_def by blast+
qed

lemma f32_real_order:
  "f32_real a = f32_real b \<longleftrightarrow>
     signed_mag 23 (2 ^ 31 \<le> unat a) (unat a mod 2 ^ 31) = signed_mag 23 (2 ^ 31 \<le> unat b) (unat b mod 2 ^ 31)"
  "f32_real a < f32_real b \<longleftrightarrow>
     signed_mag 23 (2 ^ 31 \<le> unat a) (unat a mod 2 ^ 31) < signed_mag 23 (2 ^ 31 \<le> unat b) (unat b mod 2 ^ 31)"
  "f32_real a \<le> f32_real b \<longleftrightarrow>
     signed_mag 23 (2 ^ 31 \<le> unat a) (unat a mod 2 ^ 31) \<le> signed_mag 23 (2 ^ 31 \<le> unat b) (unat b mod 2 ^ 31)"
  unfolding f32_real_signed_mag by (simp_all add: divide_right_mono divide_strict_right_mono field_simps)

lemmas f32_compare_defs =
  f32_eq_def f32_eq_signaling_def f32_le_def f32_le_quiet_def f32_lt_def f32_lt_quiet_def

lemma f32_compare_number:
  assumes "\<not> f32_nan a" and "\<not> f32_nan b"
  shows "f32_eq a b st = (f32_real a = f32_real b, st)" and "f32_eq_signaling a b st = (f32_real a = f32_real b, st)"
    and "f32_le a b st = (f32_real a \<le> f32_real b, st)" and "f32_le_quiet a b st = (f32_real a \<le> f32_real b, st)"
    and "f32_lt a b st = (f32_real a < f32_real b, st)" and "f32_lt_quiet a b st = (f32_real a < f32_real b, st)"
  unfolding f32_compare_defs Let_def f32_both_zero f32_pattern_order(1) f32_real_order f32_sign isNaN_f32
    signed_mag_eq_iff signed_mag_less_iff signed_mag_le_iff
  using assms f32_pattern_order(2) [of a b] by auto

interpretation f32_cmp: fp_compare f32_real f32_nan f32_snan f32_eq f32_eq_signaling f32_le f32_le_quiet f32_lt f32_lt_quiet
proof (unfold_locales, goal_cases)
  case (1 a)
  then show ?case by (simp add: f32_snan_def)
qed (simp_all add: f32_compare_number, simp_all add: f32_compare_defs)

end
