(* ===== verification/F64_Format.thy ===== *)
theory F64_Format
  imports Format
begin

text \<open>
  The 64-bit format: the field macros of \<open>include/internals.h\<close>, the NaN handling of the
  \<open>8086-SSE\<close> specialization, and the routines that build a result from sign, exponent and
  significand. A \<open>float64_t\<close> is its 64-bit pattern.
\<close>

type_synonym float64_t = u64

definition signF64UI :: "uint_fast64 \<Rightarrow> bool" where
  "signF64UI a \<longleftrightarrow> drop_bit 63 a \<noteq> 0"

definition expF64UI :: "uint_fast64 \<Rightarrow> int" where
  "expF64UI a = sint (drop_bit 52 a) AND 0x7FF"

definition fracF64UI :: "uint_fast64 \<Rightarrow> uint_fast64" where
  "fracF64UI a = a AND 0x000FFFFFFFFFFFFF"

definition packToF64UI :: "bool \<Rightarrow> int \<Rightarrow> uint_fast64 \<Rightarrow> uint_fast64" where
  "packToF64UI sign ex sig = push_bit 63 (of_bool sign) + push_bit 52 (word_of_int ex) + sig"

definition isNaNF64UI :: "uint_fast64 \<Rightarrow> bool" where
  "isNaNF64UI a \<longleftrightarrow> NOT a AND 0x7FF0000000000000 = 0 \<and> a AND 0x000FFFFFFFFFFFFF \<noteq> 0"

definition softfloat_isSigNaNF64UI :: "uint_fast64 \<Rightarrow> bool" where
  "softfloat_isSigNaNF64UI uiA \<longleftrightarrow> uiA AND 0x7FF8000000000000 = 0x7FF0000000000000 \<and> uiA AND 0x0007FFFFFFFFFFFF \<noteq> 0"

definition defaultNaNF64UI :: uint_fast64 where
  "defaultNaNF64UI = 0xFFF8000000000000"

definition softfloat_propagateNaNF64UI ::
    "uint_fast64 \<Rightarrow> uint_fast64 \<Rightarrow> softfloat_state \<Rightarrow> uint_fast64 \<times> softfloat_state" where
  "softfloat_propagateNaNF64UI uiA uiB st =
     (let isSigNaNA = softfloat_isSigNaNF64UI uiA
      in if isSigNaNA \<or> softfloat_isSigNaNF64UI uiB then
           let st = softfloat_raiseFlags softfloat_flag_invalid st
           in if isSigNaNA then (uiA OR 0x0008000000000000, st)
              else ((if isNaNF64UI uiA then uiA else uiB) OR 0x0008000000000000, st)
         else ((if isNaNF64UI uiA then uiA else uiB) OR 0x0008000000000000, st))"

definition softfloat_f64UIToCommonNaN :: "uint_fast64 \<Rightarrow> softfloat_state \<Rightarrow> commonNaN \<times> softfloat_state" where
  "softfloat_f64UIToCommonNaN uiA st =
     (let st = (if softfloat_isSigNaNF64UI uiA then softfloat_raiseFlags softfloat_flag_invalid st else st)
      in (\<lparr>nan_sign = drop_bit 63 uiA \<noteq> 0, nan_v64 = push_bit 12 uiA, nan_v0 = 0\<rparr>, st))"

definition softfloat_commonNaNToF64UI :: "commonNaN \<Rightarrow> uint_fast64" where
  "softfloat_commonNaNToF64UI a =
     push_bit 63 (of_bool (nan_sign a)) OR 0x7FF8000000000000 OR drop_bit 12 (nan_v64 a)"

record exp16_sig64 =
  exp_f64 :: int
  sig_f64 :: uint_fast64

definition softfloat_normSubnormalF64Sig :: "uint_fast64 \<Rightarrow> exp16_sig64" where
  "softfloat_normSubnormalF64Sig sig =
     (let shiftDist = uint (softfloat_countLeadingZeros64 sig) - 11
      in \<lparr>exp_f64 = 1 - shiftDist, sig_f64 = push_bit (nat shiftDist) sig\<rparr>)"

text \<open>
  Round and pack: \<open>sig\<close> has the leading bit at bit 62 and ten round bits; \<open>exp\<close> is one less
  than the exponent field of the result. The casts \<open>(uint16_t) exp\<close> and \<open>(unsigned int) exp\<close>
  are reductions modulo \<open>2 ^ 16\<close> and \<open>2 ^ 32\<close>. The first definition is the part after the label-free fall through, which every branch
  but the overflow branch reaches.
\<close>

definition roundPackToF64_tail ::
    "bool \<Rightarrow> bool \<Rightarrow> uint_fast16 \<Rightarrow> int \<Rightarrow> uint_fast64 \<Rightarrow> uint_fast16 \<Rightarrow> softfloat_state \<Rightarrow> float64_t \<times> softfloat_state" where
  "roundPackToF64_tail sign roundNearEven roundIncrement ex sig roundBits st =
     (let sig = drop_bit 10 (sig + roundIncrement);
          st = (if roundBits \<noteq> 0
                then st\<lparr>softfloat_exceptionFlags := softfloat_exceptionFlags st OR softfloat_flag_inexact\<rparr>
                else st);
          sig = sig AND NOT (of_bool ((roundBits XOR 0x200) = 0 \<and> roundNearEven));
          ex = (if sig = 0 then 0 else ex)
      in (packToF64UI sign ex sig, st))"

definition softfloat_roundPackToF64 ::
    "bool \<Rightarrow> int \<Rightarrow> uint_fast64 \<Rightarrow> softfloat_state \<Rightarrow> float64_t \<times> softfloat_state" where
  "softfloat_roundPackToF64 sign ex sig st =
     (let roundingMode = softfloat_roundingMode st;
          roundNearEven = (roundingMode = softfloat_round_near_even);
          roundIncrement =
            (if \<not> roundNearEven \<and> roundingMode \<noteq> softfloat_round_near_maxMag
             then if roundingMode = (if sign then softfloat_round_min else softfloat_round_max) then 0x3FF else 0
             else 0x200) :: uint_fast16;
          roundBits = sig AND 0x3FF :: uint_fast16
      in if 0x7FD \<le> ex mod 2 ^ 16 then
           if ex < 0 then
             let isTiny = (softfloat_detectTininess st = softfloat_tininess_beforeRounding
                           \<or> ex < - 1 \<or> sig + roundIncrement < 0x8000000000000000);
                 sig = softfloat_shiftRightJam64 sig (word_of_int (- ex));
                 roundBits = sig AND 0x3FF;
                 st = (if isTiny \<and> roundBits \<noteq> 0 then softfloat_raiseFlags softfloat_flag_underflow st else st)
             in roundPackToF64_tail sign roundNearEven roundIncrement 0 sig roundBits st
           else if 0x7FD < ex \<or> 0x8000000000000000 \<le> sig + roundIncrement then
             (packToF64UI sign 0x7FF 0 - of_bool (roundIncrement = 0),
              softfloat_raiseFlags (softfloat_flag_overflow OR softfloat_flag_inexact) st)
           else roundPackToF64_tail sign roundNearEven roundIncrement ex sig roundBits st
         else roundPackToF64_tail sign roundNearEven roundIncrement ex sig roundBits st)"

definition softfloat_normRoundPackToF64 ::
    "bool \<Rightarrow> int \<Rightarrow> uint_fast64 \<Rightarrow> softfloat_state \<Rightarrow> float64_t \<times> softfloat_state" where
  "softfloat_normRoundPackToF64 sign ex sig st =
     (let shiftDist = uint (softfloat_countLeadingZeros64 sig) - 1;
          ex = ex - shiftDist
      in if 10 \<le> shiftDist \<and> ex mod 2 ^ 32 < 0x7FD
         then (packToF64UI sign (if sig \<noteq> 0 then ex else 0) (push_bit (nat (shiftDist - 10)) sig), st)
         else softfloat_roundPackToF64 sign ex (push_bit (nat shiftDist) sig) st)"

text \<open>What a pattern means.\<close>

definition f64_finite :: "float64_t \<Rightarrow> bool" where
  "f64_finite a \<longleftrightarrow> unat a mod 2 ^ 63 < fp_inf 52 2047"

definition f64_real :: "float64_t \<Rightarrow> real" where
  "f64_real a = (if 2 ^ 63 \<le> unat a then - 1 else 1) * real (fmag 52 (unat a mod 2 ^ 63)) / 2 ^ 1074"

text \<open>
  \<open>f64_rounded st zs x (z, st')\<close>: in state \<open>st\<close> the pattern \<open>z\<close> is the number \<open>x\<close> correctly rounded
  (a zero result of an exact zero has sign \<open>zs\<close>), and \<open>st'\<close> has exactly the exceptions of that
  rounding raised.
\<close>

definition f64_rounded :: "softfloat_state \<Rightarrow> bool \<Rightarrow> real \<Rightarrow> float64_t \<times> softfloat_state \<Rightarrow> bool" where
  "f64_rounded st zs x res \<longleftrightarrow>
     fl_result 52 2047 st (if x = 0 then zs else x < 0) (\<bar>x\<bar> * 2 ^ 1074) (unat (fst res)) (snd res)"

interpretation f64: fp_format 52 10 2047
  by unfold_locales simp_all

lemma signF64UI_iff [simp]: "signF64UI a \<longleftrightarrow> 2 ^ 63 \<le> unat a"
proof -
  have "signF64UI a \<longleftrightarrow> unat (drop_bit 63 a) \<noteq> 0"
    by (simp add: signF64UI_def unat_eq_0)
  then show ?thesis by (simp only: unat_drop_bit) (simp add: div_eq_0_iff not_less)
qed

lemma expF64UI_eq: "expF64UI a = int (unat a div 2 ^ 52 mod 2048)"
proof -
  have "unat a div 2 ^ 52 < 2 ^ 12" using unat_lt [of a] by (simp add: div_less_iff_less_mult)
  moreover have u: "uint (drop_bit 52 a) = int (unat a div 2 ^ 52)"
    by (simp only: uint_nat unat_drop_bit)
  ultimately have "sint (drop_bit 52 a) = int (unat a div 2 ^ 52)"
    unfolding sint_uint u by (intro signed_take_bit_int_eq_self) simp_all
  then show ?thesis using int_and_mask [of _ 11] by (simp add: expF64UI_def zmod_int)
qed

lemma unat_fracF64UI [unat_ops]: "unat (fracF64UI a) = unat a mod 2 ^ 52"
  using unat_and_mask [of a 52] by (simp add: fracF64UI_def)

lemma unat_packToF64UI:
  assumes "0 \<le> ex" and "nat ex * 2 ^ 52 + unat sig < 2 ^ 63"
  shows "unat (packToF64UI sign ex sig) = of_bool sign * 2 ^ 63 + nat ex * 2 ^ 52 + unat sig"
proof -
  have e: "nat ex * 2 ^ 52 < 2 ^ 63" "nat ex < 2 ^ 11" using assms(2) by simp_all
  then have u: "unat (word_of_int ex :: u64) = nat ex" using assms(1) by (simp add: unat_word_of_int)
  have 1: "unat (push_bit 63 (of_bool sign) :: u64) = of_bool sign * 2 ^ 63"
    by (cases sign) simp_all
  have 2: "unat (push_bit 52 (word_of_int ex :: u64)) = nat ex * 2 ^ 52"
    using e by (subst unat_push_bit) (simp_all add: u)
  have 3: "unat (push_bit 63 (of_bool sign) + push_bit 52 (word_of_int ex) :: u64) = of_bool sign * 2 ^ 63 + nat ex * 2 ^ 52"
    using e by (subst unat_add_small) (auto simp: 1 2)
  show ?thesis unfolding packToF64UI_def
    using e assms(2) by (subst unat_add_small) (auto simp: 3)
qed

section \<open>Round and pack\<close>

lemma roundBitsF64: "unat ((sig AND 0x3FF :: u64) :: uint_fast16) = unat sig mod 2 ^ 10"
  using unat_and_mask [of sig 10] by (simp add: unat_ucast_mod)

lemma roundBitsF64_tie: "((sig AND 0x3FF :: u64) XOR 0x200 :: uint_fast16) = 0 \<longleftrightarrow> unat sig mod 2 ^ 10 = 2 ^ 9"
  unfolding word_xor_eq_0_iff by (simp only: word_unat_eq_iff roundBitsF64) simp

lemma round_sigF64:
  assumes "unat inc = round_inc m s 10" and "unat sig < 2 ^ 63" and "ne \<longleftrightarrow> m = Round_near_even"
  shows "unat (drop_bit 10 (sig + (inc :: uint_fast16)) AND
      NOT (of_bool (((sig AND 0x3FF) XOR 0x200 :: uint_fast16) = 0 \<and> ne)) :: u64) = round_sig m s 10 (unat sig)"
proof -
  have "unat inc < 2 ^ 10" using f64.inc_less assms(1) by simp
  then have "unat (sig + inc) = unat sig + round_inc m s 10"
    using assms(1,2) by (subst unat_add_small) (auto simp: unat_ucast_up)
  then show ?thesis
    unfolding unat_and_not_of_bool unat_drop_bit roundBitsF64_tie round_sig_def Let_def
    using assms(3) by auto
qed

lemma round_incF64:
  "unat (if softfloat_roundingMode st \<noteq> softfloat_round_near_even \<and> softfloat_roundingMode st \<noteq> softfloat_round_near_maxMag
      then if softfloat_roundingMode st = (if s then softfloat_round_min else softfloat_round_max) then 0x3FF else 0
      else 0x200 :: uint_fast16) = round_inc (mode st) s 10"
  unfolding rmode_of_sel by (cases "mode st") simp_all

lemma roundPackToF64_tail_eq:
  assumes "unat inc = round_inc (mode st0) s 10" and "unat sig < 2 ^ 63" and "0 \<le> ex"
    and "nat ex * 2 ^ 52 + round_sig (mode st0) s 10 (unat sig) < 2 ^ 63" and "ex = 0 \<or> 2 ^ 62 \<le> unat sig"
    and "ne \<longleftrightarrow> mode st0 = Round_near_even"
  shows "unat (fst (roundPackToF64_tail s ne inc ex sig ((sig AND 0x3FF)) st)) =
      of_bool s * 2 ^ 63 + nat ex * 2 ^ 52 + round_sig (mode st0) s 10 (unat sig) \<and>
    snd (roundPackToF64_tail s ne inc ex sig ((sig AND 0x3FF)) st) =
      softfloat_raiseFlags (if unat sig mod 2 ^ 10 = 0 then 0 else softfloat_flag_inexact) st"
proof -
  let ?z = "drop_bit 10 (sig + (inc :: uint_fast16)) AND
      NOT (of_bool (((sig AND 0x3FF) XOR 0x200 :: uint_fast16) = 0 \<and> ne)) :: u64"
  have z: "unat ?z = round_sig (mode st0) s 10 (unat sig)"
    by (rule round_sigF64) (use assms in auto)
  have "unat sig div 2 ^ 10 \<le> unat ?z"
    unfolding z by (subst round_sig_eq) auto
  then have "ex \<noteq> 0 \<Longrightarrow> ?z \<noteq> 0"
    using assms(5) by (auto simp: div_eq_0_iff)
  then have e: "(if ?z = 0 then 0 else ex) = ex" by metis
  have "((sig AND 0x3FF) :: uint_fast16) = 0 \<longleftrightarrow> unat sig mod 2 ^ 10 = 0"
    by (simp only: word_unat_eq_iff roundBitsF64) simp
  then show ?thesis
    unfolding roundPackToF64_tail_def Let_def e fst_conv snd_conv
    using unat_packToF64UI [of ex ?z s] assms(3,4) z by (auto simp: softfloat_raiseFlags_def)
qed

lemma roundPackToF64_eq:
  assumes "2 ^ 62 \<le> unat sig" and "unat sig < 2 ^ 63" and "- (2 ^ 15) \<le> ex" and "ex < 2 ^ 15"
  shows "unat (fst (softfloat_roundPackToF64 s ex sig st)) = rp_pattern 52 10 2047 (mode st) s ex (unat sig) \<and>
    snd (softfloat_roundPackToF64 s ex sig st) =
      softfloat_raiseFlags (rp_flags 52 10 2047 (tiny_after st) (mode st) s ex (unat sig)) st"
proof -
  define inc :: uint_fast16 where "inc = (if softfloat_roundingMode st \<noteq> softfloat_round_near_even \<and> softfloat_roundingMode st \<noteq> softfloat_round_near_maxMag
      then if softfloat_roundingMode st = (if s then softfloat_round_min else softfloat_round_max) then 0x3FF else 0
      else 0x200)"
  define m where "m = mode st"
  have inc: "unat inc = round_inc m s 10" unfolding inc_def m_def by (rule round_incF64)
  have inc_lt: "round_inc m s 10 < 1024" using f64.inc_less [of m s] by simp
  have inc0: "inc = 0 \<longleftrightarrow> round_inc m s 10 = 0" using inc by (simp add: unat_eq_0 flip: inc)
  have add: "unat (sig + inc) = unat sig + round_inc m s 10"
    using assms(2) inc_lt by (subst unat_add_small) (auto simp: unat_ucast_up inc)
  have ne: "softfloat_roundingMode st = softfloat_round_near_even \<longleftrightarrow> m = Round_near_even"
    by (simp add: m_def rmode_near_even_iff)
  have cast: "2045 \<le> ex mod 2 ^ 16 \<longleftrightarrow> ex < 0 \<or> 2045 \<le> ex"
    using cast_le_iff [of "2 ^ 15" ex 2045] assms(3,4) by simp
  note unf = softfloat_roundPackToF64_def [of s ex sig st, unfolded Let_def, folded inc_def, unfolded cast]
  consider (neg) "ex < 0" | (ovf) "0 \<le> ex" "round_pack_overflow 52 10 2047 m s ex (unat sig)"
    | (mid) "0 \<le> ex" "\<not> round_pack_overflow 52 10 2047 m s ex (unat sig)" by linarith
  then show ?thesis
  proof cases
    case neg
    define w :: u64 where "w = (softfloat_shiftRightJam64 (sig) (word_of_int (- ex)))"
    have d: "unat (word_of_int (- ex) :: u64) = nat (- ex)"
      using neg assms(3) by (intro unat_word_of_int) auto
    have w: "unat w = jam (unat sig) (nat (- ex))"
      unfolding w_def using neg assms(2) d
      by (simp only: unat_shiftRightJam64)
    have ov: "\<not> round_pack_overflow 52 10 2047 m s ex (unat sig)"
      using neg by (simp add: round_pack_overflow_def)
    define tiny where "tiny \<longleftrightarrow> softfloat_detectTininess st = softfloat_tininess_beforeRounding \<or> ex < - 1 \<or> sig + inc < 0x8000000000000000"
    define st1 where "st1 = (if tiny \<and> ((w AND 0x3FF) :: uint_fast16) \<noteq> 0 then softfloat_raiseFlags softfloat_flag_underflow st else st)"
    have e: "softfloat_roundPackToF64 s ex sig st =
        roundPackToF64_tail s (softfloat_roundingMode st = 0) inc 0 w ((w AND 0x3FF)) st1"
      unfolding unf using neg by (simp only: st1_def tiny_def w_def simp_thms if_True)
    have ti: "tiny \<longleftrightarrow> \<not> tiny_after st \<or> ex < - 1 \<or> unat sig + round_inc m s 10 < 2 ^ 63"
      by (simp add: tiny_def word_less_nat_alt add)
    have rb: "((w AND 0x3FF) :: uint_fast16) = 0 \<longleftrightarrow> unat w mod 2 ^ 10 = 0"
      by (simp only: word_unat_eq_iff roundBitsF64) simp
    have wlt: "unat w < 2 ^ 63" unfolding w using neg assms(2) by (intro le_less_trans [OF jam_le]) auto
    have "round_sig m s 10 (unat w) < 2 ^ 63"
      using f64.no_overflow_index(2) [OF agrees_refl _ _ ov] neg assms(1,2) w by (simp add: round_pack_tiny_sig_def)
    then show ?thesis
      unfolding e using roundPackToF64_tail_eq [of inc st s w 0 _ st1] wlt inc ne ov neg w ti rb
      by (auto simp: rp_pattern_def rp_flags_def round_pack_def fp_half_def round_pack_tiny_sig_def m_def st1_def or.commute)
  next
    case ovf
    have "unat (packToF64UI s 2047 0) = of_bool s * 2 ^ 63 + 2047 * 2 ^ 52"
      by (subst unat_packToF64UI) auto
    then have p: "unat ((packToF64UI s 2047 0 - of_bool (inc = 0)) :: u64) = of_bool s * 2 ^ 63 + (2047 * 2 ^ 52 - of_bool (inc = 0))"
      by (subst unat_minus_small) (auto simp: of_bool_def)
    have "2045 < ex \<or> 0x8000000000000000 \<le> sig + inc" "ex < 0 \<or> 2045 \<le> ex" "\<not> ex < 0"
      using ovf by (auto simp: round_pack_overflow_def word_le_nat_alt add)
    then show ?thesis
      unfolding unf if_P [OF \<open>ex < 0 \<or> 2045 \<le> ex\<close>] using ovf p inc0
      by (auto simp: rp_pattern_def rp_flags_def round_pack_def fp_half_def m_def)
  next
    case mid
    have "\<not> (2045 < ex \<or> 0x8000000000000000 \<le> sig + inc) \<or> \<not> (ex < 0 \<or> 2045 \<le> ex)" "\<not> ex < 0"
      using mid by (auto simp: round_pack_overflow_def word_le_nat_alt add)
    then have e: "softfloat_roundPackToF64 s ex sig st =
        roundPackToF64_tail s (softfloat_roundingMode st = 0) inc ex sig ((sig AND 0x3FF)) st"
      unfolding unf by auto
    have "nat ex * 2 ^ 52 + round_sig m s 10 (unat sig) < 2 ^ 63"
      using f64.no_overflow_index(2) [OF agrees_refl _ _ mid(2)] mid(1) assms(1,2) by (simp add: round_pack_tiny_sig_def)
    then show ?thesis
      unfolding e using roundPackToF64_tail_eq [of inc st s sig ex _ st] assms inc ne mid
      by (auto simp: rp_pattern_def rp_flags_def round_pack_def fp_half_def round_pack_tiny_sig_def m_def)
  qed
qed

lemma roundPackToF64_result:
  assumes "agrees 9 t (unat sig)" and "2 ^ 62 \<le> unat sig" and "unat sig < 2 ^ 63"
    and "- (2 ^ 15) \<le> ex" and "ex < 2 ^ 15" and "x = t * 2 powi (ex - 10)"
  shows "fl_result 52 2047 st s x (unat (fst (softfloat_roundPackToF64 s ex sig st)))
           (snd (softfloat_roundPackToF64 s ex sig st))"
  using f64.rp_result [of t "unat sig" x ex st s] roundPackToF64_eq [OF assms(2-5), of s st] assms
  by simp

lemma normRoundPackToF64_result:
  assumes "unat sig \<noteq> 0" and "unat sig < 2 ^ 63" and "t = real (unat sig) \<or> agrees 8 t (unat sig) \<and> 2 ^ 61 \<le> unat sig"
    and "- (2 ^ 14) \<le> ex" and "ex < 2 ^ 14" and "x = t * 2 powi (ex - 10)"
  shows "fl_result 52 2047 st s x (unat (fst (softfloat_normRoundPackToF64 s ex sig st)))
           (snd (softfloat_normRoundPackToF64 s ex sig st))"
proof -
  define c where "c = unat (softfloat_countLeadingZeros64 sig)"
  note cl = clz64_shift [OF assms(1), folded c_def]
  have "c \<noteq> 0" using cl(2) assms(2) by (intro notI) simp
  then obtain d where d: "c = Suc d" by (cases c) auto
  have sd: "uint (softfloat_countLeadingZeros64 sig) - 1 = int d"
    using d by (simp add: c_def uint_nat)
  have lo: "2 ^ 62 \<le> unat sig * 2 ^ d" and hi: "unat sig * 2 ^ d < 2 ^ 63" and d31: "d < 63"
    using cl unfolding d by simp_all
  have cast: "(ex - int d) mod 2 ^ 32 < 2045 \<longleftrightarrow> 0 \<le> ex - int d \<and> ex - int d < 2045"
    using cast_le_iff [of "2 ^ 31" "ex - int d" 2045] assms(4,5) d31 by auto
  show ?thesis
  proof (cases "10 \<le> d \<and> 0 \<le> ex - int d \<and> ex - int d < 2045")
    case True
    define k where "k = unat sig * 2 ^ (d - 10)"
    have "unat sig * 2 ^ d = k * 2 ^ 10"
      using True unfolding k_def by (simp only: mult.assoc power_add [symmetric]) simp
    then have k: "2 ^ 52 \<le> k" "k < 2 ^ 53" using lo hi by simp_all
    have u: "unat (push_bit (d - 10) sig) = k"
      unfolding k_def using k by (intro unat_push_bit) (simp add: k_def)
    have i: "nat (ex - int d) * 2 ^ 52 + k < 2047 * 2 ^ 52"
      using k(2) True pack_index_less [of k 52 "nat (ex - int d)" 2047] by auto
    have t: "t = real (unat sig)"
    proof -
      have "unat sig * 2 ^ 10 \<le> unat sig * 2 ^ d" using True by (intro mult_le_mono2 power_increasing) auto
      from le_less_trans [OF this hi] have "\<not> 2 ^ 61 \<le> unat sig" by simp
      then show ?thesis using assms(3) by blast
    qed
    have "2 powi (ex - 10) = (2::real) ^ (d - 10) * 2 ^ nat (ex - int d)"
    proof -
      have "ex - 10 = int ((d - 10) + nat (ex - int d))" using True by (simp add: of_nat_diff)
      then show ?thesis by (simp only: power_int_of_nat power_add)
    qed
    then have x: "x = real k * 2 ^ nat (ex - int d)" by (simp add: assms(6) t k_def)
    have e: "softfloat_normRoundPackToF64 s ex sig st =
        ((packToF64UI s (ex - int d) (push_bit (d - 10) sig)), st)"
      unfolding softfloat_normRoundPackToF64_def Let_def sd cast using True assms(1)
      by (auto simp: nat_diff_distrib nat_int_add)
    show ?thesis unfolding e fst_conv snd_conv
      by (rule fl_result_pack [of k _ "nat (ex - int d)"])
         (use k True x i unat_packToF64UI [of "ex - int d" "push_bit (d - 10) sig" s] u in \<open>auto simp: fp_half_def\<close>)
  next
    case False
    have e: "softfloat_normRoundPackToF64 s ex sig st = softfloat_roundPackToF64 s (ex - int d) (push_bit d sig) st"
      unfolding softfloat_normRoundPackToF64_def Let_def sd cast using False by auto
    have u: "unat (push_bit d sig) = unat sig * 2 ^ d" using hi by (intro unat_push_bit) simp
    have a: "agrees 9 (t * 2 ^ d) (unat sig * 2 ^ d)"
      using assms(3)
    proof
      assume "t = real (unat sig)"
      then show ?thesis using agrees_refl [of 9 "unat sig * 2 ^ d"] by simp
    next
      assume a: "agrees 8 t (unat sig) \<and> 2 ^ 61 \<le> unat sig"
      then have "2 ^ 61 * 2 ^ d \<le> unat sig * 2 ^ d" by simp
      then have "(2::nat) ^ (61 + d) < 2 ^ 63" using hi unfolding power_add by linarith
      then have "8 + d \<le> 9" by (subst (asm) power_strict_increasing_iff) auto
      then show ?thesis using agrees_mono [OF agrees_scale [of 8 t "unat sig" d]] a by simp
    qed
    have x: "x = t * 2 ^ d * 2 powi (ex - int d - 10)"
      unfolding assms(6) by (simp add: power_int_diff power_int_add field_simps)
    show ?thesis unfolding e
      by (rule roundPackToF64_result [OF _ _ _ _ _ x]) (use a lo hi u assms(4,5) d31 in auto)
  qed
qed

lemma expF64UI_index: "expF64UI a = int (unat a mod 2 ^ 63 div 2 ^ 52)"
  unfolding expF64UI_eq using drop_bit_take_bit [of 52 63 "unat a"]
  by (simp add: drop_bit_eq_div take_bit_eq_mod)

lemma fracF64UI_index: "unat (fracF64UI a) = unat a mod 2 ^ 63 mod 2 ^ 52"
  by (simp add: unat_fracF64UI mod_mod_cancel)

lemma half_f64 [simp]: "fp_half 52 2047 = 2 ^ 63"
  by (simp add: fp_half_def)

lemma unat_sign_indexF64: "unat a = of_bool (2 ^ 63 \<le> unat a) * 2 ^ 63 + unat (a :: u64) mod 2 ^ 63"
proof -
  have "unat a div 2 ^ 63 = of_bool (2 ^ 63 \<le> unat a)"
    using unat_lt [of a] by (cases "2 ^ 63 \<le> unat a") (simp_all add: div_nat_eqI)
  then show ?thesis using div_mult_mod_eq [of "unat a" "2 ^ 63"] by simp
qed

lemma unat_alignF64:
  assumes "k \<le> 10" and "unat c = 2 ^ (52 + k)"
  shows "unat (push_bit k (fracF64UI a) + (if expF64UI a \<noteq> 0 then c else push_bit k (fracF64UI a))) =
    align_sig 52 k (unat a mod 2 ^ 63)"
    and "2 ^ 52 \<le> unat a mod 2 ^ 63 \<Longrightarrow> unat (c + push_bit k (fracF64UI a)) = align_sig 52 k (unat a mod 2 ^ 63)"
    and "2 ^ 52 \<le> unat a mod 2 ^ 63 \<Longrightarrow> unat (push_bit k (fracF64UI a) OR c) = align_sig 52 k (unat a mod 2 ^ 63)"
proof -
  define n f where "n = unat a mod 2 ^ 63" and "f = n mod 2 ^ 52"
  have f: "f < 2 ^ 52" by (simp add: f_def)
  then have fk: "f * 2 ^ k < 2 ^ (52 + k)" by (simp add: power_add)
  have "(2::nat) ^ (52 + k) \<le> 2 ^ 62" using assms(1) by (intro power_increasing) auto
  then have lt: "f * 2 ^ k < 2 ^ 62" "unat c \<le> 2 ^ 62" using fk assms(2) by linarith+
  have u: "unat (push_bit k (fracF64UI a)) = f * 2 ^ k"
    using lt by (subst unat_push_bit) (simp_all add: fracF64UI_index n_def f_def)
  have s: "n < 2 ^ 52 \<Longrightarrow> f = n" by (simp add: f_def)
  have e: "expF64UI a \<noteq> 0 \<longleftrightarrow> 2 ^ 52 \<le> n"
    unfolding expF64UI_index n_def [symmetric] by (simp add: div_eq_0_iff not_less)
  have al: "align_sig 52 k n = (if 2 ^ 52 \<le> n then unat c + f * 2 ^ k else f * 2 ^ k + f * 2 ^ k)"
    using s unfolding assms(2) align_sig_def fp_sig_def f_def [symmetric] power_add
    by (simp add: distrib_right)
  show "unat (push_bit k (fracF64UI a) + (if expF64UI a \<noteq> 0 then c else push_bit k (fracF64UI a))) = align_sig 52 k n"
    unfolding e al using lt by (subst unat_add_small) (auto simp: u)
  show "unat (c + push_bit k (fracF64UI a)) = align_sig 52 k n" if "2 ^ 52 \<le> n"
    unfolding al using lt that by (simp add: unat_add_small u)
  have "unat (push_bit k (fracF64UI a) OR c) = f * 2 ^ k + unat c"
    using fk by (subst unat_or_disjoint [of _ "52 + k"]) (simp_all only: u assms(2) dvd_refl)
  then show "unat (push_bit k (fracF64UI a) OR c) = align_sig 52 k n" if "2 ^ 52 \<le> n"
    unfolding al using that by simp
qed

lemma roundPackToF64_norm1:
  assumes "agrees 8 t (unat z)" and "2 ^ 61 \<le> unat z" and "unat z < 2 ^ 63"
    and "- (2 ^ 14) \<le> ex" and "ex < 2 ^ 14" and "x = t * 2 powi (ex - 10)"
    and "res = (if z < 0x4000000000000000 then softfloat_roundPackToF64 s (ex - 1) (push_bit 1 z) st
                else softfloat_roundPackToF64 s ex z st)"
  shows "fl_result 52 2047 st s x (unat (fst res)) (snd res)"
proof (cases "z < 0x4000000000000000")
  case True
  then have lt: "unat z < 2 ^ 62" by (simp add: word_less_nat_alt)
  then have u: "unat (push_bit 1 z) = unat z * 2 ^ 1" by (intro unat_push_bit) simp
  have x: "x = t * 2 ^ 1 * 2 powi (ex - 1 - 10)" unfolding assms(6) by (simp add: power_int_diff field_simps)
  have "agrees 9 (t * 2 ^ 1) (unat z * 2 ^ 1)" using agrees_scale [OF assms(1), of 1] by simp
  then show ?thesis using True lt assms(2,4,5,7) u
    by (simp only: if_True) (intro roundPackToF64_result [OF _ _ _ _ _ x], auto)
next
  case False
  then have ge: "2 ^ 62 \<le> unat z" by (simp add: word_less_nat_alt)
  have "agrees 9 t (unat z)" using agrees_mono [OF assms(1)] by simp
  then show ?thesis using False ge assms(3-7)
    by (simp only: if_False) (intro roundPackToF64_result, auto)
qed

lemma unat_f64_less: "unat (a :: float64_t) < 2 ^ 64"
  using unat_lt [of a] by simp

lemma f64_roundedI:
  assumes "fl_result 52 2047 st s \<bar>v\<bar> (unat (fst res)) (snd res)"
    and "x = (if neg then - 1 else 1) * v / 2 ^ 1074" and "s \<longleftrightarrow> (if v = 0 then zs else neg \<noteq> (v < 0))"
  shows "f64_rounded st zs x res"
proof -
  have "\<bar>x\<bar> * 2 ^ 1074 = \<bar>v\<bar>" "x = 0 \<longleftrightarrow> v = 0" "v \<noteq> 0 \<Longrightarrow> x < 0 \<longleftrightarrow> neg \<noteq> (v < 0)"
    unfolding assms(2) by (auto simp: abs_mult abs_divide zero_less_divide_iff divide_less_0_iff)
  then show ?thesis using assms(1,3) unfolding f64_rounded_def by auto
qed

lemma normSubnormalF64Sig_eq:
  assumes "0 < unat sig" and "unat sig < 2 ^ 52"
  obtains h where "exp_f64 (softfloat_normSubnormalF64Sig sig) = 1 - int h" and "h < 53"
    and "unat (sig_f64 (softfloat_normSubnormalF64Sig sig)) = unat sig * 2 ^ h"
    and "2 ^ 52 \<le> unat sig * 2 ^ h" and "unat sig * 2 ^ h < 2 ^ 53"
proof -
  define c where "c = unat (softfloat_countLeadingZeros64 sig)"
  have cl: "c < 64" "2 ^ 63 \<le> unat sig * 2 ^ c" "unat sig * 2 ^ c < 2 ^ 64"
    using clz64_shift [of sig] assms unfolding c_def by simp_all
  have "11 \<le> c"
  proof (rule ccontr)
    assume "\<not> 11 \<le> c"
    then have "unat sig * 2 ^ c \<le> unat sig * 2 ^ 10" by (intro mult_le_mono2 power_increasing) auto
    from le_trans [OF cl(2) this] assms(2) show False by simp
  qed
  then obtain h where h: "c = h + 11" by (metis add.commute le_add_diff_inverse)
  have sd: "uint (softfloat_countLeadingZeros64 sig) - 11 = int h" using h by (simp add: c_def uint_nat)
  have hb: "2 ^ 52 \<le> unat sig * 2 ^ h" "unat sig * 2 ^ h < 2 ^ 53" using cl unfolding h power_add by simp_all
  show thesis
    by (rule that [of h]) (use hb cl h in \<open>simp_all add: softfloat_normSubnormalF64Sig_def Let_def sd unat_push_bit\<close>)
qed

lemma f64_nonzero_iff: "expF64UI a = 0 \<and> fracF64UI a = 0 \<longleftrightarrow> unat a mod 2 ^ 63 = 0"
proof -
  have "fracF64UI a = 0 \<longleftrightarrow> unat (fracF64UI a) = 0" by (simp add: unat_eq_0)
  then show ?thesis
    unfolding expF64UI_index fracF64UI_index
    using div_mult_mod_eq [of "unat a mod 2 ^ 63" "2 ^ 52"] by auto
qed

lemma f64_finite_exp: "f64_finite a \<Longrightarrow> expF64UI (a) \<noteq> 0x7FF"
  unfolding f64_finite_def expF64UI_index
  using index_div_less [of "unat a mod 2 ^ 63" 2047 52] by simp

lemma isNaNF64UI_iff: "isNaNF64UI a \<longleftrightarrow> fp_inf 52 2047 < unat a mod 2 ^ 63"
proof -
  define n where "n = unat a mod 2 ^ 63"
  have m: "(0x7FF0000000000000 :: u64) = push_bit 52 (mask 11)" by (simp add: mask_eq_exp_minus_1)
  have d: "unat a div 2 ^ 52 mod 2 ^ 11 = n div 2 ^ 52"
    using expF64UI_eq [of a] expF64UI_index [of a] by (simp add: n_def)
  have "a AND 0x7FF0000000000000 = 0x7FF0000000000000 \<longleftrightarrow> unat (a AND 0x7FF0000000000000) = 2047 * 2 ^ 52"
    by (simp add: word_unat_eq_iff)
  also have "\<dots> \<longleftrightarrow> n div 2 ^ 52 = 2047"
    unfolding m by (subst unat_and_field) (simp_all add: d [simplified])
  finally have 1: "NOT a AND 0x7FF0000000000000 = 0 \<longleftrightarrow> n div 2 ^ 52 = 2047"
    by (simp add: word_not_and_eq_0_iff)
  have 2: "a AND 0x000FFFFFFFFFFFFF \<noteq> 0 \<longleftrightarrow> n mod 2 ^ 52 \<noteq> 0"
    using fracF64UI_index [of a] unfolding n_def by (metis fracF64UI_def unat_eq_0)
  have "n < 2 ^ 63" by (simp add: n_def)
  then have "n div 2 ^ 52 = 2047 \<and> n mod 2 ^ 52 \<noteq> 0 \<longleftrightarrow> 2047 * 2 ^ 52 < n"
    unfolding div_mod_range [OF zero_less_power [OF zero_less_numeral]] by simp
  then show ?thesis unfolding isNaNF64UI_def 1 2 by (simp add: n_def)
qed

lemma isSigNaNF64UI_iff:
  "softfloat_isSigNaNF64UI a \<longleftrightarrow> fp_inf 52 2047 < unat a mod 2 ^ 63 \<and> unat a mod 2 ^ 63 < fp_inf 52 2047 + 2 ^ 51"
proof -
  define n where "n = unat a mod 2 ^ 63"
  have m: "(0x7FF8000000000000 :: u64) = push_bit 51 (mask 12)" by (simp add: mask_eq_exp_minus_1)
  have d: "unat a div 2 ^ 51 mod 2 ^ 12 = n div 2 ^ 51"
    using drop_bit_take_bit [of 51 63 "unat a"] by (simp add: n_def drop_bit_eq_div take_bit_eq_mod)
  have "a AND 0x7FF8000000000000 = 0x7FF0000000000000 \<longleftrightarrow> unat (a AND 0x7FF8000000000000) = 4094 * 2 ^ 51"
    by (simp add: word_unat_eq_iff)
  also have "\<dots> \<longleftrightarrow> n div 2 ^ 51 = 4094"
    unfolding m by (subst unat_and_field) (simp_all add: d [simplified])
  finally have 1: "a AND 0x7FF8000000000000 = 0x7FF0000000000000 \<longleftrightarrow> n div 2 ^ 51 = 4094" .
  have "unat (a AND 0x0007FFFFFFFFFFFF) = unat a mod 2 ^ 51" using unat_and_mask [of a 51] by simp
  also have "\<dots> = n mod 2 ^ 51" by (simp add: n_def mod_mod_cancel)
  finally have 2: "a AND 0x0007FFFFFFFFFFFF \<noteq> 0 \<longleftrightarrow> n mod 2 ^ 51 \<noteq> 0" by (metis unat_eq_0)
  have "n < 2 ^ 63" by (simp add: n_def)
  then have "n div 2 ^ 51 = 4094 \<and> n mod 2 ^ 51 \<noteq> 0 \<longleftrightarrow> 2047 * 2 ^ 52 < n \<and> n < 2047 * 2 ^ 52 + 2 ^ 51"
    unfolding div_mod_range [OF zero_less_power [OF zero_less_numeral]] by simp
  then show ?thesis unfolding softfloat_isSigNaNF64UI_def 1 2 by (simp add: n_def)
qed

end
