(* ===== verification/F64_Compare.thy ===== *)
theory F64_Compare
  imports FP_Compare F64_Format
begin

text \<open>
  The comparisons of 64-bit numbers (\<open>f64_eq.c\<close>, \<open>f64_eq_signaling.c\<close>, \<open>f64_le.c\<close>, \<open>f64_le_quiet.c\<close>,
  \<open>f64_lt.c\<close>, \<open>f64_lt_quiet.c\<close>) and \<open>f64_isSignalingNaN.c\<close>; they satisfy the contract
  \<open>fp_compare\<close>.
\<close>

definition f64_isSignalingNaN :: "float64_t \<Rightarrow> bool" where
  "f64_isSignalingNaN a = softfloat_isSigNaNF64UI a"

definition f64_eq :: "float64_t \<Rightarrow> float64_t \<Rightarrow> softfloat_state \<Rightarrow> bool \<times> softfloat_state" where
  "f64_eq a b st =
     (let uiA = a; uiB = b
      in if isNaNF64UI uiA \<or> isNaNF64UI uiB then
           (False, if softfloat_isSigNaNF64UI uiA \<or> softfloat_isSigNaNF64UI uiB
                   then softfloat_raiseFlags softfloat_flag_invalid st else st)
         else (uiA = uiB \<or> (uiA OR uiB) AND 0x7FFFFFFFFFFFFFFF = 0, st))"

definition f64_eq_signaling :: "float64_t \<Rightarrow> float64_t \<Rightarrow> softfloat_state \<Rightarrow> bool \<times> softfloat_state" where
  "f64_eq_signaling a b st =
     (let uiA = a; uiB = b
      in if isNaNF64UI uiA \<or> isNaNF64UI uiB then (False, softfloat_raiseFlags softfloat_flag_invalid st)
         else (uiA = uiB \<or> (uiA OR uiB) AND 0x7FFFFFFFFFFFFFFF = 0, st))"

definition f64_le :: "float64_t \<Rightarrow> float64_t \<Rightarrow> softfloat_state \<Rightarrow> bool \<times> softfloat_state" where
  "f64_le a b st =
     (let uiA = a; uiB = b
      in if isNaNF64UI uiA \<or> isNaNF64UI uiB then (False, softfloat_raiseFlags softfloat_flag_invalid st)
         else
           let signA = signF64UI uiA; signB = signF64UI uiB
           in (if signA \<noteq> signB then signA \<or> (uiA OR uiB) AND 0x7FFFFFFFFFFFFFFF = 0
               else uiA = uiB \<or> signA \<noteq> (uiA < uiB), st))"

definition f64_le_quiet :: "float64_t \<Rightarrow> float64_t \<Rightarrow> softfloat_state \<Rightarrow> bool \<times> softfloat_state" where
  "f64_le_quiet a b st =
     (let uiA = a; uiB = b
      in if isNaNF64UI uiA \<or> isNaNF64UI uiB then
           (False, if softfloat_isSigNaNF64UI uiA \<or> softfloat_isSigNaNF64UI uiB
                   then softfloat_raiseFlags softfloat_flag_invalid st else st)
         else
           let signA = signF64UI uiA; signB = signF64UI uiB
           in (if signA \<noteq> signB then signA \<or> (uiA OR uiB) AND 0x7FFFFFFFFFFFFFFF = 0
               else uiA = uiB \<or> signA \<noteq> (uiA < uiB), st))"

definition f64_lt :: "float64_t \<Rightarrow> float64_t \<Rightarrow> softfloat_state \<Rightarrow> bool \<times> softfloat_state" where
  "f64_lt a b st =
     (let uiA = a; uiB = b
      in if isNaNF64UI uiA \<or> isNaNF64UI uiB then (False, softfloat_raiseFlags softfloat_flag_invalid st)
         else
           let signA = signF64UI uiA; signB = signF64UI uiB
           in (if signA \<noteq> signB then signA \<and> (uiA OR uiB) AND 0x7FFFFFFFFFFFFFFF \<noteq> 0
               else uiA \<noteq> uiB \<and> signA \<noteq> (uiA < uiB), st))"

definition f64_lt_quiet :: "float64_t \<Rightarrow> float64_t \<Rightarrow> softfloat_state \<Rightarrow> bool \<times> softfloat_state" where
  "f64_lt_quiet a b st =
     (let uiA = a; uiB = b
      in if isNaNF64UI uiA \<or> isNaNF64UI uiB then
           (False, if softfloat_isSigNaNF64UI uiA \<or> softfloat_isSigNaNF64UI uiB
                   then softfloat_raiseFlags softfloat_flag_invalid st else st)
         else
           let signA = signF64UI uiA; signB = signF64UI uiB
           in (if signA \<noteq> signB then signA \<and> (uiA OR uiB) AND 0x7FFFFFFFFFFFFFFF \<noteq> 0
               else uiA \<noteq> uiB \<and> signA \<noteq> (uiA < uiB), st))"

text \<open>NaNs and signaling NaNs by their patterns: the quiet bit is bit 51.\<close>

definition f64_nan :: "float64_t \<Rightarrow> bool" where
  "f64_nan a \<longleftrightarrow> fp_inf 52 2047 < unat a mod 2 ^ 63"

definition f64_snan :: "float64_t \<Rightarrow> bool" where
  "f64_snan a \<longleftrightarrow> f64_nan a \<and> unat a mod 2 ^ 63 < fp_inf 52 2047 + 2 ^ 51"

lemma isNaN_f64 [simp]: "isNaNF64UI a \<longleftrightarrow> f64_nan a"
  by (simp add: isNaNF64UI_iff f64_nan_def)

lemma isSigNaN_f64 [simp]: "softfloat_isSigNaNF64UI a \<longleftrightarrow> f64_snan a"
  by (simp add: isSigNaNF64UI_iff f64_nan_def f64_snan_def)

lemma f64_isSignalingNaN_iff: "f64_isSignalingNaN a \<longleftrightarrow> f64_snan a"
  by (simp add: f64_isSignalingNaN_def)

lemma f64_real_signed_mag:
  "f64_real a = real_of_int (signed_mag 52 (2 ^ 63 \<le> unat a) (unat a mod 2 ^ 63)) / 2 ^ 1074"
  by (simp add: f64_real_def signed_mag_def)

lemma f64_both_zero:
  fixes a b :: float64_t
  shows "(a OR b) AND 0x7FFFFFFFFFFFFFFF = 0 \<longleftrightarrow> unat a mod 2 ^ 63 = 0 \<and> unat b mod 2 ^ 63 = 0"
proof -
  have "c AND 0x7FFFFFFFFFFFFFFF = 0 \<longleftrightarrow> unat c mod 2 ^ 63 = 0" for c :: u64
  proof -
    have "unat (c AND 0x7FFFFFFFFFFFFFFF) = unat c mod 2 ^ 63" using unat_and_mask [of c 63] by simp
    then show ?thesis by (metis unat_eq_0)
  qed
  then show ?thesis by (simp only: bit.conj_disj_distrib2 or_eq_0_iff)
qed

lemma f64_pattern_order:
  fixes a b :: float64_t
  shows "a = b \<longleftrightarrow> (2 ^ 63 \<le> unat a) = (2 ^ 63 \<le> unat b) \<and> unat a mod 2 ^ 63 = unat b mod 2 ^ 63"
    and "(2 ^ 63 \<le> unat a) = (2 ^ 63 \<le> unat b) \<Longrightarrow>
      a < b \<longleftrightarrow> unat a mod 2 ^ 63 < unat b mod 2 ^ 63"
proof -
  define sA sB nA nB where "sA \<longleftrightarrow> 2 ^ 63 \<le> unat a" and "sB \<longleftrightarrow> 2 ^ 63 \<le> unat b"
    and "nA = unat a mod 2 ^ 63" and "nB = unat b mod 2 ^ 63"
  have "unat c = of_bool (2 ^ 63 \<le> unat c) * 2 ^ 63 + unat c mod 2 ^ 63" for c :: float64_t
    by (rule unat_sign_indexF64)
  from this [of a] this [of b] have u: "unat a = of_bool sA * 2 ^ 63 + nA" "unat b = of_bool sB * 2 ^ 63 + nB"
    unfolding sA_def sB_def nA_def nB_def by blast+
  have n: "nA < 2 ^ 63" "nB < 2 ^ 63" by (simp_all add: nA_def nB_def)
  have "unat a = unat b \<longleftrightarrow> sA = sB \<and> nA = nB" "sA = sB \<Longrightarrow> unat a < unat b \<longleftrightarrow> nA < nB"
    unfolding u using n by (cases sA; cases sB; auto)+
  then show "a = b \<longleftrightarrow> (2 ^ 63 \<le> unat a) = (2 ^ 63 \<le> unat b) \<and> unat a mod 2 ^ 63 = unat b mod 2 ^ 63"
    and "(2 ^ 63 \<le> unat a) = (2 ^ 63 \<le> unat b) \<Longrightarrow>
      a < b \<longleftrightarrow> unat a mod 2 ^ 63 < unat b mod 2 ^ 63"
    unfolding word_unat_eq_iff word_less_nat_alt sA_def sB_def nA_def nB_def by blast+
qed

lemma f64_real_order:
  "f64_real a = f64_real b \<longleftrightarrow>
     signed_mag 52 (2 ^ 63 \<le> unat a) (unat a mod 2 ^ 63) = signed_mag 52 (2 ^ 63 \<le> unat b) (unat b mod 2 ^ 63)"
  "f64_real a < f64_real b \<longleftrightarrow>
     signed_mag 52 (2 ^ 63 \<le> unat a) (unat a mod 2 ^ 63) < signed_mag 52 (2 ^ 63 \<le> unat b) (unat b mod 2 ^ 63)"
  "f64_real a \<le> f64_real b \<longleftrightarrow>
     signed_mag 52 (2 ^ 63 \<le> unat a) (unat a mod 2 ^ 63) \<le> signed_mag 52 (2 ^ 63 \<le> unat b) (unat b mod 2 ^ 63)"
  unfolding f64_real_signed_mag by (simp_all add: divide_right_mono divide_strict_right_mono field_simps)

lemmas f64_compare_defs =
  f64_eq_def f64_eq_signaling_def f64_le_def f64_le_quiet_def f64_lt_def f64_lt_quiet_def

lemma f64_compare_number:
  assumes "\<not> f64_nan a" and "\<not> f64_nan b"
  shows "f64_eq a b st = (f64_real a = f64_real b, st)" and "f64_eq_signaling a b st = (f64_real a = f64_real b, st)"
    and "f64_le a b st = (f64_real a \<le> f64_real b, st)" and "f64_le_quiet a b st = (f64_real a \<le> f64_real b, st)"
    and "f64_lt a b st = (f64_real a < f64_real b, st)" and "f64_lt_quiet a b st = (f64_real a < f64_real b, st)"
  unfolding f64_compare_defs Let_def f64_both_zero f64_pattern_order(1) [of a b] f64_real_order signF64UI_iff isNaN_f64
    signed_mag_eq_iff signed_mag_less_iff signed_mag_le_iff
  using assms f64_pattern_order(2) [of a b] by auto

interpretation f64_cmp: fp_compare f64_real f64_nan f64_snan f64_eq f64_eq_signaling f64_le f64_le_quiet f64_lt f64_lt_quiet
proof (unfold_locales, goal_cases)
  case (1 a)
  then show ?case by (simp add: f64_snan_def)
qed (simp_all add: f64_compare_number, simp_all add: f64_compare_defs)

end
