(* ===== verification/Float_To_Int.thy ===== *)
theory Float_To_Int
  imports Round_Int F32_Compare F64_Compare
begin

text \<open>
  Conversions from floating point to 32- and 64-bit integers: the rounding routines
  (\<open>s_roundToI32.c\<close>, \<open>s_roundToUI32.c\<close>, \<open>s_roundToI64.c\<close>, \<open>s_roundToUI64.c\<close>) and the eight conversions
  that take a rounding mode. A signed result is its value, an unsigned one a 64-bit word
  (\<open>uint_fast32_t\<close> has 64 bits). Each conversion is proved to return the integer nearest in the
  given mode, or the default of its type and the invalid flag.
\<close>

definition softfloat_roundToI32 ::
    "bool \<Rightarrow> uint_fast64 \<Rightarrow> uint_fast8 \<Rightarrow> bool \<Rightarrow> softfloat_state \<Rightarrow> int \<times> softfloat_state" where
  "softfloat_roundToI32 sign sig roundingMode exact st =
     (let roundIncrement =
            (if roundingMode \<noteq> softfloat_round_near_maxMag \<and> roundingMode \<noteq> softfloat_round_near_even
             then if (if sign then roundingMode = softfloat_round_min else roundingMode = softfloat_round_max)
                  then 0xFFF else 0
             else 0x800) :: uint_fast16;
          roundBits = sig AND 0xFFF;
          sig = sig + roundIncrement;
          invalid = (if sign then i32_fromNegOverflow else i32_fromPosOverflow, softfloat_raiseFlags softfloat_flag_invalid st)
      in if sig AND 0xFFFFF00000000000 \<noteq> 0 then invalid
         else
           let sig32 = drop_bit 12 sig;
               sig32 = (if roundBits = 0x800 \<and> roundingMode = softfloat_round_near_even then sig32 AND NOT 1 else sig32);
               z = sint (ucast (if sign then - sig32 else sig32) :: u32)
           in if z \<noteq> 0 \<and> (z < 0) \<noteq> sign then invalid
              else (z, if roundBits \<noteq> 0 then if exact then raise_inexact st else st else st))"

definition softfloat_roundToUI32 ::
    "bool \<Rightarrow> uint_fast64 \<Rightarrow> uint_fast8 \<Rightarrow> bool \<Rightarrow> softfloat_state \<Rightarrow> uint_fast32 \<times> softfloat_state" where
  "softfloat_roundToUI32 sign sig roundingMode exact st =
     (let invalid = (if sign then ui32_fromNegOverflow else ui32_fromPosOverflow, softfloat_raiseFlags softfloat_flag_invalid st);
          directed = (roundingMode \<noteq> softfloat_round_near_maxMag \<and> roundingMode \<noteq> softfloat_round_near_even)
      in if directed \<and> sign \<and> sig = 0 then (0, st)
         else if directed \<and> sign \<and> roundingMode = softfloat_round_min then invalid
         else
           let roundIncrement =
                 (if directed then if \<not> sign \<and> roundingMode = softfloat_round_max then 0xFFF else 0 else 0x800) :: uint_fast16;
               roundBits = sig AND 0xFFF;
               sig = sig + roundIncrement
           in if sig AND 0xFFFFF00000000000 \<noteq> 0 then invalid
              else
                let z = drop_bit 12 sig;
                    z = (if roundBits = 0x800 \<and> roundingMode = softfloat_round_near_even then z AND NOT 1 else z)
                in if sign \<and> z \<noteq> 0 then invalid
                   else (z, if roundBits \<noteq> 0 then if exact then raise_inexact st else st else st))"

definition softfloat_roundToI64 ::
    "bool \<Rightarrow> uint_fast64 \<Rightarrow> uint_fast64 \<Rightarrow> uint_fast8 \<Rightarrow> bool \<Rightarrow> softfloat_state \<Rightarrow> int \<times> softfloat_state" where
  "softfloat_roundToI64 sign sig sigExtra roundingMode exact st =
     (let invalid = (if sign then i64_fromNegOverflow else i64_fromPosOverflow, softfloat_raiseFlags softfloat_flag_invalid st);
          increment =
            (if roundingMode = softfloat_round_near_maxMag \<or> roundingMode = softfloat_round_near_even
             then 0x8000000000000000 \<le> sigExtra
             else sigExtra \<noteq> 0 \<and> (if sign then roundingMode = softfloat_round_min else roundingMode = softfloat_round_max));
          finish = (\<lambda>sig.
            let z = sint (if sign then - sig else sig)
            in if z \<noteq> 0 \<and> (z < 0) \<noteq> sign then invalid
               else (z, if sigExtra \<noteq> 0 then if exact then raise_inexact st else st else st))
      in if increment then
           let sig = sig + 1
           in if sig = 0 then invalid
              else finish (if sigExtra = 0x8000000000000000 \<and> roundingMode = softfloat_round_near_even
                           then sig AND NOT 1 else sig)
         else finish sig)"

definition softfloat_roundToUI64 ::
    "bool \<Rightarrow> uint_fast64 \<Rightarrow> uint_fast64 \<Rightarrow> uint_fast8 \<Rightarrow> bool \<Rightarrow> softfloat_state \<Rightarrow> uint_fast64 \<times> softfloat_state" where
  "softfloat_roundToUI64 sign sig sigExtra roundingMode exact st =
     (let invalid = (if sign then ui64_fromNegOverflow else ui64_fromPosOverflow, softfloat_raiseFlags softfloat_flag_invalid st);
          finish = (\<lambda>sig.
            if sign \<and> sig \<noteq> 0 then invalid
            else (sig, if sigExtra \<noteq> 0 then if exact then raise_inexact st else st else st));
          increment =
            (let sig = sig + 1
             in if sig = 0 then invalid
                else finish (if sigExtra = 0x8000000000000000 \<and> roundingMode = softfloat_round_near_even
                             then sig AND NOT 1 else sig))
      in if roundingMode = softfloat_round_near_maxMag \<or> roundingMode = softfloat_round_near_even then
           if 0x8000000000000000 \<le> sigExtra then increment else finish sig
         else if sign then
           if sig OR sigExtra = 0 then (0, st)
           else if roundingMode = softfloat_round_min then invalid
           else finish sig
         else if roundingMode = softfloat_round_max \<and> sigExtra \<noteq> 0 then increment
         else finish sig)"

definition f32_to_i32 :: "float32_t \<Rightarrow> uint_fast8 \<Rightarrow> bool \<Rightarrow> softfloat_state \<Rightarrow> int \<times> softfloat_state" where
  "f32_to_i32 a roundingMode exact st =
     (let uiA = ucast a; sign = signF32UI uiA; exp = expF32UI uiA; sig = fracF32UI uiA;
          sig = (if exp \<noteq> 0 then sig OR 0x00800000 else sig);
          sig64 = push_bit 32 sig;
          shiftDist = 0xAA - exp;
          sig64 = (if 0 < shiftDist then softfloat_shiftRightJam64 sig64 (word_of_int shiftDist) else sig64)
      in softfloat_roundToI32 sign sig64 roundingMode exact st)"

definition f32_to_ui32 :: "float32_t \<Rightarrow> uint_fast8 \<Rightarrow> bool \<Rightarrow> softfloat_state \<Rightarrow> uint_fast32 \<times> softfloat_state" where
  "f32_to_ui32 a roundingMode exact st =
     (let uiA = ucast a; sign = signF32UI uiA; exp = expF32UI uiA; sig = fracF32UI uiA;
          sig = (if exp \<noteq> 0 then sig OR 0x00800000 else sig);
          sig64 = push_bit 32 sig;
          shiftDist = 0xAA - exp;
          sig64 = (if 0 < shiftDist then softfloat_shiftRightJam64 sig64 (word_of_int shiftDist) else sig64)
      in softfloat_roundToUI32 sign sig64 roundingMode exact st)"

definition f32_to_i64 :: "float32_t \<Rightarrow> uint_fast8 \<Rightarrow> bool \<Rightarrow> softfloat_state \<Rightarrow> int \<times> softfloat_state" where
  "f32_to_i64 a roundingMode exact st =
     (let uiA = ucast a; sign = signF32UI uiA; exp = expF32UI uiA; sig = fracF32UI uiA;
          shiftDist = 0xBE - exp
      in if shiftDist < 0 then (if exp = 0xFF \<and> sig \<noteq> 0 then i64_fromNaN else if sign then i64_fromNegOverflow else i64_fromPosOverflow,
            softfloat_raiseFlags softfloat_flag_invalid st)
         else
           let sig = (if exp \<noteq> 0 then sig OR 0x00800000 else sig);
               sig64 = push_bit 40 sig;
               (sig64, extra) =
                 (if shiftDist \<noteq> 0 then
                    let sig64Extra = softfloat_shiftRightJam64Extra sig64 0 (word_of_int shiftDist)
                    in (extra_v sig64Extra, extra_extra sig64Extra)
                  else (sig64, 0))
           in softfloat_roundToI64 sign sig64 extra roundingMode exact st)"

definition f32_to_ui64 :: "float32_t \<Rightarrow> uint_fast8 \<Rightarrow> bool \<Rightarrow> softfloat_state \<Rightarrow> uint_fast64 \<times> softfloat_state" where
  "f32_to_ui64 a roundingMode exact st =
     (let uiA = ucast a; sign = signF32UI uiA; exp = expF32UI uiA; sig = fracF32UI uiA;
          shiftDist = 0xBE - exp
      in if shiftDist < 0 then (if exp = 0xFF \<and> sig \<noteq> 0 then ui64_fromNaN else if sign then ui64_fromNegOverflow else ui64_fromPosOverflow,
            softfloat_raiseFlags softfloat_flag_invalid st)
         else
           let sig = (if exp \<noteq> 0 then sig OR 0x00800000 else sig);
               sig64 = push_bit 40 sig;
               (sig64, extra) =
                 (if shiftDist \<noteq> 0 then
                    let sig64Extra = softfloat_shiftRightJam64Extra sig64 0 (word_of_int shiftDist)
                    in (extra_v sig64Extra, extra_extra sig64Extra)
                  else (sig64, 0))
           in softfloat_roundToUI64 sign sig64 extra roundingMode exact st)"

definition f64_to_i32 :: "float64_t \<Rightarrow> uint_fast8 \<Rightarrow> bool \<Rightarrow> softfloat_state \<Rightarrow> int \<times> softfloat_state" where
  "f64_to_i32 a roundingMode exact st =
     (let uiA = a; sign = signF64UI uiA; exp = expF64UI uiA; sig = fracF64UI uiA;
          sig = (if exp \<noteq> 0 then sig OR 0x0010000000000000 else sig);
          shiftDist = 0x427 - exp;
          sig = (if 0 < shiftDist then softfloat_shiftRightJam64 sig (word_of_int shiftDist) else sig)
      in softfloat_roundToI32 sign sig roundingMode exact st)"

definition f64_to_ui32 :: "float64_t \<Rightarrow> uint_fast8 \<Rightarrow> bool \<Rightarrow> softfloat_state \<Rightarrow> uint_fast32 \<times> softfloat_state" where
  "f64_to_ui32 a roundingMode exact st =
     (let uiA = a; sign = signF64UI uiA; exp = expF64UI uiA; sig = fracF64UI uiA;
          sig = (if exp \<noteq> 0 then sig OR 0x0010000000000000 else sig);
          shiftDist = 0x427 - exp;
          sig = (if 0 < shiftDist then softfloat_shiftRightJam64 sig (word_of_int shiftDist) else sig)
      in softfloat_roundToUI32 sign sig roundingMode exact st)"

definition f64_to_i64 :: "float64_t \<Rightarrow> uint_fast8 \<Rightarrow> bool \<Rightarrow> softfloat_state \<Rightarrow> int \<times> softfloat_state" where
  "f64_to_i64 a roundingMode exact st =
     (let uiA = a; sign = signF64UI uiA; exp = expF64UI uiA; sig = fracF64UI uiA;
          sig = (if exp \<noteq> 0 then sig OR 0x0010000000000000 else sig);
          shiftDist = 0x433 - exp
      in if shiftDist \<le> 0 \<and> shiftDist < - 11 then (if exp = 0x7FF \<and> fracF64UI uiA \<noteq> 0 then i64_fromNaN else if sign then i64_fromNegOverflow else i64_fromPosOverflow,
            softfloat_raiseFlags softfloat_flag_invalid st)
         else
           let sigExtra =
                 (if shiftDist \<le> 0 then \<lparr>extra_v = push_bit (nat (- shiftDist)) sig, extra_extra = 0\<rparr>
                  else softfloat_shiftRightJam64Extra sig 0 (word_of_int shiftDist))
           in softfloat_roundToI64 sign (extra_v sigExtra) (extra_extra sigExtra) roundingMode exact st)"

definition f64_to_ui64 :: "float64_t \<Rightarrow> uint_fast8 \<Rightarrow> bool \<Rightarrow> softfloat_state \<Rightarrow> uint_fast64 \<times> softfloat_state" where
  "f64_to_ui64 a roundingMode exact st =
     (let uiA = a; sign = signF64UI uiA; exp = expF64UI uiA; sig = fracF64UI uiA;
          sig = (if exp \<noteq> 0 then sig OR 0x0010000000000000 else sig);
          shiftDist = 0x433 - exp
      in if shiftDist \<le> 0 \<and> shiftDist < - 11 then (if exp = 0x7FF \<and> fracF64UI uiA \<noteq> 0 then ui64_fromNaN else if sign then ui64_fromNegOverflow else ui64_fromPosOverflow,
            softfloat_raiseFlags softfloat_flag_invalid st)
         else
           let sigExtra =
                 (if shiftDist \<le> 0 then \<lparr>extra_v = push_bit (nat (- shiftDist)) sig, extra_extra = 0\<rparr>
                  else softfloat_shiftRightJam64Extra sig 0 (word_of_int shiftDist))
           in softfloat_roundToUI64 sign (extra_v sigExtra) (extra_extra sigExtra) roundingMode exact st)"

section \<open>The rounding routines\<close>

text \<open>The increment and the tie test of the 32-bit routines, with 12 round bits.\<close>

lemma round_inc_I32:
  "unat (if b \<noteq> softfloat_round_near_maxMag \<and> b \<noteq> softfloat_round_near_even
      then if (if s then b = softfloat_round_min else b = softfloat_round_max) then 0xFFF else 0
      else 0x800 :: uint_fast16) = round_inc (rmode_of b) s 12"
  by (auto simp: rmode_of_def)

lemma unat_and_FFF: "unat (sig AND 0xFFF :: u64) = unat sig mod 2 ^ 12"
  using unat_and_mask [of sig 12] by simp

lemma and_FFF_eq: "sig AND 0xFFF = (0::u64) \<longleftrightarrow> unat sig mod 2 ^ 12 = 0" "sig AND 0xFFF = (0x800::u64) \<longleftrightarrow> unat sig mod 2 ^ 12 = 2 ^ 11"
  by (simp_all only: word_unat_eq_iff unat_and_FFF) simp_all

lemma and_top20_eq: "sig AND 0xFFFFF00000000000 = (0::u64) \<longleftrightarrow> unat sig < 2 ^ 44"
proof -
  have "push_bit 44 (mask 20) = (0xFFFFF00000000000 :: u64)" by (simp add: mask_eq_exp_minus_1)
  then have u: "unat (sig AND 0xFFFFF00000000000) = (unat sig div 2 ^ 44 mod 2 ^ 20) * 2 ^ 44"
    using unat_and_field [of 44 20 sig] by simp
  have "unat sig div 2 ^ 44 < 2 ^ 20" using unat_lt [of sig] by (simp add: div_less_iff_less_mult)
  then have "sig AND 0xFFFFF00000000000 = 0 \<longleftrightarrow> unat sig div 2 ^ 44 = 0"
    by (simp only: word_unat_eq_iff u) simp
  then show ?thesis by (simp add: div_eq_0_iff)
qed

lemma round_sig_I32:
  assumes "unat sig + round_inc (rmode_of b) s 12 < 2 ^ 64" and "unat inc = round_inc (rmode_of b) s 12"
  shows "unat (if sig AND 0xFFF = 0x800 \<and> b = softfloat_round_near_even then drop_bit 12 (sig + inc) AND NOT 1
               else drop_bit 12 (sig + inc) :: u64) = round_sig (rmode_of b) s 12 (unat sig)"
proof -
  have u: "unat (sig + inc) = unat sig + round_inc (rmode_of b) s 12"
    using assms by (subst unat_add_small) simp_all
  have n: "w AND NOT 1 = w AND NOT (of_bool True)" for w :: u64 by simp
  show ?thesis
    unfolding round_sig_def Let_def and_FFF_eq rmode_near_even_iff n using u
    by (simp only: unat_and_not_of_bool unat_drop_bit if_distrib [of unat] if_True) (simp add: conj_commute)
qed

lemma roundToI32_eq:
  assumes "unat sig < 2 ^ 63"
  shows "softfloat_roundToI32 s sig b exact st =
    to_int (- (2 ^ 31)) (2 ^ 31 - 1) (- (2 ^ 31)) s (round_sig (rmode_of b) s 12 (unat sig)) (unat sig mod 2 ^ 12 \<noteq> 0) exact st"
proof -
  define m where "m = rmode_of b"
  define inc :: u64 where "inc = (if b \<noteq> softfloat_round_near_maxMag \<and> b \<noteq> softfloat_round_near_even
      then if (if s then b = softfloat_round_min else b = softfloat_round_max) then 0xFFF else 0 else 0x800)"
  have i: "unat inc = round_inc m s 12" unfolding inc_def m_def by (rule round_inc_I32)
  have il: "round_inc m s 12 < 2 ^ 12" by (rule round_inc_less) simp
  have u: "unat (sig + inc) = unat sig + round_inc m s 12" using assms i il by (subst unat_add_small) simp_all
  define k where "k = round_sig m s 12 (unat sig)"
  define w :: u64 where "w = (if sig AND 0xFFF = 0x800 \<and> b = softfloat_round_near_even then drop_bit 12 (sig + inc) AND NOT 1 else drop_bit 12 (sig + inc))"
  have w: "unat w = k" unfolding w_def k_def m_def by (rule round_sig_I32) (use assms i il m_def in simp_all)
  define z where "z = sint (ucast (if s then - w else w) :: u32)"
  have f: "softfloat_roundToI32 s sig b exact st =
      (if \<not> unat (sig + inc) < 2 ^ 44 then (- (2 ^ 31), softfloat_raiseFlags softfloat_flag_invalid st)
       else if z \<noteq> 0 \<and> (z < 0) \<noteq> s then (- (2 ^ 31), softfloat_raiseFlags softfloat_flag_invalid st)
       else (z, if unat sig mod 2 ^ 12 \<noteq> 0 \<and> exact then softfloat_raiseFlags softfloat_flag_inexact st else st))"
    unfolding softfloat_roundToI32_def Let_def inc_def [symmetric] w_def [symmetric] z_def [symmetric] and_top20_eq and_FFF_eq(1) raise_inexact_eq
    by simp
  show ?thesis
  proof (cases "unat (sig + inc) < 2 ^ 44")
    case False
    then have "2 ^ 32 \<le> k" unfolding k_def using u by (intro round_sig_over) simp_all
    then have "int (2 ^ 32) \<le> int k" by (simp only: of_nat_le_iff)
    then show ?thesis unfolding f to_int_def m_def [symmetric] k_def [symmetric] Let_def using False by simp
  next
    case True
    then have kl: "k < 2 ^ 32" unfolding k_def using u by (intro round_sig_top) simp_all
    define v :: u32 where "v = ucast w"
    have v: "unat v = k" unfolding v_def using kl by (simp add: unat_ucast_small w)
    have "ucast (- w) = (- v :: u32)" unfolding v_def by (rule ucast_uminus) simp
    then have zv: "z = sint (if s then - v else v)" unfolding z_def v_def by simp
    note g = signed_magnitude [OF v zv refl]
    show ?thesis unfolding f to_int_def m_def [symmetric] k_def [symmetric] Let_def
      using True g by auto
  qed
qed
lemma round_inc_UI32:
  assumes "\<not> (s \<and> b = softfloat_round_min)"
  shows "unat (if b \<noteq> softfloat_round_near_maxMag \<and> b \<noteq> softfloat_round_near_even
      then if \<not> s \<and> b = softfloat_round_max then 0xFFF else 0 else 0x800 :: uint_fast16) = round_inc (rmode_of b) s 12"
  using assms by (auto simp: rmode_of_def)

lemma round_sig_min_pos: "n \<noteq> 0 \<Longrightarrow> 1 \<le> G \<Longrightarrow> 0 < round_sig Round_min True G n"
  by (cases "n mod 2 ^ G = 0") (auto simp: round_sig_eq)

lemma roundToUI32_eq:
  assumes "unat sig < 2 ^ 63"
  shows "apfst uint (softfloat_roundToUI32 s sig b exact st) =
    to_int 0 (2 ^ 32 - 1) (2 ^ 32 - 1) s (round_sig (rmode_of b) s 12 (unat sig)) (unat sig mod 2 ^ 12 \<noteq> 0) exact st"
proof -
  define m where "m = rmode_of b"
  define k where "k = round_sig m s 12 (unat sig)"
  define directed where "directed \<longleftrightarrow> b \<noteq> softfloat_round_near_maxMag \<and> b \<noteq> softfloat_round_near_even"
  consider (zero) "directed \<and> s \<and> sig = 0" | (min) "s \<and> b = softfloat_round_min \<and> sig \<noteq> 0"
    | (other) "\<not> (directed \<and> s \<and> sig = 0)" "\<not> (s \<and> b = softfloat_round_min)"
    unfolding directed_def by fastforce
  then show ?thesis
  proof cases
    case zero
    then show ?thesis by (simp add: softfloat_roundToUI32_def directed_def to_int_def)
  next
    case min
    then have "m = Round_min" unfolding m_def rmode_min_iff by simp
    then have "0 < k" unfolding k_def using round_sig_min_pos [of "unat sig" 12] min by (simp add: unat_eq_0)
    then show ?thesis using min
      unfolding to_int_def k_def [symmetric] m_def [symmetric] by (simp add: softfloat_roundToUI32_def)
  next
    case other
    define inc :: u64 where "inc = (if directed then if \<not> s \<and> b = softfloat_round_max then 0xFFF else 0 else 0x800)"
    have i: "unat inc = round_inc m s 12" unfolding inc_def directed_def m_def by (rule round_inc_UI32 [OF other(2)])
    have il: "round_inc m s 12 < 2 ^ 12" by (rule round_inc_less) simp
    have u: "unat (sig + inc) = unat sig + round_inc m s 12" using assms i il by (subst unat_add_small) simp_all
    define w :: u64 where "w = (if sig AND 0xFFF = 0x800 \<and> b = softfloat_round_near_even then drop_bit 12 (sig + inc) AND NOT 1 else drop_bit 12 (sig + inc))"
    have w: "unat w = k" unfolding w_def k_def m_def by (rule round_sig_I32) (use assms i il m_def in simp_all)
    have f: "softfloat_roundToUI32 s sig b exact st =
      (if \<not> unat (sig + inc) < 2 ^ 44 then (0xFFFFFFFF, softfloat_raiseFlags softfloat_flag_invalid st)
       else if s \<and> w \<noteq> 0 then (0xFFFFFFFF, softfloat_raiseFlags softfloat_flag_invalid st)
       else (w, if unat sig mod 2 ^ 12 \<noteq> 0 \<and> exact then softfloat_raiseFlags softfloat_flag_inexact st else st))"
      unfolding softfloat_roundToUI32_def Let_def directed_def [symmetric] inc_def [symmetric] w_def [symmetric] and_top20_eq and_FFF_eq(1) raise_inexact_eq
      using other by auto
    have w0: "w = 0 \<longleftrightarrow> k = 0" "uint w = int k" using w by (auto simp: unat_eq_0 uint_nat simp del: of_nat_unat)
    show ?thesis
    proof (cases "unat (sig + inc) < 2 ^ 44")
      case False
      then have "2 ^ 32 \<le> k" unfolding k_def using u by (intro round_sig_over) simp_all
      then have "int (2 ^ 32) \<le> int k" by (simp only: of_nat_le_iff)
      then show ?thesis unfolding f to_int_def m_def [symmetric] k_def [symmetric] Let_def using False by simp
    next
      case True
      then have "k < 2 ^ 32" unfolding k_def using u by (intro round_sig_top) simp_all
      then have "int k < int (2 ^ 32)" by (simp only: of_nat_less_iff)
      then show ?thesis unfolding f to_int_def m_def [symmetric] k_def [symmetric] Let_def
        using True w0 by auto
    qed
  qed
qed

text \<open>The 64-bit routines: the integer part in one word and 64 round bits in the other.\<close>

lemma round_sig_64:
  fixes v :: u64
  shows "round_sig m s 64 (val128 v x) = unat v +
    of_bool (case m of
        Round_near_even \<Rightarrow> 0x8000000000000000 < x \<or> x = 0x8000000000000000 \<and> odd (unat v)
      | Round_near_maxMag \<Rightarrow> 0x8000000000000000 \<le> x
      | Round_min \<Rightarrow> s \<and> x \<noteq> 0
      | Round_max \<Rightarrow> \<not> s \<and> x \<noteq> 0
      | Round_minMag \<Rightarrow> False)"
proof -
  have d: "val128 v x div 2 ^ 64 = unat v" "val128 v x mod 2 ^ 64 = unat x"
    using unat_lt [of x] by simp_all
  have x: "0x8000000000000000 < x \<longleftrightarrow> 2 ^ 63 < unat x" "0x8000000000000000 \<le> x \<longleftrightarrow> 2 ^ 63 \<le> unat x"
    "x = 0x8000000000000000 \<longleftrightarrow> unat x = 2 ^ 63" "x = 0 \<longleftrightarrow> unat x = 0"
    by (simp_all add: word_less_nat_alt word_le_nat_alt word_unat_eq_iff)
  show ?thesis using round_sig_eq [of 64 m s "val128 v x"] unfolding d x by (cases m) simp_all
qed

definition round64_increment :: "bool \<Rightarrow> uint_fast64 \<Rightarrow> uint_fast8 \<Rightarrow> bool" where
  "round64_increment s x b \<longleftrightarrow>
     (if b = softfloat_round_near_maxMag \<or> b = softfloat_round_near_even then 0x8000000000000000 \<le> x
      else x \<noteq> 0 \<and> (if s then b = softfloat_round_min else b = softfloat_round_max))"

definition round64_result :: "bool \<Rightarrow> uint_fast64 \<Rightarrow> uint_fast64 \<Rightarrow> uint_fast8 \<Rightarrow> uint_fast64" where
  "round64_result s v x b =
     (if round64_increment s x b
      then if x = 0x8000000000000000 \<and> b = softfloat_round_near_even then (v + 1) AND NOT 1 else v + 1
      else v)"

lemma round64:
  assumes "k = round_sig (rmode_of b) s 64 (val128 v x)"
  shows "round64_increment s x b \<Longrightarrow> v + 1 = 0 \<Longrightarrow> k = 2 ^ 64"
    and "\<not> (round64_increment s x b \<and> v + 1 = 0) \<Longrightarrow> unat (round64_result s v x b) = k"
proof -
  define tie where "tie \<longleftrightarrow> x = 0x8000000000000000 \<and> b = softfloat_round_near_even"
  have k: "k = unat v + of_bool (round64_increment s x b \<and> (tie \<longrightarrow> odd (unat v)))"
    unfolding assms round_sig_64 round64_increment_def tie_def
    by (auto simp: rmode_of_def)
  have ov: "v + 1 = 0 \<longleftrightarrow> unat v = 2 ^ 64 - 1"
  proof -
    have "v + 1 = 0 \<longleftrightarrow> v = - 1" by (simp add: eq_neg_iff_add_eq_0)
    moreover have "unat (- 1 :: u64) = 2 ^ 64 - 1" using unat_neg [of "1 :: u64"] by simp
    ultimately show ?thesis by (simp only: word_unat_eq_iff)
  qed
  show "round64_increment s x b \<Longrightarrow> v + 1 = 0 \<Longrightarrow> k = 2 ^ 64"
    unfolding k ov by simp
  assume n: "\<not> (round64_increment s x b \<and> v + 1 = 0)"
  have u: "round64_increment s x b \<Longrightarrow> unat (v + 1) = unat v + 1"
    using n ov unat_lt [of v] by (subst unat_add_small) auto
  have a: "unat (w AND NOT 1) = unat w div 2 * 2" for w :: u64
    using unat_and_not_of_bool [of w True] by simp
  have "(n + 1) div 2 * 2 = n + of_bool (odd n)" for n :: nat by (cases "even n") (auto elim!: evenE oddE)
  then show "unat (round64_result s v x b) = k"
    unfolding k round64_result_def tie_def [symmetric] using u a by auto
qed

lemma roundToI64_eq:
  "softfloat_roundToI64 s v x b exact st =
    to_int (- (2 ^ 63)) (2 ^ 63 - 1) (- (2 ^ 63)) s (round_sig (rmode_of b) s 64 (val128 v x)) (val128 v x mod 2 ^ 64 \<noteq> 0) exact st"
proof -
  define k where "k = round_sig (rmode_of b) s 64 (val128 v x)"
  define w where "w = round64_result s v x b"
  define z where "z = sint (if s then - w else w)"
  have x: "val128 v x mod 2 ^ 64 \<noteq> 0 \<longleftrightarrow> x \<noteq> 0" using unat_lt [of x] by (simp add: unat_eq_0)
  have f: "softfloat_roundToI64 s v x b exact st =
      (if round64_increment s x b \<and> v + 1 = 0 then (- (2 ^ 63), softfloat_raiseFlags softfloat_flag_invalid st)
       else if z \<noteq> 0 \<and> (z < 0) \<noteq> s then (- (2 ^ 63), softfloat_raiseFlags softfloat_flag_invalid st)
       else (z, if x \<noteq> 0 \<and> exact then softfloat_raiseFlags softfloat_flag_inexact st else st))"
    unfolding softfloat_roundToI64_def Let_def raise_inexact_eq z_def w_def round64_result_def
    by (simp add: round64_increment_def)
  show ?thesis
  proof (cases "round64_increment s x b \<and> v + 1 = 0")
    case True
    then have "int k = 2 ^ 64" using round64(1) [OF k_def] by simp
    then show ?thesis unfolding f to_int_def k_def [symmetric] Let_def using True by simp
  next
    case False
    then have w: "unat w = k" unfolding w_def by (rule round64(2) [OF k_def])
    note g = signed_magnitude [OF w z_def refl]
    show ?thesis unfolding f to_int_def k_def [symmetric] Let_def x using False g by auto
  qed
qed

lemma roundToUI64_eq:
  "apfst uint (softfloat_roundToUI64 s v x b exact st) =
    to_int 0 (2 ^ 64 - 1) (2 ^ 64 - 1) s (round_sig (rmode_of b) s 64 (val128 v x)) (val128 v x mod 2 ^ 64 \<noteq> 0) exact st"
proof -
  define k where "k = round_sig (rmode_of b) s 64 (val128 v x)"
  define w where "w = round64_result s v x b"
  have x: "val128 v x mod 2 ^ 64 \<noteq> 0 \<longleftrightarrow> x \<noteq> 0" using unat_lt [of x] by (simp add: unat_eq_0)
  have z: "v OR x = 0 \<longleftrightarrow> v = 0 \<and> x = 0" by (rule or_eq_0_iff)
  have f: "softfloat_roundToUI64 s v x b exact st =
      (if round64_increment s x b \<and> v + 1 = 0 \<or> s \<and> w \<noteq> 0
       then (0xFFFFFFFFFFFFFFFF, softfloat_raiseFlags softfloat_flag_invalid st)
       else (w, if x \<noteq> 0 \<and> exact then softfloat_raiseFlags softfloat_flag_inexact st else st))"
    unfolding softfloat_roundToUI64_def Let_def raise_inexact_eq w_def round64_result_def z
    by (auto simp: round64_increment_def)
  show ?thesis
  proof (cases "round64_increment s x b \<and> v + 1 = 0")
    case True
    then have "int k = 2 ^ 64" using round64(1) [OF k_def] by simp
    then show ?thesis unfolding f to_int_def k_def [symmetric] Let_def using True by simp
  next
    case False
    then have w: "unat w = k" unfolding w_def by (rule round64(2) [OF k_def])
    then have w0: "w = 0 \<longleftrightarrow> k = 0" "uint w = int k" by (auto simp: unat_eq_0 uint_nat simp del: of_nat_unat)
    have "k < 2 ^ 64" using unat_lt [of w] w by simp
    then have "int k < int (2 ^ 64)" by (simp only: of_nat_less_iff)
    then show ?thesis unfolding f to_int_def k_def [symmetric] Let_def x using False w0 by auto
  qed
qed

section \<open>The conversions\<close>

text \<open>
  A shift by more than the word length leaves a sticky bit; what the rounding routine sees agrees
  with the exact value on the half units it looks at.
\<close>

lemma shiftRightJam64Extra_agrees:
  assumes "0 < unat dst"
  shows "agrees 63 (real (unat a) / 2 ^ unat dst * 2 ^ 64)
    (val128 (extra_v (softfloat_shiftRightJam64Extra a 0 dst)) (extra_extra (softfloat_shiftRightJam64Extra a 0 dst)))"
proof -
  define d where "d = unat dst"
  let ?z = "softfloat_shiftRightJam64Extra a 0 dst"
  consider (short) "d < 64" | (word) "d = 64" | (long) "64 < d" by linarith
  then show ?thesis
  proof cases
    case short
    then have "dst < 64" by (simp add: word_less_nat_alt d_def)
    then have z: "extra_v ?z = drop_bit d a" "extra_extra ?z = push_bit (64 - d) a"
      using assms short unat_neg_and_63 [of dst] by (simp_all add: softfloat_shiftRightJam64Extra_def d_def)
    have "unat a * 2 ^ (64 - d) mod 2 ^ 64 = (unat a mod 2 ^ d) * 2 ^ (64 - d)"
      using short by (simp add: mult_mod_left flip: power_add)
    then have "val128 (extra_v ?z) (extra_extra ?z) = (unat a div 2 ^ d * 2 ^ d + unat a mod 2 ^ d) * 2 ^ (64 - d)"
      unfolding z unat_drop_bit unat_push_bit_mod using short
      by (simp add: add_mult_distrib mult.assoc flip: power_add)
    moreover have "real (unat a) / 2 ^ d * 2 ^ 64 = real (unat a * 2 ^ (64 - d))"
      using short power_add [of "2::real" d "64 - d"] by (simp add: field_simps)
    ultimately show ?thesis unfolding d_def [symmetric] by (simp only: div_mult_mod_eq agrees_refl)
  next
    case word
    then have "dst = 64" by (simp add: word_unat_eq_iff d_def)
    then have "val128 (extra_v ?z) (extra_extra ?z) = unat a" by (simp add: softfloat_shiftRightJam64Extra_def)
    moreover have "real (unat a) / 2 ^ unat dst * 2 ^ 64 = real (unat a)" using word unfolding d_def by simp
    ultimately show ?thesis by (simp only: agrees_refl)
  next
    case long
    then have "\<not> dst < 64" "dst \<noteq> 64" by (auto simp: word_less_nat_alt d_def)
    then have z: "val128 (extra_v ?z) (extra_extra ?z) = of_bool (a \<noteq> 0)" by (simp add: softfloat_shiftRightJam64Extra_def)
    show ?thesis
    proof (cases "a = 0")
      case True
      then show ?thesis unfolding z using agrees_refl [of 63 0] by simp
    next
      case False
      have "(2::real) ^ 65 \<le> 2 ^ d" using long by (intro power_increasing) auto
      moreover have "unat a < 2 ^ 64" using unat_lt [of a] by simp
      then have "real (unat a) < real (2 ^ 64)" by (simp only: of_nat_less_iff)
      then have "real (unat a) < 2 ^ 64" by (simp only: of_nat_power of_nat_numeral)
      ultimately have "real (unat a) / 2 ^ d * 2 ^ 64 < 2 ^ 63" by (simp add: divide_simps)
      moreover have "0 < unat a" using False by (simp add: unat_gt_0)
      then have "0 < real (unat a)" by (simp only: of_nat_0_less_iff)
      then have "0 < real (unat a) / 2 ^ d * 2 ^ 64" by (intro mult_pos_pos divide_pos_pos) simp_all
      ultimately show ?thesis unfolding z d_def [symmetric] using False by (intro agrees_tiny) auto
    qed
  qed
qed

text \<open>To 32 bits: the significand, shifted to have twelve round bits.\<close>

lemma to_int_32:
  assumes y: "y = real M * 2 ^ (E - 1) / 2 ^ B" "x = (if s then - y else y)"
    and M: "E = 0 \<Longrightarrow> M < 2 ^ P" "1 \<le> E \<Longrightarrow> 2 ^ P \<le> M" "M < 2 ^ (P + 1)"
    and w: "unat w = M * 2 ^ j" "P + 1 + j \<le> 63" "44 \<le> P + j"
    and D: "D + 12 = B + 1 + j" "D < 2 ^ 16" "P + 1 \<le> B" "P + j < D"
    and sig: "sig = (if 0 < int D - int E then softfloat_shiftRightJam64 w (word_of_int (int D - int E)) else w)"
    and range: "hi < 2 ^ 32" "- (2 ^ 32) < lo"
  shows "unat sig < 2 ^ 63" and
    "to_int lo hi dflt s (round_sig m s 12 (unat sig)) (unat sig mod 2 ^ 12 \<noteq> 0) exact st = int_rounded lo hi dflt m exact x st"
proof -
  have wl: "unat w < 2 ^ 63"
  proof -
    have "unat w < 2 ^ (P + 1) * 2 ^ j" using w(1) M(3) by simp
    also have "\<dots> = 2 ^ (P + 1 + j)" by (simp only: power_add)
    also have "\<dots> \<le> 2 ^ 63" using w(2) by (intro power_increasing) auto
    finally show ?thesis .
  qed
  have sd: "unat sig = jam (unat w) (D - E)" if "E < D"
  proof -
    have "unat (word_of_int (int D - int E) :: u64) = D - E"
      using that D(2) by (subst unat_word_of_int) auto
    then show ?thesis using that sig by (simp add: unat_shiftRightJam64)
  qed
  show sl: "unat sig < 2 ^ 63"
  proof (cases "E < D")
    case True
    then show ?thesis using wl jam_le [of "D - E" "unat w"] by (simp add: sd)
  next
    case False
    then show ?thesis using wl sig by simp
  qed
  show "to_int lo hi dflt s (round_sig m s 12 (unat sig)) (unat sig mod 2 ^ 12 \<noteq> 0) exact st = int_rounded lo hi dflt m exact x st"
  proof (cases "E < D")
    case True
    have "agrees 11 (y * 2 ^ 12) (unat sig)"
    proof (cases "E = 0")
      case E0: True
      show ?thesis
      proof (cases "M = 0")
        case True
        then show ?thesis using y(1) w(1) sd [OF \<open>E < D\<close>] agrees_refl [of 11 0] by (simp add: jam_def)
      next
        case False
        have "M * 2 ^ j < 2 ^ D"
        proof -
          have "M * 2 ^ j < 2 ^ P * 2 ^ j" using M(1) [OF E0] by simp
          also have "\<dots> = 2 ^ (P + j)" by (simp only: power_add)
          also have "\<dots> \<le> 2 ^ D" using D(4) by (intro power_increasing) auto
          finally show ?thesis .
        qed
        then have "unat sig = 1" unfolding sd [OF \<open>E < D\<close>] w(1) E0 using False by (simp add: jam_def)
        moreover have "y * 2 ^ 12 < 2 ^ 11" unfolding y(1) E0 using M(1) [OF E0] D(3) by (intro tiny_scaled) auto
        moreover have "0 < y * 2 ^ 12" using False by (simp add: y(1))
        ultimately show ?thesis by (intro agrees_tiny) auto
      qed
    next
      case False
      have "y = real (M * 2 ^ j) / 2 ^ (D - E) / 2 ^ 12"
        unfolding y(1) by (rule scaled_shift) (use False True D(1) in auto)
      then have "y * 2 ^ 12 = real (unat w) / 2 ^ (D - E)" by (simp add: w(1))
      then show ?thesis unfolding sd [OF True] by (simp only:) (rule agrees_mono [OF agrees_jam_nat], simp)
    qed
    then show ?thesis using to_int_rounded [of 12 y "unat sig" x s] y(2) by simp
  next
    case False
    have E1: "1 \<le> E" using False D(4) by linarith
    have "2 ^ 44 \<le> (2::nat) ^ (P + j)" using w(3) by (intro power_increasing) auto
    also have "\<dots> \<le> unat w" using M(2) [OF E1] w(1) by (simp add: power_add)
    finally have "2 ^ 32 \<le> round_sig m s 12 (unat sig)" using False sig by (intro round_sig_over) auto
    then have "int (2 ^ 32) \<le> int (round_sig m s 12 (unat sig))" by (simp only: of_nat_le_iff)
    then have l: "to_int lo hi dflt s (round_sig m s 12 (unat sig)) (unat sig mod 2 ^ 12 \<noteq> 0) exact st =
        (dflt, softfloat_raiseFlags softfloat_flag_invalid st)"
      using range by (auto simp: to_int_def)
    have "32 + B \<le> P + (E - 1)" using False D(1) w(3) by linarith
    then have "(2::real) ^ 32 * 2 ^ B \<le> 2 ^ P * 2 ^ (E - 1)" unfolding power_add [symmetric] by (intro power_increasing) auto
    also have "\<dots> \<le> real M * 2 ^ (E - 1)"
      using M(2) [OF E1] by (intro mult_right_mono) (metis of_nat_le_iff of_nat_numeral of_nat_power, simp)
    finally have "real (2 ^ 32) \<le> y" unfolding y(1) by (simp add: field_simps)
    then show ?thesis unfolding l by (rule int_rounded_invalid [symmetric]) (use y(2) range in auto)
  qed
qed

text \<open>To 64 bits: an integer word and a word of round bits.\<close>

lemma to_int_64:
  assumes y: "y = real M * 2 ^ (E - 1) / 2 ^ B" "x = (if s then - y else y)"
    and M: "E = 0 \<Longrightarrow> M < 2 ^ P"
    and w: "unat w = M * 2 ^ j"
    and D: "D = B + 1 + j" "D < 2 ^ 16" "P + 1 \<le> B" "E < D" "P + 65 \<le> B + 63"
    and z: "z = softfloat_shiftRightJam64Extra w 0 (word_of_int (int D - int E))"
  shows "to_int lo hi dflt s (round_sig m s 64 (val128 (extra_v z) (extra_extra z))) (val128 (extra_v z) (extra_extra z) mod 2 ^ 64 \<noteq> 0) exact st =
    int_rounded lo hi dflt m exact x st"
proof -
  have d: "unat (word_of_int (int D - int E) :: u64) = D - E"
    using D(2,4) by (subst unat_word_of_int) auto
  note ag = shiftRightJam64Extra_agrees [of "word_of_int (int D - int E)" w, unfolded d, folded z]
  have "agrees 63 (y * 2 ^ 64) (val128 (extra_v z) (extra_extra z))"
  proof (cases "E = 0")
    case False
    have "y = real (M * 2 ^ j) / 2 ^ (D - E) / 2 ^ 0"
      unfolding y(1) by (rule scaled_shift) (use False D in auto)
    then show ?thesis using ag D(4) by (simp add: w)
  next
    case True
    define t where "t = real (unat w) / 2 ^ D * 2 ^ 64"
    have "y = 2 * (real (unat w) / 2 ^ D)"
      unfolding y(1) w D(1) True by (simp add: power_add)
    then have t: "y * 2 ^ 64 = 2 * t" by (simp add: t_def)
    have at: "agrees 63 t (val128 (extra_v z) (extra_extra z))" using ag D(4) True by (simp add: t_def)
    have y63: "y * 2 ^ 64 < 2 ^ 63" unfolding y(1) True using M [OF True] D(5) by (intro tiny_scaled) auto
    have t0: "0 \<le> t" by (rule agrees_nonneg [OF at])
    show ?thesis
    proof (cases "t = 0")
      case True
      then show ?thesis using at t by simp
    next
      case False
      then have "t < 2 ^ 63" "0 < t" using t0 t y63 by auto
      then have "0 < val128 (extra_v z) (extra_extra z)" "val128 (extra_v z) (extra_extra z) < 2 ^ 63"
        using agreesD [OF at, of 0] agreesD [OF at, of 1] by auto
      then show ?thesis using t \<open>0 < t\<close> y63 by (intro agrees_tiny) auto
    qed
  qed
  then show ?thesis using to_int_rounded [of 64 y "val128 (extra_v z) (extra_extra z)" x s] y(2) by simp
qed

lemma to_int_word:
  assumes "x = (if s then - real (unat v) else real (unat v))"
  shows "to_int lo hi dflt s (round_sig m s 64 (val128 v 0)) (val128 v 0 mod 2 ^ 64 \<noteq> 0) exact st = int_rounded lo hi dflt m exact x st"
proof -
  have "real (unat v) * 2 ^ 64 = real (val128 v 0)" by simp
  then have "agrees (64 - 1) (real (unat v) * 2 ^ 64) (val128 v 0)" by (simp only: agrees_refl)
  then show ?thesis by (rule to_int_rounded) (simp_all add: assms del: of_nat_unat)
qed

lemma f32_int_fields:
  fixes a :: float32_t
  assumes "n = unat a mod 2 ^ 31" and "E = n div 2 ^ 23" and "M = fp_sig 23 n" and "f = fracF32UI (ucast a)"
  shows "expF32UI (ucast a) = int E" and "unat (if int E \<noteq> 0 then f OR 0x00800000 else f) = M"
    and "E = 0 \<Longrightarrow> M < 2 ^ 23" and "1 \<le> E \<Longrightarrow> 2 ^ 23 \<le> M" and "M < 2 ^ (23 + 1)"
    and "f32_real a = (if 2 ^ 31 \<le> unat a then - (real M * 2 ^ (E - 1) / 2 ^ 149) else real M * 2 ^ (E - 1) / 2 ^ 149)"
    and "f32_finite a \<longleftrightarrow> E < 255"
proof -
  show "expF32UI (ucast a) = int E" unfolding assms(2) assms(1) by (simp add: expF32UI_index)
  have f: "unat f = n mod 2 ^ 23" unfolding assms(4) assms(1) by (simp add: fracF32UI_index)
  have E0: "E = 0 \<longleftrightarrow> n < 2 ^ 23" unfolding assms(2) by (simp add: div_eq_0_iff)
  have "unat (f OR 0x00800000) = n mod 2 ^ 23 + 2 ^ 23"
    using f by (subst unat_or_disjoint [of _ 23]) simp_all
  then show "unat (if int E \<noteq> 0 then f OR 0x00800000 else f) = M"
    using f E0 by (auto simp: assms(3) fp_sig_def)
  show "E = 0 \<Longrightarrow> M < 2 ^ 23" and "1 \<le> E \<Longrightarrow> 2 ^ 23 \<le> M"
    using E0 by (auto simp: assms(3) fp_sig_def)
  show "M < 2 ^ (23 + 1)" unfolding assms(3) by (rule fp_sig_less)
  have "fmag 23 n = M * 2 ^ (E - 1)" unfolding assms(2,3) fmag_sig_exp fp_exp_def ..
  then show "f32_real a = (if 2 ^ 31 \<le> unat a then - (real M * 2 ^ (E - 1) / 2 ^ 149) else real M * 2 ^ (E - 1) / 2 ^ 149)"
    unfolding f32_real_def assms(1) [symmetric] by simp
  show "f32_finite a \<longleftrightarrow> E < 255"
    unfolding f32_finite_def assms(1) [symmetric] assms(2) by (rule index_div_less)
qed

lemma f32_sig32:
  assumes "unat v = M" and "M < 2 ^ (23 + 1)" and "j \<le> 40"
  shows "unat (push_bit j v :: u64) = M * 2 ^ j"
proof -
  have "M * 2 ^ j < 2 ^ (23 + 1) * 2 ^ j" using assms(2) by simp
  also have "\<dots> = 2 ^ (23 + 1 + j)" by (simp only: power_add)
  also have "\<dots> \<le> 2 ^ 64" using assms(3) by (intro power_increasing) auto
  finally show ?thesis using assms(1) by (subst unat_push_bit) auto
qed

lemma f32_to_i32_eq:
  "f32_to_i32 a rm exact st = int_rounded (- (2 ^ 31)) (2 ^ 31 - 1) (- (2 ^ 31)) (rmode_of rm) exact (f32_real a) st"
proof -
  define n where "n = unat a mod 2 ^ 31"
  define E M f where "E = n div 2 ^ 23" and "M = fp_sig 23 n" and "f = fracF32UI (ucast a)"
  note fl = f32_int_fields [OF n_def E_def M_def f_def]
  define w where "w = push_bit 32 (if int E \<noteq> 0 then f OR 0x00800000 else f)"
  have w: "unat w = M * 2 ^ 32" unfolding w_def by (rule f32_sig32 [OF fl(2,5)]) simp
  define sig where "sig = (if 0 < int 170 - int E then softfloat_shiftRightJam64 w (word_of_int (int 170 - int E)) else w)"
  note t = to_int_32 [OF refl fl(6) fl(3-5) w _ _ _ _ _ _ sig_def, where lo = "- (2 ^ 31)" and hi = "2 ^ 31 - 1"]
  have "f32_to_i32 a rm exact st = softfloat_roundToI32 (2 ^ 31 \<le> unat a) sig rm exact st"
    unfolding f32_to_i32_def Let_def f_def [symmetric] fl(1) w_def [symmetric] sig_def by simp
  also have "\<dots> = int_rounded (- (2 ^ 31)) (2 ^ 31 - 1) (- (2 ^ 31)) (rmode_of rm) exact (f32_real a) st"
    using t by (subst roundToI32_eq) simp_all
  finally show ?thesis .
qed

lemma f32_to_ui32_eq:
  "apfst uint (f32_to_ui32 a rm exact st) = int_rounded 0 (2 ^ 32 - 1) (2 ^ 32 - 1) (rmode_of rm) exact (f32_real a) st"
proof -
  define n where "n = unat a mod 2 ^ 31"
  define E M f where "E = n div 2 ^ 23" and "M = fp_sig 23 n" and "f = fracF32UI (ucast a)"
  note fl = f32_int_fields [OF n_def E_def M_def f_def]
  define w where "w = push_bit 32 (if int E \<noteq> 0 then f OR 0x00800000 else f)"
  have w: "unat w = M * 2 ^ 32" unfolding w_def by (rule f32_sig32 [OF fl(2,5)]) simp
  define sig where "sig = (if 0 < int 170 - int E then softfloat_shiftRightJam64 w (word_of_int (int 170 - int E)) else w)"
  note t = to_int_32 [OF refl fl(6) fl(3-5) w _ _ _ _ _ _ sig_def, where lo = 0 and hi = "2 ^ 32 - 1"]
  have "f32_to_ui32 a rm exact st = softfloat_roundToUI32 (2 ^ 31 \<le> unat a) sig rm exact st"
    unfolding f32_to_ui32_def Let_def f_def [symmetric] fl(1) w_def [symmetric] sig_def by simp
  also have "apfst uint \<dots> = int_rounded 0 (2 ^ 32 - 1) (2 ^ 32 - 1) (rmode_of rm) exact (f32_real a) st"
    using t by (subst roundToUI32_eq) simp_all
  finally show ?thesis .
qed

lemma f32_to_int64_parts:
  fixes a :: float32_t
  assumes "n = unat a mod 2 ^ 31" and "E = n div 2 ^ 23" and "f = fracF32UI (ucast a)" and "E \<le> 190"
    and "v = push_bit 40 (if int E \<noteq> 0 then f OR 0x00800000 else f)"
    and "(hiW, loW) = (if 190 - int E \<noteq> 0 then
        let z = softfloat_shiftRightJam64Extra v 0 (word_of_int (190 - int E)) in (extra_v z, extra_extra z) else (v, 0))"
  shows "to_int lo hi dflt (2 ^ 31 \<le> unat a) (round_sig m (2 ^ 31 \<le> unat a) 64 (val128 hiW loW)) (val128 hiW loW mod 2 ^ 64 \<noteq> 0) exact st =
    int_rounded lo hi dflt m exact (f32_real a) st"
proof -
  define M where "M = fp_sig 23 n"
  note fl = f32_int_fields [OF assms(1,2) M_def assms(3)]
  have v: "unat v = M * 2 ^ 40" unfolding assms(5) by (rule f32_sig32 [OF fl(2,5)]) simp
  show ?thesis
  proof (cases "E = 190")
    case True
    then have hl: "hiW = v" "loW = 0" using assms(6) by simp_all
    have "f32_real a = (if 2 ^ 31 \<le> unat a then - real (unat v) else real (unat v))"
      unfolding fl(6) v True by (simp flip: power_add)
    then show ?thesis unfolding hl by (rule to_int_word)
  next
    case False
    define z where "z = softfloat_shiftRightJam64Extra v 0 (word_of_int (190 - int E))"
    have hl: "hiW = extra_v z" "loW = extra_extra z" using assms(6) False unfolding z_def Let_def by simp_all
    have z: "z = softfloat_shiftRightJam64Extra v 0 (word_of_int (int 190 - int E))" unfolding z_def by simp
    show ?thesis unfolding hl
      by (rule to_int_64 [OF refl fl(6) fl(3) v _ _ _ _ _ z]) (use False assms(4) in simp_all)
  qed
qed

lemma f32_large:
  fixes a :: float32_t
  assumes "n = unat a mod 2 ^ 31" and "E = n div 2 ^ 23" and "190 < E" and "hi < 2 ^ 64" and "- (2 ^ 64) < lo"
  shows "int_rounded lo hi dflt m exact (f32_real a) st = (dflt, softfloat_raiseFlags softfloat_flag_invalid st)"
proof -
  note fl = f32_int_fields [OF assms(1,2) refl refl]
  have "(2::real) ^ 64 * 2 ^ 149 \<le> 2 ^ 23 * 2 ^ (E - 1)"
    unfolding power_add [symmetric] using assms(3) by (intro power_increasing) auto
  also have "\<dots> \<le> real (fp_sig 23 n) * 2 ^ (E - 1)"
    using fl(4) assms(3) by (intro mult_right_mono) (metis (no_types) One_nat_def Suc_leI gr_implies_not_zero not_gr_zero of_nat_le_iff of_nat_numeral of_nat_power, simp)
  finally have "real (2 ^ 64) \<le> real (fp_sig 23 n) * 2 ^ (E - 1) / 2 ^ 149" by (simp add: field_simps)
  then show ?thesis by (rule int_rounded_invalid [OF _ fl(6)]) (use assms(4,5) in auto)
qed

lemma f32_to_i64_eq:
  "f32_to_i64 a rm exact st = int_rounded (- (2 ^ 63)) (2 ^ 63 - 1) (- (2 ^ 63)) (rmode_of rm) exact (f32_real a) st"
proof -
  define n where "n = unat a mod 2 ^ 31"
  define E M f where "E = n div 2 ^ 23" and "M = fp_sig 23 n" and "f = fracF32UI (ucast a)"
  note fl = f32_int_fields [OF n_def E_def M_def f_def]
  show ?thesis
  proof (cases "190 < E")
    case True
    then show ?thesis
      by (simp add: f32_large [OF n_def E_def True] f32_to_i64_def Let_def fl(1))
  next
    case False
    define v where "v = push_bit 40 (if int E \<noteq> 0 then f OR 0x00800000 else f)"
    obtain hiW loW where p: "(hiW, loW) = (if 190 - int E \<noteq> 0 then
        let z = softfloat_shiftRightJam64Extra v 0 (word_of_int (190 - int E)) in (extra_v z, extra_extra z) else (v, 0))"
      by (metis surj_pair)
    have "f32_to_i64 a rm exact st = softfloat_roundToI64 (2 ^ 31 \<le> unat a) hiW loW rm exact st"
      using p [symmetric] False unfolding f32_to_i64_def Let_def fl(1) f_def [symmetric] v_def [symmetric]
      by (cases "E = 190") simp_all
    then show ?thesis
      unfolding roundToI64_eq using f32_to_int64_parts [OF n_def E_def f_def _ v_def p] False by simp
  qed
qed

lemma f32_to_ui64_eq:
  "apfst uint (f32_to_ui64 a rm exact st) = int_rounded 0 (2 ^ 64 - 1) (2 ^ 64 - 1) (rmode_of rm) exact (f32_real a) st"
proof -
  define n where "n = unat a mod 2 ^ 31"
  define E M f where "E = n div 2 ^ 23" and "M = fp_sig 23 n" and "f = fracF32UI (ucast a)"
  note fl = f32_int_fields [OF n_def E_def M_def f_def]
  show ?thesis
  proof (cases "190 < E")
    case True
    then show ?thesis
      by (simp add: f32_large [OF n_def E_def True] f32_to_ui64_def Let_def fl(1))
  next
    case False
    define v where "v = push_bit 40 (if int E \<noteq> 0 then f OR 0x00800000 else f)"
    obtain hiW loW where p: "(hiW, loW) = (if 190 - int E \<noteq> 0 then
        let z = softfloat_shiftRightJam64Extra v 0 (word_of_int (190 - int E)) in (extra_v z, extra_extra z) else (v, 0))"
      by (metis surj_pair)
    have "f32_to_ui64 a rm exact st = softfloat_roundToUI64 (2 ^ 31 \<le> unat a) hiW loW rm exact st"
      using p [symmetric] False unfolding f32_to_ui64_def Let_def fl(1) f_def [symmetric] v_def [symmetric]
      by (cases "E = 190") simp_all
    then show ?thesis
      using roundToUI64_eq f32_to_int64_parts [OF n_def E_def f_def _ v_def p] False by simp
  qed
qed

lemma f64_int_fields:
  fixes a :: float64_t
  assumes "n = unat a mod 2 ^ 63" and "E = n div 2 ^ 52" and "M = fp_sig 52 n" and "f = fracF64UI a"
  shows "expF64UI a = int E" and "unat (if int E \<noteq> 0 then f OR 0x0010000000000000 else f) = M"
    and "E = 0 \<Longrightarrow> M < 2 ^ 52" and "1 \<le> E \<Longrightarrow> 2 ^ 52 \<le> M" and "M < 2 ^ (52 + 1)"
    and "f64_real a = (if 2 ^ 63 \<le> unat a then - (real M * 2 ^ (E - 1) / 2 ^ 1074) else real M * 2 ^ (E - 1) / 2 ^ 1074)"
    and "f64_finite a \<longleftrightarrow> E < 2047"
proof -
  show "expF64UI a = int E" unfolding assms(2) assms(1) by (simp add: expF64UI_index)
  have f: "unat f = n mod 2 ^ 52" unfolding assms(4) assms(1) by (simp add: fracF64UI_index)
  have E0: "E = 0 \<longleftrightarrow> n < 2 ^ 52" unfolding assms(2) by (simp add: div_eq_0_iff)
  have "unat (f OR 0x0010000000000000) = n mod 2 ^ 52 + 2 ^ 52"
    using f by (subst unat_or_disjoint [of _ 52]) simp_all
  then show "unat (if int E \<noteq> 0 then f OR 0x0010000000000000 else f) = M"
    using f E0 by (auto simp: assms(3) fp_sig_def)
  show "E = 0 \<Longrightarrow> M < 2 ^ 52" and "1 \<le> E \<Longrightarrow> 2 ^ 52 \<le> M"
    using E0 by (auto simp: assms(3) fp_sig_def)
  show "M < 2 ^ (52 + 1)" unfolding assms(3) by (rule fp_sig_less)
  have "fmag 52 n = M * 2 ^ (E - 1)" unfolding assms(2,3) fmag_sig_exp fp_exp_def ..
  then show "f64_real a = (if 2 ^ 63 \<le> unat a then - (real M * 2 ^ (E - 1) / 2 ^ 1074) else real M * 2 ^ (E - 1) / 2 ^ 1074)"
    unfolding f64_real_def assms(1) [symmetric] by simp
  show "f64_finite a \<longleftrightarrow> E < 2047"
    unfolding f64_finite_def assms(1) [symmetric] assms(2) by (rule index_div_less)
qed

lemma f64_to_i32_eq:
  "f64_to_i32 a rm exact st = int_rounded (- (2 ^ 31)) (2 ^ 31 - 1) (- (2 ^ 31)) (rmode_of rm) exact (f64_real a) st"
proof -
  define n where "n = unat a mod 2 ^ 63"
  define E M f where "E = n div 2 ^ 52" and "M = fp_sig 52 n" and "f = fracF64UI a"
  note fl = f64_int_fields [OF n_def E_def M_def f_def]
  define w where "w = (if int E \<noteq> 0 then f OR 0x0010000000000000 else f)"
  have w: "unat w = M * 2 ^ 0" unfolding w_def using fl(2) by simp
  define sig where "sig = (if 0 < int 1063 - int E then softfloat_shiftRightJam64 w (word_of_int (int 1063 - int E)) else w)"
  note t = to_int_32 [OF refl fl(6) fl(3-5) w _ _ _ _ _ _ sig_def, where lo = "- (2 ^ 31)" and hi = "2 ^ 31 - 1"]
  have "f64_to_i32 a rm exact st = softfloat_roundToI32 (2 ^ 63 \<le> unat a) sig rm exact st"
    unfolding f64_to_i32_def Let_def f_def [symmetric] fl(1) w_def [symmetric] sig_def by simp
  also have "\<dots> = int_rounded (- (2 ^ 31)) (2 ^ 31 - 1) (- (2 ^ 31)) (rmode_of rm) exact (f64_real a) st"
    using t by (subst roundToI32_eq) simp_all
  finally show ?thesis .
qed

lemma f64_to_ui32_eq:
  "apfst uint (f64_to_ui32 a rm exact st) = int_rounded 0 (2 ^ 32 - 1) (2 ^ 32 - 1) (rmode_of rm) exact (f64_real a) st"
proof -
  define n where "n = unat a mod 2 ^ 63"
  define E M f where "E = n div 2 ^ 52" and "M = fp_sig 52 n" and "f = fracF64UI a"
  note fl = f64_int_fields [OF n_def E_def M_def f_def]
  define w where "w = (if int E \<noteq> 0 then f OR 0x0010000000000000 else f)"
  have w: "unat w = M * 2 ^ 0" unfolding w_def using fl(2) by simp
  define sig where "sig = (if 0 < int 1063 - int E then softfloat_shiftRightJam64 w (word_of_int (int 1063 - int E)) else w)"
  note t = to_int_32 [OF refl fl(6) fl(3-5) w _ _ _ _ _ _ sig_def, where lo = 0 and hi = "2 ^ 32 - 1"]
  have "f64_to_ui32 a rm exact st = softfloat_roundToUI32 (2 ^ 63 \<le> unat a) sig rm exact st"
    unfolding f64_to_ui32_def Let_def f_def [symmetric] fl(1) w_def [symmetric] sig_def by simp
  also have "apfst uint \<dots> = int_rounded 0 (2 ^ 32 - 1) (2 ^ 32 - 1) (rmode_of rm) exact (f64_real a) st"
    using t by (subst roundToUI32_eq) simp_all
  finally show ?thesis .
qed

lemma f64_to_int64_parts:
  fixes a :: float64_t
  assumes "n = unat a mod 2 ^ 63" and "E = n div 2 ^ 52" and "f = fracF64UI a" and "E \<le> 1086"
    and "v = (if int E \<noteq> 0 then f OR 0x0010000000000000 else f)"
    and "z = (if 1075 - int E \<le> 0 then \<lparr>extra_v = push_bit (nat (- (1075 - int E))) v, extra_extra = 0\<rparr>
          else softfloat_shiftRightJam64Extra v 0 (word_of_int (1075 - int E)))"
  shows "to_int lo hi dflt (2 ^ 63 \<le> unat a) (round_sig m (2 ^ 63 \<le> unat a) 64 (val128 (extra_v z) (extra_extra z)))
      (val128 (extra_v z) (extra_extra z) mod 2 ^ 64 \<noteq> 0) exact st =
    int_rounded lo hi dflt m exact (f64_real a) st"
proof -
  define M where "M = fp_sig 52 n"
  note fl = f64_int_fields [OF assms(1,2) M_def assms(3)]
  have v: "unat v = M * 2 ^ 0" unfolding assms(5) using fl(2) by simp
  show ?thesis
  proof (cases "1075 \<le> E")
    case True
    then have z: "extra_v z = push_bit (E - 1075) v" "extra_extra z = 0" using assms(6) by (simp_all add: nat_diff_distrib')
    have "M * 2 ^ (E - 1075) < 2 ^ (52 + 1) * 2 ^ (E - 1075)" using fl(5) by simp
    also have "\<dots> = 2 ^ (52 + 1 + (E - 1075))" by (simp only: power_add)
    also have "\<dots> \<le> 2 ^ 64" using assms(4) by (intro power_increasing) auto
    finally have u: "unat (push_bit (E - 1075) v) = M * 2 ^ (E - 1075)" using v by (subst unat_push_bit) auto
    have "E - 1 = E - 1075 + 1074" using True by simp
    then have "(2::real) ^ (E - 1) = 2 ^ (E - 1075) * 2 ^ 1074" by (simp only: power_add)
    then have "f64_real a = (if 2 ^ 63 \<le> unat a then - real (unat (push_bit (E - 1075) v)) else real (unat (push_bit (E - 1075) v)))"
      unfolding fl(6) u by simp
    then show ?thesis unfolding z by (rule to_int_word)
  next
    case False
    then have z: "z = softfloat_shiftRightJam64Extra v 0 (word_of_int (int 1075 - int E))" using assms(6) by simp
    show ?thesis
      by (rule to_int_64 [OF refl fl(6) fl(3) v _ _ _ _ _ z]) (use False assms(4) in simp_all)
  qed
qed

lemma f64_large:
  fixes a :: float64_t
  assumes "n = unat a mod 2 ^ 63" and "E = n div 2 ^ 52" and "1086 < E" and "hi < 2 ^ 64" and "- (2 ^ 64) < lo"
  shows "int_rounded lo hi dflt m exact (f64_real a) st = (dflt, softfloat_raiseFlags softfloat_flag_invalid st)"
proof -
  note fl = f64_int_fields [OF assms(1,2) refl refl]
  have "(2::real) ^ 64 * 2 ^ 1074 \<le> 2 ^ 52 * 2 ^ (E - 1)"
    unfolding power_add [symmetric] using assms(3) by (intro power_increasing) auto
  also have "\<dots> \<le> real (fp_sig 52 n) * 2 ^ (E - 1)"
    using fl(4) assms(3) by (intro mult_right_mono) (metis (no_types) One_nat_def Suc_leI gr_implies_not_zero not_gr_zero of_nat_le_iff of_nat_numeral of_nat_power, simp)
  finally have "real (2 ^ 64) \<le> real (fp_sig 52 n) * 2 ^ (E - 1) / 2 ^ 1074" by (simp add: field_simps)
  then show ?thesis by (rule int_rounded_invalid [OF _ fl(6)]) (use assms(4,5) in auto)
qed

lemma f64_to_i64_eq:
  "f64_to_i64 a rm exact st = int_rounded (- (2 ^ 63)) (2 ^ 63 - 1) (- (2 ^ 63)) (rmode_of rm) exact (f64_real a) st"
proof -
  define n where "n = unat a mod 2 ^ 63"
  define E M f where "E = n div 2 ^ 52" and "M = fp_sig 52 n" and "f = fracF64UI a"
  note fl = f64_int_fields [OF n_def E_def M_def f_def]
  show ?thesis
  proof (cases "1086 < E")
    case True
    then show ?thesis
      by (simp add: f64_large [OF n_def E_def True] f64_to_i64_def Let_def fl(1))
  next
    case False
    define v where "v = (if int E \<noteq> 0 then f OR 0x0010000000000000 else f)"
    define z where "z = (if 1075 - int E \<le> 0 then \<lparr>extra_v = push_bit (nat (- (1075 - int E))) v, extra_extra = 0\<rparr>
          else softfloat_shiftRightJam64Extra v 0 (word_of_int (1075 - int E)))"
    have "f64_to_i64 a rm exact st = softfloat_roundToI64 (2 ^ 63 \<le> unat a) (extra_v z) (extra_extra z) rm exact st"
      using False unfolding f64_to_i64_def Let_def fl(1) f_def [symmetric] v_def [symmetric] z_def by (simp add: signF64UI_iff)
    then show ?thesis
      using roundToI64_eq f64_to_int64_parts [OF n_def E_def f_def _ v_def z_def] False by simp
  qed
qed

lemma f64_to_ui64_eq:
  "apfst uint (f64_to_ui64 a rm exact st) = int_rounded 0 (2 ^ 64 - 1) (2 ^ 64 - 1) (rmode_of rm) exact (f64_real a) st"
proof -
  define n where "n = unat a mod 2 ^ 63"
  define E M f where "E = n div 2 ^ 52" and "M = fp_sig 52 n" and "f = fracF64UI a"
  note fl = f64_int_fields [OF n_def E_def M_def f_def]
  show ?thesis
  proof (cases "1086 < E")
    case True
    then show ?thesis
      by (simp add: f64_large [OF n_def E_def True] f64_to_ui64_def Let_def fl(1))
  next
    case False
    define v where "v = (if int E \<noteq> 0 then f OR 0x0010000000000000 else f)"
    define z where "z = (if 1075 - int E \<le> 0 then \<lparr>extra_v = push_bit (nat (- (1075 - int E))) v, extra_extra = 0\<rparr>
          else softfloat_shiftRightJam64Extra v 0 (word_of_int (1075 - int E)))"
    have "f64_to_ui64 a rm exact st = softfloat_roundToUI64 (2 ^ 63 \<le> unat a) (extra_v z) (extra_extra z) rm exact st"
      using False unfolding f64_to_ui64_def Let_def fl(1) f_def [symmetric] v_def [symmetric] z_def by (simp add: signF64UI_iff)
    then show ?thesis
      using roundToUI64_eq f64_to_int64_parts [OF n_def E_def f_def _ v_def z_def] False by simp
  qed
qed

end
