(* ===== verification/Float_Truncate.thy ===== *)
theory Float_Truncate
  imports Float_To_Int
begin

text \<open>
  The eight conversions to integers that round toward zero without the general rounding routines
  (\<open>f32_to_i32_r_minMag.c\<close> and its seven companions), and their equivalence with the general
  conversions in mode \<open>softfloat_round_minMag\<close>.
\<close>

text \<open>The conversions that round toward zero, without the general rounding routines.\<close>

definition f32_to_i32_r_minMag :: "float32_t \<Rightarrow> bool \<Rightarrow> softfloat_state \<Rightarrow> int \<times> softfloat_state" where
  "f32_to_i32_r_minMag a exact st =
     (let uiA = ucast a; exp = expF32UI uiA; sig = fracF32UI uiA; shiftDist = 0x9E - exp
      in if 32 \<le> shiftDist then (0, if exact \<and> word_of_int exp OR sig \<noteq> 0 then raise_inexact st else st)
         else
           let sign = signF32UI uiA
           in if shiftDist \<le> 0 then
                if uiA = packToF32UI True 0x9E 0 then (- 0x7FFFFFFF - 1, st)
                else (if exp = 0xFF \<and> sig \<noteq> 0 then i32_fromNaN else if sign then i32_fromNegOverflow else i32_fromPosOverflow,
                      softfloat_raiseFlags softfloat_flag_invalid st)
              else
                let sig = push_bit 8 (sig OR 0x00800000);
                    absZ = drop_bit (nat shiftDist) sig;
                    st = (if exact \<and> push_bit (nat shiftDist) absZ \<noteq> sig then raise_inexact st else st)
                in (if sign then - sint absZ else sint absZ, st))"

definition f32_to_ui32_r_minMag :: "float32_t \<Rightarrow> bool \<Rightarrow> softfloat_state \<Rightarrow> uint_fast32 \<times> softfloat_state" where
  "f32_to_ui32_r_minMag a exact st =
     (let uiA = ucast a; exp = expF32UI uiA; sig = fracF32UI uiA; shiftDist = 0x9E - exp
      in if 32 \<le> shiftDist then (0, if exact \<and> word_of_int exp OR sig \<noteq> 0 then raise_inexact st else st)
         else
           let sign = signF32UI uiA
           in if sign \<or> shiftDist < 0 then
                (if exp = 0xFF \<and> sig \<noteq> 0 then ui32_fromNaN else if sign then ui32_fromNegOverflow else ui32_fromPosOverflow,
                 softfloat_raiseFlags softfloat_flag_invalid st)
              else
                let sig = push_bit 8 (sig OR 0x00800000);
                    z = drop_bit (nat shiftDist) sig;
                    st = (if exact \<and> push_bit (nat shiftDist) z \<noteq> sig then raise_inexact st else st)
                in (z, st))"

definition f32_to_i64_r_minMag :: "float32_t \<Rightarrow> bool \<Rightarrow> softfloat_state \<Rightarrow> int \<times> softfloat_state" where
  "f32_to_i64_r_minMag a exact st =
     (let uiA = ucast a; exp = expF32UI uiA; sig = fracF32UI uiA; shiftDist = 0xBE - exp
      in if 64 \<le> shiftDist then (0, if exact \<and> word_of_int exp OR sig \<noteq> 0 then raise_inexact st else st)
         else
           let sign = signF32UI uiA
           in if shiftDist \<le> 0 then
                if uiA = packToF32UI True 0xBE 0 then (- 0x7FFFFFFFFFFFFFFF - 1, st)
                else (if exp = 0xFF \<and> sig \<noteq> 0 then i64_fromNaN else if sign then i64_fromNegOverflow else i64_fromPosOverflow,
                      softfloat_raiseFlags softfloat_flag_invalid st)
              else
                let sig = sig OR 0x00800000;
                    sig64 = push_bit 40 sig;
                    absZ = drop_bit (nat shiftDist) sig64;
                    shiftDist = 40 - shiftDist;
                    st = (if exact \<and> shiftDist < 0 \<and> (ucast (push_bit (nat (shiftDist AND 31)) sig) :: u32) \<noteq> 0
                          then raise_inexact st else st)
                in (if sign then - sint absZ else sint absZ, st))"

definition f32_to_ui64_r_minMag :: "float32_t \<Rightarrow> bool \<Rightarrow> softfloat_state \<Rightarrow> uint_fast64 \<times> softfloat_state" where
  "f32_to_ui64_r_minMag a exact st =
     (let uiA = ucast a; exp = expF32UI uiA; sig = fracF32UI uiA; shiftDist = 0xBE - exp
      in if 64 \<le> shiftDist then (0, if exact \<and> word_of_int exp OR sig \<noteq> 0 then raise_inexact st else st)
         else
           let sign = signF32UI uiA
           in if sign \<or> shiftDist < 0 then
                (if exp = 0xFF \<and> sig \<noteq> 0 then ui64_fromNaN else if sign then ui64_fromNegOverflow else ui64_fromPosOverflow,
                 softfloat_raiseFlags softfloat_flag_invalid st)
              else
                let sig = sig OR 0x00800000;
                    sig64 = push_bit 40 sig;
                    z = drop_bit (nat shiftDist) sig64;
                    shiftDist = 40 - shiftDist;
                    st = (if exact \<and> shiftDist < 0 \<and> (ucast (push_bit (nat (shiftDist AND 31)) sig) :: u32) \<noteq> 0
                          then raise_inexact st else st)
                in (z, st))"

definition f64_to_i32_r_minMag :: "float64_t \<Rightarrow> bool \<Rightarrow> softfloat_state \<Rightarrow> int \<times> softfloat_state" where
  "f64_to_i32_r_minMag a exact st =
     (let uiA = a; exp = expF64UI uiA; sig = fracF64UI uiA; shiftDist = 0x433 - exp
      in if 53 \<le> shiftDist then (0, if exact \<and> word_of_int exp OR sig \<noteq> 0 then raise_inexact st else st)
         else
           let sign = signF64UI uiA
           in if shiftDist < 22 then
                if sign \<and> exp = 0x41E \<and> sig < 0x0000000000200000 then
                  (- 0x7FFFFFFF - 1, if exact \<and> sig \<noteq> 0 then raise_inexact st else st)
                else (if exp = 0x7FF \<and> sig \<noteq> 0 then i32_fromNaN else if sign then i32_fromNegOverflow else i32_fromPosOverflow,
                      softfloat_raiseFlags softfloat_flag_invalid st)
              else
                let sig = sig OR 0x0010000000000000;
                    absZ = drop_bit (nat shiftDist) sig;
                    st = (if exact \<and> push_bit (nat shiftDist) absZ \<noteq> sig then raise_inexact st else st)
                in (if sign then - sint absZ else sint absZ, st))"

definition f64_to_ui32_r_minMag :: "float64_t \<Rightarrow> bool \<Rightarrow> softfloat_state \<Rightarrow> uint_fast32 \<times> softfloat_state" where
  "f64_to_ui32_r_minMag a exact st =
     (let uiA = a; exp = expF64UI uiA; sig = fracF64UI uiA; shiftDist = 0x433 - exp
      in if 53 \<le> shiftDist then (0, if exact \<and> word_of_int exp OR sig \<noteq> 0 then raise_inexact st else st)
         else
           let sign = signF64UI uiA
           in if sign \<or> shiftDist < 21 then
                (if exp = 0x7FF \<and> sig \<noteq> 0 then ui32_fromNaN else if sign then ui32_fromNegOverflow else ui32_fromPosOverflow,
                 softfloat_raiseFlags softfloat_flag_invalid st)
              else
                let sig = sig OR 0x0010000000000000;
                    z = drop_bit (nat shiftDist) sig;
                    st = (if exact \<and> push_bit (nat shiftDist) z \<noteq> sig then raise_inexact st else st)
                in (z, st))"

definition f64_to_i64_r_minMag :: "float64_t \<Rightarrow> bool \<Rightarrow> softfloat_state \<Rightarrow> int \<times> softfloat_state" where
  "f64_to_i64_r_minMag a exact st =
     (let uiA = a; sign = signF64UI uiA; exp = expF64UI uiA; sig = fracF64UI uiA; shiftDist = 0x433 - exp
      in if shiftDist \<le> 0 then
           if shiftDist < - 10 then
             if uiA = packToF64UI True 0x43E 0 then (- 0x7FFFFFFFFFFFFFFF - 1, st)
             else (if exp = 0x7FF \<and> sig \<noteq> 0 then i64_fromNaN else if sign then i64_fromNegOverflow else i64_fromPosOverflow,
                   softfloat_raiseFlags softfloat_flag_invalid st)
           else
             let sig = sig OR 0x0010000000000000;
                 absZ = push_bit (nat (- shiftDist)) sig
             in (if sign then - sint absZ else sint absZ, st)
         else if 53 \<le> shiftDist then (0, if exact \<and> word_of_int exp OR sig \<noteq> 0 then raise_inexact st else st)
         else
           let sig = sig OR 0x0010000000000000;
               absZ = drop_bit (nat shiftDist) sig;
               st = (if exact \<and> push_bit (nat shiftDist) absZ \<noteq> sig then raise_inexact st else st)
           in (if sign then - sint absZ else sint absZ, st))"

definition f64_to_ui64_r_minMag :: "float64_t \<Rightarrow> bool \<Rightarrow> softfloat_state \<Rightarrow> uint_fast64 \<times> softfloat_state" where
  "f64_to_ui64_r_minMag a exact st =
     (let uiA = a; exp = expF64UI uiA; sig = fracF64UI uiA; shiftDist = 0x433 - exp
      in if 53 \<le> shiftDist then (0, if exact \<and> word_of_int exp OR sig \<noteq> 0 then raise_inexact st else st)
         else
           let sign = signF64UI uiA;
               invalid = (if exp = 0x7FF \<and> sig \<noteq> 0 then ui64_fromNaN else if sign then ui64_fromNegOverflow else ui64_fromPosOverflow,
                          softfloat_raiseFlags softfloat_flag_invalid st)
           in if sign then invalid
              else if shiftDist \<le> 0 then
                if shiftDist < - 11 then invalid
                else (push_bit (nat (- shiftDist)) (sig OR 0x0010000000000000), st)
              else
                let sig = sig OR 0x0010000000000000;
                    z = drop_bit (nat shiftDist) sig;
                    st = (if exact \<and> push_bit (nat (- shiftDist AND 63)) sig \<noteq> 0 then raise_inexact st else st)
                in (z, st))"

section \<open>Truncation\<close>

lemma to_int_trunc:
  assumes "y = real m / 2 ^ d" and "x = (if s then - y else y)"
  shows "to_int lo hi dflt s (m div 2 ^ d) (m mod 2 ^ d \<noteq> 0) exact st = int_rounded lo hi dflt Round_minMag exact x st"
proof -
  have "y * 2 ^ Suc d = real (2 * m)" using assms(1) by simp
  then have ag: "agrees (Suc d - 1) (y * 2 ^ Suc d) (2 * m)" by (simp only: agrees_refl)
  have "round_sig Round_minMag s (Suc d) (2 * m) = m div 2 ^ d"
    by (simp add: round_sig_def)
  moreover have "2 * m mod 2 ^ Suc d \<noteq> 0 \<longleftrightarrow> m mod 2 ^ d \<noteq> 0"
    by simp
  ultimately show ?thesis
    using to_int_rounded [OF ag _ assms(2), of lo hi dflt Round_minMag exact st] by (simp only:)
qed

text \<open>The three outcomes: a magnitude below one, one that does not fit, and the shifted significand.\<close>

lemma trunc_small:
  assumes "0 \<le> y" and "y < 1" and "x = (if s then - y else y)" and "lo \<le> 0" and "0 \<le> hi"
  shows "int_rounded lo hi dflt Round_minMag exact x st =
    (0, if exact \<and> y \<noteq> 0 then softfloat_raiseFlags softfloat_flag_inexact st else st)"
proof -
  have "\<lfloor>y\<rfloor> = 0" using assms(1,2) by linarith
  then have "round_int Round_minMag x = 0"
    unfolding assms(3) round_int_signed [OF assms(1)] by (simp add: round_mag_def)
  then show ?thesis using assms(3-5) by (auto simp: int_rounded_def)
qed

lemma trunc_mid:
  assumes "y = real m / 2 ^ d" and "x = (if s then - y else y)"
    and "z = (if s then - int (m div 2 ^ d) else int (m div 2 ^ d))" and "lo \<le> z" and "z \<le> hi"
  shows "int_rounded lo hi dflt Round_minMag exact x st =
    (z, if exact \<and> m mod 2 ^ d \<noteq> 0 then softfloat_raiseFlags softfloat_flag_inexact st else st)"
  using to_int_trunc [OF assms(1,2), of lo hi dflt exact st] assms(3-5) by (auto simp: to_int_def)

lemma trunc_invalid:
  assumes "real c \<le> y" and "x = (if s then - y else y)" and "s \<Longrightarrow> - int c < lo" and "\<not> s \<Longrightarrow> hi < int c"
  shows "int_rounded lo hi dflt m exact x st = (dflt, softfloat_raiseFlags softfloat_flag_invalid st)"
proof -
  have "0 \<le> y" using assms(1) by (rule order_trans [rotated]) simp
  then show ?thesis
    unfolding int_rounded_def assms(2) using round_int_signed [of y m s] round_mag_ge [OF assms(1), of m s] assms(3,4) by auto
qed

lemma push_drop_exact: "unat w < 2 ^ 64 \<Longrightarrow> push_bit d (drop_bit d w) \<noteq> (w :: u64) \<longleftrightarrow> unat w mod 2 ^ d \<noteq> 0"
proof -
  have "unat w div 2 ^ d * 2 ^ d \<le> unat w" by simp
  then have "unat w div 2 ^ d * 2 ^ d < 2 ^ LENGTH(64)" using unat_lt [of w] by (rule le_less_trans)
  then have u: "unat (push_bit d (drop_bit d w)) = unat w div 2 ^ d * 2 ^ d"
    by (subst unat_push_bit) (simp_all add: unat_drop_bit)
  have "unat w div 2 ^ d * 2 ^ d + unat w mod 2 ^ d = unat w" by (rule div_mult_mod_eq)
  then show ?thesis unfolding word_unat_eq_iff u by linarith
qed

lemma sint_word_small: "unat (w :: u64) < 2 ^ 63 \<Longrightarrow> sint w = int (unat w)"
  by (subst sint_small) simp

lemma exp_frac_zero:
  assumes "E < 2 ^ 16"
  shows "word_of_int (int E) OR f = (0 :: u64) \<longleftrightarrow> E = 0 \<and> unat f = 0"
proof -
  have "unat (word_of_int (int E) :: u64) = E" using assms by (subst unat_word_of_int) simp_all
  then have "(word_of_int (int E) :: u64) = 0 \<longleftrightarrow> E = 0" by (metis unat_eq_0)
  then show ?thesis by (simp only: or_eq_0_iff) (simp add: unat_eq_0)
qed

lemma mag_ge:
  assumes "2 ^ P \<le> M" and "c + B + 1 \<le> P + E" and "1 \<le> E"
  shows "real (2 ^ c) \<le> real M * 2 ^ (E - 1) / 2 ^ B"
proof -
  have "(2::real) ^ c * 2 ^ B \<le> 2 ^ P * 2 ^ (E - 1)"
    unfolding power_add [symmetric] using assms(2,3) by (intro power_increasing) auto
  also have "\<dots> \<le> real M * 2 ^ (E - 1)"
    using assms(1) by (intro mult_right_mono) (metis of_nat_le_iff of_nat_numeral of_nat_power, simp)
  finally show ?thesis by (simp add: field_simps)
qed

lemma mag_less_1:
  assumes "M < 2 ^ (P + 1)" and "P + E \<le> B" and "P + 1 \<le> B"
  shows "real M * 2 ^ (E - 1) / 2 ^ B < 1"
proof -
  have "real M < 2 ^ (P + 1)" using assms(1) by (metis of_nat_less_iff of_nat_numeral of_nat_power)
  then have "real M * 2 ^ (E - 1) < 2 ^ (P + 1) * 2 ^ (E - 1)" by (rule mult_strict_right_mono) simp
  also have "\<dots> = 2 ^ (P + 1 + (E - 1))" by (simp only: power_add)
  also have "\<dots> \<le> 2 ^ B" using assms(2,3) by (intro power_increasing) auto
  finally show ?thesis by simp
qed

lemma div_less_power:
  fixes m :: nat
  assumes "m < 2 ^ (k + d)"
  shows "m div 2 ^ d < 2 ^ k"
  using assms by (simp add: div_less_iff_less_mult power_add)

lemma f32_zero_iff:
  assumes "n = unat a mod 2 ^ 31" and "E = n div 2 ^ 23" and "f = fracF32UI (ucast (a :: float32_t))"
  shows "E = 0 \<and> unat f = 0 \<longleftrightarrow> real (fp_sig 23 n) * 2 ^ (E - 1) / 2 ^ 149 = 0"
proof -
  have f: "unat f = n mod 2 ^ 23" unfolding assms(3) assms(1) by (simp add: fracF32UI_index)
  have "fp_sig 23 n = 0 \<longleftrightarrow> n = 0" by (auto simp: fp_sig_def)
  moreover have "n div 2 ^ 23 = 0 \<and> n mod 2 ^ 23 = 0 \<longleftrightarrow> n = 0" by (metis div_mult_mod_eq add_0 mult_zero_left div_0 mod_0)
  ultimately show ?thesis unfolding f assms(2) by simp
qed

text \<open>The one value of magnitude \<open>2 ^ 31\<close> (or \<open>2 ^ 63\<close>) that fits a signed result.\<close>

lemma f32_pattern_min:
  assumes "n = unat a mod 2 ^ 31" and "E = n div 2 ^ 23" and "e < 255" and "1 \<le> e"
  shows "ucast (a :: float32_t) = packToF32UI True (int e) 0 \<longleftrightarrow> 2 ^ 31 \<le> unat a \<and> E = e \<and> fp_sig 23 n = 2 ^ 23"
proof -
  have p: "unat (packToF32UI True (int e) 0) = 2 ^ 31 + e * 2 ^ 23"
    using assms(3) by (subst unat_packToF32UI) simp_all
  have a: "unat a = of_bool (2 ^ 31 \<le> unat a) * 2 ^ 31 + n"
    using unat_sign_index [of "ucast a"] unat_f32_less [of a] by (simp add: assms(1))
  have n: "n < 2 ^ 31" unfolding assms(1) by simp
  have "ucast a = packToF32UI True (int e) 0 \<longleftrightarrow> unat a = 2 ^ 31 + e * 2 ^ 23"
    by (simp only: word_unat_eq_iff p ucast_f32)
  also have "\<dots> \<longleftrightarrow> 2 ^ 31 \<le> unat a \<and> n = e * 2 ^ 23"
    using a n by (cases "2 ^ 31 \<le> unat a") auto
  also have "n = e * 2 ^ 23 \<longleftrightarrow> E = e \<and> fp_sig 23 n = 2 ^ 23"
  proof
    assume "n = e * 2 ^ 23"
    then show "E = e \<and> fp_sig 23 n = 2 ^ 23" using assms(4) by (simp add: assms(2) fp_sig_def)
  next
    assume r: "E = e \<and> fp_sig 23 n = 2 ^ 23"
    then have "\<not> n < 2 ^ 23" using assms(4) by (auto simp: assms(2))
    with r have "n mod 2 ^ 23 = 0" by (simp add: fp_sig_def)
    then show "n = e * 2 ^ 23" using r div_mult_mod_eq [of n "2 ^ 23"] by (simp add: assms(2))
  qed
  finally show ?thesis .
qed

lemma mag_beyond:
  assumes "2 ^ P \<le> M" and "c + B + 1 = P + e" and "e \<le> E" and "P \<le> c" and "1 \<le> e" and "\<not> (s \<and> E = e \<and> M = 2 ^ P)"
  shows "real (2 ^ c + of_bool s) \<le> real M * 2 ^ (E - 1) / 2 ^ B"
proof (cases "E = e")
  case True
  have p: "(2::real) ^ (e - 1) = 2 ^ (c - P) * 2 ^ B"
    using assms(2,4,5) unfolding power_add [symmetric] by (intro arg_cong [of _ _ "\<lambda>k. 2 ^ k"]) simp
  have "2 ^ P + of_bool s \<le> M" using assms(1,6) True by auto
  then have "(2 ^ P + of_bool s) * 2 ^ (c - P) \<le> M * 2 ^ (c - P)" by (rule mult_le_mono1)
  moreover have "2 ^ c + of_bool s \<le> (2 ^ P + of_bool s) * (2::nat) ^ (c - P)"
    using assms(4) by (simp add: add_mult_distrib flip: power_add)
  ultimately have "2 ^ c + of_bool s \<le> M * 2 ^ (c - P)" by (rule le_trans [rotated])
  then have "real (2 ^ c + of_bool s) \<le> real (M * 2 ^ (c - P))" by (simp only: of_nat_le_iff)
  also have "\<dots> = real M * 2 ^ (E - 1) / 2 ^ B" using p True by simp
  finally show ?thesis .
next
  case False
  have "real (2 ^ c + of_bool s) \<le> real (2 ^ (c + 1))" by simp
  also have "\<dots> \<le> real M * 2 ^ (E - 1) / 2 ^ B" by (rule mag_ge [OF assms(1)]) (use assms(2,3,5) False in auto)
  finally show ?thesis .
qed

lemma trunc_word:
  assumes "y = real (unat w) / 2 ^ d" and "x = (if s then - y else y)" and "unat w < 2 ^ (h + d)" and "h \<le> 63"
    and "lo \<le> - (2 ^ h)" and "2 ^ h - 1 \<le> hi"
  shows "(if s then - sint (drop_bit d w) else sint (drop_bit d (w :: u64)),
      if exact \<and> unat w mod 2 ^ d \<noteq> 0 then softfloat_raiseFlags softfloat_flag_inexact st else st) =
    int_rounded lo hi dflt Round_minMag exact x st"
proof -
  have k: "unat w div 2 ^ d < 2 ^ h" by (rule div_less_power [OF assms(3)])
  also have "\<dots> \<le> 2 ^ 63" using assms(4) by (intro power_increasing) auto
  finally have z: "sint (drop_bit d w) = int (unat w div 2 ^ d)"
    by (subst sint_word_small) (simp_all add: unat_drop_bit del: of_nat_unat)
  define q where "q = int (unat w div 2 ^ d)"
  have q: "0 \<le> q" "q < 2 ^ h" unfolding q_def using k by (simp, metis of_nat_less_iff of_nat_numeral of_nat_power)
  then have b: "lo \<le> - q" "lo \<le> q" "q \<le> hi" "- q \<le> hi" using assms(5,6) by linarith+
  then have r: "lo \<le> (if s then - q else q)" "(if s then - q else q) \<le> hi" by simp_all
  show ?thesis unfolding z by (rule trunc_mid [OF assms(1,2) refl r [unfolded q_def], symmetric])
qed

lemma trunc_word_unsigned:
  assumes "y = real (unat w) / 2 ^ d" and "x = y" and "int (unat w div 2 ^ d) \<le> hi"
  shows "(uint (drop_bit d (w :: u64)), if exact \<and> unat w mod 2 ^ d \<noteq> 0 then softfloat_raiseFlags softfloat_flag_inexact st else st) =
    int_rounded 0 hi dflt Round_minMag exact x st"
proof -
  have z: "uint (drop_bit d w) = int (unat w div 2 ^ d)" by (simp only: uint_nat unat_drop_bit)
  show ?thesis unfolding z using assms(3)
    by (intro trunc_mid [OF assms(1), where s = False, symmetric]) (simp_all add: assms(2) del: of_nat_unat)
qed

lemma shifted_out_32:
  assumes "unat v = M" and "M < 2 ^ (23 + 1)" and "d < 64"
  shows "40 - int d < 0 \<and> (ucast (push_bit (nat ((40 - int d) AND 31)) (v :: u64)) :: u32) \<noteq> 0 \<longleftrightarrow> M * 2 ^ 40 mod 2 ^ d \<noteq> 0"
proof (cases "d \<le> 40")
  case True
  then have "2 ^ d dvd M * (2 :: nat) ^ 40" by (intro dvd_mult le_imp_power_dvd)
  then show ?thesis using True by simp
next
  case False
  have "(40 - int d) AND 31 = (40 - int d) mod 2 ^ 5" using int_and_mask [of "40 - int d" 5] by simp
  also have "\<dots> = (72 - int d) mod 32" using mod_add_self2 [of "40 - int d" 32] by simp
  also have "\<dots> = 72 - int d" using False assms(3) by (intro mod_pos_pos_trivial) auto
  finally have k: "nat ((40 - int d) AND 31) = 72 - d" by (simp add: nat_diff_distrib')
  have "M * 2 ^ (72 - d) < 2 ^ (23 + 1) * 2 ^ (72 - d)" using assms(2) by simp
  also have "\<dots> = 2 ^ (23 + 1 + (72 - d))" by (simp only: power_add)
  also have "\<dots> \<le> 2 ^ 64" using False by (intro power_increasing) auto
  finally have "unat (push_bit (72 - d) v) = M * 2 ^ (72 - d)" using assms(1) by (subst unat_push_bit) simp_all
  then have "unat (ucast (push_bit (72 - d) v) :: u32) = M * 2 ^ (72 - d) mod 2 ^ 32" by (simp add: unat_ucast_mod)
  also have "\<dots> = M * 2 ^ (72 - d) mod (2 ^ (d - 40) * 2 ^ (72 - d))" using False assms(3) by (simp flip: power_add)
  also have "\<dots> = (M mod 2 ^ (d - 40)) * 2 ^ (72 - d)" by (simp only: mult_mod_left)
  finally have "(ucast (push_bit (72 - d) v) :: u32) = 0 \<longleftrightarrow> M mod 2 ^ (d - 40) = 0" by (simp add: word_unat_eq_iff)
  moreover have "M * 2 ^ 40 mod 2 ^ d = (M mod 2 ^ (d - 40)) * 2 ^ 40"
  proof -
    have "d = (d - 40) + 40" using False by simp
    then have "(2::nat) ^ d = 2 ^ (d - 40) * 2 ^ 40" by (metis power_add)
    then show ?thesis by (simp only: mult_mod_left)
  qed
  ultimately show ?thesis using False by (simp add: k)
qed

lemma shifted_out_64:
  assumes "1 \<le> d" and "d < 64"
  shows "push_bit (nat (- int d AND 63)) (v :: u64) \<noteq> 0 \<longleftrightarrow> unat v mod 2 ^ d \<noteq> 0"
proof -
  have "- int d AND 63 = (- int d) mod 2 ^ 6" using int_and_mask [of "- int d" 6] by simp
  also have "\<dots> = (64 - int d) mod 64" using mod_add_self2 [of "- int d" 64] by simp
  also have "\<dots> = 64 - int d" using assms by (intro mod_pos_pos_trivial) auto
  finally have k: "nat (- int d AND 63) = 64 - d" by (simp add: nat_diff_distrib')
  have "unat (push_bit (64 - d) v) = unat v * 2 ^ (64 - d) mod 2 ^ 64" by (simp add: unat_push_bit_mod)
  also have "\<dots> = unat v * 2 ^ (64 - d) mod (2 ^ d * 2 ^ (64 - d))" using assms by (simp flip: power_add)
  also have "\<dots> = (unat v mod 2 ^ d) * 2 ^ (64 - d)" by (simp only: mult_mod_left)
  finally show ?thesis unfolding k by (simp add: word_unat_eq_iff)
qed

lemma f32_to_i32_r_minMag_eq:
  "f32_to_i32_r_minMag a exact st = int_rounded (- (2 ^ 31)) (2 ^ 31 - 1) (- (2 ^ 31)) Round_minMag exact (f32_real a) st"
proof -
  define n where "n = unat a mod 2 ^ 31"
  define E M f where "E = n div 2 ^ 23" and "M = fp_sig 23 n" and "f = fracF32UI (ucast a)"
  define s y where "s \<longleftrightarrow> 2 ^ 31 \<le> unat a" and "y = real M * 2 ^ (E - 1) / 2 ^ 149"
  note fl = f32_int_fields [OF n_def E_def M_def f_def]
  have x: "f32_real a = (if s then - y else y)" unfolding s_def y_def by (rule fl(6))
  have E: "E < 256" unfolding E_def n_def by (simp add: div_less_iff_less_mult)
  consider (small) "E \<le> 126" | (large) "158 \<le> E" | (mid) "127 \<le> E" "E \<le> 157" by linarith
  then show ?thesis
  proof cases
    case small
    have l: "f32_to_i32_r_minMag a exact st = (0, if exact \<and> y \<noteq> 0 then softfloat_raiseFlags softfloat_flag_inexact st else st)"
      using small exp_frac_zero [of E f] E f32_zero_iff [OF n_def E_def f_def]
      unfolding f32_to_i32_r_minMag_def Let_def f_def [symmetric] fl(1) raise_inexact_eq y_def M_def by simp
    have "y < 1" unfolding y_def by (rule mag_less_1 [OF fl(5)]) (use small in simp_all)
    then show ?thesis unfolding l by (intro trunc_small [symmetric, OF _ _ x]) (simp_all add: y_def)
  next
    case large
    have l: "f32_to_i32_r_minMag a exact st = (if s \<and> E = 158 \<and> M = 2 ^ 23 then (- (2 ^ 31), st)
        else (- (2 ^ 31), softfloat_raiseFlags softfloat_flag_invalid st))"
      using large f32_pattern_min [OF n_def E_def, of 158]
      unfolding f32_to_i32_r_minMag_def Let_def f_def [symmetric] fl(1) M_def s_def by simp
    show ?thesis
    proof (cases "s \<and> E = 158 \<and> M = 2 ^ 23")
      case True
      have y: "y = real (2 ^ 31) / 2 ^ 0" using True by (simp add: y_def)
      show ?thesis unfolding l using trunc_mid [OF y x refl, of "- (2 ^ 31)" "2 ^ 31 - 1" _ exact st] True by simp
    next
      case False
      have y: "real (2 ^ 31 + of_bool s) \<le> y" unfolding y_def
        by (rule mag_beyond [OF _ _ _ _ _ False]) (use fl(4) large in simp_all)
      show ?thesis unfolding l if_not_P [OF False] by (simp add: trunc_invalid [OF y x])
    qed
  next
    case mid
    define d where "d = 158 - E"
    have d: "1 \<le> d" "d \<le> 31" "158 - int E = int d" using mid by (auto simp: d_def)
    define w :: u64 where "w = push_bit 8 (f OR 0x00800000)"
    have w: "unat w = M * 2 ^ 8" unfolding w_def by (rule f32_sig32 [OF _ fl(5)]) (use fl(2) mid in simp_all)
    have l: "f32_to_i32_r_minMag a exact st = (if s then - sint (drop_bit d w) else sint (drop_bit d w),
        if exact \<and> unat w mod 2 ^ d \<noteq> 0 then softfloat_raiseFlags softfloat_flag_inexact st else st)"
      using d mid push_drop_exact [of w d] unat_lt [of w]
      unfolding f32_to_i32_r_minMag_def Let_def f_def [symmetric] fl(1) raise_inexact_eq w_def [symmetric] d(3) s_def by simp
    have y: "y = real (unat w) / 2 ^ d"
      unfolding y_def w d_def using scaled_shift [of E 158 0 149 8 M] mid by simp
    have "unat w < 2 ^ 32" using w fl(5) by simp
    also have "\<dots> \<le> 2 ^ (31 + d)" using d(1) by (intro power_increasing) auto
    finally show ?thesis unfolding l by (intro trunc_word [OF y x]) auto
  qed
qed

lemma f32_to_ui32_r_minMag_eq:
  "apfst uint (f32_to_ui32_r_minMag a exact st) = int_rounded 0 (2 ^ 32 - 1) (2 ^ 32 - 1) Round_minMag exact (f32_real a) st"
proof -
  define n where "n = unat a mod 2 ^ 31"
  define E M f where "E = n div 2 ^ 23" and "M = fp_sig 23 n" and "f = fracF32UI (ucast a)"
  define s y where "s \<longleftrightarrow> 2 ^ 31 \<le> unat a" and "y = real M * 2 ^ (E - 1) / 2 ^ 149"
  note fl = f32_int_fields [OF n_def E_def M_def f_def]
  have x: "f32_real a = (if s then - y else y)" unfolding s_def y_def by (rule fl(6))
  have E: "E < 256" unfolding E_def n_def by (simp add: div_less_iff_less_mult)
  consider (small) "E \<le> 126" | (large) "127 \<le> E" "s \<or> 159 \<le> E" | (mid) "127 \<le> E" "E \<le> 158" "\<not> s" by linarith
  then show ?thesis
  proof cases
    case small
    have l: "apfst uint (f32_to_ui32_r_minMag a exact st) = (0, if exact \<and> y \<noteq> 0 then softfloat_raiseFlags softfloat_flag_inexact st else st)"
      using small exp_frac_zero [of E f] E f32_zero_iff [OF n_def E_def f_def]
      unfolding f32_to_ui32_r_minMag_def Let_def f_def [symmetric] fl(1) raise_inexact_eq y_def M_def by simp
    have "y < 1" unfolding y_def by (rule mag_less_1 [OF fl(5)]) (use small in simp_all)
    then show ?thesis unfolding l by (intro trunc_small [symmetric, OF _ _ x]) (simp_all add: y_def)
  next
    case large
    have l: "apfst uint (f32_to_ui32_r_minMag a exact st) = (2 ^ 32 - 1, softfloat_raiseFlags softfloat_flag_invalid st)"
      using large unfolding f32_to_ui32_r_minMag_def Let_def f_def [symmetric] fl(1) s_def by auto
    have y: "real (2 ^ (if s then 0 else 32)) \<le> y" unfolding y_def
      by (rule mag_ge [of 23]) (use fl(4) large in auto)
    show ?thesis unfolding l by (rule trunc_invalid [OF y x, symmetric]) auto
  next
    case mid
    define d where "d = 158 - E"
    have d: "d \<le> 31" "158 - int E = int d" using mid by (auto simp: d_def)
    define w :: u64 where "w = push_bit 8 (f OR 0x00800000)"
    have w: "unat w = M * 2 ^ 8" unfolding w_def by (rule f32_sig32 [OF _ fl(5)]) (use fl(2) mid in simp_all)
    have l: "apfst uint (f32_to_ui32_r_minMag a exact st) = (uint (drop_bit d w),
        if exact \<and> unat w mod 2 ^ d \<noteq> 0 then softfloat_raiseFlags softfloat_flag_inexact st else st)"
      using d mid push_drop_exact [of w d] unat_lt [of w]
      unfolding f32_to_ui32_r_minMag_def Let_def f_def [symmetric] fl(1) raise_inexact_eq w_def [symmetric] d(2) s_def by simp
    have y: "y = real (unat w) / 2 ^ d"
      unfolding y_def w d_def using scaled_shift [of E 158 0 149 8 M] mid by simp
    have "unat w div 2 ^ d \<le> unat w" by simp
    moreover have "unat w < 2 ^ 32" using w fl(5) by simp
    ultimately have "int (unat w div 2 ^ d) < int (2 ^ 32)" by (simp only: of_nat_less_iff)
    then show ?thesis unfolding l using x mid by (intro trunc_word_unsigned [OF y]) (simp_all del: of_nat_unat)
  qed
qed

lemma f32_to_i64_r_minMag_eq:
  "f32_to_i64_r_minMag a exact st = int_rounded (- (2 ^ 63)) (2 ^ 63 - 1) (- (2 ^ 63)) Round_minMag exact (f32_real a) st"
proof -
  define n where "n = unat a mod 2 ^ 31"
  define E M f where "E = n div 2 ^ 23" and "M = fp_sig 23 n" and "f = fracF32UI (ucast a)"
  define s y where "s \<longleftrightarrow> 2 ^ 31 \<le> unat a" and "y = real M * 2 ^ (E - 1) / 2 ^ 149"
  note fl = f32_int_fields [OF n_def E_def M_def f_def]
  have x: "f32_real a = (if s then - y else y)" unfolding s_def y_def by (rule fl(6))
  have E: "E < 256" unfolding E_def n_def by (simp add: div_less_iff_less_mult)
  consider (small) "E \<le> 126" | (large) "190 \<le> E" | (mid) "127 \<le> E" "E \<le> 189" by linarith
  then show ?thesis
  proof cases
    case small
    have l: "f32_to_i64_r_minMag a exact st = (0, if exact \<and> y \<noteq> 0 then softfloat_raiseFlags softfloat_flag_inexact st else st)"
      using small exp_frac_zero [of E f] E f32_zero_iff [OF n_def E_def f_def]
      unfolding f32_to_i64_r_minMag_def Let_def f_def [symmetric] fl(1) raise_inexact_eq y_def M_def by simp
    have "y < 1" unfolding y_def by (rule mag_less_1 [OF fl(5)]) (use small in simp_all)
    then show ?thesis unfolding l by (intro trunc_small [symmetric, OF _ _ x]) (simp_all add: y_def)
  next
    case large
    have l: "f32_to_i64_r_minMag a exact st = (if s \<and> E = 190 \<and> M = 2 ^ 23 then (- (2 ^ 63), st)
        else (- (2 ^ 63), softfloat_raiseFlags softfloat_flag_invalid st))"
      using large f32_pattern_min [OF n_def E_def, of 190]
      unfolding f32_to_i64_r_minMag_def Let_def f_def [symmetric] fl(1) M_def s_def by simp
    show ?thesis
    proof (cases "s \<and> E = 190 \<and> M = 2 ^ 23")
      case True
      have y: "y = real (2 ^ 63) / 2 ^ 0" using True by (simp add: y_def)
      show ?thesis unfolding l using trunc_mid [OF y x refl, of "- (2 ^ 63)" "2 ^ 63 - 1" _ exact st] True by simp
    next
      case False
      have y: "real (2 ^ 63 + of_bool s) \<le> y" unfolding y_def
        by (rule mag_beyond [OF _ _ _ _ _ False]) (use fl(4) large in simp_all)
      show ?thesis unfolding l if_not_P [OF False] by (simp add: trunc_invalid [OF y x])
    qed
  next
    case mid
    define d where "d = 190 - E"
    have d: "1 \<le> d" "d < 64" "190 - int E = int d" using mid by (auto simp: d_def)
    define w :: u64 where "w = push_bit 40 (f OR 0x00800000)"
    have v: "unat (f OR 0x00800000) = M" using fl(2) mid by simp
    have w: "unat w = M * 2 ^ 40" unfolding w_def by (rule f32_sig32 [OF v fl(5)]) simp
    have l: "f32_to_i64_r_minMag a exact st = (if s then - sint (drop_bit d w) else sint (drop_bit d w),
        if exact \<and> unat w mod 2 ^ d \<noteq> 0 then softfloat_raiseFlags softfloat_flag_inexact st else st)"
      using d mid shifted_out_32 [OF v fl(5) d(2)]
      unfolding f32_to_i64_r_minMag_def Let_def f_def [symmetric] fl(1) raise_inexact_eq w_def [symmetric] d(3) s_def w by simp
    have y: "y = real (unat w) / 2 ^ d"
      unfolding y_def w d_def using scaled_shift [of E 190 0 149 40 M] mid by simp
    have "unat w < 2 ^ 64" using w fl(5) by simp
    also have "\<dots> \<le> 2 ^ (63 + d)" using d(1) by (intro power_increasing) auto
    finally show ?thesis unfolding l by (intro trunc_word [OF y x]) auto
  qed
qed

lemma f32_to_ui64_r_minMag_eq:
  "apfst uint (f32_to_ui64_r_minMag a exact st) = int_rounded 0 (2 ^ 64 - 1) (2 ^ 64 - 1) Round_minMag exact (f32_real a) st"
proof -
  define n where "n = unat a mod 2 ^ 31"
  define E M f where "E = n div 2 ^ 23" and "M = fp_sig 23 n" and "f = fracF32UI (ucast a)"
  define s y where "s \<longleftrightarrow> 2 ^ 31 \<le> unat a" and "y = real M * 2 ^ (E - 1) / 2 ^ 149"
  note fl = f32_int_fields [OF n_def E_def M_def f_def]
  have x: "f32_real a = (if s then - y else y)" unfolding s_def y_def by (rule fl(6))
  have E: "E < 256" unfolding E_def n_def by (simp add: div_less_iff_less_mult)
  consider (small) "E \<le> 126" | (large) "127 \<le> E" "s \<or> 191 \<le> E" | (mid) "127 \<le> E" "E \<le> 190" "\<not> s" by linarith
  then show ?thesis
  proof cases
    case small
    have l: "apfst uint (f32_to_ui64_r_minMag a exact st) = (0, if exact \<and> y \<noteq> 0 then softfloat_raiseFlags softfloat_flag_inexact st else st)"
      using small exp_frac_zero [of E f] E f32_zero_iff [OF n_def E_def f_def]
      unfolding f32_to_ui64_r_minMag_def Let_def f_def [symmetric] fl(1) raise_inexact_eq y_def M_def by simp
    have "y < 1" unfolding y_def by (rule mag_less_1 [OF fl(5)]) (use small in simp_all)
    then show ?thesis unfolding l by (intro trunc_small [symmetric, OF _ _ x]) (simp_all add: y_def)
  next
    case large
    have l: "apfst uint (f32_to_ui64_r_minMag a exact st) = (2 ^ 64 - 1, softfloat_raiseFlags softfloat_flag_invalid st)"
      using large unfolding f32_to_ui64_r_minMag_def Let_def f_def [symmetric] fl(1) s_def by auto
    have y: "real (2 ^ (if s then 0 else 64)) \<le> y" unfolding y_def
      by (rule mag_ge [of 23]) (use fl(4) large in auto)
    show ?thesis unfolding l by (rule trunc_invalid [OF y x, symmetric]) auto
  next
    case mid
    define d where "d = 190 - E"
    have d: "d < 64" "190 - int E = int d" using mid by (auto simp: d_def)
    define w :: u64 where "w = push_bit 40 (f OR 0x00800000)"
    have v: "unat (f OR 0x00800000) = M" using fl(2) mid by simp
    have w: "unat w = M * 2 ^ 40" unfolding w_def by (rule f32_sig32 [OF v fl(5)]) simp
    have l: "apfst uint (f32_to_ui64_r_minMag a exact st) = (uint (drop_bit d w),
        if exact \<and> unat w mod 2 ^ d \<noteq> 0 then softfloat_raiseFlags softfloat_flag_inexact st else st)"
      using d mid shifted_out_32 [OF v fl(5) d(1)]
      unfolding f32_to_ui64_r_minMag_def Let_def f_def [symmetric] fl(1) raise_inexact_eq w_def [symmetric] d(2) s_def w by simp
    have y: "y = real (unat w) / 2 ^ d"
      unfolding y_def w d_def using scaled_shift [of E 190 0 149 40 M] mid by simp
    have "unat w div 2 ^ d \<le> unat w" by simp
    moreover have "unat w < 2 ^ 64" using w fl(5) by simp
    ultimately have "int (unat w div 2 ^ d) < int (2 ^ 64)" by (simp only: of_nat_less_iff)
    then show ?thesis unfolding l using x mid by (intro trunc_word_unsigned [OF y]) (simp_all del: of_nat_unat)
  qed
qed

lemma f64_zero_iff:
  assumes "n = unat a mod 2 ^ 63" and "E = n div 2 ^ 52" and "f = fracF64UI (a :: float64_t)"
  shows "E = 0 \<and> unat f = 0 \<longleftrightarrow> real (fp_sig 52 n) * 2 ^ (E - 1) / 2 ^ 1074 = 0"
proof -
  have f: "unat f = n mod 2 ^ 52" unfolding assms(3) assms(1) by (simp add: fracF64UI_index)
  have "fp_sig 52 n = 0 \<longleftrightarrow> n = 0" by (auto simp: fp_sig_def)
  moreover have "n div 2 ^ 52 = 0 \<and> n mod 2 ^ 52 = 0 \<longleftrightarrow> n = 0" by (metis div_mult_mod_eq add_0 mult_zero_left div_0 mod_0)
  ultimately show ?thesis unfolding f assms(2) by simp
qed

lemma f64_pattern_min:
  assumes "n = unat a mod 2 ^ 63" and "E = n div 2 ^ 52" and "e < 2047" and "1 \<le> e"
  shows "(a :: float64_t) = packToF64UI True (int e) 0 \<longleftrightarrow> 2 ^ 63 \<le> unat a \<and> E = e \<and> fp_sig 52 n = 2 ^ 52"
proof -
  have p: "unat (packToF64UI True (int e) 0) = 2 ^ 63 + e * 2 ^ 52"
    using assms(3) by (subst unat_packToF64UI) simp_all
  have a: "unat a = of_bool (2 ^ 63 \<le> unat a) * 2 ^ 63 + n"
    unfolding assms(1) using div_mult_mod_eq [of "unat a" "2 ^ 63"] unat_lt [of a] by (auto simp: not_le le_mod_geq)
  have n: "n < 2 ^ 63" unfolding assms(1) by simp
  have "a = packToF64UI True (int e) 0 \<longleftrightarrow> unat a = 2 ^ 63 + e * 2 ^ 52"
    by (simp only: word_unat_eq_iff p)
  also have "\<dots> \<longleftrightarrow> 2 ^ 63 \<le> unat a \<and> n = e * 2 ^ 52"
    using a n by (cases "2 ^ 63 \<le> unat a") auto
  also have "n = e * 2 ^ 52 \<longleftrightarrow> E = e \<and> fp_sig 52 n = 2 ^ 52"
  proof
    assume "n = e * 2 ^ 52"
    then show "E = e \<and> fp_sig 52 n = 2 ^ 52" using assms(4) by (simp add: assms(2) fp_sig_def)
  next
    assume r: "E = e \<and> fp_sig 52 n = 2 ^ 52"
    then have "\<not> n < 2 ^ 52" using assms(4) by (auto simp: assms(2))
    with r have "n mod 2 ^ 52 = 0" by (simp add: fp_sig_def)
    then show "n = e * 2 ^ 52" using r div_mult_mod_eq [of n "2 ^ 52"] by (simp add: assms(2))
  qed
  finally show ?thesis .
qed

lemma f64_shift_left:
  assumes "1075 \<le> E" and "E \<le> 1086" and "unat v = M" and "M < 2 ^ (52 + 1)" and "w = push_bit (E - 1075) (v :: u64)"
  shows "unat w = M * 2 ^ (E - 1075)" and "real M * 2 ^ (E - 1) / 2 ^ 1074 = real (unat w) / 2 ^ 0" and "unat w < 2 ^ (53 + (E - 1075))"
proof -
  have l: "M * 2 ^ (E - 1075) < 2 ^ (52 + 1) * 2 ^ (E - 1075)" using assms(4) by simp
  also have "\<dots> = 2 ^ (53 + (E - 1075))" by (simp add: power_add)
  finally have l: "M * 2 ^ (E - 1075) < 2 ^ (53 + (E - 1075))" .
  also have "\<dots> \<le> 2 ^ 64" using assms(2) by (intro power_increasing) auto
  finally show u: "unat w = M * 2 ^ (E - 1075)" unfolding assms(5) using assms(3) by (subst unat_push_bit) auto
  have "E - 1 = E - 1075 + 1074" using assms(1) by simp
  then have "(2::real) ^ (E - 1) = 2 ^ (E - 1075) * 2 ^ 1074" by (simp only: power_add)
  then show "real M * 2 ^ (E - 1) / 2 ^ 1074 = real (unat w) / 2 ^ 0" unfolding u by simp
  show "unat w < 2 ^ (53 + (E - 1075))" unfolding u by (rule l)
qed

lemma f64_to_i32_r_minMag_eq:
  "f64_to_i32_r_minMag a exact st = int_rounded (- (2 ^ 31)) (2 ^ 31 - 1) (- (2 ^ 31)) Round_minMag exact (f64_real a) st"
proof -
  define n where "n = unat a mod 2 ^ 63"
  define E M f where "E = n div 2 ^ 52" and "M = fp_sig 52 n" and "f = fracF64UI a"
  define s y where "s \<longleftrightarrow> 2 ^ 63 \<le> unat a" and "y = real M * 2 ^ (E - 1) / 2 ^ 1074"
  note fl = f64_int_fields [OF n_def E_def M_def f_def]
  have x: "f64_real a = (if s then - y else y)" unfolding s_def y_def by (rule fl(6))
  have E: "E < 2048" unfolding E_def n_def by (simp add: div_less_iff_less_mult)
  have uf: "unat f < 2 ^ 21 \<longleftrightarrow> f < 0x0000000000200000" by (simp add: word_less_nat_alt)
  have fM: "1 \<le> E \<Longrightarrow> M = 2 ^ 52 + unat f"
    by (auto simp: M_def fp_sig_def E_def f_def n_def fracF64UI_index div_eq_0_iff)
  consider (small) "E \<le> 1022" | (large) "1054 \<le> E" | (mid) "1023 \<le> E" "E \<le> 1053" by linarith
  then show ?thesis
  proof cases
    case small
    have l: "f64_to_i32_r_minMag a exact st = (0, if exact \<and> y \<noteq> 0 then softfloat_raiseFlags softfloat_flag_inexact st else st)"
      using small exp_frac_zero [of E f] E f64_zero_iff [OF n_def E_def f_def]
      unfolding f64_to_i32_r_minMag_def Let_def f_def [symmetric] fl(1) raise_inexact_eq y_def M_def by simp
    have "y < 1" unfolding y_def by (rule mag_less_1 [OF fl(5)]) (use small in simp_all)
    then show ?thesis unfolding l by (intro trunc_small [symmetric, OF _ _ x]) (simp_all add: y_def)
  next
    case large
    have l: "f64_to_i32_r_minMag a exact st = (if s \<and> E = 1054 \<and> unat f < 2 ^ 21
        then (- (2 ^ 31), if exact \<and> unat f \<noteq> 0 then softfloat_raiseFlags softfloat_flag_inexact st else st)
        else (- (2 ^ 31), softfloat_raiseFlags softfloat_flag_invalid st))"
      using large unfolding f64_to_i32_r_minMag_def Let_def f_def [symmetric] fl(1) s_def raise_inexact_eq uf
      by (simp add: signF64UI_iff unat_eq_0)
    show ?thesis
    proof (cases "s \<and> E = 1054 \<and> unat f < 2 ^ 21")
      case True
      have y: "y = real M / 2 ^ 21" using True by (simp add: y_def)
      have M: "M = 2 ^ 31 * 2 ^ 21 + unat f" using fM True by simp
      have "M div 2 ^ 21 = 2 ^ 31" "M mod 2 ^ 21 = unat f" unfolding M using True
        by (auto intro!: div_nat_eqI mod_nat_eqI)
      then show ?thesis unfolding l using trunc_mid [OF y x refl, of "- (2 ^ 31)" "2 ^ 31 - 1" _ exact st] True by simp
    next
      case False
      have y: "real (2 ^ 31 + of_bool s) \<le> y"
      proof (cases "E = 1054 \<and> s")
        case True
        then have "(2 ^ 31 + 1) * 2 ^ 21 \<le> M" using False fM by simp
        then have "real ((2 ^ 31 + 1) * 2 ^ 21) \<le> real M" by (simp only: of_nat_le_iff)
        then show ?thesis using True by (simp add: y_def)
      next
        case F: False
        have "real (2 ^ (31 + of_bool s)) \<le> y" unfolding y_def by (rule mag_ge [of 52]) (use fl(4) large F in auto)
        then show ?thesis by (cases s) simp_all
      qed
      show ?thesis unfolding l if_not_P [OF False] by (simp add: trunc_invalid [OF y x])
    qed
  next
    case mid
    define d where "d = 1075 - E"
    have d: "22 \<le> d" "d \<le> 52" "1075 - int E = int d" using mid by (auto simp: d_def)
    define w :: u64 where "w = f OR 0x0010000000000000"
    have w: "unat w = M" unfolding w_def using fl(2) mid by simp
    have l: "f64_to_i32_r_minMag a exact st = (if s then - sint (drop_bit d w) else sint (drop_bit d w),
        if exact \<and> unat w mod 2 ^ d \<noteq> 0 then softfloat_raiseFlags softfloat_flag_inexact st else st)"
      using d mid push_drop_exact [of w d] unat_lt [of w]
      unfolding f64_to_i32_r_minMag_def Let_def f_def [symmetric] fl(1) raise_inexact_eq w_def [symmetric] d(3) s_def by (simp add: signF64UI_iff)
    have y: "y = real (unat w) / 2 ^ d"
      unfolding y_def w d_def using scaled_shift [of E 1075 0 1074 0 M] mid by simp
    have "unat w < 2 ^ 53" using w fl(5) by simp
    also have "\<dots> \<le> 2 ^ (31 + d)" using mid by (intro power_increasing) (auto simp: d_def)
    finally show ?thesis unfolding l by (intro trunc_word [OF y x]) auto
  qed
qed

lemma f64_to_ui32_r_minMag_eq:
  "apfst uint (f64_to_ui32_r_minMag a exact st) = int_rounded 0 (2 ^ 32 - 1) (2 ^ 32 - 1) Round_minMag exact (f64_real a) st"
proof -
  define n where "n = unat a mod 2 ^ 63"
  define E M f where "E = n div 2 ^ 52" and "M = fp_sig 52 n" and "f = fracF64UI a"
  define s y where "s \<longleftrightarrow> 2 ^ 63 \<le> unat a" and "y = real M * 2 ^ (E - 1) / 2 ^ 1074"
  note fl = f64_int_fields [OF n_def E_def M_def f_def]
  have x: "f64_real a = (if s then - y else y)" unfolding s_def y_def by (rule fl(6))
  have E: "E < 2048" unfolding E_def n_def by (simp add: div_less_iff_less_mult)
  consider (small) "E \<le> 1022" | (large) "1023 \<le> E" "s \<or> 1055 \<le> E" | (mid) "1023 \<le> E" "E \<le> 1054" "\<not> s" by linarith
  then show ?thesis
  proof cases
    case small
    have l: "apfst uint (f64_to_ui32_r_minMag a exact st) = (0, if exact \<and> y \<noteq> 0 then softfloat_raiseFlags softfloat_flag_inexact st else st)"
      using small exp_frac_zero [of E f] E f64_zero_iff [OF n_def E_def f_def]
      unfolding f64_to_ui32_r_minMag_def Let_def f_def [symmetric] fl(1) raise_inexact_eq y_def M_def by simp
    have "y < 1" unfolding y_def by (rule mag_less_1 [OF fl(5)]) (use small in simp_all)
    then show ?thesis unfolding l by (intro trunc_small [symmetric, OF _ _ x]) (simp_all add: y_def)
  next
    case large
    have l: "apfst uint (f64_to_ui32_r_minMag a exact st) = (2 ^ 32 - 1, softfloat_raiseFlags softfloat_flag_invalid st)"
      using large unfolding f64_to_ui32_r_minMag_def Let_def f_def [symmetric] fl(1) s_def by (auto simp: signF64UI_iff)
    have y: "real (2 ^ (if s then 0 else 32)) \<le> y" unfolding y_def
      by (rule mag_ge [of 52]) (use fl(4) large in auto)
    show ?thesis unfolding l by (rule trunc_invalid [OF y x, symmetric]) auto
  next
    case mid
    define d where "d = 1075 - E"
    have d: "21 \<le> d" "d \<le> 52" "1075 - int E = int d" using mid by (auto simp: d_def)
    define w :: u64 where "w = f OR 0x0010000000000000"
    have w: "unat w = M" unfolding w_def using fl(2) mid by simp
    have l: "apfst uint (f64_to_ui32_r_minMag a exact st) = (uint (drop_bit d w),
        if exact \<and> unat w mod 2 ^ d \<noteq> 0 then softfloat_raiseFlags softfloat_flag_inexact st else st)"
      using d mid push_drop_exact [of w d] unat_lt [of w]
      unfolding f64_to_ui32_r_minMag_def Let_def f_def [symmetric] fl(1) raise_inexact_eq w_def [symmetric] d(3) s_def by (simp add: signF64UI_iff)
    have y: "y = real (unat w) / 2 ^ d"
      unfolding y_def w d_def using scaled_shift [of E 1075 0 1074 0 M] mid by simp
    have "unat w < 2 ^ 53" using w fl(5) by simp
    also have "\<dots> \<le> 2 ^ (32 + d)" using mid by (intro power_increasing) (auto simp: d_def)
    finally have "unat w div 2 ^ d < 2 ^ 32" by (rule div_less_power)
    then have "int (unat w div 2 ^ d) < int (2 ^ 32)" by (simp only: of_nat_less_iff)
    then show ?thesis unfolding l using x mid by (intro trunc_word_unsigned [OF y]) (simp_all del: of_nat_unat)
  qed
qed

lemma f64_to_i64_r_minMag_eq:
  "f64_to_i64_r_minMag a exact st = int_rounded (- (2 ^ 63)) (2 ^ 63 - 1) (- (2 ^ 63)) Round_minMag exact (f64_real a) st"
proof -
  define n where "n = unat a mod 2 ^ 63"
  define E M f where "E = n div 2 ^ 52" and "M = fp_sig 52 n" and "f = fracF64UI a"
  define s y where "s \<longleftrightarrow> 2 ^ 63 \<le> unat a" and "y = real M * 2 ^ (E - 1) / 2 ^ 1074"
  note fl = f64_int_fields [OF n_def E_def M_def f_def]
  have x: "f64_real a = (if s then - y else y)" unfolding s_def y_def by (rule fl(6))
  have E: "E < 2048" unfolding E_def n_def by (simp add: div_less_iff_less_mult)
  consider (small) "E \<le> 1022" | (large) "1086 \<le> E" | (mid) "1023 \<le> E" "E \<le> 1074" | (left) "1075 \<le> E" "E \<le> 1085" by linarith
  then show ?thesis
  proof cases
    case small
    have l: "f64_to_i64_r_minMag a exact st = (0, if exact \<and> y \<noteq> 0 then softfloat_raiseFlags softfloat_flag_inexact st else st)"
      using small exp_frac_zero [of E f] E f64_zero_iff [OF n_def E_def f_def]
      unfolding f64_to_i64_r_minMag_def Let_def f_def [symmetric] fl(1) raise_inexact_eq y_def M_def by simp
    have "y < 1" unfolding y_def by (rule mag_less_1 [OF fl(5)]) (use small in simp_all)
    then show ?thesis unfolding l by (intro trunc_small [symmetric, OF _ _ x]) (simp_all add: y_def)
  next
    case large
    have l: "f64_to_i64_r_minMag a exact st = (if s \<and> E = 1086 \<and> M = 2 ^ 52 then (- (2 ^ 63), st)
        else (- (2 ^ 63), softfloat_raiseFlags softfloat_flag_invalid st))"
      using large f64_pattern_min [OF n_def E_def, of 1086]
      unfolding f64_to_i64_r_minMag_def Let_def f_def [symmetric] fl(1) M_def s_def by simp
    show ?thesis
    proof (cases "s \<and> E = 1086 \<and> M = 2 ^ 52")
      case True
      have y: "y = real (2 ^ 63) / 2 ^ 0" using True by (simp add: y_def)
      show ?thesis unfolding l using trunc_mid [OF y x refl, of "- (2 ^ 63)" "2 ^ 63 - 1" _ exact st] True by simp
    next
      case False
      have y: "real (2 ^ 63 + of_bool s) \<le> y" unfolding y_def
        by (rule mag_beyond [OF _ _ _ _ _ False]) (use fl(4) large in simp_all)
      show ?thesis unfolding l if_not_P [OF False] by (simp add: trunc_invalid [OF y x])
    qed
  next
    case mid
    define d where "d = 1075 - E"
    have d: "1 \<le> d" "d \<le> 52" "1075 - int E = int d" using mid by (auto simp: d_def)
    define w :: u64 where "w = f OR 0x0010000000000000"
    have w: "unat w = M" unfolding w_def using fl(2) mid by simp
    have l: "f64_to_i64_r_minMag a exact st = (if s then - sint (drop_bit d w) else sint (drop_bit d w),
        if exact \<and> unat w mod 2 ^ d \<noteq> 0 then softfloat_raiseFlags softfloat_flag_inexact st else st)"
      using d mid push_drop_exact [of w d] unat_lt [of w]
      unfolding f64_to_i64_r_minMag_def Let_def f_def [symmetric] fl(1) raise_inexact_eq w_def [symmetric] d(3) s_def by (simp add: signF64UI_iff)
    have y: "y = real (unat w) / 2 ^ d"
      unfolding y_def w d_def using scaled_shift [of E 1075 0 1074 0 M] mid by simp
    have "unat w < 2 ^ 53" using w fl(5) by simp
    also have "\<dots> \<le> 2 ^ (63 + d)" using mid by (intro power_increasing) (auto simp: d_def)
    finally show ?thesis unfolding l by (intro trunc_word [OF y x]) auto
  next
    case left
    define w where "w = push_bit (E - 1075) (f OR 0x0010000000000000)"
    have v: "unat (f OR 0x0010000000000000) = M" using fl(2) left by simp
    note sl = f64_shift_left [OF _ _ v fl(5) w_def]
    have ne: "nat (int E - 1075) = E - 1075" using left by simp
    have l: "f64_to_i64_r_minMag a exact st = (if s then - sint (drop_bit 0 w) else sint (drop_bit 0 w),
        if exact \<and> unat w mod 2 ^ 0 \<noteq> 0 then softfloat_raiseFlags softfloat_flag_inexact st else st)"
      using left unfolding f64_to_i64_r_minMag_def Let_def f_def [symmetric] fl(1) s_def by (simp add: signF64UI_iff ne w_def)
    have y: "y = real (unat w) / 2 ^ 0" unfolding y_def by (rule sl(2)) (use left in simp_all)
    have "unat w < 2 ^ (53 + (E - 1075))" by (rule sl(3)) (use left in simp_all)
    also have "\<dots> \<le> 2 ^ (63 + 0)" using left by (intro power_increasing) auto
    finally show ?thesis unfolding l by (intro trunc_word [OF y x, where h = 63]) auto
  qed
qed

lemma f64_to_ui64_r_minMag_eq:
  "apfst uint (f64_to_ui64_r_minMag a exact st) = int_rounded 0 (2 ^ 64 - 1) (2 ^ 64 - 1) Round_minMag exact (f64_real a) st"
proof -
  define n where "n = unat a mod 2 ^ 63"
  define E M f where "E = n div 2 ^ 52" and "M = fp_sig 52 n" and "f = fracF64UI a"
  define s y where "s \<longleftrightarrow> 2 ^ 63 \<le> unat a" and "y = real M * 2 ^ (E - 1) / 2 ^ 1074"
  note fl = f64_int_fields [OF n_def E_def M_def f_def]
  have x: "f64_real a = (if s then - y else y)" unfolding s_def y_def by (rule fl(6))
  have E: "E < 2048" unfolding E_def n_def by (simp add: div_less_iff_less_mult)
  consider (small) "E \<le> 1022" | (large) "1023 \<le> E" "s \<or> 1087 \<le> E" | (mid) "1023 \<le> E" "E \<le> 1074" "\<not> s"
    | (left) "1075 \<le> E" "E \<le> 1086" "\<not> s" by linarith
  then show ?thesis
  proof cases
    case small
    have l: "apfst uint (f64_to_ui64_r_minMag a exact st) = (0, if exact \<and> y \<noteq> 0 then softfloat_raiseFlags softfloat_flag_inexact st else st)"
      using small exp_frac_zero [of E f] E f64_zero_iff [OF n_def E_def f_def]
      unfolding f64_to_ui64_r_minMag_def Let_def f_def [symmetric] fl(1) raise_inexact_eq y_def M_def by simp
    have "y < 1" unfolding y_def by (rule mag_less_1 [OF fl(5)]) (use small in simp_all)
    then show ?thesis unfolding l by (intro trunc_small [symmetric, OF _ _ x]) (simp_all add: y_def)
  next
    case large
    have l: "apfst uint (f64_to_ui64_r_minMag a exact st) = (2 ^ 64 - 1, softfloat_raiseFlags softfloat_flag_invalid st)"
      using large unfolding f64_to_ui64_r_minMag_def Let_def f_def [symmetric] fl(1) s_def by (auto simp: signF64UI_iff)
    have y: "real (2 ^ (if s then 0 else 64)) \<le> y" unfolding y_def
      by (rule mag_ge [of 52]) (use fl(4) large in auto)
    show ?thesis unfolding l by (rule trunc_invalid [OF y x, symmetric]) auto
  next
    case mid
    define d where "d = 1075 - E"
    have d: "1 \<le> d" "d \<le> 52" "1075 - int E = int d" using mid by (auto simp: d_def)
    define w :: u64 where "w = f OR 0x0010000000000000"
    have w: "unat w = M" unfolding w_def using fl(2) mid by simp
    have l: "apfst uint (f64_to_ui64_r_minMag a exact st) = (uint (drop_bit d w),
        if exact \<and> unat w mod 2 ^ d \<noteq> 0 then softfloat_raiseFlags softfloat_flag_inexact st else st)"
      using d mid shifted_out_64 [of d w]
      unfolding f64_to_ui64_r_minMag_def Let_def f_def [symmetric] fl(1) raise_inexact_eq w_def [symmetric] d(3) s_def by (simp add: signF64UI_iff)
    have y: "y = real (unat w) / 2 ^ d"
      unfolding y_def w d_def using scaled_shift [of E 1075 0 1074 0 M] mid by simp
    have "unat w < 2 ^ 53" using w fl(5) by simp
    also have "\<dots> \<le> 2 ^ (64 + d)" using mid by (intro power_increasing) (auto simp: d_def)
    finally have "unat w div 2 ^ d < 2 ^ 64" by (rule div_less_power)
    then have "int (unat w div 2 ^ d) < int (2 ^ 64)" by (simp only: of_nat_less_iff)
    then show ?thesis unfolding l using x mid by (intro trunc_word_unsigned [OF y]) (simp_all del: of_nat_unat)
  next
    case left
    define w where "w = push_bit (E - 1075) (f OR 0x0010000000000000)"
    have v: "unat (f OR 0x0010000000000000) = M" using fl(2) left by simp
    note sl = f64_shift_left [OF _ _ v fl(5) w_def]
    have ne: "nat (int E - 1075) = E - 1075" using left by simp
    have l: "apfst uint (f64_to_ui64_r_minMag a exact st) = (uint (drop_bit 0 w),
        if exact \<and> unat w mod 2 ^ 0 \<noteq> 0 then softfloat_raiseFlags softfloat_flag_inexact st else st)"
      using left unfolding f64_to_ui64_r_minMag_def Let_def f_def [symmetric] fl(1) s_def by (simp add: signF64UI_iff ne w_def)
    have y: "y = real (unat w) / 2 ^ 0" unfolding y_def by (rule sl(2)) (use left in simp_all)
    have "unat w div 2 ^ 0 < 2 ^ 64" using unat_lt [of w] by simp
    then have "int (unat w div 2 ^ 0) < int (2 ^ 64)" by (simp only: of_nat_less_iff)
    then show ?thesis unfolding l using x left by (intro trunc_word_unsigned [OF y]) (simp_all del: of_nat_unat)
  qed
qed

end
