(* ===== verification/F32_Arith.thy ===== *)
theory F32_Arith
  imports F32_Format
begin

text \<open>
  Addition, subtraction, multiplication and division of 32-bit numbers (\<open>s_addMagsF32.c\<close>,
  \<open>s_subMagsF32.c\<close>, \<open>f32_add.c\<close>, \<open>f32_sub.c\<close>, \<open>f32_mul.c\<close>, \<open>f32_div.c\<close>), and the proof that each
  returns the exact result correctly rounded, with exactly the exceptions of IEEE 754.
\<close>

text \<open>The exit through the label \<open>propagateNaN\<close>, and the one that raises the invalid exception.\<close>

definition f32_propagateNaN :: "uint_fast32 \<Rightarrow> uint_fast32 \<Rightarrow> softfloat_state \<Rightarrow> float32_t \<times> softfloat_state" where
  "f32_propagateNaN uiA uiB st = (let (uiZ, st) = softfloat_propagateNaNF32UI uiA uiB st in (ucast uiZ, st))"

definition f32_invalid :: "softfloat_state \<Rightarrow> float32_t \<times> softfloat_state" where
  "f32_invalid st = (ucast defaultNaNF32UI, softfloat_raiseFlags softfloat_flag_invalid st)"

definition softfloat_addMagsF32 ::
    "uint_fast32 \<Rightarrow> uint_fast32 \<Rightarrow> softfloat_state \<Rightarrow> float32_t \<times> softfloat_state" where
  "softfloat_addMagsF32 uiA uiB st =
     (let expA = expF32UI uiA; sigA = fracF32UI uiA;
          expB = expF32UI uiB; sigB = fracF32UI uiB;
          expDiff = expA - expB
      in if expDiff = 0 then
           if expA = 0 then (ucast (uiA + sigB), st)
           else if expA = 0xFF then
             if sigA OR sigB \<noteq> 0 then f32_propagateNaN uiA uiB st else (ucast uiA, st)
           else
             let signZ = signF32UI uiA; expZ = expA; sigZ = 0x01000000 + sigA + sigB
             in if sigZ AND 1 = 0 \<and> expZ < 0xFE
                then (ucast (packToF32UI signZ expZ (drop_bit 1 sigZ)), st)
                else softfloat_roundPackToF32 signZ expZ (push_bit 6 sigZ) st
         else
           let signZ = signF32UI uiA; sigA = push_bit 6 sigA; sigB = push_bit 6 sigB;
               finish = (\<lambda>expZ sigA sigB.
                 let sigZ = 0x20000000 + sigA + sigB
                 in if sigZ < 0x40000000 then softfloat_roundPackToF32 signZ (expZ - 1) (push_bit 1 sigZ) st
                    else softfloat_roundPackToF32 signZ expZ sigZ st)
           in if expDiff < 0 then
                if expB = 0xFF then
                  if sigB \<noteq> 0 then f32_propagateNaN uiA uiB st
                  else (ucast (packToF32UI signZ 0xFF 0), st)
                else
                  let sigA = sigA + (if expA \<noteq> 0 then 0x20000000 else sigA);
                      sigA = ucast (softfloat_shiftRightJam32 (ucast sigA) (word_of_int (- expDiff)))
                  in finish expB sigA sigB
              else
                if expA = 0xFF then
                  if sigA \<noteq> 0 then f32_propagateNaN uiA uiB st else (ucast uiA, st)
                else
                  let sigB = sigB + (if expB \<noteq> 0 then 0x20000000 else sigB);
                      sigB = ucast (softfloat_shiftRightJam32 (ucast sigB) (word_of_int expDiff))
                  in finish expA sigA sigB)"

definition softfloat_subMagsF32 ::
    "uint_fast32 \<Rightarrow> uint_fast32 \<Rightarrow> softfloat_state \<Rightarrow> float32_t \<times> softfloat_state" where
  "softfloat_subMagsF32 uiA uiB st =
     (let expA = expF32UI uiA; sigA = fracF32UI uiA;
          expB = expF32UI uiB; sigB = fracF32UI uiB;
          expDiff = expA - expB
      in if expDiff = 0 then
           if expA = 0xFF then
             if sigA OR sigB \<noteq> 0 then f32_propagateNaN uiA uiB st else f32_invalid st
           else
             let sigDiff = sint (sigA - sigB)
             in if sigDiff = 0
                then (ucast (packToF32UI (softfloat_roundingMode st = softfloat_round_min) 0 0), st)
                else
                  let expA = (if expA \<noteq> 0 then expA - 1 else expA);
                      signZ = signF32UI uiA;
                      (signZ, sigDiff) = (if sigDiff < 0 then (\<not> signZ, - sigDiff) else (signZ, sigDiff));
                      shiftDist = uint (softfloat_countLeadingZeros32 (word_of_int sigDiff)) - 8;
                      expZ = expA - shiftDist;
                      (shiftDist, expZ) = (if expZ < 0 then (expA, 0) else (shiftDist, expZ))
                  in (ucast (packToF32UI signZ expZ (push_bit (nat shiftDist) (word_of_int sigDiff))), st)
         else
           let signZ = signF32UI uiA; sigA = push_bit 7 sigA; sigB = push_bit 7 sigB
           in if expDiff < 0 then
                let signZ = (\<not> signZ)
                in if expB = 0xFF then
                     if sigB \<noteq> 0 then f32_propagateNaN uiA uiB st
                     else (ucast (packToF32UI signZ 0xFF 0), st)
                   else
                     let expZ = expB - 1;
                         sigX = sigB OR 0x40000000;
                         sigY = sigA + (if expA \<noteq> 0 then 0x40000000 else sigA);
                         expDiff = - expDiff
                     in softfloat_normRoundPackToF32 signZ expZ
                          (sigX - ucast (softfloat_shiftRightJam32 (ucast sigY) (word_of_int expDiff))) st
              else
                if expA = 0xFF then
                  if sigA \<noteq> 0 then f32_propagateNaN uiA uiB st else (ucast uiA, st)
                else
                  let expZ = expA - 1;
                      sigX = sigA OR 0x40000000;
                      sigY = sigB + (if expB \<noteq> 0 then 0x40000000 else sigB)
                  in softfloat_normRoundPackToF32 signZ expZ
                       (sigX - ucast (softfloat_shiftRightJam32 (ucast sigY) (word_of_int expDiff))) st)"

definition f32_add :: "float32_t \<Rightarrow> float32_t \<Rightarrow> softfloat_state \<Rightarrow> float32_t \<times> softfloat_state" where
  "f32_add a b st =
     (let uiA = ucast a; uiB = ucast b
      in if signF32UI (uiA XOR uiB) then softfloat_subMagsF32 uiA uiB st
         else softfloat_addMagsF32 uiA uiB st)"

definition f32_sub :: "float32_t \<Rightarrow> float32_t \<Rightarrow> softfloat_state \<Rightarrow> float32_t \<times> softfloat_state" where
  "f32_sub a b st =
     (let uiA = ucast a; uiB = ucast b
      in if signF32UI (uiA XOR uiB) then softfloat_addMagsF32 uiA uiB st
         else softfloat_subMagsF32 uiA uiB st)"

text \<open>The step of multiplication and division that normalizes a subnormal operand.\<close>

definition f32_normalize :: "int \<Rightarrow> uint_fast32 \<Rightarrow> int \<times> uint_fast32" where
  "f32_normalize ex sig =
     (if ex = 0 then let normExpSig = softfloat_normSubnormalF32Sig sig in (exp_f32 normExpSig, sig_f32 normExpSig)
      else (ex, sig))"

definition f32_mul :: "float32_t \<Rightarrow> float32_t \<Rightarrow> softfloat_state \<Rightarrow> float32_t \<times> softfloat_state" where
  "f32_mul a b st =
     (let uiA = ucast a; signA = signF32UI uiA; expA = expF32UI uiA; sigA = fracF32UI uiA;
          uiB = ucast b; signB = signF32UI uiB; expB = expF32UI uiB; sigB = fracF32UI uiB;
          signZ = (signA \<noteq> signB);
          infArg = (\<lambda>magBits. if magBits = 0 then f32_invalid st else (ucast (packToF32UI signZ 0xFF 0), st));
          zero = (ucast (packToF32UI signZ 0 0), st)
      in if expA = 0xFF then
           if sigA \<noteq> 0 \<or> expB = 0xFF \<and> sigB \<noteq> 0 then f32_propagateNaN uiA uiB st
           else infArg (word_of_int expB OR sigB)
         else if expB = 0xFF then
           if sigB \<noteq> 0 then f32_propagateNaN uiA uiB st else infArg (word_of_int expA OR sigA)
         else if expA = 0 \<and> sigA = 0 then zero
         else if expB = 0 \<and> sigB = 0 then zero
         else
           let (expA, sigA) = f32_normalize expA sigA;
               (expB, sigB) = f32_normalize expB sigB;
               expZ = expA + expB - 0x7F;
               sigA = push_bit 7 (sigA OR 0x00800000);
               sigB = push_bit 8 (sigB OR 0x00800000);
               sigZ = softfloat_shortShiftRightJam64 (sigA * sigB) 32
           in if sigZ < 0x40000000 then softfloat_roundPackToF32 signZ (expZ - 1) (push_bit 1 sigZ) st
              else softfloat_roundPackToF32 signZ expZ sigZ st)"

definition f32_div :: "float32_t \<Rightarrow> float32_t \<Rightarrow> softfloat_state \<Rightarrow> float32_t \<times> softfloat_state" where
  "f32_div a b st =
     (let uiA = ucast a; signA = signF32UI uiA; expA = expF32UI uiA; sigA = fracF32UI uiA;
          uiB = ucast b; signB = signF32UI uiB; expB = expF32UI uiB; sigB = fracF32UI uiB;
          signZ = (signA \<noteq> signB);
          infinity = (\<lambda>st. (ucast (packToF32UI signZ 0xFF 0), st));
          zero = (ucast (packToF32UI signZ 0 0), st)
      in if expA = 0xFF then
           if sigA \<noteq> 0 then f32_propagateNaN uiA uiB st
           else if expB = 0xFF then
             if sigB \<noteq> 0 then f32_propagateNaN uiA uiB st else f32_invalid st
           else infinity st
         else if expB = 0xFF then
           if sigB \<noteq> 0 then f32_propagateNaN uiA uiB st else zero
         else if expB = 0 \<and> sigB = 0 then
           if word_of_int expA OR sigA = 0 then f32_invalid st
           else infinity (softfloat_raiseFlags softfloat_flag_infinite st)
         else if expA = 0 \<and> sigA = 0 then zero
         else
           let (expB, sigB) = f32_normalize expB sigB;
               (expA, sigA) = f32_normalize expA sigA;
               expZ = expA - expB + 0x7E;
               sigA = sigA OR 0x00800000;
               sigB = sigB OR 0x00800000;
               (expZ, sig64A) = (if sigA < sigB then (expZ - 1, push_bit 31 sigA) else (expZ, push_bit 30 sigA));
               sigZ = sig64A div sigB;
               sigZ = (if sigZ AND 0x3F = 0 then sigZ OR of_bool (sigB * sigZ \<noteq> sig64A) else sigZ)
           in softfloat_roundPackToF32 signZ expZ sigZ st)"

section \<open>Correct rounding\<close>

lemma addMagsF32_result_less:
  assumes "unat uiA mod 2 ^ 31 div 2 ^ 23 < unat uiB mod 2 ^ 31 div 2 ^ 23" and "unat uiB mod 2 ^ 31 < fp_inf 23 255"
    and "z = 0x20000000 + ucast (softfloat_shiftRightJam32 (ucast (push_bit 6 (fracF32UI uiA) + (if expF32UI uiA \<noteq> 0 then 0x20000000 else push_bit 6 (fracF32UI uiA)))) (word_of_int (expF32UI uiB - expF32UI uiA))) + push_bit 6 (fracF32UI uiB)"
    and "res = (if z < 0x40000000 then softfloat_roundPackToF32 s (expF32UI uiB - 1) (push_bit 1 z) st
                else softfloat_roundPackToF32 s (expF32UI uiB) z st)"
  shows "fl_result 23 255 st s (real (fmag 23 (unat uiA mod 2 ^ 31)) + real (fmag 23 (unat uiB mod 2 ^ 31)))
    (unat (fst res)) (snd res)"
proof -
  define nA nB where "nA = unat uiA mod 2 ^ 31" and "nB = unat uiB mod 2 ^ 31"
  define d where "d = nB div 2 ^ 23 - nA div 2 ^ 23"
  have E: "nA div 2 ^ 23 < nB div 2 ^ 23" "nB div 2 ^ 23 < 255"
    using assms(1,2) index_div_less [of nB 255 23] unfolding nA_def nB_def by auto
  then have nB: "2 ^ 23 \<le> nB" by (metis div_less not_less_zero not_le)
  define a where "a = push_bit 6 (fracF32UI uiA) + (if expF32UI uiA \<noteq> 0 then 0x20000000 else push_bit 6 (fracF32UI uiA))"
  have a: "unat a = align_sig 23 6 nA" unfolding a_def nA_def by (rule unat_alignF32) simp_all
  have alt: "unat a < 2 ^ 30" unfolding a using align_sig_less [of 23 6 nA] by simp
  have eB: "expF32UI uiB = int (nB div 2 ^ 23)" unfolding nB_def by (rule expF32UI_index)
  have ed: "expF32UI uiB - expF32UI uiA = int d"
    using E unfolding expF32UI_index nA_def [symmetric] nB_def [symmetric] d_def by (simp add: of_nat_diff)
  have d0: "0 < d" "d < 255" using E unfolding d_def by linarith+
  then have d: "unat (word_of_int (int d) :: u64) = d" by (subst unat_word_of_int) simp_all
  define j :: u64 where "j = ucast (softfloat_shiftRightJam32 (ucast a) (word_of_int (int d)))"
  have j: "unat j = jam (align_sig 23 6 nA) d"
    unfolding j_def using alt d d0 a
    by (simp add: unat_ucast_up unat_shiftRightJam32 unat_ucast_small del: of_int_of_nat_eq)
  have b: "unat (0x20000000 + push_bit 6 (fracF32UI uiB)) = align_sig 23 6 nB"
    unfolding nB_def by (rule unat_alignF32) (use nB nB_def in simp_all)
  have z: "z = (0x20000000 + push_bit 6 (fracF32UI uiB)) + j"
    unfolding assms(3) a_def [symmetric] ed j_def [symmetric] by (simp add: ac_simps)
  obtain t where t: "agrees 1 t (align_sig 23 6 nB + jam (align_sig 23 6 nA) d)"
      "real (fmag 23 nA) + real (fmag 23 nB) = t * 2 powi (int (nB div 2 ^ 23) - 7)"
      "2 ^ 29 \<le> align_sig 23 6 nB + jam (align_sig 23 6 nA) d" "align_sig 23 6 nB + jam (align_sig 23 6 nA) d < 2 ^ 31"
    by (rule f32.add_aligned [OF E(1) _ refl]) (simp_all add: d_def)
  have uz: "unat z = align_sig 23 6 nB + jam (align_sig 23 6 nA) d"
    unfolding z using t(4) by (subst unat_add_small) (simp_all add: b j)
  show ?thesis
    unfolding nA_def [symmetric] nB_def [symmetric]
    by (rule roundPackToF32_norm1 [OF _ _ _ _ _ _ assms(4)])
       (use uz t E(2) eB agrees_mono [OF t(1), of 5] in simp_all)
qed

lemma addMagsF32_equal:
  assumes "unat uiA < 2 ^ 32" and "expF32UI uiA = expF32UI uiB" and "unat uiA mod 2 ^ 31 < fp_inf 23 255"
    and "res = softfloat_addMagsF32 uiA uiB st"
  shows "fl_result 23 255 st (signF32UI uiA)
    (real (fmag 23 (unat uiA mod 2 ^ 31)) + real (fmag 23 (unat uiB mod 2 ^ 31))) (unat (fst res)) (snd res)"
proof -
  define nA nB E where "nA = unat uiA mod 2 ^ 31" and "nB = unat uiB mod 2 ^ 31" and "E = nA div 2 ^ 23"
  have eA: "expF32UI uiA = int E" unfolding E_def nA_def by (rule expF32UI_index)
  have eB: "nB div 2 ^ 23 = E" using assms(2) unfolding eA expF32UI_index [of uiB] nB_def by simp
  have E: "E < 255" using assms(3) index_div_less [of nA 255 23] unfolding E_def nA_def by simp
  define fA fB where "fA = nA mod 2 ^ 23" and "fB = nB mod 2 ^ 23"
  have f: "fA < 2 ^ 23" "fB < 2 ^ 23" by (simp_all add: fA_def fB_def)
  have u: "unat (fracF32UI uiA) = fA" "unat (fracF32UI uiB) = fB"
    by (simp_all only: fracF32UI_index fA_def fB_def nA_def nB_def)
  have n: "nA = E * 2 ^ 23 + fA" "nB = E * 2 ^ 23 + fB"
    using div_mult_mod_eq [of nA "2 ^ 23"] div_mult_mod_eq [of nB "2 ^ 23"] unfolding eB fA_def fB_def E_def [symmetric] by simp_all
  have uiA: "unat uiA = of_bool (signF32UI uiA) * 2 ^ 31 + nA" unfolding nA_def by (rule unat_sign_index [OF assms(1)])
  show ?thesis
  proof (cases "E = 0")
    case True
    then have e: "res = (ucast (uiA + fracF32UI uiB), st)"
      unfolding assms(4) softfloat_addMagsF32_def Let_def using assms(2) eA by simp
    have a: "unat (uiA + fracF32UI uiB) = of_bool (signF32UI uiA) * 2 ^ 31 + (nA + nB)"
      using f n True uiA by (subst unat_add_small) (auto simp: u)
    have lt: "nA + nB < 2 ^ 24" using f n True by simp
    have "unat (ucast (uiA + fracF32UI uiB) :: u32) = of_bool (signF32UI uiA) * 2 ^ 31 + (nA + nB)"
      using lt by (subst unat_ucast_small) (auto simp: a)
    then show ?thesis unfolding e fst_conv snd_conv nA_def [symmetric] nB_def [symmetric]
      by (intro fl_result_pack [of "nA + nB" 23 0]) (use lt f n True in \<open>simp_all add: fmag_def\<close>)
  next
    case False
    define z where "z = 0x01000000 + fracF32UI uiA + fracF32UI uiB"
    have uz: "unat z = 2 ^ 24 + fA + fB"
      unfolding z_def using f by (subst unat_add_small; subst unat_add_small) (simp_all add: u)
    obtain e where e: "E = Suc e" using False by (cases E) auto
    have x: "real (fmag 23 nA) + real (fmag 23 nB) = real (unat z) * 2 ^ e"
      using f fmag_pack [of "2 ^ 23 + fA" 23 e] fmag_pack [of "2 ^ 23 + fB" 23 e]
      unfolding uz n e by (simp add: algebra_simps)
    have ev: "z AND 1 = 0 \<longleftrightarrow> even (unat z)" by (rule word_and_1_eq_0_iff)
    show ?thesis
    proof (cases "even (unat z) \<and> E < 254")
      case True
      define h where "h = unat z div 2"
      have h: "2 ^ 23 \<le> h" "h < 2 ^ 24" "unat z = 2 * h" using f uz True by (auto simp: h_def)
      have r: "res = (ucast (packToF32UI (signF32UI uiA) (int E) (drop_bit 1 z)), st)"
        unfolding assms(4) softfloat_addMagsF32_def Let_def using assms(2) eA False True E ev by (simp add: z_def)
      have d: "unat (drop_bit 1 z) = h" by (simp add: unat_drop_bit h_def)
      have i: "nat (int E) * 2 ^ 23 + unat (drop_bit 1 z) < 2 ^ 31"
        using pack_index_less [of h 23 E 256] h(2) True unfolding d by simp
      show ?thesis unfolding r fst_conv snd_conv nA_def [symmetric] nB_def [symmetric] x
        by (rule fl_result_pack [of h 23 E]) (use h True packF32_small [OF _ i] d e in simp_all)
    next
      case F: False
      have r: "res = softfloat_roundPackToF32 (signF32UI uiA) (int E) (push_bit 6 z) st"
        unfolding assms(4) softfloat_addMagsF32_def Let_def using assms(2) eA False F E ev by (auto simp: z_def)
      have p: "unat (push_bit 6 z) = unat z * 2 ^ 6" using f uz by (intro unat_push_bit) simp
      have "2 ^ e = 2 ^ 6 * (2::real) powi (int E - 7)" by (simp add: e power_int_diff power_int_add)
      then show ?thesis unfolding r nA_def [symmetric] nB_def [symmetric] x
        by (intro roundPackToF32_result [OF agrees_refl]) (use p uz f E in simp_all)
    qed
  qed
qed

lemma addMagsF32_result:
  assumes "unat uiA < 2 ^ 32" and "unat uiA mod 2 ^ 31 < fp_inf 23 255" and "unat uiB mod 2 ^ 31 < fp_inf 23 255"
  shows "fl_result 23 255 st (signF32UI uiA)
    (real (fmag 23 (unat uiA mod 2 ^ 31)) + real (fmag 23 (unat uiB mod 2 ^ 31)))
    (unat (fst (softfloat_addMagsF32 uiA uiB st))) (snd (softfloat_addMagsF32 uiA uiB st))"
proof (cases "expF32UI uiA" "expF32UI uiB" rule: linorder_cases)
  case equal
  then show ?thesis using addMagsF32_equal assms by blast
next
  case less
  have "expF32UI uiB \<noteq> 0xFF"
    using assms(3) index_div_less [of "unat uiB mod 2 ^ 31" 255 23] unfolding expF32UI_index by linarith
  then show ?thesis
    by (intro addMagsF32_result_less [OF _ assms(3) refl])
       (use less in \<open>simp_all add: softfloat_addMagsF32_def Let_def expF32UI_index\<close>)
next
  case greater
  have "expF32UI uiA \<noteq> 0xFF"
    using assms(2) index_div_less [of "unat uiA mod 2 ^ 31" 255 23] unfolding expF32UI_index by linarith
  then show ?thesis
    unfolding add.commute [of "real (fmag 23 (unat uiA mod 2 ^ 31))"]
    by (intro addMagsF32_result_less [OF _ assms(2) refl])
       (use greater in \<open>simp_all add: softfloat_addMagsF32_def Let_def expF32UI_index ac_simps\<close>)
qed

lemma subMagsF32_equal:
  assumes "unat uiA < 2 ^ 32" and "expF32UI uiA = expF32UI uiB" and "unat uiA mod 2 ^ 31 < fp_inf 23 255"
    and "res = softfloat_subMagsF32 uiA uiB st"
    and "nA = unat uiA mod 2 ^ 31" and "nB = unat uiB mod 2 ^ 31"
  shows "fl_result 23 255 st (if nA = nB then mode st = Round_min else signF32UI uiA \<noteq> (nA < nB))
    \<bar>real (fmag 23 nA) - real (fmag 23 nB)\<bar> (unat (fst res)) (snd res)"
proof -
  define E where "E = nA div 2 ^ 23"
  have eA: "expF32UI uiA = int E" unfolding E_def assms(5) by (rule expF32UI_index)
  have eB: "nB div 2 ^ 23 = E" using assms(2) unfolding eA expF32UI_index [of uiB] assms(6) by simp
  have E: "E < 255" using assms(3) index_div_less [of nA 255 23] unfolding E_def assms(5) by simp
  define fA fB where "fA = nA mod 2 ^ 23" and "fB = nB mod 2 ^ 23"
  have f: "fA < 2 ^ 23" "fB < 2 ^ 23" by (simp_all add: fA_def fB_def)
  have u: "unat (fracF32UI uiA) = fA" "unat (fracF32UI uiB) = fB"
    by (simp_all only: fracF32UI_index fA_def fB_def assms(5,6))
  have n: "nA = E * 2 ^ 23 + fA" "nB = E * 2 ^ 23 + fB"
    using div_mult_mod_eq [of nA "2 ^ 23"] div_mult_mod_eq [of nB "2 ^ 23"]
    unfolding eB fA_def fB_def E_def [symmetric] by simp_all
  have sd: "sint (fracF32UI uiA - fracF32UI uiB) = int fA - int fB"
    using f by (subst sint_diff_small) (simp_all add: u)
  show ?thesis
  proof (cases "fA = fB")
    case True
    have r: "res = (ucast (packToF32UI (softfloat_roundingMode st = softfloat_round_min) 0 0), st)"
      unfolding assms(4) softfloat_subMagsF32_def Let_def sd using assms(2) eA E True by simp
    have "unat (ucast (packToF32UI (softfloat_roundingMode st = softfloat_round_min) 0 0) :: u32) = of_bool (mode st = Round_min) * 2 ^ 31"
      by (subst packF32_small) (simp_all add: rmode_min_iff)
    then show ?thesis unfolding r fst_conv snd_conv
      by (intro fl_result_exact [of 0]) (use n True in simp_all)
  next
    case False
    define D where "D = nat \<bar>int fA - int fB\<bar>"
    define e where "e = E - 1"
    have D: "0 < D" "D < 2 ^ 23" using f False by (auto simp: D_def)
    have "real (fmag 23 nA) - real (fmag 23 nB) = (real fA - real fB) * 2 ^ e"
    proof (cases E)
      case 0
      then show ?thesis using f n by (simp add: fmag_def e_def)
    next
      case (Suc k)
      then show ?thesis
        using f fmag_pack [of "2 ^ 23 + fA" 23 k] fmag_pack [of "2 ^ 23 + fB" 23 k]
        unfolding n by (simp add: algebra_simps e_def)
    qed
    moreover have "\<bar>real fA - real fB\<bar> = real D" unfolding D_def by simp
    ultimately have x: "\<bar>real (fmag 23 nA) - real (fmag 23 nB)\<bar> = real D * 2 ^ e" by (simp add: abs_mult)
    define w :: u32 where "w = word_of_int (int D)"
    define v :: u64 where "v = word_of_int (int D)"
    have wv: "unat w = D" "unat v = D"
      unfolding w_def v_def using D by (subst unat_word_of_int; simp)+
    have wu: "w = ucast v" using wv D by (simp add: word_unat_eq_iff unat_ucast_small)
    define c where "c = unat (softfloat_countLeadingZeros32 w)"
    have cl: "c < 32" "2 ^ 31 \<le> D * 2 ^ c" "D * 2 ^ c < 2 ^ 32"
      using clz32_shift [of v] wv wu D unfolding c_def by simp_all
    have "8 < c"
    proof (rule ccontr)
      assume "\<not> 8 < c"
      then have "D * 2 ^ c \<le> D * 2 ^ 8" by (intro mult_le_mono2 power_increasing) auto
      from le_trans [OF cl(2) this] D(2) show False by simp
    qed
    then obtain h where h: "c = h + 8" by (metis add.commute le_add_diff_inverse less_imp_le)
    have hb: "2 ^ 23 \<le> D * 2 ^ h" "D * 2 ^ h < 2 ^ 24" using cl unfolding h power_add by simp_all
    have sh: "uint (softfloat_countLeadingZeros32 w) - 8 = int h" using h by (simp add: c_def uint_nat)
    define sZ where "sZ \<longleftrightarrow> signF32UI uiA \<noteq> (nA < nB)"
    have r: "res = (ucast (packToF32UI sZ (int (e - h)) (push_bit (if e < h then e else h) v)), st)"
    proof -
      have 1: "(if int E \<noteq> 0 then int E - 1 else int E) = int e" by (simp add: e_def)
      have 2: "(if int fA - int fB < 0 then (\<not> signF32UI uiA, - (int fA - int fB)) else (signF32UI uiA, int fA - int fB)) = (sZ, int D)"
        using n by (auto simp: sZ_def D_def)
      have 3: "expF32UI uiB = int E" using assms(2) eA by simp
      show ?thesis
        unfolding assms(4) softfloat_subMagsF32_def Let_def sd eA 3 1 2 prod.case w_def [symmetric] v_def [symmetric] sh
        using E False by (auto simp: of_nat_diff)
    qed
    define k where "k = D * 2 ^ (if e < h then e else h)"
    have "k \<le> D * 2 ^ h" unfolding k_def by (intro mult_le_mono2 power_increasing) auto
    then have k: "k < 2 ^ 24" using hb(2) by (rule le_less_trans)
    then have p: "unat (push_bit (if e < h then e else h) v) = k"
      unfolding k_def by (subst unat_push_bit; subst wv) (simp_all only: wv, simp)
    have k2: "2 ^ 23 \<le> k \<or> e - h = 0" unfolding k_def using hb(1) by simp
    have k3: "real D * 2 ^ e = real k * 2 ^ (e - h)" by (simp add: k_def flip: power_add)
    have eh: "(e - h) + 2 \<le> 255" using E by (simp add: e_def)
    have i: "nat (int (e - h)) * 2 ^ 23 + unat (push_bit (if e < h then e else h) v) < 2 ^ 31"
      unfolding p using pack_index_less [of k 23 "e - h" 255] k eh by simp
    show ?thesis unfolding r fst_conv snd_conv x
      by (rule fl_result_pack [of k 23 "e - h"])
         (use k k2 k3 eh packF32_small [OF _ i] n False in \<open>simp_all add: p sZ_def\<close>)
  qed
qed

lemma subMagsF32_less:
  assumes "unat uiA mod 2 ^ 31 div 2 ^ 23 < unat uiB mod 2 ^ 31 div 2 ^ 23" and "unat uiB mod 2 ^ 31 < fp_inf 23 255"
    and "z = (push_bit 7 (fracF32UI uiB) OR 0x40000000) -
      ucast (softfloat_shiftRightJam32 (ucast (push_bit 7 (fracF32UI uiA) + (if expF32UI uiA \<noteq> 0 then 0x40000000 else push_bit 7 (fracF32UI uiA)))) (word_of_int (expF32UI uiB - expF32UI uiA)))"
    and "res = softfloat_normRoundPackToF32 s (expF32UI uiB - 1) z st"
  shows "fl_result 23 255 st s (real (fmag 23 (unat uiB mod 2 ^ 31)) - real (fmag 23 (unat uiA mod 2 ^ 31)))
    (unat (fst res)) (snd res)"
proof -
  define nA nB where "nA = unat uiA mod 2 ^ 31" and "nB = unat uiB mod 2 ^ 31"
  define d where "d = nB div 2 ^ 23 - nA div 2 ^ 23"
  have E: "nA div 2 ^ 23 < nB div 2 ^ 23" "nB div 2 ^ 23 < 255"
    using assms(1,2) index_div_less [of nB 255 23] unfolding nA_def nB_def by auto
  then have nB: "2 ^ 23 \<le> nB" by (metis div_less not_less_zero not_le)
  define a where "a = push_bit 7 (fracF32UI uiA) + (if expF32UI uiA \<noteq> 0 then 0x40000000 else push_bit 7 (fracF32UI uiA))"
  have a: "unat a = align_sig 23 7 nA" unfolding a_def nA_def by (rule unat_alignF32) simp_all
  have alt: "unat a < 2 ^ 31" unfolding a using align_sig_less [of 23 7 nA] by simp
  have eB: "expF32UI uiB = int (nB div 2 ^ 23)" unfolding nB_def by (rule expF32UI_index)
  have ed: "expF32UI uiB - expF32UI uiA = int d"
    using E unfolding expF32UI_index nA_def [symmetric] nB_def [symmetric] d_def by (simp add: of_nat_diff)
  have d0: "0 < d" "d < 255" using E unfolding d_def by linarith+
  then have d: "unat (word_of_int (int d) :: u64) = d" by (subst unat_word_of_int) simp_all
  define j :: u64 where "j = ucast (softfloat_shiftRightJam32 (ucast a) (word_of_int (int d)))"
  have j: "unat j = jam (align_sig 23 7 nA) d"
    unfolding j_def using alt d d0 a
    by (simp add: unat_ucast_up unat_shiftRightJam32 unat_ucast_small del: of_int_of_nat_eq)
  have b: "unat (push_bit 7 (fracF32UI uiB) OR 0x40000000) = align_sig 23 7 nB"
    unfolding nB_def by (rule unat_alignF32) (use nB nB_def in simp_all)
  have z: "z = (push_bit 7 (fracF32UI uiB) OR 0x40000000) - j"
    unfolding assms(3) a_def [symmetric] ed j_def [symmetric] ..
  define k where "k = align_sig 23 7 nB - jam (align_sig 23 7 nA) d"
  obtain t where t: "t = real k \<or> agrees 5 t k \<and> 2 ^ 29 \<le> k"
      "real (fmag 23 nB) - real (fmag 23 nA) = t * 2 powi (int (nB div 2 ^ 23) - 1 - 7)"
      "k \<noteq> 0" "k < 2 ^ 31" "jam (align_sig 23 7 nA) d \<le> align_sig 23 7 nB"
    by (rule f32.sub_aligned [OF E(1) _ refl]) (simp_all add: d_def k_def)
  have uz: "unat z = k"
    unfolding z k_def using t(5) by (subst unat_minus_small) (simp_all add: b j)
  show ?thesis
    unfolding nA_def [symmetric] nB_def [symmetric] assms(4)
    by (rule normRoundPackToF32_result [of _ t]) (use uz t E(2) eB in simp_all)
qed

lemma subMagsF32_result:
  assumes "unat uiA < 2 ^ 32" and "unat uiA mod 2 ^ 31 < fp_inf 23 255" and "unat uiB mod 2 ^ 31 < fp_inf 23 255"
    and "nA = unat uiA mod 2 ^ 31" and "nB = unat uiB mod 2 ^ 31"
  shows "fl_result 23 255 st (if nA = nB then mode st = Round_min else signF32UI uiA \<noteq> (nA < nB))
    \<bar>real (fmag 23 nA) - real (fmag 23 nB)\<bar>
    (unat (fst (softfloat_subMagsF32 uiA uiB st))) (snd (softfloat_subMagsF32 uiA uiB st))"
proof (cases "expF32UI uiA" "expF32UI uiB" rule: linorder_cases)
  case equal
  then show ?thesis using subMagsF32_equal assms by blast
next
  case less
  then have E: "nA div 2 ^ 23 < nB div 2 ^ 23" unfolding expF32UI_index assms(4,5) by simp
  then have lt: "nA < nB" using div_le_mono [of nB nA "2 ^ 23"] by (meson not_le)
  have "expF32UI uiB \<noteq> 0xFF"
    using assms(3) index_div_less [of "unat uiB mod 2 ^ 31" 255 23] unfolding expF32UI_index by linarith
  then have "softfloat_subMagsF32 uiA uiB st = softfloat_normRoundPackToF32 (\<not> signF32UI uiA) (expF32UI uiB - 1)
     ((push_bit 7 (fracF32UI uiB) OR 0x40000000) -
      ucast (softfloat_shiftRightJam32 (ucast (push_bit 7 (fracF32UI uiA) + (if expF32UI uiA \<noteq> 0 then 0x40000000 else push_bit 7 (fracF32UI uiA)))) (word_of_int (expF32UI uiB - expF32UI uiA)))) st"
    unfolding softfloat_subMagsF32_def Let_def using less by simp
  from subMagsF32_less [OF E [unfolded assms(4,5)] assms(3) refl this] show ?thesis
    using lt by (simp add: assms(4,5))
next
  case greater
  then have E: "nB div 2 ^ 23 < nA div 2 ^ 23" unfolding expF32UI_index assms(4,5) by simp
  then have lt: "nB < nA" using div_le_mono [of nA nB "2 ^ 23"] by (meson not_le)
  have "expF32UI uiA \<noteq> 0xFF"
    using assms(2) index_div_less [of "unat uiA mod 2 ^ 31" 255 23] unfolding expF32UI_index by linarith
  then have "softfloat_subMagsF32 uiA uiB st = softfloat_normRoundPackToF32 (signF32UI uiA) (expF32UI uiA - 1)
     ((push_bit 7 (fracF32UI uiA) OR 0x40000000) -
      ucast (softfloat_shiftRightJam32 (ucast (push_bit 7 (fracF32UI uiB) + (if expF32UI uiB \<noteq> 0 then 0x40000000 else push_bit 7 (fracF32UI uiB)))) (word_of_int (expF32UI uiA - expF32UI uiB)))) st"
    unfolding softfloat_subMagsF32_def Let_def using greater by simp
  from subMagsF32_less [OF E [unfolded assms(4,5)] assms(2) refl this] show ?thesis
    using lt by (simp add: assms(4,5))
qed

lemma f32_add_correct:
  assumes "f32_finite a" and "f32_finite b"
  shows "f32_rounded st (if 2 ^ 31 \<le> unat a \<longleftrightarrow> 2 ^ 31 \<le> unat b then 2 ^ 31 \<le> unat a else mode st = Round_min)
    (f32_real a + f32_real b) (f32_add a b st)"
proof (cases "2 ^ 31 \<le> unat a \<longleftrightarrow> 2 ^ 31 \<le> unat b")
  case True
  let ?v = "real (fmag 23 (unat a mod 2 ^ 31)) + real (fmag 23 (unat b mod 2 ^ 31))"
  have x: "f32_real a + f32_real b = (if 2 ^ 31 \<le> unat a then - 1 else 1) * ?v / 2 ^ 149"
    using True unfolding f32_real_def add_divide_distrib [symmetric] by auto
  have e: "f32_add a b st = softfloat_addMagsF32 (ucast a) (ucast b) st"
    using True by (simp add: f32_add_def Let_def f32_sign_xor)
  show ?thesis unfolding e
    by (rule f32_roundedI [OF _ x, of st "2 ^ 31 \<le> unat a"])
       (use addMagsF32_result [of "ucast a" "ucast b" st] assms unat_f32_less [of a] True in \<open>auto simp: f32_finite_def\<close>)
next
  case False
  let ?v = "real (fmag 23 (unat a mod 2 ^ 31)) - real (fmag 23 (unat b mod 2 ^ 31))"
  have x: "f32_real a + f32_real b = (if 2 ^ 31 \<le> unat a then - 1 else 1) * ?v / 2 ^ 149"
    using False unfolding f32_real_def add_divide_distrib [symmetric] by auto
  have e: "f32_add a b st = softfloat_subMagsF32 (ucast a) (ucast b) st"
    using False by (simp add: f32_add_def Let_def f32_sign_xor)
  show ?thesis unfolding e
    by (rule f32_roundedI [OF _ x])
       (use subMagsF32_result [of "ucast a" "ucast b" _ _ st] assms unat_f32_less [of a] False in \<open>auto simp: f32_finite_def\<close>)
qed

lemma f32_sub_correct:
  assumes "f32_finite a" and "f32_finite b"
  shows "f32_rounded st (if 2 ^ 31 \<le> unat a \<longleftrightarrow> 2 ^ 31 \<le> unat b then mode st = Round_min else 2 ^ 31 \<le> unat a)
    (f32_real a - f32_real b) (f32_sub a b st)"
proof (cases "2 ^ 31 \<le> unat a \<longleftrightarrow> 2 ^ 31 \<le> unat b")
  case True
  let ?v = "real (fmag 23 (unat a mod 2 ^ 31)) - real (fmag 23 (unat b mod 2 ^ 31))"
  have x: "f32_real a - f32_real b = (if 2 ^ 31 \<le> unat a then - 1 else 1) * ?v / 2 ^ 149"
    using True unfolding f32_real_def diff_divide_distrib [symmetric] by auto
  have e: "f32_sub a b st = softfloat_subMagsF32 (ucast a) (ucast b) st"
    using True by (simp add: f32_sub_def Let_def f32_sign_xor)
  show ?thesis unfolding e
    by (rule f32_roundedI [OF _ x])
       (use subMagsF32_result [of "ucast a" "ucast b" _ _ st] assms unat_f32_less [of a] True in \<open>auto simp: f32_finite_def\<close>)
next
  case False
  let ?v = "real (fmag 23 (unat a mod 2 ^ 31)) + real (fmag 23 (unat b mod 2 ^ 31))"
  have x: "f32_real a - f32_real b = (if 2 ^ 31 \<le> unat a then - 1 else 1) * ?v / 2 ^ 149"
    using False unfolding f32_real_def diff_divide_distrib [symmetric] by auto
  have e: "f32_sub a b st = softfloat_addMagsF32 (ucast a) (ucast b) st"
    using False by (simp add: f32_sub_def Let_def f32_sign_xor)
  show ?thesis unfolding e
    by (rule f32_roundedI [OF _ x, of st "2 ^ 31 \<le> unat a"])
       (use addMagsF32_result [of "ucast a" "ucast b" st] assms unat_f32_less [of a] False in \<open>auto simp: f32_finite_def\<close>)
qed

lemma f32_normalize_eq:
  assumes "n = unat ui mod 2 ^ 31" and "0 < n" and "n < fp_inf 23 255"
    and "f32_normalize (expF32UI ui) (fracF32UI ui) = (e, s)"
  shows "2 ^ 23 \<le> unat (s OR 0x00800000)" and "unat (s OR 0x00800000) < 2 ^ 24"
    and "real (fmag 23 n) = real (unat (s OR 0x00800000)) * 2 powi (e - 1)" and "- 23 < e" and "e < 255"
proof -
  define E f where "E = n div 2 ^ 23" and "f = n mod 2 ^ 23"
  have E: "expF32UI ui = int E" unfolding E_def assms(1) by (rule expF32UI_index)
  have f: "unat (fracF32UI ui) = f" "f < 2 ^ 23" unfolding f_def assms(1) by (simp_all add: fracF32UI_index)
  have Elt: "E < 255" using assms(3) index_div_less [of n 255 23] by (simp add: E_def)
  have n: "n = E * 2 ^ 23 + f" unfolding E_def f_def by (simp only: div_mult_mod_eq)
  have "(2 ^ 23 \<le> unat (s OR 0x00800000) \<and> unat (s OR 0x00800000) < 2 ^ 24) \<and>
    real (fmag 23 n) = real (unat (s OR 0x00800000)) * 2 powi (e - 1) \<and> - 23 < e \<and> e < 255"
  proof (cases "E = 0")
    case True
    then have "0 < unat (fracF32UI ui)" "unat (fracF32UI ui) < 2 ^ 23" using assms(2) n f by simp_all
    then obtain h where h: "exp_f32 (softfloat_normSubnormalF32Sig (fracF32UI ui)) = 1 - int h" "h < 24"
      "unat (sig_f32 (softfloat_normSubnormalF32Sig (fracF32UI ui))) = f * 2 ^ h"
      "2 ^ 23 \<le> f * 2 ^ h" "f * 2 ^ h < 2 ^ 24"
      unfolding f(1) [symmetric] by (rule normSubnormalF32Sig_eq)
    have es: "e = 1 - int h" "unat s = f * 2 ^ h"
      using assms(4) True E h by (simp_all add: f32_normalize_def Let_def)
    have "unat (s OR 0x00800000) = unat s" by (rule unat_or_top [of 23]) (use es h in simp_all)
    then show ?thesis using es h n f(2) True by (simp add: fmag_def power_int_minus)
  next
    case False
    then have es: "e = int E" "s = fracF32UI ui" using assms(4) E by (simp_all add: f32_normalize_def)
    have "unat (s OR 0x00800000) = f + 2 ^ 23"
      unfolding es using f by (subst unat_or_disjoint [of _ 23]) simp_all
    moreover obtain k where k: "E = Suc k" using False by (cases E) auto
    moreover have "fmag 23 n = (f + 2 ^ 23) * 2 ^ k"
      using fmag_pack [of "f + 2 ^ 23" 23 k] f(2) by (simp add: n k algebra_simps)
    ultimately show ?thesis using f(2) Elt es by simp
  qed
  then show "2 ^ 23 \<le> unat (s OR 0x00800000)" and "unat (s OR 0x00800000) < 2 ^ 24"
    and "real (fmag 23 n) = real (unat (s OR 0x00800000)) * 2 powi (e - 1)" and "- 23 < e" and "e < 255" by auto
qed

lemma f32_mul_correct:
  assumes "f32_finite a" and "f32_finite b"
  shows "f32_rounded st ((2 ^ 31 \<le> unat a) \<noteq> (2 ^ 31 \<le> unat b)) (f32_real a * f32_real b) (f32_mul a b st)"
proof -
  define nA nB where "nA = unat a mod 2 ^ 31" and "nB = unat b mod 2 ^ 31"
  define sZ where "sZ \<longleftrightarrow> (2 ^ 31 \<le> unat a) \<noteq> (2 ^ 31 \<le> unat b)"
  define v where "v = real (fmag 23 nA) * real (fmag 23 nB) / 2 ^ 149"
  have x: "f32_real a * f32_real b = (if sZ then - 1 else 1) * v / 2 ^ 149"
    by (simp add: f32_real_def v_def nA_def nB_def sZ_def)
  have v0: "0 \<le> v" by (simp add: v_def)
  note fe = assms [THEN f32_finite_exp]
  have inf: "nA < fp_inf 23 255" "nB < fp_inf 23 255" using assms by (simp_all add: f32_finite_def nA_def nB_def)
  have z0: "expF32UI (ucast a) = 0 \<and> fracF32UI (ucast a) = 0 \<longleftrightarrow> nA = 0"
      "expF32UI (ucast b) = 0 \<and> fracF32UI (ucast b) = 0 \<longleftrightarrow> nB = 0"
    unfolding f32_nonzero_iff nA_def nB_def by simp_all
  have "fl_result 23 255 st sZ v (unat (fst (f32_mul a b st))) (snd (f32_mul a b st))"
  proof (cases "nA = 0 \<or> nB = 0")
    case True
    have e: "f32_mul a b st = (ucast (packToF32UI sZ 0 0), st)"
      using True fe unfolding f32_mul_def Let_def z0 f32_sign sZ_def by (auto simp only: if_False if_True refl if_cancel)
    have "v = 0" using True by (auto simp: v_def)
    then show ?thesis unfolding e fst_conv snd_conv
      by (intro fl_result_exact [of 0]) (simp_all add: packF32_small)
  next
    case False
    obtain eA sA where nmA: "f32_normalize (expF32UI (ucast a)) (fracF32UI (ucast a)) = (eA, sA)" by fastforce
    obtain eB sB where nmB: "f32_normalize (expF32UI (ucast b)) (fracF32UI (ucast b)) = (eB, sB)" by fastforce
    define wA wB where "wA = sA OR 0x00800000" and "wB = sB OR 0x00800000"
    define gA gB where "gA = unat wA" and "gB = unat wB"
    have A: "2 ^ 23 \<le> gA" "gA < 2 ^ 24" "real (fmag 23 nA) = real gA * 2 powi (eA - 1)" "- 23 < eA" "eA < 255"
      unfolding gA_def wA_def by (rule f32_normalize_eq [OF _ _ inf(1) nmA]; use False nA_def in simp)+
    have B: "2 ^ 23 \<le> gB" "gB < 2 ^ 24" "real (fmag 23 nB) = real gB * 2 powi (eB - 1)" "- 23 < eB" "eB < 255"
      unfolding gB_def wB_def by (rule f32_normalize_eq [OF _ _ inf(2) nmB]; use False nB_def in simp)+
    define z where "z = softfloat_shortShiftRightJam64 (push_bit 7 wA * push_bit 8 wB) 32"
    have e: "f32_mul a b st = (if z < 0x40000000 then softfloat_roundPackToF32 sZ (eA + eB - 0x7F - 1) (push_bit 1 z) st
        else softfloat_roundPackToF32 sZ (eA + eB - 0x7F) z st)"
      using False fe unfolding f32_mul_def Let_def z0 nmA nmB prod.case f32_sign sZ_def wA_def [symmetric] wB_def [symmetric] z_def [symmetric] by (simp only: if_False de_Morgan_disj)
    have p: "2 ^ 46 \<le> gA * gB" "gA * gB < 2 ^ 48"
      using mult_le_mono [OF A(1) B(1)] mult_strict_mono [OF A(2) B(2)] by simp_all
    have u: "unat (push_bit 7 wA) = gA * 2 ^ 7" "unat (push_bit 8 wB) = gB * 2 ^ 8"
      using A(2) B(2) unfolding gA_def gB_def by (intro unat_push_bit; simp)+
    have m: "unat (push_bit 7 wA * push_bit 8 wB) = gA * gB * 2 ^ 15"
      using p(2) by (subst unat_mult_small) (simp_all add: u)
    have uz: "unat z = jam (gA * gB * 2 ^ 15) 32"
      unfolding z_def by (subst unat_shortShiftRightJam64) (simp_all add: m)
    define t where "t = real (gA * gB * 2 ^ 15) / 2 ^ 32"
    have lo: "2 ^ 29 \<le> unat z" and hi: "unat z < 2 ^ 31"
      unfolding uz using p jam_less_iff(1) [of "2 ^ 29" "gA * gB * 2 ^ 15" 32] jam_less_iff(1) [of "2 ^ 31" "gA * gB * 2 ^ 15" 32]
      by (simp_all add: not_less [symmetric])
    have tv: "v = t * 2 powi (eA + eB - 0x7F - 7)"
      unfolding v_def t_def A(3) B(3) by (simp add: power_int_diff power_int_add field_simps)
    show ?thesis unfolding e
      by (rule roundPackToF32_norm1 [OF _ lo hi _ _ tv refl])
         (use A B agrees_mono [OF agrees_jam_nat, of 5 "gA * gB * 2 ^ 15" 32] in \<open>simp_all add: uz t_def\<close>)
  qed
  then show ?thesis using v0
    by (intro f32_roundedI [OF _ x]) (auto simp: sZ_def)
qed

lemma f32_div_correct:
  assumes "f32_finite a" and "f32_finite b" and "f32_real b \<noteq> 0"
  shows "f32_rounded st ((2 ^ 31 \<le> unat a) \<noteq> (2 ^ 31 \<le> unat b)) (f32_real a / f32_real b) (f32_div a b st)"
proof -
  define nA nB where "nA = unat a mod 2 ^ 31" and "nB = unat b mod 2 ^ 31"
  define sZ where "sZ \<longleftrightarrow> (2 ^ 31 \<le> unat a) \<noteq> (2 ^ 31 \<le> unat b)"
  define v where "v = real (fmag 23 nA) / real (fmag 23 nB) * 2 ^ 149"
  have x: "f32_real a / f32_real b = (if sZ then - 1 else 1) * v / 2 ^ 149"
    by (simp add: f32_real_def v_def nA_def nB_def sZ_def)
  have v0: "0 \<le> v" by (simp add: v_def)
  have nB0: "nB \<noteq> 0" using assms(3) by (auto simp: f32_real_def nB_def)
  note fe = assms(1,2) [THEN f32_finite_exp]
  have inf: "nA < fp_inf 23 255" "nB < fp_inf 23 255" using assms by (simp_all add: f32_finite_def nA_def nB_def)
  have z0: "expF32UI (ucast a) = 0 \<and> fracF32UI (ucast a) = 0 \<longleftrightarrow> nA = 0"
      "expF32UI (ucast b) = 0 \<and> fracF32UI (ucast b) = 0 \<longleftrightarrow> nB = 0"
    unfolding f32_nonzero_iff nA_def nB_def by simp_all
  have "fl_result 23 255 st sZ v (unat (fst (f32_div a b st))) (snd (f32_div a b st))"
  proof (cases "nA = 0")
    case True
    have e: "f32_div a b st = (ucast (packToF32UI sZ 0 0), st)"
      using True nB0 fe unfolding f32_div_def Let_def z0 f32_sign sZ_def by (auto simp only: if_False if_True refl)
    have "v = 0" using True by (auto simp: v_def)
    then show ?thesis unfolding e fst_conv snd_conv
      by (intro fl_result_exact [of 0]) (simp_all add: packF32_small)
  next
    case False
    obtain eA sA where nmA: "f32_normalize (expF32UI (ucast a)) (fracF32UI (ucast a)) = (eA, sA)" by fastforce
    obtain eB sB where nmB: "f32_normalize (expF32UI (ucast b)) (fracF32UI (ucast b)) = (eB, sB)" by fastforce
    define wA wB where "wA = sA OR 0x00800000" and "wB = sB OR 0x00800000"
    define gA gB where "gA = unat wA" and "gB = unat wB"
    have A: "2 ^ 23 \<le> gA" "gA < 2 ^ 24" "real (fmag 23 nA) = real gA * 2 powi (eA - 1)" "- 23 < eA" "eA < 255"
      unfolding gA_def wA_def by (rule f32_normalize_eq [OF _ _ inf(1) nmA]; use False nA_def in simp)+
    have B: "2 ^ 23 \<le> gB" "gB < 2 ^ 24" "real (fmag 23 nB) = real gB * 2 powi (eB - 1)" "- 23 < eB" "eB < 255"
      unfolding gB_def wB_def by (rule f32_normalize_eq [OF _ _ inf(2) nmB]; use nB0 nB_def in simp)+
    define l :: nat where "l = (if gA < gB then 31 else 30)"
    define m where "m = push_bit l wA"
    define q where "q = (if m div wB AND 0x3F = 0 then m div wB OR of_bool (wB * (m div wB) \<noteq> m) else m div wB)"
    have e: "f32_div a b st = softfloat_roundPackToF32 sZ (if gA < gB then eA - eB + 0x7E - 1 else eA - eB + 0x7E) q st"
      using False nB0 fe
      unfolding f32_div_def Let_def z0 nmA nmB prod.case f32_sign sZ_def [symmetric] wA_def [symmetric] wB_def [symmetric]
      by (auto simp: q_def m_def l_def gA_def gB_def word_less_nat_alt)
    have l: "gA * 2 ^ l < 2 ^ 55" using A(2) by (simp add: l_def)
    then have m: "unat m = gA * 2 ^ l" unfolding m_def gA_def by (intro unat_push_bit) simp
    define n where "n = gA * 2 ^ l"
    have md: "unat (m div wB) = n div gB" by (simp add: unat_div m gB_def n_def)
    have lo: "2 ^ 30 * gB \<le> n" and hi: "n < 2 ^ 31 * gB"
      using A B unfolding n_def l_def by auto
    have uq: "unat q = n div gB + of_bool ((n div gB) mod 2 ^ 6 = 0 \<and> n mod gB \<noteq> 0)"
    proof -
      have "unat (m div wB AND 0x3F) = n div gB mod 2 ^ 6" using unat_and_mask [of "m div wB" 6] by (simp add: md)
      then have 1: "m div wB AND 0x3F = 0 \<longleftrightarrow> n div gB mod 2 ^ 6 = 0" by (metis unat_eq_0)
      have "unat (wB * (m div wB)) = gB * (n div gB)"
        using l by (subst unat_mult_small) (auto simp: md gB_def [symmetric] n_def intro: le_less_trans [OF times_div_less_eq_dividend])
      then have "wB * (m div wB) = m \<longleftrightarrow> gB * (n div gB) = n" by (simp only: word_unat_eq_iff m n_def)
      also have "\<dots> \<longleftrightarrow> n mod gB = 0" by (metis add_cancel_left_right mult_div_mod_eq)
      finally have 2: "wB * (m div wB) = m \<longleftrightarrow> n mod gB = 0" .
      have 3: "n div gB mod 2 ^ 6 = 0 \<Longrightarrow> even (n div gB)" by (metis dvd_mod_iff dvd_0_right dvd_power zero_less_numeral)
      show ?thesis unfolding q_def 1 2 using 3 by (auto simp: unat_or_of_bool md)
    qed
    have qb: "2 ^ 30 \<le> n div gB" "n div gB < 2 ^ 31"
      using lo hi B(1) by (simp_all add: less_eq_div_iff_mult_less_eq div_less_iff_less_mult)
    then have "2 ^ 30 \<le> unat q" "unat q < 2 ^ 31"
      unfolding uq by (auto simp: of_bool_def)
    moreover have "agrees 6 (real n / real gB) (unat q)" unfolding uq using B(1) by (intro agrees_div) simp_all
    moreover have "v = real n / real gB * 2 powi ((if gA < gB then eA - eB + 0x7E - 1 else eA - eB + 0x7E) - 7)"
      unfolding v_def A(3) B(3) n_def l_def by (auto simp: power_int_diff power_int_add field_simps)
    ultimately show ?thesis unfolding e
      by (intro roundPackToF32_result) (use A B in auto)
  qed
  then show ?thesis using v0
    by (intro f32_roundedI [OF _ x]) (auto simp: sZ_def)
qed

end
