(* ===== verification/F32_Special.thy ===== *)
theory F32_Special
  imports F32_Arith F32_Compare
begin

text \<open>
  The 32-bit arithmetic operations on NaNs, infinities and zero divisors: what they return and
  which exceptions they raise.
\<close>

definition f32_inf :: "float32_t \<Rightarrow> bool" where
  "f32_inf a \<longleftrightarrow> unat a mod 2 ^ 31 = fp_inf 23 255"

definition f32_negative :: "float32_t \<Rightarrow> bool" where
  "f32_negative a \<longleftrightarrow> 2 ^ 31 \<le> unat a"

definition f32_infinity :: "bool \<Rightarrow> float32_t" where
  "f32_infinity s = (if s then 0xFF800000 else 0x7F800000)"

definition f32_zero :: "bool \<Rightarrow> float32_t" where
  "f32_zero s = (if s then 0x80000000 else 0)"

text \<open>The first NaN operand with its quiet bit set; a signaling operand raises the invalid flag.\<close>

definition f32_nan_result :: "float32_t \<Rightarrow> float32_t \<Rightarrow> softfloat_state \<Rightarrow> float32_t \<times> softfloat_state" where
  "f32_nan_result a b st =
     ((if f32_nan a then a else b) OR 0x00400000,
      if f32_snan a \<or> f32_snan b then softfloat_raiseFlags softfloat_flag_invalid st else st)"

lemma f32_snan_nan: "f32_snan a \<Longrightarrow> f32_nan a"
  by (simp add: f32_snan_def)

lemma ucast_f32_back [simp]: "(ucast (ucast (a :: float32_t) :: uint_fast32) :: float32_t) = a"
  by (rule bit_word_eqI) (auto simp: bit_simps)

lemma f32_propagate: "f32_propagateNaN (ucast a) (ucast b) st = f32_nan_result a b st"
proof -
  have u: "(ucast (w OR v :: u64) :: u32) = ucast w OR ucast v" for w v
    by (rule bit_word_eqI) (auto simp: bit_simps)
  show ?thesis using f32_snan_nan [of a]
    by (auto simp: f32_propagateNaN_def softfloat_propagateNaNF32UI_def f32_nan_result_def Let_def u)
qed

text \<open>The fields tell the classes apart.\<close>

lemma f32_exp_max: "expF32UI (ucast (a :: float32_t)) = 0xFF \<longleftrightarrow> f32_nan a \<or> f32_inf a"
  and f32_frac_zero: "expF32UI (ucast a) = 0xFF \<Longrightarrow> fracF32UI (ucast a) = 0 \<longleftrightarrow> f32_inf a"
  and f32_inf_not_nan: "f32_inf a \<Longrightarrow> \<not> f32_nan a"
proof -
  define n where "n = unat a mod 2 ^ 31"
  have n: "n < 2 ^ 31" by (simp add: n_def)
  have e: "expF32UI (ucast a) = int (n div 2 ^ 23)" unfolding n_def by (simp add: expF32UI_index)
  have f: "fracF32UI (ucast a) = 0 \<longleftrightarrow> n mod 2 ^ 23 = 0"
    unfolding n_def by (simp add: word_unat_eq_iff fracF32UI_index)
  have d: "n div 2 ^ 23 = 255 \<longleftrightarrow> 255 * 2 ^ 23 \<le> n"
    using n by (auto simp: div_nat_eqI dest: div_le_mono [of "255 * 2 ^ 23" n "2 ^ 23"])
  have "n div 2 ^ 23 * 2 ^ 23 + n mod 2 ^ 23 = n" by (rule div_mult_mod_eq)
  then show "expF32UI (ucast a) = 0xFF \<longleftrightarrow> f32_nan a \<or> f32_inf a"
    and "expF32UI (ucast a) = 0xFF \<Longrightarrow> fracF32UI (ucast a) = 0 \<longleftrightarrow> f32_inf a"
    and "f32_inf a \<Longrightarrow> \<not> f32_nan a"
    unfolding e f f32_nan_def f32_inf_def n_def [symmetric] using d by auto
qed

lemma f32_zero_iff_fields: "expF32UI (ucast (a :: float32_t)) = 0 \<and> fracF32UI (ucast a) = 0 \<longleftrightarrow> f32_real a = 0"
  unfolding f32_nonzero_iff f32_real_def by simp

lemma f32_magBits_zero: "word_of_int (expF32UI (ucast (a :: float32_t))) OR fracF32UI (ucast a) = (0 :: u64) \<longleftrightarrow> f32_real a = 0"
proof -
  have "expF32UI (ucast a) = int (unat a div 2 ^ 23 mod 256)" using expF32UI_eq [of "ucast a"] by simp
  then have "(word_of_int (expF32UI (ucast a)) :: u64) = 0 \<longleftrightarrow> expF32UI (ucast a) = 0"
    using unat_word_of_int [where 'a = 64, of "expF32UI (ucast a)"] by (simp add: word_unat_eq_iff)
  then show ?thesis unfolding or_eq_0_iff f32_zero_iff_fields [symmetric] by simp
qed

lemma f32_pack_inf: "ucast (packToF32UI s 0xFF 0) = f32_infinity s"
  and f32_pack_zero: "ucast (packToF32UI s 0 0) = f32_zero s"
  by (cases s; simp add: packToF32UI_def f32_infinity_def f32_zero_def)+

lemma f32_inf_eq:
  assumes "f32_inf a"
  shows "a = f32_infinity (f32_negative a)"
proof -
  have "unat a = of_bool (f32_negative a) * 2 ^ 31 + 255 * 2 ^ 23"
    using unat_sign_index [of "ucast a"] unat_f32_less [of a] assms by (simp add: f32_inf_def f32_negative_def)
  then show ?thesis by (cases "f32_negative a") (simp_all add: word_unat_eq_iff f32_infinity_def)
qed

lemmas f32_special_simps = f32_exp_max f32_frac_zero f32_inf_not_nan f32_propagate f32_pack_inf f32_pack_zero
  f32_zero_iff_fields f32_magBits_zero or_eq_0_iff

lemma f32_frac_shift: "k \<le> 7 \<Longrightarrow> push_bit k (fracF32UI w) = 0 \<longleftrightarrow> fracF32UI w = 0"
proof -
  assume "k \<le> 7"
  then have "(2::nat) ^ k \<le> 2 ^ 7" by (intro power_increasing) auto
  moreover have "unat (fracF32UI w) < 2 ^ 23" by (simp add: unat_fracF32UI)
  ultimately have "unat (fracF32UI w) * 2 ^ k < 2 ^ 23 * 2 ^ 7" by (intro mult_less_le_imp_less) auto
  then have "unat (push_bit k (fracF32UI w)) = unat (fracF32UI w) * 2 ^ k" by (subst unat_push_bit) simp_all
  then show ?thesis by (simp add: word_unat_eq_iff)
qed

section \<open>NaN operands\<close>

lemma f32_arith_nan:
  assumes "f32_nan a \<or> f32_nan b"
  shows "f32_add a b st = f32_nan_result a b st" and "f32_sub a b st = f32_nan_result a b st"
    and "f32_mul a b st = f32_nan_result a b st" and "f32_div a b st = f32_nan_result a b st"
proof -
  define eA eB where "eA = expF32UI (ucast a)" and "eB = expF32UI (ucast b)"
  have le: "eA \<le> 0xFF" "eB \<le> 0xFF" using expF32UI_eq [of "ucast a"] expF32UI_eq [of "ucast b"] by (simp_all add: eA_def eB_def)
  have nan: "f32_nan c \<Longrightarrow> expF32UI (ucast c) = 0xFF \<and> fracF32UI (ucast c) \<noteq> 0" for c
    using f32_exp_max [of c] f32_frac_zero [of c] f32_inf_not_nan [of c] by auto
  have shift: "push_bit 6 (fracF32UI w) = 0 \<longleftrightarrow> fracF32UI w = 0" "push_bit 7 (fracF32UI w) = 0 \<longleftrightarrow> fracF32UI w = 0" for w
    by (simp_all only: f32_frac_shift order_refl numeral_le_iff semiring_norm)
  note defs = softfloat_addMagsF32_def softfloat_subMagsF32_def Let_def f32_propagate eA_def [symmetric] eB_def [symmetric]
  consider (eq) "eA = 0xFF" "eB = 0xFF" "fracF32UI (ucast a) \<noteq> 0 \<or> fracF32UI (ucast b) \<noteq> 0"
    | (less) "eA < eB" "eB = 0xFF" "fracF32UI (ucast b) \<noteq> 0" | (greater) "eB < eA" "eA = 0xFF" "fracF32UI (ucast a) \<noteq> 0"
    using assms nan [of a] nan [of b] le by (fastforce simp: eA_def eB_def)
  then have ad: "softfloat_addMagsF32 (ucast a) (ucast b) st = f32_nan_result a b st \<and> softfloat_subMagsF32 (ucast a) (ucast b) st = f32_nan_result a b st"
  proof cases
    case eq
    then show ?thesis unfolding defs by (simp add: or_eq_0_iff)
  next
    case less
    then show ?thesis unfolding defs shift by simp
  next
    case greater
    then show ?thesis unfolding defs shift by simp
  qed
  then show "f32_add a b st = f32_nan_result a b st" and "f32_sub a b st = f32_nan_result a b st"
    by (simp_all add: f32_add_def f32_sub_def Let_def)
  show "f32_mul a b st = f32_nan_result a b st"
    unfolding f32_mul_def Let_def f32_propagate using assms nan [of a] nan [of b] by (cases "f32_nan a") auto
  show "f32_div a b st = f32_nan_result a b st"
    unfolding f32_div_def Let_def f32_propagate using assms nan [of a] nan [of b] by (cases "f32_nan a") auto
qed

section \<open>Infinities and zero divisors\<close>

lemma f32_inf_fields:
  assumes "\<not> f32_nan a"
  shows "expF32UI (ucast a) = 0xFF \<longleftrightarrow> f32_inf a" and "f32_inf a \<Longrightarrow> fracF32UI (ucast a) = 0"
    and "\<not> f32_inf a \<Longrightarrow> expF32UI (ucast a) < 0xFF"
proof -
  show e: "expF32UI (ucast a) = 0xFF \<longleftrightarrow> f32_inf a" using assms by (simp add: f32_exp_max)
  then show "f32_inf a \<Longrightarrow> fracF32UI (ucast a) = 0" by (simp add: f32_frac_zero)
  have "expF32UI (ucast a) \<le> 0xFF" using expF32UI_eq [of "ucast a"] by simp
  then show "\<not> f32_inf a \<Longrightarrow> expF32UI (ucast a) < 0xFF" using e by linarith
qed

lemma f32_addMags_inf:
  assumes "\<not> f32_nan a" and "\<not> f32_nan b" and "f32_inf a \<or> f32_inf b"
  shows "softfloat_addMagsF32 (ucast a) (ucast b) st = (f32_infinity (f32_negative a), st)"
    and "softfloat_subMagsF32 (ucast a) (ucast b) st =
      (if f32_inf a \<and> f32_inf b then f32_invalid st else (f32_infinity (if f32_inf a then f32_negative a else \<not> f32_negative a), st))"
proof -
  define eA eB where "eA = expF32UI (ucast a)" and "eB = expF32UI (ucast b)"
  note ia = f32_inf_fields [OF assms(1), folded eA_def] and ib = f32_inf_fields [OF assms(2), folded eB_def]
  have shift: "push_bit 6 (0 :: u64) = 0" "push_bit 7 (0 :: u64) = 0" by simp_all
  note defs = softfloat_addMagsF32_def softfloat_subMagsF32_def Let_def f32_pack_inf eA_def [symmetric] eB_def [symmetric]
  consider (both) "f32_inf a" "f32_inf b" | (a) "f32_inf a" "\<not> f32_inf b" "eB < eA" | (b) "\<not> f32_inf a" "f32_inf b" "eA < eB"
    using assms(3) ia ib by fastforce
  then have "softfloat_addMagsF32 (ucast a) (ucast b) st = (f32_infinity (f32_negative a), st) \<and>
    softfloat_subMagsF32 (ucast a) (ucast b) st =
      (if f32_inf a \<and> f32_inf b then f32_invalid st else (f32_infinity (if f32_inf a then f32_negative a else \<not> f32_negative a), st))"
  proof cases
    case both
    then show ?thesis unfolding defs using ia ib f32_inf_eq [OF both(1)] by simp
  next
    case a
    then show ?thesis unfolding defs using ia f32_inf_eq [OF a(1)] by simp
  next
    case b
    then show ?thesis unfolding defs using ib by (simp add: f32_negative_def)
  qed
  then show "softfloat_addMagsF32 (ucast a) (ucast b) st = (f32_infinity (f32_negative a), st)"
    and "softfloat_subMagsF32 (ucast a) (ucast b) st =
      (if f32_inf a \<and> f32_inf b then f32_invalid st else (f32_infinity (if f32_inf a then f32_negative a else \<not> f32_negative a), st))"
    by blast+
qed

lemma f32_add_inf:
  assumes "\<not> f32_nan a" and "\<not> f32_nan b" and "f32_inf a \<or> f32_inf b"
  shows "f32_add a b st =
      (if f32_inf a \<and> f32_inf b \<and> f32_negative a \<noteq> f32_negative b then f32_invalid st
       else (f32_infinity (if f32_inf a then f32_negative a else f32_negative b), st))"
    and "f32_sub a b st =
      (if f32_inf a \<and> f32_inf b \<and> f32_negative a = f32_negative b then f32_invalid st
       else (f32_infinity (if f32_inf a then f32_negative a else \<not> f32_negative b), st))"
  unfolding f32_add_def f32_sub_def Let_def f32_sign_xor f32_negative_def [symmetric] f32_addMags_inf [OF assms]
  using assms(3) by auto

lemma f32_mul_inf:
  assumes "\<not> f32_nan a" and "\<not> f32_nan b" and "f32_inf a \<or> f32_inf b"
  shows "f32_mul a b st =
      (if \<not> f32_inf a \<and> f32_real a = 0 \<or> \<not> f32_inf b \<and> f32_real b = 0 then f32_invalid st
       else (f32_infinity (f32_negative a \<noteq> f32_negative b), st))"
proof -
  note ia = f32_inf_fields [OF assms(1)] and ib = f32_inf_fields [OF assms(2)]
  have nz: "f32_inf c \<Longrightarrow> f32_real c \<noteq> 0" for c by (simp add: f32_real_def f32_inf_def)
  show ?thesis
    unfolding f32_mul_def Let_def f32_pack_inf f32_magBits_zero f32_sign f32_negative_def [symmetric]
    using assms(3) ia ib nz [of a] nz [of b] by (cases "f32_inf a"; cases "f32_inf b") simp_all
qed

lemma f32_div_special:
  assumes "\<not> f32_nan a" and "\<not> f32_nan b" and "f32_inf a \<or> f32_inf b \<or> f32_real b = 0"
  shows "f32_div a b st =
      (if f32_inf a \<and> f32_inf b \<or> \<not> f32_inf a \<and> f32_real a = 0 \<and> f32_real b = 0 then f32_invalid st
       else if f32_inf a then (f32_infinity (f32_negative a \<noteq> f32_negative b), st)
       else if f32_inf b then (f32_zero (f32_negative a \<noteq> f32_negative b), st)
       else (f32_infinity (f32_negative a \<noteq> f32_negative b), softfloat_raiseFlags softfloat_flag_infinite st))"
proof -
  note ia = f32_inf_fields [OF assms(1)] and ib = f32_inf_fields [OF assms(2)]
  have nz: "f32_inf c \<Longrightarrow> f32_real c \<noteq> 0" for c by (simp add: f32_real_def f32_inf_def)
  show ?thesis
    unfolding f32_div_def Let_def f32_pack_inf f32_pack_zero f32_zero_iff_fields f32_magBits_zero f32_sign f32_negative_def [symmetric]
    using assms(3) ia ib nz [of a] nz [of b] by (cases "f32_inf a"; cases "f32_inf b") simp_all
qed

end
