(* ===== verification/F64_Arith.thy ===== *)
theory F64_Arith
  imports F64_Format
begin

text \<open>
  Addition, subtraction, multiplication and division of 64-bit numbers (\<open>s_addMagsF64.c\<close>,
  \<open>s_subMagsF64.c\<close>, \<open>f64_add.c\<close>, \<open>f64_sub.c\<close>, \<open>f64_mul.c\<close>, \<open>f64_div.c\<close>), and the proof that the
  first three return the exact result correctly rounded, with exactly the exceptions of IEEE 754.
\<close>

text \<open>The exit through the label \<open>propagateNaN\<close>, and the one that raises the invalid exception.\<close>

definition f64_propagateNaN :: "uint_fast64 \<Rightarrow> uint_fast64 \<Rightarrow> softfloat_state \<Rightarrow> float64_t \<times> softfloat_state" where
  "f64_propagateNaN uiA uiB st = softfloat_propagateNaNF64UI uiA uiB st"

definition f64_invalid :: "softfloat_state \<Rightarrow> float64_t \<times> softfloat_state" where
  "f64_invalid st = (defaultNaNF64UI, softfloat_raiseFlags softfloat_flag_invalid st)"

definition softfloat_addMagsF64 ::
    "uint_fast64 \<Rightarrow> uint_fast64 \<Rightarrow> bool \<Rightarrow> softfloat_state \<Rightarrow> float64_t \<times> softfloat_state" where
  "softfloat_addMagsF64 uiA uiB signZ st =
     (let expA = expF64UI uiA; sigA = fracF64UI uiA;
          expB = expF64UI uiB; sigB = fracF64UI uiB;
          expDiff = expA - expB
      in if expDiff = 0 then
           if expA = 0 then (uiA + sigB, st)
           else if expA = 0x7FF then
             if sigA OR sigB \<noteq> 0 then f64_propagateNaN uiA uiB st else (uiA, st)
           else
             let expZ = expA; sigZ = 0x0020000000000000 + sigA + sigB
             in softfloat_roundPackToF64 signZ expZ (push_bit 9 sigZ) st
         else
           let sigA = push_bit 9 sigA; sigB = push_bit 9 sigB;
               finish = (\<lambda>expZ sigA sigB.
                 let sigZ = 0x2000000000000000 + sigA + sigB
                 in if sigZ < 0x4000000000000000 then softfloat_roundPackToF64 signZ (expZ - 1) (push_bit 1 sigZ) st
                    else softfloat_roundPackToF64 signZ expZ sigZ st)
           in if expDiff < 0 then
                if expB = 0x7FF then
                  if sigB \<noteq> 0 then f64_propagateNaN uiA uiB st
                  else (packToF64UI signZ 0x7FF 0, st)
                else
                  let sigA = (if expA \<noteq> 0 then sigA + 0x2000000000000000 else push_bit 1 sigA);
                      sigA = softfloat_shiftRightJam64 sigA (word_of_int (- expDiff))
                  in finish expB sigA sigB
              else
                if expA = 0x7FF then
                  if sigA \<noteq> 0 then f64_propagateNaN uiA uiB st else (uiA, st)
                else
                  let sigB = (if expB \<noteq> 0 then sigB + 0x2000000000000000 else push_bit 1 sigB);
                      sigB = softfloat_shiftRightJam64 sigB (word_of_int expDiff)
                  in finish expA sigA sigB)"

definition softfloat_subMagsF64 ::
    "uint_fast64 \<Rightarrow> uint_fast64 \<Rightarrow> bool \<Rightarrow> softfloat_state \<Rightarrow> float64_t \<times> softfloat_state" where
  "softfloat_subMagsF64 uiA uiB signZ st =
     (let expA = expF64UI uiA; sigA = fracF64UI uiA;
          expB = expF64UI uiB; sigB = fracF64UI uiB;
          expDiff = expA - expB
      in if expDiff = 0 then
           if expA = 0x7FF then
             if sigA OR sigB \<noteq> 0 then f64_propagateNaN uiA uiB st else f64_invalid st
           else
             let sigDiff = sint (sigA - sigB)
             in if sigDiff = 0
                then (packToF64UI (softfloat_roundingMode st = softfloat_round_min) 0 0, st)
                else
                  let expA = (if expA \<noteq> 0 then expA - 1 else expA);
                      (signZ, sigDiff) = (if sigDiff < 0 then (\<not> signZ, - sigDiff) else (signZ, sigDiff));
                      shiftDist = uint (softfloat_countLeadingZeros64 (word_of_int sigDiff)) - 11;
                      expZ = expA - shiftDist;
                      (shiftDist, expZ) = (if expZ < 0 then (expA, 0) else (shiftDist, expZ))
                  in (packToF64UI signZ expZ (push_bit (nat shiftDist) (word_of_int sigDiff)), st)
         else
           let sigA = push_bit 10 sigA; sigB = push_bit 10 sigB
           in if expDiff < 0 then
                let signZ = (\<not> signZ)
                in if expB = 0x7FF then
                     if sigB \<noteq> 0 then f64_propagateNaN uiA uiB st
                     else (packToF64UI signZ 0x7FF 0, st)
                   else
                     let sigA = sigA + (if expA \<noteq> 0 then 0x4000000000000000 else sigA);
                         sigA = softfloat_shiftRightJam64 sigA (word_of_int (- expDiff));
                         sigB = sigB OR 0x4000000000000000;
                         expZ = expB;
                         sigZ = sigB - sigA
                     in softfloat_normRoundPackToF64 signZ (expZ - 1) sigZ st
              else
                if expA = 0x7FF then
                  if sigA \<noteq> 0 then f64_propagateNaN uiA uiB st else (uiA, st)
                else
                  let sigB = sigB + (if expB \<noteq> 0 then 0x4000000000000000 else sigB);
                      sigB = softfloat_shiftRightJam64 sigB (word_of_int expDiff);
                      sigA = sigA OR 0x4000000000000000;
                      expZ = expA;
                      sigZ = sigA - sigB
                  in softfloat_normRoundPackToF64 signZ (expZ - 1) sigZ st)"

definition f64_add :: "float64_t \<Rightarrow> float64_t \<Rightarrow> softfloat_state \<Rightarrow> float64_t \<times> softfloat_state" where
  "f64_add a b st =
     (let uiA = a; signA = signF64UI uiA; uiB = b; signB = signF64UI uiB
      in if signA = signB then softfloat_addMagsF64 uiA uiB signA st
         else softfloat_subMagsF64 uiA uiB signA st)"

definition f64_sub :: "float64_t \<Rightarrow> float64_t \<Rightarrow> softfloat_state \<Rightarrow> float64_t \<times> softfloat_state" where
  "f64_sub a b st =
     (let uiA = a; signA = signF64UI uiA; uiB = b; signB = signF64UI uiB
      in if signA = signB then softfloat_subMagsF64 uiA uiB signA st
         else softfloat_addMagsF64 uiA uiB signA st)"

text \<open>The step of multiplication and division that normalizes a subnormal operand.\<close>

definition f64_normalize :: "int \<Rightarrow> uint_fast64 \<Rightarrow> int \<times> uint_fast64" where
  "f64_normalize ex sig =
     (if ex = 0 then let normExpSig = softfloat_normSubnormalF64Sig sig in (exp_f64 normExpSig, sig_f64 normExpSig)
      else (ex, sig))"

definition f64_mul :: "float64_t \<Rightarrow> float64_t \<Rightarrow> softfloat_state \<Rightarrow> float64_t \<times> softfloat_state" where
  "f64_mul a b st =
     (let uiA = a; signA = signF64UI uiA; expA = expF64UI uiA; sigA = fracF64UI uiA;
          uiB = b; signB = signF64UI uiB; expB = expF64UI uiB; sigB = fracF64UI uiB;
          signZ = (signA \<noteq> signB);
          infArg = (\<lambda>magBits. if magBits = 0 then f64_invalid st else (packToF64UI signZ 0x7FF 0, st));
          zero = (packToF64UI signZ 0 0, st)
      in if expA = 0x7FF then
           if sigA \<noteq> 0 \<or> expB = 0x7FF \<and> sigB \<noteq> 0 then f64_propagateNaN uiA uiB st
           else infArg (word_of_int expB OR sigB)
         else if expB = 0x7FF then
           if sigB \<noteq> 0 then f64_propagateNaN uiA uiB st else infArg (word_of_int expA OR sigA)
         else if expA = 0 \<and> sigA = 0 then zero
         else if expB = 0 \<and> sigB = 0 then zero
         else
           let (expA, sigA) = f64_normalize expA sigA;
               (expB, sigB) = f64_normalize expB sigB;
               expZ = expA + expB - 0x3FF;
               sigA = push_bit 10 (sigA OR 0x0010000000000000);
               sigB = push_bit 11 (sigB OR 0x0010000000000000);
               sig128Z = softfloat_mul64To128 sigA sigB;
               sigZ = v64 sig128Z OR of_bool (v0 sig128Z \<noteq> 0)
           in if sigZ < 0x4000000000000000 then softfloat_roundPackToF64 signZ (expZ - 1) (push_bit 1 sigZ) st
              else softfloat_roundPackToF64 signZ expZ sigZ st)"

text \<open>
  The significand of a quotient: a first approximation of 32 bits from the reciprocal, a second
  one from the remainder, and the exact remainder when the low bits are close to a rounding
  boundary. All arithmetic wraps as in C.
\<close>

definition f64_div_sig :: "uint_fast64 \<Rightarrow> uint_fast64 \<Rightarrow> uint_fast64" where
  "f64_div_sig sigA sigB =
     (let recip32 = softfloat_approxRecip32_1 (ucast (drop_bit 32 sigB)) - 2;
          sig32Z = ucast (drop_bit 32 (ucast (ucast (drop_bit 32 sigA) :: u32) * ucast recip32 :: u64)) :: u32;
          doubleTerm = push_bit 1 sig32Z;
          rem = push_bit 28 (sigA - ucast doubleTerm * ucast (ucast (drop_bit 32 sigB) :: u32))
                  - ucast doubleTerm * ucast (drop_bit 4 (ucast sigB :: u32));
          q = ucast (drop_bit 32 (ucast (ucast (drop_bit 32 rem) :: u32) * ucast recip32 :: u64) + 4) :: u32;
          sigZ = push_bit 32 (ucast sig32Z :: u64) + push_bit 4 (ucast q)
      in if sigZ AND 0x1FF < push_bit 4 4 then
           let q = q AND NOT 7;
               sigZ = sigZ AND NOT 0x7F;
               doubleTerm = push_bit 1 q;
               rem = push_bit 28 (rem - ucast doubleTerm * ucast (ucast (drop_bit 32 sigB) :: u32))
                       - ucast doubleTerm * ucast (drop_bit 4 (ucast sigB :: u32))
           in if rem AND 0x8000000000000000 \<noteq> 0 then sigZ - push_bit 7 1
              else if rem \<noteq> 0 then sigZ OR 1 else sigZ
         else sigZ)"

definition f64_div :: "float64_t \<Rightarrow> float64_t \<Rightarrow> softfloat_state \<Rightarrow> float64_t \<times> softfloat_state" where
  "f64_div a b st =
     (let uiA = a; signA = signF64UI uiA; expA = expF64UI uiA; sigA = fracF64UI uiA;
          uiB = b; signB = signF64UI uiB; expB = expF64UI uiB; sigB = fracF64UI uiB;
          signZ = (signA \<noteq> signB);
          infinity = (\<lambda>st. (packToF64UI signZ 0x7FF 0, st));
          zero = (packToF64UI signZ 0 0, st)
      in if expA = 0x7FF then
           if sigA \<noteq> 0 then f64_propagateNaN uiA uiB st
           else if expB = 0x7FF then
             if sigB \<noteq> 0 then f64_propagateNaN uiA uiB st else f64_invalid st
           else infinity st
         else if expB = 0x7FF then
           if sigB \<noteq> 0 then f64_propagateNaN uiA uiB st else zero
         else if expB = 0 \<and> sigB = 0 then
           if word_of_int expA OR sigA = 0 then f64_invalid st
           else infinity (softfloat_raiseFlags softfloat_flag_infinite st)
         else if expA = 0 \<and> sigA = 0 then zero
         else
           let (expB, sigB) = f64_normalize expB sigB;
               (expA, sigA) = f64_normalize expA sigA;
               expZ = expA - expB + 0x3FE;
               sigA = sigA OR 0x0010000000000000;
               sigB = sigB OR 0x0010000000000000;
               (expZ, sigA) = (if sigA < sigB then (expZ - 1, push_bit 11 sigA) else (expZ, push_bit 10 sigA));
               sigB = push_bit 11 sigB
           in softfloat_roundPackToF64 signZ expZ (f64_div_sig sigA sigB) st)"

section \<open>Correct rounding\<close>

lemma if_double: "(if e then x + c else push_bit n x) = x + (if e then c else x)" if "n = Suc 0" for x c :: u64
  using that by (simp add: push_bit_eq_mult)

lemma addMagsF64_result_less:
  assumes "unat uiA mod 2 ^ 63 div 2 ^ 52 < unat uiB mod 2 ^ 63 div 2 ^ 52" and "unat uiB mod 2 ^ 63 < fp_inf 52 2047"
    and "z = 0x2000000000000000 + (softfloat_shiftRightJam64 ((push_bit 9 (fracF64UI uiA) + (if expF64UI uiA \<noteq> 0 then 0x2000000000000000 else push_bit 9 (fracF64UI uiA)))) (word_of_int (expF64UI uiB - expF64UI uiA))) + push_bit 9 (fracF64UI uiB)"
    and "res = (if z < 0x4000000000000000 then softfloat_roundPackToF64 s (expF64UI uiB - 1) (push_bit 1 z) st
                else softfloat_roundPackToF64 s (expF64UI uiB) z st)"
  shows "fl_result 52 2047 st s (real (fmag 52 (unat uiA mod 2 ^ 63)) + real (fmag 52 (unat uiB mod 2 ^ 63)))
    (unat (fst res)) (snd res)"
proof -
  define nA nB where "nA = unat uiA mod 2 ^ 63" and "nB = unat uiB mod 2 ^ 63"
  define d where "d = nB div 2 ^ 52 - nA div 2 ^ 52"
  have E: "nA div 2 ^ 52 < nB div 2 ^ 52" "nB div 2 ^ 52 < 2047"
    using assms(1,2) index_div_less [of nB 2047 52] unfolding nA_def nB_def by auto
  then have nB: "2 ^ 52 \<le> nB" by (metis div_less not_less_zero not_le)
  define a where "a = push_bit 9 (fracF64UI uiA) + (if expF64UI uiA \<noteq> 0 then 0x2000000000000000 else push_bit 9 (fracF64UI uiA))"
  have a: "unat a = align_sig 52 9 nA" unfolding a_def nA_def by (rule unat_alignF64) simp_all
  have alt: "unat a < 2 ^ 62" unfolding a using align_sig_less [of 52 9 nA] by simp
  have eB: "expF64UI uiB = int (nB div 2 ^ 52)" unfolding nB_def by (rule expF64UI_index)
  have ed: "expF64UI uiB - expF64UI uiA = int d"
    using E unfolding expF64UI_index nA_def [symmetric] nB_def [symmetric] d_def by (simp add: of_nat_diff)
  have d0: "0 < d" "d < 2047" using E unfolding d_def by linarith+
  then have d: "unat (word_of_int (int d) :: u64) = d" by (subst unat_word_of_int) simp_all
  define j :: u64 where "j = (softfloat_shiftRightJam64 (a) (word_of_int (int d)))"
  have j: "unat j = jam (align_sig 52 9 nA) d"
    unfolding j_def using alt d d0 a
    by (simp add: unat_ucast_up unat_shiftRightJam64 unat_ucast_small del: of_int_of_nat_eq)
  have b: "unat (0x2000000000000000 + push_bit 9 (fracF64UI uiB)) = align_sig 52 9 nB"
    unfolding nB_def by (rule unat_alignF64) (use nB nB_def in simp_all)
  have z: "z = (0x2000000000000000 + push_bit 9 (fracF64UI uiB)) + j"
    unfolding assms(3) a_def [symmetric] ed j_def [symmetric] by (simp add: ac_simps)
  obtain t where t: "agrees 1 t (align_sig 52 9 nB + jam (align_sig 52 9 nA) d)"
      "real (fmag 52 nA) + real (fmag 52 nB) = t * 2 powi (int (nB div 2 ^ 52) - 10)"
      "2 ^ 61 \<le> align_sig 52 9 nB + jam (align_sig 52 9 nA) d" "align_sig 52 9 nB + jam (align_sig 52 9 nA) d < 2 ^ 63"
    by (rule f64.add_aligned [OF E(1) _ refl]) (simp_all add: d_def)
  have uz: "unat z = align_sig 52 9 nB + jam (align_sig 52 9 nA) d"
    unfolding z using t(4) by (subst unat_add_small) (simp_all add: b j)
  show ?thesis
    unfolding nA_def [symmetric] nB_def [symmetric]
    by (rule roundPackToF64_norm1 [OF _ _ _ _ _ _ assms(4)])
       (use uz t E(2) eB agrees_mono [OF t(1), of 8] in simp_all)
qed

lemma addMagsF64_equal:
  assumes "unat uiA < 2 ^ 64" and "expF64UI uiA = expF64UI uiB" and "unat uiA mod 2 ^ 63 < fp_inf 52 2047"
    and "res = softfloat_addMagsF64 uiA uiB (2 ^ 63 \<le> unat uiA) st"
  shows "fl_result 52 2047 st (2 ^ 63 \<le> unat uiA)
    (real (fmag 52 (unat uiA mod 2 ^ 63)) + real (fmag 52 (unat uiB mod 2 ^ 63))) (unat (fst res)) (snd res)"
proof -
  define nA nB E where "nA = unat uiA mod 2 ^ 63" and "nB = unat uiB mod 2 ^ 63" and "E = nA div 2 ^ 52"
  have eA: "expF64UI uiA = int E" unfolding E_def nA_def by (rule expF64UI_index)
  have eB: "nB div 2 ^ 52 = E" using assms(2) unfolding eA expF64UI_index [of uiB] nB_def by simp
  have E: "E < 2047" using assms(3) index_div_less [of nA 2047 52] unfolding E_def nA_def by simp
  define fA fB where "fA = nA mod 2 ^ 52" and "fB = nB mod 2 ^ 52"
  have f: "fA < 2 ^ 52" "fB < 2 ^ 52" by (simp_all add: fA_def fB_def)
  have u: "unat (fracF64UI uiA) = fA" "unat (fracF64UI uiB) = fB"
    by (simp_all only: fracF64UI_index fA_def fB_def nA_def nB_def)
  have n: "nA = E * 2 ^ 52 + fA" "nB = E * 2 ^ 52 + fB"
    using div_mult_mod_eq [of nA "2 ^ 52"] div_mult_mod_eq [of nB "2 ^ 52"] unfolding eB fA_def fB_def E_def [symmetric] by simp_all
  have uiA: "unat uiA = of_bool (2 ^ 63 \<le> unat uiA) * 2 ^ 63 + nA" unfolding nA_def by (rule unat_sign_indexF64)
  show ?thesis
  proof (cases "E = 0")
    case True
    then have e: "res = ((uiA + fracF64UI uiB), st)"
      unfolding assms(4) softfloat_addMagsF64_def Let_def using assms(2) eA by simp
    have a: "unat (uiA + fracF64UI uiB) = of_bool (2 ^ 63 \<le> unat uiA) * 2 ^ 63 + (nA + nB)"
    proof -
      have "unat uiA + fB < 2 ^ 64" using f n True uiA by (cases "2 ^ 63 \<le> unat uiA") (simp_all only: of_bool_eq, simp_all)
      then show ?thesis using n True uiA by (subst unat_add_small) (simp_all add: u)
    qed
    have lt: "nA + nB < 2 ^ 53" using f n True by simp
    show ?thesis unfolding e fst_conv snd_conv nA_def [symmetric] nB_def [symmetric]
      by (intro fl_result_pack [of "nA + nB" 52 0]) (use a lt f n True in \<open>simp_all add: fmag_def\<close>)
  next
    case False
    define z where "z = 0x0020000000000000 + fracF64UI uiA + fracF64UI uiB"
    have uz: "unat z = 2 ^ 53 + fA + fB"
      unfolding z_def using f by (subst unat_add_small; subst unat_add_small) (simp_all add: u)
    obtain e where e: "E = Suc e" using False by (cases E) auto
    have x: "real (fmag 52 nA) + real (fmag 52 nB) = real (unat z) * 2 ^ e"
      using f fmag_pack [of "2 ^ 52 + fA" 52 e] fmag_pack [of "2 ^ 52 + fB" 52 e]
      unfolding uz n e by (simp add: algebra_simps)
    have r: "res = softfloat_roundPackToF64 (2 ^ 63 \<le> unat uiA) (int E) (push_bit 9 z) st"
      unfolding assms(4) softfloat_addMagsF64_def Let_def using assms(2) eA False E by (auto simp: z_def)
    have p: "unat (push_bit 9 z) = unat z * 2 ^ 9" using f uz by (intro unat_push_bit) simp
    have "2 ^ e = 2 ^ 9 * (2::real) powi (int E - 10)" by (simp add: e power_int_diff power_int_add)
    then show ?thesis unfolding r nA_def [symmetric] nB_def [symmetric] x
      by (intro roundPackToF64_result [OF agrees_refl]) (use p uz f E in simp_all)
  qed
qed

lemma addMagsF64_result:
  assumes "unat uiA < 2 ^ 64" and "unat uiA mod 2 ^ 63 < fp_inf 52 2047" and "unat uiB mod 2 ^ 63 < fp_inf 52 2047"
  shows "fl_result 52 2047 st (2 ^ 63 \<le> unat uiA)
    (real (fmag 52 (unat uiA mod 2 ^ 63)) + real (fmag 52 (unat uiB mod 2 ^ 63)))
    (unat (fst (softfloat_addMagsF64 uiA uiB (2 ^ 63 \<le> unat uiA) st))) (snd (softfloat_addMagsF64 uiA uiB (2 ^ 63 \<le> unat uiA) st))"
proof (cases "expF64UI uiA" "expF64UI uiB" rule: linorder_cases)
  case equal
  then show ?thesis using addMagsF64_equal assms by blast
next
  case less
  have "expF64UI uiB \<noteq> 0x7FF"
    using assms(3) index_div_less [of "unat uiB mod 2 ^ 63" 2047 52] unfolding expF64UI_index by linarith
  then show ?thesis
    by (intro addMagsF64_result_less [OF _ assms(3) refl])
       (use less in \<open>simp_all add: softfloat_addMagsF64_def Let_def if_double expF64UI_index\<close>)
next
  case greater
  have "expF64UI uiA \<noteq> 0x7FF"
    using assms(2) index_div_less [of "unat uiA mod 2 ^ 63" 2047 52] unfolding expF64UI_index by linarith
  then show ?thesis
    unfolding add.commute [of "real (fmag 52 (unat uiA mod 2 ^ 63))"]
    by (intro addMagsF64_result_less [OF _ assms(2) refl])
       (use greater in \<open>simp_all add: softfloat_addMagsF64_def Let_def if_double expF64UI_index ac_simps\<close>)
qed

lemma subMagsF64_equal:
  assumes "unat uiA < 2 ^ 64" and "expF64UI uiA = expF64UI uiB" and "unat uiA mod 2 ^ 63 < fp_inf 52 2047"
    and "res = softfloat_subMagsF64 uiA uiB (2 ^ 63 \<le> unat uiA) st"
    and "nA = unat uiA mod 2 ^ 63" and "nB = unat uiB mod 2 ^ 63"
  shows "fl_result 52 2047 st (if nA = nB then mode st = Round_min else (2 ^ 63 \<le> unat uiA) \<noteq> (nA < nB))
    \<bar>real (fmag 52 nA) - real (fmag 52 nB)\<bar> (unat (fst res)) (snd res)"
proof -
  define E where "E = nA div 2 ^ 52"
  have eA: "expF64UI uiA = int E" unfolding E_def assms(5) by (rule expF64UI_index)
  have eB: "nB div 2 ^ 52 = E" using assms(2) unfolding eA expF64UI_index [of uiB] assms(6) by simp
  have E: "E < 2047" using assms(3) index_div_less [of nA 2047 52] unfolding E_def assms(5) by simp
  define fA fB where "fA = nA mod 2 ^ 52" and "fB = nB mod 2 ^ 52"
  have f: "fA < 2 ^ 52" "fB < 2 ^ 52" by (simp_all add: fA_def fB_def)
  have u: "unat (fracF64UI uiA) = fA" "unat (fracF64UI uiB) = fB"
    by (simp_all only: fracF64UI_index fA_def fB_def assms(5,6))
  have n: "nA = E * 2 ^ 52 + fA" "nB = E * 2 ^ 52 + fB"
    using div_mult_mod_eq [of nA "2 ^ 52"] div_mult_mod_eq [of nB "2 ^ 52"]
    unfolding eB fA_def fB_def E_def [symmetric] by simp_all
  have sd: "sint (fracF64UI uiA - fracF64UI uiB) = int fA - int fB"
    using f by (subst sint_diff_small) (simp_all add: u)
  show ?thesis
  proof (cases "fA = fB")
    case True
    have r: "res = ((packToF64UI (softfloat_roundingMode st = softfloat_round_min) 0 0), st)"
      unfolding assms(4) softfloat_subMagsF64_def Let_def sd using assms(2) eA E True by simp
    have "unat ((packToF64UI (softfloat_roundingMode st = softfloat_round_min) 0 0) :: u64) = of_bool (mode st = Round_min) * 2 ^ 63"
      by (subst unat_packToF64UI) (simp_all add: rmode_min_iff)
    then show ?thesis unfolding r fst_conv snd_conv
      by (intro fl_result_exact [of 0]) (use n True in simp_all)
  next
    case False
    define D where "D = nat \<bar>int fA - int fB\<bar>"
    define e where "e = E - 1"
    have D: "0 < D" "D < 2 ^ 52" using f False by (auto simp: D_def)
    have "real (fmag 52 nA) - real (fmag 52 nB) = (real fA - real fB) * 2 ^ e"
    proof (cases E)
      case 0
      then show ?thesis using f n by (simp add: fmag_def e_def)
    next
      case (Suc k)
      then show ?thesis
        using f fmag_pack [of "2 ^ 52 + fA" 52 k] fmag_pack [of "2 ^ 52 + fB" 52 k]
        unfolding n by (simp add: algebra_simps e_def)
    qed
    moreover have "\<bar>real fA - real fB\<bar> = real D" unfolding D_def by simp
    ultimately have x: "\<bar>real (fmag 52 nA) - real (fmag 52 nB)\<bar> = real D * 2 ^ e" by (simp add: abs_mult)
    define v :: u64 where "v = word_of_int (int D)"
    have wv: "unat v = D"
      unfolding v_def using D by (subst unat_word_of_int; simp)
    define c where "c = unat (softfloat_countLeadingZeros64 v)"
    have cl: "c < 64" "2 ^ 63 \<le> D * 2 ^ c" "D * 2 ^ c < 2 ^ 64"
      using clz64_shift [of v] wv D unfolding c_def by simp_all
    have "11 < c"
    proof (rule ccontr)
      assume "\<not> 11 < c"
      then have "D * 2 ^ c \<le> D * 2 ^ 11" by (intro mult_le_mono2 power_increasing) auto
      from le_trans [OF cl(2) this] D(2) show False by simp
    qed
    then obtain h where h: "c = h + 11" by (metis add.commute le_add_diff_inverse less_imp_le)
    have hb: "2 ^ 52 \<le> D * 2 ^ h" "D * 2 ^ h < 2 ^ 53" using cl unfolding h power_add by simp_all
    have sh: "uint (softfloat_countLeadingZeros64 v) - 11 = int h" using h by (simp add: c_def uint_nat)
    define sZ where "sZ \<longleftrightarrow> (2 ^ 63 \<le> unat uiA) \<noteq> (nA < nB)"
    have r: "res = (packToF64UI sZ (int (e - h)) (push_bit (if e < h then e else h) v), st)"
    proof -
      have 1: "(if int E \<noteq> 0 then int E - 1 else int E) = int e" by (simp add: e_def)
      have 2: "(if int fA - int fB < 0 then (\<not> 2 ^ 63 \<le> unat uiA, - (int fA - int fB)) else (2 ^ 63 \<le> unat uiA, int fA - int fB)) = (sZ, int D)"
        using n by (auto simp: sZ_def D_def)
      have 3: "expF64UI uiB = int E" using assms(2) eA by simp
      show ?thesis
        unfolding assms(4) softfloat_subMagsF64_def Let_def sd eA 3 1 2 prod.case v_def [symmetric] sh
        using E False by (auto simp: of_nat_diff)
    qed
    define k where "k = D * 2 ^ (if e < h then e else h)"
    have "k \<le> D * 2 ^ h" unfolding k_def by (intro mult_le_mono2 power_increasing) auto
    then have k: "k < 2 ^ 53" using hb(2) by (rule le_less_trans)
    then have p: "unat (push_bit (if e < h then e else h) v) = k"
      unfolding k_def by (subst unat_push_bit; subst wv) (simp_all only: wv, simp)
    have k2: "2 ^ 52 \<le> k \<or> e - h = 0" unfolding k_def using hb(1) by simp
    have k3: "real D * 2 ^ e = real k * 2 ^ (e - h)" by (simp add: k_def flip: power_add)
    have eh: "(e - h) + 2 \<le> 2047" using E by (simp add: e_def)
    have i: "nat (int (e - h)) * 2 ^ 52 + unat (push_bit (if e < h then e else h) v) < 2 ^ 63"
      unfolding p using pack_index_less [of k 52 "e - h" 2047] k eh by simp
    show ?thesis unfolding r fst_conv snd_conv x
      by (rule fl_result_pack [of k 52 "e - h"])
         (use k k2 k3 eh unat_packToF64UI [OF _ i] n False in \<open>simp_all add: p sZ_def\<close>)
  qed
qed

lemma subMagsF64_less:
  assumes "unat uiA mod 2 ^ 63 div 2 ^ 52 < unat uiB mod 2 ^ 63 div 2 ^ 52" and "unat uiB mod 2 ^ 63 < fp_inf 52 2047"
    and "z = (push_bit 10 (fracF64UI uiB) OR 0x4000000000000000) -
      (softfloat_shiftRightJam64 ((push_bit 10 (fracF64UI uiA) + (if expF64UI uiA \<noteq> 0 then 0x4000000000000000 else push_bit 10 (fracF64UI uiA)))) (word_of_int (expF64UI uiB - expF64UI uiA)))"
    and "res = softfloat_normRoundPackToF64 s (expF64UI uiB - 1) z st"
  shows "fl_result 52 2047 st s (real (fmag 52 (unat uiB mod 2 ^ 63)) - real (fmag 52 (unat uiA mod 2 ^ 63)))
    (unat (fst res)) (snd res)"
proof -
  define nA nB where "nA = unat uiA mod 2 ^ 63" and "nB = unat uiB mod 2 ^ 63"
  define d where "d = nB div 2 ^ 52 - nA div 2 ^ 52"
  have E: "nA div 2 ^ 52 < nB div 2 ^ 52" "nB div 2 ^ 52 < 2047"
    using assms(1,2) index_div_less [of nB 2047 52] unfolding nA_def nB_def by auto
  then have nB: "2 ^ 52 \<le> nB" by (metis div_less not_less_zero not_le)
  define a where "a = push_bit 10 (fracF64UI uiA) + (if expF64UI uiA \<noteq> 0 then 0x4000000000000000 else push_bit 10 (fracF64UI uiA))"
  have a: "unat a = align_sig 52 10 nA" unfolding a_def nA_def by (rule unat_alignF64) simp_all
  have alt: "unat a < 2 ^ 63" unfolding a using align_sig_less [of 52 10 nA] by simp
  have eB: "expF64UI uiB = int (nB div 2 ^ 52)" unfolding nB_def by (rule expF64UI_index)
  have ed: "expF64UI uiB - expF64UI uiA = int d"
    using E unfolding expF64UI_index nA_def [symmetric] nB_def [symmetric] d_def by (simp add: of_nat_diff)
  have d0: "0 < d" "d < 2047" using E unfolding d_def by linarith+
  then have d: "unat (word_of_int (int d) :: u64) = d" by (subst unat_word_of_int) simp_all
  define j :: u64 where "j = (softfloat_shiftRightJam64 (a) (word_of_int (int d)))"
  have j: "unat j = jam (align_sig 52 10 nA) d"
    unfolding j_def using alt d d0 a
    by (simp add: unat_ucast_up unat_shiftRightJam64 unat_ucast_small del: of_int_of_nat_eq)
  have b: "unat (push_bit 10 (fracF64UI uiB) OR 0x4000000000000000) = align_sig 52 10 nB"
    unfolding nB_def by (rule unat_alignF64) (use nB nB_def in simp_all)
  have z: "z = (push_bit 10 (fracF64UI uiB) OR 0x4000000000000000) - j"
    unfolding assms(3) a_def [symmetric] ed j_def [symmetric] ..
  define k where "k = align_sig 52 10 nB - jam (align_sig 52 10 nA) d"
  obtain t where t: "t = real k \<or> agrees 8 t k \<and> 2 ^ 61 \<le> k"
      "real (fmag 52 nB) - real (fmag 52 nA) = t * 2 powi (int (nB div 2 ^ 52) - 1 - 10)"
      "k \<noteq> 0" "k < 2 ^ 63" "jam (align_sig 52 10 nA) d \<le> align_sig 52 10 nB"
    by (rule f64.sub_aligned [OF E(1) _ refl]) (simp_all add: d_def k_def)
  have uz: "unat z = k"
    unfolding z k_def using t(5) by (subst unat_minus_small) (simp_all add: b j)
  show ?thesis
    unfolding nA_def [symmetric] nB_def [symmetric] assms(4)
    by (rule normRoundPackToF64_result [of _ t]) (use uz t E(2) eB in simp_all)
qed

lemma subMagsF64_result:
  assumes "unat uiA < 2 ^ 64" and "unat uiA mod 2 ^ 63 < fp_inf 52 2047" and "unat uiB mod 2 ^ 63 < fp_inf 52 2047"
    and "nA = unat uiA mod 2 ^ 63" and "nB = unat uiB mod 2 ^ 63"
  shows "fl_result 52 2047 st (if nA = nB then mode st = Round_min else (2 ^ 63 \<le> unat uiA) \<noteq> (nA < nB))
    \<bar>real (fmag 52 nA) - real (fmag 52 nB)\<bar>
    (unat (fst (softfloat_subMagsF64 uiA uiB (2 ^ 63 \<le> unat uiA) st))) (snd (softfloat_subMagsF64 uiA uiB (2 ^ 63 \<le> unat uiA) st))"
proof (cases "expF64UI uiA" "expF64UI uiB" rule: linorder_cases)
  case equal
  then show ?thesis using subMagsF64_equal assms by blast
next
  case less
  then have E: "nA div 2 ^ 52 < nB div 2 ^ 52" unfolding expF64UI_index assms(4,5) by simp
  then have lt: "nA < nB" using div_le_mono [of nB nA "2 ^ 52"] by (meson not_le)
  have "expF64UI uiB \<noteq> 0x7FF"
    using assms(3) index_div_less [of "unat uiB mod 2 ^ 63" 2047 52] unfolding expF64UI_index by linarith
  then have "softfloat_subMagsF64 uiA uiB (2 ^ 63 \<le> unat uiA) st = softfloat_normRoundPackToF64 (\<not> 2 ^ 63 \<le> unat uiA) (expF64UI uiB - 1)
     ((push_bit 10 (fracF64UI uiB) OR 0x4000000000000000) -
      (softfloat_shiftRightJam64 ((push_bit 10 (fracF64UI uiA) + (if expF64UI uiA \<noteq> 0 then 0x4000000000000000 else push_bit 10 (fracF64UI uiA)))) (word_of_int (expF64UI uiB - expF64UI uiA)))) st"
    unfolding softfloat_subMagsF64_def Let_def using less by simp
  from subMagsF64_less [OF E [unfolded assms(4,5)] assms(3) refl this] show ?thesis
    using lt by (simp add: assms(4,5))
next
  case greater
  then have E: "nB div 2 ^ 52 < nA div 2 ^ 52" unfolding expF64UI_index assms(4,5) by simp
  then have lt: "nB < nA" using div_le_mono [of nA nB "2 ^ 52"] by (meson not_le)
  have "expF64UI uiA \<noteq> 0x7FF"
    using assms(2) index_div_less [of "unat uiA mod 2 ^ 63" 2047 52] unfolding expF64UI_index by linarith
  then have "softfloat_subMagsF64 uiA uiB (2 ^ 63 \<le> unat uiA) st = softfloat_normRoundPackToF64 (2 ^ 63 \<le> unat uiA) (expF64UI uiA - 1)
     ((push_bit 10 (fracF64UI uiA) OR 0x4000000000000000) -
      (softfloat_shiftRightJam64 ((push_bit 10 (fracF64UI uiB) + (if expF64UI uiB \<noteq> 0 then 0x4000000000000000 else push_bit 10 (fracF64UI uiB)))) (word_of_int (expF64UI uiA - expF64UI uiB)))) st"
    unfolding softfloat_subMagsF64_def Let_def using greater by simp
  from subMagsF64_less [OF E [unfolded assms(4,5)] assms(2) refl this] show ?thesis
    using lt by (simp add: assms(4,5))
qed

lemma f64_add_correct:
  assumes "f64_finite a" and "f64_finite b"
  shows "f64_rounded st (if 2 ^ 63 \<le> unat a \<longleftrightarrow> 2 ^ 63 \<le> unat b then 2 ^ 63 \<le> unat a else mode st = Round_min)
    (f64_real a + f64_real b) (f64_add a b st)"
proof (cases "2 ^ 63 \<le> unat a \<longleftrightarrow> 2 ^ 63 \<le> unat b")
  case True
  let ?v = "real (fmag 52 (unat a mod 2 ^ 63)) + real (fmag 52 (unat b mod 2 ^ 63))"
  have x: "f64_real a + f64_real b = (if 2 ^ 63 \<le> unat a then - 1 else 1) * ?v / 2 ^ 1074"
    using True unfolding f64_real_def add_divide_distrib [symmetric] by auto
  have e: "f64_add a b st = softfloat_addMagsF64 a b (2 ^ 63 \<le> unat a) st"
    using True by (simp add: f64_add_def Let_def signF64UI_iff)
  show ?thesis unfolding e
    by (rule f64_roundedI [OF _ x, of st "2 ^ 63 \<le> unat a"])
       (use addMagsF64_result [of a b st] assms unat_lt [of a] True in \<open>auto simp: f64_finite_def\<close>)
next
  case False
  let ?v = "real (fmag 52 (unat a mod 2 ^ 63)) - real (fmag 52 (unat b mod 2 ^ 63))"
  have x: "f64_real a + f64_real b = (if 2 ^ 63 \<le> unat a then - 1 else 1) * ?v / 2 ^ 1074"
    using False unfolding f64_real_def add_divide_distrib [symmetric] by auto
  have e: "f64_add a b st = softfloat_subMagsF64 a b (2 ^ 63 \<le> unat a) st"
    using False by (simp add: f64_add_def Let_def signF64UI_iff)
  show ?thesis unfolding e
    by (rule f64_roundedI [OF _ x])
       (use subMagsF64_result [of a b _ _ st] assms unat_lt [of a] False in \<open>auto simp: f64_finite_def\<close>)
qed

lemma f64_sub_correct:
  assumes "f64_finite a" and "f64_finite b"
  shows "f64_rounded st (if 2 ^ 63 \<le> unat a \<longleftrightarrow> 2 ^ 63 \<le> unat b then mode st = Round_min else 2 ^ 63 \<le> unat a)
    (f64_real a - f64_real b) (f64_sub a b st)"
proof (cases "2 ^ 63 \<le> unat a \<longleftrightarrow> 2 ^ 63 \<le> unat b")
  case True
  let ?v = "real (fmag 52 (unat a mod 2 ^ 63)) - real (fmag 52 (unat b mod 2 ^ 63))"
  have x: "f64_real a - f64_real b = (if 2 ^ 63 \<le> unat a then - 1 else 1) * ?v / 2 ^ 1074"
    using True unfolding f64_real_def diff_divide_distrib [symmetric] by auto
  have e: "f64_sub a b st = softfloat_subMagsF64 a b (2 ^ 63 \<le> unat a) st"
    using True by (simp add: f64_sub_def Let_def signF64UI_iff)
  show ?thesis unfolding e
    by (rule f64_roundedI [OF _ x])
       (use subMagsF64_result [of a b _ _ st] assms unat_lt [of a] True in \<open>auto simp: f64_finite_def\<close>)
next
  case False
  let ?v = "real (fmag 52 (unat a mod 2 ^ 63)) + real (fmag 52 (unat b mod 2 ^ 63))"
  have x: "f64_real a - f64_real b = (if 2 ^ 63 \<le> unat a then - 1 else 1) * ?v / 2 ^ 1074"
    using False unfolding f64_real_def diff_divide_distrib [symmetric] by auto
  have e: "f64_sub a b st = softfloat_addMagsF64 a b (2 ^ 63 \<le> unat a) st"
    using False by (simp add: f64_sub_def Let_def signF64UI_iff)
  show ?thesis unfolding e
    by (rule f64_roundedI [OF _ x, of st "2 ^ 63 \<le> unat a"])
       (use addMagsF64_result [of a b st] assms unat_lt [of a] False in \<open>auto simp: f64_finite_def\<close>)
qed

lemma f64_normalize_eq:
  assumes "n = unat ui mod 2 ^ 63" and "0 < n" and "n < fp_inf 52 2047"
    and "f64_normalize (expF64UI ui) (fracF64UI ui) = (e, s)"
  shows "2 ^ 52 \<le> unat (s OR 0x0010000000000000)" and "unat (s OR 0x0010000000000000) < 2 ^ 53"
    and "real (fmag 52 n) = real (unat (s OR 0x0010000000000000)) * 2 powi (e - 1)" and "- 52 < e" and "e < 2047"
proof -
  define E f where "E = n div 2 ^ 52" and "f = n mod 2 ^ 52"
  have E: "expF64UI ui = int E" unfolding E_def assms(1) by (rule expF64UI_index)
  have f: "unat (fracF64UI ui) = f" "f < 2 ^ 52" unfolding f_def assms(1) by (simp_all add: fracF64UI_index)
  have Elt: "E < 2047" using assms(3) index_div_less [of n 2047 52] by (simp add: E_def)
  have n: "n = E * 2 ^ 52 + f" unfolding E_def f_def by (simp only: div_mult_mod_eq)
  have "(2 ^ 52 \<le> unat (s OR 0x0010000000000000) \<and> unat (s OR 0x0010000000000000) < 2 ^ 53) \<and>
    real (fmag 52 n) = real (unat (s OR 0x0010000000000000)) * 2 powi (e - 1) \<and> - 52 < e \<and> e < 2047"
  proof (cases "E = 0")
    case True
    then have "0 < unat (fracF64UI ui)" "unat (fracF64UI ui) < 2 ^ 52" using assms(2) n f by simp_all
    then obtain h where h: "exp_f64 (softfloat_normSubnormalF64Sig (fracF64UI ui)) = 1 - int h" "h < 53"
      "unat (sig_f64 (softfloat_normSubnormalF64Sig (fracF64UI ui))) = f * 2 ^ h"
      "2 ^ 52 \<le> f * 2 ^ h" "f * 2 ^ h < 2 ^ 53"
      unfolding f(1) [symmetric] by (rule normSubnormalF64Sig_eq)
    have es: "e = 1 - int h" "unat s = f * 2 ^ h"
      using assms(4) True E h by (simp_all add: f64_normalize_def Let_def)
    have "unat (s OR 0x0010000000000000) = unat s" by (rule unat_or_top [of 52]) (use es h in simp_all)
    then show ?thesis using es h n f(2) True by (simp add: fmag_def power_int_minus)
  next
    case False
    then have es: "e = int E" "s = fracF64UI ui" using assms(4) E by (simp_all add: f64_normalize_def)
    have "unat (s OR 0x0010000000000000) = f + 2 ^ 52"
      unfolding es using f by (subst unat_or_disjoint [of _ 52]) simp_all
    moreover obtain k where k: "E = Suc k" using False by (cases E) auto
    moreover have "fmag 52 n = (f + 2 ^ 52) * 2 ^ k"
      using fmag_pack [of "f + 2 ^ 52" 52 k] f(2) by (simp add: n k algebra_simps)
    ultimately show ?thesis using f(2) Elt es by simp
  qed
  then show "2 ^ 52 \<le> unat (s OR 0x0010000000000000)" and "unat (s OR 0x0010000000000000) < 2 ^ 53"
    and "real (fmag 52 n) = real (unat (s OR 0x0010000000000000)) * 2 powi (e - 1)" and "- 52 < e" and "e < 2047" by auto
qed

lemma f64_mul_correct:
  assumes "f64_finite a" and "f64_finite b"
  shows "f64_rounded st ((2 ^ 63 \<le> unat a) \<noteq> (2 ^ 63 \<le> unat b)) (f64_real a * f64_real b) (f64_mul a b st)"
proof -
  define nA nB where "nA = unat a mod 2 ^ 63" and "nB = unat b mod 2 ^ 63"
  define sZ where "sZ \<longleftrightarrow> (2 ^ 63 \<le> unat a) \<noteq> (2 ^ 63 \<le> unat b)"
  define v where "v = real (fmag 52 nA) * real (fmag 52 nB) / 2 ^ 1074"
  have x: "f64_real a * f64_real b = (if sZ then - 1 else 1) * v / 2 ^ 1074"
    by (simp add: f64_real_def v_def nA_def nB_def sZ_def)
  have v0: "0 \<le> v" by (simp add: v_def)
  note fe = assms [THEN f64_finite_exp]
  have inf: "nA < fp_inf 52 2047" "nB < fp_inf 52 2047" using assms by (simp_all add: f64_finite_def nA_def nB_def)
  have z0: "expF64UI a = 0 \<and> fracF64UI a = 0 \<longleftrightarrow> nA = 0"
      "expF64UI b = 0 \<and> fracF64UI b = 0 \<longleftrightarrow> nB = 0"
    unfolding f64_nonzero_iff nA_def nB_def by simp_all
  have "fl_result 52 2047 st sZ v (unat (fst (f64_mul a b st))) (snd (f64_mul a b st))"
  proof (cases "nA = 0 \<or> nB = 0")
    case True
    have e: "f64_mul a b st = (packToF64UI sZ 0 0, st)"
      using True fe unfolding f64_mul_def Let_def z0 signF64UI_iff sZ_def by (auto simp only: if_False if_True refl if_cancel)
    have "v = 0" using True by (auto simp: v_def)
    then show ?thesis unfolding e fst_conv snd_conv
      by (intro fl_result_exact [of 0]) (simp_all add: unat_packToF64UI)
  next
    case False
    obtain eA sA where nmA: "f64_normalize (expF64UI a) (fracF64UI a) = (eA, sA)" by fastforce
    obtain eB sB where nmB: "f64_normalize (expF64UI b) (fracF64UI b) = (eB, sB)" by fastforce
    define wA wB where "wA = sA OR 0x0010000000000000" and "wB = sB OR 0x0010000000000000"
    define gA gB where "gA = unat wA" and "gB = unat wB"
    have A: "2 ^ 52 \<le> gA" "gA < 2 ^ 53" "real (fmag 52 nA) = real gA * 2 powi (eA - 1)" "- 52 < eA" "eA < 2047"
      unfolding gA_def wA_def by (rule f64_normalize_eq [OF _ _ inf(1) nmA]; use False nA_def in simp)+
    have B: "2 ^ 52 \<le> gB" "gB < 2 ^ 53" "real (fmag 52 nB) = real gB * 2 powi (eB - 1)" "- 52 < eB" "eB < 2047"
      unfolding gB_def wB_def by (rule f64_normalize_eq [OF _ _ inf(2) nmB]; use False nB_def in simp)+
    define p128 where "p128 = softfloat_mul64To128 (push_bit 10 wA) (push_bit 11 wB)"
    define z where "z = v64 p128 OR of_bool (v0 p128 \<noteq> 0)"
    have e: "f64_mul a b st = (if z < 0x4000000000000000 then softfloat_roundPackToF64 sZ (eA + eB - 0x3FF - 1) (push_bit 1 z) st
        else softfloat_roundPackToF64 sZ (eA + eB - 0x3FF) z st)"
      using False fe unfolding f64_mul_def Let_def z0 nmA nmB prod.case signF64UI_iff sZ_def wA_def [symmetric] wB_def [symmetric] p128_def [symmetric] z_def [symmetric] by (simp only: if_False de_Morgan_disj)
    have p: "2 ^ 104 \<le> gA * gB" "gA * gB < 2 ^ 106"
      using mult_le_mono [OF A(1) B(1)] mult_strict_mono [OF A(2) B(2)] by simp_all
    have u: "unat (push_bit 10 wA) = gA * 2 ^ 10" "unat (push_bit 11 wB) = gB * 2 ^ 11"
      using A(2) B(2) unfolding gA_def gB_def by (intro unat_push_bit; simp)+
    have m: "u128 p128 = gA * gB * 2 ^ 21"
      unfolding p128_def mul64To128_correct u by simp
    have uz: "unat z = jam (gA * gB * 2 ^ 21) 64"
      unfolding z_def val128_jam64 m ..
    define t where "t = real (gA * gB * 2 ^ 21) / 2 ^ 64"
    have lo: "2 ^ 61 \<le> unat z" and hi: "unat z < 2 ^ 63"
      unfolding uz using p jam_less_iff(1) [of "2 ^ 61" "gA * gB * 2 ^ 21" 64] jam_less_iff(1) [of "2 ^ 63" "gA * gB * 2 ^ 21" 64]
      by (simp_all add: not_less [symmetric])
    have tv: "v = t * 2 powi (eA + eB - 0x3FF - 10)"
      unfolding v_def t_def A(3) B(3) by (simp add: power_int_diff power_int_add field_simps)
    show ?thesis unfolding e
      by (rule roundPackToF64_norm1 [OF _ lo hi _ _ tv refl])
         (use A B agrees_mono [OF agrees_jam_nat, of 8 "gA * gB * 2 ^ 21" 64] in \<open>simp_all add: uz t_def\<close>)
  qed
  then show ?thesis using v0
    by (intro f64_roundedI [OF _ x]) (auto simp: sZ_def)
qed

end
