(* ===== verification/F64_Special.thy ===== *)
theory F64_Special
  imports F64_Arith F64_Compare
begin

text \<open>
  The 64-bit arithmetic operations on NaNs, infinities and zero divisors: what they return and
  which exceptions they raise.
\<close>

definition f64_inf :: "float64_t \<Rightarrow> bool" where
  "f64_inf a \<longleftrightarrow> unat a mod 2 ^ 63 = fp_inf 52 2047"

definition f64_negative :: "float64_t \<Rightarrow> bool" where
  "f64_negative a \<longleftrightarrow> 2 ^ 63 \<le> unat a"

definition f64_infinity :: "bool \<Rightarrow> float64_t" where
  "f64_infinity s = (if s then 0xFFF0000000000000 else 0x7FF0000000000000)"

definition f64_zero :: "bool \<Rightarrow> float64_t" where
  "f64_zero s = (if s then 0x8000000000000000 else 0)"

text \<open>The first NaN operand with its quiet bit set; a signaling operand raises the invalid flag.\<close>

definition f64_nan_result :: "float64_t \<Rightarrow> float64_t \<Rightarrow> softfloat_state \<Rightarrow> float64_t \<times> softfloat_state" where
  "f64_nan_result a b st =
     ((if f64_nan a then a else b) OR 0x0008000000000000,
      if f64_snan a \<or> f64_snan b then softfloat_raiseFlags softfloat_flag_invalid st else st)"

lemma f64_snan_nan: "f64_snan a \<Longrightarrow> f64_nan a"
  by (simp add: f64_snan_def)

lemma f64_propagate: "f64_propagateNaN a b st = f64_nan_result a b st"
  using f64_snan_nan [of a]
  by (auto simp: f64_propagateNaN_def softfloat_propagateNaNF64UI_def f64_nan_result_def Let_def)

text \<open>The fields tell the classes apart.\<close>

lemma f64_exp_max: "expF64UI (a :: float64_t) = 0x7FF \<longleftrightarrow> f64_nan a \<or> f64_inf a"
  and f64_frac_zero: "expF64UI a = 0x7FF \<Longrightarrow> fracF64UI a = 0 \<longleftrightarrow> f64_inf a"
  and f64_inf_not_nan: "f64_inf a \<Longrightarrow> \<not> f64_nan a"
proof -
  define n where "n = unat a mod 2 ^ 63"
  have n: "n < 2 ^ 63" by (simp add: n_def)
  have e: "expF64UI a = int (n div 2 ^ 52)" unfolding n_def by (simp add: expF64UI_index)
  have f: "fracF64UI a = 0 \<longleftrightarrow> n mod 2 ^ 52 = 0"
    unfolding n_def by (simp add: word_unat_eq_iff fracF64UI_index)
  have d: "n div 2 ^ 52 = 2047 \<longleftrightarrow> 2047 * 2 ^ 52 \<le> n"
    using n by (auto simp: div_nat_eqI dest: div_le_mono [of "2047 * 2 ^ 52" n "2 ^ 52"])
  have "n div 2 ^ 52 * 2 ^ 52 + n mod 2 ^ 52 = n" by (rule div_mult_mod_eq)
  then show "expF64UI a = 0x7FF \<longleftrightarrow> f64_nan a \<or> f64_inf a"
    and "expF64UI a = 0x7FF \<Longrightarrow> fracF64UI a = 0 \<longleftrightarrow> f64_inf a"
    and "f64_inf a \<Longrightarrow> \<not> f64_nan a"
    unfolding e f f64_nan_def f64_inf_def n_def [symmetric] using d by auto
qed

lemma f64_zero_iff_fields: "expF64UI (a :: float64_t) = 0 \<and> fracF64UI a = 0 \<longleftrightarrow> f64_real a = 0"
  unfolding f64_nonzero_iff f64_real_def by simp

lemma f64_magBits_zero: "word_of_int (expF64UI (a :: float64_t)) OR fracF64UI a = (0 :: u64) \<longleftrightarrow> f64_real a = 0"
proof -
  have "expF64UI a = int (unat a div 2 ^ 52 mod 2048)" using expF64UI_eq [of a] by simp
  then have "(word_of_int (expF64UI a) :: u64) = 0 \<longleftrightarrow> expF64UI a = 0"
    using unat_word_of_int [where 'a = 64, of "expF64UI a"] by (simp add: word_unat_eq_iff)
  then show ?thesis unfolding or_eq_0_iff f64_zero_iff_fields [symmetric] by simp
qed

lemma f64_pack_inf: "(packToF64UI s 0x7FF 0) = f64_infinity s"
  and f64_pack_zero: "(packToF64UI s 0 0) = f64_zero s"
  by (cases s; simp add: packToF64UI_def f64_infinity_def f64_zero_def)+

lemma f64_inf_eq:
  assumes "f64_inf a"
  shows "a = f64_infinity (f64_negative a)"
proof -
  have "unat a = of_bool (f64_negative a) * 2 ^ 63 + 2047 * 2 ^ 52"
    using unat_sign_indexF64 [of a] assms by (simp add: f64_inf_def f64_negative_def)
  then show ?thesis by (cases "f64_negative a") (simp_all add: word_unat_eq_iff f64_infinity_def)
qed

lemmas f64_special_simps = f64_exp_max f64_frac_zero f64_inf_not_nan f64_propagate f64_pack_inf f64_pack_zero
  f64_zero_iff_fields f64_magBits_zero or_eq_0_iff

lemma f64_frac_shift: "k \<le> 10 \<Longrightarrow> push_bit k (fracF64UI w) = 0 \<longleftrightarrow> fracF64UI w = 0"
proof -
  assume "k \<le> 10"
  then have "(2::nat) ^ k \<le> 2 ^ 10" by (intro power_increasing) auto
  moreover have "unat (fracF64UI w) < 2 ^ 52" by (simp add: unat_fracF64UI)
  ultimately have "unat (fracF64UI w) * 2 ^ k < 2 ^ 52 * 2 ^ 10" by (intro mult_less_le_imp_less) auto
  then have "unat (push_bit k (fracF64UI w)) = unat (fracF64UI w) * 2 ^ k" by (subst unat_push_bit) simp_all
  then show ?thesis by (simp add: word_unat_eq_iff)
qed

section \<open>NaN operands\<close>

lemma f64_arith_nan:
  assumes "f64_nan a \<or> f64_nan b"
  shows "f64_add a b st = f64_nan_result a b st" and "f64_sub a b st = f64_nan_result a b st"
    and "f64_mul a b st = f64_nan_result a b st" and "f64_div a b st = f64_nan_result a b st"
proof -
  define eA eB where "eA = expF64UI a" and "eB = expF64UI b"
  have le: "eA \<le> 0x7FF" "eB \<le> 0x7FF" using expF64UI_eq [of a] expF64UI_eq [of b] by (simp_all add: eA_def eB_def)
  have nan: "f64_nan c \<Longrightarrow> expF64UI c = 0x7FF \<and> fracF64UI c \<noteq> 0" for c
    using f64_exp_max [of c] f64_frac_zero [of c] f64_inf_not_nan [of c] by auto
  have shift: "push_bit 9 (fracF64UI w) = 0 \<longleftrightarrow> fracF64UI w = 0" "push_bit 10 (fracF64UI w) = 0 \<longleftrightarrow> fracF64UI w = 0" for w
    by (simp_all only: f64_frac_shift order_refl numeral_le_iff semiring_norm)
  note defs = softfloat_addMagsF64_def softfloat_subMagsF64_def Let_def f64_propagate eA_def [symmetric] eB_def [symmetric]
  consider (eq) "eA = 0x7FF" "eB = 0x7FF" "fracF64UI a \<noteq> 0 \<or> fracF64UI b \<noteq> 0"
    | (less) "eA < eB" "eB = 0x7FF" "fracF64UI b \<noteq> 0" | (greater) "eB < eA" "eA = 0x7FF" "fracF64UI a \<noteq> 0"
    using assms nan [of a] nan [of b] le by (fastforce simp: eA_def eB_def)
  then have ad: "softfloat_addMagsF64 a b (f64_negative a) st = f64_nan_result a b st \<and> softfloat_subMagsF64 a b (f64_negative a) st = f64_nan_result a b st"
  proof cases
    case eq
    then show ?thesis unfolding defs by (simp add: or_eq_0_iff)
  next
    case less
    then show ?thesis unfolding defs shift by simp
  next
    case greater
    then show ?thesis unfolding defs shift by simp
  qed
  then show "f64_add a b st = f64_nan_result a b st" and "f64_sub a b st = f64_nan_result a b st"
    unfolding f64_add_def f64_sub_def Let_def signF64UI_iff f64_negative_def [symmetric] by (simp_all only: if_cancel)
  show "f64_mul a b st = f64_nan_result a b st"
    unfolding f64_mul_def Let_def f64_propagate using assms nan [of a] nan [of b] by (cases "f64_nan a") auto
  show "f64_div a b st = f64_nan_result a b st"
    unfolding f64_div_def Let_def f64_propagate using assms nan [of a] nan [of b] by (cases "f64_nan a") auto
qed

section \<open>Infinities and zero divisors\<close>

lemma f64_inf_fields:
  assumes "\<not> f64_nan a"
  shows "expF64UI a = 0x7FF \<longleftrightarrow> f64_inf a" and "f64_inf a \<Longrightarrow> fracF64UI a = 0"
    and "\<not> f64_inf a \<Longrightarrow> expF64UI a < 0x7FF"
proof -
  show e: "expF64UI a = 0x7FF \<longleftrightarrow> f64_inf a" using assms by (simp add: f64_exp_max)
  then show "f64_inf a \<Longrightarrow> fracF64UI a = 0" by (simp add: f64_frac_zero)
  have "expF64UI a \<le> 0x7FF" using expF64UI_eq [of a] by simp
  then show "\<not> f64_inf a \<Longrightarrow> expF64UI a < 0x7FF" using e by linarith
qed

lemma f64_addMags_inf:
  assumes "\<not> f64_nan a" and "\<not> f64_nan b" and "f64_inf a \<or> f64_inf b"
  shows "softfloat_addMagsF64 a b (f64_negative a) st = (f64_infinity (f64_negative a), st)"
    and "softfloat_subMagsF64 a b (f64_negative a) st =
      (if f64_inf a \<and> f64_inf b then f64_invalid st else (f64_infinity (if f64_inf a then f64_negative a else \<not> f64_negative a), st))"
proof -
  define eA eB where "eA = expF64UI a" and "eB = expF64UI b"
  note ia = f64_inf_fields [OF assms(1), folded eA_def] and ib = f64_inf_fields [OF assms(2), folded eB_def]
  have shift: "push_bit 9 (0 :: u64) = 0" "push_bit 10 (0 :: u64) = 0" by simp_all
  note defs = softfloat_addMagsF64_def softfloat_subMagsF64_def Let_def f64_pack_inf eA_def [symmetric] eB_def [symmetric]
  consider (both) "f64_inf a" "f64_inf b" | (a) "f64_inf a" "\<not> f64_inf b" "eB < eA" | (b) "\<not> f64_inf a" "f64_inf b" "eA < eB"
    using assms(3) ia ib by fastforce
  then have "softfloat_addMagsF64 a b (f64_negative a) st = (f64_infinity (f64_negative a), st) \<and>
    softfloat_subMagsF64 a b (f64_negative a) st =
      (if f64_inf a \<and> f64_inf b then f64_invalid st else (f64_infinity (if f64_inf a then f64_negative a else \<not> f64_negative a), st))"
  proof cases
    case both
    then show ?thesis unfolding defs using ia ib f64_inf_eq [OF both(1)] by simp
  next
    case a
    then show ?thesis unfolding defs using ia f64_inf_eq [OF a(1)] by simp
  next
    case b
    then show ?thesis unfolding defs using ib by (simp add: f64_negative_def)
  qed
  then show "softfloat_addMagsF64 a b (f64_negative a) st = (f64_infinity (f64_negative a), st)"
    and "softfloat_subMagsF64 a b (f64_negative a) st =
      (if f64_inf a \<and> f64_inf b then f64_invalid st else (f64_infinity (if f64_inf a then f64_negative a else \<not> f64_negative a), st))"
    by blast+
qed

lemma f64_add_inf:
  assumes "\<not> f64_nan a" and "\<not> f64_nan b" and "f64_inf a \<or> f64_inf b"
  shows "f64_add a b st =
      (if f64_inf a \<and> f64_inf b \<and> f64_negative a \<noteq> f64_negative b then f64_invalid st
       else (f64_infinity (if f64_inf a then f64_negative a else f64_negative b), st))"
    and "f64_sub a b st =
      (if f64_inf a \<and> f64_inf b \<and> f64_negative a = f64_negative b then f64_invalid st
       else (f64_infinity (if f64_inf a then f64_negative a else \<not> f64_negative b), st))"
  unfolding f64_add_def f64_sub_def Let_def signF64UI_iff f64_negative_def [symmetric] f64_addMags_inf [OF assms]
  using assms(3) by auto

lemma f64_mul_inf:
  assumes "\<not> f64_nan a" and "\<not> f64_nan b" and "f64_inf a \<or> f64_inf b"
  shows "f64_mul a b st =
      (if \<not> f64_inf a \<and> f64_real a = 0 \<or> \<not> f64_inf b \<and> f64_real b = 0 then f64_invalid st
       else (f64_infinity (f64_negative a \<noteq> f64_negative b), st))"
proof -
  note ia = f64_inf_fields [OF assms(1)] and ib = f64_inf_fields [OF assms(2)]
  have nz: "f64_inf c \<Longrightarrow> f64_real c \<noteq> 0" for c by (simp add: f64_real_def f64_inf_def)
  show ?thesis
    unfolding f64_mul_def Let_def f64_pack_inf f64_magBits_zero signF64UI_iff f64_negative_def [symmetric]
    using assms(3) ia ib nz [of a] nz [of b] by (cases "f64_inf a"; cases "f64_inf b") simp_all
qed

lemma f64_div_special:
  assumes "\<not> f64_nan a" and "\<not> f64_nan b" and "f64_inf a \<or> f64_inf b \<or> f64_real b = 0"
  shows "f64_div a b st =
      (if f64_inf a \<and> f64_inf b \<or> \<not> f64_inf a \<and> f64_real a = 0 \<and> f64_real b = 0 then f64_invalid st
       else if f64_inf a then (f64_infinity (f64_negative a \<noteq> f64_negative b), st)
       else if f64_inf b then (f64_zero (f64_negative a \<noteq> f64_negative b), st)
       else (f64_infinity (f64_negative a \<noteq> f64_negative b), softfloat_raiseFlags softfloat_flag_infinite st))"
proof -
  note ia = f64_inf_fields [OF assms(1)] and ib = f64_inf_fields [OF assms(2)]
  have nz: "f64_inf c \<Longrightarrow> f64_real c \<noteq> 0" for c by (simp add: f64_real_def f64_inf_def)
  show ?thesis
    unfolding f64_div_def Let_def f64_pack_inf f64_pack_zero f64_zero_iff_fields f64_magBits_zero signF64UI_iff f64_negative_def [symmetric]
    using assms(3) ia ib nz [of a] nz [of b] by (cases "f64_inf a"; cases "f64_inf b") simp_all
qed

end
