(* ===== verification/WL_Prelude.thy ===== *)
theory WL_Prelude
  imports SF_Prelude
begin

text \<open>
  Shared types of the models of \<open>wasmlib\<close>: the exceptions of \<open>exceptions.hpp\<close>, each with its
  message, and the result of code that may throw (\<open>Inl\<close> the exception, \<open>Inr\<close> the value).
\<close>

datatype ftl_exception =
    invalid_name_exception string
  | invalid_address_exception string
  | wasm_runtime_exception string
  | wasm_serialization_exception string
  | overlapping_memory_error string
  | crypto_api_exception string
  | arithmetic_exception string

text \<open>The exception codes of \<open>FTL_DECLARE_DERIVED_EXCEPTION\<close>.\<close>

fun exception_code :: "ftl_exception \<Rightarrow> int" where
  "exception_code (invalid_name_exception _) = 20001"
| "exception_code (invalid_address_exception _) = 20002"
| "exception_code (wasm_runtime_exception _) = 20003"
| "exception_code (wasm_serialization_exception _) = 20004"
| "exception_code (overlapping_memory_error _) = 20005"
| "exception_code (crypto_api_exception _) = 20006"
| "exception_code (arithmetic_exception _) = 20007"

type_synonym 'a result = "ftl_exception + 'a"

text \<open>Sequencing of code that may throw: \<open>FTL_ASSERT\<close> and the statement after it.\<close>

fun bind_result :: "'a result \<Rightarrow> ('a \<Rightarrow> 'b result) \<Rightarrow> 'b result" where
  "bind_result (Inl e) f = Inl e"
| "bind_result (Inr x) f = f x"

definition ftl_assert :: "bool \<Rightarrow> ftl_exception \<Rightarrow> unit result" where
  "ftl_assert c e = (if c then Inr () else Inl e)"

lemma bind_result_Inr_iff [simp]: "bind_result r f = Inr y \<longleftrightarrow> (\<exists>x. r = Inr x \<and> f x = Inr y)"
  by (cases r) simp_all

lemma ftl_assert_Inr_iff [simp]: "ftl_assert c e = Inr u \<longleftrightarrow> c"
  by (simp add: ftl_assert_def)

lemma result_cases_Inr: "(\<forall>e. r \<noteq> Inl e) \<longleftrightarrow> (\<exists>x. r = Inr x)"
  by (cases r) simp_all

end
