(* ===== verification/F32_RoundToInt.thy ===== *)
theory F32_RoundToInt
  imports F32_Arith Float_Truncate
begin

text \<open>
  Rounding to an integral value in the 32-bit format (\<open>f32_roundToInt.c\<close>): the value of the result
  is the integer that the mode selects, the sign is kept and the inexact flag is raised exactly when
  it is asked for and the value changed.
\<close>

definition f32_roundToInt :: "float32_t \<Rightarrow> uint_fast8 \<Rightarrow> bool \<Rightarrow> softfloat_state \<Rightarrow> float32_t \<times> softfloat_state" where
  "f32_roundToInt a roundingMode exact st =
     (let uiA = ucast a; exp = expF32UI uiA
      in if exp \<le> 0x7E then
           if (ucast (push_bit 1 uiA) :: u32) = 0 then (a, st)
           else
             let st = (if exact then raise_inexact st else st);
                 uiZ = uiA AND packToF32UI True 0 0;
                 nearMaxMag = (if exp = 0x7E then uiZ OR packToF32UI False 0x7F 0 else uiZ);
                 uiZ = (if roundingMode = softfloat_round_near_even
                          then if fracF32UI uiA = 0 then uiZ else nearMaxMag
                        else if roundingMode = softfloat_round_near_maxMag then nearMaxMag
                        else if roundingMode = softfloat_round_min
                          then if uiZ \<noteq> 0 then packToF32UI True 0x7F 0 else uiZ
                        else if roundingMode = softfloat_round_max
                          then if uiZ = 0 then packToF32UI False 0x7F 0 else uiZ
                        else uiZ)
             in (ucast uiZ, st)
         else if 0x96 \<le> exp then
           if exp = 0xFF \<and> fracF32UI uiA \<noteq> 0 then f32_propagateNaN uiA 0 st else (a, st)
         else
           let uiZ = uiA;
               lastBitMask = push_bit (nat (0x96 - exp)) 1 :: uint_fast32;
               roundBitsMask = lastBitMask - 1;
               uiZ = (if roundingMode = softfloat_round_near_maxMag then uiZ + drop_bit 1 lastBitMask
                      else if roundingMode = softfloat_round_near_even then
                        let uiZ = uiZ + drop_bit 1 lastBitMask
                        in if uiZ AND roundBitsMask = 0 then uiZ AND NOT lastBitMask else uiZ
                      else if roundingMode = (if signF32UI uiZ then softfloat_round_min else softfloat_round_max)
                        then uiZ + roundBitsMask
                      else uiZ);
               uiZ = uiZ AND NOT roundBitsMask;
               st = (if uiZ \<noteq> uiA then if exact then raise_inexact st else st else st)
           in (ucast uiZ, st))"

text \<open>What the result promises.\<close>

definition f32_integral :: "rmode \<Rightarrow> bool \<Rightarrow> float32_t \<Rightarrow> softfloat_state \<Rightarrow> float32_t \<times> softfloat_state \<Rightarrow> bool" where
  "f32_integral m exact a st res \<longleftrightarrow>
     f32_finite (fst res) \<and> f32_real (fst res) = of_int (round_int m (f32_real a)) \<and>
     (2 ^ 31 \<le> unat (fst res) \<longleftrightarrow> 2 ^ 31 \<le> unat a) \<and>
     snd res = (if exact \<and> f32_real (fst res) \<noteq> f32_real a then softfloat_raiseFlags softfloat_flag_inexact st else st)"

lemma f32_integralI:
  assumes "f32_real a = (if s then - y else y)" and "0 \<le> y" and "s \<longleftrightarrow> 2 ^ 31 \<le> unat a"
    and "unat z = of_bool s * 2 ^ 31 + k" and "k < fp_inf 23 255"
    and "real (fmag 23 k) / 2 ^ 149 = real (round_mag m s y)"
    and "st' = (if exact \<and> real (round_mag m s y) \<noteq> y then softfloat_raiseFlags softfloat_flag_inexact st else st)"
  shows "f32_integral m exact a st (z, st')"
proof -
  have "unat z mod 2 ^ 31 = k" "2 ^ 31 \<le> unat z \<longleftrightarrow> s" using assms(4,5) by (cases s; simp)+
  moreover from this have "f32_real z = (if s then - real (round_mag m s y) else real (round_mag m s y))"
    unfolding f32_real_def using assms(6) by simp
  ultimately show ?thesis
    unfolding f32_integral_def using assms(1-3,5,7) round_int_signed [OF assms(2), of m s]
    by (auto simp: f32_finite_def)
qed


section \<open>Correctness\<close>

lemma f32_half:
  assumes "E \<le> 126" and "E = 0 \<Longrightarrow> M < 2 ^ 23" and "1 \<le> E \<Longrightarrow> 2 ^ 23 \<le> M" and "M < 2 ^ (23 + 1)"
    and "y = real M * 2 ^ (E - 1) / 2 ^ 149"
  shows "1 / 2 \<le> y \<longleftrightarrow> E = 126" and "1 / 2 < y \<longleftrightarrow> E = 126 \<and> M \<noteq> 2 ^ 23"
proof -
  have "(1 / 2 \<le> y \<longleftrightarrow> E = 126) \<and> (1 / 2 < y \<longleftrightarrow> E = 126 \<and> M \<noteq> 2 ^ 23)"
  proof (cases "E = 126")
    case True
    then have "2 ^ 23 \<le> M" using assms(3) by simp
    then show ?thesis using True assms(5) by auto
  next
    case False
    have "real M * 2 ^ (E - 1) / 2 ^ 148 < 1" by (rule mag_less_1 [OF assms(4)]) (use assms(1) False in simp_all)
    then show ?thesis using False assms(5) by simp
  qed
  then show "1 / 2 \<le> y \<longleftrightarrow> E = 126" and "1 / 2 < y \<longleftrightarrow> E = 126 \<and> M \<noteq> 2 ^ 23" by blast+
qed

lemma f32_roundToInt_large:
  assumes "n = unat a mod 2 ^ 31" and "E = n div 2 ^ 23" and "150 \<le> E" and "f32_finite a"
  shows "f32_integral m exact a st (a, st)"
proof -
  define M s y where "M = fp_sig 23 n" and "s \<longleftrightarrow> 2 ^ 31 \<le> unat a" and "y = real M * 2 ^ (E - 1) / 2 ^ 149"
  note fl = f32_int_fields [OF assms(1,2) M_def refl]
  have "E - 1 = E - 150 + 149" using assms(3) by simp
  then have "(2::real) ^ (E - 1) = 2 ^ (E - 150) * 2 ^ 149" by (simp only: power_add)
  then have y: "y = real (M * 2 ^ (E - 150))" by (simp add: y_def)
  then have "frac y = 0" by (metis Ints_of_nat frac_eq_0_iff)
  then have r: "real (round_mag m s y) = y" using round_mag_exact_iff [of y m s] y by simp
  have u: "unat a = of_bool s * 2 ^ 31 + n"
    using unat_sign_index [of "ucast a"] unat_f32_less [of a] by (simp add: s_def assms(1))
  have "real (fmag 23 n) / 2 ^ 149 = y" unfolding y_def M_def assms(2) fmag_sig_exp fp_exp_def by simp
  then have fm: "real (fmag 23 n) / 2 ^ 149 = real (round_mag m s y)" unfolding r .
  show ?thesis
  proof (rule f32_integralI [OF _ _ s_def u _ fm])
    show "f32_real a = (if s then - y else y)" unfolding s_def y_def by (rule fl(6))
    show "0 \<le> y" by (simp add: y)
    show "n < fp_inf 23 255" using assms(1,4) by (simp add: f32_finite_def)
  qed (simp add: r)
qed

lemma f32_rounded_significand:
  assumes "2 ^ 23 \<le> M" and "M < 2 ^ (23 + 1)" and "1 \<le> d" and "d \<le> 23"
  shows "round_sig m s d M * 2 ^ d \<le> 2 ^ 24" and "2 ^ 23 \<le> round_sig m s d M * 2 ^ d"
proof -
  have p: "2 ^ 23 = 2 ^ (23 - d) * (2::nat) ^ d" "2 ^ 24 = 2 ^ (24 - d) * (2::nat) ^ d"
    using assms(4) by (simp_all flip: power_add)
  have q: "2 ^ (23 - d) \<le> M div 2 ^ d" using assms(1) unfolding p(1) by (simp add: less_eq_div_iff_mult_less_eq)
  have "M div 2 ^ d < 2 ^ (24 - d)" using assms(2) p(2) by (simp add: div_less_iff_less_mult)
  moreover have "round_sig m s d M \<le> M div 2 ^ d + 1" "M div 2 ^ d \<le> round_sig m s d M"
    using round_sig_eq [OF assms(3), of m s M] by auto
  ultimately have "round_sig m s d M \<le> 2 ^ (24 - d)" "2 ^ (23 - d) \<le> round_sig m s d M" using q by linarith+
  then show "round_sig m s d M * 2 ^ d \<le> 2 ^ 24" and "2 ^ 23 \<le> round_sig m s d M * 2 ^ d"
    unfolding p by (simp_all only: mult_le_mono1)
qed

lemma f32_roundToInt_mid:
  assumes "n = unat a mod 2 ^ 31" and "E = n div 2 ^ 23" and "127 \<le> E" and "E < 150"
  shows "f32_integral (rmode_of b) exact a st (f32_roundToInt a b exact st)"
proof -
  define m M s y where "m = rmode_of b" and "M = fp_sig 23 n" and "s \<longleftrightarrow> 2 ^ 31 \<le> unat a" and "y = real M * 2 ^ (E - 1) / 2 ^ 149"
  note fl = f32_int_fields [OF assms(1,2) M_def refl]
  define d where "d = 150 - E"
  have d: "1 \<le> d" "d \<le> 23" "nat (0x96 - int E) = d" using assms(3,4) by (auto simp: d_def)
  have u: "unat a = of_bool s * 2 ^ 31 + n"
    using unat_sign_index [of "ucast a"] unat_f32_less [of a] by (simp add: s_def assms(1))
  have n: "n = (E - 1) * 2 ^ 23 + M" using fp_sig_exp_index [of 23 n] unfolding M_def assms(2) fp_exp_def by simp
  define c where "c = (of_bool s * 2 ^ 8 + (E - 1)) * 2 ^ (23 - d)"
  have p: "2 ^ 23 = 2 ^ (23 - d) * (2::nat) ^ d" using d(2) by (simp flip: power_add)
  have uc: "unat a = c * 2 ^ d + M"
    unfolding u n c_def mult.assoc p [symmetric] by (simp add: add_mult_distrib)
  have "even c"
  proof (cases "d = 23")
    case True
    then have "E = 127" using assms(3,4) by (simp add: d_def)
    then show ?thesis by (simp add: c_def)
  qed (use d(2) in \<open>simp add: c_def\<close>)
  then have rs: "round_sig m s d (unat a) = c + round_sig m s d M" unfolding uc by (rule round_sig_shift [OF d(1)])
  have y: "y = real M / 2 ^ d" unfolding y_def d_def using scaled_shift [of E 150 0 149 0 M] assms(3,4) by simp
  define k where "k = round_mag m s y"
  have k: "round_sig m s d M = k"
    using round_sig_agrees [of d "real M" M m s] d(1) by (simp add: k_def y)
  define L where "L = (push_bit d 1 :: u64)"
  define z where "z = (if b = softfloat_round_near_maxMag then ucast a + drop_bit 1 L
              else if b = softfloat_round_near_even then
                if ucast a + drop_bit 1 L AND (L - 1) = 0 then ucast a + drop_bit 1 L AND NOT L else ucast a + drop_bit 1 L
              else if b = (if s then softfloat_round_min else softfloat_round_max) then ucast a + (L - 1)
              else ucast a) AND NOT (L - 1)"
  have "unat z = round_sig m s d (unat a) * 2 ^ d"
    unfolding m_def using round_low_bits [OF _ d(1) _ L_def z_def] unat_f32_less [of a] d(2) power_increasing [OF d(2), of "2::nat"] by simp
  then have z: "unat z = c * 2 ^ d + k * 2 ^ d" unfolding rs k by (simp add: add_mult_distrib)
  have kM: "k * 2 ^ d \<le> 2 ^ 24" "2 ^ 23 \<le> k * 2 ^ d"
    using f32_rounded_significand [OF _ fl(5) d(1,2), of m s] fl(4) assms(3) unfolding k by simp_all
  define j where "j = (E - 1) * 2 ^ 23 + k * 2 ^ d"
  have zj: "unat z = of_bool s * 2 ^ 31 + j"
    unfolding z c_def j_def mult.assoc p [symmetric] by (simp add: add_mult_distrib)
  have jl: "j < fp_inf 23 255" using kM(1) assms(4) by (auto simp: j_def intro!: le_less_trans [OF add_mono [of "(E - 1) * 2 ^ 23" "148 * 2 ^ 23"]])
  have e: "f32_roundToInt a b exact st = (ucast z, if z \<noteq> ucast a \<and> exact then softfloat_raiseFlags softfloat_flag_inexact st else st)"
    using assms(3,4) unfolding f32_roundToInt_def Let_def fl(1) d(3) L_def [symmetric] f32_sign s_def [symmetric] z_def [symmetric] raise_inexact_eq
    by simp
  have uz: "unat (ucast z :: u32) = of_bool s * 2 ^ 31 + j" using jl zj by (subst unat_ucast_small) auto
  have "fmag 23 j = k * 2 ^ d * 2 ^ (E - 1)" unfolding j_def by (rule fmag_pack) (use kM in simp_all)
  moreover have "(2::real) ^ d * 2 ^ (E - 1) = 2 ^ 149" unfolding power_add [symmetric] using assms(3,4) by (simp add: d_def)
  ultimately have fm: "real (fmag 23 j) / 2 ^ 149 = real (round_mag m s y)" by (simp add: k_def [symmetric] mult.assoc)
  have "z = ucast a \<longleftrightarrow> k * 2 ^ d = M" using z uc by (simp add: word_unat_eq_iff)
  also have "\<dots> \<longleftrightarrow> real (round_mag m s y) = y"
  proof -
    have "k * 2 ^ d = M \<longleftrightarrow> real (k * 2 ^ d) = real M" by (simp only: of_nat_eq_iff)
    also have "\<dots> \<longleftrightarrow> real k = real M / 2 ^ d" by (simp add: field_simps)
    finally show ?thesis unfolding k_def [symmetric] unfolding y .
  qed
  finally have ze: "z = ucast a \<longleftrightarrow> real (round_mag m s y) = y" .
  show ?thesis unfolding e m_def [symmetric]
  proof (rule f32_integralI [OF _ _ s_def uz jl fm])
    show "f32_real a = (if s then - y else y)" unfolding s_def y_def by (rule fl(6))
    show "0 \<le> y" by (simp add: y)
  qed (simp add: ze)
qed

lemma f32_roundToInt_small:
  assumes "n = unat a mod 2 ^ 31" and "E = n div 2 ^ 23" and "E \<le> 126"
  shows "f32_integral (rmode_of b) exact a st (f32_roundToInt a b exact st)"
proof -
  define m M s y f where "m = rmode_of b" and "M = fp_sig 23 n" and "s \<longleftrightarrow> 2 ^ 31 \<le> unat a"
    and "y = real M * 2 ^ (E - 1) / 2 ^ 149" and "f = fracF32UI (ucast a)"
  note fl = f32_int_fields [OF assms(1,2) M_def f_def]
  have x: "f32_real a = (if s then - y else y)" unfolding s_def y_def by (rule fl(6))
  have u: "unat a = of_bool s * 2 ^ 31 + n"
    using unat_sign_index [of "ucast a"] unat_f32_less [of a] by (simp add: s_def assms(1))
  have M0: "M = 0 \<longleftrightarrow> n = 0" by (auto simp: M_def fp_sig_def)
  have z: "(ucast (push_bit 1 (ucast a :: uint_fast32)) :: u32) = 0 \<longleftrightarrow> n = 0"
    using f32_both_zero [of a a] by (simp add: assms(1))
  show ?thesis
  proof (cases "n = 0")
    case True
    then have "f32_roundToInt a b exact st = (a, st)" using z assms(3) by (simp add: f32_roundToInt_def Let_def fl(1))
    moreover have "y = 0" using True M0 by (simp add: y_def)
    ultimately show ?thesis using True u by (auto intro!: f32_integralI [OF x _ s_def])
  next
    case False
    have y0: "0 < y" using False M0 by (simp add: y_def)
    have y1: "y < 1" unfolding y_def by (rule mag_less_1 [OF fl(5)]) (use assms(3) in simp_all)
    note h = f32_half [OF assms(3) fl(3-5) y_def]
    have f0: "f = 0 \<and> E = 126 \<longleftrightarrow> M = 2 ^ 23 \<and> E = 126"
      using fl(2) by (auto simp: word_unat_eq_iff fracF32UI_index f_def M_def fp_sig_def assms(1,2))
    define k where "k = round_mag m s y"
    have k: "k = of_bool (case m of Round_near_even \<Rightarrow> E = 126 \<and> f \<noteq> 0 | Round_near_maxMag \<Rightarrow> E = 126
        | Round_min \<Rightarrow> s | Round_max \<Rightarrow> \<not> s | Round_minMag \<Rightarrow> False)"
      unfolding k_def round_mag_fraction [OF y0 y1] using f0 by (cases m) (simp_all only: rmode.case h, auto)
    define S :: u64 where "S = ucast a AND packToF32UI True 0 0"
    have S: "S = packToF32UI s 0 0"
    proof -
      have "packToF32UI True 0 0 = push_bit 31 (mask 1)" by (simp add: packToF32UI_def)
      then have "unat S = unat a div 2 ^ 31 mod 2 ^ 1 * 2 ^ 31"
        unfolding S_def using unat_and_field [of 31 1 "ucast a :: u64"] by simp
      also have "\<dots> = of_bool s * 2 ^ 31" unfolding u using assms(1) by (cases s) simp_all
      finally show ?thesis by (simp add: word_unat_eq_iff unat_packToF32UI)
    qed
    have P: "packToF32UI s 0 0 OR packToF32UI False 0x7F 0 = packToF32UI s 0x7F 0" "packToF32UI s 0 0 = 0 \<longleftrightarrow> \<not> s"
      by (cases s; simp add: packToF32UI_def)+
    have e: "f32_roundToInt a b exact st =
      (ucast (packToF32UI s (if k = 0 then 0 else 0x7F) 0), if exact then softfloat_raiseFlags softfloat_flag_inexact st else st)"
      using assms(3) z False S P unfolding f32_roundToInt_def Let_def fl(1) f_def [symmetric] S_def [symmetric] raise_inexact_eq k
      by (auto simp: m_def rmode_of_def)
    have uz: "unat (ucast (packToF32UI s (if k = 0 then 0 else 0x7F) 0) :: u32) = of_bool s * 2 ^ 31 + k * 127 * 2 ^ 23"
      using k by (subst packF32_small) auto
    have "real (fmag 23 (k * 127 * 2 ^ 23)) / 2 ^ 149 = real (round_mag m s y)"
      unfolding k_def [symmetric] using k by (simp add: fmag_def)
    moreover have "real (round_mag m s y) \<noteq> y" using y0 y1 k unfolding k_def [symmetric] by auto
    ultimately show ?thesis unfolding e m_def [symmetric]
      by (intro f32_integralI [OF x _ s_def uz]) (use y0 k in auto)
  qed
qed

lemma f32_roundToInt_correct:
  assumes "f32_finite a"
  shows "f32_integral (rmode_of b) exact a st (f32_roundToInt a b exact st)"
proof -
  define n E where "n = unat a mod 2 ^ 31" and "E = n div 2 ^ 23"
  note fl = f32_int_fields [OF n_def E_def refl refl]
  consider "E \<le> 126" | "127 \<le> E" "E < 150" | "150 \<le> E" by linarith
  then show ?thesis
  proof cases
    case 3
    moreover have "E \<noteq> 255" using assms fl(7) by simp
    ultimately have "f32_roundToInt a b exact st = (a, st)" by (simp add: f32_roundToInt_def Let_def fl(1))
    then show ?thesis using f32_roundToInt_large [OF n_def E_def 3 assms] by simp
  qed (use f32_roundToInt_small [OF n_def E_def] f32_roundToInt_mid [OF n_def E_def] in blast)+
qed

end
