(* ===== verification/F64_RoundToInt.thy ===== *)
theory F64_RoundToInt
  imports F64_Arith Float_Truncate
begin

text \<open>
  Rounding to an integral value in the 64-bit format (\<open>f64_roundToInt.c\<close>): the value of the result
  is the integer that the mode selects, the sign is kept and the inexact flag is raised exactly when
  it is asked for and the value changed.
\<close>

definition f64_roundToInt :: "float64_t \<Rightarrow> uint_fast8 \<Rightarrow> bool \<Rightarrow> softfloat_state \<Rightarrow> float64_t \<times> softfloat_state" where
  "f64_roundToInt a roundingMode exact st =
     (let uiA = a; exp = expF64UI uiA
      in if exp \<le> 0x3FE then
           if uiA AND 0x7FFFFFFFFFFFFFFF = 0 then (a, st)
           else
             let st = (if exact then raise_inexact st else st);
                 uiZ = uiA AND packToF64UI True 0 0;
                 nearMaxMag = (if exp = 0x3FE then uiZ OR packToF64UI False 0x3FF 0 else uiZ);
                 uiZ = (if roundingMode = softfloat_round_near_even
                          then if fracF64UI uiA = 0 then uiZ else nearMaxMag
                        else if roundingMode = softfloat_round_near_maxMag then nearMaxMag
                        else if roundingMode = softfloat_round_min
                          then if uiZ \<noteq> 0 then packToF64UI True 0x3FF 0 else uiZ
                        else if roundingMode = softfloat_round_max
                          then if uiZ = 0 then packToF64UI False 0x3FF 0 else uiZ
                        else uiZ)
             in (uiZ, st)
         else if 0x433 \<le> exp then
           if exp = 0x7FF \<and> fracF64UI uiA \<noteq> 0 then f64_propagateNaN uiA 0 st else (a, st)
         else
           let uiZ = uiA;
               lastBitMask = push_bit (nat (0x433 - exp)) 1 :: uint_fast64;
               roundBitsMask = lastBitMask - 1;
               uiZ = (if roundingMode = softfloat_round_near_maxMag then uiZ + drop_bit 1 lastBitMask
                      else if roundingMode = softfloat_round_near_even then
                        let uiZ = uiZ + drop_bit 1 lastBitMask
                        in if uiZ AND roundBitsMask = 0 then uiZ AND NOT lastBitMask else uiZ
                      else if roundingMode = (if signF64UI uiZ then softfloat_round_min else softfloat_round_max)
                        then uiZ + roundBitsMask
                      else uiZ);
               uiZ = uiZ AND NOT roundBitsMask;
               st = (if uiZ \<noteq> uiA then if exact then raise_inexact st else st else st)
           in (uiZ, st))"

text \<open>What the result promises.\<close>

definition f64_integral :: "rmode \<Rightarrow> bool \<Rightarrow> float64_t \<Rightarrow> softfloat_state \<Rightarrow> float64_t \<times> softfloat_state \<Rightarrow> bool" where
  "f64_integral m exact a st res \<longleftrightarrow>
     f64_finite (fst res) \<and> f64_real (fst res) = of_int (round_int m (f64_real a)) \<and>
     (2 ^ 63 \<le> unat (fst res) \<longleftrightarrow> 2 ^ 63 \<le> unat a) \<and>
     snd res = (if exact \<and> f64_real (fst res) \<noteq> f64_real a then softfloat_raiseFlags softfloat_flag_inexact st else st)"

lemma f64_integralI:
  assumes "f64_real a = (if s then - y else y)" and "0 \<le> y" and "s \<longleftrightarrow> 2 ^ 63 \<le> unat a"
    and "unat z = of_bool s * 2 ^ 63 + k" and "k < fp_inf 52 2047"
    and "real (fmag 52 k) / 2 ^ 1074 = real (round_mag m s y)"
    and "st' = (if exact \<and> real (round_mag m s y) \<noteq> y then softfloat_raiseFlags softfloat_flag_inexact st else st)"
  shows "f64_integral m exact a st (z, st')"
proof -
  have "unat z mod 2 ^ 63 = k" "2 ^ 63 \<le> unat z \<longleftrightarrow> s" using assms(4,5) by (cases s; simp)+
  moreover from this have "f64_real z = (if s then - real (round_mag m s y) else real (round_mag m s y))"
    unfolding f64_real_def using assms(6) by simp
  ultimately show ?thesis
    unfolding f64_integral_def using assms(1-3,5,7) round_int_signed [OF assms(2), of m s]
    by (auto simp: f64_finite_def)
qed


section \<open>Correctness\<close>

lemma f64_half:
  assumes "E \<le> 1022" and "E = 0 \<Longrightarrow> M < 2 ^ 52" and "1 \<le> E \<Longrightarrow> 2 ^ 52 \<le> M" and "M < 2 ^ (52 + 1)"
    and "y = real M * 2 ^ (E - 1) / 2 ^ 1074"
  shows "1 / 2 \<le> y \<longleftrightarrow> E = 1022" and "1 / 2 < y \<longleftrightarrow> E = 1022 \<and> M \<noteq> 2 ^ 52"
proof -
  have "(1 / 2 \<le> y \<longleftrightarrow> E = 1022) \<and> (1 / 2 < y \<longleftrightarrow> E = 1022 \<and> M \<noteq> 2 ^ 52)"
  proof (cases "E = 1022")
    case True
    then have "2 ^ 52 \<le> M" using assms(3) by simp
    then show ?thesis using True assms(5) by auto
  next
    case False
    have "real M * 2 ^ (E - 1) / 2 ^ 1073 < 1" by (rule mag_less_1 [OF assms(4)]) (use assms(1) False in simp_all)
    then show ?thesis using False assms(5) by simp
  qed
  then show "1 / 2 \<le> y \<longleftrightarrow> E = 1022" and "1 / 2 < y \<longleftrightarrow> E = 1022 \<and> M \<noteq> 2 ^ 52" by blast+
qed

lemma f64_roundToInt_large:
  assumes "n = unat a mod 2 ^ 63" and "E = n div 2 ^ 52" and "1075 \<le> E" and "f64_finite a"
  shows "f64_integral m exact a st (a, st)"
proof -
  define M s y where "M = fp_sig 52 n" and "s \<longleftrightarrow> 2 ^ 63 \<le> unat a" and "y = real M * 2 ^ (E - 1) / 2 ^ 1074"
  note fl = f64_int_fields [OF assms(1,2) M_def refl]
  have "E - 1 = E - 1075 + 1074" using assms(3) by simp
  then have "(2::real) ^ (E - 1) = 2 ^ (E - 1075) * 2 ^ 1074" by (simp only: power_add)
  then have y: "y = real (M * 2 ^ (E - 1075))" by (simp add: y_def)
  then have "frac y = 0" by (metis Ints_of_nat frac_eq_0_iff)
  then have r: "real (round_mag m s y) = y" using round_mag_exact_iff [of y m s] y by simp
  have u: "unat a = of_bool s * 2 ^ 63 + n"
    using unat_sign_indexF64 [of a] by (simp add: s_def assms(1))
  have "real (fmag 52 n) / 2 ^ 1074 = y" unfolding y_def M_def assms(2) fmag_sig_exp fp_exp_def by simp
  then have fm: "real (fmag 52 n) / 2 ^ 1074 = real (round_mag m s y)" unfolding r .
  show ?thesis
  proof (rule f64_integralI [OF _ _ s_def u _ fm])
    show "f64_real a = (if s then - y else y)" unfolding s_def y_def by (rule fl(6))
    show "0 \<le> y" by (simp add: y)
    show "n < fp_inf 52 2047" using assms(1,4) by (simp add: f64_finite_def)
  qed (simp add: r)
qed

lemma f64_rounded_significand:
  assumes "2 ^ 52 \<le> M" and "M < 2 ^ (52 + 1)" and "1 \<le> d" and "d \<le> 52"
  shows "round_sig m s d M * 2 ^ d \<le> 2 ^ 53" and "2 ^ 52 \<le> round_sig m s d M * 2 ^ d"
proof -
  have p: "2 ^ 52 = 2 ^ (52 - d) * (2::nat) ^ d" "2 ^ 53 = 2 ^ (53 - d) * (2::nat) ^ d"
    using assms(4) by (simp_all flip: power_add)
  have q: "2 ^ (52 - d) \<le> M div 2 ^ d" using assms(1) unfolding p(1) by (simp add: less_eq_div_iff_mult_less_eq)
  have "M div 2 ^ d < 2 ^ (53 - d)" using assms(2) p(2) by (simp add: div_less_iff_less_mult)
  moreover have "round_sig m s d M \<le> M div 2 ^ d + 1" "M div 2 ^ d \<le> round_sig m s d M"
    using round_sig_eq [OF assms(3), of m s M] by auto
  ultimately have "round_sig m s d M \<le> 2 ^ (53 - d)" "2 ^ (52 - d) \<le> round_sig m s d M" using q by linarith+
  then show "round_sig m s d M * 2 ^ d \<le> 2 ^ 53" and "2 ^ 52 \<le> round_sig m s d M * 2 ^ d"
    unfolding p by (simp_all only: mult_le_mono1)
qed

lemma f64_roundToInt_mid:
  assumes "n = unat a mod 2 ^ 63" and "E = n div 2 ^ 52" and "1023 \<le> E" and "E < 1075"
  shows "f64_integral (rmode_of b) exact a st (f64_roundToInt a b exact st)"
proof -
  define m M s y where "m = rmode_of b" and "M = fp_sig 52 n" and "s \<longleftrightarrow> 2 ^ 63 \<le> unat a" and "y = real M * 2 ^ (E - 1) / 2 ^ 1074"
  note fl = f64_int_fields [OF assms(1,2) M_def refl]
  define d where "d = 1075 - E"
  have d: "1 \<le> d" "d \<le> 52" "nat (0x433 - int E) = d" using assms(3,4) by (auto simp: d_def)
  have u: "unat a = of_bool s * 2 ^ 63 + n"
    using unat_sign_indexF64 [of a] by (simp add: s_def assms(1))
  have n: "n = (E - 1) * 2 ^ 52 + M" using fp_sig_exp_index [of 52 n] unfolding M_def assms(2) fp_exp_def by simp
  define c where "c = (of_bool s * 2 ^ 11 + (E - 1)) * 2 ^ (52 - d)"
  have p: "2 ^ 52 = 2 ^ (52 - d) * (2::nat) ^ d" using d(2) by (simp flip: power_add)
  have uc: "unat a = c * 2 ^ d + M"
    unfolding u n c_def mult.assoc p [symmetric] by (simp add: add_mult_distrib)
  have "even c"
  proof (cases "d = 52")
    case True
    then have "E = 1023" using assms(3,4) by (simp add: d_def)
    then show ?thesis by (simp add: c_def)
  qed (use d(2) in \<open>simp add: c_def\<close>)
  then have rs: "round_sig m s d (unat a) = c + round_sig m s d M" unfolding uc by (rule round_sig_shift [OF d(1)])
  have y: "y = real M / 2 ^ d" unfolding y_def d_def using scaled_shift [of E 1075 0 1074 0 M] assms(3,4) by simp
  define k where "k = round_mag m s y"
  have k: "round_sig m s d M = k"
    using round_sig_agrees [of d "real M" M m s] d(1) by (simp add: k_def y)
  define L where "L = (push_bit d 1 :: u64)"
  define z where "z = (if b = softfloat_round_near_maxMag then a + drop_bit 1 L
              else if b = softfloat_round_near_even then
                if a + drop_bit 1 L AND (L - 1) = 0 then a + drop_bit 1 L AND NOT L else a + drop_bit 1 L
              else if b = (if s then softfloat_round_min else softfloat_round_max) then a + (L - 1)
              else a) AND NOT (L - 1)"
  have "n < 1075 * 2 ^ 52" using assms(4) unfolding assms(2) by (simp add: div_less_iff_less_mult)
  then have "unat a + 2 ^ d < 2 ^ 64" using u power_increasing [OF d(2), of "2::nat"] by (cases s) simp_all
  then have "unat z = round_sig m s d (unat a) * 2 ^ d"
    unfolding m_def using round_low_bits [OF _ d(1) _ L_def z_def] d(2) by simp
  then have z: "unat z = c * 2 ^ d + k * 2 ^ d" unfolding rs k by (simp add: add_mult_distrib)
  have kM: "k * 2 ^ d \<le> 2 ^ 53" "2 ^ 52 \<le> k * 2 ^ d"
    using f64_rounded_significand [OF _ fl(5) d(1,2), of m s] fl(4) assms(3) unfolding k by simp_all
  define j where "j = (E - 1) * 2 ^ 52 + k * 2 ^ d"
  have zj: "unat z = of_bool s * 2 ^ 63 + j"
    unfolding z c_def j_def mult.assoc p [symmetric] by (simp add: add_mult_distrib)
  have jl: "j < fp_inf 52 2047" using kM(1) assms(4) by (auto simp: j_def intro!: le_less_trans [OF add_mono [of "(E - 1) * 2 ^ 52" "1073 * 2 ^ 52"]])
  have e: "f64_roundToInt a b exact st = (z, if z \<noteq> a \<and> exact then softfloat_raiseFlags softfloat_flag_inexact st else st)"
    using assms(3,4) unfolding f64_roundToInt_def Let_def fl(1) d(3) L_def [symmetric] signF64UI_iff s_def [symmetric] z_def [symmetric] raise_inexact_eq
    by simp
  have uz: "unat (z :: u64) = of_bool s * 2 ^ 63 + j" using zj .
  have "fmag 52 j = k * 2 ^ d * 2 ^ (E - 1)" unfolding j_def by (rule fmag_pack) (use kM in simp_all)
  moreover have "(2::real) ^ d * 2 ^ (E - 1) = 2 ^ 1074" unfolding power_add [symmetric] using assms(3,4) by (simp add: d_def)
  ultimately have fm: "real (fmag 52 j) / 2 ^ 1074 = real (round_mag m s y)" by (simp add: k_def [symmetric] mult.assoc)
  have "z = a \<longleftrightarrow> k * 2 ^ d = M" using z uc by (simp add: word_unat_eq_iff)
  also have "\<dots> \<longleftrightarrow> real (round_mag m s y) = y"
  proof -
    have "k * 2 ^ d = M \<longleftrightarrow> real (k * 2 ^ d) = real M" by (simp only: of_nat_eq_iff)
    also have "\<dots> \<longleftrightarrow> real k = real M / 2 ^ d" by (simp add: field_simps)
    finally show ?thesis unfolding k_def [symmetric] unfolding y .
  qed
  finally have ze: "z = a \<longleftrightarrow> real (round_mag m s y) = y" .
  show ?thesis unfolding e m_def [symmetric]
  proof (rule f64_integralI [OF _ _ s_def uz jl fm])
    show "f64_real a = (if s then - y else y)" unfolding s_def y_def by (rule fl(6))
    show "0 \<le> y" by (simp add: y)
  qed (simp add: ze)
qed

lemma f64_roundToInt_small:
  assumes "n = unat a mod 2 ^ 63" and "E = n div 2 ^ 52" and "E \<le> 1022"
  shows "f64_integral (rmode_of b) exact a st (f64_roundToInt a b exact st)"
proof -
  define m M s y f where "m = rmode_of b" and "M = fp_sig 52 n" and "s \<longleftrightarrow> 2 ^ 63 \<le> unat a"
    and "y = real M * 2 ^ (E - 1) / 2 ^ 1074" and "f = fracF64UI a"
  note fl = f64_int_fields [OF assms(1,2) M_def f_def]
  have x: "f64_real a = (if s then - y else y)" unfolding s_def y_def by (rule fl(6))
  have u: "unat a = of_bool s * 2 ^ 63 + n"
    using unat_sign_indexF64 [of a] by (simp add: s_def assms(1))
  have M0: "M = 0 \<longleftrightarrow> n = 0" by (auto simp: M_def fp_sig_def)
  have z: "a AND 0x7FFFFFFFFFFFFFFF = 0 \<longleftrightarrow> n = 0"
    using unat_and_mask [of a 63] by (simp add: assms(1) word_unat_eq_iff)
  show ?thesis
  proof (cases "n = 0")
    case True
    then have "f64_roundToInt a b exact st = (a, st)" using z assms(3) by (simp add: f64_roundToInt_def Let_def fl(1))
    moreover have "y = 0" using True M0 by (simp add: y_def)
    ultimately show ?thesis using True u by (auto intro!: f64_integralI [OF x _ s_def])
  next
    case False
    have y0: "0 < y" using False M0 by (simp add: y_def)
    have y1: "y < 1" unfolding y_def by (rule mag_less_1 [OF fl(5)]) (use assms(3) in simp_all)
    note h = f64_half [OF assms(3) fl(3-5) y_def]
    have f0: "f = 0 \<and> E = 1022 \<longleftrightarrow> M = 2 ^ 52 \<and> E = 1022"
      using fl(2) by (auto simp: word_unat_eq_iff fracF64UI_index f_def M_def fp_sig_def assms(1,2))
    define k where "k = round_mag m s y"
    have k: "k = of_bool (case m of Round_near_even \<Rightarrow> E = 1022 \<and> f \<noteq> 0 | Round_near_maxMag \<Rightarrow> E = 1022
        | Round_min \<Rightarrow> s | Round_max \<Rightarrow> \<not> s | Round_minMag \<Rightarrow> False)"
      unfolding k_def round_mag_fraction [OF y0 y1] using f0 by (cases m) (simp_all only: rmode.case h, auto)
    define S :: u64 where "S = a AND packToF64UI True 0 0"
    have S: "S = packToF64UI s 0 0"
    proof -
      have "packToF64UI True 0 0 = push_bit 63 (mask 1)" by (simp add: packToF64UI_def)
      then have "unat S = unat a div 2 ^ 63 mod 2 ^ 1 * 2 ^ 63"
        unfolding S_def using unat_and_field [of 63 1 "a :: u64"] by simp
      also have "\<dots> = of_bool s * 2 ^ 63" unfolding u using assms(1) by (cases s) simp_all
      finally show ?thesis by (simp add: word_unat_eq_iff unat_packToF64UI)
    qed
    have P: "packToF64UI s 0 0 OR packToF64UI False 0x3FF 0 = packToF64UI s 0x3FF 0" "packToF64UI s 0 0 = 0 \<longleftrightarrow> \<not> s"
      by (cases s; simp add: packToF64UI_def)+
    have e: "f64_roundToInt a b exact st =
      (packToF64UI s (if k = 0 then 0 else 0x3FF) 0, if exact then softfloat_raiseFlags softfloat_flag_inexact st else st)"
      using assms(3) z False S P unfolding f64_roundToInt_def Let_def fl(1) f_def [symmetric] S_def [symmetric] raise_inexact_eq k
      by (auto simp: m_def rmode_of_def)
    have uz: "unat (packToF64UI s (if k = 0 then 0 else 0x3FF) 0) = of_bool s * 2 ^ 63 + k * 1023 * 2 ^ 52"
      using k by (subst unat_packToF64UI) auto
    have "real (fmag 52 (k * 1023 * 2 ^ 52)) / 2 ^ 1074 = real (round_mag m s y)"
      unfolding k_def [symmetric] using k by (simp add: fmag_def)
    moreover have "real (round_mag m s y) \<noteq> y" using y0 y1 k unfolding k_def [symmetric] by auto
    ultimately show ?thesis unfolding e m_def [symmetric]
      by (intro f64_integralI [OF x _ s_def uz]) (use y0 k in auto)
  qed
qed

lemma f64_roundToInt_correct:
  assumes "f64_finite a"
  shows "f64_integral (rmode_of b) exact a st (f64_roundToInt a b exact st)"
proof -
  define n E where "n = unat a mod 2 ^ 63" and "E = n div 2 ^ 52"
  note fl = f64_int_fields [OF n_def E_def refl refl]
  consider "E \<le> 1022" | "1023 \<le> E" "E < 1075" | "1075 \<le> E" by linarith
  then show ?thesis
  proof cases
    case 3
    moreover have "E \<noteq> 2047" using assms fl(7) by simp
    ultimately have "f64_roundToInt a b exact st = (a, st)" by (simp add: f64_roundToInt_def Let_def fl(1))
    then show ?thesis using f64_roundToInt_large [OF n_def E_def 3 assms] by simp
  qed (use f64_roundToInt_small [OF n_def E_def] f64_roundToInt_mid [OF n_def E_def] in blast)+
qed

end
