(* ===== verification/Float_Convert.thy ===== *)
theory Float_Convert
  imports F32_Compare F64_Compare
begin

text \<open>
  Conversions between the two formats (\<open>f32_to_f64.c\<close>, \<open>f64_to_f32.c\<close>): widening is exact, narrowing
  rounds correctly, and widening followed by narrowing is the identity on numbers.
\<close>

definition f32_to_f64 :: "float32_t \<Rightarrow> softfloat_state \<Rightarrow> float64_t \<times> softfloat_state" where
  "f32_to_f64 a st =
     (let uiA = ucast a; sign = signF32UI uiA; exp = expF32UI uiA; frac = fracF32UI uiA
      in if exp = 0xFF then
           if frac \<noteq> 0 then
             let (commonNaN, st) = softfloat_f32UIToCommonNaN uiA st
             in (softfloat_commonNaNToF64UI commonNaN, st)
           else (packToF64UI sign 0x7FF 0, st)
         else if exp = 0 then
           if frac = 0 then (packToF64UI sign 0 0, st)
           else
             let normExpSig = softfloat_normSubnormalF32Sig frac;
                 exp = exp_f32 normExpSig - 1;
                 frac = sig_f32 normExpSig
             in (packToF64UI sign (exp + 0x380) (push_bit 29 frac), st)
         else (packToF64UI sign (exp + 0x380) (push_bit 29 frac), st))"

definition f64_to_f32 :: "float64_t \<Rightarrow> softfloat_state \<Rightarrow> float32_t \<times> softfloat_state" where
  "f64_to_f32 a st =
     (let uiA = a; sign = signF64UI uiA; exp = expF64UI uiA; frac = fracF64UI uiA
      in if exp = 0x7FF then
           if frac \<noteq> 0 then
             let (commonNaN, st) = softfloat_f64UIToCommonNaN uiA st
             in (ucast (softfloat_commonNaNToF32UI commonNaN), st)
           else (ucast (packToF32UI sign 0xFF 0), st)
         else
           let frac32 = softfloat_shortShiftRightJam64 frac 22
           in if word_of_int exp OR frac32 = 0 then (ucast (packToF32UI sign 0 0), st)
              else softfloat_roundPackToF32 sign (exp - 0x381) (frac32 OR 0x40000000) st)"

text \<open>A number with an exact representation, its pattern and its index.\<close>

definition f64_represents :: "bool \<Rightarrow> real \<Rightarrow> float64_t \<Rightarrow> bool" where
  "f64_represents s v z \<longleftrightarrow> (\<exists>m<fp_inf 52 2047. v = real (fmag 52 m) \<and> unat z = of_bool s * 2 ^ 63 + m)"

lemma f64_represents_pack:
  assumes "k < 2 ^ 53" and "2 ^ 52 \<le> k \<or> e = 0" and "e + 2 \<le> 2047"
    and "v = real k * 2 ^ e" and "unat z = of_bool s * 2 ^ 63 + (e * 2 ^ 52 + k)"
  shows "f64_represents s v z"
  unfolding f64_represents_def using fmag_pack [of k 52 e] pack_index_less [of k 52 e 2047] assms
  by (intro exI [of _ "e * 2 ^ 52 + k"]) auto

lemma f32_to_f64_represents:
  assumes "f32_finite a" and "s \<longleftrightarrow> 2 ^ 31 \<le> unat a" and "n = unat a mod 2 ^ 31"
  shows "f64_represents s (real (fmag 23 n) * 2 ^ 925) (fst (f32_to_f64 a st)) \<and> snd (f32_to_f64 a st) = st"
proof -
  note s_def = assms(2) and n_def = assms(3)
  define E f where "E = n div 2 ^ 23" and "f = n mod 2 ^ 23"
  define v where "v = real (fmag 23 n) * 2 ^ 925"
  have E: "expF32UI (ucast a) = int E" unfolding E_def n_def by (simp add: expF32UI_index)
  have f: "unat (fracF32UI (ucast a)) = f" "f < 2 ^ 23" unfolding f_def n_def by (simp_all add: fracF32UI_index)
  have Elt: "E < 255" using assms(1) index_div_less [of n 255 23] by (simp add: E_def n_def f32_finite_def)
  have n: "n = E * 2 ^ 23 + f" unfolding E_def f_def by (simp only: div_mult_mod_eq)
  have f0: "fracF32UI (ucast a) = 0 \<longleftrightarrow> f = 0" using f(1) by (metis unat_eq_0)
  have "f64_represents s v (fst (f32_to_f64 a st)) \<and> snd (f32_to_f64 a st) = st"
  proof (cases "E = 0")
    case True
    show ?thesis
    proof (cases "f = 0")
      case f0': True
      have "f32_to_f64 a st = (packToF64UI s 0 0, st)"
        using True f0' E f0 by (simp add: f32_to_f64_def Let_def s_def)
      then show ?thesis using n True f0' v_def
        by simp (rule f64_represents_pack [of 0 0], simp_all add: unat_packToF64UI)
    next
      case False
      then obtain h where h: "exp_f32 (softfloat_normSubnormalF32Sig (fracF32UI (ucast a))) = 1 - int h" "h < 24"
        "unat (sig_f32 (softfloat_normSubnormalF32Sig (fracF32UI (ucast a)))) = f * 2 ^ h"
        "2 ^ 23 \<le> f * 2 ^ h" "f * 2 ^ h < 2 ^ 24"
        using normSubnormalF32Sig_eq [of "fracF32UI (ucast a)"] f by auto
      define w where "w = push_bit 29 (sig_f32 (softfloat_normSubnormalF32Sig (fracF32UI (ucast a))))"
      have w: "unat w = f * 2 ^ h * 2 ^ 29" unfolding w_def using h(3,5) by (subst unat_push_bit) simp_all
      have r: "f32_to_f64 a st = (packToF64UI s (int (896 - h)) w, st)"
        using True False E f0 h(1,2) by (simp add: f32_to_f64_def Let_def s_def w_def of_nat_diff)
      have i: "nat (int (896 - h)) * 2 ^ 52 + unat w < 2 ^ 63"
        unfolding w using pack_index_less [of "f * 2 ^ h * 2 ^ 29" 52 "896 - h" 2047] h(5) by simp
      have "(2::real) ^ 925 = 2 ^ h * 2 ^ 29 * 2 ^ (896 - h)" unfolding power_add [symmetric] using h(2) by simp
      then have v: "v = real (f * 2 ^ h * 2 ^ 29) * 2 ^ (896 - h)"
        using n True f(2) by (simp add: v_def fmag_def)
      show ?thesis unfolding r fst_conv snd_conv
        by (intro conjI refl f64_represents_pack [OF _ _ _ v]) (use h unat_packToF64UI [OF _ i, of s] w in simp_all)
    qed
  next
    case False
    define w where "w = push_bit 29 (fracF32UI (ucast a))"
    have w: "unat w = f * 2 ^ 29" unfolding w_def using f by (subst unat_push_bit) simp_all
    have r: "f32_to_f64 a st = (packToF64UI s (int (E + 896)) w, st)"
      using False E Elt by (simp add: f32_to_f64_def Let_def s_def w_def)
    obtain k where k: "E = Suc k" using False by (cases E) auto
    have i: "nat (int (E + 896)) * 2 ^ 52 + unat w < 2 ^ 63"
      unfolding w using pack_index_less [of "f * 2 ^ 29" 52 "E + 896" 2047] f(2) Elt by simp
    have "fmag 23 n = (2 ^ 23 + f) * 2 ^ k"
      using fmag_pack [of "2 ^ 23 + f" 23 k] f(2) by (simp add: n k algebra_simps)
    then have v: "v = real ((2 ^ 23 + f) * 2 ^ 29) * 2 ^ (k + 896)"
      by (simp add: v_def power_add)
    show ?thesis unfolding r fst_conv snd_conv
      by (intro conjI refl f64_represents_pack [OF _ _ _ v])
         (use f Elt k unat_packToF64UI [OF _ i, of s] w in simp_all)
  qed
  then show ?thesis unfolding v_def .
qed

lemma f64_represents_real:
  assumes "f64_represents s v z"
  shows "f64_real z = (if s then - 1 else 1) * v / 2 ^ 1074" and "f64_finite z" and "2 ^ 63 \<le> unat z \<longleftrightarrow> s"
proof -
  obtain m where m: "m < fp_inf 52 2047" "v = real (fmag 52 m)" "unat z = of_bool s * 2 ^ 63 + m"
    using assms by (auto simp: f64_represents_def)
  then have "unat z mod 2 ^ 63 = m" "2 ^ 63 \<le> unat z \<longleftrightarrow> s" by (cases s; simp)+
  then show "f64_real z = (if s then - 1 else 1) * v / 2 ^ 1074" and "f64_finite z" and "2 ^ 63 \<le> unat z \<longleftrightarrow> s"
    using m by (auto simp: f64_real_def f64_finite_def)
qed

lemma f32_to_f64_exact:
  assumes "f32_finite a"
  shows "f64_real (fst (f32_to_f64 a st)) = f32_real a" and "snd (f32_to_f64 a st) = st"
    and "f64_finite (fst (f32_to_f64 a st))" and "2 ^ 63 \<le> unat (fst (f32_to_f64 a st)) \<longleftrightarrow> 2 ^ 31 \<le> unat a"
proof -
  let ?v = "real (fmag 23 (unat a mod 2 ^ 31)) * 2 ^ 925"
  have r: "f64_represents (2 ^ 31 \<le> unat a) ?v (fst (f32_to_f64 a st))" and "snd (f32_to_f64 a st) = st"
    using f32_to_f64_represents [OF assms refl refl, of st] by blast+
  then show "snd (f32_to_f64 a st) = st" by blast
  note f = f64_represents_real [OF r]
  have "?v / 2 ^ 1074 = real (fmag 23 (unat a mod 2 ^ 31)) / 2 ^ 149" by simp
  then show "f64_real (fst (f32_to_f64 a st)) = f32_real a"
    unfolding f(1) f32_real_def times_divide_eq_right [symmetric] by (simp only:)
  show "f64_finite (fst (f32_to_f64 a st))" and "2 ^ 63 \<le> unat (fst (f32_to_f64 a st)) \<longleftrightarrow> 2 ^ 31 \<le> unat a"
    by (fact f)+
qed

lemma between_tiny: "0 < x \<Longrightarrow> x < 1 / 4 \<Longrightarrow> between P x 0"
proof -
  assume x: "0 < x" "x < 1 / 4"
  have "1 \<le> fmag P (Suc 0)" using fmag_less_iff [of P 0 "Suc 0"] by simp
  then have "1 \<le> real (fmag P (Suc 0))" by linarith
  then show ?thesis using x by (auto simp: between_def)
qed

text \<open>All magnitudes below a quarter of the least positive number round alike.\<close>

lemma fl_result_tiny_cong:
  assumes "0 < x" and "x < 1 / 4" and "0 < y" and "y < 1 / 4" and "1 \<le> P" and "1 \<le> Emax"
    and "fl_result P Emax st s x r st'"
  shows "fl_result P Emax st s y r st'"
proof -
  have N: "0 < fp_inf P Emax" using assms(6) by simp
  have one: "fmag P (Suc 0) = 1" using assms(5) one_less_power [of "2::nat" P] by (simp add: fmag_def)
  have b: "between P x k \<longleftrightarrow> k = 0" "between P y k \<longleftrightarrow> k = 0" for k
    using between_tiny [of x P] between_tiny [of y P] between_unique assms(1-4) by blast+
  have ri: "round_index P m s x 0 = round_index P m s y 0" for m
    using assms(1-4) by (cases m) (auto simp: round_index_def one)
  have ro: "fl_rounds P (fp_inf P Emax) m s x n = fl_rounds P (fp_inf P Emax) m s y n" for m n
    unfolding fl_rounds_def b using ri by auto
  have ov: "fl_overflow P (fp_inf P Emax) m s x = fl_overflow P (fp_inf P Emax) m s y" for m
    unfolding fl_overflow_def b using ri by auto
  have ex: "\<not> fl_exact P (fp_inf P Emax) z" if "0 < z" "z < 1 / 4" for z
  proof
    assume "fl_exact P (fp_inf P Emax) z"
    then obtain n where "real (fmag P n) = z" by (auto simp: fl_exact_def)
    then show False using that by (cases "fmag P n") auto
  qed
  have small: "z < 2 ^ P" "round_mag m s (2 * z) < 2 ^ (P + 1)" if "0 < z" "z < 1 / 4" for z m
  proof -
    have "(1::real) \<le> 2 ^ P" by simp
    then show "z < 2 ^ P" using that by linarith
    have "\<lfloor>2 * z\<rfloor> = 0" using that by linarith
    then have "round_mag m s (2 * z) \<le> 1" using round_mag_le [of m s "2 * z"] by simp
    moreover have "(1::nat) < 2 ^ (P + 1)" by (rule one_less_power) simp_all
    ultimately show "round_mag m s (2 * z) < 2 ^ (P + 1)" by linarith
  qed
  have "fl_tiny P t m s x = fl_tiny P t m s y" for t m
    unfolding fl_tiny_def using small assms(1-4) by simp
  then have "fl_flags P Emax st s x = fl_flags P Emax st s y"
    unfolding fl_flags_def ov using ex assms(1-4) by simp
  then show ?thesis using assms(7) unfolding fl_result_def ro by simp
qed


lemma jam_eq_0_iff: "jam n d = 0 \<longleftrightarrow> n = 0"
  using jam_less_iff(2) [of 0 n d] by simp

lemma f64_to_f32_correct:
  assumes "f64_finite a"
  shows "f32_rounded st (2 ^ 63 \<le> unat a) (f64_real a) (f64_to_f32 a st)"
proof -
  define s n where "s \<longleftrightarrow> 2 ^ 63 \<le> unat a" and "n = unat a mod 2 ^ 63"
  define E f where "E = n div 2 ^ 52" and "f = n mod 2 ^ 52"
  define v where "v = real (fmag 52 n) / 2 ^ 925"
  have x: "f64_real a = (if s then - 1 else 1) * v / 2 ^ 149"
    by (simp add: f64_real_def s_def n_def v_def)
  have E: "expF64UI a = int E" unfolding E_def n_def by (rule expF64UI_index)
  have f: "unat (fracF64UI a) = f" "f < 2 ^ 52" unfolding f_def n_def by (simp_all add: fracF64UI_index)
  have Elt: "E < 2047" using assms(1) index_div_less [of n 2047 52] by (simp add: E_def n_def f64_finite_def)
  have n: "n = E * 2 ^ 52 + f" unfolding E_def f_def by (simp only: div_mult_mod_eq)
  define w where "w = softfloat_shortShiftRightJam64 (fracF64UI a) 22"
  have w: "unat w = jam f 22" unfolding w_def by (subst unat_shortShiftRightJam64) (simp_all add: f)
  have wlt: "jam f 22 < 2 ^ 30" using f(2) by (simp add: jam_less_iff)
  have uE: "unat (word_of_int (int E) :: u64) = E" using Elt by (subst unat_word_of_int) simp_all
  have "(word_of_int (int E) :: u64) = 0 \<longleftrightarrow> E = 0" "w = 0 \<longleftrightarrow> f = 0"
    using uE w jam_eq_0_iff [of f 22] by (metis unat_eq_0)+
  then have z: "word_of_int (expF64UI a) OR w = 0 \<longleftrightarrow> n = 0" unfolding E n by (simp only: or_eq_0_iff) simp
  have "fl_result 23 255 st s v (unat (fst (f64_to_f32 a st))) (snd (f64_to_f32 a st))"
  proof (cases "n = 0")
    case True
    then have "f64_to_f32 a st = (ucast (packToF32UI s 0 0), st)"
      using z E Elt n by (simp add: f64_to_f32_def Let_def s_def flip: w_def)
    then show ?thesis using True by (simp add: v_def) (rule fl_result_exact [of 0], simp_all add: packF32_small)
  next
    case False
    have r: "f64_to_f32 a st = softfloat_roundPackToF32 s (int E - 897) (w OR 0x40000000) st"
      unfolding f64_to_f32_def Let_def w_def [symmetric] using z False E Elt by (simp add: s_def)
    have u: "unat (w OR 0x40000000) = 2 ^ 30 + jam f 22"
      using wlt by (subst unat_or_disjoint [of _ 30]) (simp_all add: w)
    define t where "t = real (2 ^ 30) + real f / 2 ^ 22"
    have ag: "agrees 6 t (2 ^ 30 + jam f 22)"
      unfolding t_def by (intro agrees_add agrees_mono [OF agrees_jam_nat]) simp_all
    have res: "fl_result 23 255 st s (t * 2 powi (int E - 897 - 7)) (unat (fst (f64_to_f32 a st))) (snd (f64_to_f32 a st))"
      unfolding r by (rule roundPackToF32_result [OF _ _ _ _ _ refl, of t]) (use ag u wlt Elt in simp_all)
    show ?thesis
    proof (cases "E = 0")
      case True
      have n0: "n = f" "0 < f" using n True False by auto
      have t: "0 < t" "t < 2 ^ 31" using f(2) by (auto simp: t_def add_pos_nonneg)
      have p: "2 powi (int E - 897 - 7) = (1::real) / 2 ^ 904"
        using True by (simp add: power_int_def divide_simps)
      have "(2::real) ^ 904 = 2 ^ 31 * 2 ^ 873" unfolding power_add [symmetric] by simp
      then have "t / 2 ^ 904 < 1 / 4" using t(2) by (simp add: field_simps)
      moreover have "(2::real) ^ 925 = 2 ^ 52 * 2 ^ 873" unfolding power_add [symmetric] by simp
      then have "v < 1 / 4" using f(2) n0 by (simp add: v_def fmag_def field_simps)
      moreover have "0 < v" using n0 f(2) by (simp add: v_def fmag_def)
      ultimately show ?thesis
        using fl_result_tiny_cong [OF _ _ _ _ _ _ res, of v] t(1) unfolding p by simp
    next
      case F: False
      obtain k where k: "E = Suc k" using F by (cases E) auto
      have "fmag 52 n = (2 ^ 52 + f) * 2 ^ k"
        using fmag_pack [of "2 ^ 52 + f" 52 k] f(2) by (simp add: n k algebra_simps)
      then have "v = t * 2 powi (int E - 897 - 7)"
        unfolding v_def t_def k by (simp add: power_int_diff field_simps)
      then show ?thesis using res by simp
    qed
  qed
  then show ?thesis
    by (intro f32_roundedI [OF _ x]) (auto simp: s_def v_def)
qed


lemma fmag_pos_iff [simp]: "0 < fmag P n \<longleftrightarrow> 0 < n"
  using fmag_less_iff [of P 0 n] by simp

lemma f32_rounded_exact:
  assumes "f32_finite a" and "f32_rounded st (2 ^ 31 \<le> unat a) (f32_real a) res"
  shows "res = (a, st)"
proof -
  define s n where "s \<longleftrightarrow> 2 ^ 31 \<le> unat a" and "n = unat a mod 2 ^ 31"
  have u: "unat a = of_bool s * fp_half 23 255 + n"
    using unat_sign_index [of "ucast a"] unat_f32_less [of a] by (simp add: s_def n_def)
  have "\<bar>f32_real a\<bar> * 2 ^ 149 = real (fmag 23 n)" "f32_real a \<noteq> 0 \<Longrightarrow> f32_real a < 0 \<longleftrightarrow> s"
    using fmag_pos_iff [of 23 n] by (auto simp: f32_real_def s_def n_def)
  then have "fl_result 23 255 st s (real (fmag 23 n)) (unat (fst res)) (snd res)"
    using assms(2) unfolding f32_rounded_def s_def [symmetric] by (auto split: if_splits)
  moreover have "fl_result 23 255 st s (real (fmag 23 n)) (unat a) st"
    by (rule fl_result_exact [OF _ refl u]) (use assms(1) in \<open>simp add: f32_finite_def n_def\<close>)
  ultimately show ?thesis using fl_result_unique by (metis prod.collapse word_unat_eq_iff)
qed

lemma f32_f64_round_trip:
  assumes "\<not> f32_nan a"
  shows "f64_to_f32 (fst (f32_to_f64 a st)) st' = (a, st')"
proof (cases "f32_finite a")
  case True
  note f = f32_to_f64_exact [OF True, of st]
  show ?thesis
    using f64_to_f32_correct [OF f(3), of st'] unfolding f(1,4) by (rule f32_rounded_exact [OF True])
next
  case False
  define s where "s \<longleftrightarrow> 2 ^ 31 \<le> unat a"
  have n: "unat a mod 2 ^ 31 = 255 * 2 ^ 23" using assms False by (simp add: f32_nan_def f32_finite_def)
  then have u: "unat a = of_bool s * 2 ^ 31 + 255 * 2 ^ 23"
    using unat_sign_index [of "ucast a"] unat_f32_less [of a] by (simp add: s_def)
  have "expF32UI (ucast a) = 0xFF" "fracF32UI (ucast a) = 0"
    using n expF32UI_index [of "ucast a"] fracF32UI_index [of "ucast a"] by (simp_all add: unat_eq_0)
  then have e: "fst (f32_to_f64 a st) = packToF64UI s 0x7FF 0"
    by (simp add: f32_to_f64_def Let_def s_def)
  have p: "unat (packToF64UI s 0x7FF 0) = of_bool s * 2 ^ 63 + 2047 * 2 ^ 52" by (subst unat_packToF64UI) simp_all
  have m: "unat (packToF64UI s 0x7FF 0) mod 2 ^ 63 = 2047 * 2 ^ 52" unfolding p by (cases s) simp_all
  have "expF64UI (packToF64UI s 0x7FF 0) = 0x7FF" unfolding expF64UI_index m by simp
  moreover have "fracF64UI (packToF64UI s 0x7FF 0) = 0"
    using fracF64UI_index [of "packToF64UI s 0x7FF 0"] unfolding m by (simp add: unat_eq_0)
  moreover have "signF64UI (packToF64UI s 0x7FF 0) = s" unfolding signF64UI_iff p by (cases s) simp_all
  ultimately have "f64_to_f32 (fst (f32_to_f64 a st)) st' = (ucast (packToF32UI s 0xFF 0), st')"
    unfolding e by (simp add: f64_to_f32_def Let_def)
  moreover have "unat (ucast (packToF32UI s 0xFF 0) :: u32) = unat a"
    unfolding u by (subst packF32_small) simp_all
  ultimately show ?thesis by (simp add: word_unat_eq_iff)
qed

end
