(* ===== verification/Int_To_Float.thy ===== *)
theory Int_To_Float
  imports F32_Format F64_Format
begin

text \<open>
  Conversions from 32- and 64-bit integers to floating point (\<open>ui32_to_f32.c\<close>, \<open>ui64_to_f32.c\<close>,
  \<open>i32_to_f32.c\<close>, \<open>i64_to_f32.c\<close> and the four to \<open>f64\<close>). A signed argument is its word, read by
  \<^const>\<open>sint\<close>. Each conversion returns the integer correctly rounded; those from 32 bits to 64-bit
  floating point are exact.
\<close>

definition ui32_to_f32 :: "u32 \<Rightarrow> softfloat_state \<Rightarrow> float32_t \<times> softfloat_state" where
  "ui32_to_f32 a st =
     (if a = 0 then (0, st)
      else if a AND 0x80000000 \<noteq> 0 then softfloat_roundPackToF32 False 0x9D (ucast (drop_bit 1 a OR (a AND 1))) st
      else softfloat_normRoundPackToF32 False 0x9C (ucast a) st)"

definition ui64_to_f32 :: "u64 \<Rightarrow> softfloat_state \<Rightarrow> float32_t \<times> softfloat_state" where
  "ui64_to_f32 a st =
     (let shiftDist = uint (softfloat_countLeadingZeros64 a) - 40
      in if 0 \<le> shiftDist then
           (ucast (if a \<noteq> 0 then packToF32UI False (0x95 - shiftDist) (push_bit (nat shiftDist) a) else 0), st)
         else
           let shiftDist = shiftDist + 7;
               sig = (if shiftDist < 0 then softfloat_shortShiftRightJam64 a (word_of_int (- shiftDist))
                      else push_bit (nat shiftDist) a)
           in softfloat_roundPackToF32 False (0x9C - shiftDist) sig st)"

definition i32_to_f32 :: "u32 \<Rightarrow> softfloat_state \<Rightarrow> float32_t \<times> softfloat_state" where
  "i32_to_f32 a st =
     (let sign = (sint a < 0)
      in if a AND 0x7FFFFFFF = 0 then (ucast (if sign then packToF32UI True 0x9E 0 else 0), st)
         else
           let absA = (if sign then - (scast a) else scast a) :: uint_fast32
           in softfloat_normRoundPackToF32 sign 0x9C absA st)"

definition i64_to_f32 :: "u64 \<Rightarrow> softfloat_state \<Rightarrow> float32_t \<times> softfloat_state" where
  "i64_to_f32 a st =
     (let sign = (sint a < 0);
          absA = (if sign then - a else a);
          shiftDist = uint (softfloat_countLeadingZeros64 absA) - 40
      in if 0 \<le> shiftDist then
           (ucast (if a \<noteq> 0 then packToF32UI sign (0x95 - shiftDist) (push_bit (nat shiftDist) absA) else 0), st)
         else
           let shiftDist = shiftDist + 7;
               sig = (if shiftDist < 0 then softfloat_shortShiftRightJam64 absA (word_of_int (- shiftDist))
                      else push_bit (nat shiftDist) absA)
           in softfloat_roundPackToF32 sign (0x9C - shiftDist) sig st)"

definition ui32_to_f64 :: "u32 \<Rightarrow> float64_t" where
  "ui32_to_f64 a =
     (if a = 0 then 0
      else
        let shiftDist = uint (softfloat_countLeadingZeros32 a) + 21
        in packToF64UI False (0x432 - shiftDist) (push_bit (nat shiftDist) (ucast a)))"

definition ui64_to_f64 :: "u64 \<Rightarrow> softfloat_state \<Rightarrow> float64_t \<times> softfloat_state" where
  "ui64_to_f64 a st =
     (if a = 0 then (0, st)
      else if a AND 0x8000000000000000 \<noteq> 0
      then softfloat_roundPackToF64 False 0x43D (softfloat_shortShiftRightJam64 a 1) st
      else softfloat_normRoundPackToF64 False 0x43C a st)"

definition i32_to_f64 :: "u32 \<Rightarrow> float64_t" where
  "i32_to_f64 a =
     (if a = 0 then 0
      else
        let sign = (sint a < 0);
            absA = (if sign then - (scast a) else scast a) :: uint_fast32;
            shiftDist = uint (softfloat_countLeadingZeros32 (ucast absA)) + 21
        in packToF64UI sign (0x432 - shiftDist) (push_bit (nat shiftDist) absA))"

definition i64_to_f64 :: "u64 \<Rightarrow> softfloat_state \<Rightarrow> float64_t \<times> softfloat_state" where
  "i64_to_f64 a st =
     (let sign = (sint a < 0)
      in if a AND 0x7FFFFFFFFFFFFFFF = 0 then (if sign then packToF64UI True 0x43E 0 else 0, st)
         else
           let absA = (if sign then - a else a)
           in softfloat_normRoundPackToF64 sign 0x43C absA st)"

section \<open>Correctness\<close>

lemma unat_abs:
  fixes a :: "'a::len word"
  assumes "LENGTH('a) \<le> LENGTH('b)"
  shows "unat ((if sint a < 0 then - (scast a) else scast a) :: 'b::len word) = nat \<bar>sint a\<bar>"
proof -
  have "(2::int) ^ (LENGTH('a) - 1) < 2 ^ LENGTH('b)"
    using assms len_gt_0 [where 'a = 'a] by (intro power_strict_increasing) auto
  then have lt: "\<bar>sint a\<bar> < 2 ^ LENGTH('b)"
    using sint_ge [of a] sint_lt [of a] by linarith
  have "(if sint a < 0 then - (scast a) else scast a :: 'b word) = word_of_int \<bar>sint a\<bar>"
    by simp
  then show ?thesis using lt by (simp only: unat_word_of_int abs_ge_zero)
qed

lemma magnitude_to_f32:
  assumes "unat a \<noteq> 0" and "d = uint (softfloat_countLeadingZeros64 a) - 40"
    and "res = (if 0 \<le> d then (ucast (packToF32UI s (0x95 - d) (push_bit (nat d) a)), st)
       else softfloat_roundPackToF32 s (0x9C - (d + 7))
         (if d + 7 < 0 then softfloat_shortShiftRightJam64 a (word_of_int (- (d + 7))) else push_bit (nat (d + 7)) a) st)"
  shows "fl_result 23 255 st s (real (unat a) * 2 ^ 149) (unat (fst res)) (snd res)"
proof -
  define c where "c = unat (softfloat_countLeadingZeros64 a)"
  have cl: "c < 64" "2 ^ 63 \<le> unat a * 2 ^ c" "unat a * 2 ^ c < 2 ^ 64"
    using clz64_shift [OF assms(1)] unfolding c_def by simp_all
  have d: "d = int c - 40" unfolding assms(2) c_def by (simp only: uint_nat)
  consider "40 \<le> c" | "33 \<le> c" "c < 40" | "c < 33" by linarith
  then show ?thesis
  proof cases
    case 1
    then obtain h where h: "c = h + 40" by (metis add.commute le_add_diff_inverse)
    have b: "2 ^ 23 \<le> unat a * 2 ^ h" "unat a * 2 ^ h < 2 ^ 24" using cl unfolding h power_add by simp_all
    have u: "unat (push_bit h a) = unat a * 2 ^ h" using b by (intro unat_push_bit) simp
    have r: "res = (ucast (packToF32UI s (int (149 - h)) (push_bit h a)), st)"
      using cl(1) h unfolding assms(3) d by (simp add: of_nat_diff)
    have i: "nat (int (149 - h)) * 2 ^ 23 + unat (push_bit h a) < 2 ^ 31"
      unfolding u using pack_index_less [of "unat a * 2 ^ h" 23 "149 - h" 255] b(2) by simp
    have x: "real (unat a) * 2 ^ 149 = real (unat a * 2 ^ h) * 2 ^ (149 - h)"
    proof -
      have "(2::real) ^ 149 = 2 ^ h * 2 ^ (149 - h)" unfolding power_add [symmetric] using cl(1) h by simp
      then show ?thesis by simp
    qed
    show ?thesis unfolding r fst_conv snd_conv
      by (rule fl_result_pack [OF _ _ _ x]) (use b i packF32_small [OF _ i, of s] u in \<open>simp_all\<close>)
  next
    case 2
    then obtain h where h: "c = h + 33" by (metis add.commute le_add_diff_inverse)
    have b: "2 ^ 30 \<le> unat a * 2 ^ h" "unat a * 2 ^ h < 2 ^ 31" using cl unfolding h power_add by simp_all
    have u: "unat (push_bit h a) = unat a * 2 ^ h" using b by (intro unat_push_bit) simp
    have r: "res = softfloat_roundPackToF32 s (156 - int h) (push_bit h a) st"
      using 2 h unfolding assms(3) d by simp
    have x: "real (unat a) * 2 ^ 149 = real (unat (push_bit h a)) * 2 powi (156 - int h - 7)"
      unfolding u by (simp add: power_int_diff)
    show ?thesis unfolding r
      by (rule roundPackToF32_result [OF agrees_refl _ _ _ _ x]) (use b u 2 h in simp_all)
  next
    case 3
    define h where "h = 33 - c"
    have h: "0 < h" "h \<le> 33" "33 = c + h" using 3 by (auto simp: h_def)
    have p: "(2::nat) ^ 63 = 2 ^ 30 * 2 ^ h * 2 ^ c" "(2::nat) ^ 64 = 2 ^ 31 * 2 ^ h * 2 ^ c"
      unfolding power_add [symmetric] using h(3) by (simp_all add: add.assoc add.commute [of h])
    have b: "2 ^ 30 * 2 ^ h \<le> unat a" "unat a < 2 ^ 31 * 2 ^ h"
      using cl(2,3) unfolding p by simp_all
    have w: "unat (word_of_int (int h) :: uint_fast8) = h" using h(2) by (subst unat_word_of_int) simp_all
    have u: "unat (softfloat_shortShiftRightJam64 a (word_of_int (int h))) = jam (unat a) h"
      using unat_shortShiftRightJam64 [of "word_of_int (int h)" a, unfolded w] h(2) by simp
    have r: "res = softfloat_roundPackToF32 s (156 + int h) (softfloat_shortShiftRightJam64 a (word_of_int (int h))) st"
    proof -
      have "d = - int h - 7" using h(3) unfolding d by simp
      then show ?thesis using h(1) unfolding assms(3) by simp
    qed
    have x: "real (unat a) * 2 ^ 149 = (real (unat a) / 2 ^ h) * 2 powi (156 + int h - 7)"
      by (simp add: power_int_diff power_int_add)
    have "2 ^ 30 \<le> jam (unat a) h" "jam (unat a) h < 2 ^ 31"
      using b by (simp_all add: jam_less_iff not_less [symmetric])
    then show ?thesis unfolding r
      by (intro roundPackToF32_result [OF _ _ _ _ _ x]) (use h u agrees_mono [OF agrees_jam_nat, of 6 "unat a" h] in simp_all)
  qed
qed

lemma word_top_bit: "(a AND push_bit (LENGTH('a) - 1) 1 :: 'a::len word) \<noteq> 0 \<longleftrightarrow> 2 ^ (LENGTH('a) - 1) \<le> unat a"
proof -
  have "(a AND push_bit (LENGTH('a) - 1) 1) = 0 \<longleftrightarrow> unat (a AND push_bit (LENGTH('a) - 1) (mask 1)) = 0"
    by (simp add: unat_eq_0)
  also have "\<dots> \<longleftrightarrow> unat a div 2 ^ (LENGTH('a) - 1) mod 2 = 0"
    by (subst unat_and_field) auto
  also have "unat a div 2 ^ (LENGTH('a) - 1) < 2"
    using unat_lt [of a] len_gt_0 [where 'a = 'a] by (simp add: div_less_iff_less_mult flip: power_Suc)
  ultimately show ?thesis by (simp add: div_eq_0_iff not_less)
qed

lemma word_and_1: "(a AND 1 :: 'a::len word) = of_bool (odd (unat a))"
proof -
  have "unat (a AND 1) = unat a mod 2" using unat_and_mask [of a 1] by simp
  then show ?thesis by (simp add: word_unat_eq_iff odd_iff_mod_2_eq_one)
qed

lemma f32_rounded_nat:
  assumes "fl_result 23 255 st s (real n * 2 ^ 149) (unat (fst res)) (snd res)"
    and "x = (if s then - real n else real n)" and "n = 0 \<Longrightarrow> s = zs"
  shows "f32_rounded st zs x res"
  by (rule f32_roundedI [of st s "real n * 2 ^ 149" res x s]) (use assms in auto)

lemma ui32_to_f32_correct: "f32_rounded st False (real (unat a)) (ui32_to_f32 a st)"
proof (rule f32_rounded_nat [of _ False])
  consider "a = 0" | "a \<noteq> 0" "unat a < 2 ^ 31" | "2 ^ 31 \<le> unat a" by linarith
  then show "fl_result 23 255 st False (real (unat a) * 2 ^ 149) (unat (fst (ui32_to_f32 a st))) (snd (ui32_to_f32 a st))"
  proof cases
    case 1
    then show ?thesis by (simp add: ui32_to_f32_def) (rule fl_result_exact [of 0], simp_all)
  next
    case 2
    then have "ui32_to_f32 a st = softfloat_normRoundPackToF32 False 0x9C (ucast a) st"
      using word_top_bit [of a] by (simp add: ui32_to_f32_def)
    then show ?thesis using 2
      by (simp only:) (rule normRoundPackToF32_result [of _ "real (unat a)"], simp_all add: unat_eq_0)
  next
    case 3
    then have e: "ui32_to_f32 a st = softfloat_roundPackToF32 False 0x9D (ucast (drop_bit 1 a OR (a AND 1))) st"
      using word_top_bit [of a] by (auto simp: ui32_to_f32_def)
    have u: "unat (ucast (drop_bit 1 a OR (a AND 1)) :: u64) = jam (unat a) 1"
      by (simp only: word_and_1 unat_ucast_up len_num1 len_bit0) (simp add: unat_or_of_bool unat_drop_bit jam_def odd_iff_mod_2_eq_one unat_ucast_up)
    have "2 ^ 30 \<le> jam (unat a) 1" "jam (unat a) 1 < 2 ^ 31"
      using 3 unat_f32_less [of a] jam_less_iff(1) [of "2 ^ 30" "unat a" 1] jam_less_iff(1) [of "2 ^ 31" "unat a" 1] by simp_all
    then show ?thesis unfolding e using agrees_mono [OF agrees_jam_nat, of 6 "unat a" 1]
      by (intro roundPackToF32_result [of "real (unat a) / 2 ^ 1"]) (simp_all only: u, simp_all)
  qed
qed simp_all

lemma ui64_to_f32_correct: "f32_rounded st False (real (unat a)) (ui64_to_f32 a st)"
proof (rule f32_rounded_nat [of _ False])
  show "fl_result 23 255 st False (real (unat a) * 2 ^ 149) (unat (fst (ui64_to_f32 a st))) (snd (ui64_to_f32 a st))"
  proof (cases "a = 0")
    case True
    have "ui64_to_f32 0 st = (0, st)" by (simp add: ui64_to_f32_def softfloat_countLeadingZeros64_def clz_top_zero)
    then show ?thesis using True by simp (rule fl_result_exact [of 0], simp_all)
  next
    case False
    show ?thesis
      by (rule magnitude_to_f32 [OF _ refl]) (use False in \<open>simp_all add: unat_eq_0 ui64_to_f32_def Let_def\<close>)
  qed
qed simp_all


lemma low_bits_zero:
  fixes a :: "'a::len word"
  assumes "LENGTH('a) = Suc n" and "a AND (2 ^ n - 1) = 0"
  shows "a = 0 \<or> a = 2 ^ n"
proof -
  have m: "unat a mod 2 ^ n = 0" using unat_and_mask [of a n] assms(2) by simp
  have "unat a < 2 * 2 ^ n" using unat_lt [of a] assms(1) by simp
  then have "unat a div 2 ^ n < 2" by (simp add: div_less_iff_less_mult)
  moreover have "unat a = unat a div 2 ^ n * 2 ^ n" using m by (metis add.right_neutral div_mult_mod_eq)
  moreover have "unat (2 ^ n :: 'a word) = 2 ^ n"
    using unat_push_bit [of "1 :: 'a word" n] assms(1) by (simp add: push_bit_eq_mult)
  moreover have "q < 2 \<Longrightarrow> u = q * p \<Longrightarrow> u = 0 \<or> u = p" for q u p :: nat by (cases q) auto
  ultimately have "unat a = 0 \<or> unat a = unat (2 ^ n :: 'a word)" by metis
  then show ?thesis by (simp add: word_unat_eq_iff)
qed

lemma i32_to_f32_correct: "f32_rounded st False (of_int (sint a)) (i32_to_f32 a st)"
proof (rule f32_rounded_nat [of _ "sint a < 0"])
  show "fl_result 23 255 st (sint a < 0) (real (nat \<bar>sint a\<bar>) * 2 ^ 149) (unat (fst (i32_to_f32 a st))) (snd (i32_to_f32 a st))"
  proof (cases "a AND 0x7FFFFFFF = 0")
    case True
    with low_bits_zero [of 31 a] consider "a = 0" | "a = 0x80000000" by auto
    then show ?thesis
    proof cases
      case 1
      then show ?thesis by (simp add: i32_to_f32_def) (rule fl_result_exact [of 0], simp_all)
    next
      case 2
      have i: "unat (ucast (packToF32UI True 0x9E 0) :: u32) = 2 ^ 31 + 0x9E * 2 ^ 23"
        by (subst packF32_small) simp_all
      have e: "i32_to_f32 a st = (ucast (packToF32UI True 0x9E 0), st)" "sint a = - (2 ^ 31)"
        using 2 by (simp_all add: i32_to_f32_def)
      show ?thesis unfolding e fst_conv snd_conv
        by (rule fl_result_pack [of "2 ^ 23" 23 "0x9E - 1"]) (simp_all add: i)
    qed
  next
    case False
    define absA :: u64 where "absA = (if sint a < 0 then - (scast a) else scast a)"
    have u: "unat absA = nat \<bar>sint a\<bar>" unfolding absA_def by (rule unat_abs) simp
    have e: "i32_to_f32 a st = softfloat_normRoundPackToF32 (sint a < 0) 0x9C absA st"
      using False by (simp add: i32_to_f32_def Let_def absA_def)
    have "sint a \<noteq> 0" using False signed_eq_0_iff [of a] by auto
    moreover have "sint a \<noteq> - (2 ^ 31)"
    proof
      assume "sint a = - (2 ^ 31)"
      then have "word_of_int (sint a) = (word_of_int (- (2 ^ 31)) :: u32)" by (rule arg_cong)
      then have "a = word_of_int (- (2 ^ 31))" by simp
      then show False using False by simp
    qed
    then have "\<bar>sint a\<bar> < 2 ^ 31" using sint_ge [of a] sint_lt [of a] by auto
    ultimately show ?thesis unfolding e
      by (intro normRoundPackToF32_result [of _ "real (nat \<bar>sint a\<bar>)"]) (auto simp: u)
  qed
qed auto


lemma i64_to_f32_correct: "f32_rounded st False (of_int (sint a)) (i64_to_f32 a st)"
proof (rule f32_rounded_nat [of _ "sint a < 0"])
  define absA where "absA = (if sint a < 0 then - a else a)"
  have u: "unat absA = nat \<bar>sint a\<bar>"
    using unat_abs [of a, where 'b = 64] unfolding absA_def scast_id by simp
  show "fl_result 23 255 st (sint a < 0) (real (nat \<bar>sint a\<bar>) * 2 ^ 149) (unat (fst (i64_to_f32 a st))) (snd (i64_to_f32 a st))"
  proof (cases "a = 0")
    case True
    have "i64_to_f32 0 st = (0, st)" by (simp add: i64_to_f32_def softfloat_countLeadingZeros64_def clz_top_zero)
    then show ?thesis using True by simp (rule fl_result_exact [of 0], simp_all)
  next
    case False
    then have "sint a \<noteq> 0" using signed_eq_0_iff [of a] by auto
    then show ?thesis unfolding u [symmetric] using False
      by (intro magnitude_to_f32 [OF _ refl]) (simp_all add: u i64_to_f32_def Let_def flip: absA_def)
  qed
qed auto

lemma f64_rounded_nat:
  assumes "fl_result 52 2047 st s (real n * 2 ^ 1074) (unat (fst res)) (snd res)"
    and "x = (if s then - real n else real n)" and "n = 0 \<Longrightarrow> s = zs"
  shows "f64_rounded st zs x res"
  by (rule f64_roundedI [of st s "real n * 2 ^ 1074" res x s]) (use assms in auto)

lemma magnitude32_to_f64:
  assumes "unat a \<noteq> 0" and "unat a < 2 ^ 32" and "d = uint (softfloat_countLeadingZeros32 (ucast (a :: u64))) + 21"
  shows "fl_result 52 2047 st s (real (unat a) * 2 ^ 1074) (unat (packToF64UI s (0x432 - d) (push_bit (nat d) a))) st"
proof -
  define h where "h = unat (softfloat_countLeadingZeros32 (ucast a)) + 21"
  have d: "d = int h" unfolding assms(3) h_def by (simp only: uint_nat of_nat_add of_nat_numeral)
  have "2 ^ 31 * 2 ^ 21 \<le> unat a * 2 ^ h" "unat a * 2 ^ h < 2 ^ 32 * 2 ^ 21" and h: "h < 53"
    using clz32_shift [OF assms(1,2)] unfolding h_def power_add by simp_all
  then have b: "2 ^ 52 \<le> unat a * 2 ^ h" "unat a * 2 ^ h < 2 ^ 53" by simp_all
  have u: "unat (push_bit h a) = unat a * 2 ^ h" using b by (intro unat_push_bit) simp
  have i: "nat (int (1074 - h)) * 2 ^ 52 + unat (push_bit h a) < 2 ^ 63"
    unfolding u using pack_index_less [of "unat a * 2 ^ h" 52 "1074 - h" 2047] b(2) by simp
  have "(2::real) ^ 1074 = 2 ^ h * 2 ^ (1074 - h)" unfolding power_add [symmetric] using h by simp
  then have x: "real (unat a) * 2 ^ 1074 = real (unat a * 2 ^ h) * 2 ^ (1074 - h)" by simp
  have e: "0x432 - d = int (1074 - h)" "nat d = h" using h unfolding d by simp_all
  show ?thesis unfolding e
    by (rule fl_result_pack [OF _ _ _ x]) (use b unat_packToF64UI [OF _ i, of s] u in \<open>simp_all add: fp_half_def\<close>)
qed

lemma ui32_to_f64_correct: "f64_rounded st False (real (unat a)) (ui32_to_f64 a, st)"
proof (rule f64_rounded_nat [of _ False])
  show "fl_result 52 2047 st False (real (unat a) * 2 ^ 1074) (unat (fst (ui32_to_f64 a, st))) (snd (ui32_to_f64 a, st))"
  proof (cases "a = 0")
    case True
    then show ?thesis by (simp add: ui32_to_f64_def) (rule fl_result_exact [of 0], simp_all)
  next
    case False
    have "unat (ucast a :: u64) = unat a" "(ucast (ucast a :: u64) :: u32) = a"
      using unat_f32_less [of a] by (simp_all add: word_unat_eq_iff unat_ucast_up unat_ucast_mod)
    then show ?thesis using magnitude32_to_f64 [of "ucast a" _ st False, OF _ _ refl] False unat_f32_less [of a]
      by (simp add: ui32_to_f64_def Let_def unat_eq_0)
  qed
qed simp_all


lemma i32_to_f64_correct: "f64_rounded st False (of_int (sint a)) (i32_to_f64 a, st)"
proof (rule f64_rounded_nat [of _ "sint a < 0"])
  define absA :: u64 where "absA = (if sint a < 0 then - (scast a) else scast a)"
  have u: "unat absA = nat \<bar>sint a\<bar>" unfolding absA_def by (rule unat_abs) simp
  show "fl_result 52 2047 st (sint a < 0) (real (nat \<bar>sint a\<bar>) * 2 ^ 1074) (unat (fst (i32_to_f64 a, st))) (snd (i32_to_f64 a, st))"
  proof (cases "a = 0")
    case True
    then show ?thesis by (simp add: i32_to_f64_def) (rule fl_result_exact [of 0], simp_all)
  next
    case False
    then have "sint a \<noteq> 0" using signed_eq_0_iff [of a] by auto
    moreover have "\<bar>sint a\<bar> \<le> 2 ^ 31" using sint_ge [of a] sint_lt [of a] by auto
    ultimately have "unat absA \<noteq> 0" "unat absA < 2 ^ 32" unfolding u by auto
    from magnitude32_to_f64 [OF this refl, of st "sint a < 0"] show ?thesis
      unfolding u using False by (simp add: i32_to_f64_def Let_def flip: absA_def)
  qed
qed auto

lemma ui64_to_f64_correct: "f64_rounded st False (real (unat a)) (ui64_to_f64 a st)"
proof (rule f64_rounded_nat [of _ False])
  consider "a = 0" | "a \<noteq> 0" "unat a < 2 ^ 63" | "2 ^ 63 \<le> unat a" by linarith
  then show "fl_result 52 2047 st False (real (unat a) * 2 ^ 1074) (unat (fst (ui64_to_f64 a st))) (snd (ui64_to_f64 a st))"
  proof cases
    case 1
    then show ?thesis by (simp add: ui64_to_f64_def) (rule fl_result_exact [of 0], simp_all)
  next
    case 2
    then have "ui64_to_f64 a st = softfloat_normRoundPackToF64 False 0x43C a st"
      using word_top_bit [of a] by (simp add: ui64_to_f64_def)
    then show ?thesis using 2
      by (simp only:) (rule normRoundPackToF64_result [of _ "real (unat a)"], simp_all add: unat_eq_0)
  next
    case 3
    then have e: "ui64_to_f64 a st = softfloat_roundPackToF64 False 0x43D (softfloat_shortShiftRightJam64 a 1) st"
      using word_top_bit [of a] by (auto simp: ui64_to_f64_def)
    have u: "unat (softfloat_shortShiftRightJam64 a 1) = jam (unat a) 1"
      by (subst unat_shortShiftRightJam64) simp_all
    have "2 ^ 62 \<le> jam (unat a) 1" "jam (unat a) 1 < 2 ^ 63"
      using 3 unat_lt [of a] jam_less_iff(1) [of "2 ^ 62" "unat a" 1] jam_less_iff(1) [of "2 ^ 63" "unat a" 1] by simp_all
    then show ?thesis unfolding e using agrees_mono [OF agrees_jam_nat, of 9 "unat a" 1]
      by (intro roundPackToF64_result [of "real (unat a) / 2 ^ 1"]) (simp_all only: u, simp_all)
  qed
qed simp_all

lemma i64_to_f64_correct: "f64_rounded st False (of_int (sint a)) (i64_to_f64 a st)"
proof (rule f64_rounded_nat [of _ "sint a < 0"])
  show "fl_result 52 2047 st (sint a < 0) (real (nat \<bar>sint a\<bar>) * 2 ^ 1074) (unat (fst (i64_to_f64 a st))) (snd (i64_to_f64 a st))"
  proof (cases "a AND 0x7FFFFFFFFFFFFFFF = 0")
    case True
    with low_bits_zero [of 63 a] consider "a = 0" | "a = 0x8000000000000000" by auto
    then show ?thesis
    proof cases
      case 1
      then show ?thesis by (simp add: i64_to_f64_def) (rule fl_result_exact [of 0], simp_all)
    next
      case 2
      have i: "unat (packToF64UI True 0x43E 0) = 2 ^ 63 + 0x43E * 2 ^ 52"
        by (subst unat_packToF64UI) simp_all
      have e: "i64_to_f64 a st = (packToF64UI True 0x43E 0, st)" "sint a = - (2 ^ 63)"
        using 2 by (simp_all add: i64_to_f64_def)
      show ?thesis unfolding e fst_conv snd_conv
        by (rule fl_result_pack [of "2 ^ 52" 52 "0x43E - 1"]) (simp_all add: i fp_half_def)
    qed
  next
    case False
    define absA where "absA = (if sint a < 0 then - a else a)"
    have u: "unat absA = nat \<bar>sint a\<bar>"
      using unat_abs [of a, where 'b = 64] unfolding absA_def scast_id by simp
    have e: "i64_to_f64 a st = softfloat_normRoundPackToF64 (sint a < 0) 0x43C absA st"
      using False by (simp add: i64_to_f64_def Let_def absA_def)
    have "sint a \<noteq> 0" using False signed_eq_0_iff [of a] by auto
    moreover have "sint a \<noteq> - (2 ^ 63)"
    proof
      assume "sint a = - (2 ^ 63)"
      then have "word_of_int (sint a) = (word_of_int (- (2 ^ 63)) :: u64)" by (rule arg_cong)
      then have "a = word_of_int (- (2 ^ 63))" by simp
      then show False using False by simp
    qed
    then have "\<bar>sint a\<bar> < 2 ^ 63" using sint_ge [of a] sint_lt [of a] by auto
    ultimately show ?thesis unfolding e
      by (intro normRoundPackToF64_result [of _ "real (nat \<bar>sint a\<bar>)"]) (auto simp: u)
  qed
qed auto

end
