(* ===== verification/Approx_Sqrt.thy ===== *)
theory Approx_Sqrt
  imports Primitives
begin

text \<open>
  The approximation of the reciprocal of a square root (\<open>s_approxRecipSqrt32_1.c\<close>,
  \<open>s_approxRecipSqrt_1Ks.c\<close>): a piecewise linear first guess from two tables, improved by a
  polynomial in its error. The result is below the true value and differs from it by little more
  than two units; the table entries of all sixteen pieces are checked for that.
\<close>

definition softfloat_approxRecipSqrt_1k0s :: "u16 list" where
  "softfloat_approxRecipSqrt_1k0s =
     [0xB4C9, 0xFFAB, 0xAA7D, 0xF11C, 0xA1C5, 0xE4C7, 0x9A43, 0xDA29,
      0x93B5, 0xD0E5, 0x8DED, 0xC8B7, 0x88C6, 0xC16D, 0x8424, 0xBAE1]"

definition softfloat_approxRecipSqrt_1k1s :: "u16 list" where
  "softfloat_approxRecipSqrt_1k1s =
     [0xA5A5, 0xEA42, 0x8C21, 0xC62D, 0x788F, 0xAA7F, 0x6928, 0x94B6,
      0x5CC7, 0x8335, 0x52A6, 0x74E2, 0x4A3E, 0x68FE, 0x432B, 0x5EFD]"

definition softfloat_approxRecipSqrt32_1 :: "bool \<Rightarrow> u32 \<Rightarrow> u32" where
  "softfloat_approxRecipSqrt32_1 oddExpA a =
     (let index = unat (drop_bit 27 a AND 0xE) + of_bool oddExpA;
          eps = ucast (drop_bit 12 a) :: u16;
          r0 = ucast (ucast (softfloat_approxRecipSqrt_1k0s ! index)
                 - drop_bit 20 (ucast (softfloat_approxRecipSqrt_1k1s ! index) * ucast eps :: u64)) :: u16;
          ESqrR0 = ucast r0 * ucast r0 :: u64;
          ESqrR0 = (if oddExpA then ESqrR0 else push_bit 1 ESqrR0);
          sigma0 = ucast (NOT (drop_bit 23 (ucast (ucast ESqrR0 :: u32) * ucast a :: u64))) :: u32;
          r = push_bit 16 (ucast r0) + drop_bit 25 (ucast r0 * ucast sigma0) :: u64;
          sqrSigma0 = ucast (drop_bit 32 (ucast sigma0 * ucast sigma0 :: u64)) :: u32;
          r = r + drop_bit 48 (ucast (ucast (drop_bit 1 r + drop_bit 3 r - push_bit 14 (ucast r0)) :: u32) * ucast sqrSigma0);
          r = (if r AND 0x80000000 = 0 then 0x80000000 else r)
      in ucast r)"

section \<open>The first guess\<close>

lemma cubic_max:
  fixes u C B :: int
  assumes "0 \<le> u" and "0 \<le> B" and "0 \<le> C"
  shows "27 * B\<^sup>2 * (u\<^sup>2 * (C - B * u)) \<le> 4 * C ^ 3"
proof -
  have "4 * C ^ 3 - 27 * B\<^sup>2 * (u\<^sup>2 * (C - B * u)) = (2 * C - 3 * B * u)\<^sup>2 * (C + 3 * B * u)"
    by (simp add: power2_eq_square power3_eq_cube algebra_simps)
  moreover have "0 \<le> (2 * C - 3 * B * u)\<^sup>2 * (C + 3 * B * u)" using assms by simp
  ultimately show ?thesis by linarith
qed

lemma cubic_min:
  fixes u C B :: int
  assumes "0 \<le> l" and "l \<le> u" and "u \<le> h" and "0 \<le> B" and "0 \<le> C"
    and "m \<le> l\<^sup>2 * (C - B * l)" and "m \<le> h\<^sup>2 * (C - B * h)"
  shows "m \<le> u\<^sup>2 * (C - B * u)"
proof (cases "3 * (B * u) \<le> 2 * C")
  case True
  have "u\<^sup>2 + u * l + l\<^sup>2 = (u + l)\<^sup>2 - u * l" by (simp add: power2_eq_square algebra_simps)
  have s: "2 * (u\<^sup>2 + u * l + l\<^sup>2) \<le> 3 * u * (u + l)"
    using mult_mono [OF assms(2) assms(2)] mult_left_mono [OF assms(2), of l] assms(1,2) by (simp add: power2_eq_square algebra_simps)
  have "2 * (B * (u\<^sup>2 + u * l + l\<^sup>2)) \<le> B * (3 * u * (u + l))" using mult_left_mono [OF s assms(4)] by (simp add: algebra_simps)
  also have "\<dots> = (3 * (B * u)) * (u + l)" by simp
  also have "\<dots> \<le> 2 * C * (u + l)" by (rule mult_right_mono [OF True]) (use assms in simp)
  finally have "0 \<le> (u - l) * (C * (u + l) - B * (u\<^sup>2 + u * l + l\<^sup>2))" using assms(2) by simp
  also have "\<dots> = u\<^sup>2 * (C - B * u) - l\<^sup>2 * (C - B * l)" by (simp add: power2_eq_square algebra_simps)
  finally show ?thesis using assms(6) by linarith
next
  case False
  have s: "3 * u * (u + h) \<le> 2 * (h\<^sup>2 + h * u + u\<^sup>2)"
    using mult_mono [OF assms(3) assms(3)] mult_left_mono [OF assms(3), of u] mult_left_mono [OF assms(3), of h] assms(1-3) by (simp add: power2_eq_square algebra_simps)
  have "2 * C * (u + h) \<le> 3 * (B * u) * (u + h)" by (rule mult_right_mono) (use False assms in simp_all)
  also have "\<dots> = B * (3 * u * (u + h))" by simp
  also have "\<dots> \<le> 2 * (B * (h\<^sup>2 + h * u + u\<^sup>2))" using mult_left_mono [OF s assms(4)] by (simp add: algebra_simps)
  finally have "0 \<le> (h - u) * (B * (h\<^sup>2 + h * u + u\<^sup>2) - C * (u + h))" using assms(3) by simp
  also have "\<dots> = u\<^sup>2 * (C - B * u) - h\<^sup>2 * (C - B * h)" by (simp add: power2_eq_square algebra_simps)
  finally show ?thesis using assms(7) by linarith
qed

text \<open>
  One piece: table entries \<open>k0\<close> and \<open>k1\<close>, arguments from \<open>a0\<close> on, \<open>2 ^ L\<close> for the number one and \<open>2 ^ L - D\<close>
  for the least value of the guess.
\<close>

definition piece_ok :: "int \<Rightarrow> int \<Rightarrow> int \<Rightarrow> int \<Rightarrow> int \<Rightarrow> bool" where
  "piece_ok k0 k1 a0 one least \<longleftrightarrow>
     (let C = k1 * (a0 + 2 ^ 12) + 2 ^ 32 * (k0 + 1) - 2 ^ 12; C' = k1 * a0 + 2 ^ 32 * k0;
          lo = k0 * 2 ^ 20 - k1 * 65535; hi = k0 * 2 ^ 20
      in 0 < k1 \<and> 0 \<le> a0 \<and> 0 \<le> lo \<and> k0 < 2 ^ 16 \<and> 4 * C ^ 3 < 27 * 2 ^ 64 * one * k1 \<and>
         2 ^ 40 * least * k1 \<le> lo\<^sup>2 * (C' - 2 ^ 12 * lo) \<and> 2 ^ 40 * least * k1 \<le> hi\<^sup>2 * (C' - 2 ^ 12 * hi))"

lemma piece_guess:
  fixes k0 k1 a0 a eps r0 one least :: int
  assumes "piece_ok k0 k1 a0 one least" and "0 \<le> eps" and "eps < 2 ^ 16" and "a0 + eps * 2 ^ 12 \<le> a" and "a < a0 + (eps + 1) * 2 ^ 12"
    and "r0 = k0 - k1 * eps div 2 ^ 20"
  shows "0 \<le> r0" and "r0 < 2 ^ 16" and "r0\<^sup>2 * a < one" and "least \<le> r0\<^sup>2 * a"
proof -
  define C C' lo hi where "C = k1 * (a0 + 2 ^ 12) + 2 ^ 32 * (k0 + 1) - 2 ^ 12" and "C' = k1 * a0 + 2 ^ 32 * k0"
    and "lo = k0 * 2 ^ 20 - k1 * 65535" and "hi = k0 * 2 ^ 20"
  have p: "0 < k1" "0 \<le> a0" "0 \<le> lo" "k0 < 2 ^ 16" "4 * C ^ 3 < 27 * 2 ^ 64 * one * k1"
      "2 ^ 40 * least * k1 \<le> lo\<^sup>2 * (C' - 2 ^ 12 * lo)" "2 ^ 40 * least * k1 \<le> hi\<^sup>2 * (C' - 2 ^ 12 * hi)"
    using assms(1) unfolding piece_ok_def Let_def C_def C'_def lo_def hi_def by blast+
  define j where "j = k1 * eps div 2 ^ 20"
  have j: "j * 2 ^ 20 \<le> k1 * eps" "k1 * eps < (j + 1) * 2 ^ 20"
  proof -
    have "k1 * eps div 2 ^ 20 * 2 ^ 20 + k1 * eps mod 2 ^ 20 = k1 * eps" by (rule div_mult_mod_eq)
    moreover have "0 \<le> k1 * eps mod 2 ^ 20" "k1 * eps mod 2 ^ 20 < 2 ^ 20" by simp_all
    ultimately show "j * 2 ^ 20 \<le> k1 * eps" "k1 * eps < (j + 1) * 2 ^ 20" unfolding j_def distrib_right mult_1_left by linarith+
  qed
  have e: "k1 * eps \<le> k1 * 65535" using assms(3) p(1) by (intro mult_left_mono) simp_all
  have j0: "0 \<le> j" using p(1) assms(2) by (simp add: j_def div_int_pos_iff)
  have r: "r0 = k0 - j" by (simp add: assms(6) j_def)
  have "lo \<le> hi - k1 * eps" using e by (simp add: lo_def hi_def)
  then have u: "lo \<le> hi - k1 * eps" "hi - k1 * eps \<le> hi" using p(1) assms(2) by simp_all
  have ru: "hi - k1 * eps \<le> r0 * 2 ^ 20" unfolding r hi_def using j(1) by simp
  then have "0 \<le> r0 * 2 ^ 20" using u(1) p(3) by linarith
  then show r0: "0 \<le> r0" by (simp add: zero_le_mult_iff)
  show "r0 < 2 ^ 16" using r j0 p(4) by linarith
  have "a0 + (eps + 1) * 2 ^ 12 - 1 \<ge> a" using assms(5) by linarith
  then have "k1 * a \<le> k1 * (a0 + (eps + 1) * 2 ^ 12 - 1)" using p(1) by (intro mult_left_mono) simp_all
  also have "\<dots> = k1 * (a0 + 2 ^ 12) + (k1 * eps) * 2 ^ 12 - k1" by (simp add: algebra_simps)
  also have "\<dots> < k1 * (a0 + 2 ^ 12) + ((j + 1) * 2 ^ 20 - 1) * 2 ^ 12 + 1"
  proof -
    have "(k1 * eps) * 2 ^ 12 \<le> ((j + 1) * 2 ^ 20 - 1) * 2 ^ 12" by (rule mult_right_mono) (use j(2) in simp_all)
    then show ?thesis using p(1) by linarith
  qed
  also have "\<dots> = C - 2 ^ 32 * r0 + 1" unfolding C_def r by (simp add: algebra_simps)
  finally have a: "k1 * a \<le> C - 2 ^ 32 * r0" by linarith
  have a_pos: "0 \<le> a" using assms(2,4) p(2) by simp
  have "0 \<le> k1 * a" using p(1) a_pos by simp
  then have C0: "0 \<le> C" using a r0 by simp
  have "27 * (2 ^ 32)\<^sup>2 * (r0\<^sup>2 * (k1 * a)) \<le> 27 * (2 ^ 32)\<^sup>2 * (r0\<^sup>2 * (C - 2 ^ 32 * r0))"
    using a by (intro mult_left_mono) simp_all
  also have "\<dots> \<le> 4 * C ^ 3" by (rule cubic_max) (use r0 C0 in simp_all)
  also have "\<dots> < 27 * (2 ^ 32)\<^sup>2 * (one * k1)" using p(5) by (simp add: mult.assoc)
  finally have "k1 * (r0\<^sup>2 * a) < k1 * one" by (simp add: ac_simps)
  then show "r0\<^sup>2 * a < one" using p(1) by simp
  have C0': "0 \<le> C'" using p(1-3) e by (simp add: C'_def lo_def)
  have a': "C' - 2 ^ 12 * (hi - k1 * eps) \<le> k1 * a"
    using mult_left_mono [OF assms(4), of k1] p(1) by (simp add: C'_def hi_def algebra_simps)
  have "2 ^ 40 * least * k1 \<le> (hi - k1 * eps)\<^sup>2 * (C' - 2 ^ 12 * (hi - k1 * eps))"
    by (rule cubic_min [OF p(3) u]) (use C0' p(6,7) in simp_all)
  also have "\<dots> \<le> (hi - k1 * eps)\<^sup>2 * (k1 * a)" using a' by (intro mult_left_mono) simp_all
  also have "\<dots> \<le> (r0 * 2 ^ 20)\<^sup>2 * (k1 * a)"
    using ru u(1) p(1,3) a_pos by (intro mult_right_mono power_mono) simp_all
  finally have "2 ^ 40 * k1 * least \<le> 2 ^ 40 * k1 * (r0\<^sup>2 * a)" by (simp add: power_mult_distrib ac_simps)
  then show "least \<le> r0\<^sup>2 * a" using p(1) by simp
qed

section \<open>The improvement\<close>

lemma nat_div_real:
  fixes x n :: nat
  assumes "0 < n"
  shows "real x / real n - 1 < real (x div n)" and "real (x div n) \<le> real x / real n"
proof -
  have "real (x div n) = real_of_int \<lfloor>real x / real n\<rfloor>" by (simp add: floor_divide_of_nat_eq)
  then show "real x / real n - 1 < real (x div n)" "real (x div n) \<le> real x / real n" by linarith+
qed

definition recip_poly :: "real \<Rightarrow> real" where
  "recip_poly x = 1 + x / 2 + 3 / 8 * x\<^sup>2 + 5 / 16 * x ^ 3"

lemma recip_poly_sq:
  "(1 - x) * (recip_poly x)\<^sup>2 = 1 - x ^ 4 * (35 / 64 + 14 / 64 * x + 35 / 256 * x\<^sup>2 + 25 / 256 * x ^ 3)"
  by (simp add: recip_poly_def power2_eq_square power3_eq_cube power4_eq_xxxx field_simps)

lemma recip_poly_less:
  assumes "0 < x" and "x \<le> 1 / 357"
  shows "recip_poly x * sqrt (1 - x) < 1" and "1 - recip_poly x * sqrt (1 - x) \<le> 29 / 100 * x ^ 4"
proof -
  define y where "y = recip_poly x * sqrt (1 - x)"
  define g where "g = 35 / 64 + 14 / 64 * x + 35 / 256 * x\<^sup>2 + 25 / 256 * x ^ 3"
  have x1: "x \<le> 1" "x\<^sup>2 \<le> 1" "x ^ 3 \<le> 1" "x ^ 4 \<le> (1 / 357) ^ 4" using assms by (simp_all add: power_le_one power_mono)
  have x2: "x\<^sup>2 \<le> (1 / 357)\<^sup>2" "x ^ 3 \<le> (1 / 357) ^ 3" using assms by (simp_all add: power_mono)
  have g: "0 < g" unfolding g_def using assms(1) by (intro add_pos_pos) simp_all
  have g': "g \<le> 56 / 100" using assms(2) x2 unfolding g_def by (simp add: power2_eq_square power3_eq_cube)
  have y2: "y\<^sup>2 = 1 - x ^ 4 * g"
    using recip_poly_sq [of x] assms by (simp add: y_def g_def power_mult_distrib mult.commute)
  have x4: "0 \<le> x ^ 4" using assms(1) by simp
  have p: "0 < x ^ 4 * g" using assms(1) g by simp
  have y0: "0 \<le> y" using assms by (simp add: y_def recip_poly_def)
  have y1: "y < 1"
  proof (rule ccontr)
    assume "\<not> y < 1"
    then have "1 \<le> y\<^sup>2" by (simp add: one_le_power)
    then show False using y2 p by simp
  qed
  then show "recip_poly x * sqrt (1 - x) < 1" by (simp add: y_def)
  have "x ^ 4 * g \<le> (1 / 357) ^ 4 * (56 / 100)" using g g' x1(4) assms by (intro mult_mono) simp_all
  then have ys: "99 / 100 \<le> y\<^sup>2" using y2 by (simp add: power4_eq_xxxx)
  have "y\<^sup>2 \<le> y" using y0 y1 by (simp add: power2_eq_square mult_left_le_one_le)
  then have yl: "99 / 100 \<le> y" using ys by simp
  have "(1 - y) * (1 + y) = x ^ 4 * g" using y2 by (simp add: power2_eq_square algebra_simps)
  moreover have "(1 - y) * (199 / 100) \<le> (1 - y) * (1 + y)" using yl y1 by (intro mult_left_mono) simp_all
  moreover have "x ^ 4 * g \<le> x ^ 4 * (56 / 100)" using g' assms(1) by (intro mult_left_mono) simp_all
  ultimately have "(1 - y) * (199 / 100) \<le> x ^ 4 * (56 / 100)" by linarith
  then have "(1 - y) * 199 \<le> x ^ 4 * 56" by (simp add: divide_simps)
  then have "1 - y \<le> 29 / 100 * x ^ 4" using x4 unfolding left_diff_distrib by linarith
  then show "1 - recip_poly x * sqrt (1 - x) \<le> 29 / 100 * x ^ 4" by (simp add: y_def)
qed

lemma recip_poly_step:
  assumes "0 \<le> s" and "s \<le> x" and "x - d \<le> s" and "x \<le> 1 / 357"
  shows "recip_poly s \<le> recip_poly x" and "recip_poly x - recip_poly s \<le> 503 / 1000 * d"
proof -
  have x: "0 \<le> x" using assms by simp
  have sq: "x\<^sup>2 - s\<^sup>2 = (x - s) * (x + s)" "x ^ 3 - s ^ 3 = (x - s) * (x\<^sup>2 + x * s + s\<^sup>2)"
    by (simp_all add: power2_eq_square power3_eq_cube algebra_simps)
  have e: "recip_poly x - recip_poly s = (x - s) * (1 / 2 + 3 / 8 * (x + s) + 5 / 16 * (x\<^sup>2 + x * s + s\<^sup>2))"
  proof -
    have "recip_poly x - recip_poly s = (x - s) / 2 + 3 / 8 * (x\<^sup>2 - s\<^sup>2) + 5 / 16 * (x ^ 3 - s ^ 3)"
      by (simp add: recip_poly_def right_diff_distrib diff_divide_distrib)
    then show ?thesis unfolding sq by (simp add: distrib_left)
  qed
  have q: "x\<^sup>2 \<le> 1 / 127449" "x * s \<le> 1 / 127449" "s\<^sup>2 \<le> 1 / 127449"
    using assms x mult_mono [of x "1 / 357" x "1 / 357"] mult_mono [of x "1 / 357" s "1 / 357"] mult_mono [of s "1 / 357" s "1 / 357"]
    by (simp_all add: power2_eq_square)
  have f: "0 \<le> 1 / 2 + 3 / 8 * (x + s) + 5 / 16 * (x\<^sup>2 + x * s + s\<^sup>2)" using assms(1) x by simp
  have b: "1 / 2 + 3 / 8 * (x + s) + 5 / 16 * (x\<^sup>2 + x * s + s\<^sup>2) \<le> 503 / 1000"
    using assms q unfolding distrib_left by linarith
  show "recip_poly s \<le> recip_poly x" using mult_nonneg_nonneg [OF _ f, of "x - s"] assms(2) unfolding e [symmetric] by simp
  have "(x - s) * (1 / 2 + 3 / 8 * (x + s) + 5 / 16 * (x\<^sup>2 + x * s + s\<^sup>2)) \<le> (x - s) * (503 / 1000)" using b assms(2) by (intro mult_left_mono) simp_all
  also have "\<dots> \<le> d * (503 / 1000)" using assms(3) by simp
  finally show "recip_poly x - recip_poly s \<le> 503 / 1000 * d" unfolding e by simp
qed

lemma recip_poly_strict:
  assumes "0 \<le> s" and "s < x"
  shows "recip_poly s < recip_poly x"
proof -
  have "s\<^sup>2 \<le> x\<^sup>2" "s ^ 3 \<le> x ^ 3" using assms by (simp_all add: power_mono)
  then show ?thesis unfolding recip_poly_def using assms(2) by linarith
qed

text \<open>
  The steps on numbers. \<open>w\<close> is the square of the guess times the argument, \<open>x\<close> its distance from one,
  \<open>R\<close> the exact result.
\<close>

lemma improved_guess:
  fixes r0 w s0 r1 t v r2 :: nat and x R :: real
  assumes r0: "0 < r0" "r0 < 2 ^ 16" and w: "w < 2 ^ 63" and x: "x = 1 - real w / 2 ^ 63" "x \<le> 1 / 357"
    and s0: "s0 = 2 ^ 40 - 1 - w div 2 ^ 23" and r1: "r1 = r0 * 2 ^ 16 + r0 * s0 div 2 ^ 25"
    and t: "t = r1 div 2 + r1 div 8 - r0 * 2 ^ 14" and v: "v = s0 * s0 div 2 ^ 32" and r2: "r2 = r1 + t * v div 2 ^ 48"
    and R: "R * sqrt (1 - x) = real r0 * 2 ^ 16"
  shows "s0 < 2 ^ 32" and "r0 * 2 ^ 14 \<le> r1 div 2 + r1 div 8" and "t < 2 ^ 32" and "v < 2 ^ 32"
    and "real r2 < R" and "R - real r2 < 2 + real r0 * (503 / 1000) / 2 ^ 24 + 1 / 2 ^ 14 + 29 / 100 * R * x ^ 4"
proof -
  define \<rho> where "\<rho> = real r0 * 2 ^ 16"
  define \<sigma> where "\<sigma> = real s0 / 2 ^ 40"
  have \<rho>: "0 < \<rho>" "\<rho> < 2 ^ 32" using r0 by (simp_all add: \<rho>_def)
  have x0: "0 < x" using w by (simp add: x(1) field_simps)
  have w1: "w div 2 ^ 23 < 2 ^ 40" using w by (simp add: div_less_iff_less_mult)
  have s0r: "real s0 = 2 ^ 40 - 1 - real (w div 2 ^ 23)" unfolding s0 using w1 by (simp add: of_nat_diff)
  note wd = nat_div_real [of "2 ^ 23" w]
  have wx: "real w / 2 ^ 23 = 2 ^ 40 * (1 - x)" by (simp add: x(1))
  have s: "2 ^ 40 * x - 1 \<le> real s0" "real s0 < 2 ^ 40 * x" using wd wx s0r by simp_all
  have \<sigma>: "0 \<le> \<sigma>" "\<sigma> < x" "x - 1 / 2 ^ 40 \<le> \<sigma>" using s by (simp_all add: \<sigma>_def field_simps)
  have "real s0 < 2 ^ 32" using s(2) x(2) by simp
  then show s32: "s0 < 2 ^ 32" by (metis of_nat_less_iff of_nat_numeral of_nat_power)
  have rs: "real (r0 * s0) / 2 ^ 25 = \<rho> * \<sigma> / 2" by (simp add: \<rho>_def \<sigma>_def)
  note d1 = nat_div_real [of "2 ^ 25" "r0 * s0"]
  have r1r: "real r1 = \<rho> + real (r0 * s0 div 2 ^ 25)" unfolding r1 by (simp add: \<rho>_def)
  have R1: "real r1 \<le> \<rho> + \<rho> * \<sigma> / 2" "\<rho> + \<rho> * \<sigma> / 2 - 1 < real r1" using d1 rs r1r by simp_all
  show tn: "r0 * 2 ^ 14 \<le> r1 div 2 + r1 div 8"
  proof -
    have "r0 * 2 ^ 16 div 2 \<le> r1 div 2" unfolding r1 by (rule div_le_mono) simp
    then show ?thesis by simp
  qed
  note d2 = nat_div_real [of 2 r1] nat_div_real [of 8 r1]
  have tr: "real t = real (r1 div 2) + real (r1 div 8) - \<rho> / 4" unfolding t using tn by (simp add: of_nat_diff \<rho>_def)
  define T where "T = \<rho> * (3 / 8 + 5 / 16 * \<sigma>)"
  have Te: "T = 5 / 8 * (\<rho> + \<rho> * \<sigma> / 2) - \<rho> / 4" by (simp add: T_def algebra_simps)
  have T: "real t \<le> T" "T - 21 / 8 \<le> real t"
  proof -
    have "real t \<le> 5 / 8 * real r1 - \<rho> / 4" "5 / 8 * real r1 - 2 - \<rho> / 4 \<le> real t" using d2 tr by simp_all
    note b = this
    show "real t \<le> T" using b(1) R1(1) unfolding Te by (simp add: distrib_left)
    show "T - 21 / 8 \<le> real t" using b(2) R1(2) unfolding Te by (simp add: distrib_left)
  qed
  have \<sigma>1: "\<sigma> \<le> 1 / 357" using \<sigma>(2) x(2) by simp
  have T1: "0 \<le> T" "T \<le> \<rho> / 2"
  proof -
    have "3 / 8 + 5 / 16 * \<sigma> \<le> 1 / 2" using \<sigma>1 by simp
    then have "\<rho> * (3 / 8 + 5 / 16 * \<sigma>) \<le> \<rho> * (1 / 2)" using \<rho>(1) by (intro mult_left_mono) simp_all
    then show "T \<le> \<rho> / 2" by (simp add: T_def)
  qed (use \<rho>(1) \<sigma>(1) in \<open>simp add: T_def\<close>)
  have "real t < 2 ^ 32" using T(1) T1(2) \<rho>(2) by simp
  then show "t < 2 ^ 32" by (metis of_nat_less_iff of_nat_numeral of_nat_power)
  show "v < 2 ^ 32"
  proof -
    have "s0 * s0 < 2 ^ 32 * 2 ^ 32" using s32 by (intro mult_strict_mono) simp_all
    then show ?thesis unfolding v by (simp add: div_less_iff_less_mult)
  qed
  define W where "W = real v / 2 ^ 48"
  note d3 = nat_div_real [of "2 ^ 32" "s0 * s0"]
  have vs: "real (s0 * s0) / 2 ^ 32 = 2 ^ 48 * \<sigma>\<^sup>2" by (simp add: \<sigma>_def power2_eq_square)
  have W: "W \<le> \<sigma>\<^sup>2" "\<sigma>\<^sup>2 - 1 / 2 ^ 48 \<le> W" "0 \<le> W"
    using d3 unfolding W_def vs v [symmetric] by (simp_all add: vs [simplified])
  have S: "\<rho> + \<rho> * \<sigma> / 2 + T * \<sigma>\<^sup>2 = \<rho> * recip_poly \<sigma>"
    by (simp add: T_def recip_poly_def power2_eq_square power3_eq_cube algebra_simps)
  have tv: "real (t * v) / 2 ^ 48 = real t * W" by (simp add: W_def)
  have "real (2 ^ 48) = (2 ^ 48 :: real)" by simp
  note d4 = nat_div_real [of "2 ^ 48" "t * v", unfolded this tv, simplified]
  have r2r: "real r2 = real r1 + real (t * v div 281474976710656)" unfolding r2 by simp
  have up: "real t * W \<le> T * \<sigma>\<^sup>2" using T(1) W T1(1) by (intro mult_mono) simp_all
  have "real r2 \<le> \<rho> * recip_poly \<sigma>" using R1(1) d4(2) up unfolding r2r S [symmetric] by linarith
  also have "\<dots> < \<rho> * recip_poly x" using recip_poly_strict [OF \<sigma>(1,2)] \<rho>(1) by simp
  also have "\<dots> = R * (recip_poly x * sqrt (1 - x))" using R by (simp add: \<rho>_def ac_simps)
  finally have u: "real r2 < R * (recip_poly x * sqrt (1 - x))" .
  have R0: "0 < R"
  proof (rule ccontr)
    assume "\<not> 0 < R"
    then have "R * sqrt (1 - x) \<le> 0" using x by (intro mult_nonpos_nonneg) simp_all
    then show False using R \<rho>(1) by (simp add: \<rho>_def)
  qed
  note y = recip_poly_less [OF x0 x(2)]
  have "R * (recip_poly x * sqrt (1 - x)) < R * 1" using y(1) R0 by (intro mult_strict_left_mono) simp_all
  then show "real r2 < R" using u by simp
  have lowW: "T * \<sigma>\<^sup>2 - real t * W \<le> T / 2 ^ 48 + 21 / 8 * \<sigma>\<^sup>2"
  proof -
    have "T * \<sigma>\<^sup>2 - real t * W = T * (\<sigma>\<^sup>2 - W) + (T - real t) * W" by (simp add: algebra_simps)
    also have "\<dots> \<le> T * (1 / 2 ^ 48) + 21 / 8 * \<sigma>\<^sup>2"
      using T T1(1) W by (intro add_mono mult_mono mult_left_mono) simp_all
    finally show ?thesis by simp
  qed
  have "\<sigma>\<^sup>2 \<le> (1 / 357)\<^sup>2" using \<sigma>(1) \<sigma>1 by (rule power_mono [rotated])
  then have small: "T / 2 ^ 48 + 21 / 8 * \<sigma>\<^sup>2 \<le> 1 / 2 ^ 14" using T1(2) \<rho>(2) by (simp add: power2_eq_square)
  have "\<rho> * recip_poly \<sigma> - 2 - 1 / 2 ^ 14 < real r2"
    using R1(2) d4(1) lowW small unfolding r2r S [symmetric] by linarith
  moreover have "\<rho> * recip_poly x - \<rho> * recip_poly \<sigma> \<le> real r0 * (503 / 1000) / 2 ^ 24"
  proof -
    have "recip_poly x - recip_poly \<sigma> \<le> 503 / 1000 * (1 / 2 ^ 40)" using \<sigma> x(2) by (intro recip_poly_step) simp_all
    then have "\<rho> * (recip_poly x - recip_poly \<sigma>) \<le> \<rho> * (503 / 1000 * (1 / 2 ^ 40))" using \<rho>(1) by (intro mult_left_mono) simp_all
    then show ?thesis by (simp add: \<rho>_def algebra_simps)
  qed
  moreover have "R - \<rho> * recip_poly x \<le> 29 / 100 * R * x ^ 4"
  proof -
    have "R * (1 - recip_poly x * sqrt (1 - x)) \<le> R * (29 / 100 * x ^ 4)" using y(2) R0 by (intro mult_left_mono) simp_all
    moreover have "R * (1 - recip_poly x * sqrt (1 - x)) = R - (R * sqrt (1 - x)) * recip_poly x" by (simp add: algebra_simps)
    ultimately show ?thesis unfolding R \<rho>_def by simp
  qed
  ultimately show "R - real r2 < 2 + real r0 * (503 / 1000) / 2 ^ 24 + 1 / 2 ^ 14 + 29 / 100 * R * x ^ 4" by linarith
qed

section \<open>The sixteen pieces\<close>

definition approx_one :: "bool \<Rightarrow> int" where
  "approx_one od = (if od then 2 ^ 63 else 2 ^ 62)"

definition approx_piece_ok :: "nat \<Rightarrow> bool \<Rightarrow> int \<Rightarrow> bool" where
  "approx_piece_ok k od D \<longleftrightarrow>
     piece_ok (uint (softfloat_approxRecipSqrt_1k0s ! (2 * k + of_bool od))) (uint (softfloat_approxRecipSqrt_1k1s ! (2 * k + of_bool od)))
       (2 ^ 31 + int k * 2 ^ 28) (approx_one od) (approx_one od - approx_one od div D)"

lemma pieces_table: "list_all (\<lambda>k. approx_piece_ok k True 357 \<and> approx_piece_ok k False 357) [0..<8]"
  by code_simp

lemma last_piece_ok: "approx_piece_ok 7 False 1100"
  by code_simp

lemma pieces_ok: "k < 8 \<Longrightarrow> approx_piece_ok k od 357"
  using pieces_table by (cases od) (simp_all add: list_all_iff)

lemma approx_fields:
  fixes a :: u32
  assumes "2 ^ 31 \<le> unat a"
  obtains k where "k < 8" and "unat (drop_bit 27 a AND 0xE) = 2 * k"
    and "uint a = 2 ^ 31 + int k * 2 ^ 28 + uint (ucast (drop_bit 12 a) :: u16) * 2 ^ 12 + uint a mod 2 ^ 12"
    and "k = unat a div 2 ^ 28 - 8"
proof -
  define k where "k = unat a div 2 ^ 28 - 8"
  have u: "unat a < 2 ^ 32" using unat_lt [of a] by simp
  have d: "8 \<le> unat a div 2 ^ 28" "unat a div 2 ^ 28 < 16" using assms u by (simp_all add: div_less_iff_less_mult less_eq_div_iff_mult_less_eq)
  have k: "unat a div 2 ^ 28 = 8 + k" "k < 8" using d unfolding k_def by linarith+
  have 1: "unat (drop_bit 27 a AND 0xE) = 2 * k"
  proof -
    have "(0xE :: u32) = push_bit 1 (mask 3)" by (simp add: mask_eq_exp_minus_1)
    then have "unat (drop_bit 27 a AND 0xE) = (unat a div 2 ^ 27 div 2 ^ 1) mod 2 ^ 3 * 2 ^ 1"
      using unat_and_field [of 1 3 "drop_bit 27 a"] by (simp add: unat_drop_bit)
    also have "unat a div 2 ^ 27 div 2 ^ 1 = 8 + k" using k(1) by (simp only: div_mult2_eq [symmetric] power_add [symmetric]) simp
    also have "(8 + k) mod 2 ^ 3 = k" using k(2) by simp
    finally show ?thesis by simp
  qed
  have e: "unat (ucast (drop_bit 12 a) :: u16) = unat a div 2 ^ 12 mod 2 ^ 16"
    by (simp add: unat_ucast_mod unat_drop_bit)
  have 2: "unat a = 2 ^ 31 + k * 2 ^ 28 + unat (ucast (drop_bit 12 a) :: u16) * 2 ^ 12 + unat a mod 2 ^ 12"
  proof -
    have "unat a div 2 ^ 12 = unat a div 2 ^ 28 * 2 ^ 16 + unat a div 2 ^ 12 mod 2 ^ 16"
      using div_mult_mod_eq [of "unat a div 2 ^ 12" "2 ^ 16"] by (simp only: div_mult2_eq [symmetric] power_add [symmetric]) simp
    then have "unat a = ((8 + k) * 2 ^ 16 + unat a div 2 ^ 12 mod 2 ^ 16) * 2 ^ 12 + unat a mod 2 ^ 12"
      unfolding k(1) using div_mult_mod_eq [of "unat a" "2 ^ 12"] by simp
    moreover have "((8 + k) * 2 ^ 16 + M) * 2 ^ 12 = 2 ^ 31 + k * 2 ^ 28 + M * 2 ^ 12" for M :: nat by simp
    ultimately show ?thesis unfolding e by simp
  qed
  have 3: "uint a = 2 ^ 31 + int k * 2 ^ 28 + uint (ucast (drop_bit 12 a) :: u16) * 2 ^ 12 + uint a mod 2 ^ 12"
    using arg_cong [OF 2, of int] by (simp add: of_nat_mod)
  show ?thesis by (rule that [OF k(2) 1 3 k_def])
qed


section \<open>The function on words\<close>

lemma approx_r0:
  fixes k0 k1 eps :: u16
  assumes "0 \<le> uint k0 - uint k1 * uint eps div 2 ^ 20"
  shows "int (unat (ucast (ucast k0 - drop_bit 20 (ucast k1 * ucast eps :: u64)) :: u16)) = uint k0 - uint k1 * uint eps div 2 ^ 20"
proof -
  have b: "unat k0 < 2 ^ 16" "unat k1 < 2 ^ 16" "unat eps < 2 ^ 16" using unat_lt [of k0] unat_lt [of k1] unat_lt [of eps] by simp_all
  have "unat k1 * unat eps < 2 ^ 16 * 2 ^ 16" using b by (intro mult_strict_mono) simp_all
  then have m: "unat (ucast k1 * ucast eps :: u64) = unat k1 * unat eps"
    by (subst unat_mult_small) (simp_all add: unat_ucast_up)
  have le: "unat k1 * unat eps div 2 ^ 20 \<le> unat k0" 
  proof -
    have "int (unat k1 * unat eps div 2 ^ 20) \<le> int (unat k0)" using assms unfolding zdiv_int of_nat_mult of_nat_unat of_nat_power by simp
    then show ?thesis by (simp only: of_nat_le_iff)
  qed
  have "unat (ucast k0 - drop_bit 20 (ucast k1 * ucast eps :: u64)) = unat k0 - unat k1 * unat eps div 2 ^ 20"
    by (subst unat_minus_small) (use le in \<open>simp_all add: unat_drop_bit m unat_ucast_up\<close>)
  then have "unat (ucast (ucast k0 - drop_bit 20 (ucast k1 * ucast eps :: u64)) :: u16) = unat k0 - unat k1 * unat eps div 2 ^ 20"
    using b by (subst unat_ucast_small) simp_all
  then show ?thesis using le by (simp add: of_nat_diff zdiv_int)
qed

text \<open>The steps after the first guess, on numbers. \<open>approx_E\<close> is the square of the guess, doubled for an even exponent.\<close>

lemma approx_steps:
  fixes r0 :: u16 and a :: u32
  assumes E: "E = (if od then unat r0 * unat r0 else 2 * (unat r0 * unat r0))" and Eb: "E < 2 ^ 32" and w: "E * unat a < 2 ^ 63"
    and s0: "s0 = 2 ^ 40 - 1 - E * unat a div 2 ^ 23" "s0 < 2 ^ 32"
    and r1: "r1 = unat r0 * 2 ^ 16 + unat r0 * s0 div 2 ^ 25" and t: "t = r1 div 2 + r1 div 8 - unat r0 * 2 ^ 14" 
      "unat r0 * 2 ^ 14 \<le> r1 div 2 + r1 div 8" "t < 2 ^ 32"
    and v: "v = s0 * s0 div 2 ^ 32" "v < 2 ^ 32" and r2: "r2 = r1 + t * v div 2 ^ 48" "r2 < 2 ^ 32"
  shows "(let ESqrR0 = ucast r0 * ucast r0 :: u64;
          ESqrR0 = (if od then ESqrR0 else push_bit 1 ESqrR0);
          sigma0 = ucast (NOT (drop_bit 23 (ucast (ucast ESqrR0 :: u32) * ucast a :: u64))) :: u32;
          r = push_bit 16 (ucast r0) + drop_bit 25 (ucast r0 * ucast sigma0) :: u64;
          sqrSigma0 = ucast (drop_bit 32 (ucast sigma0 * ucast sigma0 :: u64)) :: u32;
          r = r + drop_bit 48 (ucast (ucast (drop_bit 1 r + drop_bit 3 r - push_bit 14 (ucast r0)) :: u32) * ucast sqrSigma0);
          r = (if r AND 0x80000000 = 0 then 0x80000000 else r)
      in ucast r) = (word_of_nat (max (2 ^ 31) r2) :: u32)"
proof -
  have r0: "unat r0 < 2 ^ 16" using unat_lt [of r0] by simp
  have rr: "unat r0 * unat r0 < 2 ^ 16 * 2 ^ 16" using r0 by (intro mult_strict_mono) simp_all
  have u0: "unat (ucast r0 :: u64) = unat r0" by (simp add: unat_ucast_up)
  define e where "e = (if od then ucast r0 * ucast r0 else push_bit 1 (ucast r0 * ucast r0) :: u64)"
  have m: "unat (ucast r0 * ucast r0 :: u64) = unat r0 * unat r0" by (subst unat_mult_small) (use rr in \<open>simp_all add: u0\<close>)
  have e: "unat e = E" unfolding e_def E using m rr by (simp add: unat_push_bit del: push_bit_of_1 push_bit_numeral push_bit_Suc)
  define s where "s = (ucast (NOT (drop_bit 23 (ucast (ucast e :: u32) * ucast a :: u64))) :: u32)"
  have ew: "unat (ucast (ucast e :: u32) * ucast a :: u64) = E * unat a"
    using Eb w by (subst unat_mult_small) (simp_all add: unat_ucast_up unat_ucast_small e)
  have s: "unat s = s0"
  proof -
    have n: "NOT W = 0xFFFFFFFFFFFFFFFF - W" for W :: u64 by (simp add: not_eq_complement)
    have d: "E * unat a div 2 ^ 23 < 2 ^ 40" using w by (simp add: div_less_iff_less_mult)
    have "unat (NOT (drop_bit 23 (ucast (ucast e :: u32) * ucast a :: u64))) = 2 ^ 64 - 1 - E * unat a div 2 ^ 23"
      unfolding n using d by (subst unat_minus_small) (simp_all add: unat_drop_bit ew)
    also have "\<dots> = s0 + (2 ^ 32 - 2 ^ 8) * 2 ^ 32" using d unfolding s0(1) by simp
    finally have "unat s = (s0 + (2 ^ 32 - 2 ^ 8) * 2 ^ 32) mod 2 ^ 32" unfolding s_def unat_ucast_mod by simp
    also have "\<dots> = s0 mod 2 ^ 32" by (rule mod_mult_self1)
    finally show ?thesis using s0(2) by simp
  qed
  define r where "r = (push_bit 16 (ucast r0) + drop_bit 25 (ucast r0 * ucast s) :: u64)"
  have rs: "unat r0 * s0 < 2 ^ 16 * 2 ^ 32" using r0 s0(2) by (intro mult_strict_mono) simp_all
  have ms: "unat (ucast r0 * ucast s :: u64) = unat r0 * s0" by (subst unat_mult_small) (use rs in \<open>simp_all add: u0 unat_ucast_up s\<close>)
  have r1b: "r1 < 2 ^ 33" unfolding r1 using r0 rs by simp
  have r: "unat r = r1"
    unfolding r_def r1 using r0 rs by (subst unat_add_small) (simp_all add: unat_push_bit unat_drop_bit ms u0)
  define q where "q = (ucast (drop_bit 32 (ucast s * ucast s :: u64)) :: u32)"
  have ss: "s0 * s0 < 2 ^ 32 * 2 ^ 32" using s0(2) by (intro mult_strict_mono) simp_all
  have mq: "unat (ucast s * ucast s :: u64) = s0 * s0" by (subst unat_mult_small) (use ss in \<open>simp_all add: unat_ucast_up s\<close>)
  have q: "unat q = v" unfolding q_def using v by (subst unat_ucast_small) (simp_all add: unat_drop_bit mq)
  define f where "f = (drop_bit 1 r + drop_bit 3 r - push_bit 14 (ucast r0) :: u64)"
  have f1: "unat (drop_bit (Suc 0) r + drop_bit 3 r) = r1 div 2 + r1 div 8"
    using r1b by (subst unat_add_small) (simp_all add: unat_drop_bit r)
  have f2: "unat (push_bit 14 (ucast r0) :: u64) = unat r0 * 2 ^ 14" using r0 by (simp add: unat_push_bit u0)
  have f: "unat f = t" unfolding f_def t(1) by (subst unat_minus_small) (use t(2) in \<open>simp_all add: f1 f2\<close>)
  have tv: "t * v < 2 ^ 32 * 2 ^ 32" using t(3) v(2) by (intro mult_strict_mono) simp_all
  have mf: "unat (ucast (ucast f :: u32) * ucast q :: u64) = t * v"
    by (subst unat_mult_small) (use tv t(3) in \<open>simp_all add: unat_ucast_up unat_ucast_small f q\<close>)
  define z where "z = r + drop_bit 48 (ucast (ucast f :: u32) * ucast q)"
  have z: "unat z = r2" unfolding z_def r2(1) using r2 by (subst unat_add_small) (simp_all add: unat_drop_bit r mf)
  have "z AND 0x80000000 = 0 \<longleftrightarrow> r2 < 2 ^ 31"
  proof -
    have "(0x80000000 :: u64) = push_bit 31 (mask 1)" by (simp add: mask_eq_exp_minus_1)
    then have "unat (z AND 0x80000000) = (r2 div 2 ^ 31 mod 2 ^ 1) * 2 ^ 31" using unat_and_field [of 31 1 z] z by simp
    moreover have "r2 div 2 ^ 31 < 2" using r2(2) by (simp add: div_less_iff_less_mult)
    ultimately have "unat (z AND 0x80000000) = 0 \<longleftrightarrow> r2 div 2 ^ 31 = 0" by simp
    then show ?thesis by (simp add: unat_eq_zero div_eq_0_iff)
  qed
  then have "ucast (if z AND 0x80000000 = 0 then 0x80000000 else z) = (word_of_nat (max (2 ^ 31) r2) :: u32)"
    using z r2(2) by (auto simp: word_unat_eq_iff unat_ucast_mod unat_of_nat max_def)
  then show ?thesis unfolding Let_def e_def [symmetric] s_def [symmetric] r_def [symmetric] q_def [symmetric] f_def [symmetric] z_def [symmetric] .
qed


text \<open>
  The result for an argument in a given piece. \<open>2 ^ 62 / sqrt (a * 2 ^ 29)\<close> and \<open>2 ^ 62 / sqrt (a * 2 ^ 30)\<close> are the
  exact values for odd and even exponents.
\<close>

definition exact_root :: "bool \<Rightarrow> u32 \<Rightarrow> real" where
  "exact_root od a = sqrt (real (unat a) * (if od then 2 ^ 29 else 2 ^ 30))"

lemma exact_root_range:
  assumes "2 ^ 31 \<le> unat a"
  shows "2 ^ 30 \<le> exact_root od a" and "exact_root od a < 2 ^ 31" and "od \<Longrightarrow> exact_root od a < 2 ^ 31 * (708 / 1000)"
proof -
  have a: "2 ^ 31 \<le> real (unat a)" using assms by (metis of_nat_le_iff of_nat_numeral of_nat_power)
  have u: "real (unat a) < 2 ^ 32" 
  proof -
    have "unat a < 2 ^ 32" using unat_lt [of a] by simp
    then have "real (unat a) < real (2 ^ 32)" by (simp only: of_nat_less_iff)
    then show ?thesis by simp
  qed
  have s: "sqrt (2 ^ 60) = 2 ^ 30" "sqrt (2 ^ 62) = 2 ^ 31" by (simp_all add: real_sqrt_unique)
  show "2 ^ 30 \<le> exact_root od a" unfolding exact_root_def s(1) [symmetric] using a by (intro real_sqrt_le_mono) auto
  show "exact_root od a < 2 ^ 31" unfolding exact_root_def s(2) [symmetric] using u by (intro real_sqrt_less_mono) auto
  show "exact_root od a < 2 ^ 31 * (708 / 1000)" if od
    unfolding exact_root_def using u that by (intro real_less_lsqrt) (auto simp: power2_eq_square)
qed

lemma approx_in_piece:
  fixes a :: u32
  defines "k \<equiv> unat a div 2 ^ 28 - 8"
  assumes a: "2 ^ 31 \<le> unat a" and ok: "approx_piece_ok k od D" and D: "357 \<le> D" and k0: "k0 = real_of_int (uint (softfloat_approxRecipSqrt_1k0s ! (2 * k + of_bool od)))"
  shows "2 ^ 31 \<le> real (unat (softfloat_approxRecipSqrt32_1 od a))"
    and "real (unat (softfloat_approxRecipSqrt32_1 od a)) < 2 ^ 62 / exact_root od a"
    and "2 ^ 62 / exact_root od a - real (unat (softfloat_approxRecipSqrt32_1 od a))
           < 2 + k0 * (503 / 1000) / 2 ^ 24 + 1 / 2 ^ 14 + 29 / 100 * (2 ^ 62 / exact_root od a) * (1 / D) ^ 4"
proof -
  obtain k' where k: "k' < 8" "unat (drop_bit 27 a AND 0xE) = 2 * k'" "k' = k"
    and af: "uint a = 2 ^ 31 + int k' * 2 ^ 28 + uint (ucast (drop_bit 12 a) :: u16) * 2 ^ 12 + uint a mod 2 ^ 12"
    using approx_fields [OF a] unfolding k_def by metis
  define c0 c1 eps where "c0 = softfloat_approxRecipSqrt_1k0s ! (2 * k + of_bool od)"
    and "c1 = softfloat_approxRecipSqrt_1k1s ! (2 * k + of_bool od)" and "eps = (ucast (drop_bit 12 a) :: u16)"
  define r0 where "r0 = (ucast (ucast c0 - drop_bit 20 (ucast c1 * ucast eps :: u64)) :: u16)"
  have p: "piece_ok (uint c0) (uint c1) (2 ^ 31 + int k * 2 ^ 28) (approx_one od) (approx_one od - approx_one od div D)"
    using ok by (simp add: approx_piece_ok_def c0_def c1_def)
  have epsb: "0 \<le> uint eps" "uint eps < 2 ^ 16" using uint_lt2p [of eps] by simp_all
  have amod: "0 \<le> uint a mod 2 ^ 12" "uint a mod 2 ^ 12 < 2 ^ 12" by simp_all
  note g = piece_guess [OF p epsb _ _ refl, of "uint a"]
  have a12: "2 ^ 31 + int k * 2 ^ 28 + uint eps * 2 ^ 12 \<le> uint a" "uint a < 2 ^ 31 + int k * 2 ^ 28 + (uint eps + 1) * 2 ^ 12"
    using af amod unfolding k(3) eps_def by simp_all
  define G where "G = uint c0 - uint c1 * uint eps div 2 ^ 20"
  note g = g [OF a12, folded G_def]
  have r0G: "int (unat r0) = G" unfolding r0_def G_def by (rule approx_r0) (use g(1) G_def in simp)
  define A where "A = unat a"
  have aA: "uint a = int A" "A < 2 ^ 32" using unat_lt [of a] by (simp_all add: A_def)
  define E where "E = (if od then unat r0 * unat r0 else 2 * (unat r0 * unat r0))"
  have E: "int E = (if od then G\<^sup>2 else 2 * G\<^sup>2)" by (simp add: E_def r0G [symmetric] power2_eq_square)
  have wI: "int (E * A) = (if od then 1 else 2) * (G\<^sup>2 * uint a)" unfolding of_nat_mult E aA(1) by simp
  have w: "int (E * A) < 2 ^ 63" "2 ^ 63 - (if od then 1 else 2) * (approx_one od div D) \<le> int (E * A)"
  proof -
    define q W where "q = approx_one od div D" and "W = G\<^sup>2 * uint a"
    have o: "W < approx_one od" "approx_one od - q \<le> W" using g(3,4) unfolding W_def q_def .
    show "int (E * A) < 2 ^ 63" unfolding wI W_def [symmetric] using o(1) by (cases od) (simp_all add: approx_one_def)
    show "2 ^ 63 - (if od then 1 else 2) * (approx_one od div D) \<le> int (E * A)"
      unfolding wI W_def [symmetric] q_def [symmetric] using o(2) by (cases od) (simp_all add: approx_one_def)
  qed
  have wn: "E * A < 2 ^ 63"
  proof -
    have "int (E * A) < int (2 ^ 63)" using w(1) by simp
    then show ?thesis by (simp only: of_nat_less_iff)
  qed
  define x where "x = 1 - real (E * A) / 2 ^ 63"
  have D0: "0 < D" using D by simp
  have dv: "real_of_int (approx_one od div D) \<le> real_of_int (approx_one od) / real_of_int D"
    using floor_divide_of_int_eq [of "approx_one od" D, where 'a = real] by linarith
  have xD: "x \<le> 1 / D"
  proof -
    have "real_of_int (2 ^ 63 - (if od then 1 else 2) * (approx_one od div D)) \<le> real_of_int (int (E * A))" using w(2) by (simp only: of_int_le_iff)
    then have "2 ^ 63 - 2 ^ 63 / D \<le> real (E * A)" using dv by (auto simp: approx_one_def split: if_splits)
    then have "(2 ^ 63 - 2 ^ 63 / D) / 2 ^ 63 \<le> real (E * A) / 2 ^ 63" by (intro divide_right_mono) simp_all
    then show ?thesis by (simp add: x_def diff_divide_distrib)
  qed
  also have "1 / real_of_int D \<le> 1 / 357" using D by (simp add: divide_simps)
  finally have x357: "x \<le> 1 / 357" .
  have r0pos: "0 < unat r0"
  proof (rule ccontr)
    assume "\<not> 0 < unat r0"
    then have "x = 1" by (simp add: x_def E_def)
    then show False using x357 by simp
  qed
  have r0b: "unat r0 < 2 ^ 16" using unat_lt [of r0] by simp
  define R where "R = 2 ^ 62 / exact_root od a"
  have A0: "0 < real A" unfolding A_def of_nat_0_less_iff by (rule less_le_trans [OF _ a]) simp
  have R: "R * sqrt (1 - x) = real (unat r0) * 2 ^ 16"
  proof (rule power2_eq_imp_eq)
    have "(R * sqrt (1 - x))\<^sup>2 = R\<^sup>2 * (real (E * A) / 2 ^ 63)" by (simp add: power_mult_distrib x_def)
    also have "R\<^sup>2 = 2 ^ 124 / (real A * (if od then 2 ^ 29 else 2 ^ 30))"
      unfolding R_def exact_root_def A_def [symmetric] using A0 by (simp add: power_divide)
    also have "2 ^ 124 / (real A * (if od then 2 ^ 29 else 2 ^ 30)) * (real (E * A) / 2 ^ 63) = (real (unat r0) * 2 ^ 16)\<^sup>2"
      using A0 by (simp add: E_def power2_eq_square)
    finally show "(R * sqrt (1 - x))\<^sup>2 = (real (unat r0) * 2 ^ 16)\<^sup>2" .
    have "0 \<le> R" using exact_root_range(1) [OF a, of od] by (simp add: R_def)
    then show "0 \<le> R * sqrt (1 - x)" by (simp add: x_def)
    show "0 \<le> real (unat r0) * 2 ^ 16" by (intro mult_nonneg_nonneg of_nat_0_le_iff) simp
  qed
  have Eb: "E < 2 ^ 32"
  proof (rule ccontr)
    assume "\<not> E < 2 ^ 32"
    then have "2 ^ 32 * 2 ^ 31 \<le> E * A" using a by (intro mult_mono) (simp_all add: A_def)
    then show False using wn by simp
  qed
  note er = exact_root_range [OF a]
  have Rb: "2 ^ 31 < R" "R \<le> 2 ^ 32" using er(1,2) [of od] unfolding R_def by (simp_all add: divide_simps)
  define s0 r1 t v r2 where "s0 = 2 ^ 40 - 1 - E * A div 2 ^ 23" and "r1 = unat r0 * 2 ^ 16 + unat r0 * s0 div 2 ^ 25"
    and "t = r1 div 2 + r1 div 8 - unat r0 * 2 ^ 14" and "v = s0 * s0 div 2 ^ 32" and "r2 = r1 + t * v div 2 ^ 48"
  note ig = improved_guess [OF r0pos r0b wn x_def x357 s0_def r1_def t_def v_def r2_def R]
  have r2b: "r2 < 2 ^ 32"
  proof -
    have "real r2 < real (2 ^ 32)" using ig(5) Rb(2) by simp
    then show ?thesis by (simp only: of_nat_less_iff)
  qed
  have "softfloat_approxRecipSqrt32_1 od a = word_of_nat (max (2 ^ 31) r2)"
    using approx_steps [OF E_def Eb wn [unfolded A_def] s0_def [unfolded A_def] ig(1) r1_def t_def ig(2,3) v_def ig(4) r2_def r2b]
    unfolding softfloat_approxRecipSqrt32_1_def k(2) k(3) Let_def c0_def [symmetric] c1_def [symmetric] eps_def [symmetric] r0_def [symmetric]
    by simp
  then have r: "unat (softfloat_approxRecipSqrt32_1 od a) = max (2 ^ 31) r2" using r2b by (simp add: unat_of_nat)
  show "2 ^ 31 \<le> real (unat (softfloat_approxRecipSqrt32_1 od a))" unfolding r by simp
  show "real (unat (softfloat_approxRecipSqrt32_1 od a)) < 2 ^ 62 / exact_root od a"
    unfolding r R_def [symmetric] using ig(5) Rb(1) by (simp add: max_def)
  have c0r: "real (unat r0) \<le> k0"
  proof -
    have "0 \<le> uint c1 * uint eps div 2 ^ 20" by (simp add: pos_imp_zdiv_nonneg_iff)
    then have "int (unat r0) \<le> uint c0" unfolding r0G G_def by simp
    then have "real_of_int (int (unat r0)) \<le> real_of_int (uint c0)" by (simp only: of_int_le_iff)
    then show ?thesis unfolding k0 c0_def by simp
  qed
  have x0: "0 \<le> x"
  proof -
    have "real (E * A) < real (2 ^ 63)" using wn by (simp only: of_nat_less_iff)
    then show ?thesis by (simp add: x_def)
  qed
  have "29 / 100 * R * x ^ 4 \<le> 29 / 100 * R * (1 / D) ^ 4" using xD x0 Rb(1) by (intro mult_left_mono power_mono) simp_all
  then have "R - real r2 < 2 + k0 * (503 / 1000) / 2 ^ 24 + 1 / 2 ^ 14 + 29 / 100 * R * (1 / D) ^ 4" using ig(6) c0r by simp
  then show "2 ^ 62 / exact_root od a - real (unat (softfloat_approxRecipSqrt32_1 od a))
           < 2 + k0 * (503 / 1000) / 2 ^ 24 + 1 / 2 ^ 14 + 29 / 100 * (2 ^ 62 / exact_root od a) * (1 / D) ^ 4"
    unfolding r R_def [symmetric] by (simp add: max_def)
qed

theorem approxRecipSqrt32_1_bounds:
  assumes a: "2 ^ 31 \<le> unat a"
  shows "2 ^ 31 \<le> real (unat (softfloat_approxRecipSqrt32_1 od a))"
    and "real (unat (softfloat_approxRecipSqrt32_1 od a)) < 2 ^ 62 / exact_root od a"
    and "2 ^ 62 / exact_root od a - real (unat (softfloat_approxRecipSqrt32_1 od a)) < 2 + 8 / 100"
    and "\<not> od \<Longrightarrow> 15 * 2 ^ 28 \<le> unat a \<Longrightarrow>
           2 ^ 62 / exact_root od a - real (unat (softfloat_approxRecipSqrt32_1 od a)) < 2 + 16 / 10000"
proof -
  have u: "unat a < 2 ^ 32" using unat_lt [of a] by simp
  have k: "unat a div 2 ^ 28 - 8 < 8" using u by (simp add: less_diff_conv2 div_less_iff_less_mult)
  note b = approx_in_piece [OF a pieces_ok [OF k] order_refl refl, of od]
  show "2 ^ 31 \<le> real (unat (softfloat_approxRecipSqrt32_1 od a))" by (rule b(1))
  show "real (unat (softfloat_approxRecipSqrt32_1 od a)) < 2 ^ 62 / exact_root od a" by (rule b(2))
  note er = exact_root_range [OF a]
  have Rb: "2 ^ 62 / exact_root od a \<le> 2 ^ 32" using er(1) [of od] by (simp add: divide_simps)
  have c: "real_of_int (uint (c :: u16)) < 2 ^ 16" for c
  proof -
    have "uint c < 2 ^ 16" using uint_lt2p [of c] by simp
    then have "real_of_int (uint c) < real_of_int (2 ^ 16)" by (simp only: of_int_less_iff)
    then show ?thesis by simp
  qed
  show "2 ^ 62 / exact_root od a - real (unat (softfloat_approxRecipSqrt32_1 od a)) < 2 + 8 / 100"
  proof -
    define R where "R = 2 ^ 62 / exact_root od a"
    define k0 where "k0 = real_of_int (uint (softfloat_approxRecipSqrt_1k0s ! (2 * (unat a div 2 ^ 28 - 8) + of_bool od)))"
    have "29 / 100 * R * (1 / real_of_int 357) ^ 4 \<le> 29 / 100 * 2 ^ 32 * (1 / 357) ^ 4" using Rb er(1) [of od] by (intro mult_mono) (simp_all add: R_def)
    moreover have "(29 / 100 * 2 ^ 32 * (1 / 357) ^ 4 :: real) \<le> 77 / 1000" by (simp add: power4_eq_xxxx)
    moreover have "k0 * (503 / 1000) / 2 ^ 24 \<le> 2 ^ 16 * (503 / 1000) / 2 ^ 24" using c by (simp add: k0_def less_imp_le)
    moreover have "(2 ^ 16 * (503 / 1000) / 2 ^ 24 :: real) \<le> 2 / 1000" "(1 / 2 ^ 14 :: real) \<le> 1 / 1000" by simp_all
    ultimately show ?thesis using b(3) [folded R_def k0_def] unfolding R_def [symmetric] by linarith
  qed
  assume o: "\<not> od" and l: "15 * 2 ^ 28 \<le> unat a"
  have "15 \<le> unat a div 2 ^ 28" using l by (simp add: less_eq_div_iff_mult_less_eq)
  then have 7: "unat a div 2 ^ 28 - 8 = 7" using k by simp
  have "2 ^ 30 * 2 \<le> exact_root od a * (11 / 10)"
  proof -
    have "(2 ^ 31 * (10 / 11))\<^sup>2 \<le> real (unat a) * 2 ^ 30"
    proof -
      have "real (15 * 2 ^ 28) \<le> real (unat a)" using l by (simp only: of_nat_le_iff)
      then show ?thesis by (simp add: power2_eq_square)
    qed
    then have "2 ^ 31 * (10 / 11) \<le> exact_root od a" unfolding exact_root_def using o by (intro real_le_rsqrt) simp
    then show ?thesis by simp
  qed
  then have Rb2: "2 ^ 62 / exact_root od a \<le> 2 ^ 31 * (11 / 10)" using er(1) [of od] by (simp add: divide_simps)
  have "real_of_int (uint (softfloat_approxRecipSqrt_1k0s ! (2 * 7 + of_bool od))) = 33828"
    using o by (simp add: softfloat_approxRecipSqrt_1k0s_def)
  note b = approx_in_piece [OF a, unfolded 7, of od, OF _ _ this [symmetric]]
  have ok: "approx_piece_ok 7 od 1100" using last_piece_ok o by simp
  show "2 ^ 62 / exact_root od a - real (unat (softfloat_approxRecipSqrt32_1 od a)) < 2 + 16 / 10000"
  proof -
    define R where "R = 2 ^ 62 / exact_root od a"
    have "29 / 100 * R * (1 / real_of_int 1100) ^ 4 \<le> 29 / 100 * (2 ^ 31 * (11 / 10)) * (1 / 1100) ^ 4" using Rb2 er(1) [of od] by (intro mult_mono) (simp_all add: R_def)
    moreover have "(29 / 100 * (2 ^ 31 * (11 / 10)) * (1 / 1100) ^ 4 :: real) \<le> 5 / 10000" by (simp add: power4_eq_xxxx)
    moreover have "(33828 * (503 / 1000) / 2 ^ 24 :: real) \<le> 102 / 100000" "(1 / 2 ^ 14 :: real) \<le> 7 / 100000" by simp_all
    moreover have "357 \<le> (1100 :: int)" by simp
    note b(3) [OF ok this, folded R_def]
    ultimately show ?thesis unfolding R_def [symmetric] by linarith
  qed
qed

text \<open>The estimate of the root from the approximated reciprocal, below the root by little more than two units.\<close>

lemma root_estimate:
  fixes a :: u32
  assumes a: "2 ^ 31 \<le> unat a" and q: "q = unat a * unat (softfloat_approxRecipSqrt32_1 od a) div (if od then 2 ^ 33 else 2 ^ 32)"
  shows "real q < exact_root od a" and "exact_root od a < real q + 3 + 16 / 10000"
    and "od \<or> unat a < 256 * 16763794 \<Longrightarrow> exact_root od a < real q + 3"
    and "exact_root od a < real q + 1 + 208 / 100 * (real (unat a) / (if od then 2 ^ 33 else 2 ^ 32))"
proof -
  define A r T where "A = unat a" and "r = unat (softfloat_approxRecipSqrt32_1 od a)" and "T = exact_root od a"
  define c :: nat where "c = (if od then 2 ^ 33 else 2 ^ 32)"
  have c0: "0 < c" by (simp add: c_def)
  have Ab: "2 ^ 31 \<le> A" "A < 2 ^ 32" using a unat_lt [of a] by (simp_all add: A_def)
  then have A0: "0 < real A" by simp
  note T = exact_root_range(1) [OF a, of od, folded T_def]
  note bounds = approxRecipSqrt32_1_bounds [OF a, of od, folded r_def T_def A_def]
  have "T\<^sup>2 = real A * (if od then 2 ^ 29 else 2 ^ 30)" unfolding T_def exact_root_def A_def [symmetric] using A0 by simp
  then have "T * T * real c = real A * 2 ^ 62" by (simp add: power2_eq_square c_def)
  moreover have T0: "0 < T" using T by simp
  ultimately have TR: "T = real A * (2 ^ 62 / T) / real c" using c0 by (simp add: field_simps)
  define y where "y = real A / real c"
  have y0: "0 < y" using A0 c0 by (simp add: y_def)
  have TR: "T = y * (2 ^ 62 / T)" using TR by (simp add: y_def mult.commute)
  have qd: "q = A * r div c" using q by (simp add: A_def r_def c_def)
  have qy: "real q \<le> y * real r" "y * real r - 1 < real q" using nat_div_real [OF c0, of "A * r"] unfolding qd y_def by simp_all
  have "y * real r < y * (2 ^ 62 / T)" using bounds(2) y0 by (rule mult_strict_left_mono)
  then have "y * real r < T" using TR by linarith
  then show "real q < exact_root od a" using qy(1) unfolding T_def [symmetric] by linarith
  have d: "T - y * real r \<le> y * e" if "2 ^ 62 / T - real r < e" for e
  proof -
    have "y * (2 ^ 62 / T) - y * real r = y * (2 ^ 62 / T - real r)" by (simp add: right_diff_distrib)
    also have "\<dots> \<le> y * e" using that y0 by (intro mult_left_mono) simp_all
    finally show ?thesis using TR by linarith
  qed
  have e1: "T < real q + 1 + y * (208 / 100)" using d [OF bounds(3)] qy(2) by simp
  moreover have "real c = (if od then 2 ^ 33 else 2 ^ 32)" by (simp add: c_def)
  ultimately show "exact_root od a < real q + 1 + 208 / 100 * (real (unat a) / (if od then 2 ^ 33 else 2 ^ 32))"
    unfolding T_def [symmetric] A_def [symmetric] y_def by simp
  have Ar: "real A < 2 ^ 32"
  proof -
    have "real A < real (2 ^ 32)" using Ab(2) by (simp only: of_nat_less_iff)
    then show ?thesis by simp
  qed
  have "T < real q + 3 + 16 / 10000 \<and> (od \<or> A < 256 * 16763794 \<longrightarrow> T < real q + 3)"
  proof (cases "od \<or> A < 15 * 2 ^ 28")
    case True
    have "y \<le> 15 / 16"
    proof (cases od)
      case od: True
      then show ?thesis using Ar by (simp add: y_def c_def)
    next
      case False
      with True have "A < 15 * 2 ^ 28" by blast
      then have "real A < real (15 * 2 ^ 28)" by (simp only: of_nat_less_iff)
      then show ?thesis using False by (simp add: y_def c_def)
    qed
    then show ?thesis using e1 by simp
  next
    case False
    then have "2 ^ 62 / T - real r < 2 + 16 / 10000" by (intro bounds(4)) simp_all
    note e2 = d [OF this]
    have y: "y = real A / 2 ^ 32" using False by (simp add: y_def c_def)
    then have "y < 1" using Ar by simp
    then have "T < real q + 3 + 16 / 10000" using e2 qy(2) by simp
    moreover have "T < real q + 3" if "A < 256 * 16763794"
    proof -
      have "real A \<le> real (256 * 16763794 - 1)" using that by (simp only: of_nat_le_iff)
      then have "y * (2 + 16 / 10000) < 2" by (simp add: y)
      then show ?thesis using e2 qy(2) by simp
    qed
    ultimately show ?thesis using False by simp
  qed
  then show "exact_root od a < real q + 3 + 16 / 10000" and "od \<or> unat a < 256 * 16763794 \<Longrightarrow> exact_root od a < real q + 3"
    unfolding T_def [symmetric] A_def [symmetric] by simp_all
qed


end
