(* ===== verification/F32_Sqrt.thy ===== *)
theory F32_Sqrt
  imports Approx_Sqrt F32_Special Round_Int
begin

text \<open>
  The square root in the 32-bit format (\<open>f32_sqrt.c\<close>), correctly rounded.
\<close>

text \<open>The significand of the root, with a sticky bit where the root is not a multiple of the last place kept.\<close>

definition f32_sqrt_sig :: "bool \<Rightarrow> u64 \<Rightarrow> u64" where
  "f32_sqrt_sig oddA sigA =
     (let sigZ = drop_bit 32 (sigA * ucast (softfloat_approxRecipSqrt32_1 oddA (ucast sigA)));
          sigZ = (if oddA then drop_bit 1 sigZ else sigZ);
          sigZ = sigZ + 2
      in if sigZ AND 0x3F < 2 then
           let shiftedSigZ = drop_bit 2 sigZ;
               negRem = ucast (shiftedSigZ * shiftedSigZ) :: u32;
               sigZ = sigZ AND NOT 3
           in if negRem AND 0x80000000 \<noteq> 0 then sigZ OR 1
              else if negRem \<noteq> 0 then sigZ - 1 else sigZ
         else sigZ)"

definition f32_sqrt :: "float32_t \<Rightarrow> softfloat_state \<Rightarrow> float32_t \<times> softfloat_state" where
  "f32_sqrt a st =
     (let uiA = ucast a; signA = signF32UI uiA; expA = expF32UI uiA; sigA = fracF32UI uiA
      in if expA = 0xFF then
           if sigA \<noteq> 0 then f32_propagateNaN uiA 0 st
           else if \<not> signA then (a, st) else f32_invalid st
         else if signA then
           if word_of_int expA OR sigA = 0 then (a, st) else f32_invalid st
         else if expA = 0 \<and> sigA = 0 then (a, st)
         else
           let (expA, sigA) = f32_normalize expA sigA;
               expZ = (expA - 0x7F) div 2 + 0x7E;
               oddA = odd expA;
               sigA = push_bit 8 (sigA OR 0x00800000)
           in softfloat_roundPackToF32 False expZ (f32_sqrt_sig oddA sigA) st)"

section \<open>The significand\<close>

text \<open>
  The only argument for which the first estimate could end exactly at the next multiple of 64 is
  the square of such a multiple; the arithmetic that finds it.
\<close>

lemma sqrt_boundary:
  fixes s m :: int
  assumes "16763794 \<le> s" and "s < 2 ^ 24" and "0 \<le> m" and "m\<^sup>2 \<le> 2 ^ 26 * s" and "2 ^ 26 * s < m\<^sup>2 + 1680"
  shows "s = 16769025"
proof -
  define j where "j = 2 ^ 25 - m"
  define i where "i = s + j - 2 ^ 24"
  have m: "m\<^sup>2 = 2 ^ 26 * s - 2 ^ 26 * i + j\<^sup>2" by (simp add: i_def j_def power2_eq_square algebra_simps)
  have j: "j\<^sup>2 \<le> 2 ^ 26 * i" "2 ^ 26 * i < j\<^sup>2 + 1680" using assms(4,5) m by linarith+
  have "m < 2 ^ 25"
  proof (rule ccontr)
    assume "\<not> m < 2 ^ 25"
    then have "2 ^ 25 * 2 ^ 25 \<le> m * m" by (intro mult_mono) simp_all
    then show False using assms(2,4) by (simp add: power2_eq_square)
  qed
  then have j1: "0 < j" by (simp add: j_def)
  have j2: "j < 16001"
  proof (rule ccontr)
    assume "\<not> j < 16001"
    then have "m \<le> 2 ^ 25 - 16001" by (simp add: j_def)
    then have "m * m \<le> (2 ^ 25 - 16001) * (2 ^ 25 - 16001)" using assms(3) by (intro mult_mono) simp_all
    then show False using assms(1,5) by (simp add: power2_eq_square)
  qed
  have "j\<^sup>2 \<le> 16000\<^sup>2" using j1 j2 by (intro power_mono) simp_all
  then have "i < 4" using j(2) by simp
  moreover have "0 < i"
  proof (rule ccontr)
    assume "\<not> 0 < i"
    then have "2 ^ 26 * i \<le> 0" by simp
    with j(1) have "j\<^sup>2 \<le> 0" by (rule order_trans)
    then show False using j1 by simp
  qed
  ultimately consider "i = 1" | "i = 2" | "i = 3" by linarith
  then show ?thesis
  proof cases
    case 1
    have "j = 8192"
    proof (rule ccontr)
      assume "j \<noteq> 8192"
      then consider "j \<le> 8191" | "8193 \<le> j" by linarith
      then show False
      proof cases
        case a: 1
        then have "j\<^sup>2 \<le> 8191\<^sup>2" using j1 by (intro power_mono) simp_all
        then show False using j(2) 1 by simp
      next
        case a: 2
        then have "8193\<^sup>2 \<le> j\<^sup>2" by (intro power_mono) simp_all
        then show False using j(1) 1 by simp
      qed
    qed
    then show ?thesis using 1 by (simp add: i_def)
  next
    case 2
    consider "j \<le> 11585" | "11586 \<le> j" by linarith
    then have False
    proof cases
      case a: 1
      then have "j\<^sup>2 \<le> 11585\<^sup>2" using j1 by (intro power_mono) simp_all
      then show False using j(2) 2 by simp
    next
      case a: 2
      then have "11586\<^sup>2 \<le> j\<^sup>2" by (intro power_mono) simp_all
      then show False using j(1) 2 by simp
    qed
    then show ?thesis ..
  next
    case 3
    consider "j \<le> 14188" | "14189 \<le> j" by linarith
    then have False
    proof cases
      case a: 1
      then have "j\<^sup>2 \<le> 14188\<^sup>2" using j1 by (intro power_mono) simp_all
      then show False using j(2) 3 by simp
    next
      case a: 2
      then have "14189\<^sup>2 \<le> j\<^sup>2" by (intro power_mono) simp_all
      then show False using j(1) 3 by simp
    qed
    then show ?thesis ..
  qed
qed


text \<open>A negative remainder in two's complement.\<close>

lemma neg_rem:
  fixes N c h :: nat
  assumes "N < 2 * h * c + h" and "2 * h * c < N + h"
  shows "h \<le> N mod (2 * h) \<longleftrightarrow> N < 2 * h * c" and "N mod (2 * h) = 0 \<longleftrightarrow> N = 2 * h * c"
proof -
  have h: "0 < h" using assms by (cases h) simp_all
  have "(h \<le> N mod (2 * h) \<longleftrightarrow> N < 2 * h * c) \<and> (N mod (2 * h) = 0 \<longleftrightarrow> N = 2 * h * c)"
  proof (cases "N < 2 * h * c")
    case True
    then obtain e where c: "c = Suc e" by (cases c) auto
    define d where "d = N - (2 * h * e + h)"
    have d: "N = 2 * h * e + (h + d)" "0 < d" "d < h" using True assms(2) unfolding c d_def by simp_all
    then have "N mod (2 * h) = h + d" by simp
    then show ?thesis using True d h by simp
  next
    case False
    define d where "d = N - 2 * h * c"
    have d: "N = 2 * h * c + d" "d < h" using False assms(1) unfolding d_def by simp_all
    then have "N mod (2 * h) = d" by simp
    then show ?thesis using False d h by simp
  qed
  then show "h \<le> N mod (2 * h) \<longleftrightarrow> N < 2 * h * c" and "N mod (2 * h) = 0 \<longleftrightarrow> N = 2 * h * c" by simp_all
qed

text \<open>The last step on numbers: \<open>q + 2\<close> is moved off the multiples of 64 unless the root is one.\<close>

lemma sqrt_finish:
  fixes q n :: nat and T :: real
  assumes q: "real q < T" "T < real q + 3 + 8 / 100" and l: "(q + 2) mod 64 = 63 \<Longrightarrow> T < real q + 3"
    and b: "b = (q + 2) div 64 * 64" and n: "n = (if (q + 2) mod 64 < 2 then if real b < T then b + 1 else if T \<noteq> real b then b - 1 else b else q + 2)"
  shows "agrees 6 T n"
proof -
  define c r where "c = (q + 2) div 64" and "r = (q + 2) mod 64"
  have cr: "q + 2 = c * 64 + r" "r < 64" by (simp_all add: c_def r_def)
  have qr: "real q = real c * 64 + real r - 2"
  proof -
    have "real (q + 2) = real (c * 64 + r)" by (simp only: cr(1))
    then show ?thesis by simp
  qed
  show ?thesis
  proof (cases "r < 2")
    case False
    have "n = (if r < 2 then if real b < T then b + 1 else if T \<noteq> real b then b - 1 else b else q + 2)" by (simp only: n r_def)
    then have nq: "n = c * 64 + r" using False cr(1) by simp
    have "T < real (c + 1) * 64"
    proof (cases "r = 63")
      case True
      then show ?thesis using l qr unfolding r_def [symmetric] by simp
    next
      case F: False
      then have "r \<le> 62" using cr(2) by simp
      then have "real r \<le> 62" by simp
      then show ?thesis using q(2) qr by simp
    qed
    then show ?thesis unfolding nq by (intro agrees_between [of c]) (use False cr(2) q(1) qr in simp_all)
  next
    case True
    then have rr: "real r \<le> 1" by simp
    have bc: "b = c * 64" by (simp add: b c_def)
    have near: "real b - 2 < T" "T < real b + 3" using q qr rr unfolding bc by simp_all
    consider "T < real b" | "real b < T" | "T = real b" by linarith
    then show ?thesis
    proof cases
      case 1
      have "c \<noteq> 0" using 1 q(1) bc by auto
      then obtain e where c: "c = Suc e" by (cases c) auto
      show ?thesis by (rule agrees_between [of e]) (use 1 near bc c n True r_def in simp_all)
    next
      case 2
      show ?thesis by (rule agrees_between [of c]) (use 2 near bc n True r_def in simp_all)
    next
      case 3
      then show ?thesis using n True r_def by (simp add: agrees_refl)
    qed
  qed
qed


lemma sqrt32_boundary: "(drop_bit 32 (0xFFE00100 * ucast (softfloat_approxRecipSqrt32_1 False 0xFFE00100)) + 2) AND 0x3F = (0 :: u64)"
  by code_simp

text \<open>The sign of the remainder, from its low half.\<close>

lemma rem_sign:
  fixes b N c h k :: nat and T :: real
  assumes T: "T\<^sup>2 = real (k * (2 * h * c))" and b: "b\<^sup>2 = k * N" and k: "0 < k" and T0: "0 \<le> T"
    and near: "\<bar>T - real b\<bar> * (T + real b) < real (k * h)"
  shows "h \<le> N mod (2 * h) \<longleftrightarrow> real b < T" and "N mod (2 * h) = 0 \<longleftrightarrow> T = real b"
proof -
  have br: "(real b)\<^sup>2 = real (k * N)" using b by (metis of_nat_power)
  have d: "T\<^sup>2 - (real b)\<^sup>2 = (T - real b) * (T + real b)" by (simp add: power2_eq_square algebra_simps)
  have "\<bar>T\<^sup>2 - (real b)\<^sup>2\<bar> = \<bar>T - real b\<bar> * (T + real b)" unfolding d abs_mult using T0 by simp
  with near have "\<bar>real (k * (2 * h * c)) - real (k * N)\<bar> < real (k * h)" unfolding T br by simp
  then have "real (k * N) < real (k * (2 * h * c + h))" "real (k * (2 * h * c)) < real (k * (N + h))"
    by (auto simp: abs_less_iff distrib_left)
  then have "N < 2 * h * c + h" "2 * h * c < N + h" using k by (simp_all only: of_nat_less_iff nat_mult_less_cancel1)
  note nr = neg_rem [OF this]
  have "N < 2 * h * c \<longleftrightarrow> real (k * N) < real (k * (2 * h * c))" using k by (simp only: of_nat_less_iff nat_mult_less_cancel1)
  also have "\<dots> \<longleftrightarrow> (real b)\<^sup>2 < T\<^sup>2" unfolding br T ..
  also have "\<dots> \<longleftrightarrow> real b < T" using T0 power2_less_imp_less [of "real b" T] power_strict_mono [of "real b" T 2] by auto
  finally show "h \<le> N mod (2 * h) \<longleftrightarrow> real b < T" using nr(1) by simp
  have "N = 2 * h * c \<longleftrightarrow> real (k * N) = real (k * (2 * h * c))" using k by (simp only: of_nat_eq_iff nat_mult_eq_cancel1)
  also have "\<dots> \<longleftrightarrow> (real b)\<^sup>2 = T\<^sup>2" unfolding br T ..
  also have "\<dots> \<longleftrightarrow> T = real b" using T0 by (auto simp: power2_eq_iff_nonneg)
  finally show "N mod (2 * h) = 0 \<longleftrightarrow> T = real b" using nr(2) by simp
qed

lemma f32_sqrt_sig_agrees:
  assumes g: "2 ^ 23 \<le> unat w" "unat w < 2 ^ 24"
  shows "agrees 6 (exact_root od (ucast (push_bit 8 w :: u64))) (unat (f32_sqrt_sig od (push_bit 8 w)))"
proof -
  define sigA where "sigA = (push_bit 8 w :: u64)"
  define T where "T = exact_root od (ucast sigA)"
  have uA: "unat sigA = unat w * 2 ^ 8" unfolding sigA_def by (rule unat_push_bit) (use g(2) in simp)
  then have uA': "unat (ucast sigA :: u32) = unat w * 2 ^ 8" using g(2) by (subst unat_ucast_small) simp_all
  have a: "2 ^ 31 \<le> unat (ucast sigA :: u32)" using uA' g(1) by simp
  define r where "r = softfloat_approxRecipSqrt32_1 od (ucast sigA)"
  have rb: "unat r < 2 ^ 32" using unat_lt [of r] by simp
  define q where "q = unat (ucast sigA :: u32) * unat r div (if od then 2 ^ 33 else 2 ^ 32)"
  note est = root_estimate [OF a q_def [unfolded r_def], folded T_def]
  note Tb = exact_root_range [OF a, of od, folded T_def]
  define p where "p = unat w * 2 ^ 8 * unat r"
  have pb: "p < 2 ^ 32 * 2 ^ 32" unfolding p_def using g(2) rb by (intro mult_strict_mono) simp_all
  define Z where "Z = (let sigZ = drop_bit 32 (sigA * ucast r) in (if od then drop_bit 1 sigZ else sigZ) + 2)"
  have m: "unat (sigA * ucast r) = p" using pb by (subst unat_mult_small) (simp_all add: uA unat_ucast_up p_def)
  have qp: "q = p div (if od then 2 ^ 33 else 2 ^ 32)" unfolding q_def uA' p_def ..
  have qb: "q < 2 ^ 32" using pb unfolding qp by (auto simp: div_less_iff_less_mult)
  have zq: "unat (if od then drop_bit 1 (drop_bit 32 (sigA * ucast r)) else drop_bit 32 (sigA * ucast r)) = q"
    unfolding qp by (cases od) (simp_all add: unat_drop_bit m div_mult2_eq [symmetric])
  have Z: "unat Z = q + 2" unfolding Z_def Let_def using qb by (subst unat_add_small) (simp_all only: zq, simp_all)
  have Z63: "unat (Z AND 0x3F) = (q + 2) mod 64" using unat_and_mask [of Z 6] Z by simp
  have T0: "0 < T" using Tb by simp
  have Tsq: "T\<^sup>2 = real (unat w) * (if od then 2 ^ 37 else 2 ^ 38)"
    unfolding T_def exact_root_def uA' by (subst real_sqrt_pow2) (intro mult_nonneg_nonneg of_nat_0_le_iff, simp_all)
  have l: "T < real q + 3" if l63: "(q + 2) mod 64 = 63"
  proof (rule ccontr)
    assume n: "\<not> T < real q + 3"
    then have "\<not> (od \<or> unat (ucast sigA :: u32) < 256 * 16763794)" using est(3) by blast
    then have o: "\<not> od" and w: "16763794 \<le> unat w" unfolding uA' by auto
    define m' m where "m' = (q + 2) div 64" and "m = m' + 1"
    have "q + 2 = m' * 64 + 63" using div_mult_mod_eq [of "q + 2" 64] unfolding l63 m'_def by (rule sym)
    then have m: "q + 3 = 64 * m" by (simp add: m_def)
    have mr: "real q + 3 = 64 * real m"
    proof -
      have "real (q + 3) = real (64 * m)" by (simp only: m)
      then show ?thesis by simp
    qed
    have T64: "64 * real m \<le> T" "T < 64 * real m + 16 / 10000" using n est(2) mr by simp_all
    have m25: "real m \<le> 2 ^ 25" using T64(1) Tb(2) by simp
    have "(64 * real m)\<^sup>2 \<le> T\<^sup>2" using T64(1) by (intro power_mono) simp_all
    then have "real (m\<^sup>2) \<le> real (2 ^ 26 * unat w)" using o unfolding Tsq by (simp add: power_mult_distrib)
    then have lo: "m\<^sup>2 \<le> 2 ^ 26 * unat w" by (simp only: of_nat_le_iff)
    have "T\<^sup>2 < (64 * real m + 16 / 10000)\<^sup>2" using T64 T0 by (intro power_strict_mono) simp_all
    also have "\<dots> = 4096 * (real m)\<^sup>2 + 2048 / 10000 * real m + (16 / 10000)\<^sup>2" by (simp add: power2_eq_square algebra_simps)
    also have "\<dots> < 4096 * ((real m)\<^sup>2 + 1680)" using m25 by (simp add: power2_eq_square)
    finally have "real (2 ^ 26 * unat w) < real (m\<^sup>2 + 1680)" using o unfolding Tsq by simp
    then have hi: "2 ^ 26 * unat w < m\<^sup>2 + 1680" by (simp only: of_nat_less_iff)
    have wi: "int 16763794 \<le> int (unat w)" "int (unat w) < int (2 ^ 24)" using w g(2) by (simp_all only: of_nat_le_iff of_nat_less_iff)
    have "int (unat w) = 16769025"
    proof (rule sqrt_boundary [of _ "int m"])
      have "int (m\<^sup>2) \<le> int (2 ^ 26 * unat w)" "int (2 ^ 26 * unat w) < int (m\<^sup>2 + 1680)" using lo hi by (simp_all only: of_nat_le_iff of_nat_less_iff)
      then show "(int m)\<^sup>2 \<le> 2 ^ 26 * int (unat w)" "2 ^ 26 * int (unat w) < (int m)\<^sup>2 + 1680" by simp_all
    qed (use wi in simp_all)
    then have "int (unat w) = int (unat (16769025 :: u64))" by simp
    then have "w = 16769025" by (simp only: of_nat_eq_iff word_unat_eq_iff)
    then have sA: "sigA = 0xFFE00100" by (simp add: sigA_def)
    have "Z AND 0x3F = 0" using sqrt32_boundary o unfolding Z_def r_def sA Let_def by simp
    then show False using Z63 l63 by simp
  qed
  define b where "b = (q + 2) div 64 * 64"
  define n where "n = (if (q + 2) mod 64 < 2 then if real b < T then b + 1 else if T \<noteq> real b then b - 1 else b else q + 2)"
  have "T < real q + 3 + 8 / 100" using est(2) by simp
  note fin = sqrt_finish [OF est(1) this l b_def n_def]
  have small: "Z AND 0x3F < 2 \<longleftrightarrow> (q + 2) mod 64 < 2" using Z63 by (simp add: word_less_nat_alt)
  define R where "R = (ucast (drop_bit 2 Z * drop_bit 2 Z) :: u32)"
  have sig: "f32_sqrt_sig od sigA = (if Z AND 0x3F < 2 then if R AND 0x80000000 \<noteq> 0 then (Z AND NOT 3) OR 1 else if R \<noteq> 0 then (Z AND NOT 3) - 1 else Z AND NOT 3 else Z)"
    unfolding f32_sqrt_sig_def r_def [symmetric] Let_def R_def Z_def ..
  have "unat (f32_sqrt_sig od sigA) = n"
  proof (cases "(q + 2) mod 64 < 2")
    case False
    then show ?thesis unfolding sig small n_def using Z by (simp only: if_False)
  next
    case True
    define j where "j = (q + 2) div 4"
    define c where "c = (q + 2) div 64"
    have c: "c * 64 \<le> q + 2" "q + 2 < c * 64 + 2"
      using div_mult_mod_eq [of "q + 2" 64] True unfolding c_def by linarith+
    have "j = 16 * c" unfolding j_def by (rule div_nat_eqI) (use c in simp_all)
    then have bj: "b = 4 * j" by (simp add: b_def c_def)
    have lowZ: "unat (Z AND NOT 3) = b"
      using unat_and_not_low [of Z 2] Z unfolding bj j_def by simp
    have jb: "j < 2 ^ 31" using qb by (simp add: j_def)
    have "j * j < 2 ^ 31 * 2 ^ 31" using jb by (intro mult_strict_mono) simp_all
    then have uj: "unat (drop_bit 2 Z * drop_bit 2 Z) = j * j" by (subst unat_mult_small) (simp_all add: unat_drop_bit Z j_def)
    have uR: "unat R = j * j mod (2 * 2 ^ 31)" unfolding R_def unat_ucast_mod uj by simp
    have near: "\<bar>T - real b\<bar> * (T + real b) < real (16 * 2 ^ 31)"
    proof -
      have "real b \<le> real (q + 2)" "real (q + 2) < real (b + 2)" using c unfolding b_def c_def by (simp_all only: of_nat_le_iff of_nat_less_iff)
      then have ab: "\<bar>T - real b\<bar> \<le> 4" "real b < T + 3" using est(1,2) by auto
      then have "\<bar>T - real b\<bar> * (T + real b) \<le> 4 * (2 ^ 31 + 2 ^ 31 + 3)" using Tb(2) T0 by (intro mult_mono) simp_all
      then show ?thesis by simp
    qed
    have "T\<^sup>2 = real (16 * (2 * 2 ^ 31 * (if od then 2 * unat w else 4 * unat w)))" unfolding Tsq by simp
    note rs = rem_sign [OF this _ _ _ near, of "j * j"]
    have sgn: "2 ^ 31 \<le> unat R \<longleftrightarrow> real b < T" "unat R = 0 \<longleftrightarrow> T = real b"
      unfolding uR by (rule rs; use T0 bj in \<open>simp add: power2_eq_square\<close>)+
    have "R AND 0x80000000 \<noteq> 0 \<longleftrightarrow> 2 ^ 31 \<le> unat R"
    proof -
      have "(0x80000000 :: u32) = push_bit 31 (mask 1)" by (simp add: mask_eq_exp_minus_1)
      then have "unat (R AND 0x80000000) = (unat R div 2 ^ 31 mod 2 ^ 1) * 2 ^ 31" using unat_and_field [of 31 1 R] by simp
      moreover have "unat R div 2 ^ 31 < 2" using unat_lt [of R] by (simp add: div_less_iff_less_mult)
      ultimately have "unat (R AND 0x80000000) = 0 \<longleftrightarrow> unat R div 2 ^ 31 = 0" by simp
      then show ?thesis by (auto simp: unat_eq_zero div_eq_0_iff)
    qed
    moreover have "R \<noteq> 0 \<longleftrightarrow> unat R \<noteq> 0" by (simp add: unat_eq_zero)
    ultimately have s: "unat (f32_sqrt_sig od sigA) = unat (if real b < T then (Z AND NOT 3) OR 1 else if T \<noteq> real b then (Z AND NOT 3) - 1 else Z AND NOT 3)"
      unfolding sig small using True sgn by (simp only: if_True not_le)
    have "even b" using bj by simp
    have "unat ((Z AND NOT 3) OR 1) = b + 1" using unat_or_of_bool [of "Z AND NOT 3" True] lowZ \<open>even b\<close> by simp
    moreover have "unat ((Z AND NOT 3) - 1) = b - 1" if "T < real b"
    proof -
      have "0 < b" using that T0 by (cases b) simp_all
      then show ?thesis using lowZ by (subst unat_minus_small) simp_all
    qed
    ultimately show ?thesis using True lowZ unfolding s n_def by auto
  qed
  then show ?thesis using fin unfolding sigA_def T_def by simp
qed


section \<open>The operation\<close>

lemma f32_sqrt_finite:
  assumes "f32_finite a" and "\<not> f32_negative a" and "f32_real a \<noteq> 0"
    and "f32_normalize (expF32UI (ucast a)) (fracF32UI (ucast a)) = (e, s)"
  shows "f32_sqrt a st = softfloat_roundPackToF32 False ((e - 0x7F) div 2 + 0x7E) (f32_sqrt_sig (odd e) (push_bit 8 (s OR 0x00800000))) st"
proof -
  have z: "\<not> (expF32UI (ucast a) = 0 \<and> fracF32UI (ucast a) = 0)" using assms(3) f32_zero_iff_fields by blast
  show ?thesis
    using f32_finite_exp [OF assms(1)] assms(2) z
    unfolding f32_sqrt_def Let_def assms(4) prod.case f32_sign f32_negative_def [symmetric] by (simp only: if_False)
qed

theorem f32_sqrt_correct:
  assumes fin: "f32_finite a" and pos: "0 \<le> f32_real a"
  shows "f32_rounded st (f32_negative a) (sqrt (f32_real a)) (f32_sqrt a st)"
proof (cases "f32_real a = 0")
  case True
  have e: "f32_sqrt a st = (a, st)"
    using f32_finite_exp [OF fin] f32_magBits_zero [of a] f32_zero_iff_fields [of a] True by (simp add: f32_sqrt_def Let_def)
  have "unat a mod 2 ^ 31 = 0" using True by (simp add: f32_real_def split: if_splits)
  then have "unat a = of_bool (f32_negative a) * 2 ^ 31 + 0"
    using unat_sign_index [of "ucast a"] unat_f32_less [of a] by (simp add: f32_negative_def)
  then have "fl_result 23 255 st (f32_negative a) 0 (unat (fst (f32_sqrt a st))) (snd (f32_sqrt a st))"
    unfolding e fst_conv snd_conv by (intro fl_result_exact [of 0]) simp_all
  then show ?thesis using True by (simp add: f32_rounded_def)
next
  case False
  define n where "n = unat a mod 2 ^ 31"
  have np: "\<not> f32_negative a"
  proof
    assume "f32_negative a"
    then have "f32_real a \<le> 0" by (simp add: f32_real_def f32_negative_def divide_nonpos_pos)
    then show False using False pos by simp
  qed
  have x: "f32_real a = real (fmag 23 n) / 2 ^ 149" using np by (simp add: f32_real_def f32_negative_def n_def)
  have n0: "n \<noteq> 0" using False x by auto
  obtain e s where nm: "f32_normalize (expF32UI (ucast a)) (fracF32UI (ucast a)) = (e, s)" by fastforce
  have inf: "n < fp_inf 23 255" using fin by (simp add: f32_finite_def n_def)
  define w where "w = s OR 0x00800000"
  have A: "2 ^ 23 \<le> unat w" "unat w < 2 ^ 24" "real (fmag 23 n) = real (unat w) * 2 powi (e - 1)" "- 23 < e" "e < 255"
    unfolding w_def by (rule f32_normalize_eq [OF _ _ inf nm]; use n0 n_def in simp)+
  define T where "T = exact_root (odd e) (ucast (push_bit 8 w :: u64))"
  define z where "z = f32_sqrt_sig (odd e) (push_bit 8 w)"
  have ag: "agrees 6 T (unat z)" unfolding T_def z_def by (rule f32_sqrt_sig_agrees [OF A(1,2)])
  have uw: "unat (ucast (push_bit 8 w :: u64) :: u32) = unat w * 2 ^ 8"
    using A(2) by (subst unat_ucast_small) (simp_all add: unat_push_bit)
  have Tb: "2 ^ 30 \<le> T" "T < 2 ^ 31" unfolding T_def using exact_root_range [of "ucast (push_bit 8 w :: u64)"] A(1) uw by simp_all
  have zb: "2 ^ 30 \<le> unat z" "unat z < 2 ^ 31"
    using ag [unfolded agrees_def, rule_format, of "2 ^ 24"] ag [unfolded agrees_def, rule_format, of "2 ^ 25"] Tb by auto
  define v where "v = sqrt (f32_real a) * 2 ^ 149"
  have v0: "0 < v" using False pos by (simp add: v_def)
  define ex where "ex = (e - 0x7F) div 2 + 0x7E"
  have v: "v = T * 2 powi (ex - 7)"
  proof (rule power2_eq_imp_eq)
    obtain k where k: "e = 2 * k \<or> e = 2 * k + 1" by (metis oddE evenE)
    have sq: "(2 powi m)\<^sup>2 = (2 powi (2 * m) :: real)" for m by (simp add: power2_eq_square flip: power_int_add mult_2)
    have Tsq: "T\<^sup>2 = real (unat w) * (if odd e then 2 ^ 37 else 2 ^ 38)"
      unfolding T_def exact_root_def uw by (subst real_sqrt_pow2) (intro mult_nonneg_nonneg of_nat_0_le_iff, simp_all)
    have "v\<^sup>2 = real (unat w) * 2 powi (e - 1) * 2 ^ 149" using pos by (simp add: v_def power_mult_distrib x A(3))
    also have "\<dots> = T\<^sup>2 * 2 powi (2 * (ex - 7))"
    proof -
      have "e = 2 * k \<and> ex = k + 62 \<or> e = 2 * k + 1 \<and> ex = k + 63" using k unfolding ex_def by presburger
      then show ?thesis unfolding Tsq by (auto simp: power_int_add power_int_diff)
    qed
    finally show "v\<^sup>2 = (T * 2 powi (ex - 7))\<^sup>2" by (simp add: power_mult_distrib sq)
  qed (use v0 Tb in simp_all)
  have "fl_result 23 255 st False v (unat (fst (f32_sqrt a st))) (snd (f32_sqrt a st))"
    unfolding f32_sqrt_finite [OF fin np False nm] w_def [symmetric] z_def [symmetric] ex_def [symmetric]
    by (rule roundPackToF32_result [OF ag zb _ _ v]) (use A(4,5) in \<open>simp_all add: ex_def\<close>)
  then show ?thesis using v0
    by (intro f32_roundedI [of st False v _ _ False]) (auto simp: v_def)
qed

theorem f32_sqrt_special:
  shows "f32_nan a \<Longrightarrow> f32_sqrt a st = f32_nan_result a 0 st"
    and "f32_inf a \<Longrightarrow> \<not> f32_negative a \<Longrightarrow> f32_sqrt a st = (a, st)"
    and "\<not> f32_nan a \<Longrightarrow> f32_negative a \<Longrightarrow> f32_real a \<noteq> 0 \<Longrightarrow> f32_sqrt a st = f32_invalid st"
proof -
  show "f32_sqrt a st = f32_nan_result a 0 st" if "f32_nan a"
    using that f32_exp_max [of a] f32_frac_zero [of a] f32_inf_not_nan [of a] f32_propagate [of a 0 st] by (auto simp: f32_sqrt_def Let_def)
  show "f32_sqrt a st = (a, st)" if "f32_inf a" "\<not> f32_negative a"
    using that f32_exp_max [of a] f32_frac_zero [of a] by (auto simp: f32_sqrt_def Let_def f32_negative_def)
  show "f32_sqrt a st = f32_invalid st" if "\<not> f32_nan a" "f32_negative a" "f32_real a \<noteq> 0"
    using that f32_exp_max [of a] f32_frac_zero [of a] f32_magBits_zero [of a] by (auto simp: f32_sqrt_def Let_def f32_negative_def)
qed

end
