(* ===== verification/F64_Div.thy ===== *)
theory F64_Div
  imports F64_Arith
begin

text \<open>
  Division of 64-bit numbers (\<open>f64_div.c\<close>): the quotient is assembled from two digits, each
  estimated with a 32-bit reciprocal of the divisor, and corrected with the exact remainder only
  when the estimate is close to a rounding boundary. The error analysis below shows that the
  significand handed to the round-and-pack routine agrees with the exact quotient, so the
  operation is correctly rounded.
\<close>

section \<open>The reciprocal and one quotient digit\<close>

lemma div_mult_bounds:
  fixes n w :: nat
  assumes "0 < w"
  shows "n div w * w \<le> n" and "n < n div w * w + w"
  using div_mult_mod_eq [of n w] mod_less_divisor [OF assms, of n] by linarith+

lemma recip_bounds:
  fixes B R :: nat
  assumes "2 ^ 63 \<le> B" and "B < 2 ^ 64" and "R = (2 ^ 63 - 1) div (B div 2 ^ 32) - 2"
  shows "R * B < 2 ^ 95" and "2 ^ 95 \<le> (R + 3) * B" and "R + 2 < 2 ^ 32"
    and "2 \<le> (2 ^ 63 - 1) div (B div 2 ^ 32)"
proof -
  define B1 where "B1 = B div 2 ^ 32"
  have B1: "2 ^ 31 \<le> B1" "B1 < 2 ^ 32"
    using assms(1,2) by (simp_all add: B1_def less_eq_div_iff_mult_less_eq div_less_iff_less_mult)
  have B: "B1 * 2 ^ 32 \<le> B" "B < (B1 + 1) * 2 ^ 32"
    using div_mult_bounds [of "2 ^ 32" B] unfolding B1_def by (simp_all add: add_mult_distrib)
  define K where "K = (2 ^ 63 - 1) div B1"
  have "2 * B1 \<le> 2 ^ 63 - 1" using B1(2) by simp
  then have K2: "2 \<le> K" using B1(1) unfolding K_def by (subst less_eq_div_iff_mult_less_eq) simp_all
  then show "2 \<le> (2 ^ 63 - 1) div (B div 2 ^ 32)" unfolding K_def B1_def .
  have "2 ^ 63 - 1 < 2 ^ 32 * B1" using B1(1) by simp
  then have Kl: "K < 2 ^ 32" using B1(1) unfolding K_def by (subst div_less_iff_less_mult) simp_all
  have R: "R + 2 = K" using assms(3) K2 unfolding K_def B1_def by simp
  then show "R + 2 < 2 ^ 32" using Kl by simp
  have K1: "K * B1 \<le> 2 ^ 63 - 1" unfolding K_def by (rule div_times_less_eq_dividend)
  have K3: "2 ^ 63 \<le> (K + 1) * B1"
    using dividend_less_div_times [of B1 "2 ^ 63 - 1"] B1(1) unfolding K_def by (simp add: algebra_simps)
  have "R * (B1 + 1) + 1 \<le> 2 ^ 63"
  proof -
    have "R * B1 + 2 * B1 = K * B1" unfolding R [symmetric] by (rule add_mult_distrib [symmetric])
    moreover have "R \<le> 2 * B1" using R Kl B1(1) by simp
    ultimately show ?thesis using K1 by simp
  qed
  then have "(R * (B1 + 1) + 1) * 2 ^ 32 \<le> 2 ^ 63 * 2 ^ 32" by (rule mult_le_mono1)
  moreover have "R * B \<le> R * ((B1 + 1) * 2 ^ 32)" using B(2) by (intro mult_le_mono2) simp
  ultimately show "R * B < 2 ^ 95" by (simp add: algebra_simps)
  have "2 ^ 63 * 2 ^ 32 \<le> (K + 1) * B1 * 2 ^ 32" using K3 by (rule mult_le_mono1)
  also have "\<dots> = (K + 1) * (B1 * 2 ^ 32)" by simp
  also have "\<dots> \<le> (K + 1) * B" using B(1) by (rule mult_le_mono2)
  finally have "2 ^ 63 * 2 ^ 32 \<le> (K + 1) * B" .
  moreover have "R + 3 = K + 1" using R by simp
  ultimately show "2 ^ 95 \<le> (R + 3) * B" by (simp only: power_add [symmetric]) simp
qed

lemma quotient_digit:
  fixes X B R q :: nat
  assumes "2 ^ 63 \<le> B" and "B < 2 ^ 64" and "R = (2 ^ 63 - 1) div (B div 2 ^ 32) - 2"
    and "q = (X div 2 ^ 32) * R div 2 ^ 32"
  shows "0 < X \<Longrightarrow> real q < real X * 2 ^ 31 / real B"
    and "real X * 2 ^ 31 / real B - real q < 3 * real X / 2 ^ 64 + 2"
proof -
  note r = recip_bounds [OF assms(1-3)]
  have B0: "0 < real B" using assms(1) by simp
  define \<rho> where "\<rho> = 2 ^ 95 / real B"
  have "real (R * B) < real (2 ^ 95)" "real (2 ^ 95) \<le> real ((R + 3) * B)"
    using r(1,2) by (simp_all only: of_nat_less_iff of_nat_le_iff)
  then have \<rho>: "real R < \<rho>" "\<rho> \<le> real R + 3"
    using B0 by (simp_all add: \<rho>_def field_simps)
  have Q: "real X * 2 ^ 31 / real B = real X * \<rho> / 2 ^ 64" by (simp add: \<rho>_def)
  define X1 where "X1 = X div 2 ^ 32"
  have X1: "real X1 * 2 ^ 32 \<le> real X" "real X < real X1 * 2 ^ 32 + 2 ^ 32"
  proof -
    have "X1 * 2 ^ 32 \<le> X" "X < X1 * 2 ^ 32 + 2 ^ 32"
      using div_mult_bounds [of "2 ^ 32" X] unfolding X1_def by simp_all
    then have "real (X1 * 2 ^ 32) \<le> real X" "real X < real (X1 * 2 ^ 32 + 2 ^ 32)" by (simp_all only: of_nat_le_iff of_nat_less_iff)
    then show "real X1 * 2 ^ 32 \<le> real X" "real X < real X1 * 2 ^ 32 + 2 ^ 32" by simp_all
  qed
  have q: "real q \<le> real X1 * real R / 2 ^ 32" "real X1 * real R / 2 ^ 32 < real q + 1"
  proof -
    have "q * 2 ^ 32 \<le> X1 * R" "X1 * R < q * 2 ^ 32 + 2 ^ 32"
      using div_mult_bounds [of "2 ^ 32" "X1 * R"] unfolding assms(4) X1_def by simp_all
    then have "real (q * 2 ^ 32) \<le> real (X1 * R)" "real (X1 * R) < real (q * 2 ^ 32 + 2 ^ 32)" by (simp_all only: of_nat_le_iff of_nat_less_iff)
    then show "real q \<le> real X1 * real R / 2 ^ 32" "real X1 * real R / 2 ^ 32 < real q + 1" by (simp_all add: field_simps)
  qed
  have R32: "real R < 2 ^ 32" using r(3) by simp
  have low: "real X1 * real R / 2 ^ 32 \<le> real X * real R / 2 ^ 64"
    using mult_right_mono [OF X1(1), of "real R"] by (simp add: field_simps)
  show "0 < X \<Longrightarrow> real q < real X * 2 ^ 31 / real B"
  proof -
    assume "0 < X"
    then have "real X * real R < real X * \<rho>" using \<rho>(1) by simp
    then have "real X * real R / 2 ^ 64 < real X * \<rho> / 2 ^ 64" by (rule divide_strict_right_mono) simp
    then show ?thesis unfolding Q using q(1) low by linarith
  qed
  have "(real X - 2 ^ 32) * real R \<le> real X1 * 2 ^ 32 * real R" using X1(2) by (intro mult_right_mono) auto
  then have "real X * real R / 2 ^ 64 - real R / 2 ^ 32 \<le> real X1 * real R / 2 ^ 32" by (simp add: field_simps)
  moreover have "real R / 2 ^ 32 < 1" using R32 by simp
  moreover have "real X * \<rho> \<le> real X * (real R + 3)" using \<rho>(2) by (intro mult_left_mono) auto
  then have "real X * \<rho> / 2 ^ 64 \<le> real X * real R / 2 ^ 64 + 3 * real X / 2 ^ 64" by (simp add: field_simps)
  ultimately show "real X * 2 ^ 31 / real B - real q < 3 * real X / 2 ^ 64 + 2"
    unfolding Q using q(2) by linarith
qed

text \<open>
  Both digits: \<open>S\<close> is the high digit, \<open>r\<close> the remainder it leaves (divided by eight), and \<open>q\<close> the low
  digit with the safety margin of four. The assembled significand exceeds the exact one by less
  than 64.
\<close>

lemma div_estimate:
  fixes A B R S r q :: nat
  assumes B: "2 ^ 63 \<le> B" "B < 2 ^ 64" and A: "0 < A" "A < B"
    and R: "R = (2 ^ 63 - 1) div (B div 2 ^ 32) - 2"
    and S: "S = (A div 2 ^ 32) * R div 2 ^ 32"
    and r: "8 * r + S * B = A * 2 ^ 31"
    and q: "q = (r div 2 ^ 32) * R div 2 ^ 32 + 4"
    and t: "t = real A * 2 ^ 63 / real B"
  shows "S < 2 ^ 31" and "r < 2 ^ 64" and "0 < r" and "q < 2 ^ 31"
    and "real (S * 2 ^ 32 + 16 * q) - 64 < t" and "t < real (S * 2 ^ 32 + 16 * q)"
    and "t = real S * 2 ^ 32 + 16 * (real r * 2 ^ 31 / real B)"
proof -
  have B0: "0 < real B" using B(1) by simp
  define \<theta> where "\<theta> = real A * 2 ^ 31 / real B - real S"
  have "A < 2 ^ 64" using A(2) B(2) by simp
  then have A64: "real A < 2 ^ 64" by (metis of_nat_less_iff of_nat_numeral of_nat_power)
  note dg = quotient_digit [OF B R S]
  have "3 * real A / 2 ^ 64 < 3" using A64 by simp
  then have \<theta>: "0 < \<theta>" "\<theta> < 5" using dg(1) [OF A(1)] dg(2) unfolding \<theta>_def by linarith+
  have "real (8 * r + S * B) = real (A * 2 ^ 31)" using r by (simp only:)
  moreover have "\<theta> * real B = real A * 2 ^ 31 - real S * real B"
    using B0 by (simp add: \<theta>_def left_diff_distrib)
  ultimately have rr: "8 * real r = \<theta> * real B" by simp
  have "real A < real B" using A(2) by (simp only: of_nat_less_iff)
  then have "real A * 2 ^ 31 / real B < 2 ^ 31" using B0 by (simp add: field_simps)
  then have "real S < real (2 ^ 31)" using \<theta>(1) unfolding \<theta>_def by simp
  then show Sl: "S < 2 ^ 31" by (simp only: of_nat_less_iff)
  have "real B < 2 ^ 64" using B(2) by (metis of_nat_less_iff of_nat_numeral of_nat_power)
  then have "\<theta> * real B < 5 * 2 ^ 64" using \<theta> B0 by (intro mult_strict_mono) auto
  then have r5: "8 * real r < 5 * 2 ^ 64" using rr by simp
  then have "real r < real (2 ^ 64)" by simp
  then show rl: "r < 2 ^ 64" by (simp only: of_nat_less_iff)
  have "0 < \<theta> * real B" using \<theta>(1) B0 by (rule mult_pos_pos)
  then have "0 < real r" using rr by simp
  then show r0: "0 < r" by simp
  define \<psi> where "\<psi> = real r * 2 ^ 31 / real B"
  have psi: "\<psi> = \<theta> * 2 ^ 28" using rr B0 by (simp add: \<psi>_def field_simps)
  have d: "real (q - 4) < \<psi>" "\<psi> - real (q - 4) < 3 * real r / 2 ^ 64 + 2"
    using quotient_digit [OF B R, of "q - 4" r] r0 unfolding \<psi>_def by (simp_all add: q)
  have q4: "real q = real (q - 4) + 4" by (simp add: q)
  have "3 * real r / 2 ^ 64 < 2" using r5 by simp
  then have m: "real q - 4 < \<psi>" "\<psi> < real q" using d q4 by linarith+
  have "\<psi> < 5 * 2 ^ 28" using psi \<theta>(2) by simp
  then have "real q < real (2 ^ 31)" using m(1) by simp
  then show "q < 2 ^ 31" by (simp only: of_nat_less_iff)
  have "t = 2 ^ 32 * (real A * 2 ^ 31 / real B)" unfolding t by simp
  also have "\<dots> = 2 ^ 32 * (real S + \<theta>)" by (simp add: \<theta>_def)
  also have "\<dots> = real S * 2 ^ 32 + 16 * \<psi>" unfolding psi by simp
  finally show te: "t = real S * 2 ^ 32 + 16 * (real r * 2 ^ 31 / real B)" unfolding \<psi>_def .
  show "real (S * 2 ^ 32 + 16 * q) - 64 < t" and "t < real (S * 2 ^ 32 + 16 * q)"
    using m te unfolding \<psi>_def [symmetric] by simp_all
qed

section \<open>The word computation\<close>

lemma rem_word:
  fixes X sigB :: u64 and d :: u32
  shows "push_bit 28 (X - ucast d * ucast (ucast (drop_bit 32 sigB) :: u32)) - ucast d * ucast (drop_bit 4 (ucast sigB :: u32)) =
    (word_of_int (int (unat X) * 2 ^ 28 - int (unat d) * int (unat sigB div 16)) :: u64)"
proof -
  define b1 b0 :: u32 where "b1 = ucast (drop_bit 32 sigB)" and "b0 = drop_bit 4 (ucast sigB)"
  have "unat sigB div 2 ^ 32 < 2 ^ 32" using unat_lt [of sigB] by (simp add: div_less_iff_less_mult)
  then have u: "unat b1 = unat sigB div 2 ^ 32" "unat b0 = unat sigB mod 2 ^ 32 div 16"
    unfolding b1_def b0_def by (simp_all add: unat_drop_bit unat_ucast_mod)
  have "unat sigB div 16 = unat b1 * 2 ^ 28 + unat b0"
  proof -
    have "(p * 16 + y) div 16 = p + y div (16 :: nat)" for p y by simp
    moreover have "unat sigB = unat sigB div 2 ^ 32 * 2 ^ 28 * 16 + unat sigB mod 2 ^ 32"
      using div_mult_mod_eq [of "unat sigB" "2 ^ 32"] by (simp only: mult.assoc) simp
    ultimately show ?thesis unfolding u by metis
  qed
  then have i: "int (unat sigB div 16) = uint b1 * 2 ^ 28 + uint b0" by (simp add: uint_nat del: of_nat_unat)
  have "(word_of_int (int (unat X) * 2 ^ 28 - int (unat d) * int (unat sigB div 16)) :: u64) =
      X * 2 ^ 28 - ucast d * (ucast b1 * 2 ^ 28 + ucast b0)"
    unfolding i by (simp add: of_int_uint)
  then show ?thesis
    unfolding b1_def [symmetric] b0_def [symmetric] by (simp add: push_bit_eq_mult algebra_simps)
qed

lemma unat_div_digit:
  fixes X :: u64 and rc :: u32
  shows "unat (drop_bit 32 (ucast (ucast (drop_bit 32 X) :: u32) * ucast rc :: u64)) = (unat X div 2 ^ 32) * unat rc div 2 ^ 32"
    and "(unat X div 2 ^ 32) * unat rc div 2 ^ 32 < 2 ^ 32"
proof -
  have X: "unat X div 2 ^ 32 < 2 ^ 32" using unat_lt [of X] by (simp add: div_less_iff_less_mult)
  then have u: "unat (ucast (ucast (drop_bit 32 X) :: u32) :: u64) = unat X div 2 ^ 32"
    by (simp add: unat_ucast_up unat_ucast_mod unat_drop_bit)
  have rc: "unat rc < 2 ^ 32" using unat_lt [of rc] by simp
  have m: "(unat X div 2 ^ 32) * unat rc < 2 ^ 32 * 2 ^ 32" using X rc by (intro mult_strict_mono) auto
  then have "unat (ucast (ucast (drop_bit 32 X) :: u32) * ucast rc :: u64) = (unat X div 2 ^ 32) * unat rc"
    by (subst unat_mult_small) (simp_all add: u unat_ucast_up)
  then show "unat (drop_bit 32 (ucast (ucast (drop_bit 32 X) :: u32) * ucast rc :: u64)) = (unat X div 2 ^ 32) * unat rc div 2 ^ 32"
    by (simp only: unat_drop_bit)
  show "(unat X div 2 ^ 32) * unat rc div 2 ^ 32 < 2 ^ 32" using m by (simp add: div_less_iff_less_mult)
qed

lemma unat_approxRecip:
  assumes "2 ^ 63 \<le> unat sigB" and "unat (sigB :: u64) < 2 ^ 64"
  shows "unat (softfloat_approxRecip32_1 (ucast (drop_bit 32 sigB)) - 2) = (2 ^ 63 - 1) div (unat sigB div 2 ^ 32) - 2"
proof -
  note r = recip_bounds [OF assms refl]
  have "unat sigB div 2 ^ 32 < 2 ^ 32" using assms(2) by (simp add: div_less_iff_less_mult)
  then have b: "unat (ucast (ucast (drop_bit 32 sigB) :: u32) :: u64) = unat sigB div 2 ^ 32"
    by (simp add: unat_ucast_up unat_ucast_mod unat_drop_bit)
  have "unat (0x7FFFFFFFFFFFFFFF div ucast (ucast (drop_bit 32 sigB) :: u32) :: u64) = (2 ^ 63 - 1) div (unat sigB div 2 ^ 32)"
    by (simp only: unat_div b) simp
  then have "unat (softfloat_approxRecip32_1 (ucast (drop_bit 32 sigB))) = (2 ^ 63 - 1) div (unat sigB div 2 ^ 32)"
    unfolding softfloat_approxRecip32_1_def using r(3,4) by (subst unat_ucast_small) simp_all
  then show ?thesis using r(4) by (subst unat_minus_small) simp_all
qed

text \<open>
  The three ways the significand is finished. In each, it and the exact quotient lie strictly
  between the same multiples of \<open>2 ^ 9\<close>, or are the same multiple.
\<close>

lemma div_far:
  assumes "real z - 64 < t" and "t < real z" and "64 \<le> z mod 2 ^ 9"
  shows "agrees 9 t z"
proof (rule agrees_between)
  define c where "c = z div 2 ^ 9"
  have z: "z = c * 2 ^ 9 + z mod 2 ^ 9" "z mod 2 ^ 9 < 2 ^ 9" unfolding c_def by simp_all
  then have n: "c * 2 ^ 9 + 64 \<le> z" "z < (c + 1) * 2 ^ 9" using assms(3) by (linarith, simp)
  then have "real (c * 2 ^ 9 + 64) \<le> real z" "real z < real ((c + 1) * 2 ^ 9)" by (simp_all only: of_nat_le_iff of_nat_less_iff)
  with n show "real (z div 2 ^ 9 * 2 ^ 9) < t" and "t < real ((z div 2 ^ 9 + 1) * 2 ^ 9)" and "z div 2 ^ 9 * 2 ^ 9 < z" and "z < (z div 2 ^ 9 + 1) * 2 ^ 9"
    using assms(1,2) unfolding c_def by simp_all
qed

lemma div_near:
  assumes "z = c * 2 ^ 9" and "real z - 64 < t" and "t < real z + 64"
    and "n = (if t < real z then z - 128 else if t \<noteq> real z then z + 1 else z)" and "0 < t"
  shows "agrees 9 t n"
proof -
  consider "t < real z" | "real z < t" | "t = real z" by linarith
  then show ?thesis
  proof cases
    case 1
    then have "c \<noteq> 0" using assms(1,5) by auto
    then obtain e where c: "c = Suc e" by (cases c) auto
    show ?thesis by (rule agrees_between [of e]) (use 1 assms c in auto)
  next
    case 2
    show ?thesis by (rule agrees_between [of c]) (use 2 assms in auto)
  next
    case 3
    then show ?thesis using assms(4) by simp
  qed
qed

lemma word_sign_test:
  assumes "w = (word_of_int k :: u64)" and "\<bar>k\<bar> < 2 ^ 63"
  shows "w AND 0x8000000000000000 \<noteq> 0 \<longleftrightarrow> k < 0" and "w \<noteq> 0 \<longleftrightarrow> k \<noteq> 0"
proof -
  have u: "uint w = k mod 2 ^ 64" unfolding assms(1) by (simp add: uint_word_of_int)
  have k: "k mod 2 ^ 64 = (if k < 0 then k + 2 ^ 64 else k)"
  proof (cases "k < 0")
    case True
    have "k mod 2 ^ 64 = (k + 2 ^ 64) mod 2 ^ 64" by simp
    also have "\<dots> = k + 2 ^ 64" using assms(2) True by (intro mod_pos_pos_trivial) auto
    finally show ?thesis using True by simp
  qed (use assms(2) in simp)
  define j where "j = unat w"
  have "int j = (if k < 0 then k + 2 ^ 64 else k)" unfolding j_def using u k by (simp only: uint_nat)
  then have "2 ^ 63 \<le> j \<longleftrightarrow> k < 0" "j = 0 \<longleftrightarrow> k = 0" using assms(2) by (auto split: if_splits)
  then have n: "2 ^ 63 \<le> unat w \<longleftrightarrow> k < 0" "unat w = 0 \<longleftrightarrow> k = 0" unfolding j_def by blast+
  have f: "push_bit 63 (mask 1) = (0x8000000000000000 :: u64)" by simp
  have "unat w div 2 ^ 63 < 2" using unat_lt [of w] by (simp add: div_less_iff_less_mult)
  then have "unat (w AND 0x8000000000000000) = unat w div 2 ^ 63 * 2 ^ 63"
    using unat_and_field [of 63 1 w] unfolding f by simp
  then have "w AND 0x8000000000000000 = 0 \<longleftrightarrow> unat w < 2 ^ 63"
    by (metis div_eq_0_iff mult_is_0 power_not_zero unat_eq_0 zero_neq_numeral)
  then show "w AND 0x8000000000000000 \<noteq> 0 \<longleftrightarrow> k < 0" using n(1) by (simp add: not_less)
  show "w \<noteq> 0 \<longleftrightarrow> k \<noteq> 0" using n(2) by (simp add: unat_eq_0)
qed

lemma unat_clear_low:
  assumes "m = 2 ^ d - 1"
  shows "unat (w AND NOT m :: 'a::len word) = unat w div 2 ^ d * 2 ^ d"
proof -
  have "m = mask d" using assms by (simp add: mask_eq_exp_minus_1)
  then have "w AND NOT m = push_bit d (drop_bit d w)" by (auto intro!: bit_word_eqI simp: bit_simps)
  then have "unat (w AND NOT m) = unat (push_bit d (drop_bit d w))" by simp
  also have "\<dots> = unat w div 2 ^ d * 2 ^ d"
    by (subst unat_push_bit) (simp_all add: unat_drop_bit le_less_trans [OF div_times_less_eq_dividend unat_lt])
  finally show ?thesis .
qed

text \<open>The correction step: the second remainder decides on which side of the boundary the quotient is.\<close>

lemma div_correction:
  fixes q32 :: u32 and sigZ rem sigB :: u64
  assumes B: "B = unat sigB" "B = 16 * h" "0 < B" "B < 2 ^ 64"
    and q: "unat q32 = q" "q < 2 ^ 31" and r: "unat rem = r"
    and z: "unat sigZ = z" "z = S * 2 ^ 32 + 16 * q" "z mod 2 ^ 9 < 64"
    and t: "t = real S * 2 ^ 32 + 16 * (real r * 2 ^ 31 / real B)" "real z - 64 < t" "t < real z" "0 < t"
    and q': "q' = q32 AND NOT 7" and z': "z' = sigZ AND NOT 0x7F"
    and rem': "rem' = push_bit 28 (rem - ucast (push_bit 1 q') * ucast (ucast (drop_bit 32 sigB) :: u32))
                 - ucast (push_bit 1 q') * ucast (drop_bit 4 (ucast sigB :: u32))"
  shows "agrees 9 t (unat (if rem' AND 0x8000000000000000 \<noteq> 0 then z' - push_bit 7 1 else if rem' \<noteq> 0 then z' OR 1 else z'))"
proof -
  define p where "p = q div 8 * 8"
  have uq: "unat q' = p" unfolding q' p_def using unat_clear_low [of "7 :: u32" 3 q32] q(1) by simp
  have pq: "p \<le> q" "q = p + q mod 8" unfolding p_def by (simp_all add: div_mult_mod_eq)
  have zz: "z = S * 2 ^ 25 * 128 + q div 8 * 128 + 16 * (q mod 8)" 
  proof -
    have "16 * q = q div 8 * 128 + 16 * (q mod 8)" using div_mult_mod_eq [of q 8] by linarith
    then show ?thesis unfolding z(2) by simp
  qed
  have q8: "q mod 8 < 8" by simp
  have uz: "unat z' = S * 2 ^ 32 + 16 * p"
  proof -
    have "unat z' = z div 2 ^ 7 * 2 ^ 7" unfolding z' using unat_clear_low [of "0x7F :: u64" 7 sigZ] z(1) by simp
    also have "z div 2 ^ 7 = S * 2 ^ 25 + q div 8" unfolding zz using q8 by (intro div_nat_eqI) auto
    finally show ?thesis by (simp add: p_def)
  qed
  define c where "c = z div 2 ^ 9"
  have zc: "z = c * 2 ^ 9 + z mod 2 ^ 9" unfolding c_def by simp
  have uzc: "unat z' = c * 2 ^ 9"
  proof -
    have "z div 2 ^ 7 = c * 4" using zc z(3) by (intro div_nat_eqI) auto
    moreover have "unat z' = z div 2 ^ 7 * 2 ^ 7" unfolding z' using unat_clear_low [of "0x7F :: u64" 7 sigZ] z(1) by simp
    ultimately show ?thesis by simp
  qed
  define k where "k = int r * 2 ^ 28 - int (2 * p) * int h"
  have rw: "rem' = word_of_int k"
  proof -
    have "unat (push_bit 1 q') = 2 * p" using q(2) pq(1) by (subst unat_push_bit) (simp_all add: uq)
    moreover have "B div 16 = h" using B(2) by simp
    ultimately show ?thesis
      unfolding rem' rem_word k_def by (simp only: r B(1) [symmetric])
  qed
  define \<psi> where "\<psi> = real r * 2 ^ 31 / real B"
  have B0: "0 < real B" using B(3) by simp
  have k8: "8 * real_of_int k = (\<psi> - real p) * real B"
  proof -
    have "real B = 16 * real h" using B(2) by simp
    moreover have "\<psi> * real B = real r * 2 ^ 31" using B0 by (simp add: \<psi>_def)
    ultimately show ?thesis by (simp add: k_def left_diff_distrib)
  qed
  have tz: "t - real (unat z') = 16 * (\<psi> - real p)" unfolding uz t(1) \<psi>_def by simp
  have zz': "real z = real (unat z') + 16 * real (q mod 8)" unfolding uz z(2) using pq(2) by (metis add.assoc distrib_left of_nat_add of_nat_mult of_nat_numeral)
  have qm: "q mod 8 < 4"
  proof -
    have "z mod 2 ^ 7 = 16 * (q mod 8)" unfolding zz using q8 by (intro mod_nat_eqI) auto
    moreover have "z mod 2 ^ 7 \<le> z mod 2 ^ 9"
    proof -
      have "z mod 2 ^ 9 mod 2 ^ 7 = z mod 2 ^ 7" by (simp add: mod_mod_cancel)
      then show ?thesis by (metis mod_less_eq_dividend)
    qed
    ultimately show ?thesis using z(3) by simp
  qed
  have near: "real (unat z') - 64 < t" "t < real (unat z') + 64" using t(2,3) zz' qm by linarith+
  have psi: "\<bar>\<psi> - real p\<bar> < 4"
  proof -
    define d where "d = \<psi> - real p"
    have "t - real (unat z') = 16 * d" unfolding d_def by (rule tz)
    then have "- 4 < d" "d < 4" using near by linarith+
    then show ?thesis unfolding d_def by (simp add: abs_less_iff)
  qed
  have k63: "\<bar>k\<bar> < 2 ^ 63"
  proof -
    have "real B < 2 ^ 64" using B(4) by (metis of_nat_less_iff of_nat_numeral of_nat_power)
    then have "\<bar>\<psi> - real p\<bar> * real B < 4 * 2 ^ 64" using psi B0 by (intro mult_strict_mono) auto
    then have "\<bar>8 * real_of_int k\<bar> < 4 * 2 ^ 64" unfolding k8 by (simp add: abs_mult)
    then have "\<bar>real_of_int k\<bar> < 2 ^ 63" by simp
    then show ?thesis by (metis of_int_abs of_int_less_iff of_int_numeral of_int_power)
  qed
  note w = word_sign_test [OF rw k63]
  have kt: "k < 0 \<longleftrightarrow> t < real (unat z')" "k = 0 \<longleftrightarrow> t = real (unat z')"
  proof -
    have "real_of_int k < 0 \<longleftrightarrow> \<psi> - real p < 0" "real_of_int k = 0 \<longleftrightarrow> \<psi> - real p = 0"
      using k8 B0 by (smt (verit) mult_eq_0_iff mult_neg_pos mult_nonneg_nonneg)+
    then show "k < 0 \<longleftrightarrow> t < real (unat z')" "k = 0 \<longleftrightarrow> t = real (unat z')" using tz by auto
  qed
  show ?thesis
  proof (rule div_near [OF uzc near _ t(4)])
    have "t < real (unat z') \<Longrightarrow> 512 \<le> unat z'" using uzc t(4) by (cases c) auto
    moreover have "unat (z' OR 1) = unat z' + 1" using unat_or_of_bool [of z' True] uzc by simp
    ultimately show "unat (if rem' AND 0x8000000000000000 \<noteq> 0 then z' - push_bit 7 1 else if rem' \<noteq> 0 then z' OR 1 else z') =
        (if t < real (unat z') then unat z' - 128 else if t \<noteq> real (unat z') then unat z' + 1 else unat z')"
      unfolding w kt by (auto simp: unat_minus_small)
  qed
qed

lemma f64_div_sig_agrees:
  assumes "2 ^ 63 \<le> unat sigB" and "2 ^ 11 dvd unat sigB" and "0 < unat sigA" and "unat sigA < unat sigB"
    and "t = real (unat sigA) * 2 ^ 63 / real (unat sigB)"
  shows "agrees 9 t (unat (f64_div_sig sigA sigB))"
proof -
  define A B where "A = unat sigA" and "B = unat sigB"
  have B: "2 ^ 63 \<le> B" "B < 2 ^ 64" using assms(1) unat_lt [of sigB] by (simp_all add: B_def)
  have A: "0 < A" "A < B" using assms(3,4) by (simp_all add: A_def B_def)
  define rc where "rc = softfloat_approxRecip32_1 (ucast (drop_bit 32 sigB)) - 2"
  define R where "R = unat rc"
  have R: "R = (2 ^ 63 - 1) div (B div 2 ^ 32) - 2"
    unfolding R_def rc_def B_def by (rule unat_approxRecip) (use B B_def in simp_all)
  define S32 :: u32 where "S32 = ucast (drop_bit 32 (ucast (ucast (drop_bit 32 sigA) :: u32) * ucast rc :: u64))"
  define S where "S = (A div 2 ^ 32) * R div 2 ^ 32"
  have S32: "unat S32 = S" unfolding S32_def S_def A_def R_def
    using unat_div_digit [of sigA rc] by (subst unat_ucast_small) simp_all
  obtain b where b: "B = 8 * b" using assms(2) dvd_trans [of 8 "2 ^ 11" B] unfolding B_def by (auto simp: dvd_def)
  have "S * B \<le> A * 2 ^ 31"
  proof -
    have "real S < real A * 2 ^ 31 / real B" by (rule quotient_digit(1) [OF B R S_def A(1)])
    then have "real (S * B) < real (A * 2 ^ 31)" using B(1) by (simp add: field_simps)
    then show ?thesis by (simp only: of_nat_less_iff)
  qed
  then have "8 * (A * 2 ^ 28 - S * b) + S * B = A * 2 ^ 31" unfolding b by (simp add: diff_mult_distrib2)
  then obtain r where r: "8 * r + S * B = A * 2 ^ 31" by blast
  define q where "q = (r div 2 ^ 32) * R div 2 ^ 32 + 4"
  note de = div_estimate [OF B A R S_def r q_def assms(5) [folded A_def B_def]]
  obtain h where h: "B = 16 * h" using assms(2) dvd_trans [of 16 "2 ^ 11" B] unfolding B_def by (auto simp: dvd_def)
  define d where "d = push_bit 1 S32"
  have ud: "unat d = 2 * S" unfolding d_def using de(1) by (subst unat_push_bit) (simp_all add: S32)
  define rem where "rem = push_bit 28 (sigA - ucast d * ucast (ucast (drop_bit 32 sigB) :: u32)) - ucast d * ucast (drop_bit 4 (ucast sigB :: u32))"
  have ur: "unat rem = r"
  proof -
    have "8 * (int A * 2 ^ 28 - int (2 * S) * int h) = int (A * 2 ^ 31) - int (S * B)" unfolding h by simp
    also have "\<dots> = 8 * int r" using r by (simp add: of_nat_diff flip: of_nat_mult)
    finally have "int A * 2 ^ 28 - int (2 * S) * int h = int r" by simp
    moreover have "B div 16 = h" using h by simp
    ultimately have "rem = word_of_int (int r)"
      unfolding rem_def rem_word ud A_def [symmetric] B_def [symmetric] by (simp only:)
    then have "rem = of_nat r" by simp
    then show ?thesis using de(2) by (simp add: unat_of_nat)
  qed
  define q32 :: u32 where "q32 = ucast (drop_bit 32 (ucast (ucast (drop_bit 32 rem) :: u32) * ucast rc :: u64) + 4)"
  have uq: "unat q32 = q"
  proof -
    have "unat (drop_bit 32 (ucast (ucast (drop_bit 32 rem) :: u32) * ucast rc :: u64)) = q - 4"
      using unat_div_digit(1) [of rem rc] unfolding ur R_def [symmetric] q_def by simp
    then have "unat (drop_bit 32 (ucast (ucast (drop_bit 32 rem) :: u32) * ucast rc :: u64) + 4) = q"
      using de(4) by (subst unat_add_small) (simp_all add: q_def)
    then show ?thesis unfolding q32_def using de(4) by (subst unat_ucast_small) simp_all
  qed
  define z where "z = S * 2 ^ 32 + 16 * q"
  define sigZ where "sigZ = push_bit 32 (ucast S32 :: u64) + push_bit 4 (ucast q32)"
  have uz: "unat sigZ = z"
  proof -
    have 1: "unat (push_bit 32 (ucast S32 :: u64)) = S * 2 ^ 32" using de(1) by (subst unat_push_bit) (simp_all add: unat_ucast_up S32)
    have 2: "unat (push_bit 4 (ucast q32 :: u64)) = 16 * q" using de(4) by (subst unat_push_bit) (simp_all add: unat_ucast_up uq)
    show ?thesis unfolding sigZ_def z_def using de(1,4) by (subst unat_add_small) (simp_all add: 1 2)
  qed
  have t0: "0 < t" unfolding assms(5) A_def [symmetric] B_def [symmetric] using A by simp
  have c: "sigZ AND 0x1FF < push_bit 4 4 \<longleftrightarrow> z mod 2 ^ 9 < 64"
    using unat_and_mask [of sigZ 9] uz by (simp add: word_less_nat_alt)
  note f = f64_div_sig_def [of sigA sigB, unfolded Let_def, folded rc_def, folded S32_def, folded d_def, folded rem_def, folded q32_def, folded sigZ_def]
  show ?thesis
  proof (cases "z mod 2 ^ 9 < 64")
    case False
    then have "unat (f64_div_sig sigA sigB) = z" unfolding f c using uz by (simp only: if_False)
    then show ?thesis using div_far [of z t] de(5,6) False unfolding z_def [symmetric] by simp
  next
    case True
    have g: "f64_div_sig sigA sigB = (let q' = q32 AND NOT 7; z' = sigZ AND NOT 0x7F;
        rem' = push_bit 28 (rem - ucast (push_bit 1 q') * ucast (ucast (drop_bit 32 sigB) :: u32)) - ucast (push_bit 1 q') * ucast (drop_bit 4 (ucast sigB :: u32))
      in if rem' AND 0x8000000000000000 \<noteq> 0 then z' - push_bit 7 1 else if rem' \<noteq> 0 then z' OR 1 else z')"
      unfolding f c Let_def using True by (simp only: if_True)
    show ?thesis unfolding g Let_def
      by (rule div_correction [OF B_def h _ _ uq de(4) ur uz z_def True de(7) _ _ t0 refl refl refl])
         (use B de(5,6) z_def in simp_all)
  qed
qed

section \<open>Correct rounding of the division\<close>

lemma f64_div_correct:
  assumes "f64_finite a" and "f64_finite b" and "f64_real b \<noteq> 0"
  shows "f64_rounded st ((2 ^ 63 \<le> unat a) \<noteq> (2 ^ 63 \<le> unat b)) (f64_real a / f64_real b) (f64_div a b st)"
proof -
  define nA nB where "nA = unat a mod 2 ^ 63" and "nB = unat b mod 2 ^ 63"
  define sZ where "sZ \<longleftrightarrow> (2 ^ 63 \<le> unat a) \<noteq> (2 ^ 63 \<le> unat b)"
  define v where "v = real (fmag 52 nA) / real (fmag 52 nB) * 2 ^ 1074"
  have x: "f64_real a / f64_real b = (if sZ then - 1 else 1) * v / 2 ^ 1074"
    by (simp add: f64_real_def v_def nA_def nB_def sZ_def)
  have v0: "0 \<le> v" by (simp add: v_def)
  have nB0: "nB \<noteq> 0" using assms(3) by (auto simp: f64_real_def nB_def)
  note fe = assms(1,2) [THEN f64_finite_exp]
  have inf: "nA < fp_inf 52 2047" "nB < fp_inf 52 2047" using assms by (simp_all add: f64_finite_def nA_def nB_def)
  have z0: "expF64UI a = 0 \<and> fracF64UI a = 0 \<longleftrightarrow> nA = 0"
      "expF64UI b = 0 \<and> fracF64UI b = 0 \<longleftrightarrow> nB = 0"
    unfolding f64_nonzero_iff nA_def nB_def by simp_all
  have "fl_result 52 2047 st sZ v (unat (fst (f64_div a b st))) (snd (f64_div a b st))"
  proof (cases "nA = 0")
    case True
    have e: "f64_div a b st = (packToF64UI sZ 0 0, st)"
      using True nB0 fe unfolding f64_div_def Let_def z0 signF64UI_iff sZ_def by (auto simp only: if_False if_True refl)
    have "v = 0" using True by (auto simp: v_def)
    then show ?thesis unfolding e fst_conv snd_conv
      by (intro fl_result_exact [of 0]) (simp_all add: unat_packToF64UI)
  next
    case False
    obtain eA sA where nmA: "f64_normalize (expF64UI a) (fracF64UI a) = (eA, sA)" by fastforce
    obtain eB sB where nmB: "f64_normalize (expF64UI b) (fracF64UI b) = (eB, sB)" by fastforce
    define wA wB where "wA = sA OR 0x0010000000000000" and "wB = sB OR 0x0010000000000000"
    define gA gB where "gA = unat wA" and "gB = unat wB"
    have A: "2 ^ 52 \<le> gA" "gA < 2 ^ 53" "real (fmag 52 nA) = real gA * 2 powi (eA - 1)" "- 52 < eA" "eA < 2047"
      unfolding gA_def wA_def by (rule f64_normalize_eq [OF _ _ inf(1) nmA]; use False nA_def in simp)+
    have B: "2 ^ 52 \<le> gB" "gB < 2 ^ 53" "real (fmag 52 nB) = real gB * 2 powi (eB - 1)" "- 52 < eB" "eB < 2047"
      unfolding gB_def wB_def by (rule f64_normalize_eq [OF _ _ inf(2) nmB]; use nB0 nB_def in simp)+
    define l :: nat where "l = (if gA < gB then 11 else 10)"
    define ex where "ex = (if gA < gB then eA - eB + 0x3FE - 1 else eA - eB + 0x3FE)"
    define q where "q = f64_div_sig (push_bit l wA) (push_bit 11 wB)"
    have e: "f64_div a b st = softfloat_roundPackToF64 sZ ex q st"
      using False nB0 fe
      unfolding f64_div_def Let_def z0 nmA nmB prod.case signF64UI_iff sZ_def [symmetric] wA_def [symmetric] wB_def [symmetric]
      by (auto simp: q_def ex_def l_def gA_def gB_def word_less_nat_alt)
    have l: "gA * 2 ^ l < gB * 2 ^ 11" "gB * 2 ^ 10 \<le> gA * 2 ^ l" "gA * 2 ^ l < 2 ^ 64"
      using A(1,2) B(1,2) by (simp_all add: l_def)
    have u: "unat (push_bit l wA) = gA * 2 ^ l" "unat (push_bit 11 wB) = gB * 2 ^ 11"
      using l(3) B(2) unfolding gA_def gB_def by (intro unat_push_bit; simp)+
    define t where "t = real (gA * 2 ^ l) * 2 ^ 63 / real (gB * 2 ^ 11)"
    have ag: "agrees 9 t (unat q)" unfolding q_def
      by (rule f64_div_sig_agrees) (use l A(1) B(1) in \<open>simp_all add: u t_def\<close>)
    have "real (gB * 2 ^ 10) \<le> real (gA * 2 ^ l)" "real (gA * 2 ^ l) < real (gB * 2 ^ 11)" using l(1,2) by (simp_all only: of_nat_le_iff of_nat_less_iff)
    then have "2 ^ 62 \<le> t" "t < 2 ^ 63" unfolding t_def using B(1) by (simp_all add: field_simps)
    then have q: "2 ^ 62 \<le> unat q" "unat q < 2 ^ 63"
      using agreesD(1) [OF ag, of "2 ^ 53"] agreesD(1) [OF ag, of "2 ^ 54"] by (simp_all add: not_less [symmetric])
    have "v = t * 2 powi (ex - 10)"
      unfolding v_def A(3) B(3) t_def l_def ex_def by (auto simp: power_int_diff power_int_add field_simps)
    then show ?thesis unfolding e by (intro roundPackToF64_result [OF ag q]) (use A B in \<open>simp_all add: ex_def\<close>)
  qed
  then show ?thesis using v0
    by (intro f64_roundedI [OF _ x]) (auto simp: sZ_def)
qed

end
