(* ===== verification/F64_Sqrt.thy ===== *)
theory F64_Sqrt
  imports Approx_Sqrt F64_Special F64_Div Round_Int
begin

text \<open>
  The square root in the 64-bit format (\<open>f64_sqrt.c\<close>), correctly rounded.
\<close>

text \<open>The significand of the root, with a sticky bit where the root is not a multiple of the last place kept.\<close>

definition f64_sqrt_sig :: "bool \<Rightarrow> u64 \<Rightarrow> u64" where
  "f64_sqrt_sig oddA sigA =
     (let sig32A = ucast (drop_bit 21 sigA) :: u32;
          recipSqrt32 = softfloat_approxRecipSqrt32_1 oddA sig32A;
          sig32Z = ucast (drop_bit 32 (ucast sig32A * ucast recipSqrt32 :: u64)) :: u32;
          (sigA, sig32Z) = (if oddA then (push_bit 8 sigA, drop_bit 1 sig32Z) else (push_bit 9 sigA, sig32Z));
          rem = sigA - ucast sig32Z * ucast sig32Z;
          q = ucast (drop_bit 32 (ucast (ucast (drop_bit 2 rem) :: u32) * ucast recipSqrt32 :: u64)) :: u32;
          sigZ = (push_bit 32 (ucast sig32Z) OR push_bit 5 1) + push_bit 3 (ucast q)
      in if sigZ AND 0x1FF < 0x22 then
           let sigZ = sigZ AND NOT 0x3F;
               shiftedSigZ = drop_bit 6 sigZ;
               rem = push_bit 52 sigA - shiftedSigZ * shiftedSigZ
           in if rem AND 0x8000000000000000 \<noteq> 0 then sigZ - 1
              else if rem \<noteq> 0 then sigZ OR 1 else sigZ
         else sigZ)"

definition f64_sqrt :: "float64_t \<Rightarrow> softfloat_state \<Rightarrow> float64_t \<times> softfloat_state" where
  "f64_sqrt a st =
     (let uiA = a; signA = signF64UI uiA; expA = expF64UI uiA; sigA = fracF64UI uiA
      in if expA = 0x7FF then
           if sigA \<noteq> 0 then f64_propagateNaN uiA 0 st
           else if \<not> signA then (a, st) else f64_invalid st
         else if signA then
           if word_of_int expA OR sigA = 0 then (a, st) else f64_invalid st
         else if expA = 0 \<and> sigA = 0 then (a, st)
         else
           let (expA, sigA) = f64_normalize expA sigA;
               expZ = (expA - 0x3FF) div 2 + 0x3FE;
               oddA = odd expA;
               sigA = sigA OR 0x0010000000000000
           in softfloat_roundPackToF64 False expZ (f64_sqrt_sig oddA sigA) st)"

section \<open>The significand\<close>

text \<open>
  One Newton step on numbers: \<open>z\<close> below the root \<open>U\<close> of the significand, \<open>T\<close> the root of its upper
  half, \<open>r\<close> the approximated reciprocal, \<open>q\<close> the correction.
\<close>

lemma newton_step:
  fixes T U z r q M :: real
  assumes T: "2 ^ 30 \<le> T" "T < 2 ^ 31" and U: "T \<le> U" "U\<^sup>2 \<le> T\<^sup>2 + 2 ^ 30"
    and z: "0 \<le> z" "z < T" "T < z + 1 + 208 / 100 * (T / 2 ^ 31)\<^sup>2"
    and r: "0 \<le> r" "r < 2 ^ 62 / T" "2 ^ 62 / T - r < 208 / 100"
    and M: "M = U\<^sup>2 - z\<^sup>2" and q: "q \<le> M / 4 * r / 2 ^ 32" "(M / 4 - 1) * r / 2 ^ 32 - 1 < q"
  shows "M / 4 < 2 ^ 32" and "- 8 < 2 ^ 32 * (U - z) - 8 * q" and "2 ^ 32 * (U - z) - 8 * q < 40"
proof -
  define \<tau> d e where "\<tau> = T / 2 ^ 31" and "d = T - z" and "e = U - T"
  have \<tau>: "1 / 2 \<le> \<tau>" "\<tau> < 1" using T by (simp_all add: \<tau>_def)
  have d: "0 < d" "d < 1 + 208 / 100 * \<tau>\<^sup>2" using z by (simp_all add: d_def \<tau>_def)
  have e0: "0 \<le> e" using U by (simp add: e_def)
  have Te: "T = 2 ^ 31 * \<tau>" by (simp add: \<tau>_def)
  have "e * T \<le> 2 ^ 29"
  proof -
    have "e * (2 * T) \<le> e * (U + T)" using U e0 by (intro mult_left_mono) simp_all
    also have "\<dots> = U\<^sup>2 - T\<^sup>2" by (simp add: e_def power2_eq_square algebra_simps)
    finally show ?thesis using U by simp
  qed
  then have e\<tau>: "e * \<tau> \<le> 1 / 4" by (simp add: Te mult.commute)
  have M': "M = (d + e) * (2 * T + e - d)" by (simp add: M d_def e_def power2_eq_square algebra_simps)
  have M'': "M = 2 * T * (d + e) + e\<^sup>2 - d\<^sup>2" by (simp add: M' power2_eq_square algebra_simps)
  define R where "R = 2 ^ 62 / T"
  have T0: "0 < T" using T by simp
  have R: "R * \<tau> = 2 ^ 31" using T0 by (simp add: R_def \<tau>_def)
  have MR: "M * R / 2 ^ 31 = 2 ^ 32 * (d + e) + (e\<^sup>2 - d\<^sup>2) / \<tau>"
  proof -
    have "R = 2 ^ 31 / \<tau>" using R \<tau> by (simp add: field_simps)
    then have "M * R / 2 ^ 31 = M / \<tau>" by simp
    also have "\<dots> = 2 ^ 32 * (d + e) + (e\<^sup>2 - d\<^sup>2) / \<tau>" unfolding M'' Te using \<tau> by (simp add: field_simps)
    finally show ?thesis .
  qed
  have M0: "0 \<le> M" unfolding M' using d e0 z U by (intro mult_nonneg_nonneg) (simp_all add: d_def e_def)
  have e2: "e \<le> 1 / 2"
  proof -
    have "e * (1 / 2) \<le> e * \<tau>" using \<tau>(1) e0 by (rule mult_left_mono)
    then show ?thesis using e\<tau> by simp
  qed
  have U': "U - z = d + e" by (simp add: d_def e_def)
  show "- 8 < 2 ^ 32 * (U - z) - 8 * q"
  proof -
    have "8 * q \<le> M * r / 2 ^ 31" using q(1) by simp
    also have "\<dots> \<le> M * R / 2 ^ 31" using r(2) M0 unfolding R_def [symmetric] by (intro divide_right_mono mult_left_mono) simp_all
    finally have "8 * q \<le> 2 ^ 32 * (d + e) + (e\<^sup>2 - d\<^sup>2) / \<tau>" unfolding MR .
    moreover have "(e\<^sup>2 - d\<^sup>2) / \<tau> \<le> (1 / 2)\<^sup>2 / (1 / 2)"
    proof -
      have "(e\<^sup>2 - d\<^sup>2) / \<tau> \<le> (1 / 2)\<^sup>2 / \<tau>" 
      proof (rule divide_right_mono)
        show "e\<^sup>2 - d\<^sup>2 \<le> (1 / 2)\<^sup>2" using power_mono [OF e2 e0, of 2] zero_le_power2 [of d] by linarith
      qed (use \<tau> in simp)
      also have "\<dots> \<le> (1 / 2)\<^sup>2 / (1 / 2)" using \<tau> by (intro divide_left_mono) simp_all
      finally show ?thesis .
    qed
    moreover have "(1 / 2)\<^sup>2 / (1 / 2) \<le> (1 :: real)" by (simp add: power2_eq_square)
    ultimately show ?thesis unfolding U' by linarith
  qed
  define D where "D = 1 + 208 / 100 * \<tau>\<^sup>2"
  have Mb: "M \<le> (D + e) * (2 ^ 32 * \<tau> + 1 / 2)"
    unfolding M' using d e0 e2 z U T by (intro mult_mono) (simp_all add: D_def Te d_def e_def)
  have "8 * q > M * r / 2 ^ 31 - 8 * r / 2 ^ 32 - 8" using q(2) by (simp add: left_diff_distrib diff_divide_distrib)
  moreover have "M * R / 2 ^ 31 - M * r / 2 ^ 31 \<le> 208 / 100 * M / 2 ^ 31"
  proof -
    have "M * (R - r) \<le> M * (208 / 100)" using r(3) M0 unfolding R_def [symmetric] by (intro mult_left_mono) simp_all
    then have "M * (R - r) / 2 ^ 31 \<le> M * (208 / 100) / 2 ^ 31" by (intro divide_right_mono) simp_all
    then show ?thesis by (simp add: right_diff_distrib diff_divide_distrib mult.commute)
  qed
  ultimately have up: "2 ^ 32 * (d + e) - 8 * q < (d\<^sup>2 - e\<^sup>2) / \<tau> + 208 / 100 * M / 2 ^ 31 + 8 * r / 2 ^ 32 + 8"
    unfolding MR by (simp add: diff_divide_distrib)
  have d2: "(d\<^sup>2 - e\<^sup>2) / \<tau> \<le> D\<^sup>2 / \<tau>"
  proof (rule divide_right_mono)
    have "d\<^sup>2 \<le> D\<^sup>2" using d by (intro power_mono) (simp_all add: D_def)
    then show "d\<^sup>2 - e\<^sup>2 \<le> D\<^sup>2" using zero_le_power2 [of e] by linarith
  qed (use \<tau> in simp)
  have rR: "8 * r / 2 ^ 32 \<le> 4 / \<tau>"
  proof -
    have "R = 2 ^ 31 / \<tau>" using R \<tau> by (simp add: field_simps)
    then show ?thesis using r(2) unfolding R_def [symmetric] by simp
  qed
  have "M / 2 ^ 31 \<le> (D + e) * (2 * \<tau> + 1 / 1000)"
  proof -
    have "M / 2 ^ 31 \<le> (D + e) * (2 ^ 32 * \<tau> + 1 / 2) / 2 ^ 31" using Mb by (intro divide_right_mono) simp_all
    also have "\<dots> = (D + e) * (2 * \<tau> + 1 / 2 ^ 32)" by (simp add: add_divide_distrib algebra_simps)
    also have "\<dots> \<le> (D + e) * (2 * \<tau> + 1 / 1000)" using e0 by (intro mult_left_mono) (simp_all add: D_def)
    finally show ?thesis .
  qed
  note Mt = this
  have "M / 2 ^ 31 < 8 \<and> 2 ^ 32 * (d + e) - 8 * q < 40"
  proof (cases "4 / 5 \<le> \<tau>")
    case True
    have "\<tau>\<^sup>2 \<le> 1" using \<tau> by (simp add: power_le_one)
    then have D: "1 \<le> D" "D \<le> 308 / 100" by (simp_all add: D_def)
    have "e * (4 / 5) \<le> e * \<tau>" using True e0 by (rule mult_left_mono)
    then have e: "e \<le> 5 / 16" using e\<tau> by simp
    have m: "M / 2 ^ 31 \<le> (308 / 100 + 5 / 16) * (2 + 1 / 1000)"
      using Mt mult_mono [of "D + e" "308 / 100 + 5 / 16" "2 * \<tau> + 1 / 1000" "2 + 1 / 1000"] D e e0 \<tau> by simp
    have 1: "D\<^sup>2 / \<tau> \<le> (308 / 100)\<^sup>2 / (4 / 5)" using D True by (intro frac_le power_mono) simp_all
    have 2: "4 / \<tau> \<le> 5" using True \<tau> by (simp add: divide_simps)
    show ?thesis using up d2 rR m 1 2 by (simp add: power2_eq_square)
  next
    case False
    then have "\<tau>\<^sup>2 \<le> (4 / 5)\<^sup>2" using \<tau> by (intro power_mono) simp_all
    then have D: "1 \<le> D" "D \<le> 234 / 100" by (simp_all add: D_def power2_eq_square)
    have m: "M / 2 ^ 31 \<le> (234 / 100 + 1 / 2) * (8 / 5 + 1 / 1000)"
      using Mt mult_mono [of "D + e" "234 / 100 + 1 / 2" "2 * \<tau> + 1 / 1000" "8 / 5 + 1 / 1000"] D e2 e0 \<tau> False by simp
    have 1: "D\<^sup>2 / \<tau> \<le> (234 / 100)\<^sup>2 / (1 / 2)" using D \<tau> by (intro frac_le power_mono) simp_all
    have 2: "4 / \<tau> \<le> 8" using \<tau> by (simp add: divide_simps)
    show ?thesis using up d2 rR m 1 2 by (simp add: power2_eq_square)
  qed
  then show "M / 4 < 2 ^ 32" and "2 ^ 32 * (U - z) - 8 * q < 40" unfolding U' by simp_all
qed


lemma sqrt64_finish:
  fixes Z n :: nat and S :: real
  assumes S: "real Z - 40 < S" "S < real Z + 8" "0 < S" and dv: "8 dvd Z" and b: "b = Z div 64 * 64"
    and n: "n = (if Z mod 512 < 34 then if S < real b then b - 1 else if S \<noteq> real b then b + 1 else b else Z)"
  shows "agrees 9 S n"
proof -
  define c l where "c = Z div 512" and "l = Z mod 512"
  have cl: "Z = c * 512 + l" "l < 512" by (simp_all add: c_def l_def)
  have n': "n = (if l < 34 then if S < real b then b - 1 else if S \<noteq> real b then b + 1 else b else Z)" by (simp only: n l_def)
  have "8 dvd l" using dv unfolding l_def by (simp add: dvd_mod_iff)
  have Zr: "real Z = real c * 512 + real l" using cl(1) by simp
  show ?thesis
  proof (cases "l < 34")
    case False
    obtain m where m: "l = 8 * m" using \<open>8 dvd l\<close> by blast
    have "\<not> m \<le> 4" "\<not> 64 \<le> m" using False cl(2) unfolding m by linarith+
    then have "40 \<le> l" "l \<le> 504" unfolding m by linarith+
    moreover from this have "40 \<le> real l" "real l \<le> 504" by simp_all
    ultimately show ?thesis unfolding n' using False S Zr cl by (intro agrees_between [of c]) simp_all
  next
    case True
    have bc: "b = c * 512" unfolding b using True cl by simp
    have "real l < 34" using True by simp
    then have near: "real b - 512 < S" "S < real b + 512" using S Zr unfolding bc by simp_all
    consider "S < real b" | "real b < S" | "S = real b" by linarith
    then show ?thesis
    proof cases
      case 1
      have "c \<noteq> 0" using 1 S(3) bc by auto
      then obtain e where c: "c = Suc e" by (cases c) auto
      show ?thesis by (rule agrees_between [of e]) (use 1 near bc c n' True in simp_all)
    next
      case 2
      show ?thesis by (rule agrees_between [of c]) (use 2 near bc n' True in simp_all)
    next
      case 3
      then show ?thesis using n' True by (simp add: agrees_refl)
    qed
  qed
qed

text \<open>The estimate on words: its number before the last correction.\<close>

lemma sqrt64_estimate:
  fixes w :: u64
  assumes g: "2 ^ 52 \<le> unat w" "unat w < 2 ^ 53"
    and a: "a = (ucast (drop_bit 21 w) :: u32)" and r: "r = softfloat_approxRecipSqrt32_1 od a"
    and s: "s = (ucast (drop_bit 32 (ucast a * ucast r :: u64)) :: u32)"
    and z: "z = (if od then drop_bit 1 s else s)" and N: "N = (if od then push_bit 8 w else push_bit 9 w)"
    and q: "q = (ucast (drop_bit 32 (ucast (ucast (drop_bit 2 (N - ucast z * ucast z)) :: u32) * ucast r :: u64)) :: u32)"
    and Z: "Z = (push_bit 32 (ucast z) OR push_bit 5 1) + push_bit 3 (ucast q :: u64)"
    and S: "S = 2 ^ 32 * sqrt (real (unat N))"
  shows "real (unat Z) - 40 < S" and "S < real (unat Z) + 8" and "8 dvd unat Z" and "2 ^ 62 \<le> S" and "S < 2 ^ 63"
    and "unat Z < 2 ^ 63 + 2 ^ 36" and "unat N < 2 ^ 62"
proof -
  have uN: "unat N = unat w * (if od then 2 ^ 8 else 2 ^ 9)" unfolding N using g(2) by (auto simp: unat_push_bit)
  have ua: "unat a = unat w div 2 ^ 21" unfolding a
    using g(2) by (subst unat_ucast_small) (simp_all add: unat_drop_bit div_less_iff_less_mult)
  have ab: "2 ^ 31 \<le> unat a" unfolding ua using g(1) by (simp add: less_eq_div_iff_mult_less_eq)
  define zn where "zn = unat a * unat r div (if od then 2 ^ 33 else 2 ^ 32)"
  note est = root_estimate [OF ab zn_def [unfolded r]]
  define T where "T = exact_root od a"
  note Tb = exact_root_range(1,2) [OF ab, of od, folded T_def]
  have ub: "unat a < 2 ^ 32" "unat r < 2 ^ 32" using unat_lt [of a] unat_lt [of r] by simp_all
  have arb: "unat a * unat r < 2 ^ 32 * 2 ^ 32" using ub by (intro mult_strict_mono) simp_all
  have uar: "unat (ucast a * ucast r :: u64) = unat a * unat r" using arb by (subst unat_mult_small) (simp_all add: unat_ucast_up)
  have us: "unat s = unat a * unat r div 2 ^ 32" unfolding s
    using arb by (subst unat_ucast_small) (simp_all add: unat_drop_bit uar div_less_iff_less_mult)
  have uz: "unat z = zn" unfolding z zn_def by (cases od) (simp_all add: unat_drop_bit us div_mult2_eq [symmetric])
  define U where "U = sqrt (real (unat N))"
  have N0: "0 \<le> real (unat N)" by (rule of_nat_0_le_iff)
  have U2: "U\<^sup>2 = real (unat N)" unfolding U_def using N0 by (rule real_sqrt_pow2)
  have T2: "T\<^sup>2 = real (unat a * (if od then 2 ^ 29 else 2 ^ 30))"
    unfolding T_def exact_root_def by (subst real_sqrt_pow2) (intro mult_nonneg_nonneg of_nat_0_le_iff, simp_all)
  have wd: "unat w = unat a * 2 ^ 21 + unat w mod 2 ^ 21" "unat w mod 2 ^ 21 < 2 ^ 21" unfolding ua by simp_all
  have TN: "unat a * (if od then 2 ^ 29 else 2 ^ 30) \<le> unat N" "unat N \<le> unat a * (if od then 2 ^ 29 else 2 ^ 30) + 2 ^ 30"
    unfolding uN using wd by (cases od; simp)+
  have TU: "T\<^sup>2 \<le> U\<^sup>2" "U\<^sup>2 \<le> T\<^sup>2 + 2 ^ 30"
  proof -
    have "real (unat N) \<le> real (unat a * (if od then 2 ^ 29 else 2 ^ 30) + 2 ^ 30)" using TN(2) by (simp only: of_nat_le_iff)
    then show "U\<^sup>2 \<le> T\<^sup>2 + 2 ^ 30" unfolding U2 T2 by simp
    show "T\<^sup>2 \<le> U\<^sup>2" unfolding U2 T2 using TN(1) by (simp only: of_nat_le_iff)
  qed
  have T0: "0 < T" using Tb by simp
  have U0: "0 \<le> U" unfolding U_def using N0 by simp
  have TUle: "T \<le> U" using TU(1) U0 by (rule power2_le_imp_le)
  have zT: "real zn < T" using est(1) by (simp add: T_def)
  have near: "T < real zn + 1 + 208 / 100 * (T / 2 ^ 31)\<^sup>2"
  proof -
    have "(T / 2 ^ 31)\<^sup>2 = real (unat a) / (if od then 2 ^ 33 else 2 ^ 32)"
      unfolding power_divide T2 by simp
    then show ?thesis using est(4) by (simp only: T_def)
  qed
  note bnd = approxRecipSqrt32_1_bounds [OF ab, of od, folded r T_def]
  have r0: "0 \<le> real (unat r)" by (rule of_nat_0_le_iff)
  define m where "m = unat N - zn * zn"
  have zz: "zn * zn \<le> unat N"
  proof -
    have "(real zn)\<^sup>2 \<le> U\<^sup>2" using zT TUle by (intro power_mono) simp_all
    then have "real (zn * zn) \<le> real (unat N)" unfolding U2 by (simp add: power2_eq_square)
    then show ?thesis by (simp only: of_nat_le_iff)
  qed
  have mr: "real m = U\<^sup>2 - (real zn)\<^sup>2" unfolding m_def U2 using zz by (simp add: of_nat_diff power2_eq_square)
  define qn where "qn = m div 4 * unat r div 2 ^ 32"
  have p: "(0 :: nat) < 4" "(0 :: nat) < 2 ^ 32" by simp_all
  have "real (2 ^ 32) = (2 ^ 32 :: real)" "real 4 = 4" by simp_all
  note d = nat_div_real [OF p(1), of m, unfolded this] nat_div_real [OF p(2), of "m div 4 * unat r", unfolded this, folded qn_def]
  have q1: "real qn \<le> real m / 4 * real (unat r) / 2 ^ 32"
  proof -
    have "real (m div 4 * unat r) \<le> real m / 4 * real (unat r)" unfolding of_nat_mult using d(2) r0 by (intro mult_right_mono) simp_all
    then have "real (m div 4 * unat r) / 2 ^ 32 \<le> real m / 4 * real (unat r) / 2 ^ 32" by (intro divide_right_mono) simp_all
    then show ?thesis using d(4) by linarith
  qed
  have q2: "(real m / 4 - 1) * real (unat r) / 2 ^ 32 - 1 < real qn"
  proof -
    have "(real m / 4 - 1) * real (unat r) \<le> real (m div 4 * unat r)" unfolding of_nat_mult using d(1) r0 by (intro mult_right_mono) simp_all
    then have "(real m / 4 - 1) * real (unat r) / 2 ^ 32 \<le> real (m div 4 * unat r) / 2 ^ 32" by (intro divide_right_mono) simp_all
    then show ?thesis using d(3) by linarith
  qed
  have bnd3: "2 ^ 62 / T - real (unat r) < 208 / 100" using bnd(3) by simp
  note nw = newton_step [OF Tb TUle TU(2) of_nat_0_le_iff zT near r0 bnd(2) bnd3 mr q1 q2]
  have m4: "m div 4 < 2 ^ 32"
  proof -
    have "real (m div 4) < real (2 ^ 32)" using nw(1) d(2) by simp
    then show ?thesis by (simp only: of_nat_less_iff)
  qed
  have zb: "zn < 2 ^ 31"
  proof -
    have "real zn < real (2 ^ 31)" using zT Tb by simp
    then show ?thesis by (simp only: of_nat_less_iff)
  qed
  have zz2: "zn * zn < 2 ^ 31 * 2 ^ 31" using zb by (intro mult_strict_mono) simp_all
  have um: "unat (N - ucast z * ucast z) = m"
  proof -
    have "unat (ucast z * ucast z :: u64) = zn * zn" using zz2 by (subst unat_mult_small) (simp_all add: unat_ucast_up uz)
    then show ?thesis using zz by (subst unat_minus_small) (simp_all add: m_def)
  qed
  have mrb: "m div 4 * unat r < 2 ^ 32 * 2 ^ 32" using m4 ub by (intro mult_strict_mono) simp_all
  have umr: "unat (ucast (ucast (drop_bit 2 (N - ucast z * ucast z)) :: u32) * ucast r :: u64) = m div 4 * unat r"
    using mrb m4 by (subst unat_mult_small) (simp_all add: unat_ucast_up unat_ucast_small unat_drop_bit um)
  have qb: "qn < 2 ^ 32" using mrb by (simp add: qn_def div_less_iff_less_mult)
  have uq: "unat q = qn" unfolding q using qb by (subst unat_ucast_small) (simp_all add: unat_drop_bit umr qn_def)
  have uZ: "unat Z = zn * 2 ^ 32 + 32 + 8 * qn"
  proof -
    define h where "h = (push_bit 32 (ucast z) :: u64)"
    have h: "unat h = zn * 2 ^ 32" unfolding h_def using zb by (subst unat_push_bit) (simp_all add: unat_ucast_up uz)
    have "unat (push_bit 5 1 OR h) = unat (push_bit 5 1 :: u64) + unat h" by (rule unat_or_disjoint [of _ 6]) (simp_all add: h)
    then have o: "unat (h OR push_bit 5 1) = zn * 2 ^ 32 + 32" by (simp add: h or.commute)
    have p: "unat (push_bit 3 (ucast q) :: u64) = 8 * qn" using qb by (subst unat_push_bit) (simp_all add: unat_ucast_up uq)
    show ?thesis unfolding Z h_def [symmetric] using zb qb by (subst unat_add_small) (simp_all only: o p, simp_all)
  qed
  have Zr: "real (unat Z) = real zn * 2 ^ 32 + 32 + 8 * real qn" unfolding uZ by simp
  have SU: "S = 2 ^ 32 * U" by (simp add: S U_def)
  show "real (unat Z) - 40 < S" "S < real (unat Z) + 8" using nw(2,3) unfolding Zr SU by simp_all
  show "8 dvd unat Z" unfolding uZ by (intro dvd_add dvd_mult dvd_triv_left) simp_all
  show "unat Z < 2 ^ 63 + 2 ^ 36" unfolding uZ using zb qb by simp
  show Nb: "unat N < 2 ^ 62" unfolding uN using g(2) by (cases od) simp_all
  show "2 ^ 62 \<le> S" using TUle Tb unfolding SU by simp
  have "U < 2 ^ 31"
  proof (rule power2_less_imp_less)
    have "real (unat N) < real (2 ^ 62)" using Nb by (simp only: of_nat_less_iff)
    then show "U\<^sup>2 < (2 ^ 31)\<^sup>2" unfolding U2 by simp
  qed simp
  then show "S < 2 ^ 63" unfolding SU by simp
qed


lemma f64_sqrt_sig_agrees:
  assumes g: "2 ^ 52 \<le> unat w" "unat w < 2 ^ 53"
  shows "agrees 9 (2 ^ 32 * sqrt (real (unat w * (if od then 2 ^ 8 else 2 ^ 9)))) (unat (f64_sqrt_sig od w))"
    and "2 ^ 62 \<le> unat (f64_sqrt_sig od w)" and "unat (f64_sqrt_sig od w) < 2 ^ 63"
proof -
  define a where "a = (ucast (drop_bit 21 w) :: u32)"
  define r where "r = softfloat_approxRecipSqrt32_1 od a"
  define s where "s = (ucast (drop_bit 32 (ucast a * ucast r :: u64)) :: u32)"
  define z where "z = (if od then drop_bit 1 s else s)"
  define N where "N = (if od then push_bit 8 w else push_bit 9 w)"
  define q where "q = (ucast (drop_bit 32 (ucast (ucast (drop_bit 2 (N - ucast z * ucast z)) :: u32) * ucast r :: u64)) :: u32)"
  define Z where "Z = (push_bit 32 (ucast z) OR push_bit 5 1) + push_bit 3 (ucast q :: u64)"
  define S where "S = 2 ^ 32 * sqrt (real (unat N))"
  note est = sqrt64_estimate [OF g a_def r_def s_def z_def N_def q_def Z_def S_def]
  define B where "B = Z AND NOT 0x3F"
  define R where "R = push_bit 52 N - drop_bit 6 B * drop_bit 6 B"
  have "(if od then (push_bit 8 w, drop_bit 1 s) else (push_bit 9 w, s)) = (N, z)" by (simp add: N_def z_def)
  then have sig: "f64_sqrt_sig od w = (if Z AND 0x1FF < 0x22 then if R AND 0x8000000000000000 \<noteq> 0 then B - 1 else if R \<noteq> 0 then B OR 1 else B else Z)"
    unfolding f64_sqrt_sig_def Let_def a_def [symmetric] r_def [symmetric] s_def [symmetric]
    by (simp only: prod.case q_def [symmetric] Z_def [symmetric] B_def [symmetric] R_def [symmetric])
  have uN: "unat N = unat w * (if od then 2 ^ 8 else 2 ^ 9)" unfolding N_def using g(2) by (auto simp: unat_push_bit)
  have S0: "0 < S" using est(4) by simp
  have S2: "S\<^sup>2 = real (unat N * 2 ^ 64)"
  proof -
    have "(sqrt (real (unat N)))\<^sup>2 = real (unat N)" by (rule real_sqrt_pow2) (rule of_nat_0_le_iff)
    then show ?thesis by (simp add: S_def power_mult_distrib)
  qed
  define b j where "b = unat Z div 64 * 64" and "j = unat Z div 64"
  define n where "n = (if unat Z mod 512 < 34 then if S < real b then b - 1 else if S \<noteq> real b then b + 1 else b else unat Z)"
  note fin = sqrt64_finish [OF est(1,2) S0 est(3) b_def n_def]
  have small: "Z AND 0x1FF < 0x22 \<longleftrightarrow> unat Z mod 512 < 34"
    using unat_and_mask [of Z 9] by (simp add: word_less_nat_alt)
  have uB: "unat B = b" unfolding B_def b_def using unat_and_not_low [of Z 6] by simp
  have b64: "b = 64 * j" by (simp add: b_def j_def)
  have "unat (f64_sqrt_sig od w) = n"
  proof (cases "unat Z mod 512 < 34")
    case False
    then show ?thesis unfolding sig small n_def by (simp only: if_False)
  next
    case True
    have uj: "unat (drop_bit 6 B) = j" by (simp add: unat_drop_bit uB b64)
    define k where "k = int (unat N) * 2 ^ 52 - int j * int j"
    have Rk: "R = word_of_int k"
    proof -
      have "push_bit 52 N = word_of_int (int (unat N) * 2 ^ 52)" by (simp add: push_bit_eq_mult)
      moreover have "drop_bit 6 B = word_of_int (int j)" unfolding uj [symmetric] by simp
      ultimately show ?thesis unfolding R_def k_def by simp
    qed
    have br: "real b = 64 * real j" by (simp add: b64)
    have k12: "real_of_int k * 2 ^ 12 = (S - real b) * (S + real b)"
    proof -
      have "(S - real b) * (S + real b) = S\<^sup>2 - (real b)\<^sup>2" by (simp add: power2_eq_square algebra_simps)
      then show ?thesis unfolding S2 br k_def by (simp add: power2_eq_square algebra_simps)
    qed
    have "unat Z mod 512 mod 64 = unat Z mod 64" by (rule mod_mod_cancel) simp
    then have "unat Z mod 64 < 34" using True mod_less_eq_dividend [of "unat Z mod 512" 64] by simp
    then have "b \<le> unat Z" "unat Z < b + 34" using div_mult_mod_eq [of "unat Z" 64] unfolding b_def by linarith+
    then have "real b \<le> real (unat Z)" "real (unat Z) < real (b + 34)" by (simp_all only: of_nat_le_iff of_nat_less_iff)
    then have near: "\<bar>S - real b\<bar> \<le> 42" "real b \<le> S + 42" using est(1,2) by auto
    have kb: "\<bar>k\<bar> < 2 ^ 63"
    proof -
      have "\<bar>real_of_int k * 2 ^ 12\<bar> = \<bar>S - real b\<bar> * (S + real b)" unfolding k12 abs_mult using S0 by simp
      also have "\<dots> \<le> 42 * (2 ^ 63 + 2 ^ 63 + 42)" using near est(5) S0 by (intro mult_mono) simp_all
      finally have "\<bar>real_of_int k\<bar> < real_of_int (2 ^ 63)" by (simp add: abs_mult)
      then show ?thesis by (simp only: of_int_less_iff flip: of_int_abs)
    qed
    have Sb: "0 < S + real b" using S0 by simp
    have "k < 0 \<longleftrightarrow> real_of_int k * 2 ^ 12 < 0" "k = 0 \<longleftrightarrow> real_of_int k * 2 ^ 12 = 0" by (simp_all add: mult_less_0_iff)
    then have "k < 0 \<longleftrightarrow> S < real b" "k = 0 \<longleftrightarrow> S = real b"
      unfolding k12 using Sb by (auto simp: mult_less_0_iff)
    then have sgn: "R AND 0x8000000000000000 \<noteq> 0 \<longleftrightarrow> S < real b" "R \<noteq> 0 \<longleftrightarrow> S \<noteq> real b"
      using word_sign_test [OF Rk kb] by simp_all
    have s: "unat (f64_sqrt_sig od w) = unat (if S < real b then B - 1 else if S \<noteq> real b then B OR 1 else B)"
      unfolding sig small sgn using True by (simp only: if_True)
    have "even b" by (simp add: b64)
    then have "unat (B OR 1) = b + 1" using unat_or_of_bool [of B True] uB by simp
    moreover have "unat (B - 1) = b - 1" if "S < real b"
    proof -
      have "0 < b" using that S0 by (cases b) simp_all
      then show ?thesis using uB by (subst unat_minus_small) simp_all
    qed
    ultimately show ?thesis using True uB unfolding s n_def by auto
  qed
  then have ag: "agrees 9 S (unat (f64_sqrt_sig od w))" using fin by simp
  then show "agrees 9 (2 ^ 32 * sqrt (real (unat w * (if od then 2 ^ 8 else 2 ^ 9)))) (unat (f64_sqrt_sig od w))"
    unfolding S_def uN .
  show "2 ^ 62 \<le> unat (f64_sqrt_sig od w)" "unat (f64_sqrt_sig od w) < 2 ^ 63"
    using ag [unfolded agrees_def, rule_format, of "2 ^ 53"] ag [unfolded agrees_def, rule_format, of "2 ^ 54"] est(4,5) by auto
qed

section \<open>The operation\<close>

lemma f64_sqrt_finite:
  assumes "f64_finite a" and "\<not> f64_negative a" and "f64_real a \<noteq> 0"
    and "f64_normalize (expF64UI a) (fracF64UI a) = (e, s)"
  shows "f64_sqrt a st = softfloat_roundPackToF64 False ((e - 0x3FF) div 2 + 0x3FE) (f64_sqrt_sig (odd e) (s OR 0x0010000000000000)) st"
proof -
  have z: "\<not> (expF64UI a = 0 \<and> fracF64UI a = 0)" using assms(3) f64_zero_iff_fields by blast
  show ?thesis
    using f64_finite_exp [OF assms(1)] assms(2) z
    unfolding f64_sqrt_def Let_def assms(4) prod.case signF64UI_iff f64_negative_def [symmetric] by (simp only: if_False)
qed

theorem f64_sqrt_correct:
  assumes fin: "f64_finite a" and pos: "0 \<le> f64_real a"
  shows "f64_rounded st (f64_negative a) (sqrt (f64_real a)) (f64_sqrt a st)"
proof (cases "f64_real a = 0")
  case True
  have e: "f64_sqrt a st = (a, st)"
    using f64_finite_exp [OF fin] f64_magBits_zero [of a] f64_zero_iff_fields [of a] True by (simp add: f64_sqrt_def Let_def)
  have "unat a mod 2 ^ 63 = 0" using True by (simp add: f64_real_def split: if_splits)
  then have "unat a = of_bool (f64_negative a) * 2 ^ 63 + 0"
    using unat_sign_indexF64 [of a] by (simp add: f64_negative_def)
  then have "fl_result 52 2047 st (f64_negative a) 0 (unat (fst (f64_sqrt a st))) (snd (f64_sqrt a st))"
    unfolding e fst_conv snd_conv by (intro fl_result_exact [of 0]) simp_all
  then show ?thesis using True by (simp add: f64_rounded_def)
next
  case False
  define n where "n = unat a mod 2 ^ 63"
  have np: "\<not> f64_negative a"
  proof
    assume "f64_negative a"
    then have "f64_real a \<le> 0" by (simp add: f64_real_def f64_negative_def divide_nonpos_pos)
    then show False using False pos by simp
  qed
  have x: "f64_real a = real (fmag 52 n) / 2 ^ 1074" using np by (simp add: f64_real_def f64_negative_def n_def)
  have n0: "n \<noteq> 0" using False x by auto
  obtain e s where nm: "f64_normalize (expF64UI a) (fracF64UI a) = (e, s)" by fastforce
  have inf: "n < fp_inf 52 2047" using fin by (simp add: f64_finite_def n_def)
  define w where "w = s OR 0x0010000000000000"
  have A: "2 ^ 52 \<le> unat w" "unat w < 2 ^ 53" "real (fmag 52 n) = real (unat w) * 2 powi (e - 1)" "- 52 < e" "e < 2047"
    unfolding w_def by (rule f64_normalize_eq [OF _ _ inf nm]; use n0 n_def in simp)+
  define T where "T = 2 ^ 32 * sqrt (real (unat w * (if odd e then 2 ^ 8 else 2 ^ 9)))"
  define z where "z = f64_sqrt_sig (odd e) w"
  note sig = f64_sqrt_sig_agrees [OF A(1,2), of "odd e", folded T_def z_def]
  have T0: "0 \<le> T" unfolding T_def by (intro mult_nonneg_nonneg real_sqrt_ge_zero of_nat_0_le_iff) simp
  define v where "v = sqrt (f64_real a) * 2 ^ 1074"
  have v0: "0 < v" using False pos by (simp add: v_def)
  define ex where "ex = (e - 0x3FF) div 2 + 0x3FE"
  have v: "v = T * 2 powi (ex - 10)"
  proof (rule power2_eq_imp_eq)
    obtain k where k: "e = 2 * k \<or> e = 2 * k + 1" by (metis oddE evenE)
    have sq: "(2 powi m)\<^sup>2 = (2 powi (2 * m) :: real)" for m by (simp add: power2_eq_square flip: power_int_add mult_2)
    have Tsq: "T\<^sup>2 = real (unat w) * (if odd e then 2 ^ 72 else 2 ^ 73)"
      unfolding T_def power_mult_distrib by (subst real_sqrt_pow2) (rule of_nat_0_le_iff, simp)
    have "v\<^sup>2 = real (unat w) * 2 powi (e - 1) * 2 ^ 1074" using pos by (simp add: v_def power_mult_distrib x A(3))
    also have "\<dots> = T\<^sup>2 * 2 powi (2 * (ex - 10))"
    proof -
      have "e = 2 * k \<and> ex = k + 510 \<or> e = 2 * k + 1 \<and> ex = k + 511" using k unfolding ex_def by presburger
      then show ?thesis unfolding Tsq by (auto simp: power_int_add power_int_diff)
    qed
    finally show "v\<^sup>2 = (T * 2 powi (ex - 10))\<^sup>2" by (simp add: power_mult_distrib sq)
  qed (use v0 T0 in simp_all)
  have "fl_result 52 2047 st False v (unat (fst (f64_sqrt a st))) (snd (f64_sqrt a st))"
    unfolding f64_sqrt_finite [OF fin np False nm] w_def [symmetric] z_def [symmetric] ex_def [symmetric]
    by (rule roundPackToF64_result [OF sig _ _ v]) (use A(4,5) in \<open>simp_all add: ex_def\<close>)
  then show ?thesis using v0
    by (intro f64_roundedI [of st False v _ _ False]) (auto simp: v_def)
qed

theorem f64_sqrt_special:
  shows "f64_nan a \<Longrightarrow> f64_sqrt a st = f64_nan_result a 0 st"
    and "f64_inf a \<Longrightarrow> \<not> f64_negative a \<Longrightarrow> f64_sqrt a st = (a, st)"
    and "\<not> f64_nan a \<Longrightarrow> f64_negative a \<Longrightarrow> f64_real a \<noteq> 0 \<Longrightarrow> f64_sqrt a st = f64_invalid st"
proof -
  show "f64_sqrt a st = f64_nan_result a 0 st" if "f64_nan a"
    using that f64_exp_max [of a] f64_frac_zero [of a] f64_inf_not_nan [of a] f64_propagate [of a 0 st] by (auto simp: f64_sqrt_def Let_def)
  show "f64_sqrt a st = (a, st)" if "f64_inf a" "\<not> f64_negative a"
    using that f64_exp_max [of a] f64_frac_zero [of a] by (auto simp: f64_sqrt_def Let_def f64_negative_def)
  show "f64_sqrt a st = f64_invalid st" if "\<not> f64_nan a" "f64_negative a" "f64_real a \<noteq> 0"
    using that f64_exp_max [of a] f64_frac_zero [of a] f64_magBits_zero [of a] by (auto simp: f64_sqrt_def Let_def f64_negative_def)
qed

end
