(* ===== verification/Softfloat_Api.thy ===== *)
theory Softfloat_Api
  imports WL_Prelude F32_RoundToInt F64_RoundToInt F32_Compare F64_Compare Float_Convert Int_To_Float F32_Sqrt F64_Sqrt
begin

text \<open>
  The floating-point intrinsics of the contract interface (\<open>softfloat_api\<close> in
  \<open>wasm_interface.cpp\<close>, the predicates of \<open>softfloat.hpp\<close>): every floating-point instruction of
  a contract is replaced by a call of one of these functions, so that a contract computes the same
  bits on every machine. A C++ \<open>float\<close> or \<open>double\<close> is its bit pattern (\<open>to_softfloat32\<close> and
  \<open>from_softfloat32\<close> reinterpret it); the SoftFloat state is threaded through the calls.
\<close>

section \<open>Predicates of \<open>softfloat.hpp\<close>\<close>

definition f32_sign_bit :: "float32_t \<Rightarrow> bool" where "f32_sign_bit f \<longleftrightarrow> drop_bit 31 f \<noteq> 0"

definition f64_sign_bit :: "float64_t \<Rightarrow> bool" where "f64_sign_bit f \<longleftrightarrow> drop_bit 63 f \<noteq> 0"

definition f32_is_nan :: "float32_t \<Rightarrow> bool" where "f32_is_nan f \<longleftrightarrow> f AND 0x7FFFFFFF > 0x7F800000"

definition f64_is_nan :: "float64_t \<Rightarrow> bool" where "f64_is_nan f \<longleftrightarrow> f AND 0x7FFFFFFFFFFFFFFF > 0x7FF0000000000000"

abbreviation (input) inv_float_eps :: float32_t where "inv_float_eps \<equiv> 0x4B000000"
abbreviation (input) inv_double_eps :: float64_t where "inv_double_eps \<equiv> 0x4330000000000000"

type_synonym 'a api = "softfloat_state \<Rightarrow> 'a \<times> softfloat_state"

section \<open>32-bit binary and unary operations\<close>

definition eosio_f32_add :: "float32_t \<Rightarrow> float32_t \<Rightarrow> float32_t api" where
  "eosio_f32_add a b st = f32_add a b st"

definition eosio_f32_sub :: "float32_t \<Rightarrow> float32_t \<Rightarrow> float32_t api" where
  "eosio_f32_sub a b st = f32_sub a b st"

definition eosio_f32_div :: "float32_t \<Rightarrow> float32_t \<Rightarrow> float32_t api" where
  "eosio_f32_div a b st = f32_div a b st"

definition eosio_f32_mul :: "float32_t \<Rightarrow> float32_t \<Rightarrow> float32_t api" where
  "eosio_f32_mul a b st = f32_mul a b st"

definition eosio_f32_min :: "float32_t \<Rightarrow> float32_t \<Rightarrow> float32_t api" where
  "eosio_f32_min af bf st =
     (if f32_is_nan af then (af, st)
      else if f32_is_nan bf then (bf, st)
      else if f32_sign_bit af \<noteq> f32_sign_bit bf then (if f32_sign_bit af then af else bf, st)
      else let (lt, st) = f32_lt af bf st in (if lt then af else bf, st))"

definition eosio_f32_max :: "float32_t \<Rightarrow> float32_t \<Rightarrow> float32_t api" where
  "eosio_f32_max af bf st =
     (if f32_is_nan af then (af, st)
      else if f32_is_nan bf then (bf, st)
      else if f32_sign_bit af \<noteq> f32_sign_bit bf then (if f32_sign_bit af then bf else af, st)
      else let (lt, st) = f32_lt af bf st in (if lt then bf else af, st))"

definition eosio_f32_copysign :: "float32_t \<Rightarrow> float32_t \<Rightarrow> float32_t" where
  "eosio_f32_copysign af bf =
     (let sign_of_b = drop_bit 31 bf;
          a = af AND NOT (push_bit 31 1)
      in a OR push_bit 31 sign_of_b)"

definition eosio_f32_abs :: "float32_t \<Rightarrow> float32_t" where
  "eosio_f32_abs af = af AND NOT (push_bit 31 1)"

definition eosio_f32_neg :: "float32_t \<Rightarrow> float32_t" where
  "eosio_f32_neg af =
     (let sign = drop_bit 31 af;
          a = af AND NOT (push_bit 31 1)
      in a OR push_bit 31 (of_bool (sign = 0)))"

definition eosio_f32_sqrt :: "float32_t \<Rightarrow> float32_t api" where
  "eosio_f32_sqrt a st = f32_sqrt a st"

section \<open>32-bit rounding to an integral value\<close>

text \<open>The exponents are C \<open>int\<close>s between \<open>- 127\<close> and \<open>137\<close>, shift counts between 0 and 32.\<close>

definition eosio_f32_ceil :: "float32_t \<Rightarrow> float32_t" where
  "eosio_f32_ceil af =
     (let e = uint (drop_bit 23 af AND 0xFF) - 0x7F
      in if 23 \<le> e then af
         else if 0 \<le> e then
           let m = drop_bit (nat e) 0x007FFFFF
           in if af AND m = 0 then af
              else let a = (if drop_bit 31 af = 0 then af + m else af) in a AND NOT m
         else if drop_bit 31 af \<noteq> 0 then 0x80000000
         else if push_bit 1 af \<noteq> 0 then 0x3F800000 else af)"

definition eosio_f32_floor :: "float32_t \<Rightarrow> float32_t" where
  "eosio_f32_floor af =
     (let e = uint (drop_bit 23 af AND 0xFF) - 0x7F
      in if 23 \<le> e then af
         else if 0 \<le> e then
           let m = drop_bit (nat e) 0x007FFFFF
           in if af AND m = 0 then af
              else let a = (if drop_bit 31 af \<noteq> 0 then af + m else af) in a AND NOT m
         else if drop_bit 31 af = 0 then 0
         else if push_bit 1 af \<noteq> 0 then 0xBF800000 else af)"

definition eosio_f32_trunc :: "float32_t \<Rightarrow> float32_t" where
  "eosio_f32_trunc af =
     (let e = uint (drop_bit 23 af AND 0xFF) - 0x7F + 9
      in if 23 + 9 \<le> e then af
         else let e = (if e < 9 then 1 else e);
                  m = drop_bit (nat e) (- 1)
              in if af AND m = 0 then af else af AND NOT m)"

definition eosio_f32_nearest :: "float32_t \<Rightarrow> float32_t api" where
  "eosio_f32_nearest af st =
     (let e = uint (drop_bit 23 af AND 0xFF);
          s = (drop_bit 31 af \<noteq> 0)
      in if 0x7F + 23 \<le> e then (af, st)
         else let (y, st) = (if s then let (d, st) = f32_sub af inv_float_eps st in f32_add d inv_float_eps st
                             else let (d, st) = f32_add af inv_float_eps st in f32_sub d inv_float_eps st);
                  (zero, st) = f32_eq y 0 st
              in (if zero then if s then 0x80000000 else 0 else y, st))"

section \<open>32-bit comparisons\<close>

definition eosio_f32_eq :: "float32_t \<Rightarrow> float32_t \<Rightarrow> bool api" where
  "eosio_f32_eq a b st = f32_eq a b st"

definition eosio_f32_ne :: "float32_t \<Rightarrow> float32_t \<Rightarrow> bool api" where
  "eosio_f32_ne a b st = apfst Not (f32_eq a b st)"

definition eosio_f32_lt :: "float32_t \<Rightarrow> float32_t \<Rightarrow> bool api" where
  "eosio_f32_lt a b st = f32_lt a b st"

definition eosio_f32_le :: "float32_t \<Rightarrow> float32_t \<Rightarrow> bool api" where
  "eosio_f32_le a b st = f32_le a b st"

definition eosio_f32_gt :: "float32_t \<Rightarrow> float32_t \<Rightarrow> bool api" where
  "eosio_f32_gt af bf st =
     (if f32_is_nan af then (False, st)
      else if f32_is_nan bf then (False, st)
      else apfst Not (f32_le af bf st))"

definition eosio_f32_ge :: "float32_t \<Rightarrow> float32_t \<Rightarrow> bool api" where
  "eosio_f32_ge af bf st =
     (if f32_is_nan af then (False, st)
      else if f32_is_nan bf then (False, st)
      else apfst Not (f32_lt af bf st))"

section \<open>64-bit binary and unary operations\<close>

definition eosio_f64_add :: "float64_t \<Rightarrow> float64_t \<Rightarrow> float64_t api" where
  "eosio_f64_add a b st = f64_add a b st"

definition eosio_f64_sub :: "float64_t \<Rightarrow> float64_t \<Rightarrow> float64_t api" where
  "eosio_f64_sub a b st = f64_sub a b st"

definition eosio_f64_div :: "float64_t \<Rightarrow> float64_t \<Rightarrow> float64_t api" where
  "eosio_f64_div a b st = f64_div a b st"

definition eosio_f64_mul :: "float64_t \<Rightarrow> float64_t \<Rightarrow> float64_t api" where
  "eosio_f64_mul a b st = f64_mul a b st"

definition eosio_f64_min :: "float64_t \<Rightarrow> float64_t \<Rightarrow> float64_t api" where
  "eosio_f64_min af bf st =
     (if f64_is_nan af then (af, st)
      else if f64_is_nan bf then (bf, st)
      else if f64_sign_bit af \<noteq> f64_sign_bit bf then (if f64_sign_bit af then af else bf, st)
      else let (lt, st) = f64_lt af bf st in (if lt then af else bf, st))"

definition eosio_f64_max :: "float64_t \<Rightarrow> float64_t \<Rightarrow> float64_t api" where
  "eosio_f64_max af bf st =
     (if f64_is_nan af then (af, st)
      else if f64_is_nan bf then (bf, st)
      else if f64_sign_bit af \<noteq> f64_sign_bit bf then (if f64_sign_bit af then bf else af, st)
      else let (lt, st) = f64_lt af bf st in (if lt then bf else af, st))"

definition eosio_f64_copysign :: "float64_t \<Rightarrow> float64_t \<Rightarrow> float64_t" where
  "eosio_f64_copysign af bf =
     (let sign_of_b = drop_bit 63 bf;
          a = af AND NOT (push_bit 63 1)
      in a OR push_bit 63 sign_of_b)"

definition eosio_f64_abs :: "float64_t \<Rightarrow> float64_t" where
  "eosio_f64_abs af = af AND NOT (push_bit 63 1)"

definition eosio_f64_neg :: "float64_t \<Rightarrow> float64_t" where
  "eosio_f64_neg af =
     (let sign = drop_bit 63 af;
          a = af AND NOT (push_bit 63 1)
      in a OR push_bit 63 (of_bool (sign = 0)))"

definition eosio_f64_sqrt :: "float64_t \<Rightarrow> float64_t api" where
  "eosio_f64_sqrt a st = f64_sqrt a st"

section \<open>64-bit rounding to an integral value\<close>

text \<open>
  The signed distance from the number to a neighbouring integer, which \<open>_eosio_f64_ceil\<close> and
  \<open>_eosio_f64_floor\<close> compute by adding and subtracting \<open>2 ^ 52\<close>.
\<close>

definition f64_to_neighbour :: "float64_t \<Rightarrow> float64_t api" where
  "f64_to_neighbour a st =
     (if drop_bit 63 a \<noteq> 0
      then let (d, st) = f64_sub a inv_double_eps st; (i, st) = f64_add d inv_double_eps st in f64_sub i a st
      else let (d, st) = f64_add a inv_double_eps st; (i, st) = f64_sub d inv_double_eps st in f64_sub i a st)"

definition eosio_f64_ceil :: "float64_t \<Rightarrow> float64_t api" where
  "eosio_f64_ceil af st =
     (let e = uint (drop_bit 52 af AND 0x7FF)
      in if 0x3FF + 52 \<le> e then (af, st)
         else let (zero, st) = f64_eq af 0 st
              in if zero then (af, st)
                 else let (y, st) = f64_to_neighbour af st
                      in if e \<le> 0x3FF - 1 then (if drop_bit 63 af \<noteq> 0 then 0x8000000000000000 else 0x3FF0000000000000, st)
                         else let (below, st) = f64_lt y 0 st
                              in if below then let (i, st) = f64_add af y st in f64_add i 0x3FF0000000000000 st
                                 else f64_add af y st)"

definition eosio_f64_floor :: "float64_t \<Rightarrow> float64_t api" where
  "eosio_f64_floor af st =
     (let e = uint (drop_bit 52 af AND 0x7FF)
      in if af = 0x8000000000000000 then (af, st)
         else if 0x3FF + 52 \<le> e \<or> af = 0 then (af, st)
         else let (y, st) = f64_to_neighbour af st
              in if e \<le> 0x3FF - 1 then (if drop_bit 63 af \<noteq> 0 then 0xBFF0000000000000 else 0, st)
                 else let (notAbove, st) = f64_le y 0 st
                      in if \<not> notAbove then let (i, st) = f64_add af y st in f64_sub i 0x3FF0000000000000 st
                         else f64_add af y st)"

definition eosio_f64_trunc :: "float64_t \<Rightarrow> float64_t" where
  "eosio_f64_trunc af =
     (let e = uint (drop_bit 52 af AND 0x7FF) - 0x3FF + 12
      in if 52 + 12 \<le> e then af
         else let e = (if e < 12 then 1 else e);
                  m = drop_bit (nat e) (- 1)
              in if af AND m = 0 then af else af AND NOT m)"

definition eosio_f64_nearest :: "float64_t \<Rightarrow> float64_t api" where
  "eosio_f64_nearest af st =
     (let e = uint (drop_bit 52 af AND 0x7FF);
          s = (drop_bit 63 af \<noteq> 0)
      in if 0x3FF + 52 \<le> e then (af, st)
         else let (y, st) = (if s then let (d, st) = f64_sub af inv_double_eps st in f64_add d inv_double_eps st
                             else let (d, st) = f64_add af inv_double_eps st in f64_sub d inv_double_eps st);
                  (zero, st) = f64_eq y 0 st
              in (if zero then if s then 0x8000000000000000 else 0 else y, st))"

section \<open>64-bit comparisons\<close>

definition eosio_f64_eq :: "float64_t \<Rightarrow> float64_t \<Rightarrow> bool api" where
  "eosio_f64_eq a b st = f64_eq a b st"

definition eosio_f64_ne :: "float64_t \<Rightarrow> float64_t \<Rightarrow> bool api" where
  "eosio_f64_ne a b st = apfst Not (f64_eq a b st)"

definition eosio_f64_lt :: "float64_t \<Rightarrow> float64_t \<Rightarrow> bool api" where
  "eosio_f64_lt a b st = f64_lt a b st"

definition eosio_f64_le :: "float64_t \<Rightarrow> float64_t \<Rightarrow> bool api" where
  "eosio_f64_le a b st = f64_le a b st"

definition eosio_f64_gt :: "float64_t \<Rightarrow> float64_t \<Rightarrow> bool api" where
  "eosio_f64_gt af bf st =
     (if f64_is_nan af then (False, st)
      else if f64_is_nan bf then (False, st)
      else apfst Not (f64_le af bf st))"

definition eosio_f64_ge :: "float64_t \<Rightarrow> float64_t \<Rightarrow> bool api" where
  "eosio_f64_ge af bf st =
     (if f64_is_nan af then (False, st)
      else if f64_is_nan bf then (False, st)
      else apfst Not (f64_lt af bf st))"

section \<open>Conversions\<close>

definition eosio_f32_promote :: "float32_t \<Rightarrow> float64_t api" where
  "eosio_f32_promote a st = f32_to_f64 a st"

definition eosio_f64_demote :: "float64_t \<Rightarrow> float32_t api" where
  "eosio_f64_demote a st = f64_to_f32 a st"

definition eosio_f32_trunc_i32s :: "float32_t \<Rightarrow> (ftl_exception + u32) api" where
  "eosio_f32_trunc_i32s af st =
     (let (above, st) = eosio_f32_ge af 0x4F000000 st;
          (out, st) = (if above then (True, st) else eosio_f32_lt af 0xCF000000 st)
      in if out then (Inl (wasm_runtime_exception ''Error, f32.convert_s/i32 overflow''), st)
         else if f32_is_nan af then (Inl (wasm_runtime_exception ''Error, f32.convert_s/i32 unrepresentable''), st)
         else (\<lambda>(z, st). (Inr (word_of_int z), st)) (f32_to_i32 (eosio_f32_trunc af) softfloat_round_near_even False st))"

definition eosio_f64_trunc_i32s :: "float64_t \<Rightarrow> (ftl_exception + u32) api" where
  "eosio_f64_trunc_i32s af st =
     (let (above, st) = eosio_f64_ge af 0x41E0000000000000 st;
          (out, st) = (if above then (True, st) else eosio_f64_lt af 0xC1E0000000000000 st)
      in if out then (Inl (wasm_runtime_exception ''Error, f64.convert_s/i32 overflow''), st)
         else if f64_is_nan af then (Inl (wasm_runtime_exception ''Error, f64.convert_s/i32 unrepresentable''), st)
         else (\<lambda>(z, st). (Inr (word_of_int z), st)) (f64_to_i32 (eosio_f64_trunc af) softfloat_round_near_even False st))"

definition eosio_f32_trunc_i32u :: "float32_t \<Rightarrow> (ftl_exception + u32) api" where
  "eosio_f32_trunc_i32u af st =
     (let (above, st) = eosio_f32_ge af 0x4F800000 st;
          (out, st) = (if above then (True, st) else eosio_f32_le af 0xBF800000 st)
      in if out then (Inl (wasm_runtime_exception ''Error, f32.convert_u/i32 overflow''), st)
         else if f32_is_nan af then (Inl (wasm_runtime_exception ''Error, f32.convert_u/i32 unrepresentable''), st)
         else (\<lambda>(z, st). (Inr (ucast z), st)) (f32_to_ui32 (eosio_f32_trunc af) softfloat_round_near_even False st))"

definition eosio_f64_trunc_i32u :: "float64_t \<Rightarrow> (ftl_exception + u32) api" where
  "eosio_f64_trunc_i32u af st =
     (let (above, st) = eosio_f64_ge af 0x41F0000000000000 st;
          (out, st) = (if above then (True, st) else eosio_f64_le af 0xBFF0000000000000 st)
      in if out then (Inl (wasm_runtime_exception ''Error, f64.convert_u/i32 overflow''), st)
         else if f64_is_nan af then (Inl (wasm_runtime_exception ''Error, f64.convert_u/i32 unrepresentable''), st)
         else (\<lambda>(z, st). (Inr (ucast z), st)) (f64_to_ui32 (eosio_f64_trunc af) softfloat_round_near_even False st))"

definition eosio_f32_trunc_i64s :: "float32_t \<Rightarrow> (ftl_exception + u64) api" where
  "eosio_f32_trunc_i64s af st =
     (let (above, st) = eosio_f32_ge af 0x5F000000 st;
          (out, st) = (if above then (True, st) else eosio_f32_lt af 0xDF000000 st)
      in if out then (Inl (wasm_runtime_exception ''Error, f32.convert_s/i64 overflow''), st)
         else if f32_is_nan af then (Inl (wasm_runtime_exception ''Error, f32.convert_s/i64 unrepresentable''), st)
         else (\<lambda>(z, st). (Inr (word_of_int z), st)) (f32_to_i64 (eosio_f32_trunc af) softfloat_round_near_even False st))"

definition eosio_f64_trunc_i64s :: "float64_t \<Rightarrow> (ftl_exception + u64) api" where
  "eosio_f64_trunc_i64s af st =
     (let (above, st) = eosio_f64_ge af 0x43E0000000000000 st;
          (out, st) = (if above then (True, st) else eosio_f64_lt af 0xC3E0000000000000 st)
      in if out then (Inl (wasm_runtime_exception ''Error, f64.convert_s/i64 overflow''), st)
         else if f64_is_nan af then (Inl (wasm_runtime_exception ''Error, f64.convert_s/i64 unrepresentable''), st)
         else (\<lambda>(z, st). (Inr (word_of_int z), st)) (f64_to_i64 (eosio_f64_trunc af) softfloat_round_near_even False st))"

definition eosio_f32_trunc_i64u :: "float32_t \<Rightarrow> (ftl_exception + u64) api" where
  "eosio_f32_trunc_i64u af st =
     (let (above, st) = eosio_f32_ge af 0x5F800000 st;
          (out, st) = (if above then (True, st) else eosio_f32_le af 0xBF800000 st)
      in if out then (Inl (wasm_runtime_exception ''Error, f32.convert_u/i64 overflow''), st)
         else if f32_is_nan af then (Inl (wasm_runtime_exception ''Error, f32.convert_u/i64 unrepresentable''), st)
         else (\<lambda>(z, st). (Inr z, st)) (f32_to_ui64 (eosio_f32_trunc af) softfloat_round_near_even False st))"

definition eosio_f64_trunc_i64u :: "float64_t \<Rightarrow> (ftl_exception + u64) api" where
  "eosio_f64_trunc_i64u af st =
     (let (above, st) = eosio_f64_ge af 0x43F0000000000000 st;
          (out, st) = (if above then (True, st) else eosio_f64_le af 0xBFF0000000000000 st)
      in if out then (Inl (wasm_runtime_exception ''Error, f64.convert_u/i64 overflow''), st)
         else if f64_is_nan af then (Inl (wasm_runtime_exception ''Error, f64.convert_u/i64 unrepresentable''), st)
         else (\<lambda>(z, st). (Inr z, st)) (f64_to_ui64 (eosio_f64_trunc af) softfloat_round_near_even False st))"

definition eosio_i32_to_f32 :: "u32 \<Rightarrow> float32_t api" where
  "eosio_i32_to_f32 a st = i32_to_f32 a st"

definition eosio_i64_to_f32 :: "u64 \<Rightarrow> float32_t api" where
  "eosio_i64_to_f32 a st = i64_to_f32 a st"

definition eosio_ui32_to_f32 :: "u32 \<Rightarrow> float32_t api" where
  "eosio_ui32_to_f32 a st = ui32_to_f32 a st"

definition eosio_ui64_to_f32 :: "u64 \<Rightarrow> float32_t api" where
  "eosio_ui64_to_f32 a st = ui64_to_f32 a st"

definition eosio_i32_to_f64 :: "u32 \<Rightarrow> float64_t api" where
  "eosio_i32_to_f64 a st = (i32_to_f64 a, st)"

definition eosio_i64_to_f64 :: "u64 \<Rightarrow> float64_t api" where
  "eosio_i64_to_f64 a st = i64_to_f64 a st"

definition eosio_ui32_to_f64 :: "u32 \<Rightarrow> float64_t api" where
  "eosio_ui32_to_f64 a st = (ui32_to_f64 a, st)"

definition eosio_ui64_to_f64 :: "u64 \<Rightarrow> float64_t api" where
  "eosio_ui64_to_f64 a st = ui64_to_f64 a st"

end
