(* ===== verification/Api_Round.thy ===== *)
theory Api_Round
  imports Softfloat_Api F32_Special F64_Special
begin

text \<open>
  The rounding intrinsics of \<open>softfloat_api\<close>. The bit-masking versions of \<open>ceil\<close>, \<open>floor\<close> and
  \<open>trunc\<close>, taken over from a C library, compute the same pattern as SoftFloat's own
  \<open>f32_roundToInt\<close> and \<open>f64_roundToInt\<close> in the corresponding mode on everything but a NaN, which
  they return unchanged.
\<close>

section \<open>Clearing the fraction bits\<close>

lemma mask_word: "push_bit d 1 - 1 = (mask d :: 'a::len word)"
  by (simp add: mask_eq_exp_minus_1 push_bit_eq_mult)

lemma unat_mask_word: "d < LENGTH('a) \<Longrightarrow> unat (push_bit d 1 - 1 :: 'a::len word) = 2 ^ d - 1"
proof -
  assume d: "d < LENGTH('a)"
  then have "unat (push_bit d 1 :: 'a word) = 2 ^ d" by (subst unat_push_bit) simp_all
  then show ?thesis by (subst unat_minus_small) simp_all
qed

lemma unat_add_masked:
  fixes w m :: "'a::len word"
  assumes "m = push_bit d 1 - 1" and "d < LENGTH('a)" and "c \<longrightarrow> unat w + 2 ^ d \<le> 2 ^ LENGTH('a)"
  shows "unat (if c then w + m else w) = unat w + (if c then 2 ^ d - 1 else 0)"
proof -
  have m: "unat m = 2 ^ d - 1" using unat_mask_word [OF assms(2)] assms(1) by simp
  have "(1::nat) \<le> 2 ^ d" by simp
  then have "c \<Longrightarrow> unat w + unat m < 2 ^ LENGTH('a)" using assms(3) m by linarith
  then show ?thesis using m by (simp add: unat_add_small)
qed

lemma unat_round_masked:
  fixes w m :: "'a::len word"
  assumes "m = push_bit d 1 - 1" and "d < LENGTH('a)" and "c \<longrightarrow> unat w + 2 ^ d \<le> 2 ^ LENGTH('a)"
  shows "unat (if w AND m = 0 then w else (if c then w + m else w) AND NOT m) =
    (unat w + (if c then 2 ^ d - 1 else 0)) div 2 ^ d * 2 ^ d"
proof -
  note add = unat_add_masked [OF assms]
  have "unat (w AND m) = unat w mod 2 ^ d"
    unfolding assms(1) mask_word by (simp add: unat_take_bit flip: take_bit_eq_mask)
  then have z: "w AND m = 0 \<longleftrightarrow> unat w mod 2 ^ d = 0" by (simp add: word_unat_eq_iff)
  define r :: nat where "r = (if c then 2 ^ d - 1 else 0)"
  have "(q * 2 ^ d + r) div 2 ^ d = q" for q by (rule div_nat_eqI) (auto simp: r_def)
  then have "unat w mod 2 ^ d = 0 \<Longrightarrow> (unat w + r) div 2 ^ d * 2 ^ d = unat w"
    by (metis add_cancel_left_right div_mult_mod_eq)
  then show ?thesis
    using unat_and_not_low [of "if c then w + m else w" d] unfolding assms(1) [symmetric] add z r_def [symmetric] by simp
qed

lemma unat_clear_masked:
  fixes w m :: "'a::len word"
  assumes "m = push_bit d 1 - 1" and "d < LENGTH('a)" and "c \<longrightarrow> unat w + 2 ^ d \<le> 2 ^ LENGTH('a)"
  shows "unat ((if c then w + m else w) AND NOT m) = (unat w + (if c then 2 ^ d - 1 else 0)) div 2 ^ d * 2 ^ d"
  using unat_and_not_low [of "if c then w + m else w" d] unfolding assms(1) [symmetric] unat_add_masked [OF assms] .

section \<open>32-bit\<close>

lemma f32_api_fields:
  assumes "n = unat a mod 2 ^ 31" and "E = n div 2 ^ 23"
  shows "uint (drop_bit 23 (a :: float32_t) AND 0xFF) = int E" and "drop_bit 31 a \<noteq> 0 \<longleftrightarrow> 2 ^ 31 \<le> unat a"
    and "push_bit 1 a = 0 \<longleftrightarrow> n = 0"
proof -
  have "unat (drop_bit 23 a AND 0xFF) = unat a div 2 ^ 23 mod 2 ^ 8"
    using unat_and_mask [of "drop_bit 23 a" 8] by (simp add: unat_drop_bit)
  also have "\<dots> = E" unfolding assms using mod_mult2_eq [of "unat a" "2 ^ 23" "2 ^ 8"] by simp
  finally show "uint (drop_bit 23 a AND 0xFF) = int E" by (simp only: uint_nat)
  show "drop_bit 31 a \<noteq> 0 \<longleftrightarrow> 2 ^ 31 \<le> unat a"
    using unat_f32_less [of a] by (auto simp: word_unat_eq_iff unat_drop_bit div_eq_0_iff)
  show "push_bit 1 a = 0 \<longleftrightarrow> n = 0"
    unfolding assms word_unat_eq_iff using unat_push_bit_mod [of 1 a] mult_mod_right [of 2 "unat a" "2 ^ 31"] by (auto simp: mult.commute)
qed

lemma f32_mask: "127 \<le> E \<Longrightarrow> E < 150 \<Longrightarrow> drop_bit (E - 127) 0x007FFFFF = (push_bit (150 - E) 1 - 1 :: u32)"
proof -
  assume E: "127 \<le> E" "E < 150"
  have "(0x007FFFFF :: u32) = mask 23" by (simp add: mask_eq_exp_minus_1)
  moreover have "drop_bit (E - 127) (mask 23) = (mask (150 - E) :: u32)"
    using E by (auto intro!: bit_word_eqI simp: bit_simps)
  ultimately show ?thesis by (simp only: mask_word)
qed

lemma f32_mid_bound:
  assumes "n = unat (a :: float32_t) mod 2 ^ 31" and "E = n div 2 ^ 23" and "127 \<le> E" and "E < 150"
  shows "unat a + 2 ^ (150 - E) \<le> 2 ^ 32"
proof -
  have "n < 150 * 2 ^ 23" using assms(2,4) by (simp add: div_less_iff_less_mult)
  moreover have "unat a = of_bool (2 ^ 31 \<le> unat a) * 2 ^ 31 + n"
    using unat_sign_index [of "ucast a"] unat_f32_less [of a] by (simp add: assms(1))
  moreover have "(2::nat) ^ (150 - E) \<le> 2 ^ 23" using assms(3) by (intro power_increasing) simp_all
  ultimately show ?thesis by (auto simp: of_bool_def split: if_splits)
qed

lemma f32_sign_bits:
  assumes "s \<longleftrightarrow> 2 ^ 31 \<le> unat (a :: float32_t)"
  shows "ucast a AND packToF32UI True 0 0 = packToF32UI s 0 0"
proof -
  have "packToF32UI True 0 0 = push_bit 31 (mask 1)" by (simp add: packToF32UI_def)
  then have "unat (ucast a AND packToF32UI True 0 0) = unat a div 2 ^ 31 mod 2 ^ 1 * 2 ^ 31"
    using unat_and_field [of 31 1 "ucast a :: u64"] by simp
  moreover have "unat a div 2 ^ 31 = of_bool s"
    using unat_f32_less [of a] assms by (cases s) (auto intro!: div_nat_eqI)
  ultimately show ?thesis by (cases s) (simp_all add: word_unat_eq_iff unat_packToF32UI)
qed

text \<open>The pattern of \<open>f32_roundToInt\<close> in a directed mode: \<open>up\<close> is whether the mode goes away from zero.\<close>

lemma f32_roundToInt_directed:
  assumes "n = unat a mod 2 ^ 31" and "E = n div 2 ^ 23" and "s \<longleftrightarrow> 2 ^ 31 \<le> unat a" and "\<not> f32_nan a"
    and "rm = softfloat_round_min \<and> up = s \<or> rm = softfloat_round_max \<and> up = (\<not> s) \<or> rm = softfloat_round_minMag \<and> \<not> up"
  shows "unat (fst (f32_roundToInt a rm exact st)) =
    (if 150 \<le> E then unat a
     else if 127 \<le> E then (unat a + (if up then 2 ^ (150 - E) - 1 else 0)) div 2 ^ (150 - E) * 2 ^ (150 - E)
     else if n = 0 then unat a else of_bool s * 2 ^ 31 + of_bool up * 127 * 2 ^ 23)"
proof -
  note fl = f32_int_fields [OF assms(1,2) refl refl]
  consider "150 \<le> E" | "127 \<le> E" "E < 150" | "E < 127" by linarith
  then show ?thesis
  proof cases
    case 1
    then show ?thesis using f32_inf_fields [OF assms(4)] fl(1) by (auto simp: f32_roundToInt_def Let_def)
  next
    case 2
    then have d: "nat (0x96 - int E) = 150 - E" by simp
    define L :: u64 where "L = push_bit (150 - E) 1"
    define z where "z = (if up then ucast a + (L - 1) else ucast a) AND NOT (L - 1)"
    have "fst (f32_roundToInt a rm exact st) = ucast z"
      using 2 assms(5) unfolding f32_roundToInt_def Let_def fl(1) d L_def [symmetric] f32_sign assms(3) [symmetric] z_def by auto
    moreover have "unat z = (unat a + (if up then 2 ^ (150 - E) - 1 else 0)) div 2 ^ (150 - E) * 2 ^ (150 - E)"
      unfolding z_def using unat_clear_masked [of "L - 1" "150 - E" up "ucast a"] f32_mid_bound [OF assms(1,2) 2] 2 by (simp add: L_def)
    moreover have "unat z < 2 ^ 32"
    proof -
      define r :: nat where "r = (if up then 2 ^ (150 - E) - 1 else 0)"
      have "r < 2 ^ (150 - E)" by (simp add: r_def)
      then have "unat a + r < 2 ^ 32" using f32_mid_bound [OF assms(1,2) 2] by linarith
      then show ?thesis unfolding calculation(2) r_def [symmetric] by (rule le_less_trans [OF div_times_less_eq_dividend])
    qed
    ultimately show ?thesis using 2 by (simp add: unat_ucast_small)
  next
    case 3
    have z: "(ucast (push_bit 1 (ucast a :: uint_fast32)) :: u32) = 0 \<longleftrightarrow> n = 0"
      using f32_both_zero [of a a] by (simp add: assms(1))
    define S :: u64 where "S = ucast a AND packToF32UI True 0 0"
    have S: "S = packToF32UI s 0 0" unfolding S_def by (rule f32_sign_bits [OF assms(3)])
    have "fst (f32_roundToInt a rm exact st) = (if n = 0 then a else ucast (packToF32UI s (if up then 0x7F else 0) 0))"
      using 3 assms(5) z S unfolding f32_roundToInt_def Let_def fl(1) S_def [symmetric] by (auto simp: packToF32UI_def)
    then show ?thesis using 3 by (auto simp: packF32_small)
  qed
qed

lemma f32_directed_eq:
  assumes "n = unat a mod 2 ^ 31" and "E = n div 2 ^ 23" and "s \<longleftrightarrow> 2 ^ 31 \<le> unat a" and "\<not> f32_nan a"
    and "rm = softfloat_round_min \<and> up = s \<or> rm = softfloat_round_max \<and> up = (\<not> s) \<or> rm = softfloat_round_minMag \<and> \<not> up"
    and "m = push_bit (150 - E) 1 - 1"
    and "unat t = (if n = 0 then unat a else of_bool s * 2 ^ 31 + of_bool up * 127 * 2 ^ 23)"
  shows "fst (f32_roundToInt a rm exact st) = (if 150 \<le> E then a
    else if 127 \<le> E then if a AND m = 0 then a else (if up then a + m else a) AND NOT m else t)"
proof -
  define g where "g = (if a AND m = 0 then a else (if up then a + m else a) AND NOT m)"
  have "127 \<le> E \<Longrightarrow> \<not> 150 \<le> E \<Longrightarrow> unat g = (unat a + (if up then 2 ^ (150 - E) - 1 else 0)) div 2 ^ (150 - E) * 2 ^ (150 - E)"
    unfolding g_def by (rule unat_round_masked [OF assms(6)]) (use f32_mid_bound [OF assms(1,2)] in simp_all)
  then show ?thesis
    unfolding g_def [symmetric] using f32_roundToInt_directed [OF assms(1-5), of exact st] assms(7)
    by (intro word_unat_eq_iff [THEN iffD2]) (cases "150 \<le> E"; cases "127 \<le> E"; simp only: if_True if_False not_True_eq_False not_False_eq_True True_implies_equals)
qed

lemma f32_ceil_eq:
  assumes "\<not> f32_nan a"
  shows "eosio_f32_ceil a = fst (f32_roundToInt a softfloat_round_max exact st)"
proof -
  define n E where "n = unat a mod 2 ^ 31" and "E = n div 2 ^ 23"
  define s where "s \<longleftrightarrow> 2 ^ 31 \<le> unat a"
  note f = f32_api_fields [OF n_def E_def, folded s_def]
  have u: "unat a = of_bool s * 2 ^ 31 + n"
    using unat_sign_index [of "ucast a"] unat_f32_less [of a] by (simp add: s_def n_def)
  have E: "int E - 127 < 0 \<longleftrightarrow> E < 127" "23 \<le> int E - 127 \<longleftrightarrow> 150 \<le> E" "nat (int E - 127) = E - 127" by auto
  have "eosio_f32_ceil a = (if 150 \<le> E then a
      else if 127 \<le> E then
        if a AND (push_bit (150 - E) 1 - 1) = 0 then a else (if \<not> s then a + (push_bit (150 - E) 1 - 1) else a) AND NOT (push_bit (150 - E) 1 - 1)
      else if s then 0x80000000 else if n \<noteq> 0 then 0x3F800000 else a)"
    unfolding eosio_f32_ceil_def Let_def f(1) E using f(2,3) f32_mask [of E] by (auto simp del: push_bit_numeral)
  also have "\<dots> = fst (f32_roundToInt a softfloat_round_max exact st)"
    by (rule f32_directed_eq [OF n_def E_def s_def assms _ refl, symmetric]) (auto simp: u)
  finally show ?thesis .
qed

lemma f32_floor_eq:
  assumes "\<not> f32_nan a"
  shows "eosio_f32_floor a = fst (f32_roundToInt a softfloat_round_min exact st)"
proof -
  define n E where "n = unat a mod 2 ^ 31" and "E = n div 2 ^ 23"
  define s where "s \<longleftrightarrow> 2 ^ 31 \<le> unat a"
  note f = f32_api_fields [OF n_def E_def, folded s_def]
  have u: "unat a = of_bool s * 2 ^ 31 + n"
    using unat_sign_index [of "ucast a"] unat_f32_less [of a] by (simp add: s_def n_def)
  have E: "int E - 127 < 0 \<longleftrightarrow> E < 127" "23 \<le> int E - 127 \<longleftrightarrow> 150 \<le> E" "nat (int E - 127) = E - 127" by auto
  have "eosio_f32_floor a = (if 150 \<le> E then a
      else if 127 \<le> E then
        if a AND (push_bit (150 - E) 1 - 1) = 0 then a else (if s then a + (push_bit (150 - E) 1 - 1) else a) AND NOT (push_bit (150 - E) 1 - 1)
      else if \<not> s then 0 else if n \<noteq> 0 then 0xBF800000 else a)"
    unfolding eosio_f32_floor_def Let_def f(1) E using f(2,3) f32_mask [of E] by (auto simp del: push_bit_numeral)
  also have "\<dots> = fst (f32_roundToInt a softfloat_round_min exact st)"
    by (rule f32_directed_eq [OF n_def E_def s_def assms _ refl, symmetric]) (auto simp: u)
  finally show ?thesis .
qed

lemma drop_minus_one: "k \<le> LENGTH('a) \<Longrightarrow> drop_bit k (- 1 :: 'a::len word) = push_bit (LENGTH('a) - k) 1 - 1"
  unfolding mask_word by (auto intro!: bit_word_eqI simp: bit_simps)

lemma f32_trunc_eq:
  assumes "\<not> f32_nan a"
  shows "eosio_f32_trunc a = fst (f32_roundToInt a softfloat_round_minMag exact st)"
proof -
  define n E where "n = unat a mod 2 ^ 31" and "E = n div 2 ^ 23"
  define s where "s \<longleftrightarrow> 2 ^ 31 \<le> unat a"
  note f = f32_api_fields [OF n_def E_def, folded s_def]
  have u: "unat a = of_bool s * 2 ^ 31 + n"
    using unat_sign_index [of "ucast a"] unat_f32_less [of a] by (simp add: s_def n_def)
  have E: "23 + 9 \<le> int E - 127 + 9 \<longleftrightarrow> 150 \<le> E" "int E - 127 + 9 < 9 \<longleftrightarrow> E < 127"
    "127 \<le> E \<Longrightarrow> nat (int E - 127 + 9) = E - 118" by auto
  have m: "127 \<le> E \<Longrightarrow> E < 150 \<Longrightarrow> drop_bit (E - 118) (- 1 :: u32) = push_bit (150 - E) 1 - 1"
    by (subst drop_minus_one) auto
  define t where "t = (if a AND drop_bit 1 (- 1) = 0 then a else a AND NOT (drop_bit 1 (- 1)))"
  have t: "unat t = of_bool s * 2 ^ 31"
  proof -
    have "drop_bit 1 (- 1) = (push_bit 31 1 - 1 :: u32)" by (subst drop_minus_one) simp_all
    note unat_round_masked [OF this, of False a]
    moreover have "31 < LENGTH(32)" by simp
    ultimately have "unat t = unat a div 2 ^ 31 * 2 ^ 31" unfolding t_def by (simp only: if_False simp_thms add_0_right)
    moreover have "unat a div 2 ^ 31 = of_bool s"
      using unat_f32_less [of a] by (cases s) (auto intro!: div_nat_eqI simp: s_def)
    ultimately show ?thesis by simp
  qed
  have "eosio_f32_trunc a = (if 150 \<le> E then a
      else if 127 \<le> E then
        if a AND (push_bit (150 - E) 1 - 1) = 0 then a else (if False then a + (push_bit (150 - E) 1 - 1) else a) AND NOT (push_bit (150 - E) 1 - 1)
      else t)"
    unfolding eosio_f32_trunc_def Let_def f(1) E(1,2) using E(3) m by (cases "127 \<le> E") (simp_all add: t_def del: drop_bit_minus_one)
  also have "\<dots> = fst (f32_roundToInt a softfloat_round_minMag exact st)"
    by (rule f32_directed_eq [OF n_def E_def s_def assms _ refl, symmetric]) (auto simp: u t)
  finally show ?thesis .
qed

section \<open>64-bit\<close>

lemma f64_api_fields:
  assumes "n = unat a mod 2 ^ 63" and "E = n div 2 ^ 52"
  shows "uint (drop_bit 52 (a :: float64_t) AND 0x7FF) = int E" and "drop_bit 63 a \<noteq> 0 \<longleftrightarrow> 2 ^ 63 \<le> unat a"
    and "push_bit 1 a = 0 \<longleftrightarrow> n = 0"
proof -
  have "unat (drop_bit 52 a AND 0x7FF) = unat a div 2 ^ 52 mod 2 ^ 11"
    using unat_and_mask [of "drop_bit 52 a" 11] by (simp add: unat_drop_bit)
  also have "\<dots> = E" unfolding assms using mod_mult2_eq [of "unat a" "2 ^ 52" "2 ^ 11"] by simp
  finally show "uint (drop_bit 52 a AND 0x7FF) = int E" by (simp only: uint_nat)
  show "drop_bit 63 a \<noteq> 0 \<longleftrightarrow> 2 ^ 63 \<le> unat a"
    using unat_f64_less [of a] by (auto simp: word_unat_eq_iff unat_drop_bit div_eq_0_iff)
  show "push_bit 1 a = 0 \<longleftrightarrow> n = 0"
    unfolding assms word_unat_eq_iff using unat_push_bit_mod [of 1 a] mult_mod_right [of 2 "unat a" "2 ^ 63"] by (auto simp: mult.commute)
qed

lemma f64_mid_bound:
  assumes "n = unat (a :: float64_t) mod 2 ^ 63" and "E = n div 2 ^ 52" and "1023 \<le> E" and "E < 1075"
  shows "unat a + 2 ^ (1075 - E) \<le> 2 ^ 64"
proof -
  have "n < 1075 * 2 ^ 52" using assms(2,4) by (simp add: div_less_iff_less_mult)
  moreover have "unat a = of_bool (2 ^ 63 \<le> unat a) * 2 ^ 63 + n"
    using unat_sign_indexF64 [of a] unat_f64_less [of a] by (simp add: assms(1))
  moreover have "(2::nat) ^ (1075 - E) \<le> 2 ^ 52" using assms(3) by (intro power_increasing) simp_all
  ultimately show ?thesis by (auto simp: of_bool_def split: if_splits)
qed

lemma f64_sign_bits:
  assumes "s \<longleftrightarrow> 2 ^ 63 \<le> unat (a :: float64_t)"
  shows "a AND packToF64UI True 0 0 = packToF64UI s 0 0"
proof -
  have "packToF64UI True 0 0 = push_bit 63 (mask 1)" by (simp add: packToF64UI_def)
  then have "unat (a AND packToF64UI True 0 0) = unat a div 2 ^ 63 mod 2 ^ 1 * 2 ^ 63"
    using unat_and_field [of 63 1 a] by simp
  moreover have "unat a div 2 ^ 63 = of_bool s"
    using unat_f64_less [of a] assms by (cases s) (auto intro!: div_nat_eqI)
  ultimately show ?thesis by (cases s) (simp_all add: word_unat_eq_iff unat_packToF64UI)
qed

text \<open>The pattern of \<open>f64_roundToInt\<close> in a directed mode: \<open>up\<close> is whether the mode goes away from zero.\<close>

lemma f64_roundToInt_directed:
  assumes "n = unat a mod 2 ^ 63" and "E = n div 2 ^ 52" and "s \<longleftrightarrow> 2 ^ 63 \<le> unat a" and "\<not> f64_nan a"
    and "rm = softfloat_round_min \<and> up = s \<or> rm = softfloat_round_max \<and> up = (\<not> s) \<or> rm = softfloat_round_minMag \<and> \<not> up"
  shows "unat (fst (f64_roundToInt a rm exact st)) =
    (if 1075 \<le> E then unat a
     else if 1023 \<le> E then (unat a + (if up then 2 ^ (1075 - E) - 1 else 0)) div 2 ^ (1075 - E) * 2 ^ (1075 - E)
     else if n = 0 then unat a else of_bool s * 2 ^ 63 + of_bool up * 1023 * 2 ^ 52)"
proof -
  note fl = f64_int_fields [OF assms(1,2) refl refl]
  consider "1075 \<le> E" | "1023 \<le> E" "E < 1075" | "E < 1023" by linarith
  then show ?thesis
  proof cases
    case 1
    then show ?thesis using f64_inf_fields [OF assms(4)] fl(1) by (auto simp: f64_roundToInt_def Let_def)
  next
    case 2
    then have d: "nat (0x433 - int E) = 1075 - E" by simp
    define L :: u64 where "L = push_bit (1075 - E) 1"
    define z where "z = (if up then a + (L - 1) else a) AND NOT (L - 1)"
    have "fst (f64_roundToInt a rm exact st) = z"
      using 2 assms(5) unfolding f64_roundToInt_def Let_def fl(1) d L_def [symmetric] signF64UI_iff assms(3) [symmetric] z_def by auto
    moreover have "unat z = (unat a + (if up then 2 ^ (1075 - E) - 1 else 0)) div 2 ^ (1075 - E) * 2 ^ (1075 - E)"
      unfolding z_def using unat_clear_masked [of "L - 1" "1075 - E" up a] f64_mid_bound [OF assms(1,2) 2] 2 by (simp add: L_def)
    ultimately show ?thesis using 2 by simp
  next
    case 3
    have z: "a AND 0x7FFFFFFFFFFFFFFF = 0 \<longleftrightarrow> n = 0"
      using unat_and_mask [of a 63] by (simp add: assms(1) word_unat_eq_iff)
    define S :: u64 where "S = a AND packToF64UI True 0 0"
    have S: "S = packToF64UI s 0 0" unfolding S_def by (rule f64_sign_bits [OF assms(3)])
    have "fst (f64_roundToInt a rm exact st) = (if n = 0 then a else packToF64UI s (if up then 0x3FF else 0) 0)"
      using 3 assms(5) z S unfolding f64_roundToInt_def Let_def fl(1) S_def [symmetric] by (auto simp: packToF64UI_def)
    then show ?thesis using 3 by (auto simp: unat_packToF64UI)
  qed
qed

lemma f64_directed_eq:
  assumes "n = unat a mod 2 ^ 63" and "E = n div 2 ^ 52" and "s \<longleftrightarrow> 2 ^ 63 \<le> unat a" and "\<not> f64_nan a"
    and "rm = softfloat_round_min \<and> up = s \<or> rm = softfloat_round_max \<and> up = (\<not> s) \<or> rm = softfloat_round_minMag \<and> \<not> up"
    and "m = push_bit (1075 - E) 1 - 1"
    and "unat t = (if n = 0 then unat a else of_bool s * 2 ^ 63 + of_bool up * 1023 * 2 ^ 52)"
  shows "fst (f64_roundToInt a rm exact st) = (if 1075 \<le> E then a
    else if 1023 \<le> E then if a AND m = 0 then a else (if up then a + m else a) AND NOT m else t)"
proof -
  define g where "g = (if a AND m = 0 then a else (if up then a + m else a) AND NOT m)"
  have "1023 \<le> E \<Longrightarrow> \<not> 1075 \<le> E \<Longrightarrow> unat g = (unat a + (if up then 2 ^ (1075 - E) - 1 else 0)) div 2 ^ (1075 - E) * 2 ^ (1075 - E)"
    unfolding g_def by (rule unat_round_masked [OF assms(6)]) (use f64_mid_bound [OF assms(1,2)] in simp_all)
  then show ?thesis
    unfolding g_def [symmetric] using f64_roundToInt_directed [OF assms(1-5), of exact st] assms(7)
    by (intro word_unat_eq_iff [THEN iffD2]) (cases "1075 \<le> E"; cases "1023 \<le> E"; simp only: if_True if_False not_True_eq_False not_False_eq_True True_implies_equals)
qed

lemma f64_trunc_eq:
  assumes "\<not> f64_nan a"
  shows "eosio_f64_trunc a = fst (f64_roundToInt a softfloat_round_minMag exact st)"
proof -
  define n E where "n = unat a mod 2 ^ 63" and "E = n div 2 ^ 52"
  define s where "s \<longleftrightarrow> 2 ^ 63 \<le> unat a"
  note f = f64_api_fields [OF n_def E_def, folded s_def]
  have u: "unat a = of_bool s * 2 ^ 63 + n"
    using unat_sign_indexF64 [of a] unat_f64_less [of a] by (simp add: s_def n_def)
  have E: "52 + 12 \<le> int E - 1023 + 12 \<longleftrightarrow> 1075 \<le> E" "int E - 1023 + 12 < 12 \<longleftrightarrow> E < 1023"
    "1023 \<le> E \<Longrightarrow> nat (int E - 1023 + 12) = E - 1011" by auto
  have m: "1023 \<le> E \<Longrightarrow> E < 1075 \<Longrightarrow> drop_bit (E - 1011) (- 1 :: u64) = push_bit (1075 - E) 1 - 1"
    by (subst drop_minus_one) auto
  define t where "t = (if a AND drop_bit 1 (- 1) = 0 then a else a AND NOT (drop_bit 1 (- 1)))"
  have t: "unat t = of_bool s * 2 ^ 63"
  proof -
    have "drop_bit 1 (- 1) = (push_bit 63 1 - 1 :: u64)" by (subst drop_minus_one) simp_all
    note unat_round_masked [OF this, of False a]
    moreover have "63 < LENGTH(64)" by simp
    ultimately have "unat t = unat a div 2 ^ 63 * 2 ^ 63" unfolding t_def by (simp only: if_False simp_thms add_0_right)
    moreover have "unat a div 2 ^ 63 = of_bool s"
      using unat_f64_less [of a] by (cases s) (auto intro!: div_nat_eqI simp: s_def)
    ultimately show ?thesis by simp
  qed
  have "eosio_f64_trunc a = (if 1075 \<le> E then a
      else if 1023 \<le> E then
        if a AND (push_bit (1075 - E) 1 - 1) = 0 then a else (if False then a + (push_bit (1075 - E) 1 - 1) else a) AND NOT (push_bit (1075 - E) 1 - 1)
      else t)"
    unfolding eosio_f64_trunc_def Let_def f(1) E(1,2) using E(3) m by (cases "1023 \<le> E") (simp_all add: t_def del: drop_bit_minus_one)
  also have "\<dots> = fst (f64_roundToInt a softfloat_round_minMag exact st)"
    by (rule f64_directed_eq [OF n_def E_def s_def assms _ refl, symmetric]) (auto simp: u t)
  finally show ?thesis .
qed


end
