(* ===== verification/Api_Nearest.thy ===== *)
theory Api_Nearest
  imports Api_Round
begin

text \<open>
  The rounding intrinsics that work by adding and subtracting a power of two: an addition whose
  result lies in the binade of spacing one rounds to an integer, and the remaining operations are
  exact. They therefore round to an integer in the current mode, and \<open>ceil\<close> and \<open>floor\<close> of the
  64-bit format are correct in every mode.
\<close>

section \<open>Rounding in a binade of spacing one, and exact results\<close>

lemma round_mag_add_even: "0 \<le> y \<Longrightarrow> even c \<Longrightarrow> round_mag m s (y + real c) = round_mag m s y + c"
proof -
  assume "0 \<le> y" "even c"
  have f: "\<lfloor>y + real c\<rfloor> = \<lfloor>y\<rfloor> + int c" by (metis floor_add_int of_int_of_nat_eq)
  moreover have "frac (y + real c) = frac y" by (simp add: frac_def f)
  ultimately show ?thesis using \<open>0 \<le> y\<close> \<open>even c\<close> by (simp add: round_mag_def nat_add_distrib)
qed

lemma round_int_shift_up: "0 \<le> x \<Longrightarrow> even c \<Longrightarrow> round_int m (x + real c) = round_int m x + int c"
  by (simp add: round_int_def round_mag_add_even)

lemma round_int_shift_down: "x \<le> 0 \<Longrightarrow> even c \<Longrightarrow> round_int m (x - real c) = round_int m x - int c"
  using round_mag_add_even [of "- x" c m True] round_mag_exact_iff [of "real c" m True]
  by (cases "x = 0") (auto simp: round_int_def)

lemma round_int_of_int: "round_int m (of_int k) = k"
proof -
  have "real (round_mag m s (real j)) = real j" for s and j :: nat
    by (rule round_mag_exact_iff [THEN iffD2]) (simp_all add: frac_eq_0_iff)
  then have r: "round_mag m s (real j) = j" for s and j :: nat by (simp only: of_nat_eq_iff)
  have "round_mag m s (of_int k) = nat k" if "0 \<le> k" for s k using r [of s "nat k"] that by simp
  from this [of k] this [of "- k" True] show ?thesis by (simp add: round_int_def)
qed

lemma round_mag_bounds: "0 \<le> y \<Longrightarrow> nat \<lfloor>y\<rfloor> \<le> round_mag m s y" "0 \<le> y \<Longrightarrow> round_mag m s y \<le> nat \<lceil>y\<rceil>"
proof -
  show "nat \<lfloor>y\<rfloor> \<le> round_mag m s y" by (simp add: round_mag_def)
  assume y: "0 \<le> y"
  show "round_mag m s y \<le> nat \<lceil>y\<rceil>"
  proof (cases "frac y = 0")
    case True
    then have "real (round_mag m s y) = y" using round_mag_exact_iff [OF y] by blast
    then have "real (round_mag m s y) \<le> of_int \<lceil>y\<rceil>" by linarith
    then show ?thesis by linarith
  next
    case False
    then have "\<lceil>y\<rceil> = \<lfloor>y\<rfloor> + 1" by (metis ceiling_altdef frac_def diff_eq_eq add_0)
    then show ?thesis using round_mag_le [of m s y] y by (simp add: nat_add_distrib)
  qed
qed

lemma round_int_bounds: "\<lfloor>x\<rfloor> \<le> round_int m x" "round_int m x \<le> \<lceil>x\<rceil>"
proof -
  have "\<lfloor>x\<rfloor> \<le> round_int m x \<and> round_int m x \<le> \<lceil>x\<rceil>"
  proof (cases "x < 0")
    case True
    then have "0 \<le> - x" by simp
    note round_mag_bounds [OF this, of m True]
    then have "nat \<lfloor>- x\<rfloor> \<le> round_mag m True (- x)" "round_mag m True (- x) \<le> nat \<lceil>- x\<rceil>" .
    moreover have "0 \<le> \<lfloor>- x\<rfloor>" "0 \<le> \<lceil>- x\<rceil>" using True by linarith+
    ultimately show ?thesis using True unfolding round_int_def floor_minus ceiling_minus by (simp add: nat_le_iff le_nat_iff)
  next
    case False
    then have "0 \<le> x" by simp
    note round_mag_bounds [OF this, of m False]
    then have "nat \<lfloor>x\<rfloor> \<le> round_mag m False x" "round_mag m False x \<le> nat \<lceil>x\<rceil>" .
    then show ?thesis using False by (simp add: round_int_def nat_le_iff le_nat_iff)
  qed
  then show "\<lfloor>x\<rfloor> \<le> round_int m x" "round_int m x \<le> \<lceil>x\<rceil>" by blast+
qed

lemma round_int_abs: "\<bar>x\<bar> < of_int k \<Longrightarrow> \<bar>round_int m x\<bar> \<le> k"
  using round_int_bounds(1) [where x = x and m = m] round_int_bounds(2) [where x = x and m = m] by linarith

lemma fmag_multiple: "M \<le> 2 ^ (P + 1) \<Longrightarrow> \<exists>n. fmag P n = M * 2 ^ j"
proof (induction j arbitrary: M)
  case 0
  then show ?case using fmag_pack [of M P 0] by auto
next
  case (Suc j)
  show ?case
  proof (cases "M < 2 ^ P")
    case True
    then have "2 * M \<le> 2 ^ (P + 1)" by simp
    from Suc.IH [OF this] show ?thesis by (simp add: mult_ac)
  next
    case False
    then show ?thesis using fmag_pack [of M P "Suc j"] Suc.prems by auto
  qed
qed

lemma fl_rounds_unit:
  assumes "fl_rounds P N m s (y * 2 ^ e) n" and "2 ^ P \<le> y" and "y < 2 ^ (P + 1)" and "1 \<le> P" and "(e + 2) * 2 ^ P \<le> N"
  shows "n \<le> (e + 2) * 2 ^ P" and "fmag P n = round_mag m s y * 2 ^ e"
proof -
  define k where "k = nat \<lfloor>y\<rfloor>"
  have y0: "0 \<le> y" using assms(2) zero_le_power [of "2::real" P] by linarith
  have k: "2 ^ P \<le> k" "k < 2 ^ (P + 1)"
    using assms(2,3) y0 unfolding k_def by (simp_all add: le_nat_floor le_nat_iff le_floor_iff nat_less_iff floor_less_iff)
  note b = between_pack [OF k(2) disjI1 [OF k(1)] y0 k_def [symmetric], of e]
  note r = round_index_pack [OF k(2) disjI1 [OF k(1)] y0 k_def [symmetric] assms(4), of m s e]
  have "e * 2 ^ P + k < N" using k(2) assms(5) by simp
  then have n: "n = e * 2 ^ P + round_mag m s y"
    using assms(1) b r unfolding fl_rounds_def by (metis between_unique)
  have "k \<le> round_mag m s y" "round_mag m s y \<le> k + 1" by (simp_all add: round_mag_def k_def)
  then have "2 ^ P \<le> round_mag m s y" "round_mag m s y \<le> 2 ^ (P + 1)" using k by linarith+
  then show "n \<le> (e + 2) * 2 ^ P" "fmag P n = round_mag m s y * 2 ^ e"
    unfolding n by (simp_all add: fmag_pack)
qed

section \<open>64-bit\<close>

lemma f64_rounded_mode: "f64_rounded st zs x res \<Longrightarrow> softfloat_roundingMode (snd res) = softfloat_roundingMode st"
  by (simp add: f64_rounded_def fl_result_def softfloat_raiseFlags_def)

lemma f64_pattern:
  assumes "unat z = of_bool s * fp_half 52 2047 + n" and "n < fp_inf 52 2047"
  shows "f64_finite z" and "f64_real z = (if s then - 1 else 1) * real (fmag 52 n) / 2 ^ 1074" and "2 ^ 63 \<le> unat z \<longleftrightarrow> s"
proof -
  have "unat z mod 2 ^ 63 = n" "2 ^ 63 \<le> unat z \<longleftrightarrow> s" using assms by (cases s; simp)+
  then show "f64_finite z" "f64_real z = (if s then - 1 else 1) * real (fmag 52 n) / 2 ^ 1074" "2 ^ 63 \<le> unat z \<longleftrightarrow> s"
    using assms(2) by (simp_all add: f64_finite_def f64_real_def)
qed

lemma f64_rounded_unit:
  assumes "f64_rounded st zs x res" and "2 ^ 52 \<le> \<bar>x\<bar>" and "\<bar>x\<bar> < 2 ^ 53"
  shows "f64_finite (fst res)" and "f64_real (fst res) = of_int (round_int (mode st) x)"
proof -
  define s where "s \<longleftrightarrow> x < 0"
  have "x \<noteq> 0" using assms(2) by auto
  then obtain n where n: "fl_rounds 52 (fp_inf 52 2047) (mode st) s (\<bar>x\<bar> * 2 ^ 1074) n" "unat (fst res) = of_bool s * fp_half 52 2047 + n"
    using assms(1) unfolding f64_rounded_def fl_result_def s_def by auto
  note u = fl_rounds_unit [OF n(1)]
  have "n \<le> 1076 * 2 ^ 52" "fmag 52 n = round_mag (mode st) s \<bar>x\<bar> * 2 ^ 1074"
    using u assms(2,3) by simp_all
  moreover from this have "n < fp_inf 52 2047" by simp
  moreover have "round_int (mode st) x = (if s then - int (round_mag (mode st) s \<bar>x\<bar>) else int (round_mag (mode st) s \<bar>x\<bar>))"
    by (simp add: round_int_def s_def)
  ultimately show "f64_finite (fst res)" "f64_real (fst res) = of_int (round_int (mode st) x)"
    using f64_pattern [OF n(2)] by simp_all
qed

lemma f64_rounded_self:
  assumes "f64_rounded st zs x res" and "\<bar>x\<bar> * 2 ^ 1074 = real (M * 2 ^ j)" and "M \<le> 2 ^ 53" and "j \<le> 1992"
  shows "f64_finite (fst res)" and "f64_real (fst res) = x" and "snd res = st"
proof -
  define s where "s \<longleftrightarrow> (if x = 0 then zs else x < 0)"
  obtain n where n: "fmag 52 n = M * 2 ^ j" using fmag_multiple [of M 52 j] assms(3) by auto
  have "M * 2 ^ j < 2 ^ 52 * 2 ^ 2046"
  proof -
    have "M * 2 ^ j \<le> 2 ^ 53 * 2 ^ 1992" using assms(3,4) by (intro mult_le_mono power_increasing) simp_all
    then show ?thesis by simp
  qed
  then have "fmag 52 n < fmag 52 (fp_inf 52 2047)" unfolding n by (simp add: fmag_def)
  then have inf: "n < fp_inf 52 2047" by (simp only: fmag_less_iff)
  have "fl_result 52 2047 st s (\<bar>x\<bar> * 2 ^ 1074) (of_bool s * fp_half 52 2047 + n) st"
    by (rule fl_result_exact [OF inf]) (simp_all only: assms(2) n)
  with assms(1) have u: "unat (fst res) = of_bool s * fp_half 52 2047 + n" and "snd res = st"
    unfolding f64_rounded_def s_def [symmetric] using fl_result_unique by blast+
  then show "snd res = st" by simp
  show "f64_finite (fst res)" by (rule f64_pattern [OF u inf])
  have "f64_real (fst res) = (if s then - 1 else 1) * (\<bar>x\<bar> * 2 ^ 1074) / 2 ^ 1074"
    unfolding f64_pattern(2) [OF u inf] assms(2) n ..
  then show "f64_real (fst res) = x" by (auto simp: s_def split: if_splits)
qed

lemma f64_sign_real: "f64_real z \<noteq> 0 \<Longrightarrow> 2 ^ 63 \<le> unat z \<longleftrightarrow> f64_real z < 0"
  by (auto simp: f64_real_def divide_less_0_iff zero_less_divide_iff split: if_splits)

lemma f64_real_sign: "2 ^ 63 \<le> unat z \<Longrightarrow> f64_real z \<le> 0" "\<not> 2 ^ 63 \<le> unat z \<Longrightarrow> 0 \<le> f64_real z"
  by (simp_all add: f64_real_def)

lemma f64_rounded_int:
  assumes "f64_rounded st zs (of_int k) res" and "\<bar>k\<bar> \<le> 2 ^ 53"
  shows "f64_finite (fst res)" and "f64_real (fst res) = of_int k" and "snd res = st"
proof -
  have "\<bar>real_of_int k\<bar> * 2 ^ 1074 = real (nat \<bar>k\<bar> * 2 ^ 1074)" by simp
  moreover have "nat \<bar>k\<bar> \<le> 2 ^ 53" using assms(2) by (simp add: nat_le_iff)
  ultimately show "f64_finite (fst res)" "f64_real (fst res) = of_int k" "snd res = st"
    using f64_rounded_self [OF assms(1), of "nat \<bar>k\<bar>" 1074] by simp_all
qed

text \<open>The constants \<open>2 ^ 52\<close> and \<open>1\<close>.\<close>

lemma f64_constants:
  "f64_finite 0x4330000000000000" "f64_real 0x4330000000000000 = 2 ^ 52"
  "f64_finite 0x3FF0000000000000" "f64_real 0x3FF0000000000000 = 1" "f64_finite 0" "f64_real 0 = 0"
  by (simp_all add: f64_finite_def f64_real_def fmag_def)

text \<open>The result of moving a number to the binade of spacing one and back.\<close>

definition f64_rint :: "float64_t \<Rightarrow> softfloat_state \<Rightarrow> float64_t \<times> softfloat_state" where
  "f64_rint a st =
     (if 2 ^ 63 \<le> unat a then let (d, st) = f64_sub a 0x4330000000000000 st in f64_add d 0x4330000000000000 st
      else let (d, st) = f64_add a 0x4330000000000000 st in f64_sub d 0x4330000000000000 st)"

lemma f64_rint:
  assumes "f64_finite a" and "\<bar>f64_real a\<bar> < 2 ^ 52"
  shows "f64_finite (fst (f64_rint a st))" and "f64_real (fst (f64_rint a st)) = of_int (round_int (mode st) (f64_real a))"
    and "softfloat_roundingMode (snd (f64_rint a st)) = softfloat_roundingMode st"
proof -
  define x r where "x = f64_real a" and "r = round_int (mode st) x"
  have rb: "\<bar>r\<bar> \<le> 2 ^ 52" using round_int_abs [of x "2 ^ 52"] assms(2) by (simp add: x_def r_def)
  have "f64_finite (fst (f64_rint a st)) \<and> f64_real (fst (f64_rint a st)) = of_int r \<and> softfloat_roundingMode (snd (f64_rint a st)) = softfloat_roundingMode st"
  proof (cases "2 ^ 63 \<le> unat a")
    case True
    have x0: "x \<le> 0" using f64_real_sign(1) [OF True] by (simp add: x_def)
    obtain d st1 where d: "f64_sub a 0x4330000000000000 st = (d, st1)" by fastforce
    note R = f64_sub_correct [OF assms(1) f64_constants(1), of st, unfolded d f64_constants x_def [symmetric]]
    have "f64_finite d" "f64_real d = of_int (r - 2 ^ 52)" "softfloat_roundingMode st1 = softfloat_roundingMode st"
      using f64_rounded_unit [OF R] f64_rounded_mode [OF R] assms(2) x0 round_int_shift_down [OF x0, of "2 ^ 52" "mode st"]
      by (simp_all add: x_def r_def)
    note d' = this
    note R2 = f64_add_correct [OF d'(1) f64_constants(1), of st1, unfolded d'(2) f64_constants]
    have "f64_rint a st = f64_add d 0x4330000000000000 st1" using True d by (simp add: f64_rint_def)
    then show ?thesis using f64_rounded_int [of st1 _ r] R2 rb d'(3) by simp
  next
    case False
    have x0: "0 \<le> x" using f64_real_sign(2) [OF False] by (simp add: x_def)
    obtain d st1 where d: "f64_add a 0x4330000000000000 st = (d, st1)" by fastforce
    note R = f64_add_correct [OF assms(1) f64_constants(1), of st, unfolded d f64_constants x_def [symmetric]]
    have "f64_finite d" "f64_real d = of_int (r + 2 ^ 52)" "softfloat_roundingMode st1 = softfloat_roundingMode st"
      using f64_rounded_unit [OF R] f64_rounded_mode [OF R] assms(2) x0 round_int_shift_up [OF x0, of "2 ^ 52" "mode st"]
      by (simp_all add: x_def r_def)
    note d' = this
    note R2 = f64_sub_correct [OF d'(1) f64_constants(1), of st1, unfolded d'(2) f64_constants]
    have "f64_rint a st = f64_sub d 0x4330000000000000 st1" using False d by (simp add: f64_rint_def)
    then show ?thesis using f64_rounded_int [of st1 _ r] R2 rb d'(3) by simp
  qed
  then show "f64_finite (fst (f64_rint a st))" "f64_real (fst (f64_rint a st)) = of_int (round_int (mode st) (f64_real a))"
    "softfloat_roundingMode (snd (f64_rint a st)) = softfloat_roundingMode st" by (simp_all add: r_def x_def)
qed

lemma f64_finite_not_nan: "f64_finite a \<Longrightarrow> \<not> f64_nan a"
  by (simp add: f64_finite_def f64_nan_def)

lemma f64_magnitude:
  assumes "n = unat a mod 2 ^ 63" and "E = n div 2 ^ 52"
  shows "E < 1075 \<Longrightarrow> \<bar>f64_real a\<bar> < 2 ^ 52" and "E < 1023 \<Longrightarrow> \<bar>f64_real a\<bar> < 1" and "1023 \<le> E \<Longrightarrow> 1 \<le> \<bar>f64_real a\<bar>"
proof -
  define M where "M = fp_sig 52 n"
  note fl = f64_int_fields [OF assms M_def refl]
  have x: "\<bar>f64_real a\<bar> = real M * 2 ^ (E - 1) / 2 ^ 1074" unfolding fl(6) by (simp add: abs_mult abs_divide)
  have M: "real M < 2 ^ 53" using fl(5) by (simp add: of_nat_less_numeral_power_cancel_iff)
  have "real M * 2 ^ (E - 1) < 2 ^ 53 * 2 ^ 1073" if "E < 1075" using M that by (intro mult_less_le_imp_less power_increasing) simp_all
  then show "E < 1075 \<Longrightarrow> \<bar>f64_real a\<bar> < 2 ^ 52" unfolding x by (simp add: divide_less_eq)
  have "real M * 2 ^ (E - 1) < 2 ^ 53 * 2 ^ 1021" if "E < 1023" using M that by (intro mult_less_le_imp_less power_increasing) simp_all
  then show "E < 1023 \<Longrightarrow> \<bar>f64_real a\<bar> < 1" unfolding x by (simp add: divide_less_eq)
  assume E: "1023 \<le> E"
  then have "2 ^ 52 \<le> real M" using fl(4) by (simp add: numeral_power_le_of_nat_cancel_iff)
  then have "2 ^ 52 * 2 ^ 1022 \<le> real M * 2 ^ (E - 1)" using E by (intro mult_mono power_increasing) simp_all
  then show "1 \<le> \<bar>f64_real a\<bar>" unfolding x by (simp add: le_divide_eq)
qed

lemma f64_neighbour_exact:
  assumes "n = unat a mod 2 ^ 63" and "E = n div 2 ^ 52" and "1023 \<le> E" and "E < 1075"
    and "\<bar>of_int r - f64_real a\<bar> \<le> 1"
  shows "\<exists>k \<le> 2 ^ 53. \<bar>of_int r - f64_real a\<bar> * 2 ^ 1074 = real (k * 2 ^ (E - 1))"
proof -
  define M where "M = fp_sig 52 n"
  note fl = f64_int_fields [OF assms(1,2) M_def refl]
  define K :: int where "K = r * 2 ^ (1075 - E) - (if 2 ^ 63 \<le> unat a then - int M else int M)"
  have p: "(2::real) ^ 1074 = 2 ^ (1075 - E) * 2 ^ (E - 1)" unfolding power_add [symmetric] using assms(3,4) by simp
  have "of_int r * (2::real) ^ 1074 = of_int r * 2 ^ (1075 - E) * 2 ^ (E - 1)" by (simp only: p mult.assoc)
  then have "(of_int r - f64_real a) * 2 ^ 1074 = of_int K * 2 ^ (E - 1)"
    unfolding fl(6) K_def left_diff_distrib of_int_diff by simp
  then have "\<bar>of_int r - f64_real a\<bar> * 2 ^ 1074 = of_int \<bar>K\<bar> * 2 ^ (E - 1)"
    by (metis abs_mult abs_numeral of_int_abs power_abs)
  then have k: "\<bar>of_int r - f64_real a\<bar> * 2 ^ 1074 = real (nat \<bar>K\<bar> * 2 ^ (E - 1))" by simp
  moreover have "nat \<bar>K\<bar> \<le> 2 ^ 53"
  proof -
    have "real (nat \<bar>K\<bar> * 2 ^ (E - 1)) \<le> 1 * 2 ^ 1074" unfolding k [symmetric] using assms(5) by (intro mult_right_mono) simp_all
    also have "\<dots> = real (2 ^ (1075 - E) * 2 ^ (E - 1))" using p by simp
    finally have "nat \<bar>K\<bar> \<le> 2 ^ (1075 - E)" by (simp only: of_nat_le_iff mult_le_cancel2) simp
    also have "\<dots> \<le> 2 ^ 53" using assms(3) by (intro power_increasing) simp_all
    finally show ?thesis .
  qed
  ultimately show ?thesis by blast
qed

lemma f64_to_neighbour:
  assumes "n = unat a mod 2 ^ 63" and "E = n div 2 ^ 52" and "1023 \<le> E" and "E < 1075"
    and "f64_to_neighbour a st = (y, st')"
  shows "\<exists>r. f64_finite y \<and> f64_real y = of_int r - f64_real a \<and> \<lfloor>f64_real a\<rfloor> \<le> r \<and> r \<le> \<lceil>f64_real a\<rceil>"
proof -
  define r where "r = round_int (mode st) (f64_real a)"
  obtain i st1 where i: "f64_rint a st = (i, st1)" by fastforce
  have fin: "f64_finite a" using f64_int_fields(7) [OF assms(1,2) refl refl] assms(4) by simp
  have I: "f64_finite i" "f64_real i = of_int r"
    using f64_rint(1,2) [OF fin f64_magnitude(1) [OF assms(1,2,4)], of st] by (simp_all add: i r_def)
  have e: "(y, st') = f64_sub i a st1"
    using i assms(5) f64_api_fields(2) [OF assms(1,2)] by (auto simp: f64_to_neighbour_def f64_rint_def split: prod.splits if_splits)
  have rb: "\<lfloor>f64_real a\<rfloor> \<le> r" "r \<le> \<lceil>f64_real a\<rceil>" unfolding r_def by (rule round_int_bounds)+
  then have "\<bar>of_int r - f64_real a\<bar> \<le> 1" by linarith
  from f64_neighbour_exact [OF assms(1-4) this] obtain k where k: "k \<le> 2 ^ 53" "\<bar>of_int r - f64_real a\<bar> * 2 ^ 1074 = real (k * 2 ^ (E - 1))" by blast
  note R = f64_sub_correct [OF I(1) fin, of st1, unfolded I(2) e [symmetric]]
  show ?thesis using f64_rounded_self [OF R k(2,1)] assms(4) rb by auto
qed

lemma f64_integral_intro:
  assumes "f64_finite z" and "f64_real z = of_int (round_int m (f64_real a))" and "2 ^ 63 \<le> unat z \<longleftrightarrow> 2 ^ 63 \<le> unat a"
  shows "f64_integral m False a st (z, st)"
  using assms by (simp add: f64_integral_def)

lemma f64_nearest_integral:
  assumes "f64_finite a"
  shows "f64_integral (mode st) False a st (fst (eosio_f64_nearest a st), st)"
proof -
  define n E where "n = unat a mod 2 ^ 63" and "E = n div 2 ^ 52"
  note f = f64_api_fields [OF n_def E_def]
  show ?thesis
  proof (cases "1075 \<le> E")
    case True
    then have "eosio_f64_nearest a st = (a, st)" by (simp add: eosio_f64_nearest_def Let_def f)
    then show ?thesis using f64_roundToInt_large [OF n_def E_def True assms, of "mode st" False st] by simp
  next
    case False
    obtain y st1 where y: "f64_rint a st = (y, st1)" by fastforce
    have mag: "\<bar>f64_real a\<bar> < 2 ^ 52" using f64_magnitude(1) [OF n_def E_def] False by simp
    have Y: "f64_finite y" "f64_real y = of_int (round_int (mode st) (f64_real a))"
      using f64_rint(1,2) [OF assms mag, of st] by (simp_all add: y)
    have "f64_eq y 0 st1 = (f64_real y = 0, st1)"
      using f64_compare_number(1) [OF f64_finite_not_nan f64_finite_not_nan, OF Y(1) f64_constants(5)] by (simp add: f64_constants)
    then have e: "fst (eosio_f64_nearest a st) = (if f64_real y = 0 then if 2 ^ 63 \<le> unat a then 0x8000000000000000 else 0 else y)"
      using False f y by (auto simp: eosio_f64_nearest_def Let_def f64_rint_def split: prod.splits if_splits)
    show ?thesis
    proof (cases "f64_real y = 0")
      case True
      then show ?thesis unfolding e using Y by (auto intro!: f64_integral_intro simp: f64_finite_def f64_real_def)
    next
      case False
      have "f64_real y < 0 \<longleftrightarrow> 2 ^ 63 \<le> unat a"
        using False Y(2) f64_real_sign [of a] round_int_bounds [where x = "f64_real a" and m = "mode st"] by (auto simp: not_le) linarith+
      then show ?thesis unfolding e using False Y f64_sign_real [OF False] by (auto intro!: f64_integral_intro)
    qed
  qed
qed

lemma f64_add_int:
  assumes "f64_finite a" and "f64_finite b" and "f64_real a + f64_real b = of_int k" and "\<bar>k\<bar> \<le> 2 ^ 53"
  shows "f64_finite (fst (f64_add a b st))" and "f64_real (fst (f64_add a b st)) = of_int k" and "snd (f64_add a b st) = st"
  using f64_rounded_int [OF f64_add_correct [OF assms(1,2), of st, unfolded assms(3)] assms(4)] .

lemma f64_sub_int:
  assumes "f64_finite a" and "f64_finite b" and "f64_real a - f64_real b = of_int k" and "\<bar>k\<bar> \<le> 2 ^ 53"
  shows "f64_finite (fst (f64_sub a b st))" and "f64_real (fst (f64_sub a b st)) = of_int k" and "snd (f64_sub a b st) = st"
  using f64_rounded_int [OF f64_sub_correct [OF assms(1,2), of st, unfolded assms(3)] assms(4)] .

lemma f64_ceil_integral:
  assumes "f64_finite a"
  shows "f64_integral Round_max False a st (fst (eosio_f64_ceil a st), st)"
proof -
  define n E x where "n = unat a mod 2 ^ 63" and "E = n div 2 ^ 52" and "x = f64_real a"
  note f = f64_api_fields [OF n_def E_def] and mg = f64_magnitude [OF n_def E_def, folded x_def]
  have eq0: "f64_eq a 0 st = (x = 0, st)"
    using f64_compare_number(1) [OF f64_finite_not_nan f64_finite_not_nan, OF assms f64_constants(5)] by (simp add: f64_constants x_def)
  have lt0: "f64_finite y \<Longrightarrow> f64_lt y 0 st = (f64_real y < 0, st)" for y st
    using f64_compare_number(5) [OF f64_finite_not_nan f64_finite_not_nan, OF _ f64_constants(5)] by (simp add: f64_constants)
  have sg: "x \<noteq> 0 \<Longrightarrow> x < 0 \<longleftrightarrow> 2 ^ 63 \<le> unat a" using f64_sign_real [of a] by (simp add: x_def)
  obtain y st1 where y: "f64_to_neighbour a st = (y, st1)" by fastforce
  consider "1075 \<le> E" | "x = 0" "E < 1075" | "x \<noteq> 0" "E < 1023" | "x \<noteq> 0" "1023 \<le> E" "E < 1075" by linarith
  then show ?thesis
  proof cases
    case 1
    then have "eosio_f64_ceil a st = (a, st)" by (simp add: eosio_f64_ceil_def Let_def f)
    then show ?thesis using f64_roundToInt_large [OF n_def E_def 1 assms, of Round_max False st] by simp
  next
    case 2
    then have "eosio_f64_ceil a st = (a, st)" by (simp add: eosio_f64_ceil_def Let_def f eq0)
    then show ?thesis using 2 assms by (auto intro!: f64_integral_intro simp: x_def round_int_max)
  next
    case 3
    have "fst (eosio_f64_ceil a st) = (if x < 0 then 0x8000000000000000 else 0x3FF0000000000000)"
      using 3 f(1,2) sg by (simp add: eosio_f64_ceil_def Let_def eq0 y)
    moreover have "\<lceil>x\<rceil> = (if x < 0 then 0 else 1)" using mg(2) [OF 3(2)] 3(1) by (auto intro!: ceiling_unique)
    ultimately show ?thesis using sg [OF 3(1)]
      by (auto intro!: f64_integral_intro simp: round_int_max x_def f64_finite_def f64_real_def fmag_def)
  next
    case 4
    obtain r where r: "f64_finite y" "f64_real y = of_int r - x" "\<lfloor>x\<rfloor> \<le> r" "r \<le> \<lceil>x\<rceil>"
      using f64_to_neighbour [OF n_def E_def 4(2,3) y] unfolding x_def by blast
    have xb: "\<bar>x\<bar> < 2 ^ 52" "1 \<le> \<bar>x\<bar>" using mg 4 by simp_all
    then have rb: "\<bar>r\<bar> \<le> 2 ^ 53" "\<bar>r + 1\<bar> \<le> 2 ^ 53" using r(3,4) by (auto simp: abs_le_iff abs_less_iff) linarith+
    have ai: "f64_real a + f64_real y = of_int r" by (simp add: r(2) x_def)
    note A = f64_add_int [OF assms r(1) ai rb(1)]
    have B: "f64_finite (fst (f64_add (fst (f64_add a y st1)) 0x3FF0000000000000 st1))"
        "f64_real (fst (f64_add (fst (f64_add a y st1)) 0x3FF0000000000000 st1)) = of_int (r + 1)"
      using f64_add_int [OF A(1) [of st1] f64_constants(3), of "r + 1" st1] A(2) rb(2) by (simp_all add: f64_constants)
    define z where "z = fst (eosio_f64_ceil a st)"
    have z: "z = (if f64_real y < 0 then fst (f64_add (fst (f64_add a y st1)) 0x3FF0000000000000 st1) else fst (f64_add a y st1))"
      using 4 f(1,2) A(3) [of st1] by (simp add: z_def eosio_f64_ceil_def Let_def eq0 y lt0 [OF r(1)] case_prod_unfold)
    have "\<lceil>x\<rceil> = (if f64_real y < 0 then r + 1 else r)" using r(2-4) by (auto intro!: ceiling_unique; linarith)
    then have zr: "f64_finite z" "f64_real z = of_int \<lceil>x\<rceil>" unfolding z using A B by simp_all
    moreover have "\<lceil>x\<rceil> < 0 \<longleftrightarrow> x < 0" "\<lceil>x\<rceil> \<noteq> 0" using xb(2) by linarith+
    ultimately have "2 ^ 63 \<le> unat z \<longleftrightarrow> 2 ^ 63 \<le> unat a" using f64_sign_real [of z] sg [OF 4(1)] by simp
    then show ?thesis unfolding z_def [symmetric] using zr by (auto intro!: f64_integral_intro simp: round_int_max x_def)
  qed
qed

lemma f64_zero_patterns: "f64_real a = 0 \<longleftrightarrow> a = 0 \<or> a = 0x8000000000000000"
proof -
  have "f64_real a = 0 \<longleftrightarrow> unat a mod 2 ^ 63 = 0" by (auto simp: f64_real_def)
  also have "\<dots> \<longleftrightarrow> unat a = 0 \<or> unat a = 2 ^ 63" using unat_sign_indexF64 [of a] by (auto simp: of_bool_def split: if_splits)
  finally show ?thesis by (simp add: word_unat_eq_iff)
qed

lemma f64_floor_integral:
  assumes "f64_finite a"
  shows "f64_integral Round_min False a st (fst (eosio_f64_floor a st), st)"
proof -
  define n E x where "n = unat a mod 2 ^ 63" and "E = n div 2 ^ 52" and "x = f64_real a"
  note f = f64_api_fields [OF n_def E_def] and mg = f64_magnitude [OF n_def E_def, folded x_def]
  have eq0: "a = 0 \<or> a = 0x8000000000000000 \<longleftrightarrow> x = 0" by (simp add: f64_zero_patterns x_def)
  have le0: "f64_finite y \<Longrightarrow> f64_le y 0 st = (f64_real y \<le> 0, st)" for y st
    using f64_compare_number(3) [OF f64_finite_not_nan f64_finite_not_nan, OF _ f64_constants(5)] by (simp add: f64_constants)
  have sg: "x \<noteq> 0 \<Longrightarrow> x < 0 \<longleftrightarrow> 2 ^ 63 \<le> unat a" using f64_sign_real [of a] by (simp add: x_def)
  obtain y st1 where y: "f64_to_neighbour a st = (y, st1)" by fastforce
  consider "1075 \<le> E" | "x = 0" "E < 1075" | "x \<noteq> 0" "E < 1023" | "x \<noteq> 0" "1023 \<le> E" "E < 1075" by linarith
  then show ?thesis
  proof cases
    case 1
    then have "eosio_f64_floor a st = (a, st)" by (simp add: eosio_f64_floor_def Let_def f)
    then show ?thesis using f64_roundToInt_large [OF n_def E_def 1 assms, of Round_min False st] by simp
  next
    case 2
    then have "eosio_f64_floor a st = (a, st)" using eq0 by (auto simp: eosio_f64_floor_def Let_def)
    then show ?thesis using 2 assms by (auto intro!: f64_integral_intro simp: x_def round_int_min)
  next
    case 3
    have "fst (eosio_f64_floor a st) = (if x < 0 then 0xBFF0000000000000 else 0)"
      using 3 f(1,2) sg eq0 by (simp add: eosio_f64_floor_def Let_def y)
    moreover have "\<lfloor>x\<rfloor> = (if x < 0 then - 1 else 0)" using mg(2) [OF 3(2)] 3(1) by (auto intro!: floor_unique)
    ultimately show ?thesis using sg [OF 3(1)]
      by (auto intro!: f64_integral_intro simp: round_int_min x_def f64_finite_def f64_real_def fmag_def)
  next
    case 4
    obtain r where r: "f64_finite y" "f64_real y = of_int r - x" "\<lfloor>x\<rfloor> \<le> r" "r \<le> \<lceil>x\<rceil>"
      using f64_to_neighbour [OF n_def E_def 4(2,3) y] unfolding x_def by blast
    have xb: "\<bar>x\<bar> < 2 ^ 52" "1 \<le> \<bar>x\<bar>" using mg 4 by simp_all
    then have rb: "\<bar>r\<bar> \<le> 2 ^ 53" "\<bar>r - 1\<bar> \<le> 2 ^ 53" using r(3,4) by (auto simp: abs_le_iff abs_less_iff) linarith+
    have ai: "f64_real a + f64_real y = of_int r" by (simp add: r(2) x_def)
    note A = f64_add_int [OF assms r(1) ai rb(1)]
    have B: "f64_finite (fst (f64_sub (fst (f64_add a y st1)) 0x3FF0000000000000 st1))"
        "f64_real (fst (f64_sub (fst (f64_add a y st1)) 0x3FF0000000000000 st1)) = of_int (r - 1)"
      using f64_sub_int [OF A(1) [of st1] f64_constants(3), of "r - 1" st1] A(2) rb(2) by (simp_all add: f64_constants)
    define z where "z = fst (eosio_f64_floor a st)"
    have z: "z = (if \<not> f64_real y \<le> 0 then fst (f64_sub (fst (f64_add a y st1)) 0x3FF0000000000000 st1) else fst (f64_add a y st1))"
      using 4 f(1,2) A(3) [of st1] eq0 by (simp add: z_def eosio_f64_floor_def Let_def y le0 [OF r(1)] case_prod_unfold)
    have "\<lfloor>x\<rfloor> = (if \<not> f64_real y \<le> 0 then r - 1 else r)" using r(2-4) by (auto intro!: floor_unique; linarith)
    then have zr: "f64_finite z" "f64_real z = of_int \<lfloor>x\<rfloor>" unfolding z using A B by simp_all
    moreover have "\<lfloor>x\<rfloor> < 0 \<longleftrightarrow> x < 0" "\<lfloor>x\<rfloor> \<noteq> 0" using xb(2) by linarith+
    ultimately have "2 ^ 63 \<le> unat z \<longleftrightarrow> 2 ^ 63 \<le> unat a" using f64_sign_real [of z] sg [OF 4(1)] by simp
    then show ?thesis unfolding z_def [symmetric] using zr by (auto intro!: f64_integral_intro simp: round_int_min x_def)
  qed
qed

section \<open>32-bit\<close>

lemma f32_rounded_mode: "f32_rounded st zs x res \<Longrightarrow> softfloat_roundingMode (snd res) = softfloat_roundingMode st"
  by (simp add: f32_rounded_def fl_result_def softfloat_raiseFlags_def)

lemma f32_pattern:
  assumes "unat z = of_bool s * fp_half 23 255 + n" and "n < fp_inf 23 255"
  shows "f32_finite z" and "f32_real z = (if s then - 1 else 1) * real (fmag 23 n) / 2 ^ 149" and "2 ^ 31 \<le> unat z \<longleftrightarrow> s"
proof -
  have "unat z mod 2 ^ 31 = n" "2 ^ 31 \<le> unat z \<longleftrightarrow> s" using assms by (cases s; simp)+
  then show "f32_finite z" "f32_real z = (if s then - 1 else 1) * real (fmag 23 n) / 2 ^ 149" "2 ^ 31 \<le> unat z \<longleftrightarrow> s"
    using assms(2) by (simp_all add: f32_finite_def f32_real_def)
qed

lemma f32_rounded_unit:
  assumes "f32_rounded st zs x res" and "2 ^ 23 \<le> \<bar>x\<bar>" and "\<bar>x\<bar> < 2 ^ 24"
  shows "f32_finite (fst res)" and "f32_real (fst res) = of_int (round_int (mode st) x)"
proof -
  define s where "s \<longleftrightarrow> x < 0"
  have "x \<noteq> 0" using assms(2) by auto
  then obtain n where n: "fl_rounds 23 (fp_inf 23 255) (mode st) s (\<bar>x\<bar> * 2 ^ 149) n" "unat (fst res) = of_bool s * fp_half 23 255 + n"
    using assms(1) unfolding f32_rounded_def fl_result_def s_def by auto
  note u = fl_rounds_unit [OF n(1)]
  have "n \<le> 151 * 2 ^ 23" "fmag 23 n = round_mag (mode st) s \<bar>x\<bar> * 2 ^ 149"
    using u assms(2,3) by simp_all
  moreover from this have "n < fp_inf 23 255" by simp
  moreover have "round_int (mode st) x = (if s then - int (round_mag (mode st) s \<bar>x\<bar>) else int (round_mag (mode st) s \<bar>x\<bar>))"
    by (simp add: round_int_def s_def)
  ultimately show "f32_finite (fst res)" "f32_real (fst res) = of_int (round_int (mode st) x)"
    using f32_pattern [OF n(2)] by simp_all
qed

lemma f32_rounded_self:
  assumes "f32_rounded st zs x res" and "\<bar>x\<bar> * 2 ^ 149 = real (M * 2 ^ j)" and "M \<le> 2 ^ 24" and "j \<le> 200"
  shows "f32_finite (fst res)" and "f32_real (fst res) = x" and "snd res = st"
proof -
  define s where "s \<longleftrightarrow> (if x = 0 then zs else x < 0)"
  obtain n where n: "fmag 23 n = M * 2 ^ j" using fmag_multiple [of M 23 j] assms(3) by auto
  have "M * 2 ^ j < 2 ^ 23 * 2 ^ 254"
  proof -
    have "M * 2 ^ j \<le> 2 ^ 24 * 2 ^ 200" using assms(3,4) by (intro mult_le_mono power_increasing) simp_all
    then show ?thesis by simp
  qed
  then have "fmag 23 n < fmag 23 (fp_inf 23 255)" unfolding n by (simp add: fmag_def)
  then have inf: "n < fp_inf 23 255" by (simp only: fmag_less_iff)
  have "fl_result 23 255 st s (\<bar>x\<bar> * 2 ^ 149) (of_bool s * fp_half 23 255 + n) st"
    by (rule fl_result_exact [OF inf]) (simp_all only: assms(2) n)
  with assms(1) have u: "unat (fst res) = of_bool s * fp_half 23 255 + n" and "snd res = st"
    unfolding f32_rounded_def s_def [symmetric] using fl_result_unique by blast+
  then show "snd res = st" by simp
  show "f32_finite (fst res)" by (rule f32_pattern [OF u inf])
  have "f32_real (fst res) = (if s then - 1 else 1) * (\<bar>x\<bar> * 2 ^ 149) / 2 ^ 149"
    unfolding f32_pattern(2) [OF u inf] assms(2) n ..
  then show "f32_real (fst res) = x" by (auto simp: s_def split: if_splits)
qed

lemma f32_sign_real: "f32_real z \<noteq> 0 \<Longrightarrow> 2 ^ 31 \<le> unat z \<longleftrightarrow> f32_real z < 0"
  by (auto simp: f32_real_def divide_less_0_iff zero_less_divide_iff split: if_splits)

lemma f32_real_sign: "2 ^ 31 \<le> unat z \<Longrightarrow> f32_real z \<le> 0" "\<not> 2 ^ 31 \<le> unat z \<Longrightarrow> 0 \<le> f32_real z"
  by (simp_all add: f32_real_def)

lemma f32_rounded_int:
  assumes "f32_rounded st zs (of_int k) res" and "\<bar>k\<bar> \<le> 2 ^ 24"
  shows "f32_finite (fst res)" and "f32_real (fst res) = of_int k" and "snd res = st"
proof -
  have "\<bar>real_of_int k\<bar> * 2 ^ 149 = real (nat \<bar>k\<bar> * 2 ^ 149)" by simp
  moreover have "nat \<bar>k\<bar> \<le> 2 ^ 24" using assms(2) by (simp add: nat_le_iff)
  ultimately show "f32_finite (fst res)" "f32_real (fst res) = of_int k" "snd res = st"
    using f32_rounded_self [OF assms(1), of "nat \<bar>k\<bar>" 149] by simp_all
qed

text \<open>The constants \<open>2 ^ 23\<close> and \<open>1\<close>.\<close>

lemma f32_constants:
  "f32_finite 0x4B000000" "f32_real 0x4B000000 = 2 ^ 23"
  "f32_finite 0x3F800000" "f32_real 0x3F800000 = 1" "f32_finite 0" "f32_real 0 = 0"
  by (simp_all add: f32_finite_def f32_real_def fmag_def)

text \<open>The result of moving a number to the binade of spacing one and back.\<close>

definition f32_rint :: "float32_t \<Rightarrow> softfloat_state \<Rightarrow> float32_t \<times> softfloat_state" where
  "f32_rint a st =
     (if 2 ^ 31 \<le> unat a then let (d, st) = f32_sub a 0x4B000000 st in f32_add d 0x4B000000 st
      else let (d, st) = f32_add a 0x4B000000 st in f32_sub d 0x4B000000 st)"

lemma f32_rint:
  assumes "f32_finite a" and "\<bar>f32_real a\<bar> < 2 ^ 23"
  shows "f32_finite (fst (f32_rint a st))" and "f32_real (fst (f32_rint a st)) = of_int (round_int (mode st) (f32_real a))"
    and "softfloat_roundingMode (snd (f32_rint a st)) = softfloat_roundingMode st"
proof -
  define x r where "x = f32_real a" and "r = round_int (mode st) x"
  have rb: "\<bar>r\<bar> \<le> 2 ^ 23" using round_int_abs [of x "2 ^ 23"] assms(2) by (simp add: x_def r_def)
  have "f32_finite (fst (f32_rint a st)) \<and> f32_real (fst (f32_rint a st)) = of_int r \<and> softfloat_roundingMode (snd (f32_rint a st)) = softfloat_roundingMode st"
  proof (cases "2 ^ 31 \<le> unat a")
    case True
    have x0: "x \<le> 0" using f32_real_sign(1) [OF True] by (simp add: x_def)
    obtain d st1 where d: "f32_sub a 0x4B000000 st = (d, st1)" by fastforce
    note R = f32_sub_correct [OF assms(1) f32_constants(1), of st, unfolded d f32_constants x_def [symmetric]]
    have "f32_finite d" "f32_real d = of_int (r - 2 ^ 23)" "softfloat_roundingMode st1 = softfloat_roundingMode st"
      using f32_rounded_unit [OF R] f32_rounded_mode [OF R] assms(2) x0 round_int_shift_down [OF x0, of "2 ^ 23" "mode st"]
      by (simp_all add: x_def r_def)
    note d' = this
    note R2 = f32_add_correct [OF d'(1) f32_constants(1), of st1, unfolded d'(2) f32_constants]
    have "f32_rint a st = f32_add d 0x4B000000 st1" using True d by (simp add: f32_rint_def)
    then show ?thesis using f32_rounded_int [of st1 _ r] R2 rb d'(3) by simp
  next
    case False
    have x0: "0 \<le> x" using f32_real_sign(2) [OF False] by (simp add: x_def)
    obtain d st1 where d: "f32_add a 0x4B000000 st = (d, st1)" by fastforce
    note R = f32_add_correct [OF assms(1) f32_constants(1), of st, unfolded d f32_constants x_def [symmetric]]
    have "f32_finite d" "f32_real d = of_int (r + 2 ^ 23)" "softfloat_roundingMode st1 = softfloat_roundingMode st"
      using f32_rounded_unit [OF R] f32_rounded_mode [OF R] assms(2) x0 round_int_shift_up [OF x0, of "2 ^ 23" "mode st"]
      by (simp_all add: x_def r_def)
    note d' = this
    note R2 = f32_sub_correct [OF d'(1) f32_constants(1), of st1, unfolded d'(2) f32_constants]
    have "f32_rint a st = f32_sub d 0x4B000000 st1" using False d by (simp add: f32_rint_def)
    then show ?thesis using f32_rounded_int [of st1 _ r] R2 rb d'(3) by simp
  qed
  then show "f32_finite (fst (f32_rint a st))" "f32_real (fst (f32_rint a st)) = of_int (round_int (mode st) (f32_real a))"
    "softfloat_roundingMode (snd (f32_rint a st)) = softfloat_roundingMode st" by (simp_all add: r_def x_def)
qed

lemma f32_finite_not_nan: "f32_finite a \<Longrightarrow> \<not> f32_nan a"
  by (simp add: f32_finite_def f32_nan_def)

lemma f32_magnitude:
  assumes "n = unat a mod 2 ^ 31" and "E = n div 2 ^ 23"
  shows "E < 150 \<Longrightarrow> \<bar>f32_real a\<bar> < 2 ^ 23"
proof -
  define M where "M = fp_sig 23 n"
  note fl = f32_int_fields [OF assms M_def refl]
  have x: "\<bar>f32_real a\<bar> = real M * 2 ^ (E - 1) / 2 ^ 149" unfolding fl(6) by (simp add: abs_mult abs_divide)
  have M: "real M < 2 ^ 24" using fl(5) by (simp add: of_nat_less_numeral_power_cancel_iff)
  have "real M * 2 ^ (E - 1) < 2 ^ 24 * 2 ^ 148" if "E < 150" using M that by (intro mult_less_le_imp_less power_increasing) simp_all
  then show "E < 150 \<Longrightarrow> \<bar>f32_real a\<bar> < 2 ^ 23" unfolding x by (simp add: divide_less_eq)
qed

lemma f32_integral_intro:
  assumes "f32_finite z" and "f32_real z = of_int (round_int m (f32_real a))" and "2 ^ 31 \<le> unat z \<longleftrightarrow> 2 ^ 31 \<le> unat a"
  shows "f32_integral m False a st (z, st)"
  using assms by (simp add: f32_integral_def)

lemma f32_nearest_integral:
  assumes "f32_finite a"
  shows "f32_integral (mode st) False a st (fst (eosio_f32_nearest a st), st)"
proof -
  define n E where "n = unat a mod 2 ^ 31" and "E = n div 2 ^ 23"
  note f = f32_api_fields [OF n_def E_def]
  show ?thesis
  proof (cases "150 \<le> E")
    case True
    then have "eosio_f32_nearest a st = (a, st)" by (simp add: eosio_f32_nearest_def Let_def f)
    then show ?thesis using f32_roundToInt_large [OF n_def E_def True assms, of "mode st" False st] by simp
  next
    case False
    obtain y st1 where y: "f32_rint a st = (y, st1)" by fastforce
    have mag: "\<bar>f32_real a\<bar> < 2 ^ 23" using f32_magnitude [OF n_def E_def] False by simp
    have Y: "f32_finite y" "f32_real y = of_int (round_int (mode st) (f32_real a))"
      using f32_rint(1,2) [OF assms mag, of st] by (simp_all add: y)
    have "f32_eq y 0 st1 = (f32_real y = 0, st1)"
      using f32_compare_number(1) [OF f32_finite_not_nan f32_finite_not_nan, OF Y(1) f32_constants(5)] by (simp add: f32_constants)
    then have e: "fst (eosio_f32_nearest a st) = (if f32_real y = 0 then if 2 ^ 31 \<le> unat a then 0x80000000 else 0 else y)"
      using False f y by (auto simp: eosio_f32_nearest_def Let_def f32_rint_def split: prod.splits if_splits)
    show ?thesis
    proof (cases "f32_real y = 0")
      case True
      then show ?thesis unfolding e using Y by (auto intro!: f32_integral_intro simp: f32_finite_def f32_real_def)
    next
      case False
      have "f32_real y < 0 \<longleftrightarrow> 2 ^ 31 \<le> unat a"
        using False Y(2) f32_real_sign [of a] round_int_bounds [where x = "f32_real a" and m = "mode st"] by (auto simp: not_le) linarith+
      then show ?thesis unfolding e using False Y f32_sign_real [OF False] by (auto intro!: f32_integral_intro)
    qed
  qed
qed


end
