(* ===== verification/Api_Convert.thy ===== *)
theory Api_Convert
  imports Api_Nearest
begin

text \<open>
  The remaining intrinsics of \<open>softfloat_api\<close>: sign operations, minimum and maximum, the two
  comparisons that are derived from others, and the checked conversions to integers, which throw
  on a NaN and outside the range of the target type and otherwise truncate exactly.
\<close>

lemma clear_top_bit: "LENGTH('a) = Suc n \<Longrightarrow> (a :: 'a::len word) AND NOT (push_bit n 1) = take_bit n a"
  by (auto intro!: bit_word_eqI simp: bit_simps less_Suc_eq)

section \<open>32-bit: signs, minimum, maximum, comparisons\<close>

lemma f32_sign_bit_iff [simp]: "f32_sign_bit a \<longleftrightarrow> 2 ^ 31 \<le> unat a"
  unfolding f32_sign_bit_def by (rule f32_api_fields(2) [OF refl refl])

lemma f32_is_nan_iff [simp]: "f32_is_nan a \<longleftrightarrow> f32_nan a"
proof -
  have "unat (a AND 0x7FFFFFFF) = unat a mod 2 ^ 31" using unat_and_mask [of a 31] by simp
  then show ?thesis by (simp add: f32_is_nan_def f32_nan_def word_less_nat_alt)
qed

text \<open>Setting the sign bit and keeping the magnitude.\<close>

lemma f32_set_sign:
  "unat (a AND NOT (push_bit 31 1) OR push_bit 31 (of_bool s) :: float32_t) = of_bool s * 2 ^ 31 + unat a mod 2 ^ 31"
proof -
  define c where "c = a AND NOT (push_bit 31 1)"
  have "c = take_bit 31 a" unfolding c_def by (rule clear_top_bit) simp
  then have u: "unat c = unat a mod 2 ^ 31" by (simp add: unat_take_bit)
  have p: "unat (push_bit 31 (of_bool s) :: float32_t) = of_bool s * 2 ^ 31" by (cases s) simp_all
  have "unat (c OR push_bit 31 (of_bool s)) = unat c + unat (push_bit 31 (of_bool s) :: float32_t)"
    by (rule unat_or_disjoint [of _ 31]) (simp_all only: u p, simp_all)
  then show ?thesis unfolding c_def [symmetric] u p by simp
qed

lemma f32_signs:
  "unat (eosio_f32_abs a) = unat a mod 2 ^ 31"
  "unat (eosio_f32_neg a) = of_bool (\<not> 2 ^ 31 \<le> unat a) * 2 ^ 31 + unat a mod 2 ^ 31"
  "unat (eosio_f32_copysign a b) = of_bool (2 ^ 31 \<le> unat b) * 2 ^ 31 + unat a mod 2 ^ 31"
proof -
  note sb = f32_api_fields(2) [OF refl refl]
  show "unat (eosio_f32_abs a) = unat a mod 2 ^ 31" using f32_set_sign [of a False] by (simp add: eosio_f32_abs_def)
  show "unat (eosio_f32_neg a) = of_bool (\<not> 2 ^ 31 \<le> unat a) * 2 ^ 31 + unat a mod 2 ^ 31"
    using f32_set_sign [of a "drop_bit 31 a = 0"] sb [of a] unfolding eosio_f32_neg_def Let_def by simp
  have "drop_bit 31 b = of_bool (2 ^ 31 \<le> unat b)"
    using sb [of b] unat_f32_less [of b] by (auto simp: word_unat_eq_iff unat_drop_bit intro!: div_nat_eqI)
  then show "unat (eosio_f32_copysign a b) = of_bool (2 ^ 31 \<le> unat b) * 2 ^ 31 + unat a mod 2 ^ 31"
    using f32_set_sign [of a "2 ^ 31 \<le> unat b"] unfolding eosio_f32_copysign_def Let_def by simp
qed

lemma f32_sign_values:
  "f32_real (eosio_f32_abs a) = \<bar>f32_real a\<bar>" "f32_real (eosio_f32_neg a) = - f32_real a"
  "f32_real (eosio_f32_copysign a b) = (if 2 ^ 31 \<le> unat b then - \<bar>f32_real a\<bar> else \<bar>f32_real a\<bar>)"
  by (simp_all add: f32_real_def f32_signs abs_mult abs_divide of_bool_def)

lemma f32_real_inj: "f32_real a = f32_real b \<Longrightarrow> (2 ^ 31 \<le> unat a) = (2 ^ 31 \<le> unat b) \<Longrightarrow> a = b"
proof -
  assume e: "f32_real a = f32_real b" "(2 ^ 31 \<le> unat a) = (2 ^ 31 \<le> unat b)"
  then have "real (fmag 23 (unat a mod 2 ^ 31)) = real (fmag 23 (unat b mod 2 ^ 31))"
    by (auto simp: f32_real_def split: if_splits)
  then have m: "unat a mod 2 ^ 31 = unat b mod 2 ^ 31" by (simp only: of_nat_eq_iff fmag_eq_iff)
  have u: "unat c = of_bool (2 ^ 31 \<le> unat c) * 2 ^ 31 + unat c mod 2 ^ 31" for c :: float32_t
    using unat_sign_index [of "ucast c"] unat_f32_less [of c] by simp
  have "unat a = of_bool (2 ^ 31 \<le> unat b) * 2 ^ 31 + unat b mod 2 ^ 31"
    using u [of a] unfolding m e(2) .
  also have "\<dots> = unat b" by (rule u [symmetric])
  finally show ?thesis by (simp only: word_unat_eq_iff)
qed

lemma f32_min_max:
  assumes "\<not> f32_nan a" and "\<not> f32_nan b"
  shows "eosio_f32_min a b st = (if f32_real a < f32_real b \<or> f32_real a = f32_real b \<and> 2 ^ 31 \<le> unat a then a else b, st)"
    and "eosio_f32_max a b st = (if f32_real a < f32_real b \<or> f32_real a = f32_real b \<and> 2 ^ 31 \<le> unat a then b else a, st)"
proof -
  have same: "a = b" if "f32_real a = f32_real b" "2 ^ 31 \<le> unat a \<longleftrightarrow> 2 ^ 31 \<le> unat b"
    by (rule f32_real_inj [OF that])
  note lt = f32_cmp.lt_number [OF assms, of st] and rs = f32_real_sign [of a] f32_real_sign [of b]
  show "eosio_f32_min a b st = (if f32_real a < f32_real b \<or> f32_real a = f32_real b \<and> 2 ^ 31 \<le> unat a then a else b, st)"
    unfolding eosio_f32_min_def Let_def lt using assms rs same by auto
  show "eosio_f32_max a b st = (if f32_real a < f32_real b \<or> f32_real a = f32_real b \<and> 2 ^ 31 \<le> unat a then b else a, st)"
    unfolding eosio_f32_max_def Let_def lt using assms rs same by auto
qed

lemma f32_gt_ge:
  "eosio_f32_gt a b st = (\<not> f32_nan a \<and> \<not> f32_nan b \<and> f32_real b < f32_real a, st)"
  "eosio_f32_ge a b st = (\<not> f32_nan a \<and> \<not> f32_nan b \<and> f32_real b \<le> f32_real a, st)"
  using f32_cmp.le_number [of a b st] f32_cmp.lt_number [of a b st]
  by (auto simp: eosio_f32_gt_def eosio_f32_ge_def not_le not_less)

section \<open>64-bit: signs, minimum, maximum, comparisons\<close>

lemma f64_sign_bit_iff [simp]: "f64_sign_bit a \<longleftrightarrow> 2 ^ 63 \<le> unat a"
  unfolding f64_sign_bit_def by (rule f64_api_fields(2) [OF refl refl])

lemma f64_is_nan_iff [simp]: "f64_is_nan a \<longleftrightarrow> f64_nan a"
proof -
  have "unat (a AND 0x7FFFFFFFFFFFFFFF) = unat a mod 2 ^ 63" using unat_and_mask [of a 63] by simp
  then show ?thesis by (simp add: f64_is_nan_def f64_nan_def word_less_nat_alt)
qed

text \<open>Setting the sign bit and keeping the magnitude.\<close>

lemma f64_set_sign:
  "unat (a AND NOT (push_bit 63 1) OR push_bit 63 (of_bool s) :: float64_t) = of_bool s * 2 ^ 63 + unat a mod 2 ^ 63"
proof -
  define c where "c = a AND NOT (push_bit 63 1)"
  have "c = take_bit 63 a" unfolding c_def by (rule clear_top_bit) simp
  then have u: "unat c = unat a mod 2 ^ 63" by (simp add: unat_take_bit)
  have p: "unat (push_bit 63 (of_bool s) :: float64_t) = of_bool s * 2 ^ 63" by (cases s) simp_all
  have "unat (c OR push_bit 63 (of_bool s)) = unat c + unat (push_bit 63 (of_bool s) :: float64_t)"
    by (rule unat_or_disjoint [of _ 63]) (simp_all only: u p, simp_all)
  then show ?thesis unfolding c_def [symmetric] u p by simp
qed

lemma f64_signs:
  "unat (eosio_f64_abs a) = unat a mod 2 ^ 63"
  "unat (eosio_f64_neg a) = of_bool (\<not> 2 ^ 63 \<le> unat a) * 2 ^ 63 + unat a mod 2 ^ 63"
  "unat (eosio_f64_copysign a b) = of_bool (2 ^ 63 \<le> unat b) * 2 ^ 63 + unat a mod 2 ^ 63"
proof -
  note sb = f64_api_fields(2) [OF refl refl]
  show "unat (eosio_f64_abs a) = unat a mod 2 ^ 63" using f64_set_sign [of a False] by (simp add: eosio_f64_abs_def)
  show "unat (eosio_f64_neg a) = of_bool (\<not> 2 ^ 63 \<le> unat a) * 2 ^ 63 + unat a mod 2 ^ 63"
    using f64_set_sign [of a "drop_bit 63 a = 0"] sb [of a] unfolding eosio_f64_neg_def Let_def by simp
  have "drop_bit 63 b = of_bool (2 ^ 63 \<le> unat b)"
    using sb [of b] unat_f64_less [of b] by (auto simp: word_unat_eq_iff unat_drop_bit intro!: div_nat_eqI)
  then show "unat (eosio_f64_copysign a b) = of_bool (2 ^ 63 \<le> unat b) * 2 ^ 63 + unat a mod 2 ^ 63"
    using f64_set_sign [of a "2 ^ 63 \<le> unat b"] unfolding eosio_f64_copysign_def Let_def by simp
qed

lemma f64_sign_values:
  "f64_real (eosio_f64_abs a) = \<bar>f64_real a\<bar>" "f64_real (eosio_f64_neg a) = - f64_real a"
  "f64_real (eosio_f64_copysign a b) = (if 2 ^ 63 \<le> unat b then - \<bar>f64_real a\<bar> else \<bar>f64_real a\<bar>)"
  by (simp_all add: f64_real_def f64_signs abs_mult abs_divide of_bool_def)

lemma f64_real_inj: "f64_real a = f64_real b \<Longrightarrow> (2 ^ 63 \<le> unat a) = (2 ^ 63 \<le> unat b) \<Longrightarrow> a = b"
proof -
  assume e: "f64_real a = f64_real b" "(2 ^ 63 \<le> unat a) = (2 ^ 63 \<le> unat b)"
  then have "real (fmag 52 (unat a mod 2 ^ 63)) = real (fmag 52 (unat b mod 2 ^ 63))"
    by (auto simp: f64_real_def split: if_splits)
  then have m: "unat a mod 2 ^ 63 = unat b mod 2 ^ 63" by (simp only: of_nat_eq_iff fmag_eq_iff)
  have u: "unat c = of_bool (2 ^ 63 \<le> unat c) * 2 ^ 63 + unat c mod 2 ^ 63" for c :: float64_t
    using unat_sign_indexF64 [of c] by simp
  have "unat a = of_bool (2 ^ 63 \<le> unat b) * 2 ^ 63 + unat b mod 2 ^ 63"
    using u [of a] unfolding m e(2) .
  also have "\<dots> = unat b" by (rule u [symmetric])
  finally show ?thesis by (simp only: word_unat_eq_iff)
qed

lemma f64_min_max:
  assumes "\<not> f64_nan a" and "\<not> f64_nan b"
  shows "eosio_f64_min a b st = (if f64_real a < f64_real b \<or> f64_real a = f64_real b \<and> 2 ^ 63 \<le> unat a then a else b, st)"
    and "eosio_f64_max a b st = (if f64_real a < f64_real b \<or> f64_real a = f64_real b \<and> 2 ^ 63 \<le> unat a then b else a, st)"
proof -
  have same: "a = b" if "f64_real a = f64_real b" "2 ^ 63 \<le> unat a \<longleftrightarrow> 2 ^ 63 \<le> unat b"
    by (rule f64_real_inj [OF that])
  note lt = f64_cmp.lt_number [OF assms, of st] and rs = f64_real_sign [of a] f64_real_sign [of b]
  show "eosio_f64_min a b st = (if f64_real a < f64_real b \<or> f64_real a = f64_real b \<and> 2 ^ 63 \<le> unat a then a else b, st)"
    unfolding eosio_f64_min_def Let_def lt using assms rs same by auto
  show "eosio_f64_max a b st = (if f64_real a < f64_real b \<or> f64_real a = f64_real b \<and> 2 ^ 63 \<le> unat a then b else a, st)"
    unfolding eosio_f64_max_def Let_def lt using assms rs same by auto
qed

lemma f64_gt_ge:
  "eosio_f64_gt a b st = (\<not> f64_nan a \<and> \<not> f64_nan b \<and> f64_real b < f64_real a, st)"
  "eosio_f64_ge a b st = (\<not> f64_nan a \<and> \<not> f64_nan b \<and> f64_real b \<le> f64_real a, st)"
  using f64_cmp.le_number [of a b st] f64_cmp.lt_number [of a b st]
  by (auto simp: eosio_f64_gt_def eosio_f64_ge_def not_le not_less)

section \<open>Checked truncation\<close>

text \<open>
  What a checked truncation promises: a NaN is rejected as unrepresentable (with the invalid flag
  that the ordered comparison raises), a number outside the range as an overflow, and any other
  number is converted to the integer obtained by dropping its fraction, without touching the state.
\<close>

definition truncates :: "string \<Rightarrow> bool \<Rightarrow> bool \<Rightarrow> real \<Rightarrow> softfloat_state \<Rightarrow> ('a \<Rightarrow> int) \<Rightarrow> (ftl_exception + 'a) \<times> softfloat_state \<Rightarrow> bool" where
  "truncates name nan inrange x st val res \<longleftrightarrow>
     (if nan then res = (Inl (wasm_runtime_exception (''Error, '' @ name @ '' unrepresentable'')), softfloat_raiseFlags softfloat_flag_invalid st)
      else if inrange then (\<exists>w. res = (Inr w, st) \<and> val w = round_int Round_minMag x)
      else res = (Inl (wasm_runtime_exception (''Error, '' @ name @ '' overflow'')), st))"

lemma sint_word_of_int_small: "- (2 ^ (LENGTH('a) - 1)) \<le> k \<Longrightarrow> k \<le> 2 ^ (LENGTH('a) - 1) - 1 \<Longrightarrow> sint (word_of_int k :: 'a::len word) = k"
  by (simp add: sint_sbintrunc' signed_take_bit_int_eq_self)

lemma uint_ucast_small: "uint (w :: 'a::len word) < 2 ^ LENGTH('b) \<Longrightarrow> uint (ucast w :: 'b::len word) = uint w"
  by (simp add: unsigned_ucast_eq take_bit_int_eq_self)

lemma int_rounded_of_int: "lo \<le> k \<Longrightarrow> k \<le> hi \<Longrightarrow> int_rounded lo hi dflt m False (of_int k) st = (k, st)"
  by (simp add: int_rounded_def round_int_of_int)

lemma round_minMag_range:
  "of_int lo \<le> x \<Longrightarrow> x < of_int hi \<Longrightarrow> lo \<le> 0 \<Longrightarrow> 0 < hi \<Longrightarrow> lo \<le> round_int Round_minMag x \<and> round_int Round_minMag x \<le> hi - 1"
  "- 1 < x \<Longrightarrow> x < of_int hi \<Longrightarrow> 0 < hi \<Longrightarrow> 0 \<le> round_int Round_minMag x \<and> round_int Round_minMag x \<le> hi - 1"
  unfolding round_int_minMag by (auto simp: le_ceiling_iff floor_less_iff ceiling_le_iff) linarith+

lemma f32_small_finite: "\<not> f32_nan a \<Longrightarrow> \<bar>f32_real a\<bar> < 2 ^ 100 \<Longrightarrow> f32_finite a"
proof (rule ccontr)
  assume a: "\<not> f32_nan a" "\<bar>f32_real a\<bar> < 2 ^ 100" "\<not> f32_finite a"
  then have "unat a mod 2 ^ 31 = fp_inf 23 255" by (simp add: f32_nan_def f32_finite_def)
  then have "\<bar>f32_real a\<bar> = 2 ^ 128" by (simp add: f32_real_def fmag_def abs_mult abs_divide)
  with a(2) show False by simp
qed

lemma f32_trunc_real: "f32_finite a \<Longrightarrow> f32_real (eosio_f32_trunc a) = of_int (round_int Round_minMag (f32_real a))"
  using f32_roundToInt_correct [of a softfloat_round_minMag False softfloat_init]
  by (simp add: f32_trunc_eq [OF f32_finite_not_nan, of a False softfloat_init] f32_integral_def rmode_of_def)

lemma f64_small_finite: "\<not> f64_nan a \<Longrightarrow> \<bar>f64_real a\<bar> < 2 ^ 100 \<Longrightarrow> f64_finite a"
proof (rule ccontr)
  assume a: "\<not> f64_nan a" "\<bar>f64_real a\<bar> < 2 ^ 100" "\<not> f64_finite a"
  then have "unat a mod 2 ^ 63 = fp_inf 52 2047" by (simp add: f64_nan_def f64_finite_def)
  then have "\<bar>f64_real a\<bar> = 2 ^ 1024" by (simp add: f64_real_def fmag_def abs_mult abs_divide)
  with a(2) show False by simp
qed

lemma f64_trunc_real: "f64_finite a \<Longrightarrow> f64_real (eosio_f64_trunc a) = of_int (round_int Round_minMag (f64_real a))"
  using f64_roundToInt_correct [of a softfloat_round_minMag False softfloat_init]
  by (simp add: f64_trunc_eq [OF f64_finite_not_nan, of a False softfloat_init] f64_integral_def rmode_of_def)

lemma eosio_f32_trunc_i32s_truncates:
  "truncates ''f32.convert_s/i32'' (f32_nan a) (- (2 ^ 31) \<le> f32_real a \<and> f32_real a < 2 ^ 31) (f32_real a) st sint (eosio_f32_trunc_i32s a st)"
proof (cases "f32_nan a")
  case True
  then show ?thesis
    by (simp add: eosio_f32_trunc_i32s_def truncates_def f32_gt_ge eosio_f32_lt_def f32_cmp.lt_nan)
next
  case False
  have "\<not> f32_nan 0xCF000000" "\<not> f32_nan 0x4F000000" "f32_real 0xCF000000 = - (2 ^ 31)" "f32_real 0x4F000000 = 2 ^ 31"
    by (simp_all add: f32_nan_def f32_real_def fmag_def)
  then have c: "eosio_f32_ge a 0x4F000000 st = (2 ^ 31 \<le> f32_real a, st)" "eosio_f32_lt a 0xCF000000 st = (f32_real a < - (2 ^ 31), st)"
    using False f32_cmp.lt_number [of a "0xCF000000" st] by (simp_all add: f32_gt_ge eosio_f32_lt_def)
  show ?thesis
  proof (cases "- (2 ^ 31) \<le> f32_real a \<and> f32_real a < 2 ^ 31")
    case True
    define k where "k = round_int Round_minMag (f32_real a)"
    have "f32_finite a" using True by (intro f32_small_finite [OF False]) (auto simp: abs_less_iff)
    then have t: "f32_real (eosio_f32_trunc a) = of_int k" unfolding k_def by (rule f32_trunc_real)
    have kb: "- (2 ^ 31) \<le> k" "k \<le> 2 ^ 31 - 1" using round_minMag_range(1) [of "- (2 ^ 31)" "f32_real a" "2 ^ 31"] True by (simp_all add: k_def)
    have "f32_to_i32 (eosio_f32_trunc a) softfloat_round_near_even False st = (k, st)"
      unfolding f32_to_i32_eq t by (rule int_rounded_of_int [OF kb])
    moreover have "sint (word_of_int k :: u32) = k" using kb by (simp add: sint_word_of_int_small)
    ultimately show ?thesis using False True c unfolding eosio_f32_trunc_i32s_def truncates_def k_def by (simp add: not_le not_less)
  next
    case out: False
    then show ?thesis using False c unfolding eosio_f32_trunc_i32s_def truncates_def by (auto simp: not_le not_less)
  qed
qed

lemma eosio_f32_trunc_i32u_truncates:
  "truncates ''f32.convert_u/i32'' (f32_nan a) (- 1 < f32_real a \<and> f32_real a < 2 ^ 32) (f32_real a) st uint (eosio_f32_trunc_i32u a st)"
proof (cases "f32_nan a")
  case True
  then show ?thesis
    by (simp add: eosio_f32_trunc_i32u_def truncates_def f32_gt_ge eosio_f32_le_def f32_cmp.le_nan)
next
  case False
  have "\<not> f32_nan 0xBF800000" "\<not> f32_nan 0x4F800000" "f32_real 0xBF800000 = - 1" "f32_real 0x4F800000 = 2 ^ 32"
    by (simp_all add: f32_nan_def f32_real_def fmag_def)
  then have c: "eosio_f32_ge a 0x4F800000 st = (2 ^ 32 \<le> f32_real a, st)" "eosio_f32_le a 0xBF800000 st = (f32_real a \<le> - 1, st)"
    using False f32_cmp.le_number [of a "0xBF800000" st] by (simp_all add: f32_gt_ge eosio_f32_le_def)
  show ?thesis
  proof (cases "- 1 < f32_real a \<and> f32_real a < 2 ^ 32")
    case True
    define k where "k = round_int Round_minMag (f32_real a)"
    have "f32_finite a" using True by (intro f32_small_finite [OF False]) (auto simp: abs_less_iff)
    then have t: "f32_real (eosio_f32_trunc a) = of_int k" unfolding k_def by (rule f32_trunc_real)
    have kb: "0 \<le> k" "k \<le> 2 ^ 32 - 1" using round_minMag_range(2) [of "f32_real a" "2 ^ 32"] True by (simp_all add: k_def)
    obtain w st' where w: "f32_to_ui32 (eosio_f32_trunc a) softfloat_round_near_even False st = (w, st')" by fastforce
    have "apfst uint (f32_to_ui32 (eosio_f32_trunc a) softfloat_round_near_even False st) = (k, st)"
      unfolding f32_to_ui32_eq t by (rule int_rounded_of_int [OF kb])
    then have "uint w = k" "st' = st" by (simp_all add: w)
    moreover from this have "uint (ucast w :: u32) = k" using kb by (simp add: uint_ucast_small)
    ultimately show ?thesis using False True c w unfolding eosio_f32_trunc_i32u_def truncates_def k_def by (simp add: not_le not_less)
  next
    case out: False
    then show ?thesis using False c unfolding eosio_f32_trunc_i32u_def truncates_def by (auto simp: not_le not_less)
  qed
qed

lemma eosio_f32_trunc_i64s_truncates:
  "truncates ''f32.convert_s/i64'' (f32_nan a) (- (2 ^ 63) \<le> f32_real a \<and> f32_real a < 2 ^ 63) (f32_real a) st sint (eosio_f32_trunc_i64s a st)"
proof (cases "f32_nan a")
  case True
  then show ?thesis
    by (simp add: eosio_f32_trunc_i64s_def truncates_def f32_gt_ge eosio_f32_lt_def f32_cmp.lt_nan)
next
  case False
  have "\<not> f32_nan 0xDF000000" "\<not> f32_nan 0x5F000000" "f32_real 0xDF000000 = - (2 ^ 63)" "f32_real 0x5F000000 = 2 ^ 63"
    by (simp_all add: f32_nan_def f32_real_def fmag_def)
  then have c: "eosio_f32_ge a 0x5F000000 st = (2 ^ 63 \<le> f32_real a, st)" "eosio_f32_lt a 0xDF000000 st = (f32_real a < - (2 ^ 63), st)"
    using False f32_cmp.lt_number [of a "0xDF000000" st] by (simp_all add: f32_gt_ge eosio_f32_lt_def)
  show ?thesis
  proof (cases "- (2 ^ 63) \<le> f32_real a \<and> f32_real a < 2 ^ 63")
    case True
    define k where "k = round_int Round_minMag (f32_real a)"
    have "f32_finite a" using True by (intro f32_small_finite [OF False]) (auto simp: abs_less_iff)
    then have t: "f32_real (eosio_f32_trunc a) = of_int k" unfolding k_def by (rule f32_trunc_real)
    have kb: "- (2 ^ 63) \<le> k" "k \<le> 2 ^ 63 - 1" using round_minMag_range(1) [of "- (2 ^ 63)" "f32_real a" "2 ^ 63"] True by (simp_all add: k_def)
    have "f32_to_i64 (eosio_f32_trunc a) softfloat_round_near_even False st = (k, st)"
      unfolding f32_to_i64_eq t by (rule int_rounded_of_int [OF kb])
    moreover have "sint (word_of_int k :: u64) = k" using kb by (simp add: sint_word_of_int_small)
    ultimately show ?thesis using False True c unfolding eosio_f32_trunc_i64s_def truncates_def k_def by (simp add: not_le not_less)
  next
    case out: False
    then show ?thesis using False c unfolding eosio_f32_trunc_i64s_def truncates_def by (auto simp: not_le not_less)
  qed
qed

lemma eosio_f32_trunc_i64u_truncates:
  "truncates ''f32.convert_u/i64'' (f32_nan a) (- 1 < f32_real a \<and> f32_real a < 2 ^ 64) (f32_real a) st uint (eosio_f32_trunc_i64u a st)"
proof (cases "f32_nan a")
  case True
  then show ?thesis
    by (simp add: eosio_f32_trunc_i64u_def truncates_def f32_gt_ge eosio_f32_le_def f32_cmp.le_nan)
next
  case False
  have "\<not> f32_nan 0xBF800000" "\<not> f32_nan 0x5F800000" "f32_real 0xBF800000 = - 1" "f32_real 0x5F800000 = 2 ^ 64"
    by (simp_all add: f32_nan_def f32_real_def fmag_def)
  then have c: "eosio_f32_ge a 0x5F800000 st = (2 ^ 64 \<le> f32_real a, st)" "eosio_f32_le a 0xBF800000 st = (f32_real a \<le> - 1, st)"
    using False f32_cmp.le_number [of a "0xBF800000" st] by (simp_all add: f32_gt_ge eosio_f32_le_def)
  show ?thesis
  proof (cases "- 1 < f32_real a \<and> f32_real a < 2 ^ 64")
    case True
    define k where "k = round_int Round_minMag (f32_real a)"
    have "f32_finite a" using True by (intro f32_small_finite [OF False]) (auto simp: abs_less_iff)
    then have t: "f32_real (eosio_f32_trunc a) = of_int k" unfolding k_def by (rule f32_trunc_real)
    have kb: "0 \<le> k" "k \<le> 2 ^ 64 - 1" using round_minMag_range(2) [of "f32_real a" "2 ^ 64"] True by (simp_all add: k_def)
    obtain w st' where w: "f32_to_ui64 (eosio_f32_trunc a) softfloat_round_near_even False st = (w, st')" by fastforce
    have "apfst uint (f32_to_ui64 (eosio_f32_trunc a) softfloat_round_near_even False st) = (k, st)"
      unfolding f32_to_ui64_eq t by (rule int_rounded_of_int [OF kb])
    then have "uint w = k" "st' = st" by (simp_all add: w)
    moreover from this have "uint (w :: u64) = k" using kb by (simp add: uint_ucast_small)
    ultimately show ?thesis using False True c w unfolding eosio_f32_trunc_i64u_def truncates_def k_def by (simp add: not_le not_less)
  next
    case out: False
    then show ?thesis using False c unfolding eosio_f32_trunc_i64u_def truncates_def by (auto simp: not_le not_less)
  qed
qed

lemma eosio_f64_trunc_i32s_truncates:
  "truncates ''f64.convert_s/i32'' (f64_nan a) (- (2 ^ 31) \<le> f64_real a \<and> f64_real a < 2 ^ 31) (f64_real a) st sint (eosio_f64_trunc_i32s a st)"
proof (cases "f64_nan a")
  case True
  then show ?thesis
    by (simp add: eosio_f64_trunc_i32s_def truncates_def f64_gt_ge eosio_f64_lt_def f64_cmp.lt_nan)
next
  case False
  have "\<not> f64_nan 0xC1E0000000000000" "\<not> f64_nan 0x41E0000000000000" "f64_real 0xC1E0000000000000 = - (2 ^ 31)" "f64_real 0x41E0000000000000 = 2 ^ 31"
    by (simp_all add: f64_nan_def f64_real_def fmag_def)
  then have c: "eosio_f64_ge a 0x41E0000000000000 st = (2 ^ 31 \<le> f64_real a, st)" "eosio_f64_lt a 0xC1E0000000000000 st = (f64_real a < - (2 ^ 31), st)"
    using False f64_cmp.lt_number [of a "0xC1E0000000000000" st] by (simp_all add: f64_gt_ge eosio_f64_lt_def)
  show ?thesis
  proof (cases "- (2 ^ 31) \<le> f64_real a \<and> f64_real a < 2 ^ 31")
    case True
    define k where "k = round_int Round_minMag (f64_real a)"
    have "f64_finite a" using True by (intro f64_small_finite [OF False]) (auto simp: abs_less_iff)
    then have t: "f64_real (eosio_f64_trunc a) = of_int k" unfolding k_def by (rule f64_trunc_real)
    have kb: "- (2 ^ 31) \<le> k" "k \<le> 2 ^ 31 - 1" using round_minMag_range(1) [of "- (2 ^ 31)" "f64_real a" "2 ^ 31"] True by (simp_all add: k_def)
    have "f64_to_i32 (eosio_f64_trunc a) softfloat_round_near_even False st = (k, st)"
      unfolding f64_to_i32_eq t by (rule int_rounded_of_int [OF kb])
    moreover have "sint (word_of_int k :: u32) = k" using kb by (simp add: sint_word_of_int_small)
    ultimately show ?thesis using False True c unfolding eosio_f64_trunc_i32s_def truncates_def k_def by (simp add: not_le not_less)
  next
    case out: False
    then show ?thesis using False c unfolding eosio_f64_trunc_i32s_def truncates_def by (auto simp: not_le not_less)
  qed
qed

lemma eosio_f64_trunc_i32u_truncates:
  "truncates ''f64.convert_u/i32'' (f64_nan a) (- 1 < f64_real a \<and> f64_real a < 2 ^ 32) (f64_real a) st uint (eosio_f64_trunc_i32u a st)"
proof (cases "f64_nan a")
  case True
  then show ?thesis
    by (simp add: eosio_f64_trunc_i32u_def truncates_def f64_gt_ge eosio_f64_le_def f64_cmp.le_nan)
next
  case False
  have "\<not> f64_nan 0xBFF0000000000000" "\<not> f64_nan 0x41F0000000000000" "f64_real 0xBFF0000000000000 = - 1" "f64_real 0x41F0000000000000 = 2 ^ 32"
    by (simp_all add: f64_nan_def f64_real_def fmag_def)
  then have c: "eosio_f64_ge a 0x41F0000000000000 st = (2 ^ 32 \<le> f64_real a, st)" "eosio_f64_le a 0xBFF0000000000000 st = (f64_real a \<le> - 1, st)"
    using False f64_cmp.le_number [of a "0xBFF0000000000000" st] by (simp_all add: f64_gt_ge eosio_f64_le_def)
  show ?thesis
  proof (cases "- 1 < f64_real a \<and> f64_real a < 2 ^ 32")
    case True
    define k where "k = round_int Round_minMag (f64_real a)"
    have "f64_finite a" using True by (intro f64_small_finite [OF False]) (auto simp: abs_less_iff)
    then have t: "f64_real (eosio_f64_trunc a) = of_int k" unfolding k_def by (rule f64_trunc_real)
    have kb: "0 \<le> k" "k \<le> 2 ^ 32 - 1" using round_minMag_range(2) [of "f64_real a" "2 ^ 32"] True by (simp_all add: k_def)
    obtain w st' where w: "f64_to_ui32 (eosio_f64_trunc a) softfloat_round_near_even False st = (w, st')" by fastforce
    have "apfst uint (f64_to_ui32 (eosio_f64_trunc a) softfloat_round_near_even False st) = (k, st)"
      unfolding f64_to_ui32_eq t by (rule int_rounded_of_int [OF kb])
    then have "uint w = k" "st' = st" by (simp_all add: w)
    moreover from this have "uint (ucast w :: u32) = k" using kb by (simp add: uint_ucast_small)
    ultimately show ?thesis using False True c w unfolding eosio_f64_trunc_i32u_def truncates_def k_def by (simp add: not_le not_less)
  next
    case out: False
    then show ?thesis using False c unfolding eosio_f64_trunc_i32u_def truncates_def by (auto simp: not_le not_less)
  qed
qed

lemma eosio_f64_trunc_i64s_truncates:
  "truncates ''f64.convert_s/i64'' (f64_nan a) (- (2 ^ 63) \<le> f64_real a \<and> f64_real a < 2 ^ 63) (f64_real a) st sint (eosio_f64_trunc_i64s a st)"
proof (cases "f64_nan a")
  case True
  then show ?thesis
    by (simp add: eosio_f64_trunc_i64s_def truncates_def f64_gt_ge eosio_f64_lt_def f64_cmp.lt_nan)
next
  case False
  have "\<not> f64_nan 0xC3E0000000000000" "\<not> f64_nan 0x43E0000000000000" "f64_real 0xC3E0000000000000 = - (2 ^ 63)" "f64_real 0x43E0000000000000 = 2 ^ 63"
    by (simp_all add: f64_nan_def f64_real_def fmag_def)
  then have c: "eosio_f64_ge a 0x43E0000000000000 st = (2 ^ 63 \<le> f64_real a, st)" "eosio_f64_lt a 0xC3E0000000000000 st = (f64_real a < - (2 ^ 63), st)"
    using False f64_cmp.lt_number [of a "0xC3E0000000000000" st] by (simp_all add: f64_gt_ge eosio_f64_lt_def)
  show ?thesis
  proof (cases "- (2 ^ 63) \<le> f64_real a \<and> f64_real a < 2 ^ 63")
    case True
    define k where "k = round_int Round_minMag (f64_real a)"
    have "f64_finite a" using True by (intro f64_small_finite [OF False]) (auto simp: abs_less_iff)
    then have t: "f64_real (eosio_f64_trunc a) = of_int k" unfolding k_def by (rule f64_trunc_real)
    have kb: "- (2 ^ 63) \<le> k" "k \<le> 2 ^ 63 - 1" using round_minMag_range(1) [of "- (2 ^ 63)" "f64_real a" "2 ^ 63"] True by (simp_all add: k_def)
    have "f64_to_i64 (eosio_f64_trunc a) softfloat_round_near_even False st = (k, st)"
      unfolding f64_to_i64_eq t by (rule int_rounded_of_int [OF kb])
    moreover have "sint (word_of_int k :: u64) = k" using kb by (simp add: sint_word_of_int_small)
    ultimately show ?thesis using False True c unfolding eosio_f64_trunc_i64s_def truncates_def k_def by (simp add: not_le not_less)
  next
    case out: False
    then show ?thesis using False c unfolding eosio_f64_trunc_i64s_def truncates_def by (auto simp: not_le not_less)
  qed
qed

lemma eosio_f64_trunc_i64u_truncates:
  "truncates ''f64.convert_u/i64'' (f64_nan a) (- 1 < f64_real a \<and> f64_real a < 2 ^ 64) (f64_real a) st uint (eosio_f64_trunc_i64u a st)"
proof (cases "f64_nan a")
  case True
  then show ?thesis
    by (simp add: eosio_f64_trunc_i64u_def truncates_def f64_gt_ge eosio_f64_le_def f64_cmp.le_nan)
next
  case False
  have "\<not> f64_nan 0xBFF0000000000000" "\<not> f64_nan 0x43F0000000000000" "f64_real 0xBFF0000000000000 = - 1" "f64_real 0x43F0000000000000 = 2 ^ 64"
    by (simp_all add: f64_nan_def f64_real_def fmag_def)
  then have c: "eosio_f64_ge a 0x43F0000000000000 st = (2 ^ 64 \<le> f64_real a, st)" "eosio_f64_le a 0xBFF0000000000000 st = (f64_real a \<le> - 1, st)"
    using False f64_cmp.le_number [of a "0xBFF0000000000000" st] by (simp_all add: f64_gt_ge eosio_f64_le_def)
  show ?thesis
  proof (cases "- 1 < f64_real a \<and> f64_real a < 2 ^ 64")
    case True
    define k where "k = round_int Round_minMag (f64_real a)"
    have "f64_finite a" using True by (intro f64_small_finite [OF False]) (auto simp: abs_less_iff)
    then have t: "f64_real (eosio_f64_trunc a) = of_int k" unfolding k_def by (rule f64_trunc_real)
    have kb: "0 \<le> k" "k \<le> 2 ^ 64 - 1" using round_minMag_range(2) [of "f64_real a" "2 ^ 64"] True by (simp_all add: k_def)
    obtain w st' where w: "f64_to_ui64 (eosio_f64_trunc a) softfloat_round_near_even False st = (w, st')" by fastforce
    have "apfst uint (f64_to_ui64 (eosio_f64_trunc a) softfloat_round_near_even False st) = (k, st)"
      unfolding f64_to_ui64_eq t by (rule int_rounded_of_int [OF kb])
    then have "uint w = k" "st' = st" by (simp_all add: w)
    moreover from this have "uint (w :: u64) = k" using kb by (simp add: uint_ucast_small)
    ultimately show ?thesis using False True c w unfolding eosio_f64_trunc_i64u_def truncates_def k_def by (simp add: not_le not_less)
  next
    case out: False
    then show ?thesis using False c unfolding eosio_f64_trunc_i64u_def truncates_def by (auto simp: not_le not_less)
  qed
qed

end
