(* ===== verification/WL_Name.thy ===== *)
theory WL_Name
  imports WL_Prelude
begin

unbundle bit_operations_syntax

text \<open>
  Names of accounts and actions (\<open>name.hpp\<close>, \<open>name.cpp\<close>): up to thirteen characters of a 32-letter
  alphabet packed into 64 bits, five bits per character and four for the thirteenth. A C string is
  the list of its characters; reading at or behind its end gives the terminating zero.
\<close>

section \<open>Encoding and decoding\<close>

definition char_at :: "string \<Rightarrow> nat \<Rightarrow> char" where
  "char_at s i = (if i < length s then s ! i else CHR 0x00)"

definition char_to_symbol :: "char \<Rightarrow> u64" where
  "char_to_symbol c =
     (if of_char CHR ''a'' \<le> (of_char c :: nat) \<and> (of_char c :: nat) \<le> of_char CHR ''z'' then (of_char c - of_char CHR ''a'') + 6
      else if of_char CHR ''1'' \<le> (of_char c :: nat) \<and> (of_char c :: nat) \<le> of_char CHR ''5'' then (of_char c - of_char CHR ''1'') + 1
      else 0)"

function string_to_name_loop :: "string \<Rightarrow> nat \<Rightarrow> u64 \<Rightarrow> nat \<times> u64" where
  "string_to_name_loop s i name =
     (if char_at s i \<noteq> CHR 0x00 \<and> i < 12
      then string_to_name_loop s (i + 1) (name OR push_bit (64 - 5 * (i + 1)) (char_to_symbol (char_at s i) AND 0x1F))
      else (i, name))"
  by pat_completeness auto
termination by (relation "measure (\<lambda>(s, i, name). 12 - i)") auto

definition string_to_name :: "string \<Rightarrow> u64" where
  "string_to_name s =
     (let (i, name) = string_to_name_loop s 0 0
      in if i = 12 then name OR (char_to_symbol (char_at s 12) AND 0x0F) else name)"

definition charmap :: string where "charmap = ''.12345abcdefghijklmnopqrstuvwxyz''"

definition trim_right_dots :: "string \<Rightarrow> string" where
  "trim_right_dots s = rev (dropWhile (\<lambda>c. c = CHR ''.'') (rev s))"

function name_chars :: "nat \<Rightarrow> u64 \<Rightarrow> string \<Rightarrow> string" where
  "name_chars i tmp str =
     (if i \<le> 12
      then name_chars (i + 1) (drop_bit (if i = 0 then 4 else 5) tmp)
             (str[12 - i := charmap ! unat (tmp AND (if i = 0 then 0x0F else 0x1F))])
      else str)"
  by pat_completeness auto
termination by (relation "measure (\<lambda>(i, tmp, str). 13 - i)") auto

definition name_to_string :: "u64 \<Rightarrow> string" where
  "name_to_string value = trim_right_dots (name_chars 0 value (replicate 13 CHR ''.''))"

definition strnlen :: "string \<Rightarrow> nat \<Rightarrow> nat" where
  "strnlen s n = min n (length (takeWhile (\<lambda>c. c \<noteq> CHR 0x00) s))"

definition name_set :: "string \<Rightarrow> u64 result" where
  "name_set str =
     bind_result (ftl_assert (strnlen str 14 \<le> 13) (invalid_name_exception (''Name is longer than 13 characters ($'' @ str @ '') '')))
       (\<lambda>_. let value = string_to_name str
             in bind_result (ftl_assert (name_to_string value = str)
                  (invalid_name_exception (''Name not properly normalized (name: $'' @ str @ '', normalized: $'' @ name_to_string value @ '') '')))
                  (\<lambda>_. Inr value))"

declare string_to_name_loop.simps [simp del] name_chars.simps [simp del]

section \<open>Symbols\<close>

lemma symbol_charmap: "i < 32 \<Longrightarrow> char_to_symbol (charmap ! i) = of_nat i \<and> charmap ! i \<noteq> CHR 0x00 \<and> (charmap ! i = CHR ''.'' \<longleftrightarrow> i = 0)"
proof -
  have "list_all (\<lambda>i. char_to_symbol (charmap ! i) = of_nat i \<and> charmap ! i \<noteq> CHR 0x00 \<and> (charmap ! i = CHR ''.'' \<longleftrightarrow> i = 0)) [0..<32]"
    by code_simp
  moreover assume "i < 32"
  ultimately show ?thesis by (auto simp: list_all_iff)
qed

text \<open>The digit of a name at a position.\<close>

definition name_digit :: "u64 \<Rightarrow> nat \<Rightarrow> nat" where
  "name_digit v j = (if j < 12 then unat (drop_bit (59 - 5 * j) v AND 0x1F) else unat (v AND 0x0F))"

lemma name_digit_less: "name_digit v j < 32"
proof -
  have "unat (w AND 0x1F :: u64) < 32" "unat (w AND 0x0F :: u64) < 32" for w
    using unat_and_mask [of w 5] unat_and_mask [of w 4] by simp_all
  then show ?thesis by (simp add: name_digit_def)
qed

lemma name_chars_digits: "name_chars 0 v (replicate 13 c) = map (\<lambda>j. charmap ! name_digit v j) [0..<13]"
  by (simp add: name_chars.simps name_digit_def eval_nat_numeral upt_rec)

section \<open>The encoding as a disjunction of digits\<close>

definition symbol_at :: "string \<Rightarrow> nat \<Rightarrow> u64" where "symbol_at s j = char_to_symbol (char_at s j)"

definition digits_word :: "(nat \<Rightarrow> u64) \<Rightarrow> nat \<Rightarrow> u64 \<Rightarrow> u64" where
  "digits_word f i w = fold (\<lambda>j w. w OR push_bit (59 - 5 * j) (f j AND 0x1F)) [i..<12] w"

lemma symbol_at_end: "length s \<le> j \<Longrightarrow> symbol_at s j = 0"
  by (simp add: symbol_at_def char_at_def char_to_symbol_def)

lemma digits_word_zero: "(\<And>j. i \<le> j \<Longrightarrow> f j = 0) \<Longrightarrow> digits_word f i w = w"
proof -
  assume "\<And>j. i \<le> j \<Longrightarrow> f j = 0"
  then have "fold (\<lambda>j w. w OR push_bit (59 - 5 * j) (f j AND 0x1F)) [i..<12] w = fold (\<lambda>j w. w) [i..<12] w"
    by (intro fold_cong) auto
  moreover have "fold (\<lambda>j w. w) xs w = w" for xs :: "nat list" by (induction xs) simp_all
  ultimately show ?thesis by (simp add: digits_word_def)
qed

lemma string_to_name_loop_digits:
  "CHR 0x00 \<notin> set s \<Longrightarrow> i \<le> 12 \<Longrightarrow> string_to_name_loop s i w = (max i (min 12 (length s)), digits_word (symbol_at s) i w)"
proof (induction "12 - i" arbitrary: i w)
  case 0
  then show ?case by (subst string_to_name_loop.simps) (auto simp: digits_word_def)
next
  case (Suc k)
  show ?case
  proof (cases "i < length s")
    case True
    have "i < 12" using Suc.hyps(2) by simp
    have "char_at s i \<noteq> CHR 0x00" using True Suc.prems(1) nth_mem [of i s] by (metis char_at_def)
    moreover have "[i..<12] = i # [i + 1..<12]" using Suc.hyps(2) by (simp add: upt_rec)
    ultimately show ?thesis
      using Suc.hyps(1) [of "i + 1"] Suc.hyps(2) Suc.prems(1) True \<open>i < 12\<close> by (subst string_to_name_loop.simps) (simp add: digits_word_def symbol_at_def)
  next
    case False
    then show ?thesis
      by (subst string_to_name_loop.simps) (simp add: char_at_def digits_word_zero symbol_at_end)
  qed
qed

lemma string_to_name_digits:
  "CHR 0x00 \<notin> set s \<Longrightarrow> string_to_name s = digits_word (symbol_at s) 0 0 OR (symbol_at s 12 AND 0x0F)"
  by (auto simp: string_to_name_def string_to_name_loop_digits symbol_at_end symbol_at_def [symmetric] min_def)

lemma bit_mask_word: "bit (w AND 0x1F :: u64) k \<longleftrightarrow> k < 5 \<and> bit w k" "bit (w AND 0x0F :: u64) k \<longleftrightarrow> k < 4 \<and> bit w k"
proof -
  have "(0x1F :: u64) = mask 5" "(0x0F :: u64) = mask 4" by (simp_all add: mask_eq_exp_minus_1)
  then have "w AND 0x1F = take_bit 5 w" "w AND 0x0F = take_bit 4 w" by (simp_all only: take_bit_eq_mask)
  then show "bit (w AND 0x1F :: u64) k \<longleftrightarrow> k < 5 \<and> bit w k" "bit (w AND 0x0F :: u64) k \<longleftrightarrow> k < 4 \<and> bit w k"
    by (simp_all only: bit_take_bit_iff)
qed

lemma ex_ge_split: "(\<exists>j. i \<le> j \<and> P j) \<longleftrightarrow> P i \<or> (\<exists>j. i + 1 \<le> j \<and> P j)" for i :: nat
proof
  assume "\<exists>j. i \<le> j \<and> P j"
  then obtain j where "i \<le> j" "P j" by blast
  then show "P i \<or> (\<exists>j. i + 1 \<le> j \<and> P j)" by (cases "j = i") (auto intro: exI [of _ j])
next
  assume "P i \<or> (\<exists>j. i + 1 \<le> j \<and> P j)"
  then show "\<exists>j. i \<le> j \<and> P j" by (metis Suc_eq_plus1 Suc_leD order_refl)
qed

definition digit_bit :: "(nat \<Rightarrow> u64) \<Rightarrow> nat \<Rightarrow> nat \<Rightarrow> bool" where
  "digit_bit f n j \<longleftrightarrow> j < 12 \<and> 59 - 5 * j \<le> n \<and> n < 64 - 5 * j \<and> bit (f j) (n - (59 - 5 * j))"

lemma bit_digits_word: "bit (digits_word f i w) n \<longleftrightarrow> bit w n \<or> (\<exists>j. i \<le> j \<and> digit_bit f n j)"
proof (induction "12 - i" arbitrary: i w)
  case 0
  then have "\<not> digit_bit f n j" if "i \<le> j" for j using that by (simp add: digit_bit_def)
  moreover have "[i..<12] = []" using 0 by simp
  ultimately show ?case by (auto simp: digits_word_def)
next
  case (Suc k)
  define w' where "w' = w OR push_bit (59 - 5 * i) (f i AND 0x1F)"
  have "[i..<12] = i # [i + 1..<12]" using Suc.hyps(2) by (simp add: upt_rec)
  then have "digits_word f i w = digits_word f (i + 1) w'" by (simp add: digits_word_def w'_def)
  moreover have "bit w' n \<longleftrightarrow> bit w n \<or> digit_bit f n i"
    unfolding w'_def bit_or_iff bit_push_bit_iff bit_mask_word digit_bit_def using Suc.hyps(2) by auto
  moreover have "bit (digits_word f (i + 1) w') n \<longleftrightarrow> bit w' n \<or> (\<exists>j. i + 1 \<le> j \<and> digit_bit f n j)"
    by (rule Suc.hyps(1)) (use Suc.hyps(2) in simp)
  ultimately show ?case using ex_ge_split [of i "digit_bit f n"] by (simp only:) argo
qed

text \<open>The digits of an encoding are the symbols it was made of.\<close>

lemma name_digit_encoding:
  assumes "v = digits_word f 0 0 OR (g AND 0x0F)" and "\<And>j. j < 12 \<Longrightarrow> unat (f j) < 32" and "unat g < 16"
  shows "j < 12 \<Longrightarrow> name_digit v j = unat (f j)" and "name_digit v 12 = unat g"
proof -
  have small: "w = take_bit k w" if "unat w < 2 ^ k" for w :: u64 and k
    using that by (simp add: word_unat_eq_iff unat_take_bit)
  have bits: "bit v n \<longleftrightarrow> n < 4 \<and> bit g n \<or> (\<exists>j. digit_bit f n j)" for n
    unfolding assms(1) bit_or_iff bit_digits_word bit_mask_word by auto
  show "name_digit v 12 = unat g"
  proof -
    have "v AND 0x0F = take_bit 4 g"
      by (rule bit_word_eqI) (auto simp: bit_mask_word bit_take_bit_iff bits digit_bit_def)
    then show ?thesis using small [of g 4] assms(3) by (simp add: name_digit_def)
  qed
  assume j: "j < 12"
  have "drop_bit (59 - 5 * j) v AND 0x1F = take_bit 5 (f j)"
  proof (rule bit_word_eqI)
    fix n assume "n < LENGTH(64)"
    have "digit_bit f (59 - 5 * j + n) j' \<longleftrightarrow> j' = j \<and> bit (f j) n" if "n < 5" for j'
    proof -
      have "59 - 5 * j' \<le> 59 - 5 * j + n \<and> 59 - 5 * j + n < 64 - 5 * j' \<longleftrightarrow> j' = j" if "j' < 12"
        using j that \<open>n < 5\<close> by auto
      then show ?thesis using j by (auto simp: digit_bit_def)
    qed
    then show "bit (drop_bit (59 - 5 * j) v AND 0x1F) n \<longleftrightarrow> bit (take_bit 5 (f j)) n"
      using j by (auto simp: bit_mask_word bit_drop_bit_eq bit_take_bit_iff bits)
  qed
  then show "name_digit v j = unat (f j)" using small [of "f j" 5] assms(2) [OF j] j by (simp add: name_digit_def)
qed

lemma digits_word_cong: "(\<And>j. j < 12 \<Longrightarrow> f j = g j) \<Longrightarrow> digits_word f 0 0 = digits_word g 0 0"
  unfolding digits_word_def by (intro fold_cong) auto

text \<open>A word is the disjunction of its own digits.\<close>

lemma digits_of_word: "digits_word (\<lambda>j. of_nat (name_digit v j)) 0 0 OR (of_nat (name_digit v 12) AND 0x0F) = v"
proof -
  have f: "of_nat (name_digit v j) = (drop_bit (59 - 5 * j) v AND 0x1F)" if "j < 12" for j
    using that by (simp add: name_digit_def)
  have g: "of_nat (name_digit v 12) = (v AND 0x0F)" by (simp add: name_digit_def)
  have e: "digits_word (\<lambda>j. of_nat (name_digit v j)) 0 0 = digits_word (\<lambda>j. drop_bit (59 - 5 * j) v AND 0x1F) 0 0"
    by (rule digits_word_cong) (rule f)
  show ?thesis unfolding e g
  proof (rule bit_word_eqI)
    fix n assume n: "n < LENGTH(64)"
    have "digit_bit (\<lambda>j. drop_bit (59 - 5 * j) v AND 0x1F) n j \<longleftrightarrow> j < 12 \<and> 59 - 5 * j \<le> n \<and> n < 64 - 5 * j \<and> bit v n" for j
      by (auto simp: digit_bit_def bit_mask_word bit_drop_bit_eq)
    moreover have "(\<exists>j < 12. 59 - 5 * j \<le> n \<and> n < 64 - 5 * j) \<longleftrightarrow> 4 \<le> n"
    proof
      assume "4 \<le> n"
      then have "(63 - n) div 5 < 12 \<and> 59 - 5 * ((63 - n) div 5) \<le> n \<and> n < 64 - 5 * ((63 - n) div 5)" using n by auto
      then show "\<exists>j < 12. 59 - 5 * j \<le> n \<and> n < 64 - 5 * j" by blast
    qed auto
    ultimately show "bit (digits_word (\<lambda>j. drop_bit (59 - 5 * j) v AND 0x1F) 0 0 OR ((v AND 0x0F) AND 0x0F)) n \<longleftrightarrow> bit v n"
      unfolding bit_or_iff bit_digits_word bit_mask_word by (auto simp: bit_mask_word)
  qed
qed

section \<open>Trimming\<close>

lemma trim_right_dots_append: "s = trim_right_dots s @ replicate (length s - length (trim_right_dots s)) CHR ''.''"
proof -
  define d where "d = takeWhile (\<lambda>c. c = CHR ''.'') (rev s)"
  have "rev s = d @ rev (trim_right_dots s)" by (simp add: d_def trim_right_dots_def)
  then have s: "s = trim_right_dots s @ rev d" by (metis rev_append rev_rev_ident)
  have "\<forall>c\<in>set d. c = CHR ''.''" by (auto simp: d_def dest: set_takeWhileD)
  then have "d = replicate (length d) CHR ''.''" by (simp add: replicate_length_same)
  then have "rev d = replicate (length d) CHR ''.''" by (metis rev_replicate)
  moreover have "length d = length s - length (trim_right_dots s)" using arg_cong [OF s, of length] by simp
  ultimately show ?thesis using s by metis
qed

lemma trim_right_dots_last: "trim_right_dots s \<noteq> [] \<Longrightarrow> last (trim_right_dots s) \<noteq> CHR ''.''"
  by (metis (mono_tags, lifting) hd_dropWhile last_rev rev_is_Nil_conv trim_right_dots_def)

lemma trim_right_dots_unique: "s = [] \<or> last s \<noteq> CHR ''.'' \<Longrightarrow> trim_right_dots (s @ replicate k CHR ''.'') = s"
proof -
  assume s: "s = [] \<or> last s \<noteq> CHR ''.''"
  have "dropWhile (\<lambda>c. c = CHR ''.'') (replicate k CHR ''.'' @ rev s) = dropWhile (\<lambda>c. c = CHR ''.'') (rev s)" by (simp add: dropWhile_append)
  also have "\<dots> = rev s" using s by (cases "rev s") (auto simp: last_rev [symmetric] hd_rev)
  finally show ?thesis by (simp add: trim_right_dots_def)
qed

lemma name_to_string_digits: "name_to_string v = trim_right_dots (map (\<lambda>j. charmap ! name_digit v j) [0..<13])"
  by (simp only: name_to_string_def name_chars_digits)

lemma name_to_string_char:
  assumes "j < 13"
  shows "symbol_at (name_to_string v) j = of_nat (name_digit v j)"
proof -
  define u where "u = map (\<lambda>j. charmap ! name_digit v j) [0..<13]"
  have u: "u ! j = charmap ! name_digit v j" "length u = 13" using assms by (simp_all add: u_def del: upt_rec_numeral)
  note t = trim_right_dots_append [of u, folded name_to_string_digits [of v, folded u_def], unfolded u(2)]
  note sc = symbol_charmap [OF name_digit_less, of v j]
  show ?thesis
  proof (cases "j < length (name_to_string v)")
    case True
    then have "name_to_string v ! j = u ! j" by (subst t) (simp only: nth_append if_True)
    then show ?thesis using True sc u(1) by (simp add: symbol_at_def char_at_def)
  next
    case False
    have "u ! j = CHR ''.''" using False assms by (subst t) (simp add: nth_append)
    then have "name_digit v j = 0" using sc u(1) by simp
    then show ?thesis using False by (simp add: symbol_at_end)
  qed
qed

lemma name_to_string_set:
  "set (name_to_string v) \<subseteq> set charmap" "length (name_to_string v) \<le> 13" "CHR 0x00 \<notin> set (name_to_string v)"
proof -
  define u where "u = map (\<lambda>j. charmap ! name_digit v j) [0..<13]"
  note t = trim_right_dots_append [of u, folded name_to_string_digits [of v, folded u_def]]
  have "length charmap = 32" by (simp add: charmap_def)
  then have "set u \<subseteq> set charmap" using name_digit_less [of v] by (auto simp: u_def simp del: upt_rec_numeral intro!: nth_mem)
  moreover have "set (name_to_string v) \<subseteq> set u" using arg_cong [OF t, of set] by simp
  ultimately show a: "set (name_to_string v) \<subseteq> set charmap" by blast
  show "length (name_to_string v) \<le> 13" using arg_cong [OF t, of length] by (simp add: u_def del: upt_rec_numeral)
  have "CHR 0x00 \<notin> set charmap" by (simp add: charmap_def)
  with a show "CHR 0x00 \<notin> set (name_to_string v)" by blast
qed

section \<open>Round trips\<close>

lemma string_to_name_to_string: "string_to_name (name_to_string v) = v"
proof -
  have "digits_word (symbol_at (name_to_string v)) 0 0 = digits_word (\<lambda>j. of_nat (name_digit v j)) 0 0"
    by (rule digits_word_cong) (simp add: name_to_string_char)
  then show ?thesis
    using name_to_string_char [of 12 v] digits_of_word [of v] by (simp add: string_to_name_digits [OF name_to_string_set(3)])
qed

lemma strnlen_le: "strnlen s n \<le> length s"
  by (simp add: strnlen_def length_takeWhile_le min.coboundedI2)

lemma name_set_Inr_iff: "name_set s = Inr v \<longleftrightarrow> s = name_to_string v"
proof
  assume "name_set s = Inr v"
  then show "s = name_to_string v" by (auto simp: name_set_def Let_def ftl_assert_def split: if_splits)
next
  assume "s = name_to_string v"
  then show "name_set s = Inr v"
    using name_to_string_set(2) [of v] strnlen_le [of s 14] by (simp add: name_set_def Let_def ftl_assert_def string_to_name_to_string)
qed

section \<open>The strings that are names\<close>

definition normalized_name :: "string \<Rightarrow> bool" where
  "normalized_name s \<longleftrightarrow>
     length s \<le> 13 \<and> set s \<subseteq> set charmap \<and> (s \<noteq> [] \<longrightarrow> last s \<noteq> CHR ''.'') \<and>
     (length s = 13 \<longrightarrow> s ! 12 \<in> set (take 16 charmap))"

lemma symbol_of_charmap: "c \<in> set charmap \<Longrightarrow> unat (char_to_symbol c) < 32 \<and> charmap ! unat (char_to_symbol c) = c"
proof -
  have "list_all (\<lambda>c. unat (char_to_symbol c) < 32 \<and> charmap ! unat (char_to_symbol c) = c) charmap" by code_simp
  then show "c \<in> set charmap \<Longrightarrow> unat (char_to_symbol c) < 32 \<and> charmap ! unat (char_to_symbol c) = c" by (simp add: list_all_iff)
qed

lemma symbol_of_charmap_low: "c \<in> set (take 16 charmap) \<Longrightarrow> unat (char_to_symbol c) < 16"
proof -
  have "list_all (\<lambda>c. unat (char_to_symbol c) < 16) (take 16 charmap)" by code_simp
  then show "c \<in> set (take 16 charmap) \<Longrightarrow> unat (char_to_symbol c) < 16" by (simp add: list_all_iff)
qed

lemma name_to_string_normalized: "normalized_name (name_to_string v)"
proof -
  have "name_to_string v ! 12 \<in> set (take 16 charmap)" if "length (name_to_string v) = 13"
  proof -
    define u where "u = map (\<lambda>j. charmap ! name_digit v j) [0..<13]"
    note t = trim_right_dots_append [of u, folded name_to_string_digits [of v, folded u_def]]
    have "length u = 13" by (simp add: u_def del: upt_rec_numeral)
    then have "name_to_string v = u" using t that by simp
    moreover have "name_digit v 12 < 16" using unat_and_mask [of v 4] by (simp add: name_digit_def)
    moreover have "u ! 12 = charmap ! name_digit v 12" by (simp add: u_def del: upt_rec_numeral)
    moreover have "length (take 16 charmap) = 16" by (simp add: charmap_def)
    ultimately show ?thesis using nth_mem [of "name_digit v 12" "take 16 charmap"] by simp
  qed
  then show ?thesis unfolding normalized_name_def
    using name_to_string_set [of v] trim_right_dots_last name_to_string_digits by auto
qed

lemma normalized_name_round_trip:
  assumes "normalized_name s"
  shows "name_to_string (string_to_name s) = s"
proof -
  define v where "v = string_to_name s"
  define u where "u = s @ replicate (13 - length s) CHR ''.''"
  note n = assms [unfolded normalized_name_def]
  have nz: "CHR 0x00 \<notin> set charmap" by (simp add: charmap_def)
  have lu: "length u = 13" using n by (simp add: u_def)
  have sym: "symbol_at s j = char_to_symbol (u ! j)" if "j < 13" for j
    using that by (auto simp: symbol_at_def char_at_def u_def nth_append char_to_symbol_def)
  have dot: "CHR ''.'' \<in> set charmap" "CHR ''.'' \<in> set (take 16 charmap)" by (simp_all add: charmap_def)
  have uc: "u ! j \<in> set charmap" if "j < 13" for j
    using that n dot(1) nth_mem [of j s] by (auto simp: u_def nth_append)
  have u12: "u ! 12 \<in> set (take 16 charmap)" using n dot(2) by (auto simp: u_def nth_append)
  have v: "v = digits_word (symbol_at s) 0 0 OR (symbol_at s 12 AND 0x0F)"
    unfolding v_def using n nz by (intro string_to_name_digits) blast
  have lt: "unat (symbol_at s j) < 32" if "j < 12" for j using that sym [of j] symbol_of_charmap [OF uc [of j]] by simp
  have lt12: "unat (symbol_at s 12) < 16" using sym [of 12] symbol_of_charmap_low [OF u12] by simp
  have "name_digit v j = unat (symbol_at s j)" if "j < 13" for j
    using name_digit_encoding(1) [OF v lt lt12, of j] name_digit_encoding(2) [OF v lt lt12] that
    by (cases "j = 12") auto
  then have "charmap ! name_digit v j = u ! j" if "j < 13" for j
    using that sym uc symbol_of_charmap by simp
  then have "map (\<lambda>j. charmap ! name_digit v j) [0..<13] = u"
    using lu by (intro nth_equalityI) (simp_all del: upt_rec_numeral)
  then show ?thesis unfolding v_def [symmetric] name_to_string_digits
    using trim_right_dots_unique [of s "13 - length s"] n by (auto simp: u_def)
qed

lemma normalized_name_iff: "normalized_name s \<longleftrightarrow> (\<exists>v. s = name_to_string v)"
  using name_to_string_normalized normalized_name_round_trip by metis

end
