(* ===== verification/Builtins.thy ===== *)
theory Builtins
  imports Int_To_Float
begin

unbundle bit_operations_syntax

text \<open>
  The conversions between 128-bit integers and floating point of the compiler run-time library
  (\<open>src/libraries/builtins\<close>): three formats to signed and unsigned integers, by truncation, and
  signed and unsigned integers to 64-bit floating point, rounded to the nearest even. Both signed
  and unsigned 128-bit integers are words; a function whose signed arithmetic can leave the range,
  which is undefined in C, returns \<open>None\<close> there.
\<close>

type_synonym u128 = "128 word"

section \<open>Signed 128-bit arithmetic\<close>

text \<open>
  The operators of C on \<open>__int128\<close>: undefined when the result does not fit into the type; a left
  shift is defined for operands that are not negative only.
\<close>

definition in_int128 :: "int \<Rightarrow> bool" where
  "in_int128 k \<longleftrightarrow> - (2 ^ 127) \<le> k \<and> k < 2 ^ 127"

definition mul_int128 :: "u128 \<Rightarrow> u128 \<Rightarrow> u128 option" where
  "mul_int128 a b = (if in_int128 (sint a * sint b) then Some (a * b) else None)"

definition sub_int128 :: "u128 \<Rightarrow> u128 \<Rightarrow> u128 option" where
  "sub_int128 a b = (if in_int128 (sint a - sint b) then Some (a - b) else None)"

definition shl_int128 :: "u128 \<Rightarrow> nat \<Rightarrow> u128 option" where
  "shl_int128 a n = (if 0 \<le> sint a \<and> n < 128 \<and> in_int128 (sint a * 2 ^ n) then Some (push_bit n a) else None)"

lemma sint_of_small:
  assumes "in_int128 k"
  shows "sint (word_of_int k :: u128) = k"
  using assms by (simp add: in_int128_def signed_of_int signed_take_bit_int_eq_self)

lemma sint_int128 [simp, intro]: "in_int128 (sint (x :: u128))"
  using sint_ge [of x] sint_lt [of x] by (simp add: in_int128_def)

lemma sint_unsigned:
  fixes x :: u128
  assumes "unat x < 2 ^ 127"
  shows "sint x = int (unat x)"
proof -
  have "int (unat x) < int (2 ^ 127)" using assms by (simp only: of_nat_less_iff)
  then have "sint (word_of_int (int (unat x)) :: u128) = int (unat x)" using of_nat_0_le_iff [of "unat x", where 'a = int]
    by (intro sint_of_small) (simp add: in_int128_def del: of_nat_0_le_iff of_nat_unat)
  then show ?thesis by simp
qed

lemma mul_sign:
  assumes "unat v < 2 ^ 127"
  shows "mul_int128 (if s then - 1 else 1) v = Some ((if s then - 1 else 1) * v)"
proof -
  have "0 \<le> sint v" "sint v < 2 ^ 127" using sint_unsigned [OF assms] sint_int128 [of v] by (simp_all add: in_int128_def del: sint_int128)
  then show ?thesis by (cases s) (simp_all add: mul_int128_def in_int128_def)
qed

section \<open>Floating point to 128-bit integers\<close>

text \<open>The macros of \<open>fp32.h\<close>, \<open>fp64.h\<close> and \<open>fp128.h\<close> with their values.\<close>

definition fixint_max :: u128 where "fixint_max = drop_bit 1 (NOT 0)"
definition fixint_min :: u128 where "fixint_min = - fixint_max - 1"

definition fixsfti :: "u32 \<Rightarrow> u128 option" where
  "fixsfti a =
     (let aAbs = a AND 0x7FFFFFFF;
          sign = (if a AND 0x80000000 \<noteq> 0 then - 1 else 1) :: u128;
          exponent = int (unat (drop_bit 23 aAbs)) - 127;
          significand = (aAbs AND 0x007FFFFF) OR 0x00800000
      in if exponent < 0 then Some 0
         else if 128 \<le> exponent then Some (if sign = 1 then fixint_max else fixint_min)
         else if exponent < 23 then mul_int128 sign (ucast (drop_bit (nat (23 - exponent)) significand))
         else (case shl_int128 (ucast significand) (nat (exponent - 23)) of None \<Rightarrow> None | Some v \<Rightarrow> mul_int128 sign v))"

definition fixdfti :: "u64 \<Rightarrow> u128 option" where
  "fixdfti a =
     (let aAbs = a AND 0x7FFFFFFFFFFFFFFF;
          sign = (if a AND 0x8000000000000000 \<noteq> 0 then - 1 else 1) :: u128;
          exponent = int (unat (drop_bit 52 aAbs)) - 1023;
          significand = (aAbs AND 0x000FFFFFFFFFFFFF) OR 0x0010000000000000
      in if exponent < 0 then Some 0
         else if 128 \<le> exponent then Some (if sign = 1 then fixint_max else fixint_min)
         else if exponent < 52 then mul_int128 sign (ucast (drop_bit (nat (52 - exponent)) significand))
         else (case shl_int128 (ucast significand) (nat (exponent - 52)) of None \<Rightarrow> None | Some v \<Rightarrow> mul_int128 sign v))"

definition fixtfti :: "u128 \<Rightarrow> u128 option" where
  "fixtfti a =
     (let aAbs = a AND 0x7FFFFFFFFFFFFFFFFFFFFFFFFFFFFFFF;
          sign = (if a AND 0x80000000000000000000000000000000 \<noteq> 0 then - 1 else 1) :: u128;
          exponent = int (unat (drop_bit 112 aAbs)) - 16383;
          significand = (aAbs AND 0x0000FFFFFFFFFFFFFFFFFFFFFFFFFFFF) OR 0x00010000000000000000000000000000
      in if exponent < 0 then Some 0
         else if 128 \<le> exponent then Some (if sign = 1 then fixint_max else fixint_min)
         else if exponent < 112 then mul_int128 sign (drop_bit (nat (112 - exponent)) significand)
         else (case shl_int128 significand (nat (exponent - 112)) of None \<Rightarrow> None | Some v \<Rightarrow> mul_int128 sign v))"

definition fixunssfti :: "u32 \<Rightarrow> u128" where
  "fixunssfti a =
     (let aAbs = a AND 0x7FFFFFFF;
          sign = (if a AND 0x80000000 \<noteq> 0 then - 1 else 1) :: int;
          exponent = int (unat (drop_bit 23 aAbs)) - 127;
          significand = (aAbs AND 0x007FFFFF) OR 0x00800000
      in if sign = - 1 \<or> exponent < 0 then 0
         else if 128 \<le> exponent then NOT 0
         else if exponent < 23 then ucast (drop_bit (nat (23 - exponent)) significand)
         else push_bit (nat (exponent - 23)) (ucast significand))"

definition fixunsdfti :: "u64 \<Rightarrow> u128" where
  "fixunsdfti a =
     (let aAbs = a AND 0x7FFFFFFFFFFFFFFF;
          sign = (if a AND 0x8000000000000000 \<noteq> 0 then - 1 else 1) :: int;
          exponent = int (unat (drop_bit 52 aAbs)) - 1023;
          significand = (aAbs AND 0x000FFFFFFFFFFFFF) OR 0x0010000000000000
      in if sign = - 1 \<or> exponent < 0 then 0
         else if 128 \<le> exponent then NOT 0
         else if exponent < 52 then ucast (drop_bit (nat (52 - exponent)) significand)
         else push_bit (nat (exponent - 52)) (ucast significand))"

definition fixunstfti :: "u128 \<Rightarrow> u128" where
  "fixunstfti a =
     (let aAbs = a AND 0x7FFFFFFFFFFFFFFFFFFFFFFFFFFFFFFF;
          sign = (if a AND 0x80000000000000000000000000000000 \<noteq> 0 then - 1 else 1) :: int;
          exponent = int (unat (drop_bit 112 aAbs)) - 16383;
          significand = (aAbs AND 0x0000FFFFFFFFFFFFFFFFFFFFFFFFFFFF) OR 0x00010000000000000000000000000000
      in if sign = - 1 \<or> exponent < 0 then 0
         else if 128 \<le> exponent then NOT 0
         else if exponent < 112 then drop_bit (nat (112 - exponent)) significand
         else push_bit (nat (exponent - 112)) significand)"

section \<open>128-bit integers to floating point\<close>

text \<open>The number of binary digits, and the leading zeros of a word as \<open>__builtin_clzll\<close> counts them.\<close>

fun bit_length :: "nat \<Rightarrow> nat" where
  "bit_length n = (if n = 0 then 0 else Suc (bit_length (n div 2)))"

declare bit_length.simps [simp del]

definition clzll :: "u64 \<Rightarrow> nat" where
  "clzll x = 64 - bit_length (unat x)"

definition clzti2 :: "u128 \<Rightarrow> nat" where
  "clzti2 a =
     (let high = ucast (drop_bit 64 a) :: u64; low = ucast a :: u64;
          f = (if high = 0 then - 1 else 0) :: u64
      in clzll ((high AND NOT f) OR (low AND f)) + unat (f AND 64))"

text \<open>
  The rounding of a positive number with \<open>sd\<close> digits to 53 digits, to the nearest even: two guard
  digits and a sticky bit, and the carry into the exponent.
\<close>

definition round_ti :: "int \<Rightarrow> u128 \<Rightarrow> u128 \<times> int" where
  "round_ti sd a =
     (let e = sd - 1
      in if 53 < sd then
           let a = (if sd = 54 then push_bit 1 a
                    else if sd = 55 then a
                    else drop_bit (nat (sd - 55)) a OR of_bool (a AND drop_bit (nat (128 + 55 - sd)) (- 1) \<noteq> 0));
               a = a OR of_bool (a AND 4 \<noteq> 0);
               a = a + 1;
               a = drop_bit 2 a
           in if a AND push_bit 53 1 \<noteq> 0 then (drop_bit 1 a, e + 1) else (a, e)
         else (push_bit (nat (53 - sd)) a, e))"

text \<open>The union \<open>double_bits\<close>.\<close>

definition double_bits :: "u32 \<Rightarrow> u32 \<Rightarrow> u64" where
  "double_bits high low = push_bit 32 (ucast high) OR ucast low"

text \<open>What follows the magnitude \<open>a\<close> of a number with sign mask \<open>s\<close>, and the whole function: the least integer has no magnitude.\<close>

definition floattidf_bits :: "u128 \<Rightarrow> u128 \<Rightarrow> u64" where
  "floattidf_bits s a =
     (let sd = 128 - int (clzti2 a);
          (a, e) = round_ti sd a
      in double_bits ((ucast s AND 0x80000000) OR push_bit 20 (word_of_int (e + 1023)) OR (ucast (drop_bit 32 a) AND 0x000FFFFF)) (ucast a))"

definition floattidf :: "u128 \<Rightarrow> u64 option" where
  "floattidf a =
     (if a = 0 then Some 0
      else
        let s = signed_drop_bit 127 a
        in (case sub_int128 (a XOR s) s of None \<Rightarrow> None | Some a \<Rightarrow> Some (floattidf_bits s a)))"

definition floatuntidf :: "u128 \<Rightarrow> u64" where
  "floatuntidf a =
     (if a = 0 then 0
      else
        let sd = 128 - int (clzti2 a);
            (a, e) = round_ti sd a
        in double_bits (push_bit 20 (word_of_int (e + 1023)) OR (ucast (drop_bit 32 a) AND 0x000FFFFF)) (ucast a))"

section \<open>Truncation\<close>

text \<open>The value of a 128-bit pattern.\<close>

definition f128_real :: "u128 \<Rightarrow> real" where
  "f128_real a = (if 2 ^ 127 \<le> unat a then - 1 else 1) * real (fmag 112 (unat a mod 2 ^ 127)) / 2 ^ 16494"

text \<open>
  The signed conversions go to the nearest integer towards zero. From magnitude $2^{128}$ on they
  give the greatest and least integer; from $2^{127}$ up to there they are undefined. The patterns of
  infinity and NaN count as the numbers that continue the format.
\<close>

definition trunc_int128 :: "real \<Rightarrow> u128 option" where
  "trunc_int128 x =
     (if 2 ^ 128 \<le> x then Some fixint_max else if x \<le> - (2 ^ 128) then Some fixint_min
      else if 2 ^ 127 \<le> \<bar>x\<bar> then None
      else Some (word_of_int (if x < 0 then \<lceil>x\<rceil> else \<lfloor>x\<rfloor>)))"

definition trunc_uint128 :: "real \<Rightarrow> u128" where
  "trunc_uint128 x = (if 2 ^ 128 \<le> x then NOT 0 else word_of_int (if x < 0 then 0 else \<lfloor>x\<rfloor>))"

definition fix_magnitude :: "nat \<Rightarrow> nat \<Rightarrow> nat \<Rightarrow> nat" where
  "fix_magnitude P B n =
     (let e = n div 2 ^ P - B; sg = 2 ^ P + n mod 2 ^ P
      in if e < P then sg div 2 ^ (P - e) else sg * 2 ^ (e - P))"

lemma fmag_ge:
  assumes "1 \<le> m"
  shows "m * 2 ^ P \<le> n \<longleftrightarrow> 2 ^ (m + P - 1) \<le> fmag P n"
proof -
  obtain k where k: "m = Suc k" using assms not0_implies_Suc [of m] by auto
  have "fmag P (k * 2 ^ P + 2 ^ P) = 2 ^ P * 2 ^ k" by (rule fmag_pack) simp_all
  then have "fmag P (m * 2 ^ P) = 2 ^ (m + P - 1)" using k by (simp add: power_add algebra_simps)
  then show ?thesis using fmag_le_iff [of P "m * 2 ^ P" n] by simp
qed

lemma fix_magnitude_floor:
  assumes "B \<le> n div 2 ^ P" and "1 \<le> B" and "1 \<le> P"
  shows "\<lfloor>real (fmag P n) / 2 ^ (B + P - 1)\<rfloor> = int (fix_magnitude P B n)"
proof -
  define e sg where "e = n div 2 ^ P - B" and "sg = 2 ^ P + n mod 2 ^ P"
  have k: "n div 2 ^ P - 1 = (B - 1) + e" using assms(1,2) by (simp add: e_def)
  have "1 \<le> n div 2 ^ P" using assms(1,2) by linarith
  then have "\<not> n < 2 ^ P" by (metis div_less not_one_le_zero)
  then have f: "fmag P n = sg * 2 ^ e * 2 ^ (B - 1)" unfolding fmag_def k sg_def by (simp add: power_add)
  have b: "(2::real) ^ (B + P - 1) = 2 ^ P * 2 ^ (B - 1)"
    using assms(2) by (subst power_add [symmetric]) (simp add: algebra_simps)
  have v: "real (fmag P n) / 2 ^ (B + P - 1) = real sg * 2 ^ e / 2 ^ P" unfolding f b by simp
  show ?thesis
  proof (cases "e < P")
    case True
    then have "(2::real) ^ P = 2 ^ (P - e) * 2 ^ e" by (simp flip: power_add)
    then have "real sg * 2 ^ e / 2 ^ P = real sg / real (2 ^ (P - e))" by simp
    then have "\<lfloor>real sg * 2 ^ e / 2 ^ P\<rfloor> = int (sg div 2 ^ (P - e))" by (simp only: floor_divide_of_nat_eq)
    then show ?thesis unfolding v fix_magnitude_def Let_def using True by (simp add: e_def sg_def)
  next
    case False
    then have "(2::real) ^ e = 2 ^ (e - P) * 2 ^ P" by (simp flip: power_add)
    then have "real sg * 2 ^ e / 2 ^ P = real (sg * 2 ^ (e - P))" by simp
    then have "\<lfloor>real sg * 2 ^ e / 2 ^ P\<rfloor> = int (sg * 2 ^ (e - P))" by (simp only: floor_of_nat)
    then show ?thesis unfolding v fix_magnitude_def Let_def using False by (simp add: e_def sg_def)
  qed
qed

lemma fix_range:
  assumes "1 \<le> B" and "1 \<le> P"
  shows "real (fmag P n) / 2 ^ (B + P - 1) < 1 \<longleftrightarrow> n div 2 ^ P < B"
    and "2 ^ 128 \<le> real (fmag P n) / 2 ^ (B + P - 1) \<longleftrightarrow> B + 128 \<le> n div 2 ^ P"
    and "2 ^ 127 \<le> real (fmag P n) / 2 ^ (B + P - 1) \<longleftrightarrow> B + 127 \<le> n div 2 ^ P"
proof -
  have d: "m \<le> n div 2 ^ P \<longleftrightarrow> m * 2 ^ P \<le> n" for m by (simp add: less_eq_div_iff_mult_less_eq)
  have ge: "real (fmag P n) / 2 ^ (B + P - 1) < 2 ^ j \<longleftrightarrow> n div 2 ^ P < B + j" for j
  proof -
    have p: "2 ^ j * 2 ^ (B + P - 1) = (2::nat) ^ (B + j + P - 1)"
      unfolding power_add [symmetric] using assms by (intro arg_cong [where f = "power 2"]) simp
    have "real (fmag P n) / 2 ^ (B + P - 1) < 2 ^ j \<longleftrightarrow> real (fmag P n) < 2 ^ j * 2 ^ (B + P - 1)" by (rule pos_divide_less_eq) simp
    also have "\<dots> \<longleftrightarrow> real (fmag P n) < real (2 ^ (B + j + P - 1))" unfolding p [symmetric] by simp
    also have "\<dots> \<longleftrightarrow> \<not> 2 ^ (B + j + P - 1) \<le> fmag P n" by (simp only: of_nat_less_iff not_le)
    also have "\<dots> \<longleftrightarrow> \<not> B + j \<le> n div 2 ^ P" unfolding d using fmag_ge [of "B + j" P n] trans_le_add1 [OF assms(1)] by blast
    also have "\<dots> \<longleftrightarrow> n div 2 ^ P < B + j" by (rule not_le)
    finally show ?thesis .
  qed
  show "real (fmag P n) / 2 ^ (B + P - 1) < 1 \<longleftrightarrow> n div 2 ^ P < B" using ge [of 0] by (simp only: power_0 add_0_right)
  show "2 ^ 128 \<le> real (fmag P n) / 2 ^ (B + P - 1) \<longleftrightarrow> B + 128 \<le> n div 2 ^ P" using ge [of 128] by (simp only: not_less [symmetric])
  show "2 ^ 127 \<le> real (fmag P n) / 2 ^ (B + P - 1) \<longleftrightarrow> B + 127 \<le> n div 2 ^ P" using ge [of 127] by (simp only: not_less [symmetric])
qed

text \<open>The shape both families share: the sign, the number of the exponent field and the magnitude.\<close>

lemma trunc_int128_shape:
  assumes "1 \<le> B" and "1 \<le> P" and "x = (if s then - 1 else 1) * real (fmag P n) / 2 ^ (B + P - 1)"
  shows "trunc_int128 x =
    (if int (n div 2 ^ P) - int B < 0 then Some 0
     else if 128 \<le> int (n div 2 ^ P) - int B then Some (if s then fixint_min else fixint_max)
     else if 127 \<le> int (n div 2 ^ P) - int B then None
     else Some ((if s then - 1 else 1) * of_nat (fix_magnitude P B n)))"
    and "trunc_uint128 x =
    (if s \<or> int (n div 2 ^ P) - int B < 0 then 0
     else if 128 \<le> int (n div 2 ^ P) - int B then NOT 0
     else of_nat (fix_magnitude P B n))"
proof -
  define y where "y = real (fmag P n) / 2 ^ (B + P - 1)"
  have y: "0 \<le> y" by (simp add: y_def)
  have x: "x = (if s then - y else y)" unfolding assms(3) y_def by simp
  note r = fix_range [OF assms(1,2), of n, folded y_def]
  have c: "n div 2 ^ P < B \<longleftrightarrow> int (n div 2 ^ P) - int B < 0" "B + 128 \<le> n div 2 ^ P \<longleftrightarrow> 128 \<le> int (n div 2 ^ P) - int B"
    "B + 127 \<le> n div 2 ^ P \<longleftrightarrow> 127 \<le> int (n div 2 ^ P) - int B" by auto
  have f: "\<lfloor>y\<rfloor> = int (fix_magnitude P B n)" if "\<not> n div 2 ^ P < B"
    using fix_magnitude_floor [OF _ assms(1,2)] that unfolding y_def by simp
  have z: "\<lfloor>y\<rfloor> = 0" if "n div 2 ^ P < B" using r(1) y that by (intro floor_unique) auto
  have t: "trunc_int128 x = (if 2 ^ 128 \<le> y then Some (if s then fixint_min else fixint_max) else if 2 ^ 127 \<le> y then None
      else Some (word_of_int (if s then - \<lfloor>y\<rfloor> else \<lfloor>y\<rfloor>)))" and u: "trunc_uint128 x = (if \<not> s \<and> 2 ^ 128 \<le> y then NOT 0 else word_of_int (if s then 0 else \<lfloor>y\<rfloor>))"
    using y unfolding trunc_int128_def trunc_uint128_def x by (cases "y = 0"; auto simp: ceiling_minus)+
  show "trunc_int128 x =
    (if int (n div 2 ^ P) - int B < 0 then Some 0
     else if 128 \<le> int (n div 2 ^ P) - int B then Some (if s then fixint_min else fixint_max)
     else if 127 \<le> int (n div 2 ^ P) - int B then None
     else Some ((if s then - 1 else 1) * of_nat (fix_magnitude P B n)))"
    unfolding t r c [symmetric] using f z by auto
  show "trunc_uint128 x =
    (if s \<or> int (n div 2 ^ P) - int B < 0 then 0
     else if 128 \<le> int (n div 2 ^ P) - int B then NOT 0
     else of_nat (fix_magnitude P B n))"
    unfolding u r c [symmetric] using f z by auto
qed

lemma fix_fields:
  fixes a :: "'a::len word"
  assumes "Suc w = LENGTH('a)" and "P < w"
  shows "(a AND push_bit w 1) \<noteq> 0 \<longleftrightarrow> 2 ^ w \<le> unat a"
    and "unat (drop_bit P (a AND mask w)) = unat a mod 2 ^ w div 2 ^ P"
    and "unat (((a AND mask w) AND mask P) OR push_bit P 1) = 2 ^ P + unat a mod 2 ^ w mod 2 ^ P"
proof -
  have w: "w = LENGTH('a) - 1" using assms(1) by simp
  show "(a AND push_bit w 1) \<noteq> 0 \<longleftrightarrow> 2 ^ w \<le> unat a" unfolding w by (rule word_top_bit)
  have m: "b AND mask k = take_bit k b" for k and b :: "'a word" by (simp add: take_bit_eq_mask)
  show "unat (drop_bit P (a AND mask w)) = unat a mod 2 ^ w div 2 ^ P"
    unfolding m by (simp only: unat_drop_bit unat_take_bit)
  have p: "unat (push_bit P 1 :: 'a word) = 2 ^ P"
    using assms by (subst unat_push_bit) (simp_all add: power_strict_increasing)
  show "unat (((a AND mask w) AND mask P) OR push_bit P 1) = 2 ^ P + unat a mod 2 ^ w mod 2 ^ P"
  proof (subst unat_or_disjoint [of _ P])
    have t: "unat ((a AND mask w) AND mask P) = unat a mod 2 ^ w mod 2 ^ P" unfolding m by (simp only: unat_take_bit)
    show "unat ((a AND mask w) AND mask P) < 2 ^ P" unfolding t by simp
    show "2 ^ P dvd unat (push_bit P 1 :: 'a word)" unfolding p by simp
    show "unat ((a AND mask w) AND mask P) + unat (push_bit P 1 :: 'a word) = 2 ^ P + unat a mod 2 ^ w mod 2 ^ P" unfolding t p by simp
  qed
qed

lemma fix_shift:
  assumes "unat sg = 2 ^ P + n mod 2 ^ P" and "0 \<le> e" and "e = int (n div 2 ^ P) - int B"
  shows "(if e < int P then ucast (drop_bit (nat (int P - e)) (sg :: 'a::len word)) else push_bit (nat (e - int P)) (ucast sg)) =
    (of_nat (fix_magnitude P B n) :: u128)"
proof -
  have e: "n div 2 ^ P - B = nat e" using assms(3) by simp
  have u: "ucast x = (of_nat (unat x) :: u128)" for x :: "'a word" by simp
  show ?thesis unfolding fix_magnitude_def e Let_def u
    using assms(2) by (auto simp: unat_drop_bit assms(1) push_bit_eq_mult nat_less_iff nat_diff_distrib simp del: of_nat_unat)
qed

lemma fixint_consts: "(0x7FFFFFFF :: u32) = mask 31" "(0x80000000 :: u32) = push_bit 31 1" "(0x007FFFFF :: u32) = mask 23" "(0x00800000 :: u32) = push_bit 23 1"
  "(0x7FFFFFFFFFFFFFFF :: u64) = mask 63" "(0x8000000000000000 :: u64) = push_bit 63 1" "(0x000FFFFFFFFFFFFF :: u64) = mask 52" "(0x0010000000000000 :: u64) = push_bit 52 1"
  "(0x7FFFFFFFFFFFFFFFFFFFFFFFFFFFFFFF :: u128) = mask 127" "(0x80000000000000000000000000000000 :: u128) = push_bit 127 1"
  "(0x0000FFFFFFFFFFFFFFFFFFFFFFFFFFFF :: u128) = mask 112" "(0x00010000000000000000000000000000 :: u128) = push_bit 112 1"
  by (simp_all add: mask_eq_exp_minus_1 push_bit_eq_mult)

lemma sign_word: "(if s then - 1 else 1 :: u128) = 1 \<longleftrightarrow> \<not> s" "(if s then - 1 else 1 :: int) = - 1 \<longleftrightarrow> s"
  by auto

lemma shl_significand:
  fixes sg :: "'a::len word"
  assumes "unat sg = 2 ^ P + n mod 2 ^ P" and "P < 127" and "e = int (n div 2 ^ P) - int B" and "int P \<le> e" and "e < 128"
  shows "shl_int128 (ucast sg) (nat (e - int P)) = (if fix_magnitude P B n < 2 ^ 127 then Some (of_nat (fix_magnitude P B n)) else None)"
proof -
  have "unat sg < 2 ^ Suc P" using assms(1) by simp
  also have "(2 :: nat) ^ Suc P \<le> 2 ^ 127" using assms(2) by (intro power_increasing) simp_all
  finally have b: "unat sg < 2 ^ 127" .
  then have u: "unat (ucast sg :: u128) = unat sg" by (subst unat_ucast_small) simp_all
  have si: "sint (ucast sg :: u128) = int (unat sg)" using sint_unsigned [of "ucast sg"] b unfolding u by simp
  have k: "n div 2 ^ P - B = nat e" "nat e - P = nat (e - int P)" "\<not> nat e < P" using assms(3,4) by simp_all
  have m: "fix_magnitude P B n = unat sg * 2 ^ nat (e - int P)" unfolding fix_magnitude_def Let_def k(1) assms(1) using k by simp
  have n: "nat (e - int P) < 128" using assms(5) by simp
  have "sint (ucast sg :: u128) * 2 ^ nat (e - int P) = int (fix_magnitude P B n)" unfolding si m by simp
  moreover have "in_int128 (int (fix_magnitude P B n)) \<longleftrightarrow> int (fix_magnitude P B n) < int (2 ^ 127)" by (simp add: in_int128_def)
  ultimately have "in_int128 (sint (ucast sg :: u128) * 2 ^ nat (e - int P)) \<longleftrightarrow> fix_magnitude P B n < 2 ^ 127" by (simp only: of_nat_less_iff)
  moreover have "push_bit (nat (e - int P)) (ucast sg) = (of_nat (fix_magnitude P B n) :: u128)"
    using fix_shift [OF assms(1) _ assms(3)] assms(4) by (simp split: if_splits)
  ultimately show ?thesis unfolding shl_int128_def si using n by simp
qed

lemma fixti_shape:
  fixes a :: "'a::len word"
  assumes "Suc w = LENGTH('a)" and "P < w" and "1 \<le> P" and "1 \<le> B" and "P < 127"
    and "x = (if 2 ^ w \<le> unat a then - 1 else 1) * real (fmag P (unat a mod 2 ^ w)) / 2 ^ (B + P - 1)"
    and "sign = (if (a AND push_bit w 1) \<noteq> 0 then - 1 else 1 :: u128)" and "sign' = (if (a AND push_bit w 1) \<noteq> 0 then - 1 else 1 :: int)"
    and "e = int (unat (drop_bit P (a AND mask w))) - int B" and "sg = ((a AND mask w) AND mask P) OR push_bit P 1"
  shows "(if e < 0 then Some 0 else if 128 \<le> e then Some (if sign = 1 then fixint_max else fixint_min)
      else if e < int P then mul_int128 sign (ucast (drop_bit (nat (int P - e)) sg))
      else (case shl_int128 (ucast sg) (nat (e - int P)) of None \<Rightarrow> None | Some v \<Rightarrow> mul_int128 sign v)) = trunc_int128 x"
    and "(if sign' = - 1 \<or> e < 0 then 0 else if 128 \<le> e then NOT 0
      else if e < int P then ucast (drop_bit (nat (int P - e)) sg) else push_bit (nat (e - int P)) (ucast sg)) = trunc_uint128 x"
proof -
  note f = fix_fields [OF assms(1,2), of a]
  define n s where "n = unat a mod 2 ^ w" and "s \<longleftrightarrow> 2 ^ w \<le> unat a"
  have e: "e = int (n div 2 ^ P) - int B" unfolding assms(9) f n_def ..
  have g: "unat sg = 2 ^ P + n mod 2 ^ P" unfolding assms(10) f n_def ..
  have s: "sign = (if s then - 1 else 1)" "sign' = (if s then - 1 else 1)" unfolding assms(7,8) f s_def by simp_all
  define M where "M = fix_magnitude P B n"
  define X where "X = (if e < int P then ucast (drop_bit (nat (int P - e)) sg) else push_bit (nat (e - int P)) (ucast sg) :: u128)"
  have h: "X = of_nat M" if "\<not> e < 0" unfolding X_def M_def using that by (intro fix_shift [OF g _ e]) simp
  note r = trunc_int128_shape [OF assms(4,3,6) [folded n_def s_def], folded e M_def]
  have small: "M < 2 ^ 127 \<longleftrightarrow> e < 127" if "0 \<le> e"
  proof -
    have "B \<le> n div 2 ^ P" using that e by simp
    then have "\<lfloor>real (fmag P n) / 2 ^ (B + P - 1)\<rfloor> = int M" unfolding M_def by (rule fix_magnitude_floor [OF _ assms(4,3)])
    then have "int M < 2 ^ 127 \<longleftrightarrow> \<not> 2 ^ 127 \<le> real (fmag P n) / 2 ^ (B + P - 1)" by (metis floor_less_iff not_le of_int_numeral of_int_power)
    also have "\<dots> \<longleftrightarrow> e < 127" unfolding fix_range(3) [OF assms(4,3)] e by auto
    finally show ?thesis by (metis of_nat_less_iff of_nat_numeral of_nat_power)
  qed
  have sm: "mul_int128 sign (of_nat M) = Some (sign * of_nat M)" if "0 \<le> e" "e < 127"
  proof -
    have "M < 2 ^ 127" using small that by simp
    then have "unat (of_nat M :: u128) < 2 ^ 127" by (simp add: unat_of_nat)
    then show ?thesis unfolding s(1) by (rule mul_sign)
  qed
  consider "e < 0" | "128 \<le> e" | "e = 127" | "0 \<le> e" "e < 127" "e < int P" | "0 \<le> e" "e < 127" "int P \<le> e" by linarith
  then show "(if e < 0 then Some 0 else if 128 \<le> e then Some (if sign = 1 then fixint_max else fixint_min)
      else if e < int P then mul_int128 sign (ucast (drop_bit (nat (int P - e)) sg))
      else (case shl_int128 (ucast sg) (nat (e - int P)) of None \<Rightarrow> None | Some v \<Rightarrow> mul_int128 sign v)) = trunc_int128 x"
  proof cases
    case 3
    have "shl_int128 (ucast sg) (nat (e - int P)) = None"
      using shl_significand [OF g assms(5) e] small 3 assms(5) unfolding M_def by simp
    then show ?thesis unfolding r(1) using 3 assms(5) by simp
  next
    case 4
    then have "ucast (drop_bit (nat (int P - e)) sg) = (of_nat M :: u128)" using h unfolding X_def by simp
    then show ?thesis unfolding r(1) using 4 sm by (simp add: s(1))
  next
    case 5
    then have "shl_int128 (ucast sg) (nat (e - int P)) = Some (of_nat M)"
      using shl_significand [OF g assms(5) e] small unfolding M_def by simp
    then show ?thesis unfolding r(1) using 5 sm by (simp add: s(1))
  qed (simp_all add: r(1) s(1))
  show "(if sign' = - 1 \<or> e < 0 then 0 else if 128 \<le> e then NOT 0
      else if e < int P then ucast (drop_bit (nat (int P - e)) sg) else push_bit (nat (e - int P)) (ucast sg)) = trunc_uint128 x"
    unfolding r(2) X_def [symmetric] unfolding s sign_word using h by (cases "e < 0") (simp_all only: if_True if_False simp_thms)
qed

lemma fix_values:
  "f32_real a = (if 2 ^ 31 \<le> unat a then - 1 else 1) * real (fmag 23 (unat a mod 2 ^ 31)) / 2 ^ (127 + 23 - 1)"
  "f64_real b = (if 2 ^ 63 \<le> unat b then - 1 else 1) * real (fmag 52 (unat b mod 2 ^ 63)) / 2 ^ (1023 + 52 - 1)"
  "f128_real c = (if 2 ^ 127 \<le> unat c then - 1 else 1) * real (fmag 112 (unat c mod 2 ^ 127)) / 2 ^ (16383 + 112 - 1)"
proof -
  have e: "127 + 23 - 1 = (149 :: nat)" "1023 + 52 - 1 = (1074 :: nat)" "16383 + 112 - 1 = (16494 :: nat)" by simp_all
  show "f32_real a = (if 2 ^ 31 \<le> unat a then - 1 else 1) * real (fmag 23 (unat a mod 2 ^ 31)) / 2 ^ (127 + 23 - 1)"
    "f64_real b = (if 2 ^ 63 \<le> unat b then - 1 else 1) * real (fmag 52 (unat b mod 2 ^ 63)) / 2 ^ (1023 + 52 - 1)"
    "f128_real c = (if 2 ^ 127 \<le> unat c then - 1 else 1) * real (fmag 112 (unat c mod 2 ^ 127)) / 2 ^ (16383 + 112 - 1)"
    unfolding e by (rule f32_real_def f64_real_def f128_real_def)+
qed

lemma fixsfti_correct: "fixsfti a = trunc_int128 (f32_real a)" "fixunssfti a = trunc_uint128 (f32_real a)"
  unfolding fixsfti_def fixunssfti_def Let_def fixint_consts
  using fixti_shape [OF _ _ _ _ _ fix_values(1) [of a] refl refl refl refl, unfolded of_nat_numeral]
  by (simp_all only: word_size len_num1 len_bit0 simp_thms)

lemma fixdfti_correct: "fixdfti a = trunc_int128 (f64_real a)" "fixunsdfti a = trunc_uint128 (f64_real a)"
  unfolding fixdfti_def fixunsdfti_def Let_def fixint_consts
  using fixti_shape [OF _ _ _ _ _ fix_values(2) [of a] refl refl refl refl, unfolded of_nat_numeral]
  by (simp_all only: word_size len_num1 len_bit0 simp_thms)

lemma fixtfti_correct: "fixtfti a = trunc_int128 (f128_real a)" "fixunstfti a = trunc_uint128 (f128_real a)"
  unfolding fixtfti_def fixunstfti_def Let_def fixint_consts
  using fixti_shape [OF _ _ _ _ _ fix_values(3) [of a] refl refl refl refl, unfolded of_nat_numeral  ucast_id]
  by (simp_all only: word_size len_num1 len_bit0 simp_thms)

section \<open>Rounding of 128-bit integers\<close>

lemma bit_length_bounds: "0 < n \<Longrightarrow> 1 \<le> bit_length n \<and> 2 ^ (bit_length n - 1) \<le> n \<and> n < 2 ^ bit_length n"
proof (induction n rule: bit_length.induct)
  case (1 n)
  show ?case
  proof (cases "n div 2 = 0")
    case True
    then have "n = 1" using 1(2) by linarith
    moreover have "bit_length 1 = 1" by (subst bit_length.simps) (simp add: bit_length.simps [of 0])
    ultimately show ?thesis by simp
  next
    case False
    then obtain k where k: "bit_length (n div 2) = Suc k" "2 ^ k \<le> n div 2" "n div 2 < 2 * 2 ^ k"
      using 1 by (cases "bit_length (n div 2)") auto
    then have "bit_length n = Suc (Suc k)" using 1(2) by (simp add: bit_length.simps [of n])
    moreover have "2 * (n div 2) \<le> n" "n < 2 * (n div 2) + 2" by linarith+
    then have "2 * 2 ^ k \<le> n" "n < 4 * 2 ^ k" using k(2,3) by linarith+
    ultimately show ?thesis by simp
  qed
qed

lemma bit_length_unique:
  assumes "2 ^ k \<le> n" and "n < 2 ^ Suc k"
  shows "bit_length n = Suc k"
proof -
  have n: "0 < n" using assms(1) by (rule less_le_trans [rotated]) simp
  note b = bit_length_bounds [OF n]
  have "(2::nat) ^ (bit_length n - 1) < 2 ^ Suc k" "(2::nat) ^ k < 2 ^ bit_length n" using b assms by linarith+
  then have "bit_length n - 1 < Suc k" "k < bit_length n" by (simp_all only: power_strict_increasing_iff one_less_numeral_iff semiring_norm)
  then show ?thesis using b by linarith
qed

lemma bit_length_word: "0 < unat (x :: 'a::len word) \<Longrightarrow> bit_length (unat x) \<le> LENGTH('a)"
proof -
  assume "0 < unat x"
  then have "2 ^ (bit_length (unat x) - 1) \<le> unat x" "1 \<le> bit_length (unat x)" using bit_length_bounds [of "unat x"] by simp_all
  then have "(2::nat) ^ (bit_length (unat x) - 1) < 2 ^ LENGTH('a)" using unat_lt [of x] by linarith
  then show ?thesis using \<open>1 \<le> bit_length (unat x)\<close> by (simp only: power_strict_increasing_iff one_less_numeral_iff semiring_norm)
qed

lemma clzti2_eq:
  assumes "a \<noteq> 0"
  shows "128 - int (clzti2 a) = int (bit_length (unat a))"
proof -
  define hi lo where "hi = (ucast (drop_bit 64 a) :: u64)" and "lo = (ucast a :: u64)"
  have h: "unat hi = unat a div 2 ^ 64" unfolding hi_def using unat_lt [of a]
    by (subst unat_ucast_small) (simp_all add: unat_drop_bit div_less_iff_less_mult)
  have l: "unat lo = unat a mod 2 ^ 64" unfolding lo_def by (simp add: unat_ucast_mod)
  have pos: "0 < unat a" using assms by (simp add: unat_gt_0)
  show ?thesis
  proof (cases "hi = 0")
    case True
    then have z: "unat a div 2 ^ 64 = 0" using h by simp
    then have u: "unat lo = unat a" using l by (metis div_mult_mod_eq mult_zero_left add_0)
    have "bit_length (unat lo) \<le> 64" using bit_length_word [of lo] pos u by simp
    moreover have "clzti2 a = clzll lo + 64" using True unfolding clzti2_def Let_def hi_def [symmetric] lo_def [symmetric] by simp
    ultimately show ?thesis unfolding clzll_def u by simp
  next
    case False
    then have p: "0 < unat hi" by (simp add: unat_gt_0)
    define k where "k = bit_length (unat hi) - 1"
    have b: "bit_length (unat hi) = Suc k" "2 ^ k \<le> unat hi" "unat hi < 2 ^ Suc k" "bit_length (unat hi) \<le> 64"
      using bit_length_bounds [OF p] bit_length_word [OF p] unfolding k_def by simp_all
    have s: "unat a = unat hi * 2 ^ 64 + unat lo" unfolding h l by (simp only: div_mult_mod_eq)
    have "bit_length (unat a) = Suc (k + 64)"
    proof (rule bit_length_unique)
      show "2 ^ (k + 64) \<le> unat a" unfolding s power_add using b(2) by (intro trans_le_add1 mult_le_mono1)
      have "unat a < (unat hi + 1) * 2 ^ 64" unfolding s using unat_lt [of lo] by simp
      also have "\<dots> \<le> 2 ^ Suc k * 2 ^ 64" using b(3) by (intro mult_le_mono1) simp
      finally show "unat a < 2 ^ Suc (k + 64)" by (simp add: power_add mult.assoc)
    qed
    moreover have "clzti2 a = clzll hi" using False unfolding clzti2_def Let_def hi_def [symmetric] lo_def [symmetric] by simp
    ultimately show ?thesis unfolding clzll_def using b by simp
  qed
qed

text \<open>The bit trick: or the last digit that stays into the sticky bit, add one, drop two bits.\<close>

lemma nearest_even_trick: "(A + of_bool (odd (A div 4) \<and> even A) + 1) div 4 = round_sig Round_near_even s 2 A"
proof -
  define q r where "q = A div 4" and "r = A mod 4"
  have A: "A = q * 4 + r" "r < 4" by (simp_all add: q_def r_def)
  have p: "even A \<longleftrightarrow> even r" using A(1) by simp
  have "(A + of_bool (odd q \<and> even A) + 1) div 4 = (q * 4 + (r + of_bool (odd q \<and> even r) + 1)) div 4" unfolding p unfolding A(1) by (simp only: add.assoc)
  also have "\<dots> = q + (r + of_bool (odd q \<and> even r) + 1) div 4" by simp
  also have "(r + of_bool (odd q \<and> even r) + 1) div 4 = of_bool (2 < r \<or> r = 2 \<and> odd q)"
  proof -
    consider "r = 0" | "r = 1" | "r = 2" | "r = 3" using A(2) by linarith
    then show ?thesis by cases auto
  qed
  finally show ?thesis unfolding q_def r_def by (subst round_sig_eq) simp_all
qed

lemma word_bit_test: "k < LENGTH('a) \<Longrightarrow> (a AND push_bit k 1 :: 'a::len word) \<noteq> 0 \<longleftrightarrow> odd (unat a div 2 ^ k)"
proof -
  assume "k < LENGTH('a)"
  then have "unat (a AND push_bit k (mask 1)) = (unat a div 2 ^ k mod 2 ^ 1) * 2 ^ k" by (intro unat_and_field) simp
  moreover have "(mask 1 :: 'a word) = 1" by (simp add: mask_eq_exp_minus_1)
  ultimately show ?thesis by (simp add: unat_eq_0 [symmetric] odd_iff_mod_2_eq_one)
qed

lemma trick_word:
  fixes a :: u128
  assumes "unat a < 2 ^ 100"
  shows "unat (drop_bit 2 ((a OR of_bool (a AND 4 \<noteq> 0)) + 1)) = round_sig Round_near_even s 2 (unat a)"
proof -
  have "(4 :: u128) = push_bit 2 1" by (simp add: push_bit_eq_mult)
  then have t: "a AND 4 \<noteq> 0 \<longleftrightarrow> odd (unat a div 4)" using word_bit_test [of 2 a] by simp
  have o: "unat (a OR of_bool (a AND 4 \<noteq> 0)) = unat a + of_bool (odd (unat a div 4) \<and> even (unat a))"
    unfolding unat_or_of_bool t ..
  have "unat ((a OR of_bool (a AND 4 \<noteq> 0)) + 1) = unat a + of_bool (odd (unat a div 4) \<and> even (unat a)) + 1"
    using assms unfolding o [symmetric] by (subst unat_add_small) (simp_all add: o)
  then show ?thesis unfolding unat_drop_bit by (simp only: nearest_even_trick [symmetric] power2_eq_square) simp
qed

lemma jam_word: "k \<le> LENGTH('a) \<Longrightarrow> unat (drop_bit k a OR of_bool (a AND mask k \<noteq> 0) :: 'a::len word) = jam (unat a) k"
proof -
  have "unat (a AND mask k) = unat a mod 2 ^ k" by (simp add: unat_take_bit flip: take_bit_eq_mask)
  then have "a AND mask k \<noteq> 0 \<longleftrightarrow> unat a mod 2 ^ k \<noteq> 0" by (metis unat_eq_0)
  then show ?thesis unfolding unat_or_of_bool unat_drop_bit jam_def by simp
qed

lemma drop_minus_1: "k \<le> 128 \<Longrightarrow> drop_bit (128 - k) (- 1 :: u128) = mask k"
  by (rule bit_word_eqI) (auto simp: bit_simps)

lemma round_mag_nat [simp]: "round_mag m s (real k) = k"
proof -
  have f: "frac (real k) = 0" by (simp add: frac_def)
  show ?thesis by (cases m) (simp_all add: round_mag_def f)
qed

text \<open>The number with its guard digits, and its rounding to 53 digits.\<close>

lemma guarded:
  fixes a :: u128
  assumes "53 < sd" and "sd \<le> 128" and "unat a < 2 ^ sd"
    and "a' = (if int sd = 54 then push_bit 1 a else if int sd = 55 then a
       else drop_bit (nat (int sd - 55)) a OR of_bool (a AND drop_bit (nat (128 + 55 - int sd)) (- 1) \<noteq> 0))"
  shows "agrees 1 (real (unat a) / 2 ^ (sd - 53) * 4) (unat a')" and "unat a' < 2 ^ 55"
proof -
  consider (one) "sd = 54" | (two) "sd = 55" | (more) k where "sd = k + 55" "0 < k" "k \<le> 73"
    using assms(1,2) that(3) [of "sd - 55"] by linarith
  then have "agrees 1 (real (unat a) / 2 ^ (sd - 53) * 4) (unat a') \<and> unat a' < 2 ^ 55"
  proof cases
    case one
    have "unat (push_bit 1 a) = unat a * 2 ^ 1" by (rule unat_push_bit) (use assms(3) one in simp)
    then have u: "unat a' = unat a * 2" unfolding assms(4) one by (simp only: of_nat_numeral refl if_True power_one_right)
    have e: "real (unat a) / 2 ^ (54 - 53) * 4 = real (unat a * 2)" by (simp only: of_nat_mult) simp
    show ?thesis unfolding u one e by (intro conjI agrees_refl) (use assms(3) one in simp)
  next
    case two
    have e: "real (unat a) / 2 ^ (55 - 53) * 4 = real (unat a)" by simp
    have u: "a' = a" unfolding assms(4) two by simp
    show ?thesis unfolding u two e by (intro conjI agrees_refl) (use assms(3) two in simp)
  next
    case more
    have m: "drop_bit (nat (128 + 55 - int sd)) (- 1 :: u128) = mask k"
      using drop_minus_1 [of k] more by (simp add: nat_diff_distrib')
    have n: "nat (int sd - 55) = k" "int sd \<noteq> 54" "int sd \<noteq> 55" using more by simp_all
    have u: "unat a' = jam (unat a) k" unfolding assms(4) m n using more(3) n(2,3) by (simp add: jam_word)
    have p: "sd - 53 = k + 2" using more(1) by simp
    have "real (unat a) / 2 ^ (sd - 53) * 4 = real (unat a) / 2 ^ k" unfolding p power_add by simp
    moreover have "unat a < 2 ^ 55 * 2 ^ k" using assms(3) unfolding more(1) by (simp add: power_add mult.commute)
    then have "jam (unat a) k < 2 ^ 55" by (subst jam_less_iff) simp_all
    ultimately show ?thesis unfolding u using agrees_jam_nat [of "unat a" k] by simp
  qed
  then show "agrees 1 (real (unat a) / 2 ^ (sd - 53) * 4) (unat a')" and "unat a' < 2 ^ 55" by simp_all
qed

text \<open>
  The result \<open>(r, e)\<close>: a significand of 53 digits and an exponent that encode the number with its
  digits behind the 53rd rounded off.
\<close>

lemma round_ti_correct:
  assumes "0 < unat a" and "sd = bit_length (unat a)" and "round_ti (int sd) a = (r, e)"
    and "y = real (unat a) * 2 powi (53 - int sd)"
  shows "nat \<lfloor>y\<rfloor> < 2 ^ 53" and "2 ^ 52 \<le> nat \<lfloor>y\<rfloor>" and "unat r < 2 ^ 53" and "2 ^ 52 \<le> unat r" and "int sd - 1 \<le> e" and "e \<le> int sd"
    and "nat (e + 1022) * 2 ^ 52 + unat r = (sd + 1021) * 2 ^ 52 + round_mag Round_near_even s y"
proof -
  note b = bit_length_bounds [OF assms(1), folded assms(2)]
  have sd: "sd \<le> 128" using bit_length_word [OF assms(1)] assms(2) by simp
  have "nat \<lfloor>y\<rfloor> < 2 ^ 53 \<and> 2 ^ 52 \<le> nat \<lfloor>y\<rfloor> \<and> unat r < 2 ^ 53 \<and> 2 ^ 52 \<le> unat r \<and> int sd - 1 \<le> e \<and> e \<le> int sd \<and>
    nat (e + 1022) * 2 ^ 52 + unat r = (sd + 1021) * 2 ^ 52 + round_mag Round_near_even s y"
  proof (cases "53 < sd")
    case True
    define d where "d = sd - 53"
    have d: "sd = d + 53" using True by (simp add: d_def)
    have y: "y = real (unat a) / 2 ^ d" unfolding assms(4) d by (simp add: power_int_minus divide_inverse)
    have f: "nat \<lfloor>y\<rfloor> = unat a div 2 ^ d" unfolding y by (metis floor_divide_of_nat_eq nat_int of_nat_numeral of_nat_power)
    have fl: "2 ^ 52 \<le> unat a div 2 ^ d" "unat a div 2 ^ d < 2 ^ 53"
      using b unfolding d by (simp_all add: less_eq_div_iff_mult_less_eq div_less_iff_less_mult power_add mult.commute)
    define a' where "a' = (if int sd = 54 then push_bit 1 a else if int sd = 55 then a
       else drop_bit (nat (int sd - 55)) a OR of_bool (a AND drop_bit (nat (128 + 55 - int sd)) (- 1) \<noteq> 0))"
    note g = guarded [OF True sd _ a'_def, folded d_def]
    have g: "agrees 1 (y * 4) (unat a')" "unat a' < 2 ^ 55" using g b unfolding y by simp_all
    define w where "w = drop_bit 2 ((a' OR of_bool (a' AND 4 \<noteq> 0)) + 1)"
    have w: "unat w = round_mag Round_near_even s y"
      unfolding w_def using g round_sig_agrees [of 2 "y * 4" "unat a'" Round_near_even s] by (subst trick_word) simp_all
    have wr: "2 ^ 52 \<le> unat w" "unat w \<le> 2 ^ 53"
      using fl f round_mag_le [of Round_near_even s y] unfolding w by (simp_all add: round_mag_def)
    have re: "(r, e) = (if w AND push_bit 53 1 \<noteq> 0 then (drop_bit 1 w, int sd - 1 + 1) else (w, int sd - 1))"
      using True unfolding assms(3) [symmetric] round_ti_def Let_def a'_def [symmetric] w_def [symmetric] by simp
    have c: "w AND push_bit 53 1 \<noteq> 0 \<longleftrightarrow> unat w = 2 ^ 53"
    proof -
      have "unat w div 2 ^ 53 = (if unat w = 2 ^ 53 then 1 else 0)" using wr by (auto simp: div_eq_0_iff)
      then show ?thesis using word_bit_test [of 53 w] by simp
    qed
    show ?thesis
    proof (cases "unat w = 2 ^ 53")
      case True
      then have e: "e = int sd" "unat r = 2 ^ 52" using re c by (simp_all add: unat_drop_bit)
      have n: "nat (int sd + 1022) = sd + 1022" by simp
      show ?thesis unfolding e n f w [symmetric] True using fl by simp
    next
      case False
      then have e: "e = int sd - 1" "r = w" using re c by simp_all
      have n: "nat (int sd - 1 + 1022) = sd + 1021" by simp
      show ?thesis unfolding e n f w [symmetric] using fl wr False by simp
    qed
  next
    case False
    define d where "d = 53 - sd"
    have d: "53 = sd + d" using False by (simp add: d_def)
    have k: "2 ^ 52 \<le> unat a * 2 ^ d" "unat a * 2 ^ d < 2 ^ 53"
    proof -
      have "2 ^ (sd - 1) * 2 ^ d \<le> unat a * 2 ^ d" "unat a * 2 ^ d < 2 ^ sd * 2 ^ d" using b by simp_all
      moreover have "sd - 1 + d = 52" using d b by linarith
      ultimately show "2 ^ 52 \<le> unat a * 2 ^ d" "unat a * 2 ^ d < 2 ^ 53"
        unfolding power_add [symmetric] d [symmetric] by simp_all
    qed
    have y: "y = real (unat a * 2 ^ d)" unfolding assms(4) using False by (simp add: d_def power_int_def nat_diff_distrib)
    have re: "r = push_bit d a" "e = int sd - 1"
      using False assms(3) unfolding round_ti_def Let_def d_def by (simp_all add: nat_diff_distrib)
    have u: "unat r = unat a * 2 ^ d" unfolding re using k by (intro unat_push_bit) simp
    have n: "nat (int sd - 1 + 1022) = sd + 1021" by simp
    show ?thesis unfolding re(2) n u y round_mag_nat floor_of_nat nat_int using k by simp
  qed
  then show "nat \<lfloor>y\<rfloor> < 2 ^ 53" and "2 ^ 52 \<le> nat \<lfloor>y\<rfloor>" and "unat r < 2 ^ 53" and "2 ^ 52 \<le> unat r" and "int sd - 1 \<le> e" and "e \<le> int sd"
    and "nat (e + 1022) * 2 ^ 52 + unat r = (sd + 1021) * 2 ^ 52 + round_mag Round_near_even s y" by simp_all
qed

lemma double_bits_unat:
  fixes r :: u128
  assumes "0 \<le> e" and "e + 1023 < 2 ^ 11" and "2 ^ 52 \<le> unat r" and "unat r < 2 ^ 53" and "unat sg = of_bool neg * 2 ^ 31"
  shows "unat (double_bits (sg OR push_bit 20 (word_of_int (e + 1023)) OR (ucast (drop_bit 32 r) AND 0x000FFFFF)) (ucast r)) =
    of_bool neg * 2 ^ 63 + (nat (e + 1022) * 2 ^ 52 + unat r)"
proof -
  define f m x where "f = nat (e + 1023)" and "m = (ucast (drop_bit 32 r) AND 0x000FFFFF :: u32)" and "x = (push_bit 20 (word_of_int (e + 1023)) :: u32)"
  have k: "(0x000FFFFF :: u32) = 2 ^ 20 - 1" by simp
  have m: "unat m = unat r div 2 ^ 32 mod 2 ^ 20" unfolding m_def k unat_and_mask unat_ucast_mod unat_drop_bit by (simp add: mod_mod_cancel)
  have w: "unat (word_of_int (e + 1023) :: u32) = f" unfolding f_def using assms(1,2) by (intro unat_word_of_int) simp_all
  have fl: "f < 2 ^ 11" using assms(1,2) unfolding f_def by simp
  have x: "unat x = f * 2 ^ 20" unfolding x_def w [symmetric] by (rule unat_push_bit) (use fl w in \<open>simp del: of_int_add\<close>)
  have mx: "unat (x OR m) = unat m + f * 2 ^ 20" using unat_or_disjoint [of m 20 x] m x by (simp add: or.commute)
  have "unat m < 2 ^ 20" unfolding m by simp
  then have ml: "unat (x OR m) < 2 ^ 31" using fl unfolding mx by simp
  have h: "unat (sg OR x OR m) = unat m + f * 2 ^ 20 + of_bool neg * 2 ^ 31"
    using unat_or_disjoint [of "x OR m" 31 sg] ml mx assms(5) by (simp add: or.commute)
  have "unat (sg OR x OR m) < 2 ^ 32" using unat_lt [of "sg OR x OR m"] by simp
  then have p: "unat (push_bit 32 (ucast (sg OR x OR m)) :: u64) = unat (sg OR x OR m) * 2 ^ 32" by (subst unat_push_bit) (simp_all add: unat_ucast_small)
  have l: "unat (ucast (ucast r :: u32) :: u64) = unat r mod 2 ^ 32" by (simp add: unat_ucast_mod mod_mod_cancel)
  have d: "unat (double_bits (sg OR x OR m) (ucast r)) = unat (sg OR x OR m) * 2 ^ 32 + unat r mod 2 ^ 32"
    unfolding double_bits_def using unat_or_disjoint [of "ucast (ucast r :: u32) :: u64" 32 "push_bit 32 (ucast (sg OR x OR m)) :: u64"] p l by (simp add: or.commute)
  have q: "unat r div 2 ^ 32 mod 2 ^ 20 * 2 ^ 32 + unat r mod 2 ^ 32 = unat r - 2 ^ 52"
  proof -
    define q t where "q = unat r div 2 ^ 32" and "t = unat r mod 2 ^ 32"
    have r: "unat r = q * 2 ^ 32 + t" "t < 2 ^ 32" by (simp_all add: q_def t_def)
    have "q < 2 ^ 21" "2 ^ 20 \<le> q" unfolding q_def using assms(3,4) by (simp_all add: div_less_iff_less_mult less_eq_div_iff_mult_less_eq)
    then have "q mod 2 ^ 20 = q - 2 ^ 20" by (simp add: mod_if)
    then have "q mod 2 ^ 20 * 2 ^ 32 + t = unat r - 2 ^ 52" using r(1) \<open>2 ^ 20 \<le> q\<close> by simp
    then show ?thesis unfolding q_def t_def .
  qed
  have n: "f = nat (e + 1022) + 1" unfolding f_def using assms(1) by simp
  have "unat (sg OR x OR m) * 2 ^ 32 + unat r mod 2 ^ 32 = (unat r div 2 ^ 32 mod 2 ^ 20 * 2 ^ 32 + unat r mod 2 ^ 32) + f * 2 ^ 52 + of_bool neg * 2 ^ 63"
    unfolding h m by simp
  also have "\<dots> = of_bool neg * 2 ^ 63 + (nat (e + 1022) * 2 ^ 52 + unat r)" unfolding q n using assms(3) by simp
  finally show ?thesis using d unfolding x_def m_def by simp
qed

lemma ti_rounded:
  assumes "a \<noteq> 0" and "round_ti (128 - int (clzti2 a)) a = (r, e)" and "unat sg = of_bool neg * 2 ^ 31"
    and "x = (if neg then - real (unat a) else real (unat a))"
  shows "\<exists>st. f64_rounded softfloat_init False x
    (double_bits (sg OR push_bit 20 (word_of_int (e + 1023)) OR (ucast (drop_bit 32 r) AND 0x000FFFFF)) (ucast r), st)"
proof -
  have pos: "0 < unat a" using assms(1) by (simp add: unat_gt_0)
  define sd where "sd = bit_length (unat a)"
  define y where "y = real (unat a) * 2 powi (53 - int sd)"
  have sd: "1 \<le> sd" "sd \<le> 128" using bit_length_bounds [OF pos] bit_length_word [OF pos] unfolding sd_def by simp_all
  have rt: "round_ti (int sd) a = (r, e)" using assms(2) unfolding clzti2_eq [OF assms(1)] sd_def .
  note c = round_ti_correct(1-6) [OF pos sd_def rt y_def] round_ti_correct(7) [OF pos sd_def rt y_def, where s = neg]
  have y0: "0 \<le> y" unfolding y_def by (intro mult_nonneg_nonneg of_nat_0_le_iff zero_le_power_int) simp
  have mag: "real (unat a) * 2 ^ 1074 = y * 2 ^ (sd + 1021)"
  proof -
    have "(2::real) powi (53 - int sd) * 2 ^ (sd + 1021) = 2 powi ((53 - int sd) + int (sd + 1021))"
      by (subst power_int_add) (simp_all flip: power_int_of_nat)
    also have "(53 - int sd) + int (sd + 1021) = int 1074" by simp
    finally show ?thesis unfolding y_def by (simp only: mult.assoc power_int_of_nat)
  qed
  define n where "n = (sd + 1021) * 2 ^ 52 + round_mag Round_near_even neg y"
  have bt: "between 52 (real (unat a) * 2 ^ 1074) ((sd + 1021) * 2 ^ 52 + nat \<lfloor>y\<rfloor>)"
    unfolding mag using c(1,2) y0 by (intro between_pack) simp_all
  have ri: "round_index 52 Round_near_even neg (real (unat a) * 2 ^ 1074) ((sd + 1021) * 2 ^ 52 + nat \<lfloor>y\<rfloor>) = n"
    unfolding mag n_def using c(1,2) y0 by (intro round_index_pack) simp_all
  have "nat \<lfloor>y\<rfloor> < 2 ^ (52 + 1)" "sd + 1021 + 2 \<le> 2047" using c(1) sd(2) by simp_all
  then have lt: "(sd + 1021) * 2 ^ 52 + nat \<lfloor>y\<rfloor> < fp_inf 52 2047" by (rule pack_index_less)
  have fr: "fl_rounds 52 (fp_inf 52 2047) Round_near_even neg (real (unat a) * 2 ^ 1074) n"
    unfolding fl_rounds_def by (intro exI [of _ "(sd + 1021) * 2 ^ 52 + nat \<lfloor>y\<rfloor>"] conjI bt) (simp only: lt if_True ri)
  have u: "unat (double_bits (sg OR push_bit 20 (word_of_int (e + 1023)) OR (ucast (drop_bit 32 r) AND 0x000FFFFF)) (ucast r)) =
      of_bool neg * fp_half 52 2047 + n"
    using double_bits_unat [OF _ _ c(4,3) assms(3)] c(5-7) sd unfolding n_def by (simp add: fp_half_def)
  have m: "mode softfloat_init = Round_near_even" by (simp add: softfloat_init_def rmode_of_def)
  define V K where "V = real (unat a) * 2 ^ 1074" and "K = (2 :: real) ^ 1074"
  have "0 < real (unat a)" using pos by (simp only: of_nat_0_less_iff)
  then have V: "0 < V" "V = real (unat a) * K" "K \<noteq> 0" unfolding V_def K_def by (auto intro: mult_pos_pos)
  define z where "z = double_bits (sg OR push_bit 20 (word_of_int (e + 1023)) OR (ucast (drop_bit 32 r) AND 0x000FFFFF)) (ucast r)"
  have "fl_result 52 2047 softfloat_init neg V (unat z) (softfloat_raiseFlags (fl_flags 52 2047 softfloat_init neg V) softfloat_init)"
    unfolding fl_result_def m z_def u using fr [folded V_def] by blast
  then have "fl_result 52 2047 softfloat_init neg \<bar>V\<bar> (unat (fst (z, softfloat_raiseFlags (fl_flags 52 2047 softfloat_init neg V) softfloat_init)))
      (snd (z, softfloat_raiseFlags (fl_flags 52 2047 softfloat_init neg V) softfloat_init))" using V(1) by (simp only: fst_conv snd_conv abs_of_pos)
  moreover have "x = (if neg then - 1 else 1) * V / K" unfolding assms(4) V(2) using V(3) by simp
  ultimately have "f64_rounded softfloat_init False x (z, softfloat_raiseFlags (fl_flags 52 2047 softfloat_init neg V) softfloat_init)"
    unfolding K_def by (rule f64_roundedI) (use V(1) in simp)
  then show ?thesis unfolding z_def by blast
qed

lemma floatuntidf_correct: "\<exists>st. f64_rounded softfloat_init False (real (unat a)) (floatuntidf a, st)"
proof (cases "a = 0")
  case True
  then show ?thesis using ui64_to_f64_correct [where a = 0 and st = softfloat_init] by (auto simp: floatuntidf_def ui64_to_f64_def)
next
  case False
  obtain r e where r: "round_ti (128 - int (clzti2 a)) a = (r, e)" by (cases "round_ti (128 - int (clzti2 a)) a")
  have "floatuntidf a = double_bits (0 OR push_bit 20 (word_of_int (e + 1023)) OR (ucast (drop_bit 32 r) AND 0x000FFFFF)) (ucast r)"
    unfolding floatuntidf_def Let_def r using False by simp
  then show ?thesis using ti_rounded [OF False r, of 0 False] by simp
qed

text \<open>The rest of the code on the difference as it wraps around, for every integer.\<close>

lemma floattidf_bits_correct:
  assumes "a \<noteq> 0"
  shows "\<exists>st. f64_rounded softfloat_init False (of_int (sint a))
    (floattidf_bits (signed_drop_bit 127 a) ((a XOR signed_drop_bit 127 a) - signed_drop_bit 127 a), st)"
proof -
  define s b neg where "s = signed_drop_bit 127 a" and "b = (a XOR s) - s" and "neg \<longleftrightarrow> sint a < 0"
  have s: "s = (if neg then - 1 else 0)" unfolding s_def neg_def by (rule bit_word_eqI) (auto simp: bit_simps bit_last_iff [symmetric] Suc_le_eq)
  have b: "b = (if sint a < 0 then - scast a else scast a)"
  proof (cases neg)
    case True
    have "b = NOT a + 1" unfolding b_def s using True by simp
    also have "\<dots> = - a" by (rule minus_eq_not_plus_1 [symmetric])
    finally show ?thesis using True unfolding neg_def by simp
  next
    case False
    then show ?thesis unfolding b_def s neg_def by simp
  qed
  have ub: "unat b = nat \<bar>sint a\<bar>" unfolding b by (rule unat_abs) simp
  have "sint a \<noteq> 0"
  proof
    assume "sint a = 0"
    then have "word_of_int (sint a) = (0 :: u128)" by simp
    then show False using assms by simp
  qed
  then have "unat b \<noteq> 0" unfolding ub by simp
  then have b0: "b \<noteq> 0" by (intro notI) simp
  obtain r e where r: "round_ti (128 - int (clzti2 b)) b = (r, e)" by (cases "round_ti (128 - int (clzti2 b)) b")
  have "(ucast (- 1 :: u128) :: u32) = - 1" by (rule bit_word_eqI) (simp add: bit_simps)
  then have "unat (ucast s AND 0x80000000 :: u32) = of_bool neg * 2 ^ 31" unfolding s by simp
  moreover have "of_int (sint a) = (if neg then - real (unat b) else real (unat b))" unfolding ub neg_def by simp
  ultimately have "\<exists>st. f64_rounded softfloat_init False (of_int (sint a)) (double_bits ((ucast s AND 0x80000000) OR push_bit 20 (word_of_int (e + 1023)) OR (ucast (drop_bit 32 r) AND 0x000FFFFF)) (ucast r), st)"
    by (rule ti_rounded [OF b0 r])
  then show ?thesis unfolding floattidf_bits_def Let_def s_def [symmetric] b_def [symmetric] r by simp
qed

lemma sign_mask:
  fixes a :: u128
  shows "signed_drop_bit 127 a = (if sint a < 0 then - 1 else 0)"
  by (rule bit_word_eqI) (auto simp: bit_simps bit_last_iff [symmetric] Suc_le_eq)

lemma least_int128: "sint (a :: u128) = - (2 ^ 127) \<longleftrightarrow> a = push_bit 127 1"
proof
  assume "sint a = - (2 ^ 127)"
  then have "word_of_int (sint a) = (word_of_int (- (2 ^ 127)) :: u128)" by simp
  then show "a = push_bit 127 1" by (simp add: push_bit_eq_mult)
next
  have "sint (word_of_int (- (2 ^ 127)) :: u128) = - (2 ^ 127)" by (rule sint_of_small) (simp add: in_int128_def)
  moreover have "(word_of_int (- (2 ^ 127)) :: u128) = push_bit 127 1" by (simp add: push_bit_eq_mult)
  ultimately show "a = push_bit 127 1 \<Longrightarrow> sint a = - (2 ^ 127)" by simp
qed

lemma sub_sign_mask:
  fixes a :: u128
  shows "sub_int128 (a XOR signed_drop_bit 127 a) (signed_drop_bit 127 a) =
    (if a = push_bit 127 1 then None else Some ((a XOR signed_drop_bit 127 a) - signed_drop_bit 127 a))"
proof (cases "sint a < 0")
  case True
  have x: "a XOR - 1 = word_of_int (- sint a - 1)" by (simp add: not_eq_complement)
  have r: "in_int128 (- sint a - 1)" using True sint_int128 [of a] by (simp add: in_int128_def del: sint_int128)
  have "in_int128 (sint (a XOR - 1) - sint (- 1 :: u128)) \<longleftrightarrow> sint a \<noteq> - (2 ^ 127)"
    unfolding x sint_of_small [OF r] using True sint_int128 [of a] by (auto simp: in_int128_def simp del: sint_int128)
  then show ?thesis unfolding sub_int128_def sign_mask least_int128 using True by simp
next
  case False
  then have "a \<noteq> push_bit 127 1" unfolding least_int128 [symmetric] by simp
  then show ?thesis unfolding sub_int128_def sign_mask using False by simp
qed

lemma floattidf_eq:
  "floattidf a = (if a = 0 then Some 0 else if a = push_bit 127 1 then None
     else Some (floattidf_bits (signed_drop_bit 127 a) ((a XOR signed_drop_bit 127 a) - signed_drop_bit 127 a)))"
  unfolding floattidf_def Let_def sub_sign_mask by simp

lemma floattidf_correct:
  "\<exists>z st. f64_rounded softfloat_init False (of_int (sint a)) (z, st) \<and>
     (if sint a = - (2 ^ 127) then floattidf a = None \<and> floattidf_bits (- 1) (push_bit 127 1) = z else floattidf a = Some z)"
proof (cases "a = 0")
  case True
  then show ?thesis using ui64_to_f64_correct [where a = 0 and st = softfloat_init] by (auto simp: floattidf_def ui64_to_f64_def)
next
  case False
  have "signed_drop_bit 127 (push_bit 127 1) = (- 1 :: u128)"
    "(push_bit 127 1 XOR - 1) - - 1 = (push_bit 127 1 :: u128)" by code_simp+
  note e = this
  show ?thesis
  proof (cases "a = push_bit 127 1")
    case True
    have l: "sint a = - (2 ^ 127)" unfolding least_int128 by (rule True)
    have u: "floattidf a = None" using floattidf_eq [of a] False unfolding True by (simp only: if_True if_False simp_thms)
    obtain st where st: "f64_rounded softfloat_init False (of_int (sint a)) (floattidf_bits (- 1) (push_bit 127 1), st)"
      using floattidf_bits_correct [OF False] unfolding True e by blast
    show ?thesis
      by (intro exI [of _ "floattidf_bits (- 1) (push_bit 127 1)"] exI [of _ st] conjI, rule st) (simp only: l u if_True simp_thms)
  next
    case n: False
    then show ?thesis using floattidf_bits_correct [OF False] False unfolding floattidf_eq least_int128 by auto
  qed
qed

text \<open>On the integers of 64 bits the result is the one of the floating-point library.\<close>

lemma f64_rounded_unique: "f64_rounded st zs x (z, s1) \<Longrightarrow> f64_rounded st zs x (z', s2) \<Longrightarrow> z = z'"
  unfolding f64_rounded_def fst_conv snd_conv using fl_result_unique by (metis word_unat_eq_iff)

lemma floattidf_i64: "floattidf (scast (a :: u64)) = Some (fst (i64_to_f64 a softfloat_init))"
proof -
  have s: "sint (scast a :: u128) = sint a" by (rule sint_up_scast) (simp add: is_up)
  have l: "sint a \<noteq> - (2 ^ 127)" using sint_ge [of a] by auto
  obtain z st where z: "f64_rounded softfloat_init False (of_int (sint a)) (z, st)" "floattidf (scast a) = Some z"
    using floattidf_correct [of "scast a"] l unfolding s by auto
  have "f64_rounded softfloat_init False (of_int (sint a)) (fst (i64_to_f64 a softfloat_init), snd (i64_to_f64 a softfloat_init))"
    using i64_to_f64_correct [where a = a and st = softfloat_init] by simp
  then have "z = fst (i64_to_f64 a softfloat_init)" by (rule f64_rounded_unique [OF z(1)])
  then show ?thesis using z(2) by simp
qed

lemma floatuntidf_ui64: "floatuntidf (ucast (a :: u64)) = fst (ui64_to_f64 a softfloat_init)"
proof -
  have s: "unat (ucast a :: u128) = unat a" by (rule unat_ucast_up) simp
  obtain st where "f64_rounded softfloat_init False (real (unat a)) (floatuntidf (ucast a), st)"
    using floatuntidf_correct [of "ucast a"] unfolding s by blast
  moreover have "f64_rounded softfloat_init False (real (unat a)) (fst (ui64_to_f64 a softfloat_init), snd (ui64_to_f64 a softfloat_init))"
    using ui64_to_f64_correct [where a = a and st = softfloat_init] by simp
  ultimately show ?thesis by (rule f64_rounded_unique)
qed

end
