(* ===== verification/WL_Host.thy ===== *)
theory WL_Host
  imports WL_Name Builtins "HOL-Library.Signed_Division"
begin

text \<open>
  The functions a contract imports from the host (\<open>wasm_interface.cpp\<close>), the context they run in
  with its gas account (\<open>wasm_context.hpp\<close>), and the checks of \<open>wavm.hpp\<close> that turn 32-bit
  addresses of the contract into pointers to its memory. A call is a function on the state of the
  host that returns a value or stops the contract, and the state it leaves in either case. The
  callbacks of the embedding program are parameters.
\<close>

section \<open>State, calls and how they end\<close>

text \<open>
  The memory of the running contract is the bytes it may use, \<open>None\<close> when the module has no memory.
  The pointers to the four addresses lead to 20 bytes each; the world is the state of the embedding
  program.
\<close>

record wasm_context =
  act_name :: u64
  act_data :: "u8 list"
  from_addr_bytes :: "u8 list"
  to_addr_bytes :: "u8 list"
  owner_addr_bytes :: "u8 list"
  user_addr_bytes :: "u8 list"
  transfer_amount :: u64
  state_key :: u64

record 'w host_state =
  remained_gas :: u64
  memory :: "u8 list option"
  console_output :: string
  world :: 'w

datatype stop =
    Thrown ftl_exception
  | Access_violation
  | Exited
  | Undefined

type_synonym ('w, 'a) call = "'w host_state \<Rightarrow> (stop + 'a) \<times> 'w host_state"

definition return_call :: "'a \<Rightarrow> ('w, 'a) call" where
  "return_call x s = (Inr x, s)"

definition stop_call :: "stop \<Rightarrow> ('w, 'a) call" where
  "stop_call e s = (Inl e, s)"

definition bind_call :: "('w, 'a) call \<Rightarrow> ('a \<Rightarrow> ('w, 'b) call) \<Rightarrow> ('w, 'b) call" where
  "bind_call c f s = (case c s of (Inl e, s') \<Rightarrow> (Inl e, s') | (Inr x, s') \<Rightarrow> f x s')"

definition assert_call :: "bool \<Rightarrow> ftl_exception \<Rightarrow> ('w, unit) call" where
  "assert_call b e = (if b then return_call () else stop_call (Thrown e))"

text \<open>
  \<open>wasm_context::use_gas\<close>: the comparison of the unsigned account with the signed price converts
  the price, so both are unsigned here.
\<close>

definition use_gas :: "u64 \<Rightarrow> ('w, unit) call" where
  "use_gas gas s =
     (if remained_gas s < gas then (Inl (Thrown (wasm_runtime_exception ''gas limit exceeded'')), s)
      else (Inr (), s\<lparr>remained_gas := remained_gas s - gas\<rparr>))"

definition GAS_CALL_BASE :: u64 where "GAS_CALL_BASE = 100"
definition GAS_RECOVER_KEY :: u64 where "GAS_RECOVER_KEY = 450000"
definition GAS_SHA256_BASE :: u64 where "GAS_SHA256_BASE = 2400"
definition GAS_SHA256_BYTE :: u64 where "GAS_SHA256_BYTE = 3"
definition GAS_LOG_0 :: u64 where "GAS_LOG_0 = 80000"
definition GAS_LOG_1 :: u64 where "GAS_LOG_1 = 90000"
definition GAS_LOG_2 :: u64 where "GAS_LOG_2 = 100000"
definition GAS_LOG_DATA :: u64 where "GAS_LOG_DATA = 1000"
definition GAS_MEMOP_BYTE :: u64 where "GAS_MEMOP_BYTE = 3"
definition GAS_TRANSFER :: u64 where "GAS_TRANSFER = 1000000"
definition GAS_DBSTORE_BASE :: u64 where "GAS_DBSTORE_BASE = 1000000"
definition GAS_DBSTORE_BYTE :: u64 where "GAS_DBSTORE_BYTE = 100000"
definition GAS_DBLOAD_BASE :: u64 where "GAS_DBLOAD_BASE = 1000000"
definition GAS_DBLOAD_BYTE :: u64 where "GAS_DBLOAD_BYTE = 100000"
definition GAS_DB_HAS :: u64 where "GAS_DB_HAS = 500000"
definition GAS_DB_RMV :: u64 where "GAS_DB_RMV = 500000"

section \<open>Access to the memory of the contract\<close>

definition slice :: "nat \<Rightarrow> nat \<Rightarrow> 'a list \<Rightarrow> 'a list" where
  "slice p n xs = take n (drop p xs)"

definition overwrite :: "nat \<Rightarrow> 'a list \<Rightarrow> 'a list \<Rightarrow> 'a list" where
  "overwrite p ys xs = take p xs @ ys @ drop (p + length ys) xs"

definition read_memory :: "nat \<Rightarrow> nat \<Rightarrow> ('w, u8 list) call" where
  "read_memory p n s = (case memory s of None \<Rightarrow> (Inl Undefined, s) | Some m \<Rightarrow> (Inr (slice p n m), s))"

definition write_memory :: "nat \<Rightarrow> u8 list \<Rightarrow> ('w, unit) call" where
  "write_memory p ys s = (case memory s of None \<Rightarrow> (Inl Undefined, s) | Some m \<Rightarrow> (Inr (), s\<lparr>memory := Some (overwrite p ys m)\<rparr>))"

text \<open>
  \<open>array_ptr_impl\<close> for bytes: the length is a signed 32-bit argument that is extended to 64 bits; the
  result is the offset and the length.
\<close>

definition size_arg :: "u32 \<Rightarrow> u64" where
  "size_arg sz = scast sz"

definition array_ptr :: "u32 \<Rightarrow> u32 \<Rightarrow> ('w, nat \<times> nat) call" where
  "array_ptr ptr sz s =
     (case memory s of None \<Rightarrow> (Inl Access_violation, s)
      | Some m \<Rightarrow>
          let mem_total = of_nat (length m) :: u64; len = size_arg sz
          in if mem_total \<le> ucast ptr \<or> mem_total - ucast ptr < len then (Inl Access_violation, s)
             else (Inr (unat ptr, unat len), s))"

definition null_terminated_ptr :: "u32 \<Rightarrow> ('w, nat) call" where
  "null_terminated_ptr ptr s =
     (case memory s of None \<Rightarrow> (Inl Access_violation, s)
      | Some m \<Rightarrow> if 0 \<in> set (drop (unat ptr) m) then (Inr (unat ptr), s) else (Inl Access_violation, s))"

text \<open>A reference to a value of \<open>n\<close> bytes.\<close>

definition reference_arg :: "nat \<Rightarrow> string \<Rightarrow> u32 \<Rightarrow> ('w, nat) call" where
  "reference_arg n msg ptr =
     bind_call (assert_call (ptr \<noteq> 0) (wasm_runtime_exception msg)) (\<lambda>_ s.
       case memory s of None \<Rightarrow> (Inl Access_violation, s)
       | Some m \<Rightarrow> if (of_nat (length m) :: u64) \<le> ucast ptr + of_nat n then (Inl Access_violation, s) else (Inr (unat ptr), s))"

definition const_reference :: "nat \<Rightarrow> u32 \<Rightarrow> ('w, nat) call" where
  "const_reference n = reference_arg n ''references cannot be created for null pointers''"

definition mutable_reference :: "nat \<Rightarrow> u32 \<Rightarrow> ('w, nat) call" where
  "mutable_reference n = reference_arg n ''reference cannot be created for null pointers''"

section \<open>memory_api\<close>

definition host_memcpy :: "u32 \<Rightarrow> u32 \<Rightarrow> u32 \<Rightarrow> ('w, u32) call" where
  "host_memcpy dest src sz =
     bind_call (array_ptr dest sz) (\<lambda>(d, n).
     bind_call (array_ptr src sz) (\<lambda>(sr, _).
     bind_call (use_gas (GAS_CALL_BASE + GAS_MEMOP_BYTE * of_nat n)) (\<lambda>_.
     bind_call (assert_call (int n \<le> \<bar>int d - int sr\<bar>) (overlapping_memory_error ''memcpy can only accept non-aliasing pointers'')) (\<lambda>_.
     bind_call (read_memory sr n) (\<lambda>bytes.
     bind_call (write_memory d bytes) (\<lambda>_. return_call dest))))))"

definition host_memmove :: "u32 \<Rightarrow> u32 \<Rightarrow> u32 \<Rightarrow> ('w, u32) call" where
  "host_memmove dest src sz =
     bind_call (array_ptr dest sz) (\<lambda>(d, n).
     bind_call (array_ptr src sz) (\<lambda>(sr, _).
     bind_call (use_gas (GAS_CALL_BASE + GAS_MEMOP_BYTE * of_nat n)) (\<lambda>_.
     bind_call (read_memory sr n) (\<lambda>bytes.
     bind_call (write_memory d bytes) (\<lambda>_. return_call dest)))))"

text \<open>The C function \<open>memcmp\<close> up to the size of its result: the first difference decides.\<close>

fun c_memcmp :: "u8 list \<Rightarrow> u8 list \<Rightarrow> int" where
  "c_memcmp (x # xs) (y # ys) = (if x = y then c_memcmp xs ys else uint x - uint y)"
| "c_memcmp _ _ = 0"

definition host_memcmp :: "u32 \<Rightarrow> u32 \<Rightarrow> u32 \<Rightarrow> ('w, u32) call" where
  "host_memcmp dest src sz =
     bind_call (array_ptr dest sz) (\<lambda>(d, n).
     bind_call (array_ptr src sz) (\<lambda>(sr, _).
     bind_call (use_gas (GAS_CALL_BASE + GAS_MEMOP_BYTE * of_nat n)) (\<lambda>_.
     bind_call (read_memory d n) (\<lambda>xs.
     bind_call (read_memory sr n) (\<lambda>ys.
       let ret = c_memcmp xs ys
       in if ret < 0 then return_call (- 1) else if 0 < ret then return_call 1 else return_call 0)))))"

definition host_memset :: "u32 \<Rightarrow> u32 \<Rightarrow> u32 \<Rightarrow> ('w, u32) call" where
  "host_memset dest value sz =
     bind_call (array_ptr dest sz) (\<lambda>(d, n).
     bind_call (use_gas (GAS_CALL_BASE + GAS_MEMOP_BYTE * of_nat n)) (\<lambda>_.
     bind_call (write_memory d (replicate n (ucast value))) (\<lambda>_. return_call dest)))"

section \<open>The callbacks of the embedding program\<close>

text \<open>
  A callback that fills a buffer gets its old contents and gives the new ones, of which at most as
  many bytes as the buffer has are written. Only calling another contract is given the gas account.
\<close>

record 'w callbacks =
  cb_store :: "u64 \<Rightarrow> u64 \<Rightarrow> u8 list \<Rightarrow> u8 list \<Rightarrow> 'w \<Rightarrow> 'w"
  cb_load :: "u64 \<Rightarrow> u64 \<Rightarrow> u8 list \<Rightarrow> u8 list \<Rightarrow> 'w \<Rightarrow> u32 \<times> u8 list \<times> 'w"
  cb_has_key :: "u64 \<Rightarrow> u64 \<Rightarrow> u8 list \<Rightarrow> 'w \<Rightarrow> u32 \<times> 'w"
  cb_remove_key :: "u64 \<Rightarrow> u64 \<Rightarrow> u8 list \<Rightarrow> 'w \<Rightarrow> 'w"
  cb_has_table :: "u64 \<Rightarrow> u64 \<Rightarrow> 'w \<Rightarrow> u32 \<times> 'w"
  cb_remove_table :: "u64 \<Rightarrow> u64 \<Rightarrow> 'w \<Rightarrow> 'w"
  cb_current_time :: "u64 \<Rightarrow> 'w \<Rightarrow> u64 \<times> 'w"
  cb_current_height :: "u64 \<Rightarrow> 'w \<Rightarrow> u64 \<times> 'w"
  cb_current_hash :: "u64 \<Rightarrow> u8 list \<Rightarrow> u8 list \<Rightarrow> 'w \<Rightarrow> u8 list \<times> u8 list \<times> 'w"
  cb_add_log :: "u64 \<Rightarrow> u8 list \<Rightarrow> nat \<Rightarrow> u8 list \<Rightarrow> 'w \<Rightarrow> 'w"
  cb_transfer :: "u64 \<Rightarrow> u8 list \<Rightarrow> u64 \<Rightarrow> 'w \<Rightarrow> 'w"
  cb_call_action :: "u64 \<Rightarrow> u8 list \<Rightarrow> u8 list \<Rightarrow> u64 \<Rightarrow> u32 \<Rightarrow> u32 \<Rightarrow> u64 \<times> 'w \<Rightarrow> u32 \<times> u64 \<times> 'w"
  cb_call_result :: "u64 \<Rightarrow> u8 list \<Rightarrow> 'w \<Rightarrow> u32 \<times> u8 list \<times> 'w"
  cb_set_result :: "u64 \<Rightarrow> u8 list \<Rightarrow> 'w \<Rightarrow> u32 \<times> 'w"

definition callback_call :: "('w \<Rightarrow> 'a \<times> 'w) \<Rightarrow> ('w, 'a) call" where
  "callback_call f s = (let (x, w) = f (world s) in (Inr x, s\<lparr>world := w\<rparr>))"

definition callback_update :: "('w \<Rightarrow> 'w) \<Rightarrow> ('w, unit) call" where
  "callback_update f s = (Inr (), s\<lparr>world := f (world s)\<rparr>)"

text \<open>A callback that fills the buffer at an offset.\<close>

definition callback_fill :: "(u8 list \<Rightarrow> 'w \<Rightarrow> u32 \<times> u8 list \<times> 'w) \<Rightarrow> nat \<Rightarrow> nat \<Rightarrow> ('w, u32) call" where
  "callback_fill f p n =
     bind_call (read_memory p n) (\<lambda>old.
     bind_call (callback_call (\<lambda>w. let (x, new, w) = f old w in ((x, new), w))) (\<lambda>(x, new).
     bind_call (write_memory p (take n new)) (\<lambda>_. return_call x)))"

section \<open>database_api\<close>

definition host_db_store :: "'w callbacks \<Rightarrow> wasm_context \<Rightarrow> u64 \<Rightarrow> u32 \<Rightarrow> u32 \<Rightarrow> u32 \<Rightarrow> u32 \<Rightarrow> ('w, unit) call" where
  "host_db_store cb cx table key key_size buffer buffer_size =
     bind_call (array_ptr buffer buffer_size) (\<lambda>(b, bn).
     bind_call (array_ptr key key_size) (\<lambda>(k, kn).
     bind_call (use_gas (GAS_DBSTORE_BASE + of_nat bn * GAS_DBSTORE_BYTE)) (\<lambda>_.
     bind_call (read_memory k kn) (\<lambda>ks.
     bind_call (read_memory b bn) (\<lambda>bs.
     callback_update (cb_store cb (state_key cx) table ks bs))))))"

definition host_db_load :: "'w callbacks \<Rightarrow> wasm_context \<Rightarrow> u64 \<Rightarrow> u32 \<Rightarrow> u32 \<Rightarrow> u32 \<Rightarrow> u32 \<Rightarrow> ('w, u32) call" where
  "host_db_load cb cx table key key_size buffer buffer_size =
     bind_call (array_ptr buffer buffer_size) (\<lambda>(b, bn).
     bind_call (array_ptr key key_size) (\<lambda>(k, kn).
     bind_call (use_gas (GAS_DBLOAD_BASE + of_nat bn * GAS_DBLOAD_BYTE)) (\<lambda>_.
     bind_call (read_memory k kn) (\<lambda>ks.
     callback_fill (cb_load cb (state_key cx) table ks) b bn))))"

definition host_db_has_key :: "'w callbacks \<Rightarrow> wasm_context \<Rightarrow> u64 \<Rightarrow> u32 \<Rightarrow> u32 \<Rightarrow> ('w, u32) call" where
  "host_db_has_key cb cx table key key_size =
     bind_call (array_ptr key key_size) (\<lambda>(k, kn).
     bind_call (use_gas GAS_DB_HAS) (\<lambda>_.
     bind_call (read_memory k kn) (\<lambda>ks. callback_call (cb_has_key cb (state_key cx) table ks))))"

definition host_db_remove_key :: "'w callbacks \<Rightarrow> wasm_context \<Rightarrow> u64 \<Rightarrow> u32 \<Rightarrow> u32 \<Rightarrow> ('w, unit) call" where
  "host_db_remove_key cb cx table key key_size =
     bind_call (array_ptr key key_size) (\<lambda>(k, kn).
     bind_call (use_gas GAS_DB_RMV) (\<lambda>_.
     bind_call (read_memory k kn) (\<lambda>ks. callback_update (cb_remove_key cb (state_key cx) table ks))))"

definition host_db_has_table :: "'w callbacks \<Rightarrow> wasm_context \<Rightarrow> u64 \<Rightarrow> ('w, u32) call" where
  "host_db_has_table cb cx table = bind_call (use_gas GAS_DB_HAS) (\<lambda>_. callback_call (cb_has_table cb (state_key cx) table))"

definition host_db_remove_table :: "'w callbacks \<Rightarrow> wasm_context \<Rightarrow> u64 \<Rightarrow> ('w, unit) call" where
  "host_db_remove_table cb cx table = bind_call (use_gas GAS_DB_RMV) (\<lambda>_. callback_update (cb_remove_table cb (state_key cx) table))"

section \<open>system_api, context_free_system_api and crypto_api\<close>

definition host_current_time :: "'w callbacks \<Rightarrow> wasm_context \<Rightarrow> ('w, u64) call" where
  "host_current_time cb cx = bind_call (use_gas GAS_CALL_BASE) (\<lambda>_. callback_call (cb_current_time cb (state_key cx)))"

definition host_current_height :: "'w callbacks \<Rightarrow> wasm_context \<Rightarrow> ('w, u64) call" where
  "host_current_height cb cx = bind_call (use_gas GAS_CALL_BASE) (\<lambda>_. callback_call (cb_current_height cb (state_key cx)))"

text \<open>The size of \<open>sha256\<close>.\<close>

definition hash_size :: nat where "hash_size = 32"

definition host_current_hash :: "'w callbacks \<Rightarrow> wasm_context \<Rightarrow> u32 \<Rightarrow> u32 \<Rightarrow> ('w, unit) call" where
  "host_current_hash cb cx simple_hash full_hash =
     bind_call (mutable_reference hash_size full_hash) (\<lambda>f.
     bind_call (mutable_reference hash_size simple_hash) (\<lambda>h.
     bind_call (use_gas GAS_CALL_BASE) (\<lambda>_.
     bind_call (read_memory h hash_size) (\<lambda>hs.
     bind_call (read_memory f hash_size) (\<lambda>fs.
     bind_call (callback_call (\<lambda>w. let (x, y, w) = cb_current_hash cb (state_key cx) hs fs w in ((x, y), w))) (\<lambda>(x, y).
     bind_call (write_memory h (take hash_size x)) (\<lambda>_.
     write_memory f (take hash_size y))))))))"

definition host_log_0 :: "'w callbacks \<Rightarrow> wasm_context \<Rightarrow> u32 \<Rightarrow> u32 \<Rightarrow> u32 \<Rightarrow> ('w, unit) call" where
  "host_log_0 cb cx data sz name =
     bind_call (const_reference hash_size name) (\<lambda>nm.
     bind_call (array_ptr data sz) (\<lambda>(d, n).
     bind_call (use_gas (GAS_LOG_0 + of_nat n * GAS_LOG_DATA)) (\<lambda>_.
     bind_call (read_memory nm hash_size) (\<lambda>topics.
     bind_call (read_memory d n) (\<lambda>bs.
     callback_update (cb_add_log cb (state_key cx) topics 1 bs))))))"

definition host_log_1 :: "'w callbacks \<Rightarrow> wasm_context \<Rightarrow> u32 \<Rightarrow> u32 \<Rightarrow> u32 \<Rightarrow> u32 \<Rightarrow> ('w, unit) call" where
  "host_log_1 cb cx data sz name param1 =
     bind_call (const_reference hash_size param1) (\<lambda>p1.
     bind_call (const_reference hash_size name) (\<lambda>nm.
     bind_call (array_ptr data sz) (\<lambda>(d, n).
     bind_call (use_gas (GAS_LOG_1 + of_nat n * GAS_LOG_DATA)) (\<lambda>_.
     bind_call (read_memory nm hash_size) (\<lambda>t0.
     bind_call (read_memory p1 hash_size) (\<lambda>t1.
     bind_call (read_memory d n) (\<lambda>bs.
     callback_update (cb_add_log cb (state_key cx) (t0 @ t1) 2 bs))))))))"

definition host_log_2 :: "'w callbacks \<Rightarrow> wasm_context \<Rightarrow> u32 \<Rightarrow> u32 \<Rightarrow> u32 \<Rightarrow> u32 \<Rightarrow> u32 \<Rightarrow> ('w, unit) call" where
  "host_log_2 cb cx data sz name param1 param2 =
     bind_call (const_reference hash_size param2) (\<lambda>p2.
     bind_call (const_reference hash_size param1) (\<lambda>p1.
     bind_call (const_reference hash_size name) (\<lambda>nm.
     bind_call (array_ptr data sz) (\<lambda>(d, n).
     bind_call (use_gas (GAS_LOG_2 + of_nat n * GAS_LOG_DATA)) (\<lambda>_.
     bind_call (read_memory nm hash_size) (\<lambda>t0.
     bind_call (read_memory p1 hash_size) (\<lambda>t1.
     bind_call (read_memory p2 hash_size) (\<lambda>t2.
     bind_call (read_memory d n) (\<lambda>bs.
     callback_update (cb_add_log cb (state_key cx) (t0 @ t1 @ t2) 3 bs))))))))))"

definition host_abort :: "('w, unit) call" where
  "host_abort = assert_call False (wasm_runtime_exception ''abort() called'')"

definition max_assert_message :: nat where "max_assert_message = 1024"

definition text_of :: "u8 list \<Rightarrow> string" where
  "text_of bs = map (\<lambda>b. char_of (unat b)) bs"

definition host_ftl_assert :: "u32 \<Rightarrow> u32 \<Rightarrow> ('w, unit) call" where
  "host_ftl_assert condition msg =
     bind_call (null_terminated_ptr msg) (\<lambda>p.
     bind_call (use_gas GAS_CALL_BASE) (\<lambda>_ s.
       if condition = 0 then
         (case memory s of None \<Rightarrow> (Inl Undefined, s)
          | Some m \<Rightarrow>
              let rest = text_of (drop p m); message = take (strnlen rest max_assert_message) rest
              in (Inl (Thrown (wasm_runtime_exception (''assertion failure with message: $'' @ message))), s))
       else (Inr (), s)))"

definition host_ftl_assert_message :: "u32 \<Rightarrow> u32 \<Rightarrow> u32 \<Rightarrow> ('w, unit) call" where
  "host_ftl_assert_message condition msg msg_len =
     bind_call (array_ptr msg msg_len) (\<lambda>(p, n).
     bind_call (use_gas GAS_CALL_BASE) (\<lambda>_.
       if condition = 0 then
         let cut = (if max_assert_message < n then max_assert_message else n)
         in bind_call (read_memory p cut) (\<lambda>bs.
              stop_call (Thrown (wasm_runtime_exception (''assertion failure with message: $'' @ text_of bs))))
       else return_call ()))"

text \<open>Unsigned numbers in decimal.\<close>

fun decimal :: "nat \<Rightarrow> string" where
  "decimal n = (if n < 10 then [char_of (48 + n)] else decimal (n div 10) @ [char_of (48 + n mod 10)])"

definition host_ftl_assert_code :: "u32 \<Rightarrow> u64 \<Rightarrow> ('w, unit) call" where
  "host_ftl_assert_code condition error_code =
     bind_call (use_gas GAS_CALL_BASE) (\<lambda>_.
       if condition = 0
       then stop_call (Thrown (wasm_runtime_exception (''assertion failure with error code: $'' @ decimal (unat error_code))))
       else return_call ())"

definition host_ftl_exit :: "u32 \<Rightarrow> ('w, unit) call" where
  "host_ftl_exit code = bind_call (use_gas GAS_CALL_BASE) (\<lambda>_. stop_call Exited)"

text \<open>The functions for signatures and hashes only take gas; their bodies are comments.\<close>

definition host_assert_recover_key :: "u32 \<Rightarrow> u32 \<Rightarrow> u32 \<Rightarrow> u32 \<Rightarrow> u32 \<Rightarrow> ('w, unit) call" where
  "host_assert_recover_key digest sig siglen pub publen =
     bind_call (array_ptr pub publen) (\<lambda>_.
     bind_call (array_ptr sig siglen) (\<lambda>_.
     bind_call (const_reference hash_size digest) (\<lambda>_. use_gas GAS_RECOVER_KEY)))"

definition host_recover_key :: "u32 \<Rightarrow> u32 \<Rightarrow> u32 \<Rightarrow> u32 \<Rightarrow> u32 \<Rightarrow> ('w, u32) call" where
  "host_recover_key digest sig siglen pub publen =
     bind_call (array_ptr pub publen) (\<lambda>_.
     bind_call (array_ptr sig siglen) (\<lambda>_.
     bind_call (const_reference hash_size digest) (\<lambda>_.
     bind_call (use_gas GAS_RECOVER_KEY) (\<lambda>_. return_call 0))))"

definition host_assert_sha256 :: "u32 \<Rightarrow> u32 \<Rightarrow> u32 \<Rightarrow> ('w, unit) call" where
  "host_assert_sha256 data datalen hash_val =
     bind_call (const_reference hash_size hash_val) (\<lambda>_.
     bind_call (array_ptr data datalen) (\<lambda>(_, n). use_gas (GAS_SHA256_BASE + GAS_SHA256_BYTE * of_nat n)))"

definition host_sha256 :: "u32 \<Rightarrow> u32 \<Rightarrow> u32 \<Rightarrow> ('w, unit) call" where
  "host_sha256 data datalen hash_val =
     bind_call (mutable_reference hash_size hash_val) (\<lambda>_.
     bind_call (array_ptr data datalen) (\<lambda>(_, n). use_gas (GAS_SHA256_BASE + GAS_SHA256_BYTE * of_nat n)))"

section \<open>action_api\<close>

definition host_use_gas :: "u64 \<Rightarrow> ('w, unit) call" where
  "host_use_gas gas = use_gas gas"

text \<open>The size of the action data as the 32-bit result, and the copy of as much as fits.\<close>

definition host_read_action_data :: "wasm_context \<Rightarrow> u32 \<Rightarrow> u32 \<Rightarrow> ('w, u32) call" where
  "host_read_action_data cx mem buffer_size =
     bind_call (array_ptr mem buffer_size) (\<lambda>(p, n).
     bind_call (use_gas GAS_CALL_BASE) (\<lambda>_.
       let s = length (act_data cx)
       in if n = 0 then return_call (of_nat s)
          else bind_call (use_gas (of_nat s * GAS_MEMOP_BYTE)) (\<lambda>_.
               let copy_size = min n s
               in bind_call (write_memory p (take copy_size (act_data cx))) (\<lambda>_. return_call (of_nat copy_size)))))"

definition host_action_data_size :: "wasm_context \<Rightarrow> ('w, u32) call" where
  "host_action_data_size cx = bind_call (use_gas GAS_CALL_BASE) (\<lambda>_. return_call (of_nat (length (act_data cx))))"

definition get_address :: "u8 list \<Rightarrow> u32 \<Rightarrow> u32 \<Rightarrow> ('w, unit) call" where
  "get_address bytes address addr_size =
     bind_call (array_ptr address addr_size) (\<lambda>(p, n).
     bind_call (use_gas (GAS_CALL_BASE + 20 * GAS_MEMOP_BYTE)) (\<lambda>_.
       let len = (if 20 \<le> n then 20 else n)
       in if len \<le> length bytes then write_memory p (take len bytes) else stop_call Undefined))"

definition host_get_from :: "wasm_context \<Rightarrow> u32 \<Rightarrow> u32 \<Rightarrow> ('w, unit) call" where
  "host_get_from cx = get_address (from_addr_bytes cx)"

definition host_get_to :: "wasm_context \<Rightarrow> u32 \<Rightarrow> u32 \<Rightarrow> ('w, unit) call" where
  "host_get_to cx = get_address (to_addr_bytes cx)"

definition host_get_owner :: "wasm_context \<Rightarrow> u32 \<Rightarrow> u32 \<Rightarrow> ('w, unit) call" where
  "host_get_owner cx = get_address (owner_addr_bytes cx)"

definition host_get_user :: "wasm_context \<Rightarrow> u32 \<Rightarrow> u32 \<Rightarrow> ('w, unit) call" where
  "host_get_user cx = get_address (user_addr_bytes cx)"

definition host_transfer :: "'w callbacks \<Rightarrow> wasm_context \<Rightarrow> u32 \<Rightarrow> u32 \<Rightarrow> u64 \<Rightarrow> ('w, unit) call" where
  "host_transfer cb cx address addr_size amount =
     bind_call (array_ptr address addr_size) (\<lambda>(p, n).
     bind_call (use_gas GAS_TRANSFER) (\<lambda>_.
     bind_call (assert_call (n = 20) (invalid_address_exception ''address exception'')) (\<lambda>_.
     bind_call (read_memory p n) (\<lambda>to. callback_update (cb_transfer cb (state_key cx) to amount)))))"

definition host_get_amount :: "wasm_context \<Rightarrow> ('w, u64) call" where
  "host_get_amount cx = bind_call (use_gas GAS_CALL_BASE) (\<lambda>_. return_call (transfer_amount cx))"

definition host_call_action ::
    "'w callbacks \<Rightarrow> wasm_context \<Rightarrow> u32 \<Rightarrow> u32 \<Rightarrow> u32 \<Rightarrow> u32 \<Rightarrow> u64 \<Rightarrow> u32 \<Rightarrow> u32 \<Rightarrow> ('w, u32) call" where
  "host_call_action cb cx address addr_size action action_size amount storage_delegate user_delegate =
     bind_call (array_ptr action action_size) (\<lambda>(a, an).
     bind_call (array_ptr address addr_size) (\<lambda>(p, n).
     bind_call (use_gas GAS_CALL_BASE) (\<lambda>_.
     bind_call (assert_call (n = 20) (invalid_address_exception ''address exception'')) (\<lambda>_.
     bind_call (read_memory p n) (\<lambda>to.
     bind_call (read_memory a an) (\<lambda>act s.
       let (ret, gas, w) = cb_call_action cb (state_key cx) to act amount storage_delegate user_delegate (remained_gas s, world s)
       in (Inr ret, s\<lparr>remained_gas := gas, world := w\<rparr>)))))))"

definition host_call_result :: "'w callbacks \<Rightarrow> wasm_context \<Rightarrow> u32 \<Rightarrow> u32 \<Rightarrow> ('w, u32) call" where
  "host_call_result cb cx res result_size =
     bind_call (array_ptr res result_size) (\<lambda>(p, n).
     bind_call (use_gas GAS_CALL_BASE) (\<lambda>_. callback_fill (cb_call_result cb (state_key cx)) p n))"

definition host_set_result :: "'w callbacks \<Rightarrow> wasm_context \<Rightarrow> u32 \<Rightarrow> u32 \<Rightarrow> ('w, u32) call" where
  "host_set_result cb cx res result_size =
     bind_call (array_ptr res result_size) (\<lambda>(p, n).
     bind_call (use_gas GAS_CALL_BASE) (\<lambda>_.
     bind_call (read_memory p n) (\<lambda>bs. callback_call (cb_set_result cb (state_key cx) bs))))"

section \<open>console_api\<close>

text \<open>Output is not paid for; the functions for floating point and \<open>printhex\<close> are left out.\<close>

definition console_append :: "string \<Rightarrow> ('w, unit) call" where
  "console_append val s = (Inr (), s\<lparr>console_output := console_output s @ val\<rparr>)"

definition host_prints :: "u32 \<Rightarrow> ('w, unit) call" where
  "host_prints str =
     bind_call (null_terminated_ptr str) (\<lambda>p s.
       case memory s of None \<Rightarrow> (Inl Undefined, s)
       | Some m \<Rightarrow> console_append (text_of (takeWhile (\<lambda>b. b \<noteq> 0) (drop p m))) s)"

definition host_prints_l :: "u32 \<Rightarrow> u32 \<Rightarrow> ('w, unit) call" where
  "host_prints_l str str_len =
     bind_call (array_ptr str str_len) (\<lambda>(p, n). bind_call (read_memory p n) (\<lambda>bs. console_append (text_of bs)))"

definition host_printi :: "u64 \<Rightarrow> ('w, unit) call" where
  "host_printi val = console_append (if sint val < 0 then ''-'' @ decimal (nat (- sint val)) else decimal (nat (sint val)))"

definition host_printui :: "u64 \<Rightarrow> ('w, unit) call" where
  "host_printui val = console_append (decimal (unat val))"

definition host_printn :: "u64 \<Rightarrow> ('w, unit) call" where
  "host_printn value = console_append (name_to_string value)"

section \<open>compiler_builtins: 128-bit integers\<close>

text \<open>
  Shifting by the width or more is undefined. The expression \<open>high >> 64 | low\<close> of three of the
  shifts is kept as it is written.
\<close>

definition ashlti3 :: "u64 \<Rightarrow> u64 \<Rightarrow> u32 \<Rightarrow> stop + u128" where
  "ashlti3 low high shift =
     (let i = drop_bit 64 (ucast high) OR ucast low :: u128
      in if 128 \<le> unat shift then Inl Undefined else Inr (push_bit (unat shift) i))"

definition ashrti3 :: "u64 \<Rightarrow> u64 \<Rightarrow> u32 \<Rightarrow> stop + u128" where
  "ashrti3 low high shift =
     (let ret = push_bit 64 (ucast high) OR ucast low :: u128
      in if 128 \<le> unat shift then Inl Undefined else Inr (signed_drop_bit (unat shift) ret))"

definition lshlti3 :: "u64 \<Rightarrow> u64 \<Rightarrow> u32 \<Rightarrow> stop + u128" where
  "lshlti3 low high shift =
     (let i = drop_bit 64 (ucast high) OR ucast low :: u128
      in if 128 \<le> unat shift then Inl Undefined else Inr (push_bit (unat shift) i))"

definition lshrti3 :: "u64 \<Rightarrow> u64 \<Rightarrow> u32 \<Rightarrow> stop + u128" where
  "lshrti3 low high shift =
     (let i = drop_bit 64 (ucast high) OR ucast low :: u128
      in if 128 \<le> unat shift then Inl Undefined else Inr (drop_bit (unat shift) i))"

definition words128 :: "u64 \<Rightarrow> u64 \<Rightarrow> u128" where
  "words128 low high = push_bit 64 (ucast high) OR ucast low"

definition divide_by_zero :: stop where
  "divide_by_zero = Thrown (arithmetic_exception ''divide by zero'')"

text \<open>The signed quotient of the least integer by minus one does not fit and is undefined, and so is that remainder.\<close>

definition divti3 :: "u64 \<Rightarrow> u64 \<Rightarrow> u64 \<Rightarrow> u64 \<Rightarrow> stop + u128" where
  "divti3 la ha lb hb =
     (let lhs = words128 la ha; rhs = words128 lb hb
      in if rhs = 0 then Inl divide_by_zero
         else if lhs = push_bit 127 1 \<and> rhs = - 1 then Inl Undefined
         else Inr (word_of_int (sint lhs sdiv sint rhs)))"

definition udivti3 :: "u64 \<Rightarrow> u64 \<Rightarrow> u64 \<Rightarrow> u64 \<Rightarrow> stop + u128" where
  "udivti3 la ha lb hb =
     (let lhs = words128 la ha; rhs = words128 lb hb
      in if rhs = 0 then Inl divide_by_zero else Inr (lhs div rhs))"

text \<open>
  A value of signed arithmetic that leaves its type is undefined: the operands of \<open>multi3\<close> are signed.
\<close>

definition defined_value :: "'a option \<Rightarrow> stop + 'a" where
  "defined_value r = (case r of None \<Rightarrow> Inl Undefined | Some x \<Rightarrow> Inr x)"

definition multi3 :: "u64 \<Rightarrow> u64 \<Rightarrow> u64 \<Rightarrow> u64 \<Rightarrow> stop + u128" where
  "multi3 la ha lb hb = (let lhs = words128 la ha; rhs = words128 lb hb in defined_value (mul_int128 lhs rhs))"

definition modti3 :: "u64 \<Rightarrow> u64 \<Rightarrow> u64 \<Rightarrow> u64 \<Rightarrow> stop + u128" where
  "modti3 la ha lb hb =
     (let lhs = words128 la ha; rhs = words128 lb hb
      in if rhs = 0 then Inl divide_by_zero
         else if lhs = push_bit 127 1 \<and> rhs = - 1 then Inl Undefined
         else Inr (word_of_int (sint lhs smod sint rhs)))"

definition umodti3 :: "u64 \<Rightarrow> u64 \<Rightarrow> u64 \<Rightarrow> u64 \<Rightarrow> stop + u128" where
  "umodti3 la ha lb hb =
     (let lhs = words128 la ha; rhs = words128 lb hb
      in if rhs = 0 then Inl divide_by_zero else Inr (lhs mod rhs))"

definition floattidf_words :: "u64 \<Rightarrow> u64 \<Rightarrow> stop + u64" where
  "floattidf_words l h = defined_value (floattidf (drop_bit 64 (ucast h) OR ucast l))"

definition floatuntidf_words :: "u64 \<Rightarrow> u64 \<Rightarrow> stop + u64" where
  "floatuntidf_words l h = Inr (floatuntidf (drop_bit 64 (ucast h) OR ucast l))"

definition negtf2 :: "u64 \<Rightarrow> u64 \<Rightarrow> u128" where
  "negtf2 la ha = words128 la (ha XOR push_bit 63 1)"

text \<open>
  All of them take the gas of a call and store the 16 bytes of the result through a reference.
\<close>

definition bytes128 :: "u128 \<Rightarrow> u8 list" where
  "bytes128 x = map (\<lambda>i. ucast (drop_bit (8 * i) x)) [0..<16]"

definition builtin128 :: "(stop + u128) \<Rightarrow> u32 \<Rightarrow> ('w, unit) call" where
  "builtin128 r ret =
     bind_call (mutable_reference 16 ret) (\<lambda>p.
     bind_call (use_gas GAS_CALL_BASE) (\<lambda>_.
       case r of Inl e \<Rightarrow> stop_call e | Inr x \<Rightarrow> write_memory p (bytes128 x)))"

definition builtin64 :: "(stop + u64) \<Rightarrow> ('w, u64) call" where
  "builtin64 r = bind_call (use_gas GAS_CALL_BASE) (\<lambda>_. case r of Inl e \<Rightarrow> stop_call e | Inr x \<Rightarrow> return_call x)"

section \<open>All host functions\<close>

text \<open>
  The registered functions as one type of calls with their arguments as the contract passes them;
  a result is widened to 64 bits. What is missing are the output of floating point and \<open>printhex\<close>,
  and the arithmetic, comparison and conversions of 128-bit floating point.
\<close>

datatype (plugins only: code) database_call =
    Db_store u64 u32 u32 u32 u32 | Db_load u64 u32 u32 u32 u32 | Db_has_key u64 u32 u32 | Db_remove_key u64 u32 u32
  | Db_has_table u64 | Db_remove_table u64

datatype (plugins only: code) crypto_call =
    Assert_recover_key u32 u32 u32 u32 u32 | Recover_key u32 u32 u32 u32 u32 | Assert_sha256 u32 u32 u32 | Sha256 u32 u32 u32

datatype (plugins only: code) system_call =
    Current_time | Current_height | Current_hash u32 u32 | Log_0 u32 u32 u32 | Log_1 u32 u32 u32 u32 | Log_2 u32 u32 u32 u32 u32

datatype (plugins only: code) free_call =
    Abort | Ftl_assert u32 u32 | Ftl_assert_message u32 u32 u32 | Ftl_assert_code u32 u64 | Ftl_exit u32

datatype (plugins only: code) action_call =
    Use_gas u64 | Read_action_data u32 u32 | Action_data_size | Get_from u32 u32 | Get_to u32 u32 | Get_owner u32 u32 | Get_user u32 u32
  | Transfer u32 u32 u64 | Get_amount | Call_action u32 u32 u32 u32 u64 u32 u32 | Call_result u32 u32 | Set_result u32 u32

datatype (plugins only: code) console_call =
    Prints u32 | Prints_l u32 u32 | Printi u64 | Printui u64 | Printn u64

datatype (plugins only: code) memory_call =
    Memcpy u32 u32 u32 | Memmove u32 u32 u32 | Memcmp u32 u32 u32 | Memset u32 u32 u32

datatype (plugins only: code) shift_op =
    Ashlti3 | Ashrti3 | Lshlti3 | Lshrti3

datatype (plugins only: code) arith_op =
    Divti3 | Udivti3 | Multi3 | Modti3 | Umodti3

datatype (plugins only: code) fix_op =
    Fixtfti u64 u64 | Fixunstfti u64 u64 | Fixsfti u32 | Fixdfti u64 | Fixunssfti u32 | Fixunsdfti u64

datatype (plugins only: code) builtin_call =
    Shift shift_op u32 u64 u64 u32 | Arith arith_op u32 u64 u64 u64 u64 | Negtf2 u32 u64 u64
  | Floattidf u64 u64 | Floatuntidf u64 u64 | Floatsidf u32 | Fix fix_op u32

datatype (plugins only: code) host_call =
    Database database_call | Crypto crypto_call | System system_call | Context_free free_call | Action action_call | Console console_call | Memory memory_call | Builtin builtin_call

definition none :: "('w, unit) call \<Rightarrow> ('w, u64 option) call" where
  "none c = bind_call c (\<lambda>_. return_call None)"

definition val32 :: "('w, u32) call \<Rightarrow> ('w, u64 option) call" where
  "val32 c = bind_call c (\<lambda>x. return_call (Some (ucast x)))"

definition val64 :: "('w, u64) call \<Rightarrow> ('w, u64 option) call" where
  "val64 c = bind_call c (\<lambda>x. return_call (Some x))"

fun run_database :: "'w callbacks \<Rightarrow> wasm_context \<Rightarrow> database_call \<Rightarrow> ('w, u64 option) call" where
  "run_database cb cx (Db_store t k kn b bn) = none (host_db_store cb cx t k kn b bn)"
| "run_database cb cx (Db_load t k kn b bn) = val32 (host_db_load cb cx t k kn b bn)"
| "run_database cb cx (Db_has_key t k kn) = val32 (host_db_has_key cb cx t k kn)"
| "run_database cb cx (Db_remove_key t k kn) = none (host_db_remove_key cb cx t k kn)"
| "run_database cb cx (Db_has_table t) = val32 (host_db_has_table cb cx t)"
| "run_database cb cx (Db_remove_table t) = none (host_db_remove_table cb cx t)"

fun run_crypto :: "crypto_call \<Rightarrow> ('w, u64 option) call" where
  "run_crypto (Assert_recover_key d s sn p pn) = none (host_assert_recover_key d s sn p pn)"
| "run_crypto (Recover_key d s sn p pn) = val32 (host_recover_key d s sn p pn)"
| "run_crypto (Assert_sha256 d n h) = none (host_assert_sha256 d n h)"
| "run_crypto (Sha256 d n h) = none (host_sha256 d n h)"

fun run_system :: "'w callbacks \<Rightarrow> wasm_context \<Rightarrow> system_call \<Rightarrow> ('w, u64 option) call" where
  "run_system cb cx Current_time = val64 (host_current_time cb cx)"
| "run_system cb cx Current_height = val64 (host_current_height cb cx)"
| "run_system cb cx (Current_hash s f) = none (host_current_hash cb cx s f)"
| "run_system cb cx (Log_0 d n t) = none (host_log_0 cb cx d n t)"
| "run_system cb cx (Log_1 d n t p) = none (host_log_1 cb cx d n t p)"
| "run_system cb cx (Log_2 d n t p q) = none (host_log_2 cb cx d n t p q)"

fun run_free :: "free_call \<Rightarrow> ('w, u64 option) call" where
  "run_free Abort = none host_abort"
| "run_free (Ftl_assert c m) = none (host_ftl_assert c m)"
| "run_free (Ftl_assert_message c m n) = none (host_ftl_assert_message c m n)"
| "run_free (Ftl_assert_code c e) = none (host_ftl_assert_code c e)"
| "run_free (Ftl_exit c) = none (host_ftl_exit c)"

fun run_action :: "'w callbacks \<Rightarrow> wasm_context \<Rightarrow> action_call \<Rightarrow> ('w, u64 option) call" where
  "run_action cb cx (Use_gas g) = none (host_use_gas g)"
| "run_action cb cx (Read_action_data p n) = val32 (host_read_action_data cx p n)"
| "run_action cb cx Action_data_size = val32 (host_action_data_size cx)"
| "run_action cb cx (Get_from p n) = none (host_get_from cx p n)"
| "run_action cb cx (Get_to p n) = none (host_get_to cx p n)"
| "run_action cb cx (Get_owner p n) = none (host_get_owner cx p n)"
| "run_action cb cx (Get_user p n) = none (host_get_user cx p n)"
| "run_action cb cx (Transfer p n a) = none (host_transfer cb cx p n a)"
| "run_action cb cx Get_amount = val64 (host_get_amount cx)"
| "run_action cb cx (Call_action p n a an am sd ud) = val32 (host_call_action cb cx p n a an am sd ud)"
| "run_action cb cx (Call_result p n) = val32 (host_call_result cb cx p n)"
| "run_action cb cx (Set_result p n) = val32 (host_set_result cb cx p n)"

fun run_console :: "console_call \<Rightarrow> ('w, u64 option) call" where
  "run_console (Prints p) = none (host_prints p)"
| "run_console (Prints_l p n) = none (host_prints_l p n)"
| "run_console (Printi v) = none (host_printi v)"
| "run_console (Printui v) = none (host_printui v)"
| "run_console (Printn v) = none (host_printn v)"

fun run_memory :: "memory_call \<Rightarrow> ('w, u64 option) call" where
  "run_memory (Memcpy d s n) = val32 (host_memcpy d s n)"
| "run_memory (Memmove d s n) = val32 (host_memmove d s n)"
| "run_memory (Memcmp d s n) = val32 (host_memcmp d s n)"
| "run_memory (Memset d v n) = val32 (host_memset d v n)"

fun run_shift :: "shift_op \<Rightarrow> u64 \<Rightarrow> u64 \<Rightarrow> u32 \<Rightarrow> stop + u128" where
  "run_shift Ashlti3 = ashlti3"
| "run_shift Ashrti3 = ashrti3"
| "run_shift Lshlti3 = lshlti3"
| "run_shift Lshrti3 = lshrti3"

fun run_arith :: "arith_op \<Rightarrow> u64 \<Rightarrow> u64 \<Rightarrow> u64 \<Rightarrow> u64 \<Rightarrow> stop + u128" where
  "run_arith Divti3 = divti3"
| "run_arith Udivti3 = udivti3"
| "run_arith Multi3 = multi3"
| "run_arith Modti3 = modti3"
| "run_arith Umodti3 = umodti3"

fun run_fix :: "fix_op \<Rightarrow> stop + u128" where
  "run_fix (Fixtfti l h) = defined_value (fixtfti (words128 l h))"
| "run_fix (Fixunstfti l h) = Inr (fixunstfti (words128 l h))"
| "run_fix (Fixsfti a) = defined_value (fixsfti a)"
| "run_fix (Fixdfti a) = defined_value (fixdfti a)"
| "run_fix (Fixunssfti a) = Inr (fixunssfti a)"
| "run_fix (Fixunsdfti a) = Inr (fixunsdfti a)"

fun run_builtin :: "builtin_call \<Rightarrow> ('w, u64 option) call" where
  "run_builtin (Shift f r l h s) = none (builtin128 (run_shift f l h s) r)"
| "run_builtin (Arith f r la ha lb hb) = none (builtin128 (run_arith f la ha lb hb) r)"
| "run_builtin (Negtf2 r l h) = none (builtin128 (Inr (negtf2 l h)) r)"
| "run_builtin (Floattidf l h) = val64 (builtin64 (floattidf_words l h))"
| "run_builtin (Floatuntidf l h) = val64 (builtin64 (floatuntidf_words l h))"
| "run_builtin (Floatsidf i) = val64 (builtin64 (Inr (i32_to_f64 i)))"
| "run_builtin (Fix f r) = none (builtin128 (run_fix f) r)"

fun run_host :: "'w callbacks \<Rightarrow> wasm_context \<Rightarrow> host_call \<Rightarrow> ('w, u64 option) call" where
  "run_host cb cx (Database c) = run_database cb cx c"
| "run_host cb cx (Crypto c) = run_crypto c"
| "run_host cb cx (System c) = run_system cb cx c"
| "run_host cb cx (Context_free c) = run_free c"
| "run_host cb cx (Action c) = run_action cb cx c"
| "run_host cb cx (Console c) = run_console c"
| "run_host cb cx (Memory c) = run_memory c"
| "run_host cb cx (Builtin c) = run_builtin c"

text \<open>A sequence of calls, which ends when one of them stops the contract.\<close>

fun run_hosts :: "'w callbacks \<Rightarrow> wasm_context \<Rightarrow> host_call list \<Rightarrow> ('w, u64 option list) call" where
  "run_hosts cb cx [] = return_call []"
| "run_hosts cb cx (c # cs) =
     bind_call (run_host cb cx c) (\<lambda>x. bind_call (run_hosts cb cx cs) (\<lambda>xs. return_call (x # xs)))"

end
