(* ===== verification/WL_Metering.thy ===== *)
theory WL_Metering
  imports WL_Host
begin

text \<open>
  What every function of the host keeps: the size of the contract's memory stays the same, so that
  nothing is written behind its end, the gas account is never refunded, a call that returns has
  taken its price, and a call whose price exceeds the account has no effect on memory, output and
  the world.
\<close>

section \<open>Calls that take gas\<close>

definition mem_size :: "nat option \<Rightarrow> 'w host_state \<Rightarrow> bool" where
  "mem_size L s \<longleftrightarrow> map_option length (memory s) = L"

definition untouched :: "'w host_state \<Rightarrow> 'w host_state \<Rightarrow> bool" where
  "untouched s s' \<longleftrightarrow> memory s' = memory s \<and> console_output s' = console_output s \<and> world s' = world s"

text \<open>
  \<open>paid L n s r s'\<close>: the step from \<open>s\<close> to \<open>s'\<close> with result \<open>r\<close> keeps the memory size \<open>L\<close> and has a
  price of at least \<open>n\<close>; \<open>costs L n c\<close>: every run of the call \<open>c\<close> is such a step.
\<close>

definition paid :: "nat option \<Rightarrow> nat \<Rightarrow> 'w host_state \<Rightarrow> stop + 'a \<Rightarrow> 'w host_state \<Rightarrow> bool" where
  "paid L n s r s' \<longleftrightarrow>
     mem_size L s' \<and> unat (remained_gas s') \<le> unat (remained_gas s) \<and>
     (\<not> isl r \<longrightarrow> unat (remained_gas s') + n \<le> unat (remained_gas s)) \<and>
     (unat (remained_gas s) < n \<longrightarrow> isl r \<and> untouched s s')"

definition costs :: "nat option \<Rightarrow> nat \<Rightarrow> ('w, 'a) call \<Rightarrow> bool" where
  "costs L n c \<longleftrightarrow> (\<forall>s. mem_size L s \<longrightarrow> (case c s of (r, s') \<Rightarrow> paid L n s r s'))"

named_theorems host_rules

lemma costsI: "(\<And>s r s'. mem_size L s \<Longrightarrow> c s = (r, s') \<Longrightarrow> paid L n s r s') \<Longrightarrow> costs L n c"
  unfolding costs_def by (auto split: prod.split)

lemma costsD: "costs L n c \<Longrightarrow> mem_size L s \<Longrightarrow> c s = (r, s') \<Longrightarrow> paid L n s r s'"
  unfolding costs_def by auto

lemma untouched_refl [simp]: "untouched s s"
  by (simp add: untouched_def)

lemma untouched_trans: "untouched s s' \<Longrightarrow> untouched s' s'' \<Longrightarrow> untouched s s''"
  by (simp add: untouched_def)

text \<open>Calls that change at most the gas account, and sequences of calls.\<close>

definition gentle :: "('w, 'a) call \<Rightarrow> bool" where
  "gentle c \<longleftrightarrow> (\<forall>s. untouched s (snd (c s)))"

lemma gentleD: "gentle c \<Longrightarrow> c s = (r, s') \<Longrightarrow> untouched s s'"
  unfolding gentle_def by (metis snd_conv)

lemma bind_cases:
  assumes "bind_call c f s = (r, s')"
  obtains (stopped) e where "c s = (Inl e, s')" and "r = Inl e"
    | (returned) x t where "c s = (Inr x, t)" and "f x t = (r, s')"
  using assms unfolding bind_call_def by (auto split: prod.splits sum.splits)

lemma costs_bind:
  assumes "costs L m c" and "gentle c" and "\<And>x. costs L n (f x)"
  shows "costs L (m + n) (bind_call c f)"
proof (rule costsI)
  fix s r s' assume ms: "mem_size L s" and r: "bind_call c f s = (r, s')"
  from r show "paid L (m + n) s r s'"
  proof (cases rule: bind_cases)
    case (stopped e)
    then show ?thesis using costsD [OF assms(1) ms stopped(1)] gentleD [OF assms(2) stopped(1)] by (auto simp: paid_def)
  next
    case (returned x t)
    have c: "paid L m s (Inr x :: stop + _) t" by (rule costsD [OF assms(1) ms returned(1)])
    moreover have "paid L n t r s'" using c by (intro costsD [OF assms(3) _ returned(2)]) (simp add: paid_def)
    ultimately show ?thesis using gentleD [OF assms(2) returned(1)] untouched_trans [of s t s'] by (auto simp: paid_def)
  qed
qed

lemma costs_then:
  assumes "costs L n c" and "\<And>x. costs L 0 (f x)"
  shows "costs L n (bind_call c f)"
proof (rule costsI)
  fix s r s' assume ms: "mem_size L s" and r: "bind_call c f s = (r, s')"
  from r show "paid L n s r s'"
  proof (cases rule: bind_cases)
    case (stopped e)
    then show ?thesis using costsD [OF assms(1) ms stopped(1)] by (auto simp: paid_def)
  next
    case (returned x t)
    have c: "paid L n s (Inr x :: stop + _) t" by (rule costsD [OF assms(1) ms returned(1)])
    moreover have "paid L 0 t r s'" using c by (intro costsD [OF assms(2) _ returned(2)]) (simp add: paid_def)
    ultimately show ?thesis by (auto simp: paid_def)
  qed
qed

text \<open>Calls that change nothing.\<close>

definition quiet :: "('w, 'a) call \<Rightarrow> bool" where
  "quiet c \<longleftrightarrow> (\<forall>s. snd (c s) = s)"

lemma quiet_costs: "quiet c \<Longrightarrow> costs L 0 c"
  by (rule costsI) (metis paid_def quiet_def snd_conv add_0_right le_refl not_less0)

lemma quiet_bind:
  assumes "quiet c" and "\<And>s x. mem_size L s \<Longrightarrow> c s = (Inr x, s) \<Longrightarrow> costs L n (f x)"
  shows "costs L n (bind_call c f)"
proof (rule costsI)
  fix s r s' assume ms: "mem_size L s" and r: "bind_call c f s = (r, s')"
  from r show "paid L n s r s'"
  proof (cases rule: bind_cases)
    case (stopped e)
    then have "s' = s" using assms(1) by (metis quiet_def snd_conv)
    then show ?thesis using ms stopped(2) by (simp add: paid_def)
  next
    case (returned x t)
    then have t: "t = s" using assms(1) by (metis quiet_def snd_conv)
    then have "c s = (Inr x, s)" using returned(1) by simp
    then show ?thesis using costsD [OF assms(2) _ returned(2)] ms t by blast
  qed
qed

lemma quiet_intros:
  "quiet (return_call x)" "quiet (stop_call e)" "quiet (assert_call b ex)" "quiet (read_memory p n)" "quiet (array_ptr ptr sz)"
  "quiet (null_terminated_ptr ptr)"
  by (auto simp: quiet_def return_call_def stop_call_def assert_call_def read_memory_def array_ptr_def null_terminated_ptr_def Let_def split: option.split)

lemma quiet_reference: "quiet (reference_arg n msg ptr)"
  by (auto simp: quiet_def reference_arg_def bind_call_def assert_call_def return_call_def stop_call_def split: option.split)

lemma use_gas_paid: "costs L (unat g) (use_gas g)"
proof (rule costsI)
  fix s :: "'w host_state" and r :: "stop + unit" and s' :: "'w host_state"
  assume m: "mem_size L s" and r: "use_gas g s = (r, s')"
  show "paid L (unat g) s r s'"
  proof (cases "remained_gas s < g")
    case True
    then show ?thesis using m r by (auto simp: use_gas_def paid_def)
  next
    case False
    then have "unat (remained_gas s - g) = unat (remained_gas s) - unat g" "unat g \<le> unat (remained_gas s)"
      by (simp_all add: unat_minus_small word_le_nat_alt not_less)
    then show ?thesis using m r False by (auto simp: use_gas_def paid_def mem_size_def)
  qed
qed

lemma use_gas_gentle: "gentle (use_gas g)"
  by (simp add: gentle_def use_gas_def untouched_def)

lemma pay_bind: "unat g = m \<Longrightarrow> (\<And>x. costs L n (f x)) \<Longrightarrow> costs L (m + n) (bind_call (use_gas g) f)"
  using costs_bind [OF use_gas_paid use_gas_gentle] by blast

lemma pay_then [host_rules]: "unat g = n \<Longrightarrow> (\<And>x. costs L 0 (f x)) \<Longrightarrow> costs L n (bind_call (use_gas g) f)"
  using pay_bind [of g n L 0 f] by simp

lemma pay_only [host_rules]: "unat g = n \<Longrightarrow> costs L n (use_gas g)"
  using use_gas_paid by blast

text \<open>Access to memory: where the arguments are valid, the range lies inside the memory.\<close>

lemma size_arg_unat: "unat (size_arg sz) = (if unat sz < 2 ^ 31 then unat sz else unat sz + (2 ^ 64 - 2 ^ 32))"
proof -
  have i: "size_arg sz = word_of_int (sint sz)" unfolding size_arg_def by simp
  have r: "- (2 ^ 31) \<le> sint sz" "sint sz < 2 ^ 31" using sint_ge [of sz] sint_lt [of sz] by simp_all
  show ?thesis
  proof (cases "sint sz < 0")
    case True
    then have k: "0 \<le> sint sz + 2 ^ 64" "sint sz + 2 ^ 64 < 2 ^ 64" "0 \<le> sint sz + 2 ^ 32" "sint sz + 2 ^ 32 < 2 ^ 32" using r by simp_all
    have "size_arg sz = word_of_int (sint sz + 2 ^ 64)" unfolding i by simp
    then have u: "unat (size_arg sz) = nat (sint sz + 2 ^ 64)" using unat_word_of_int [where 'a = 64, of "sint sz + 2 ^ 64"] k by simp
    have "sz = word_of_int (sint sz + 2 ^ 32)" by simp
    then have "unat sz = unat (word_of_int (sint sz + 2 ^ 32) :: u32)" by (rule arg_cong)
    also have "\<dots> = nat (sint sz + 2 ^ 32)" by (rule unat_word_of_int) (use k in simp_all)
    finally have "unat sz = nat (sint sz + 2 ^ 32)" .
    then have "int (unat sz) = sint sz + 4294967296" "int (unat (size_arg sz)) = sint sz + 18446744073709551616" using u k by simp_all
    moreover have "- 2147483648 \<le> sint sz" using r(1) by simp
    ultimately have "\<not> unat sz < 2147483648" "unat (size_arg sz) = unat sz + 18446744069414584320" by linarith+
    then show ?thesis by simp
  next
    case False
    have u: "unat (size_arg sz) = nat (sint sz)" unfolding i using r False by (subst unat_word_of_int) simp_all
    have "unat (word_of_int (sint sz) :: u32) = nat (sint sz)" using False r by (intro unat_word_of_int) simp_all
    then show ?thesis unfolding u using r by simp
  qed
qed

text \<open>The check of an array argument, on numbers.\<close>

definition in_range :: "u8 list \<Rightarrow> u32 \<Rightarrow> u32 \<Rightarrow> bool" where
  "in_range m ptr sz \<longleftrightarrow> unat ptr < length m \<and> unat ptr + unat sz \<le> length m \<and> unat sz < 2 ^ 31"

lemma array_ptr_eq:
  assumes "memory s = Some m" and "length m \<le> 2 ^ 32"
  shows "array_ptr ptr sz s = (if in_range m ptr sz then (Inr (unat ptr, unat sz), s) else (Inl Access_violation, s))"
proof -
  have t: "unat (of_nat (length m) :: u64) = length m" using assms(2) by (simp add: unsigned_of_nat take_bit_nat_eq_self)
  have u: "unat (ucast ptr :: u64) = unat ptr" by (rule unat_ucast_up) simp
  have p: "(of_nat (length m) :: u64) \<le> ucast ptr \<longleftrightarrow> length m \<le> unat ptr" by (simp add: word_le_nat_alt t u)
  have "(of_nat (length m) :: u64) - ucast ptr < size_arg sz \<longleftrightarrow> length m - unat ptr < unat (size_arg sz)" if "unat ptr < length m"
    using that by (simp add: word_less_nat_alt unat_minus_small t u)
  moreover have "length m - unat ptr < unat (size_arg sz) \<longleftrightarrow> \<not> (unat sz < 2 ^ 31 \<and> unat ptr + unat sz \<le> length m)" if "unat ptr < length m"
    using that assms(2) unat_lt [of sz] unfolding size_arg_unat by auto
  ultimately show ?thesis unfolding array_ptr_def assms(1) option.case Let_def p in_range_def
    by (cases "unat ptr < length m"; cases "unat sz < 2 ^ 31") (auto simp: size_arg_unat not_le not_less)
qed

lemma array_ptr_bind:
  assumes "\<And>l p n. L = Some l \<Longrightarrow> p + n \<le> l \<Longrightarrow> unat sz = n \<Longrightarrow> n < 2 ^ 31 \<Longrightarrow> costs L k (f (p, n))" and "\<And>l. L = Some l \<Longrightarrow> l \<le> 2 ^ 32"
  shows "costs L k (bind_call (array_ptr ptr sz) f)"
proof (rule quiet_bind [OF quiet_intros(5)])
  fix s x assume ms: "mem_size L s" and a: "array_ptr ptr sz s = (Inr x, s)"
  then obtain m where m: "memory s = Some m" "L = Some (length m)" by (auto simp: array_ptr_def mem_size_def split: option.splits)
  then have x: "x = (unat ptr, unat sz)" "in_range m ptr sz"
    using a assms(2) [OF m(2)] by (simp_all add: array_ptr_eq split: if_splits)
  show "costs L k (f x)" unfolding x(1) using x(2) by (intro assms(1) [OF m(2) _ refl]) (simp_all add: in_range_def)
qed

lemma array_ptr_pair [host_rules]:
  assumes "\<And>l p n. L = Some l \<Longrightarrow> p + n \<le> l \<Longrightarrow> unat sz = n \<Longrightarrow> n < 2 ^ 31 \<Longrightarrow> costs L k (g p n)" and "\<And>l. L = Some l \<Longrightarrow> l \<le> 2 ^ 32"
  shows "costs L k (bind_call (array_ptr ptr sz) (\<lambda>(p, n). g p n))"
proof (rule array_ptr_bind)
  fix l p n assume "L = Some l" "p + n \<le> l" "unat sz = n" "n < 2 ^ 31"
  then show "costs L k (case (p, n) of (p, n) \<Rightarrow> g p n)" unfolding prod.case by (rule assms(1))
qed (rule assms(2))

lemma array_ptr_ignored [host_rules]:
  "costs L k h \<Longrightarrow> costs L k (bind_call (array_ptr ptr sz) (\<lambda>_. h))"
  by (rule quiet_bind [OF quiet_intros(5)])

lemma reference_bind:
  assumes "\<And>l p. L = Some l \<Longrightarrow> p + n \<le> l \<Longrightarrow> costs L k (f p)" and "\<And>l. L = Some l \<Longrightarrow> l \<le> 2 ^ 32" and "n < 2 ^ 32"
  shows "costs L k (bind_call (reference_arg n msg ptr) f)"
proof (rule quiet_bind [OF quiet_reference])
  fix s x assume ms: "mem_size L s" and a: "reference_arg n msg ptr s = (Inr x, s)"
  then obtain m where m: "memory s = Some m" "L = Some (length m)" and c: "\<not> (of_nat (length m) :: u64) \<le> ucast ptr + of_nat n" "x = unat ptr"
    by (auto simp: reference_arg_def bind_call_def assert_call_def return_call_def stop_call_def mem_size_def split: option.splits if_splits)
  have l: "length m \<le> 2 ^ 32" "unat (of_nat (length m) :: u64) = length m" "unat (of_nat n :: u64) = n"
    using assms(2) [OF m(2)] assms(3) by (simp_all add: unsigned_of_nat take_bit_nat_eq_self)
  have u: "unat (ucast ptr :: u64) = unat ptr" by (rule unat_ucast_up) simp
  have "unat ptr < 2 ^ 32" using unat_lt [of ptr] by simp
  then have "unat (ucast ptr + of_nat n :: u64) = unat ptr + n" using assms(3) l(3) u by (subst unat_add_small) simp_all
  then have "unat ptr + n \<le> length m" using c(1) l(2) by (simp add: word_le_nat_alt not_le)
  then show "costs L k (f x)" using assms(1) [OF m(2)] c(2) by simp
qed

lemma const_reference_bind [host_rules]:
  "(\<And>l p. L = Some l \<Longrightarrow> p + n \<le> l \<Longrightarrow> costs L k (f p)) \<Longrightarrow> (\<And>l. L = Some l \<Longrightarrow> l \<le> 2 ^ 32) \<Longrightarrow> n < 2 ^ 32 \<Longrightarrow>
    costs L k (bind_call (const_reference n ptr) f)"
  unfolding const_reference_def by (rule reference_bind)

lemma mutable_reference_bind [host_rules]:
  "(\<And>l p. L = Some l \<Longrightarrow> p + n \<le> l \<Longrightarrow> costs L k (f p)) \<Longrightarrow> (\<And>l. L = Some l \<Longrightarrow> l \<le> 2 ^ 32) \<Longrightarrow> n < 2 ^ 32 \<Longrightarrow>
    costs L k (bind_call (mutable_reference n ptr) f)"
  unfolding mutable_reference_def by (rule reference_bind)

lemma read_bind [host_rules]: "(\<And>xs. length xs \<le> n \<Longrightarrow> costs L k (f xs)) \<Longrightarrow> costs L k (bind_call (read_memory p n) f)"
  by (rule quiet_bind [OF quiet_intros(4)]) (auto simp: read_memory_def slice_def split: option.splits)

lemma null_terminated_bind [host_rules]: "(\<And>p. costs L k (f p)) \<Longrightarrow> costs L k (bind_call (null_terminated_ptr ptr) f)"
  by (rule quiet_bind [OF quiet_intros(6)])

lemma assert_bind [host_rules]: "(\<And>x. b \<Longrightarrow> costs L k (f x)) \<Longrightarrow> costs L k (bind_call (assert_call b ex) f)"
  by (rule quiet_bind [OF quiet_intros(3)]) (auto simp: assert_call_def stop_call_def split: if_splits)

lemma length_overwrite: "p + length ys \<le> length xs \<Longrightarrow> length (overwrite p ys xs) = length xs"
  by (simp add: overwrite_def)

lemma write_only [host_rules]: "(\<And>l. L = Some l \<Longrightarrow> p + length ys \<le> l) \<Longrightarrow> costs L 0 (write_memory p ys)"
  by (rule costsI) (auto simp: write_memory_def paid_def mem_size_def length_overwrite split: option.splits)

lemma write_then [host_rules]:
  "(\<And>l. L = Some l \<Longrightarrow> p + length ys \<le> l) \<Longrightarrow> (\<And>x. costs L 0 (f x)) \<Longrightarrow> costs L 0 (bind_call (write_memory p ys) f)"
  by (rule costs_then) (auto intro: write_only)

lemma final_calls [host_rules]: "costs L 0 (return_call x)" "costs L 0 (stop_call e)"
  by (intro quiet_costs quiet_intros)+

lemma callback_rules [host_rules]: "costs L 0 (callback_update g)" "costs L 0 (callback_call h)" "costs L 0 (console_append v)"
  by (rule costsI; auto simp: callback_update_def callback_call_def console_append_def paid_def mem_size_def split: prod.splits)+

lemma callback_bind [host_rules]: "(\<And>x. costs L 0 (f x)) \<Longrightarrow> costs L 0 (bind_call (callback_call h) f)"
  by (rule costs_then) (rule callback_rules)

lemma split_rule [host_rules]: "(\<And>x y. costs L k (g x y)) \<Longrightarrow> costs L k (case p of (x, y) \<Rightarrow> g x y)"
  by (cases p) simp

lemma control_rules [host_rules]:
  "(\<And>y. y = x \<Longrightarrow> costs L k (f y)) \<Longrightarrow> costs L k (let y = x in f y)"
  "(b \<Longrightarrow> costs L k c) \<Longrightarrow> (\<not> b \<Longrightarrow> costs L k d) \<Longrightarrow> costs L k (if b then c else d)"
  "(\<And>u. r = Inl u \<Longrightarrow> costs L k (g u)) \<Longrightarrow> (\<And>v. r = Inr v \<Longrightarrow> costs L k (h v)) \<Longrightarrow> costs L k (case r of Inl u \<Rightarrow> g u | Inr v \<Rightarrow> h v)"
  by (simp_all add: Let_def split: sum.split)

lemma callback_fill_rule [host_rules]: "(\<And>l. L = Some l \<Longrightarrow> p + n \<le> l) \<Longrightarrow> costs L 0 (callback_fill g p n)"
  unfolding callback_fill_def by (intro read_bind callback_bind) (auto intro!: host_rules split: prod.splits)

text \<open>The widening of results.\<close>

lemma result_rules [host_rules]: "costs L n c \<Longrightarrow> costs L n (none c)" "costs L n d \<Longrightarrow> costs L n (val32 d)" "costs L n e \<Longrightarrow> costs L n (val64 e)"
  unfolding none_def val32_def val64_def by (erule costs_then, rule final_calls)+

section \<open>Prices\<close>

lemmas gas_prices = GAS_CALL_BASE_def GAS_RECOVER_KEY_def GAS_SHA256_BASE_def GAS_SHA256_BYTE_def GAS_LOG_0_def GAS_LOG_1_def GAS_LOG_2_def
  GAS_LOG_DATA_def GAS_MEMOP_BYTE_def GAS_TRANSFER_def GAS_DBSTORE_BASE_def GAS_DBSTORE_BYTE_def GAS_DBLOAD_BASE_def GAS_DBLOAD_BYTE_def GAS_DB_HAS_def GAS_DB_RMV_def

lemma unat_price:
  fixes b k :: u64
  assumes "n < 2 ^ 31" and "unat b < 2 ^ 31" and "unat k < 2 ^ 32"
  shows "unat (b + of_nat n * k) = unat b + n * unat k" and "unat (b + k * of_nat n) = unat b + n * unat k"
proof -
  have m: "n * unat k \<le> 2 ^ 31 * 2 ^ 32" using assms by (intro mult_le_mono) simp_all
  have u: "unat (of_nat n :: u64) = n" using assms(1) by (simp add: unsigned_of_nat take_bit_nat_eq_self)
  have p: "unat (of_nat n * k) = n * unat k" using m by (subst unat_mult_small) (simp_all add: u)
  show *: "unat (b + of_nat n * k) = unat b + n * unat k" using m assms(2) by (subst unat_add_small) (simp_all add: p)
  show "unat (b + k * of_nat n) = unat b + n * unat k" using * by (simp only: mult.commute)
qed

fun database_price :: "database_call \<Rightarrow> nat" where
  "database_price (Db_store _ _ _ _ n) = 1000000 + 100000 * unat n"
| "database_price (Db_load _ _ _ _ n) = 1000000 + 100000 * unat n"
| "database_price _ = 500000"

lemma database_costs:
  assumes "\<And>l. L = Some l \<Longrightarrow> l \<le> 2 ^ 32"
  shows "costs L (database_price c) (run_database cb cx c)"
proof (cases c)
  case (Db_store t k kn b bn)
  show ?thesis unfolding Db_store run_database.simps database_price.simps host_db_store_def
    by (intro host_rules assms) (simp_all add: unat_price gas_prices)
next
  case (Db_load t k kn b bn)
  show ?thesis unfolding Db_load run_database.simps database_price.simps host_db_load_def
    by (intro host_rules assms) (simp_all add: unat_price gas_prices)
qed (simp_all only: run_database.simps database_price.simps host_db_has_key_def host_db_remove_key_def host_db_has_table_def host_db_remove_table_def,
  (intro host_rules assms; simp add: gas_prices)+)

fun crypto_price :: "crypto_call \<Rightarrow> nat" where
  "crypto_price (Assert_recover_key _ _ _ _ _) = 450000"
| "crypto_price (Recover_key _ _ _ _ _) = 450000"
| "crypto_price (Assert_sha256 _ n _) = 2400 + 3 * unat n"
| "crypto_price (Sha256 _ n _) = 2400 + 3 * unat n"

fun system_price :: "system_call \<Rightarrow> nat" where
  "system_price (Log_0 _ n _) = 80000 + 1000 * unat n"
| "system_price (Log_1 _ n _ _) = 90000 + 1000 * unat n"
| "system_price (Log_2 _ n _ _ _) = 100000 + 1000 * unat n"
| "system_price _ = 100"

fun free_price :: "free_call \<Rightarrow> nat" where
  "free_price Abort = 0"
| "free_price _ = 100"

fun action_price :: "wasm_context \<Rightarrow> action_call \<Rightarrow> nat" where
  "action_price cx (Use_gas g) = unat g"
| "action_price cx (Read_action_data _ n) = 100 + (if unat n = 0 then 0 else 3 * length (act_data cx))"
| "action_price cx (Get_from _ _) = 160"
| "action_price cx (Get_to _ _) = 160"
| "action_price cx (Get_owner _ _) = 160"
| "action_price cx (Get_user _ _) = 160"
| "action_price cx (Transfer _ _ _) = 1000000"
| "action_price cx _ = 100"

fun memory_price :: "memory_call \<Rightarrow> nat" where
  "memory_price (Memcpy _ _ n) = 100 + 3 * unat n"
| "memory_price (Memmove _ _ n) = 100 + 3 * unat n"
| "memory_price (Memcmp _ _ n) = 100 + 3 * unat n"
| "memory_price (Memset _ _ n) = 100 + 3 * unat n"

text \<open>Printing is free.\<close>

fun host_price :: "wasm_context \<Rightarrow> host_call \<Rightarrow> nat" where
  "host_price cx (Database c) = database_price c"
| "host_price cx (Crypto c) = crypto_price c"
| "host_price cx (System c) = system_price c"
| "host_price cx (Context_free c) = free_price c"
| "host_price cx (Action c) = action_price cx c"
| "host_price cx (Console c) = 0"
| "host_price cx (Memory c) = memory_price c"
| "host_price cx (Builtin c) = 100"

lemma crypto_costs:
  assumes "\<And>l. L = Some l \<Longrightarrow> l \<le> 2 ^ 32"
  shows "costs L (crypto_price c) (run_crypto c)"
  by (cases c; simp only: run_crypto.simps crypto_price.simps host_assert_recover_key_def host_recover_key_def host_assert_sha256_def host_sha256_def;
    (intro host_rules assms); simp add: unat_price gas_prices hash_size_def)

lemma system_costs:
  assumes "\<And>l. L = Some l \<Longrightarrow> l \<le> 2 ^ 32"
  shows "costs L (system_price c) (run_system cb cx c)"
  by (cases c; simp only: run_system.simps system_price.simps host_current_time_def host_current_height_def host_current_hash_def host_log_0_def host_log_1_def host_log_2_def;
    (intro host_rules assms); simp add: unat_price gas_prices hash_size_def)

lemma console_costs:
  assumes "\<And>l. L = Some l \<Longrightarrow> l \<le> 2 ^ 32"
  shows "costs L 0 (run_console c)"
proof (cases c)
  case (Prints p)
  show ?thesis unfolding Prints run_console.simps host_prints_def
    by (intro host_rules) (auto intro!: costsI simp: paid_def console_append_def mem_size_def split: option.splits)
next
  case (Prints_l p n)
  show ?thesis unfolding Prints_l run_console.simps host_prints_l_def by (intro host_rules assms)
next
  case (Printi v)
  show ?thesis unfolding Printi run_console.simps host_printi_def by (intro host_rules)
next
  case (Printui v)
  show ?thesis unfolding Printui run_console.simps host_printui_def by (intro host_rules)
next
  case (Printn v)
  show ?thesis unfolding Printn run_console.simps host_printn_def by (intro host_rules)
qed

lemma memory_costs:
  assumes "\<And>l. L = Some l \<Longrightarrow> l \<le> 2 ^ 32"
  shows "costs L (memory_price c) (run_memory c)"
  by (cases c; simp only: run_memory.simps memory_price.simps host_memcpy_def host_memmove_def host_memcmp_def host_memset_def;
    (intro host_rules assms); simp add: unat_price gas_prices)

lemma builtin_costs:
  assumes "\<And>l. L = Some l \<Longrightarrow> l \<le> 2 ^ 32"
  shows "costs L 100 (run_builtin c)"
proof -
  have b: "costs L 100 (builtin128 r p)" for r p
    unfolding builtin128_def by (intro host_rules assms) (simp_all add: gas_prices bytes128_def)
  have v: "costs L 100 (builtin64 r)" for r
    unfolding builtin64_def by (intro host_rules assms) (simp_all add: gas_prices)
  show ?thesis by (cases c; simp only: run_builtin.simps; intro result_rules b v)
qed

lemma free_costs:
  assumes "\<And>l. L = Some l \<Longrightarrow> l \<le> 2 ^ 32"
  shows "costs L (free_price c) (run_free c)"
proof (cases c)
  case (Ftl_assert b m)
  have i: "costs L 0 (\<lambda>s. if b = 0 then case memory s of None \<Rightarrow> (Inl Undefined, s) | Some m \<Rightarrow> (Inl (Thrown (e m)), s) else (Inr (), s))" for e
    by (rule costsI) (auto simp: paid_def split: option.splits if_splits)
  show ?thesis unfolding Ftl_assert run_free.simps free_price.simps host_ftl_assert_def Let_def
    by (intro host_rules i) (simp add: gas_prices)
qed (simp only: run_free.simps free_price.simps host_abort_def host_ftl_assert_message_def host_ftl_assert_code_def host_ftl_exit_def assert_call_def if_False;
    (intro host_rules assms); simp add: gas_prices)+

text \<open>Calling another contract may only use up gas.\<close>

definition no_refund :: "'w callbacks \<Rightarrow> bool" where
  "no_refund cb \<longleftrightarrow> (\<forall>k to act am sd ud g w. unat (fst (snd (cb_call_action cb k to act am sd ud (g, w)))) \<le> unat g)"

lemma address_costs:
  assumes "\<And>l. L = Some l \<Longrightarrow> l \<le> 2 ^ 32"
  shows "costs L 160 (get_address bytes p n)"
  unfolding get_address_def by (intro host_rules assms) (simp_all add: gas_prices)

lemma action_costs:
  assumes "\<And>l. L = Some l \<Longrightarrow> l \<le> 2 ^ 32" and "no_refund cb" and "length (act_data cx) < 2 ^ 31"
  shows "costs L (action_price cx c) (run_action cb cx c)"
proof (cases c)
  case (Read_action_data p n)
  have u: "unat (of_nat (length (act_data cx)) * GAS_MEMOP_BYTE) = 3 * length (act_data cx)"
    using unat_price(1) [of "length (act_data cx)" 0 GAS_MEMOP_BYTE] assms(3) by (simp add: gas_prices)
  show ?thesis
  proof (cases "unat n = 0")
    case True
    then show ?thesis unfolding Read_action_data run_action.simps action_price.simps host_read_action_data_def
      by (intro host_rules assms) (simp_all add: gas_prices)
  next
    case False
    then have p: "action_price cx c = 100 + 3 * length (act_data cx)" unfolding Read_action_data by simp
    show ?thesis unfolding p unfolding Read_action_data run_action.simps host_read_action_data_def
      by (intro result_rules array_ptr_pair assms pay_bind control_rules) (use False u in \<open>auto intro!: host_rules simp: gas_prices\<close>)
  qed
next
  case (Call_action p n a an am sd ud)
  have k: "costs L 0 (\<lambda>s. let (ret, gas, w) = cb_call_action cb (state_key cx) to act am sd ud (remained_gas s, world s)
       in (Inr ret, s\<lparr>remained_gas := gas, world := w\<rparr>))" for to act
  proof (rule costsI)
    fix s r s' assume ms: "mem_size L s"
      and r: "(let (ret, gas, w) = cb_call_action cb (state_key cx) to act am sd ud (remained_gas s, world s)
       in (Inr ret, s\<lparr>remained_gas := gas, world := w\<rparr>)) = (r :: stop + u32, s')"
    obtain ret gas w where g: "cb_call_action cb (state_key cx) to act am sd ud (remained_gas s, world s) = (ret, gas, w)"
      by (cases "cb_call_action cb (state_key cx) to act am sd ud (remained_gas s, world s)")
    then have "unat gas \<le> unat (remained_gas s)" using assms(2) unfolding no_refund_def by (metis fst_conv snd_conv)
    then show "paid L 0 s r s'" using ms r unfolding g by (auto simp: paid_def mem_size_def)
  qed
  show ?thesis unfolding Call_action run_action.simps action_price.simps host_call_action_def
    by (intro host_rules assms k) (simp add: gas_prices)
qed (simp only: run_action.simps action_price.simps host_get_from_def host_get_to_def host_get_owner_def host_get_user_def
     host_use_gas_def host_action_data_size_def host_transfer_def host_get_amount_def host_call_result_def host_set_result_def;
    (intro host_rules address_costs assms); simp add: gas_prices)+

section \<open>All calls and sequences of calls\<close>

lemma host_costs:
  assumes "\<And>l. L = Some l \<Longrightarrow> l \<le> 2 ^ 32" and "no_refund cb" and "length (act_data cx) < 2 ^ 31"
  shows "costs L (host_price cx c) (run_host cb cx c)"
proof (cases c)
  case (Database d)
  show ?thesis unfolding Database run_host.simps host_price.simps by (rule database_costs) (rule assms)
next
  case (Crypto d)
  show ?thesis unfolding Crypto run_host.simps host_price.simps by (rule crypto_costs) (rule assms)
next
  case (System d)
  show ?thesis unfolding System run_host.simps host_price.simps by (rule system_costs) (rule assms)
next
  case (Context_free d)
  show ?thesis unfolding Context_free run_host.simps host_price.simps by (rule free_costs) (rule assms)
next
  case (Action d)
  show ?thesis unfolding Action run_host.simps host_price.simps by (rule action_costs [OF assms])
next
  case (Console d)
  show ?thesis unfolding Console run_host.simps host_price.simps by (rule console_costs) (rule assms)
next
  case (Memory d)
  show ?thesis unfolding Memory run_host.simps host_price.simps by (rule memory_costs) (rule assms)
next
  case (Builtin d)
  show ?thesis unfolding Builtin run_host.simps host_price.simps by (rule builtin_costs) (rule assms)
qed

text \<open>A memory WebAssembly can address.\<close>

definition addressable :: "'w host_state \<Rightarrow> bool" where
  "addressable s \<longleftrightarrow> (\<forall>m. memory s = Some m \<longrightarrow> length m \<le> 2 ^ 32)"

lemma addressable_size: "addressable s \<Longrightarrow> mem_size L s \<Longrightarrow> L = Some l \<Longrightarrow> l \<le> 2 ^ 32"
  by (auto simp: addressable_def mem_size_def)

lemma addressable_cong: "map_option length (memory t) = map_option length (memory s) \<Longrightarrow> addressable s \<Longrightarrow> addressable t"
  unfolding addressable_def by (cases "memory s"; cases "memory t") simp_all

lemma run_host_paid:
  assumes "addressable s" and "no_refund cb" and "length (act_data cx) < 2 ^ 31" and "run_host cb cx c s = (r, s')"
  shows "paid (map_option length (memory s)) (host_price cx c) s r s'"
  by (rule costsD [OF host_costs [OF addressable_size [OF assms(1)] assms(2,3)] _ assms(4)]) (simp_all add: mem_size_def)

lemma run_hosts_paid:
  assumes "addressable s" and "no_refund cb" and "length (act_data cx) < 2 ^ 31" and "run_hosts cb cx cs s = (r, s')"
  shows "map_option length (memory s') = map_option length (memory s) \<and> unat (remained_gas s') \<le> unat (remained_gas s) \<and>
    (\<forall>vs. r = Inr vs \<longrightarrow> length vs = length cs \<and> unat (remained_gas s') + (\<Sum>c\<leftarrow>cs. host_price cx c) \<le> unat (remained_gas s))"
  using assms(1,4)
proof (induction cs arbitrary: s r s')
  case Nil
  then show ?case by (auto simp: return_call_def)
next
  case (Cons c cs)
  from Cons.prems(2) show ?case unfolding run_hosts.simps
  proof (cases rule: bind_cases)
    case (stopped e)
    then show ?thesis using run_host_paid [OF Cons.prems(1) assms(2,3) stopped(1)] by (simp add: paid_def mem_size_def)
  next
    case (returned x t)
    note p = run_host_paid [OF Cons.prems(1) assms(2,3) returned(1)]
    have m: "map_option length (memory t) = map_option length (memory s)" using p by (simp add: paid_def mem_size_def)
    have a: "addressable t" by (rule addressable_cong [OF m Cons.prems(1)])
    from returned(2) show ?thesis
    proof (cases rule: bind_cases)
      case (stopped e)
      then show ?thesis using Cons.IH [OF a stopped(1)] p by (simp add: paid_def mem_size_def)
    next
      case (returned ys u)
      then show ?thesis using Cons.IH [OF a returned(1)] p by (auto simp: paid_def mem_size_def return_call_def)
    qed
  qed
qed

end
