(* ===== verification/WL_Memory.thy ===== *)
theory WL_Memory
  imports WL_Metering
begin

text \<open>
  The memory functions of the host (\<open>memory_api\<close>) against their description on the bytes of the
  memory, with every way they can stop.
\<close>

section \<open>Bytes after a call\<close>

definition copied :: "nat \<Rightarrow> nat \<Rightarrow> nat \<Rightarrow> 'a list \<Rightarrow> 'a list" where
  "copied d r n m = map (\<lambda>i. if d \<le> i \<and> i < d + n then m ! (r + (i - d)) else m ! i) [0..<length m]"

definition filled :: "nat \<Rightarrow> 'a \<Rightarrow> nat \<Rightarrow> 'a list \<Rightarrow> 'a list" where
  "filled d v n m = map (\<lambda>i. if d \<le> i \<and> i < d + n then v else m ! i) [0..<length m]"

lemma length_slice: "p + n \<le> length m \<Longrightarrow> length (slice p n m) = n"
  by (simp add: slice_def)

lemma overwrite_nth: "p + length ys \<le> length m \<Longrightarrow> i < length m \<Longrightarrow>
    overwrite p ys m ! i = (if p \<le> i \<and> i < p + length ys then ys ! (i - p) else m ! i)"
  by (auto simp: overwrite_def nth_append min_def)

lemma overwrite_copied: "d + n \<le> length m \<Longrightarrow> r + n \<le> length m \<Longrightarrow> overwrite d (slice r n m) m = copied d r n m"
  by (rule nth_equalityI) (auto simp: length_overwrite length_slice overwrite_nth copied_def slice_def)

lemma overwrite_filled: "d + n \<le> length m \<Longrightarrow> overwrite d (replicate n v) m = filled d v n m"
  by (rule nth_equalityI) (auto simp: length_overwrite overwrite_nth filled_def)

lemma c_memcmp_order: "length xs = length ys \<Longrightarrow>
    (c_memcmp xs ys = 0 \<longleftrightarrow> xs = ys) \<and> (c_memcmp xs ys < 0 \<longleftrightarrow> (xs, ys) \<in> lexord {(a, b). a < b})"
  by (induction xs ys rule: list_induct2) (auto simp: word_less_def word_uint_eq_iff)

section \<open>Calls on a memory\<close>

text \<open>
  A memory call of \<open>n\<close> bytes takes its price or stops; \<open>charged n s\<close> is the state behind that.
\<close>

definition charged :: "nat \<Rightarrow> 'w host_state \<Rightarrow> 'w host_state" where
  "charged n s = s\<lparr>remained_gas := remained_gas s - of_nat (100 + 3 * n)\<rparr>"

definition charge_call :: "nat \<Rightarrow> 'w host_state \<Rightarrow> ((stop + 'a) \<times> 'w host_state) \<Rightarrow> (stop + 'a) \<times> 'w host_state" where
  "charge_call n s r = (if unat (remained_gas s) < 100 + 3 * n then (Inl (Thrown (wasm_runtime_exception ''gas limit exceeded'')), s) else r)"

lemma memory_gas:
  assumes "n < 2 ^ 31"
  shows "bind_call (use_gas (GAS_CALL_BASE + GAS_MEMOP_BYTE * of_nat n)) f s = charge_call n s (f () (charged n s))"
proof -
  have p: "unat (GAS_CALL_BASE + GAS_MEMOP_BYTE * of_nat n) = 100 + 3 * n" using assms by (simp add: unat_price gas_prices)
  have w: "GAS_CALL_BASE + GAS_MEMOP_BYTE * of_nat n = (of_nat (100 + 3 * n) :: u64)" by (simp add: gas_prices)
  show ?thesis unfolding bind_call_def use_gas_def charge_call_def charged_def word_less_nat_alt p by (simp add: w)
qed

lemma memory_charged [simp]: "memory (charged n s) = memory s"
  by (simp add: charged_def)

lemma host_memcpy_eq:
  assumes "memory s = Some m" and "length m \<le> 2 ^ 32" and "n = unat sz"
  shows "host_memcpy d r sz s =
    (if \<not> (in_range m d sz \<and> in_range m r sz) then (Inl Access_violation, s)
     else charge_call n s
       (if unat d < unat r + n \<and> unat r < unat d + n
        then (Inl (Thrown (overlapping_memory_error ''memcpy can only accept non-aliasing pointers'')), charged n s)
        else (Inr d, (charged n s)\<lparr>memory := Some (copied (unat d) (unat r) n m)\<rparr>)))"
proof (cases "in_range m d sz \<and> in_range m r sz")
  case False
  then show ?thesis by (auto simp: host_memcpy_def bind_call_def array_ptr_eq [OF assms(1,2)])
next
  case True
  have n: "n < 2 ^ 31" "unat d + n \<le> length m" "unat r + n \<le> length m" using True assms(3) by (simp_all add: in_range_def)
  have o: "int n \<le> \<bar>int (unat d) - int (unat r)\<bar> \<longleftrightarrow> \<not> (unat d < unat r + n \<and> unat r < unat d + n)" by linarith
  have "host_memcpy d r sz s = bind_call (use_gas (GAS_CALL_BASE + GAS_MEMOP_BYTE * of_nat n)) (\<lambda>_.
     bind_call (assert_call (int n \<le> \<bar>int (unat d) - int (unat r)\<bar>) (overlapping_memory_error ''memcpy can only accept non-aliasing pointers'')) (\<lambda>_.
     bind_call (read_memory (unat r) n) (\<lambda>bytes.
     bind_call (write_memory (unat d) bytes) (\<lambda>_. return_call d)))) s"
    using True unfolding host_memcpy_def by (simp add: bind_call_def [of "array_ptr _ _"] array_ptr_eq [OF assms(1,2)] assms(3))
  also have "\<dots> = charge_call n s
       (if unat d < unat r + n \<and> unat r < unat d + n
        then (Inl (Thrown (overlapping_memory_error ''memcpy can only accept non-aliasing pointers'')), charged n s)
        else (Inr d, (charged n s)\<lparr>memory := Some (copied (unat d) (unat r) n m)\<rparr>))"
    unfolding memory_gas [OF n(1)] o
    by (simp add: bind_call_def assert_call_def return_call_def stop_call_def read_memory_def write_memory_def assms(1) overwrite_copied [OF n(2,3)])
  finally show ?thesis using True by simp
qed

lemma host_memmove_eq:
  assumes "memory s = Some m" and "length m \<le> 2 ^ 32" and "n = unat sz"
  shows "host_memmove d r sz s =
    (if \<not> (in_range m d sz \<and> in_range m r sz) then (Inl Access_violation, s)
     else charge_call n s (Inr d, (charged n s)\<lparr>memory := Some (copied (unat d) (unat r) n m)\<rparr>))"
proof (cases "in_range m d sz \<and> in_range m r sz")
  case False
  then show ?thesis by (auto simp: host_memmove_def bind_call_def array_ptr_eq [OF assms(1,2)])
next
  case True
  have n: "n < 2 ^ 31" "unat d + n \<le> length m" "unat r + n \<le> length m" using True assms(3) by (simp_all add: in_range_def)
  have "host_memmove d r sz s = bind_call (use_gas (GAS_CALL_BASE + GAS_MEMOP_BYTE * of_nat n)) (\<lambda>_.
     bind_call (read_memory (unat r) n) (\<lambda>bytes. bind_call (write_memory (unat d) bytes) (\<lambda>_. return_call d))) s"
    using True unfolding host_memmove_def by (simp add: bind_call_def [of "array_ptr _ _"] array_ptr_eq [OF assms(1,2)] assms(3))
  also have "\<dots> = charge_call n s (Inr d, (charged n s)\<lparr>memory := Some (copied (unat d) (unat r) n m)\<rparr>)"
    unfolding memory_gas [OF n(1)]
    by (simp add: bind_call_def return_call_def read_memory_def write_memory_def assms(1) overwrite_copied [OF n(2,3)])
  finally show ?thesis using True by simp
qed

lemma host_memset_eq:
  assumes "memory s = Some m" and "length m \<le> 2 ^ 32" and "n = unat sz"
  shows "host_memset d v sz s =
    (if \<not> in_range m d sz then (Inl Access_violation, s)
     else charge_call n s (Inr d, (charged n s)\<lparr>memory := Some (filled (unat d) (ucast v) n m)\<rparr>))"
proof (cases "in_range m d sz")
  case False
  then show ?thesis by (auto simp: host_memset_def bind_call_def array_ptr_eq [OF assms(1,2)])
next
  case True
  have n: "n < 2 ^ 31" "unat d + n \<le> length m" using True assms(3) by (simp_all add: in_range_def)
  have "host_memset d v sz s = bind_call (use_gas (GAS_CALL_BASE + GAS_MEMOP_BYTE * of_nat n)) (\<lambda>_.
     bind_call (write_memory (unat d) (replicate n (ucast v))) (\<lambda>_. return_call d)) s"
    using True unfolding host_memset_def by (simp add: bind_call_def [of "array_ptr _ _"] array_ptr_eq [OF assms(1,2)] assms(3))
  also have "\<dots> = charge_call n s (Inr d, (charged n s)\<lparr>memory := Some (filled (unat d) (ucast v) n m)\<rparr>)"
    unfolding memory_gas [OF n(1)] by (simp add: bind_call_def return_call_def write_memory_def assms(1) overwrite_filled [OF n(2)])
  finally show ?thesis using True by simp
qed

lemma host_memcmp_eq:
  assumes "memory s = Some m" and "length m \<le> 2 ^ 32" and "n = unat sz" and "xs = slice (unat d) n m" and "ys = slice (unat r) n m"
  shows "host_memcmp d r sz s =
    (if \<not> (in_range m d sz \<and> in_range m r sz) then (Inl Access_violation, s)
     else charge_call n s (Inr (if xs = ys then 0 else if (xs, ys) \<in> lexord {(a, b). a < b} then - 1 else 1), charged n s))"
proof (cases "in_range m d sz \<and> in_range m r sz")
  case False
  then show ?thesis by (auto simp: host_memcmp_def bind_call_def array_ptr_eq [OF assms(1,2)])
next
  case True
  have n: "n < 2 ^ 31" "unat d + n \<le> length m" "unat r + n \<le> length m" using True assms(3) by (simp_all add: in_range_def)
  have c: "c_memcmp xs ys = 0 \<longleftrightarrow> xs = ys" "c_memcmp xs ys < 0 \<longleftrightarrow> (xs, ys) \<in> lexord {(a, b). a < b}"
    using c_memcmp_order [of xs ys] length_slice [OF n(2)] length_slice [OF n(3)] assms(4,5) by simp_all
  have "host_memcmp d r sz s = bind_call (use_gas (GAS_CALL_BASE + GAS_MEMOP_BYTE * of_nat n)) (\<lambda>_.
     bind_call (read_memory (unat d) n) (\<lambda>xs. bind_call (read_memory (unat r) n) (\<lambda>ys.
       let ret = c_memcmp xs ys in if ret < 0 then return_call (- 1) else if 0 < ret then return_call 1 else return_call 0))) s"
    using True unfolding host_memcmp_def by (simp add: bind_call_def [of "array_ptr _ _"] array_ptr_eq [OF assms(1,2)] assms(3))
  also have "\<dots> = charge_call n s ((let ret = c_memcmp xs ys in if ret < 0 then return_call (- 1) else if 0 < ret then return_call 1 else return_call 0) (charged n s))"
    unfolding memory_gas [OF n(1)] by (simp add: bind_call_def read_memory_def assms(1,4,5))
  also have "\<dots> = charge_call n s (Inr (if xs = ys then 0 else if (xs, ys) \<in> lexord {(a, b). a < b} then - 1 else 1), charged n s)"
    using c by (cases "c_memcmp xs ys" "0 :: int" rule: linorder_cases) (auto simp: return_call_def Let_def)
  finally show ?thesis using True by simp
qed

section \<open>128-bit integers\<close>

lemma words128_unat: "unat (words128 low high) = unat high * 2 ^ 64 + unat low"
proof -
  have h: "unat (push_bit 64 (ucast high) :: u128) = unat high * 2 ^ 64"
    using unat_lt [of high] by (subst unat_push_bit) (simp_all add: unat_ucast_up)
  have l: "unat (ucast low :: u128) = unat low" by (rule unat_ucast_up) simp
  show ?thesis unfolding words128_def using unat_or_disjoint [of "ucast low :: u128" 64 "push_bit 64 (ucast high)"] h l unat_lt [of low]
    by (simp add: or.commute)
qed

lemma dropped_high: "drop_bit 64 (ucast high :: u128) OR ucast low = (ucast low :: u128)" for high low :: u64
proof -
  have "drop_bit 64 (ucast high :: u128) = 0" by (rule bit_word_eqI) (auto simp: bit_simps dest: bit_imp_le_length)
  then show ?thesis by simp
qed

lemma shifts_lose_high:
  assumes "unat n < 128"
  shows "ashlti3 low high n = Inr (push_bit (unat n) (ucast low))" and "lshlti3 low high n = Inr (push_bit (unat n) (ucast low))"
    and "lshrti3 low high n = Inr (drop_bit (unat n) (ucast low))" and "ashrti3 low high n = Inr (signed_drop_bit (unat n) (words128 low high))"
  using assms by (simp_all only: ashlti3_def lshlti3_def lshrti3_def ashrti3_def dropped_high words128_def Let_def) simp_all

lemma sdiv_smod_range:
  fixes a b :: int
  assumes "- (2 ^ 127) \<le> a" and "a < 2 ^ 127" and "b \<noteq> 0" and "\<not> (a = - (2 ^ 127) \<and> b = - 1)" and "- (2 ^ 127) \<le> b" and "b < 2 ^ 127"
  shows "- (2 ^ 127) \<le> a sdiv b \<and> a sdiv b < 2 ^ 127" and "- (2 ^ 127) \<le> a smod b \<and> a smod b < 2 ^ 127"
proof -
  have q: "a sdiv b = sgn a * sgn b * (\<bar>a\<bar> div \<bar>b\<bar>)" by (simp add: signed_divide_int_def sgn_mult)
  have s: "sgn a * sgn b \<in> {- 1, 0, 1}" by (auto simp: sgn_if)
  show "- (2 ^ 127) \<le> a sdiv b \<and> a sdiv b < 2 ^ 127"
  proof (cases "\<bar>b\<bar> = 1")
    case True
    then show ?thesis using assms(1-4) unfolding q by (auto simp: sgn_if abs_if split: if_splits)
  next
    case False
    then have "2 \<le> \<bar>b\<bar>" using assms(3) by linarith
    then have "\<bar>a\<bar> div \<bar>b\<bar> \<le> \<bar>a\<bar> div 2" by (intro zdiv_mono2) simp_all
    then have "\<bar>a\<bar> div \<bar>b\<bar> \<le> 2 ^ 126" "0 \<le> \<bar>a\<bar> div \<bar>b\<bar>" using assms(1,2) by (auto simp: pos_imp_zdiv_nonneg_iff assms(3))
    then show ?thesis using s unfolding q by auto
  qed
  have r: "a smod b = sgn a * (\<bar>a\<bar> mod \<bar>b\<bar>)" by (simp add: signed_modulo_int_def)
  have "0 \<le> \<bar>a\<bar> mod \<bar>b\<bar>" "\<bar>a\<bar> mod \<bar>b\<bar> < \<bar>b\<bar>" using assms(3) by simp_all
  then show "- (2 ^ 127) \<le> a smod b \<and> a smod b < 2 ^ 127" unfolding r using assms(5,6) by (auto simp: sgn_if)
qed

lemma sint_128: "- (2 ^ 127) \<le> sint (x :: u128)" "sint (x :: u128) < 2 ^ 127"
  using sint_int128 [of x] unfolding in_int128_def by blast+

lemma sint_special:
  fixes x :: u128
  shows "sint x = - (2 ^ 127) \<longleftrightarrow> x = push_bit 127 1" and "sint x = - 1 \<longleftrightarrow> x = - 1" and "sint x = 0 \<longleftrightarrow> x = 0"
proof -
  have inj: "sint x = k \<longleftrightarrow> x = word_of_int k" if "in_int128 k" for k
  proof
    assume "sint x = k"
    then have "word_of_int (sint x) = (word_of_int k :: u128)" by simp
    then show "x = word_of_int k" by simp
  qed (use sint_of_small [OF that] in simp)
  show "sint x = - (2 ^ 127) \<longleftrightarrow> x = push_bit 127 1" by (rule least_int128)
  show "sint x = - 1 \<longleftrightarrow> x = - 1" "sint x = 0 \<longleftrightarrow> x = 0" using inj [of "- 1"] inj [of 0] by (simp_all add: in_int128_def)
qed

lemma divti3_exact:
  assumes "A = words128 la ha" and "B = words128 lb hb" and "B \<noteq> 0"
  shows "divti3 la ha lb hb = (if sint A = - (2 ^ 127) \<and> sint B = - 1 then Inl Undefined else Inr (word_of_int (sint A sdiv sint B)))"
    and "modti3 la ha lb hb = (if sint A = - (2 ^ 127) \<and> sint B = - 1 then Inl Undefined else Inr (word_of_int (sint A smod sint B)))"
    and "\<not> (sint A = - (2 ^ 127) \<and> sint B = - 1) \<Longrightarrow> sint (word_of_int (sint A sdiv sint B) :: u128) = sint A sdiv sint B"
    and "\<not> (sint A = - (2 ^ 127) \<and> sint B = - 1) \<Longrightarrow> sint (word_of_int (sint A smod sint B) :: u128) = sint A smod sint B"
proof -
  show "divti3 la ha lb hb = (if sint A = - (2 ^ 127) \<and> sint B = - 1 then Inl Undefined else Inr (word_of_int (sint A sdiv sint B)))"
    "modti3 la ha lb hb = (if sint A = - (2 ^ 127) \<and> sint B = - 1 then Inl Undefined else Inr (word_of_int (sint A smod sint B)))"
    unfolding divti3_def modti3_def Let_def assms(1,2) [symmetric] sint_special(1,2) using assms(3) by simp_all
  assume n: "\<not> (sint A = - (2 ^ 127) \<and> sint B = - 1)"
  have b: "sint B \<noteq> 0" using assms(3) sint_special(3) [of B] by blast
  note r = sdiv_smod_range [OF sint_128 [of A] b n sint_128 [of B]]
  show "sint (word_of_int (sint A sdiv sint B) :: u128) = sint A sdiv sint B" using r(1) by (intro sint_of_small) (simp add: in_int128_def)
  show "sint (word_of_int (sint A smod sint B) :: u128) = sint A smod sint B" using r(2) by (intro sint_of_small) (simp add: in_int128_def)
qed

lemma unsigned_builtins:
  shows "udivti3 la ha lb hb = (if words128 lb hb = 0 then Inl divide_by_zero else Inr (words128 la ha div words128 lb hb))"
    and "umodti3 la ha lb hb = (if words128 lb hb = 0 then Inl divide_by_zero else Inr (words128 la ha mod words128 lb hb))"
    and "unat (x div y :: u128) = unat x div unat y" and "unat (x mod y :: u128) = unat x mod unat y"
  by (auto simp: udivti3_def umodti3_def Let_def unat_div_distrib unat_mod_distrib)

lemma multi3_exact:
  fixes la ha lb hb :: u64
  defines "A \<equiv> words128 la ha" and "B \<equiv> words128 lb hb"
  shows "in_int128 (sint A * sint B) \<Longrightarrow> multi3 la ha lb hb = Inr (A * B)" and "in_int128 (sint A * sint B) \<Longrightarrow> sint (A * B) = sint A * sint B"
    and "\<not> in_int128 (sint A * sint B) \<Longrightarrow> multi3 la ha lb hb = Inl Undefined"
  unfolding multi3_def Let_def A_def [symmetric] B_def [symmetric] defined_value_def mul_int128_def
  using sint_of_small [of "sint A * sint B"] by simp_all

lemma shifts_undefined: "128 \<le> unat n \<Longrightarrow> ashlti3 l h n = Inl Undefined \<and> ashrti3 l h n = Inl Undefined \<and>
    lshlti3 l h n = Inl Undefined \<and> lshrti3 l h n = Inl Undefined"
  by (simp add: ashlti3_def ashrti3_def lshlti3_def lshrti3_def Let_def)

end
