(* ===== verification/WL_Instr.thy ===== *)
theory WL_Instr
  imports WL_Prelude
begin

unbundle bit_operations_syntax

text \<open>
  Encoded instructions of a function body (\<open>wasm_binary_ops.hpp\<close>): the growing byte buffer the
  rewritten code is collected in, an instruction as its opcode and immediate field, the packing of an
  instruction into bytes and the decoder. The opcode and every field are stored in little-endian
  order; the widths of the fields agree with the packed structures of \<open>IR/Operators.h\<close>.
\<close>

section \<open>The instruction stream\<close>

record instruction_stream =
  is_idx :: nat
  is_data :: "u8 list"

definition resize :: "nat \<Rightarrow> u8 list \<Rightarrow> u8 list" where
  "resize n xs = take n xs @ replicate (n - length xs) 0"

definition stream_new :: "nat \<Rightarrow> instruction_stream" where
  "stream_new n = \<lparr>is_idx = 0, is_data = resize n []\<rparr>"

text \<open>
  \<open>memcpy\<close> to a position; writing behind the end of the buffer is undefined in the code (\<open>None\<close>).
\<close>

definition write_bytes :: "nat \<Rightarrow> u8 list \<Rightarrow> u8 list \<Rightarrow> u8 list option" where
  "write_bytes i bs xs = (if i + length bs \<le> length xs then Some (take i xs @ bs @ drop (i + length bs) xs) else None)"

definition stream_set :: "u8 list \<Rightarrow> instruction_stream \<Rightarrow> instruction_stream option" where
  "stream_set arr st =
     (let i = length arr;
          data = (if i + is_idx st \<ge> length (is_data st) then resize (length (is_data st) * 2 + i) (is_data st) else is_data st)
      in map_option (\<lambda>data. \<lparr>is_idx = is_idx st + i, is_data = data\<rparr>) (write_bytes (is_idx st) arr data))"

definition stream_put :: "u8 \<Rightarrow> instruction_stream \<Rightarrow> instruction_stream option" where
  "stream_put c st =
     (let data = (if is_idx st \<ge> length (is_data st) then resize (length (is_data st) * 2) (is_data st) else is_data st)
      in map_option (\<lambda>data. \<lparr>is_idx = is_idx st + 1, is_data = data\<rparr>) (write_bytes (is_idx st) [c] data))"

definition stream_get :: "instruction_stream \<Rightarrow> u8 list" where
  "stream_get st = resize (is_idx st) (is_data st)"

definition stream_ok :: "instruction_stream \<Rightarrow> bool" where
  "stream_ok st \<longleftrightarrow> is_idx st \<le> length (is_data st)"

lemma length_resize [simp]: "length (resize n xs) = n"
  by (simp add: resize_def)

lemma take_resize: "k \<le> length xs \<Longrightarrow> k \<le> n \<Longrightarrow> take k (resize n xs) = take k xs"
  by (simp add: resize_def)

lemma stream_get_ok: "stream_ok st \<Longrightarrow> stream_get st = take (is_idx st) (is_data st)"
  by (simp add: stream_get_def stream_ok_def resize_def)

lemma stream_new_ok [simp]: "stream_ok (stream_new n)" "stream_get (stream_new n) = []"
  by (simp_all add: stream_new_def stream_ok_def stream_get_def resize_def)

lemma stream_set_ok:
  assumes "stream_ok st"
  shows "\<exists>st'. stream_set arr st = Some st' \<and> stream_ok st' \<and> stream_get st' = stream_get st @ arr"
proof -
  define data where "data = (if length arr + is_idx st \<ge> length (is_data st) then resize (length (is_data st) * 2 + length arr) (is_data st) else is_data st)"
  have l: "is_idx st + length arr \<le> length data" using assms by (auto simp: data_def stream_ok_def)
  have t: "take (is_idx st) data = take (is_idx st) (is_data st)"
    using assms by (auto simp: data_def stream_ok_def take_resize)
  define st' where "st' = \<lparr>is_idx = is_idx st + length arr, is_data = take (is_idx st) data @ arr @ drop (is_idx st + length arr) data\<rparr>"
  have "stream_set arr st = Some st'"
    unfolding stream_set_def Let_def data_def [symmetric] using l by (simp add: write_bytes_def st'_def add.commute)
  moreover have "stream_ok st'" using l by (simp add: st'_def stream_ok_def)
  moreover have "stream_get st' = stream_get st @ arr"
    using l \<open>stream_ok st'\<close> assms t by (simp add: stream_get_ok st'_def, simp add: stream_ok_def)
  ultimately show ?thesis by blast
qed

text \<open>Appending one byte to a buffer that was created empty writes outside it.\<close>

lemma stream_put_empty: "stream_put c (stream_new 0) = None"
  by (simp add: stream_put_def stream_new_def write_bytes_def resize_def)

lemma stream_put_ok:
  assumes "stream_ok st" and "is_data st \<noteq> []"
  shows "\<exists>st'. stream_put c st = Some st' \<and> stream_ok st' \<and> stream_get st' = stream_get st @ [c]"
proof -
  define data where "data = (if is_idx st \<ge> length (is_data st) then resize (length (is_data st) * 2) (is_data st) else is_data st)"
  have l: "is_idx st + 1 \<le> length data" using assms by (cases "is_data st") (auto simp: data_def stream_ok_def)
  have t: "take (is_idx st) data = take (is_idx st) (is_data st)"
    using assms by (auto simp: data_def stream_ok_def take_resize)
  define st' where "st' = \<lparr>is_idx = is_idx st + 1, is_data = take (is_idx st) data @ [c] @ drop (is_idx st + 1) data\<rparr>"
  have "stream_put c st = Some st'"
    unfolding stream_put_def Let_def data_def [symmetric] using l by (simp add: write_bytes_def st'_def)
  moreover have "stream_ok st'" using l by (simp add: st'_def stream_ok_def)
  moreover have "stream_get st' = stream_get st @ [c]"
    using l \<open>stream_ok st'\<close> assms t by (simp add: stream_get_ok st'_def, simp add: stream_ok_def)
  ultimately show ?thesis by blast
qed

section \<open>Instructions\<close>

datatype op_field =
    F_void
  | F_block u8
  | F_u32 u32
  | F_memarg u32 u32
  | F_u64 u64
  | F_branchtable u64 u64

datatype instr = Instr (i_code: u16) (i_field: op_field)

datatype field_kind = K_void | K_block | K_u32 | K_memarg | K_u64 | K_branchtable

text \<open>The kinds of the fields: the subsequences of \<open>WASM_OP_SEQ\<close>, by opcode; \<open>None\<close> is no opcode.\<close>

definition op_kind :: "u16 \<Rightarrow> field_kind option" where
  "op_kind c =
     (if c \<in> {0x02, 0x03, 0x04} then Some K_block
      else if c \<in> {0x0C, 0x0D, 0x10, 0x11, 0x20, 0x21, 0x22, 0x23, 0x24, 0x41, 0x43} then Some K_u32
      else if 0x28 \<le> c \<and> c \<le> 0x3E then Some K_memarg
      else if c \<in> {0x42, 0x44} then Some K_u64
      else if c = 0x0E then Some K_branchtable
      else if c \<in> {0x00, 0x01, 0x05, 0x0B, 0x0F, 0x1A, 0x1B, 0x3F, 0x40} \<or> 0x45 \<le> c \<and> c \<le> 0xBF then Some K_void
      else None)"

fun kind_size :: "field_kind \<Rightarrow> nat" where
  "kind_size K_void = 0"
| "kind_size K_block = 1"
| "kind_size K_u32 = 4"
| "kind_size K_memarg = 8"
| "kind_size K_u64 = 8"
| "kind_size K_branchtable = 16"

definition pack16 :: "u16 \<Rightarrow> u8 list" where
  "pack16 w = [ucast w, ucast (drop_bit 8 w)]"

definition pack32 :: "u32 \<Rightarrow> u8 list" where
  "pack32 w = [ucast w, ucast (drop_bit 8 w), ucast (drop_bit 16 w), ucast (drop_bit 24 w)]"

definition pack64 :: "u64 \<Rightarrow> u8 list" where
  "pack64 w = [ucast w, ucast (drop_bit 8 w), ucast (drop_bit 16 w), ucast (drop_bit 24 w),
     ucast (drop_bit 32 w), ucast (drop_bit 40 w), ucast (drop_bit 48 w), ucast (drop_bit 56 w)]"

fun pack_field :: "op_field \<Rightarrow> u8 list" where
  "pack_field F_void = []"
| "pack_field (F_block r) = [r]"
| "pack_field (F_u32 w) = pack32 w"
| "pack_field (F_memarg a off) = pack32 a @ pack32 off"
| "pack_field (F_u64 w) = pack64 w"
| "pack_field (F_branchtable d t) = pack64 d @ pack64 t"

text \<open>\<open>pack\<close>: two writes, the opcode and the field (no write for an empty field).\<close>

definition pack :: "instr \<Rightarrow> instruction_stream \<Rightarrow> instruction_stream option" where
  "pack i st =
     Option.bind (stream_set (pack16 (i_code i)) st)
       (\<lambda>st. if i_field i = F_void then Some st else stream_set (pack_field (i_field i)) st)"

definition pack_bytes :: "instr \<Rightarrow> u8 list" where
  "pack_bytes i = pack16 (i_code i) @ pack_field (i_field i)"

section \<open>Decoding\<close>

text \<open>Reading a little-endian number is what the reinterpreting cast does.\<close>

fun read_le :: "u8 list \<Rightarrow> 'a::len word" where
  "read_le [] = 0"
| "read_le (b # bs) = ucast b OR push_bit 8 (read_le bs)"

fun unpack_field :: "field_kind \<Rightarrow> u8 list \<Rightarrow> op_field" where
  "unpack_field K_void bs = F_void"
| "unpack_field K_block bs = F_block (read_le (take 1 bs))"
| "unpack_field K_u32 bs = F_u32 (read_le (take 4 bs))"
| "unpack_field K_memarg bs = F_memarg (read_le (take 4 bs)) (read_le (take 4 (drop 4 bs)))"
| "unpack_field K_u64 bs = F_u64 (read_le (take 8 bs))"
| "unpack_field K_branchtable bs = F_branchtable (read_le (take 8 bs)) (read_le (take 8 (drop 8 bs)))"

text \<open>The bytes behind the current position in, the instruction and the bytes behind it out.\<close>

definition decodeOp :: "u8 list \<Rightarrow> (instr \<times> u8 list) result" where
  "decodeOp bs =
     bind_result (ftl_assert (2 \<le> length bs) (wasm_runtime_exception []))
       (\<lambda>_. let opcode = read_le (take 2 bs)
             in case op_kind opcode of
                  Some k \<Rightarrow>
                    bind_result (ftl_assert (2 + kind_size k \<le> length bs) (wasm_runtime_exception []))
                      (\<lambda>_. Inr (Instr opcode (unpack_field k (drop 2 bs)), drop (2 + kind_size k) bs))
                | None \<Rightarrow> Inr (Instr 0xFF F_void, drop 2 bs))"

lemma decodeOp_shorter: "decodeOp bs = Inr (i, rest) \<Longrightarrow> length rest < length bs"
  by (auto simp: decodeOp_def Let_def ftl_assert_def split: option.splits if_splits)

function decode_all :: "u8 list \<Rightarrow> instr list result" where
  "decode_all bs =
     (if bs = [] then Inr []
      else case decodeOp bs of
        Inl e \<Rightarrow> Inl e
      | Inr (i, rest) \<Rightarrow> bind_result (decode_all rest) (\<lambda>is. Inr (i # is)))"
  by pat_completeness auto
termination by (relation "measure length") (auto simp: decodeOp_shorter)

declare decode_all.simps [simp del]

section \<open>Round trips\<close>

text \<open>An instruction whose opcode exists and whose field is of the kind of the opcode.\<close>

fun field_kind_of :: "op_field \<Rightarrow> field_kind" where
  "field_kind_of F_void = K_void"
| "field_kind_of (F_block r) = K_block"
| "field_kind_of (F_u32 w) = K_u32"
| "field_kind_of (F_memarg a off) = K_memarg"
| "field_kind_of (F_u64 w) = K_u64"
| "field_kind_of (F_branchtable d t) = K_branchtable"

definition wf_instr :: "instr \<Rightarrow> bool" where
  "wf_instr i \<longleftrightarrow> op_kind (i_code i) = Some (field_kind_of (i_field i))"

lemma pack_ok:
  assumes "stream_ok st"
  shows "\<exists>st'. pack i st = Some st' \<and> stream_ok st' \<and> stream_get st' = stream_get st @ pack_bytes i"
proof -
  obtain st1 where 1: "stream_set (pack16 (i_code i)) st = Some st1" "stream_ok st1" "stream_get st1 = stream_get st @ pack16 (i_code i)"
    using stream_set_ok [OF assms] by blast
  obtain st2 where 2: "stream_set (pack_field (i_field i)) st1 = Some st2" "stream_ok st2" "stream_get st2 = stream_get st1 @ pack_field (i_field i)"
    using stream_set_ok [OF 1(2)] by blast
  show ?thesis using 1 2 by (cases "i_field i = F_void") (auto simp: pack_def pack_bytes_def)
qed

lemma length_pack [simp]: "length (pack16 v) = 2" "length (pack32 w) = 4" "length (pack64 x) = 8"
  by (simp_all add: pack16_def pack32_def pack64_def)

lemma length_pack_field [simp]: "length (pack_field f) = kind_size (field_kind_of f)"
  by (cases f) simp_all

primrec le_bytes :: "nat \<Rightarrow> 'a::len word \<Rightarrow> u8 list" where
  "le_bytes 0 w = []"
| "le_bytes (Suc n) w = ucast w # le_bytes n (drop_bit 8 w)"

lemma pack_le_bytes: "pack16 v = le_bytes 2 v" "pack32 w = le_bytes 4 w" "pack64 x = le_bytes 8 x"
  by (simp_all add: pack16_def pack32_def pack64_def eval_nat_numeral)

lemma read_le_bytes: "read_le (le_bytes n w) = (take_bit (8 * n) w :: 'a::len word)"
proof (induction n arbitrary: w)
  case (Suc n)
  have "(ucast (ucast w :: u8) :: 'a word) OR push_bit 8 (take_bit (8 * n) (drop_bit 8 w)) = take_bit (8 * Suc n) w"
    by (rule bit_word_eqI) (auto simp: bit_simps)
  then show ?case by (simp add: Suc.IH)
qed simp

lemma bit_read_le: "bit (read_le bs :: 'a::len word) k \<Longrightarrow> k < 8 * length bs"
proof (induction bs arbitrary: k)
  case (Cons b bs)
  have "8 \<le> k \<Longrightarrow> bit (read_le bs :: 'a word) (k - 8) \<Longrightarrow> k < 8 + 8 * length bs"
    using Cons.IH [of "k - 8"] by linarith
  then show ?case using Cons.prems by (auto simp: bit_simps dest: bit_imp_le_length)
qed simp

lemma le_bytes_read: "8 * length bs \<le> LENGTH('a) \<Longrightarrow> le_bytes (length bs) (read_le bs :: 'a::len word) = bs"
proof (induction bs)
  case (Cons b bs)
  define r where "r = (read_le bs :: 'a word)"
  have "(ucast (ucast b OR push_bit 8 r :: 'a word) :: u8) = b"
    using Cons.prems by (intro bit_word_eqI) (auto simp: bit_simps dest: bit_imp_le_length)
  moreover have "drop_bit 8 (ucast b OR push_bit 8 r) = r"
  proof (rule bit_word_eqI)
    fix n
    have "bit r n \<Longrightarrow> 8 + n < LENGTH('a)" using bit_read_le [of bs n, where 'a = 'a, folded r_def] Cons.prems by simp
    then show "bit (drop_bit 8 (ucast b OR push_bit 8 r)) n \<longleftrightarrow> bit r n"
      by (auto simp: bit_simps dest: bit_imp_le_length)
  qed
  ultimately show ?case using Cons by (simp add: r_def)
qed simp

lemma read_pack [simp]: "read_le (pack16 v) = v" "read_le (pack32 w) = w" "read_le (pack64 x) = x" "read_le [b] = b"
  unfolding pack_le_bytes read_le_bytes by (simp_all add: take_bit_word_eq_self)

lemma pack_read:
  "length bs = 2 \<Longrightarrow> pack16 (read_le bs) = bs" "length bs = 4 \<Longrightarrow> pack32 (read_le bs) = bs" "length bs = 8 \<Longrightarrow> pack64 (read_le bs) = bs"
  unfolding pack_le_bytes using le_bytes_read [of bs, where 'a = 16] le_bytes_read [of bs, where 'a = 32] le_bytes_read [of bs, where 'a = 64] by simp_all

lemma unpack_pack: "unpack_field (field_kind_of f) (pack_field f @ rest) = f"
  by (cases f) simp_all

lemma pack_all_ok:
  "stream_ok out \<Longrightarrow>
     \<exists>out'. fold (\<lambda>i out. Option.bind out (pack i)) is (Some out) = Some out' \<and> stream_ok out' \<and>
       stream_get out' = stream_get out @ concat (map pack_bytes is)"
proof (induction "is" arbitrary: out)
  case (Cons i "is")
  obtain out1 where 1: "pack i out = Some out1" "stream_ok out1" "stream_get out1 = stream_get out @ pack_bytes i"
    using pack_ok [OF Cons.prems] by blast
  from Cons.IH [OF 1(2)] show ?case by (simp add: 1)
qed simp

lemma decodeOp_pack: "wf_instr i \<Longrightarrow> decodeOp (pack_bytes i @ rest) = Inr (i, rest)"
  by (cases i) (simp add: decodeOp_def Let_def ftl_assert_def pack_bytes_def wf_instr_def unpack_pack)

lemma decode_all_pack: "list_all wf_instr is \<Longrightarrow> decode_all (concat (map pack_bytes is)) = Inr is"
proof (induction "is")
  case Nil
  then show ?case by (simp add: decode_all.simps)
next
  case (Cons i "is")
  then have "pack_bytes i @ concat (map pack_bytes is) \<noteq> []" by (auto simp: pack_bytes_def pack16_def)
  then show ?case using Cons by (subst decode_all.simps) (simp add: decodeOp_pack)
qed

lemma pack_unpack: "length bs = kind_size k \<Longrightarrow> pack_field (unpack_field k bs) = bs \<and> field_kind_of (unpack_field k bs) = k"
proof (cases k)
  case K_block
  moreover assume "length bs = kind_size k"
  ultimately obtain b where "bs = [b]" by (auto simp: length_Suc_conv)
  then show ?thesis using K_block by simp
qed (simp_all add: pack_read flip: append_assoc take_add)

text \<open>Decoding consumes exactly the bytes of the instruction it returns, or two bytes of an unknown opcode.\<close>

lemma unpack_field_take: "unpack_field k (take (kind_size k) bs) = unpack_field k bs"
  by (cases k) (simp_all add: min_def drop_take)

lemma decodeOp_bytes:
  assumes "decodeOp bs = Inr (i, rest)" and "i \<noteq> Instr 0xFF F_void"
  shows "wf_instr i \<and> bs = pack_bytes i @ rest"
proof -
  define c where "c = (read_le (take 2 bs) :: u16)"
  obtain k where k: "op_kind c = Some k" "2 + kind_size k \<le> length bs"
      "i = Instr c (unpack_field k (drop 2 bs))" "rest = drop (2 + kind_size k) bs" "2 \<le> length bs"
    using assms by (auto simp: decodeOp_def Let_def ftl_assert_def c_def split: option.splits if_splits)
  define fb where "fb = take (kind_size k) (drop 2 bs)"
  have f: "unpack_field k (drop 2 bs) = unpack_field k fb" by (simp only: fb_def unpack_field_take)
  have "length fb = kind_size k" using k(2) by (simp add: fb_def)
  note pu = pack_unpack [OF this]
  have "pack16 c = take 2 bs" unfolding c_def using k(5) by (intro pack_read) simp
  moreover have "bs = take 2 bs @ fb @ drop (2 + kind_size k) bs" by (metis append_take_drop_id fb_def drop_drop add.commute)
  ultimately show ?thesis using k pu by (simp add: wf_instr_def pack_bytes_def f)
qed

lemma decode_all_bytes:
  "decode_all bs = Inr is \<Longrightarrow> Instr 0xFF F_void \<notin> set is \<Longrightarrow> list_all wf_instr is \<and> bs = concat (map pack_bytes is)"
proof (induction bs arbitrary: "is" rule: decode_all.induct)
  case (1 bs)
  show ?case
  proof (cases "bs = []")
    case False
    then obtain i rest js where d: "decodeOp bs = Inr (i, rest)" "decode_all rest = Inr js" "is = i # js"
      using "1.prems"(1) by (subst (asm) decode_all.simps) (auto split: sum.splits prod.splits)
    then show ?thesis using "1.IH" [OF False d(1) refl d(2)] decodeOp_bytes [OF d(1)] "1.prems"(2) by auto
  qed (use "1.prems" in \<open>simp add: decode_all.simps\<close>)
qed

end
