(* ===== verification/WL_Gas.thy ===== *)
theory WL_Gas
  imports WL_Instr
begin

text \<open>
  Gas metering (\<open>wasm_gas_table.cpp\<close>, the first pass of \<open>wasm_binary_injection::inject\<close> in
  \<open>wasm_injection.hpp\<close> and \<open>wasm_context::use_gas\<close>): in front of every stretch of code that ends in a
  control instruction the pass inserts a call of \<open>use_gas\<close> with the price of the stretch.
\<close>

section \<open>Prices\<close>

definition gas_table :: "int list" where
  "gas_table =
     [0, 1, 0, 0, 0, 2, 0, 0, 0, 0, 0, 0, 2, 3, 2, 2,
      2, 10, 0, 0, 0, 0, 0, 0, 0, 0, 3, 3, 0, 0, 0, 0,
      3, 3, 3, 3, 3, 0, 0, 0, 3, 3, 3, 3, 3, 3, 3, 3,
      3, 3, 3, 3, 3, 3, 3, 3, 3, 3, 3, 3, 3, 3, 3, 100,
      1000, 0, 0, 0, 0, 1, 1, 1, 1, 1, 1, 1, 1, 1, 1, 1,
      1, 1, 1, 1, 1, 1, 1, 1, 1, 1, 1, 100, 100, 100, 100, 100,
      100, 100, 100, 100, 100, 100, 100, 105, 105, 105, 1, 1, 3, 80, 80, 80,
      80, 1, 1, 1, 2, 2, 2, 2, 2, 150, 150, 150, 1, 1, 3, 80,
      80, 80, 80, 1, 1, 1, 2, 2, 2, 2, 2, 100, 100, 100, 100, 100,
      100, 2000, 200, 200, 400, 1000, 100, 100, 100, 100, 100, 100, 100, 100, 100, 2000,
      200, 200, 400, 1000, 100, 100, 100, 3, 100, 100, 100, 100, 3, 3, 100, 100,
      100, 100, 100, 100, 100, 100, 100, 100, 100, 100, 100, 100, 100, 100, 100, 100]"

text \<open>The price of an opcode; reading behind the table is undefined in the code (\<open>None\<close>).\<close>

definition gas_cost :: "u16 \<Rightarrow> int option" where
  "gas_cost c = (if unat c < length gas_table then Some (gas_table ! unat c) else None)"

section \<open>The pass over the bytes of a function\<close>

text \<open>The opcodes at which the collected code is written out: end, br, br_table, br_if, if, else, return, loop.\<close>

definition ends_block :: "u16 \<Rightarrow> bool" where
  "ends_block c \<longleftrightarrow> c \<in> {0x0B, 0x0C, 0x0E, 0x0D, 0x04, 0x05, 0x0F, 0x03}"

definition i64_const :: "u64 \<Rightarrow> instr" where "i64_const g = Instr 0x42 (F_u64 g)"

definition call_instr :: "u32 \<Rightarrow> instr" where "call_instr i = Instr 0x10 (F_u32 i)"

type_synonym usegas_state = "u64 \<times> instruction_stream \<times> instruction_stream"

definition usegas_step :: "u32 \<Rightarrow> instr \<Rightarrow> usegas_state \<Rightarrow> usegas_state option" where
  "usegas_step use_gas_idx op = (\<lambda>(gas, tmp, out).
     Option.bind (gas_cost (i_code op)) (\<lambda>g.
       let gas = gas + word_of_int g
       in if ends_block (i_code op) then
            Option.bind
              (if 0 <s gas
               then Option.bind (pack (i64_const gas) out) (\<lambda>out.
                    Option.bind (pack (call_instr use_gas_idx) out) (\<lambda>out. Some (0, out)))
               else Some (gas, out))
              (\<lambda>(gas, out).
                 Option.bind (stream_set (take (is_idx tmp) (is_data tmp)) out) (\<lambda>out.
                 Option.bind (pack op out) (\<lambda>out. Some (gas, tmp\<lparr>is_idx := 0\<rparr>, out))))
          else Option.bind (pack op tmp) (\<lambda>tmp. Some (gas, tmp, out))))"

function usegas_loop :: "u32 \<Rightarrow> u8 list \<Rightarrow> usegas_state \<Rightarrow> instruction_stream result option" where
  "usegas_loop use_gas_idx code s =
     (if code = [] then Some (Inr (snd (snd s)))
      else case decodeOp code of
        Inl e \<Rightarrow> Some (Inl e)
      | Inr (op, rest) \<Rightarrow>
          (case usegas_step use_gas_idx op s of
             None \<Rightarrow> None
           | Some s \<Rightarrow> usegas_loop use_gas_idx rest s))"
  by pat_completeness auto
termination by (relation "measure (\<lambda>(i, code, s). length code)") (auto simp: decodeOp_shorter)

definition usegas_code :: "u32 \<Rightarrow> u8 list \<Rightarrow> u8 list result option" where
  "usegas_code use_gas_idx code =
     map_option (map_sum id stream_get) (usegas_loop use_gas_idx code (0, stream_new 0, stream_new (length code * 2)))"

declare usegas_loop.simps [simp del]

section \<open>The same on instructions\<close>

text \<open>\<open>gas\<close> is the price of the instructions in \<open>tmp\<close>, which are not written out yet.\<close>

fun meter :: "u32 \<Rightarrow> u64 \<Rightarrow> instr list \<Rightarrow> instr list \<Rightarrow> instr list" where
  "meter idx gas tmp [] = []"
| "meter idx gas tmp (op # ops) =
     (let gas = gas + word_of_int (the (gas_cost (i_code op)))
      in if ends_block (i_code op)
         then (if 0 <s gas then [i64_const gas, call_instr idx] else []) @ tmp @ [op]
                @ meter idx (if 0 <s gas then 0 else gas) [] ops
         else meter idx gas (tmp @ [op]) ops)"

definition code_bytes :: "instr list \<Rightarrow> u8 list" where
  "code_bytes is = concat (map pack_bytes is)"

definition priced :: "instr \<Rightarrow> bool" where
  "priced i \<longleftrightarrow> unat (i_code i) < length gas_table"

lemma usegas_step_meter:
  assumes "priced op" and "stream_ok tmp" and "stream_ok out" and "stream_get tmp = code_bytes T"
  shows "\<exists>gas' tmp' out' T' W. usegas_step idx op (gas, tmp, out) = Some (gas', tmp', out') \<and> stream_ok tmp' \<and> stream_ok out' \<and>
    stream_get tmp' = code_bytes T' \<and> stream_get out' = stream_get out @ code_bytes W \<and>
    (\<forall>ops. meter idx gas T (op # ops) = W @ meter idx gas' T' ops)"
proof -
  obtain g where g: "gas_cost (i_code op) = Some g" using assms(1) by (auto simp: gas_cost_def priced_def)
  define h where "h = gas + word_of_int g"
  have tmp: "take (is_idx tmp) (is_data tmp) = code_bytes T" using assms(2,4) by (simp add: stream_get_ok)
  have reset: "stream_ok (tmp\<lparr>is_idx := 0\<rparr>)" "stream_get (tmp\<lparr>is_idx := 0\<rparr>) = code_bytes []"
    by (simp_all add: stream_ok_def stream_get_def resize_def code_bytes_def)
  show ?thesis
  proof (cases "ends_block (i_code op)")
    case False
    obtain tmp' where "pack op tmp = Some tmp'" "stream_ok tmp'" "stream_get tmp' = stream_get tmp @ pack_bytes op"
      using pack_ok [OF assms(2)] by blast
    then have "usegas_step idx op (gas, tmp, out) = Some (h, tmp', out) \<and> stream_ok tmp' \<and> stream_ok out \<and>
        stream_get tmp' = code_bytes (T @ [op]) \<and> stream_get out = stream_get out @ code_bytes [] \<and>
        (\<forall>ops. meter idx gas T (op # ops) = [] @ meter idx h (T @ [op]) ops)"
      using False g assms(3,4) by (simp add: usegas_step_def Let_def h_def code_bytes_def)
    then show ?thesis by blast
  next
    case True
    define P where "P = (if 0 <s h then [i64_const h, call_instr idx] else [])"
    define h' where "h' = (if 0 <s h then 0 else h)"
    obtain out1 where 1: "(if 0 <s h then Option.bind (pack (i64_const h) out) (\<lambda>out. Option.bind (pack (call_instr idx) out) (\<lambda>out. Some (0, out)))
        else Some (h, out)) = Some (h', out1)" "stream_ok out1" "stream_get out1 = stream_get out @ code_bytes P"
    proof (cases "0 <s h")
      case True
      obtain o1 where o1: "pack (i64_const h) out = Some o1" "stream_ok o1" "stream_get o1 = stream_get out @ pack_bytes (i64_const h)"
        using pack_ok [OF assms(3)] by blast
      obtain o2 where "pack (call_instr idx) o1 = Some o2" "stream_ok o2" "stream_get o2 = stream_get o1 @ pack_bytes (call_instr idx)"
        using pack_ok [OF o1(2)] by blast
      then show ?thesis using that True o1 by (simp add: h'_def P_def code_bytes_def)
    next
      case False
      then show ?thesis using that assms(3) by (simp add: h'_def P_def code_bytes_def)
    qed
    obtain out2 where 2: "stream_set (code_bytes T) out1 = Some out2" "stream_ok out2" "stream_get out2 = stream_get out1 @ code_bytes T"
      using stream_set_ok [OF 1(2)] by blast
    obtain out3 where 3: "pack op out2 = Some out3" "stream_ok out3" "stream_get out3 = stream_get out2 @ pack_bytes op"
      using pack_ok [OF 2(2)] by blast
    have "usegas_step idx op (gas, tmp, out) = Some (h', tmp\<lparr>is_idx := 0\<rparr>, out3)"
      by (simp only: usegas_step_def prod.case g bind.bind_lunit Let_def h_def [symmetric] True if_True 1(1) tmp 2(1) 3(1))
    moreover have "stream_get out3 = stream_get out @ code_bytes (P @ T @ [op])" using 1(3) 2(3) 3(3) by (simp add: code_bytes_def)
    moreover have "\<forall>ops. meter idx gas T (op # ops) = (P @ T @ [op]) @ meter idx h' [] ops"
      using True g by (simp add: Let_def h_def [symmetric] P_def h'_def)
    ultimately show ?thesis using reset 3(2) by blast
  qed
qed

lemma usegas_loop_meter:
  "decode_all code = Inr is \<Longrightarrow> list_all priced is \<Longrightarrow> stream_ok tmp \<Longrightarrow> stream_ok out \<Longrightarrow> stream_get tmp = code_bytes T \<Longrightarrow>
     \<exists>out'. usegas_loop idx code (gas, tmp, out) = Some (Inr out') \<and>
       stream_get out' = stream_get out @ code_bytes (meter idx gas T is)"
proof (induction code arbitrary: "is" gas tmp out T rule: decode_all.induct)
  case (1 code)
  show ?case
  proof (cases "code = []")
    case True
    then show ?thesis using "1.prems" by (simp add: decode_all.simps usegas_loop.simps code_bytes_def)
  next
    case False
    then obtain op rest js where d: "decodeOp code = Inr (op, rest)" "decode_all rest = Inr js" "is = op # js"
      using "1.prems"(1) by (subst (asm) decode_all.simps) (auto split: sum.splits prod.splits)
    obtain gas' tmp' out' T' W where s: "usegas_step idx op (gas, tmp, out) = Some (gas', tmp', out')" "stream_ok tmp'" "stream_ok out'"
        "stream_get tmp' = code_bytes T'" "stream_get out' = stream_get out @ code_bytes W" "\<forall>ops. meter idx gas T (op # ops) = W @ meter idx gas' T' ops"
      using usegas_step_meter [of op tmp out T idx gas] "1.prems" d(3) by auto
    have "list_all priced js" using "1.prems"(2) d(3) by simp
    from "1.IH" [OF False d(1) refl d(2) this s(2-4)] obtain out2 where
      o2: "usegas_loop idx rest (gas', tmp', out') = Some (Inr out2)" "stream_get out2 = stream_get out' @ code_bytes (meter idx gas' T' js)" by blast
    have "usegas_loop idx code (gas, tmp, out) = Some (Inr out2)"
      using False d(1) s(1) o2(1) by (subst usegas_loop.simps) simp
    moreover have "stream_get out2 = stream_get out @ code_bytes (meter idx gas T is)"
      using o2(2) s(5,6) d(3) by (simp add: code_bytes_def)
    ultimately show ?thesis by blast
  qed
qed

lemma usegas_code_meter:
  "decode_all code = Inr is \<Longrightarrow> list_all priced is \<Longrightarrow> usegas_code idx code = Some (Inr (code_bytes (meter idx 0 [] is)))"
  using usegas_loop_meter [of code "is" "stream_new 0" "stream_new (length code * 2)" "[]" idx 0]
  by (auto simp: usegas_code_def code_bytes_def)

section \<open>Charging by stretches of code\<close>

definition price :: "instr \<Rightarrow> nat" where
  "price i = nat (gas_table ! unat (i_code i))"

text \<open>The stretches: each ends in the first control instruction.\<close>

fun stretches :: "instr list \<Rightarrow> instr list \<Rightarrow> instr list list" where
  "stretches acc [] = []"
| "stretches acc (i # is) = (if ends_block (i_code i) then (acc @ [i]) # stretches [] is else stretches (acc @ [i]) is)"

definition total_price :: "instr list \<Rightarrow> nat" where
  "total_price is = (\<Sum>i\<leftarrow>is. price i)"

definition charge :: "u32 \<Rightarrow> instr list \<Rightarrow> instr list" where
  "charge idx seg = (if 0 < total_price seg then [i64_const (of_nat (total_price seg)), call_instr idx] else []) @ seg"

lemma gas_table_bounds: "n < length gas_table \<Longrightarrow> 0 \<le> gas_table ! n \<and> gas_table ! n \<le> 2000"
proof -
  have "list_all (\<lambda>g. 0 \<le> g \<and> g \<le> 2000) gas_table" by code_simp
  then show "n < length gas_table \<Longrightarrow> 0 \<le> gas_table ! n \<and> gas_table ! n \<le> 2000" by (simp add: list_all_length)
qed

lemma price_le: "priced i \<Longrightarrow> price i \<le> 2000"
  using gas_table_bounds [of "unat (i_code i)"] by (simp add: price_def priced_def nat_le_iff)

lemma gas_cost_price: "priced i \<Longrightarrow> gas_cost (i_code i) = Some (int (price i))"
  using gas_table_bounds [of "unat (i_code i)"] by (simp add: price_def priced_def gas_cost_def)

lemma total_price_le: "list_all priced is \<Longrightarrow> total_price is \<le> 2000 * length is"
proof (induction "is")
  case (Cons i "is")
  then show ?case using price_le [of i] by (simp add: total_price_def)
qed (simp add: total_price_def)

lemma unat_of_nat_len: "n < 2 ^ LENGTH('a) \<Longrightarrow> unat (of_nat n :: 'a::len word) = n"
  by (simp add: unat_of_nat)

lemma sint_nat_small: "unat (w :: u64) = n \<Longrightarrow> n < 2 ^ 63 \<Longrightarrow> sint w = int n"
  using signed_take_bit_int_eq_self [of 63 "int n"] by (simp add: sint_uint uint_nat)

lemma positive_price: "n < 2 ^ 63 \<Longrightarrow> 0 <s (of_nat n :: u64) \<longleftrightarrow> 0 < n"
proof -
  assume n: "n < 2 ^ 63"
  have "unat (of_nat n :: u64) = n" using n by (intro unat_of_nat_len) simp
  then have "sint (of_nat n :: u64) = int n" using n by (rule sint_nat_small)
  then show ?thesis by (simp add: word_sless_alt)
qed

lemma meter_stretches:
  "list_all priced (T @ is) \<Longrightarrow> length (T @ is) < 2 ^ 50 \<Longrightarrow>
     meter idx (of_nat (total_price T)) T is = concat (map (charge idx) (stretches T is))"
proof (induction "is" arbitrary: T)
  case (Cons i "is")
  define n where "n = total_price (T @ [i])"
  have "n \<le> 2000 * length (T @ [i])" unfolding n_def using Cons.prems by (intro total_price_le) simp
  also have "\<dots> \<le> 2000 * length (T @ i # is)" by simp
  also have "\<dots> < 2000 * 2 ^ 50" using Cons.prems(2) by (intro mult_strict_left_mono) simp_all
  finally have n: "n < 2 ^ 63" by simp
  have g: "of_nat (total_price T) + word_of_int (the (gas_cost (i_code i))) = (of_nat n :: u64)"
    using gas_cost_price [of i] Cons.prems(1) by (simp add: n_def total_price_def)
  have c: "charge idx (T @ [i]) = (if 0 < n then [i64_const (of_nat n), call_instr idx] else []) @ T @ [i]"
    by (simp add: charge_def n_def)
  show ?case
  proof (cases "ends_block (i_code i)")
    case True
    have "meter idx (if 0 <s (of_nat n :: u64) then 0 else of_nat n) [] is = concat (map (charge idx) (stretches [] is))"
      using Cons.IH [of "[]"] Cons.prems positive_price [OF n] by (auto simp: total_price_def)
    then show ?thesis using True positive_price [OF n] by (simp add: g Let_def c)
  next
    case False
    have "meter idx (of_nat n) (T @ [i]) is = concat (map (charge idx) (stretches (T @ [i]) is))"
      unfolding n_def using Cons.IH [of "T @ [i]"] Cons.prems by simp
    then show ?thesis using False by (simp add: g Let_def)
  qed
qed simp

text \<open>What the stretches are.\<close>

definition closed_code :: "instr list \<Rightarrow> bool" where
  "closed_code is \<longleftrightarrow> is = [] \<or> ends_block (i_code (last is))"

lemma stretches_concat: "closed_code is \<Longrightarrow> is \<noteq> [] \<or> T = [] \<Longrightarrow> concat (stretches T is) = T @ is"
proof (induction "is" arbitrary: T)
  case (Cons i "is")
  show ?case
  proof (cases "is = []")
    case True
    then show ?thesis using Cons.prems by (simp add: closed_code_def)
  next
    case False
    then show ?thesis using Cons.prems Cons.IH [of "[]"] Cons.IH [of "T @ [i]"] by (simp add: closed_code_def)
  qed
qed simp

definition stretch :: "instr list \<Rightarrow> bool" where
  "stretch seg \<longleftrightarrow> seg \<noteq> [] \<and> ends_block (i_code (last seg)) \<and> (\<forall>i\<in>set (butlast seg). \<not> ends_block (i_code i))"

lemma stretches_shape: "\<forall>i\<in>set T. \<not> ends_block (i_code i) \<Longrightarrow> list_all stretch (stretches T is)"
proof (induction "is" arbitrary: T)
  case (Cons i "is")
  then have "ends_block (i_code i) \<Longrightarrow> stretch (T @ [i])" by (simp add: stretch_def)
  then show ?case using Cons.prems Cons.IH [of "[]"] Cons.IH [of "T @ [i]"] by simp
qed simp

section \<open>Nothing runs unpaid\<close>

fun charge_amount :: "instr \<Rightarrow> nat" where
  "charge_amount (Instr c (F_u64 g)) = unat g"
| "charge_amount _ = 0"

text \<open>
  Running through the code from top to bottom with a balance: a charge adds to it, every other
  instruction takes its price from it, and at the end nothing is left.
\<close>

fun prepaid :: "u32 \<Rightarrow> nat \<Rightarrow> instr list \<Rightarrow> bool" where
  "prepaid idx b [] \<longleftrightarrow> b = 0"
| "prepaid idx b [i] \<longleftrightarrow> b = price i"
| "prepaid idx b (i # j # is) \<longleftrightarrow>
     (if j = call_instr idx then prepaid idx (b + charge_amount i) is
      else price i \<le> b \<and> prepaid idx (b - price i) (j # is))"

text \<open>Removing the charges.\<close>

fun uncharge :: "u32 \<Rightarrow> instr list \<Rightarrow> instr list" where
  "uncharge idx (i # j # is) = (if j = call_instr idx then uncharge idx is else i # uncharge idx (j # is))"
| "uncharge idx [i] = [i]"
| "uncharge idx [] = []"

lemma charged_stretch:
  assumes "call_instr idx \<notin> set seg" and "rest = [] \<or> hd rest \<noteq> call_instr idx"
  shows "prepaid idx (total_price seg + b) (seg @ rest) \<longleftrightarrow> prepaid idx b rest" "uncharge idx (seg @ rest) = seg @ uncharge idx rest"
proof -
  have "(prepaid idx (total_price seg + b) (seg @ rest) \<longleftrightarrow> prepaid idx b rest) \<and> uncharge idx (seg @ rest) = seg @ uncharge idx rest"
    using assms
  proof (induction seg)
    case (Cons i seg)
    show ?case
    proof (cases "seg @ rest")
      case Nil
      then show ?thesis by (auto simp: total_price_def)
    next
      case (Cons j js)
      then have "j \<noteq> call_instr idx" using Cons.prems by (cases seg) auto
      then show ?thesis using Cons.IH Cons.prems Cons by (simp add: total_price_def add.assoc)
    qed
  qed (simp add: total_price_def)
  then show "prepaid idx (total_price seg + b) (seg @ rest) \<longleftrightarrow> prepaid idx b rest" "uncharge idx (seg @ rest) = seg @ uncharge idx rest" by blast+
qed

lemma charge_paid:
  assumes "call_instr idx \<notin> set seg" and "seg \<noteq> []" and "total_price seg < 2 ^ 64" and "rest = [] \<or> hd rest \<noteq> call_instr idx"
  shows "prepaid idx 0 (charge idx seg @ rest) \<longleftrightarrow> prepaid idx 0 rest"
    and "uncharge idx (charge idx seg @ rest) = seg @ uncharge idx rest"
    and "hd (charge idx seg @ rest) \<noteq> call_instr idx"
proof -
  have "unat (of_nat (total_price seg) :: u64) = total_price seg" using assms(3) by (intro unat_of_nat_len) simp
  then have a: "charge_amount (i64_const (of_nat (total_price seg))) = total_price seg" by (simp add: i64_const_def)
  show "prepaid idx 0 (charge idx seg @ rest) \<longleftrightarrow> prepaid idx 0 rest"
    using charged_stretch(1) [OF assms(1,4), of 0] by (cases "total_price seg = 0") (simp_all add: charge_def a)
  show "uncharge idx (charge idx seg @ rest) = seg @ uncharge idx rest"
    using charged_stretch(2) [OF assms(1,4)] by (simp add: charge_def)
  show "hd (charge idx seg @ rest) \<noteq> call_instr idx"
    using assms(1,2) by (cases seg) (auto simp: charge_def i64_const_def call_instr_def)
qed

lemma charges_paid:
  "list_all (\<lambda>seg. seg \<noteq> [] \<and> call_instr idx \<notin> set seg \<and> total_price seg < 2 ^ 64) segs \<Longrightarrow>
     prepaid idx 0 (concat (map (charge idx) segs)) \<and> uncharge idx (concat (map (charge idx) segs)) = concat segs \<and>
     (concat (map (charge idx) segs) = [] \<or> hd (concat (map (charge idx) segs)) \<noteq> call_instr idx)"
proof (induction segs)
  case (Cons seg segs)
  then show ?case using charge_paid [of idx seg "concat (map (charge idx) segs)"] by simp
qed simp

lemma stretches_elements:
  "seg \<in> set (stretches T is) \<Longrightarrow> seg \<noteq> [] \<and> set seg \<subseteq> set T \<union> set is \<and> length seg \<le> length T + length is"
proof (induction "is" arbitrary: T)
  case (Cons i "is")
  show ?case
  proof (cases "ends_block (i_code i)")
    case True
    then show ?thesis using Cons.prems Cons.IH [of "[]"] by auto
  next
    case False
    then show ?thesis using Cons.prems Cons.IH [of "T @ [i]"] by auto
  qed
qed simp

lemma meter_charges:
  assumes "list_all priced is" and "length is < 2 ^ 50"
  shows "meter idx 0 [] is = concat (map (charge idx) (stretches [] is))"
  using meter_stretches [of "[]" "is" idx] assms by (simp add: total_price_def)

lemma meter_paid:
  assumes "closed_code is" and "call_instr idx \<notin> set is" and "list_all priced is" and "length is < 2 ^ 50"
  shows "prepaid idx 0 (meter idx 0 [] is)" and "uncharge idx (meter idx 0 [] is) = is"
proof -
  have "list_all (\<lambda>seg. seg \<noteq> [] \<and> call_instr idx \<notin> set seg \<and> total_price seg < 2 ^ 64) (stretches [] is)"
    unfolding list_all_iff
  proof (intro ballI conjI)
    fix seg assume seg: "seg \<in> set (stretches [] is)"
    note e = stretches_elements [OF this]
    show "seg \<noteq> []" using e by simp
    show "call_instr idx \<notin> set seg" using e assms(2) by auto
    have "list_all priced seg" using e assms(3) by (auto simp: list_all_iff)
    then have "total_price seg \<le> 2000 * length seg" by (rule total_price_le)
    also have "\<dots> \<le> 2000 * length is" using e by simp
    finally show "total_price seg < 2 ^ 64" using assms(4) by simp
  qed
  from charges_paid [OF this] stretches_concat [OF assms(1), of "[]"]
  show "prepaid idx 0 (meter idx 0 [] is)" "uncharge idx (meter idx 0 [] is) = is"
    by (simp_all add: meter_charges [OF assms(3,4)])
qed

end
