(* ===== verification/WL_Module.thy ===== *)
theory WL_Module
  imports WL_Prelude
begin

text \<open>
  The parts of a decoded WebAssembly module that the contract checks and the code injection read
  and change (\<open>IR/Types.h\<close>, \<open>IR/Module.h\<close>; the build has no SIMD prototype). Function types are
  interned in the code, so that comparing pointers is comparing values. Vector sizes and indices
  into them are natural numbers; a start function index of all ones means that there is none.
\<close>

datatype value_type = VT_any | VT_i32 | VT_i64 | VT_f32 | VT_f64 | VT_num

datatype result_type = RT_none | RT_i32 | RT_i64 | RT_f32 | RT_f64 | RT_num

text \<open>The numbers of the types, which the injection uses as keys.\<close>

fun value_type_code :: "value_type \<Rightarrow> u16" where
  "value_type_code VT_any = 0"
| "value_type_code VT_i32 = 1"
| "value_type_code VT_i64 = 2"
| "value_type_code VT_f32 = 3"
| "value_type_code VT_f64 = 4"
| "value_type_code VT_num = 5"

fun result_type_code :: "result_type \<Rightarrow> u16" where
  "result_type_code RT_none = 0"
| "result_type_code RT_i32 = 1"
| "result_type_code RT_i64 = 2"
| "result_type_code RT_f32 = 3"
| "result_type_code RT_f64 = 4"
| "result_type_code RT_num = 5"

text \<open>\<open>getTypeBitWidth\<close>; the two values that are not types of operands are unreachable there (\<open>None\<close>).\<close>

fun getTypeBitWidth :: "value_type \<Rightarrow> u8 option" where
  "getTypeBitWidth VT_i32 = Some 32"
| "getTypeBitWidth VT_i64 = Some 64"
| "getTypeBitWidth VT_f32 = Some 32"
| "getTypeBitWidth VT_f64 = Some 64"
| "getTypeBitWidth VT_any = None"
| "getTypeBitWidth VT_num = None"

record function_type =
  ft_ret :: result_type
  ft_parameters :: "value_type list"

record size_constraints =
  size_min :: u64
  size_max :: u64

datatype init_expr =
    Init_i32_const u32
  | Init_i64_const u64
  | Init_f32_const u32
  | Init_f64_const u64
  | Init_get_global u64
  | Init_error

record function_def =
  fd_type :: nat
  fd_locals :: "value_type list"
  fd_code :: "u8 list"

record function_import =
  fi_type :: nat
  fi_module :: string
  fi_name :: string

record global_def =
  gd_value_type :: value_type
  gd_mutable :: bool

datatype object_kind = OK_function | OK_table | OK_memory | OK_global | OK_module | OK_invalid

record export =
  ex_name :: string
  ex_kind :: object_kind
  ex_index :: nat

record data_segment =
  ds_base :: init_expr
  ds_data :: "u8 list"

record wasm_module =
  m_types :: "function_type list"
  m_fimports :: "function_import list"
  m_fdefs :: "function_def list"
  m_tables :: "size_constraints list"
  m_memories :: "size_constraints list"
  m_globals :: "global_def list"
  m_exports :: "export list"
  m_data :: "data_segment list"
  m_table_segments :: "nat list list"
  m_start :: u64

text \<open>\<open>IndexSpace::getType\<close> of the functions: imports first, then definitions; \<open>None\<close> behind the end.\<close>

definition function_getType :: "wasm_module \<Rightarrow> nat \<Rightarrow> nat option" where
  "function_getType m i =
     (if i < length (m_fimports m) then Some (fi_type (m_fimports m ! i))
      else if i - length (m_fimports m) < length (m_fdefs m) then Some (fd_type (m_fdefs m ! (i - length (m_fimports m))))
      else None)"

end
