(* ===== verification/WL_Validation.thy ===== *)
theory WL_Validation
  imports WL_Module
begin

text \<open>
  The checks a contract must pass before it is stored (\<open>wasm_validation.cpp\<close>,
  \<open>wasm_validation.hpp\<close>, \<open>wasm_constraints.hpp\<close>): limits on memory, data, tables, globals and
  locals, the exported \<open>apply\<close> function, and the nesting of control structures.
\<close>

section \<open>Module checks\<close>

definition maximum_linear_memory :: u32 where "maximum_linear_memory = 33 * 1024 * 1024"
definition maximum_mutable_globals :: u32 where "maximum_mutable_globals = 1024"
definition maximum_table_elements :: u32 where "maximum_table_elements = 1024"
definition maximum_linear_memory_init :: u32 where "maximum_linear_memory_init = 64 * 1024"
definition maximum_func_local_bytes :: u32 where "maximum_func_local_bytes = 8192"
definition wasm_page_size :: u32 where "wasm_page_size = 64 * 1024"

type_synonym validator = "wasm_module \<Rightarrow> unit result"

definition memories_validation :: validator where
  "memories_validation m =
     (if m_memories m \<noteq> [] \<and> ucast (maximum_linear_memory div (64 * 1024)) < size_min (hd (m_memories m))
      then Inl (wasm_runtime_exception ''Smart contract initial memory size must be less than or equal to $33792KiB'')
      else Inr ())"

fun data_segments_loop :: "data_segment list \<Rightarrow> unit result" where
  "data_segments_loop [] = Inr ()"
| "data_segments_loop (ds # rest) =
     (case ds_base ds of
        Init_i32_const base \<Rightarrow>
          if (ucast maximum_linear_memory_init :: u64) < ucast base + of_nat (length (ds_data ds))
          then Inl (wasm_runtime_exception ''Smart contract data segments must lie in first $64KiB'')
          else data_segments_loop rest
      | _ \<Rightarrow> Inl (wasm_runtime_exception ''Smart contract has unexpected memory base offset type''))"

definition data_segments_validation :: validator where
  "data_segments_validation m = data_segments_loop (m_data m)"

definition tables_validation :: validator where
  "tables_validation m =
     (if m_tables m \<noteq> [] \<and> ucast maximum_table_elements < size_min (hd (m_tables m))
      then Inl (wasm_runtime_exception ''Smart contract table limited to $1024 elements'')
      else Inr ())"

fun globals_loop :: "global_def list \<Rightarrow> u32 \<Rightarrow> u32 result" where
  "globals_loop [] bytes = Inr bytes"
| "globals_loop (g # rest) bytes =
     (if \<not> gd_mutable g then globals_loop rest bytes
      else case gd_value_type g of
        VT_any \<Rightarrow> Inl (wasm_runtime_exception ''Smart contract has unexpected global definition value type'')
      | VT_num \<Rightarrow> Inl (wasm_runtime_exception ''Smart contract has unexpected global definition value type'')
      | VT_i64 \<Rightarrow> globals_loop rest (bytes + 4 + 4)
      | VT_f64 \<Rightarrow> globals_loop rest (bytes + 4 + 4)
      | VT_i32 \<Rightarrow> globals_loop rest (bytes + 4)
      | VT_f32 \<Rightarrow> globals_loop rest (bytes + 4))"

definition globals_validation :: validator where
  "globals_validation m =
     bind_result (globals_loop (m_globals m) 0)
       (\<lambda>bytes. if maximum_mutable_globals < bytes
          then Inl (wasm_runtime_exception ''Smart contract has more than $1024 bytes of mutable globals'')
          else Inr ())"

text \<open>
  Adding up the sizes of locals and parameters in an \<open>unsigned\<close> counter. Both reading the width of a
  value that is no type and indexing behind the end of the types are undefined in the code; such a
  module does not come out of the decoder and is \<open>None\<close> here.
\<close>

fun stack_usage :: "value_type list \<Rightarrow> u32 \<Rightarrow> u32 option" where
  "stack_usage [] usage = Some usage"
| "stack_usage (t # ts) usage =
     (case getTypeBitWidth t of None \<Rightarrow> None | Some w \<Rightarrow> stack_usage ts (usage + ucast (w div 8)))"

fun function_stack_loop :: "function_type list \<Rightarrow> function_def list \<Rightarrow> unit result option" where
  "function_stack_loop types [] = Some (Inr ())"
| "function_stack_loop types (f # fs) =
     (case stack_usage (fd_locals f) 0 of
        None \<Rightarrow> None
      | Some u \<Rightarrow>
          if fd_type f < length types then
            (case stack_usage (ft_parameters (types ! fd_type f)) u of
               None \<Rightarrow> None
             | Some u \<Rightarrow>
                 if maximum_func_local_bytes < u
                 then Some (Inl (wasm_runtime_exception ''Smart contract function has more than $8192 bytes of stack usage''))
                 else function_stack_loop types fs)
          else None)"

definition maximum_function_stack :: "wasm_module \<Rightarrow> unit result option" where
  "maximum_function_stack m = function_stack_loop (m_types m) (m_fdefs m)"

definition apply_type :: function_type where
  "apply_type = \<lparr>ft_ret = RT_none, ft_parameters = [VT_i64, VT_i64, VT_i64]\<rparr>"

text \<open>The search stops at the first match; an index that is out of range is undefined in the code.\<close>

fun find_apply :: "wasm_module \<Rightarrow> export list \<Rightarrow> bool option" where
  "find_apply m [] = Some False"
| "find_apply m (e # es) =
     (if ex_kind e \<noteq> OK_function then find_apply m es
      else if ex_name e \<noteq> ''apply'' then find_apply m es
      else case function_getType m (ex_index e) of
        None \<Rightarrow> None
      | Some t \<Rightarrow>
          if t < length (m_types m) then if m_types m ! t = apply_type then Some True else find_apply m es
          else None)"

definition ensure_apply_exported :: "wasm_module \<Rightarrow> unit result option" where
  "ensure_apply_exported m =
     (case find_apply m (m_exports m) of
        None \<Rightarrow> None
      | Some found \<Rightarrow> Some (if found then Inr ()
          else Inl (wasm_runtime_exception ''Smart contract's apply function not exported; non-existent; or wrong type'')))"

text \<open>The validators in the order of \<open>standard_module_constraints_validators\<close>; the first that throws ends it.\<close>

fun run_validators :: "(wasm_module \<Rightarrow> unit result option) list \<Rightarrow> wasm_module \<Rightarrow> unit result option" where
  "run_validators [] m = Some (Inr ())"
| "run_validators (v # vs) m =
     (case v m of Some (Inr _) \<Rightarrow> run_validators vs m | r \<Rightarrow> r)"

definition module_validate :: "wasm_module \<Rightarrow> unit result option" where
  "module_validate =
     run_validators [Some \<circ> memories_validation, Some \<circ> data_segments_validation, Some \<circ> tables_validation,
       Some \<circ> globals_validation, maximum_function_stack, ensure_apply_exported]"

section \<open>What the checks mean\<close>

text \<open>Modules as the decoder produces them: indices in range, no pseudo types, sizes of real memory.\<close>

definition operand_types :: "value_type list \<Rightarrow> bool" where
  "operand_types ts \<longleftrightarrow> VT_any \<notin> set ts \<and> VT_num \<notin> set ts"

definition decoded_module :: "wasm_module \<Rightarrow> bool" where
  "decoded_module m \<longleftrightarrow>
     (\<forall>f\<in>set (m_fdefs m). fd_type f < length (m_types m) \<and> operand_types (fd_locals f) \<and> length (fd_locals f) < 2 ^ 27) \<and>
     (\<forall>i\<in>set (m_fimports m). fi_type i < length (m_types m)) \<and>
     (\<forall>t\<in>set (m_types m). operand_types (ft_parameters t) \<and> length (ft_parameters t) < 2 ^ 27) \<and>
     (\<forall>e\<in>set (m_exports m). ex_kind e = OK_function \<longrightarrow> ex_index e < length (m_fimports m) + length (m_fdefs m)) \<and>
     (\<forall>d\<in>set (m_data m). length (ds_data d) < 2 ^ 63) \<and> length (m_globals m) < 2 ^ 28"

definition type_bytes :: "value_type \<Rightarrow> nat" where
  "type_bytes t = (case t of VT_i64 \<Rightarrow> 8 | VT_f64 \<Rightarrow> 8 | VT_i32 \<Rightarrow> 4 | VT_f32 \<Rightarrow> 4 | _ \<Rightarrow> 0)"

text \<open>The limits, stated on numbers.\<close>

definition within_limits :: "wasm_module \<Rightarrow> bool" where
  "within_limits m \<longleftrightarrow>
     (\<forall>s. m_memories m \<noteq> [] \<and> s = hd (m_memories m) \<longrightarrow> unat (size_min s) * 65536 \<le> 33 * 1024 * 1024) \<and>
     (\<forall>d\<in>set (m_data m). \<exists>base. ds_base d = Init_i32_const base \<and> unat base + length (ds_data d) \<le> 65536) \<and>
     (m_tables m \<noteq> [] \<longrightarrow> unat (size_min (hd (m_tables m))) \<le> 1024) \<and>
     (\<forall>g\<in>set (m_globals m). gd_mutable g \<longrightarrow> gd_value_type g \<noteq> VT_any \<and> gd_value_type g \<noteq> VT_num) \<and>
     (\<Sum>g\<leftarrow>filter gd_mutable (m_globals m). type_bytes (gd_value_type g)) \<le> 1024 \<and>
     (\<forall>f\<in>set (m_fdefs m). (\<Sum>t\<leftarrow>fd_locals f. type_bytes t) + (\<Sum>t\<leftarrow>ft_parameters (m_types m ! fd_type f). type_bytes t) \<le> 8192) \<and>
     (\<exists>e\<in>set (m_exports m). ex_kind e = OK_function \<and> ex_name e = ''apply'' \<and>
        (\<exists>t. function_getType m (ex_index e) = Some t \<and> m_types m ! t = apply_type))"

section \<open>Correctness\<close>

lemma unit_result_Inr: "(r :: unit result) = Inr u \<longleftrightarrow> r = Inr ()"
  by simp

lemma memories_validation_iff:
  "memories_validation m = Inr () \<longleftrightarrow>
     (\<forall>s. m_memories m \<noteq> [] \<and> s = hd (m_memories m) \<longrightarrow> unat (size_min s) * 65536 \<le> 33 * 1024 * 1024)"
proof -
  have "(ucast (maximum_linear_memory div (64 * 1024)) :: u64) = 528" by (simp add: maximum_linear_memory_def)
  then show ?thesis by (auto simp: memories_validation_def word_less_nat_alt)
qed

lemma data_segments_iff:
  "\<forall>d\<in>set ds. length (ds_data d) < 2 ^ 63 \<Longrightarrow> data_segments_loop ds = Inr () \<longleftrightarrow>
     (\<forall>d\<in>set ds. \<exists>base. ds_base d = Init_i32_const base \<and> unat base + length (ds_data d) \<le> 65536)"
proof (induction ds)
  case (Cons d ds)
  have "unat (ucast base + of_nat (length (ds_data d)) :: u64) = unat base + length (ds_data d)" for base :: u32
  proof -
    have "unat (of_nat (length (ds_data d)) :: u64) = length (ds_data d)" using Cons.prems by (simp add: unat_of_nat)
    then show ?thesis using unat_lt [of base] Cons.prems by (subst unat_add_small) (simp_all add: unat_ucast_up)
  qed
  then have "(ucast maximum_linear_memory_init :: u64) < ucast base + of_nat (length (ds_data d)) \<longleftrightarrow> 65536 < unat base + length (ds_data d)" for base :: u32
    by (simp add: word_less_nat_alt maximum_linear_memory_init_def)
  then show ?case using Cons by (auto split: init_expr.split)
qed simp

lemma tables_validation_iff:
  "tables_validation m = Inr () \<longleftrightarrow> (m_tables m \<noteq> [] \<longrightarrow> unat (size_min (hd (m_tables m))) \<le> 1024)"
  by (auto simp: tables_validation_def word_less_nat_alt maximum_table_elements_def)

lemma globals_loop_eq:
  "unat n + 8 * length gs < 2 ^ 32 \<Longrightarrow> globals_loop gs n =
     (if \<forall>g\<in>set gs. gd_mutable g \<longrightarrow> gd_value_type g \<noteq> VT_any \<and> gd_value_type g \<noteq> VT_num
      then Inr (n + of_nat (\<Sum>g\<leftarrow>filter gd_mutable gs. type_bytes (gd_value_type g)))
      else Inl (wasm_runtime_exception ''Smart contract has unexpected global definition value type''))"
proof (induction gs arbitrary: n)
  case (Cons g gs)
  have "unat (n + 4) = unat n + 4" "unat (n + 4 + 4) = unat n + 8" using Cons.prems by (simp_all add: unat_add_small)
  then show ?case using Cons.prems by (cases "gd_value_type g") (auto simp: Cons.IH type_bytes_def algebra_simps)
qed simp

lemma type_bytes_le: "type_bytes t \<le> 8"
  by (cases t) (simp_all add: type_bytes_def)

lemma sum_type_bytes_le: "(\<Sum>x\<leftarrow>xs. type_bytes (f x)) \<le> 8 * length xs"
proof (induction xs)
  case (Cons x xs)
  then show ?case using type_bytes_le [of "f x"] by simp
qed simp

lemma globals_validation_iff:
  assumes "length (m_globals m) < 2 ^ 28"
  shows "globals_validation m = Inr () \<longleftrightarrow>
     (\<forall>g\<in>set (m_globals m). gd_mutable g \<longrightarrow> gd_value_type g \<noteq> VT_any \<and> gd_value_type g \<noteq> VT_num) \<and>
     (\<Sum>g\<leftarrow>filter gd_mutable (m_globals m). type_bytes (gd_value_type g)) \<le> 1024"
proof -
  define k where "k = (\<Sum>g\<leftarrow>filter gd_mutable (m_globals m). type_bytes (gd_value_type g))"
  have "k \<le> 8 * length (filter gd_mutable (m_globals m))" unfolding k_def by (rule sum_type_bytes_le)
  also have "\<dots> \<le> 8 * length (m_globals m)" by simp
  finally have "k < 2 ^ 32" using assms by simp
  then have "maximum_mutable_globals < of_nat k \<longleftrightarrow> 1024 < k"
    by (simp add: word_less_nat_alt maximum_mutable_globals_def unat_of_nat)
  then show ?thesis
    unfolding globals_validation_def using globals_loop_eq [of 0 "m_globals m"] assms by (auto simp: k_def)
qed

lemma stack_usage_eq:
  "operand_types ts \<Longrightarrow> unat n + 8 * length ts < 2 ^ 32 \<Longrightarrow>
     \<exists>u. stack_usage ts n = Some u \<and> unat u = unat n + (\<Sum>t\<leftarrow>ts. type_bytes t)"
proof (induction ts arbitrary: n)
  case (Cons t ts)
  have "unat (n + 4) = unat n + 4" "unat (n + 8) = unat n + 8" using Cons.prems by (simp_all add: unat_add_small)
  then show ?case using Cons.prems Cons.IH [of "n + 4"] Cons.IH [of "n + 8"]
    by (cases t) (auto simp: operand_types_def type_bytes_def)
qed simp

lemma function_stack_iff:
  assumes "\<forall>f\<in>set fs. fd_type f < length types \<and> operand_types (fd_locals f) \<and> length (fd_locals f) < 2 ^ 27"
    and "\<forall>t\<in>set types. operand_types (ft_parameters t) \<and> length (ft_parameters t) < 2 ^ 27"
  shows "\<exists>r. function_stack_loop types fs = Some r \<and> (r = Inr () \<longleftrightarrow>
    (\<forall>f\<in>set fs. (\<Sum>t\<leftarrow>fd_locals f. type_bytes t) + (\<Sum>t\<leftarrow>ft_parameters (types ! fd_type f). type_bytes t) \<le> 8192))"
  using assms(1)
proof (induction fs)
  case (Cons f fs)
  define a b where "a = (\<Sum>t\<leftarrow>fd_locals f. type_bytes t)" and "b = (\<Sum>t\<leftarrow>ft_parameters (types ! fd_type f). type_bytes t)"
  have f: "fd_type f < length types" "operand_types (fd_locals f)" "length (fd_locals f) < 2 ^ 27" using Cons.prems by simp_all
  then have p: "operand_types (ft_parameters (types ! fd_type f))" "length (ft_parameters (types ! fd_type f)) < 2 ^ 27"
    using assms(2) by simp_all
  have ab: "a \<le> 8 * length (fd_locals f)" unfolding a_def using sum_type_bytes_le [of "\<lambda>t. t"] by simp
  obtain u where u: "stack_usage (fd_locals f) 0 = Some u" "unat u = a"
    using stack_usage_eq [OF f(2), of 0] f(3) by (auto simp: a_def)
  obtain v where v: "stack_usage (ft_parameters (types ! fd_type f)) u = Some v" "unat v = a + b"
    using stack_usage_eq [OF p(1), of u] p(2) ab f(3) u(2) by (auto simp: b_def)
  have "maximum_func_local_bytes < v \<longleftrightarrow> 8192 < a + b" using v(2) by (simp add: word_less_nat_alt maximum_func_local_bytes_def)
  then show ?case using Cons f(1) u v unfolding a_def [symmetric] b_def [symmetric] by (auto simp: a_def b_def)
qed simp

lemma function_getType_less:
  assumes "decoded_module m" and "i < length (m_fimports m) + length (m_fdefs m)"
  shows "\<exists>t. function_getType m i = Some t \<and> t < length (m_types m)"
proof -
  have "i - length (m_fimports m) < length (m_fdefs m)" if "\<not> i < length (m_fimports m)" using assms(2) that by simp
  then show ?thesis using assms(1) by (auto simp: function_getType_def decoded_module_def)
qed

lemma find_apply_iff:
  assumes "decoded_module m" and "set es \<subseteq> set (m_exports m)"
  shows "find_apply m es = Some (\<exists>e\<in>set es. ex_kind e = OK_function \<and> ex_name e = ''apply'' \<and>
        (\<exists>t. function_getType m (ex_index e) = Some t \<and> m_types m ! t = apply_type))"
  using assms(2)
proof (induction es)
  case (Cons e es)
  have "ex_kind e = OK_function \<Longrightarrow> \<exists>t. function_getType m (ex_index e) = Some t \<and> t < length (m_types m)"
    using Cons.prems assms(1) by (intro function_getType_less) (auto simp: decoded_module_def)
  then show ?case using Cons by (cases "ex_kind e = OK_function \<and> ex_name e = ''apply''") auto
qed simp

lemma ensure_apply_iff:
  assumes "decoded_module m"
  shows "\<exists>r. ensure_apply_exported m = Some r \<and> (r = Inr () \<longleftrightarrow> (\<exists>e\<in>set (m_exports m). ex_kind e = OK_function \<and> ex_name e = ''apply'' \<and>
        (\<exists>t. function_getType m (ex_index e) = Some t \<and> m_types m ! t = apply_type)))"
  unfolding ensure_apply_exported_def find_apply_iff [OF assms subset_refl] by (simp split: if_split)

lemma run_validators_Cons: "v m = Some r \<Longrightarrow>
    run_validators (v # vs) m = (if r = Inr () then run_validators vs m else Some r)"
  by (cases r) auto

lemma run_validators_Some:
  "run_validators ((Some \<circ> v) # vs) m = (if v m = Inr () then run_validators vs m else Some (v m))"
  by (cases "v m") auto

lemma first_failure: "(if x \<noteq> c then x else y) = c \<longleftrightarrow> x = c \<and> y = c"
  by simp

lemma module_validate_iff:
  assumes "decoded_module m"
  shows "\<exists>r. module_validate m = Some r \<and> (r = Inr () \<longleftrightarrow> within_limits m)"
proof -
  have d: "\<forall>f\<in>set (m_fdefs m). fd_type f < length (m_types m) \<and> operand_types (fd_locals f) \<and> length (fd_locals f) < 2 ^ 27"
    "\<forall>t\<in>set (m_types m). operand_types (ft_parameters t) \<and> length (ft_parameters t) < 2 ^ 27"
    "\<forall>d\<in>set (m_data m). length (ds_data d) < 2 ^ 63" "length (m_globals m) < 2 ^ 28"
    using assms unfolding decoded_module_def by blast+
  obtain s where s: "maximum_function_stack m = Some s" "s = Inr () \<longleftrightarrow> (\<forall>f\<in>set (m_fdefs m).
      (\<Sum>t\<leftarrow>fd_locals f. type_bytes t) + (\<Sum>t\<leftarrow>ft_parameters (m_types m ! fd_type f). type_bytes t) \<le> 8192)"
    using function_stack_iff [OF d(1,2)] unfolding maximum_function_stack_def by blast
  obtain a where a: "ensure_apply_exported m = Some a" "a = Inr () \<longleftrightarrow> (\<exists>e\<in>set (m_exports m). ex_kind e = OK_function \<and> ex_name e = ''apply'' \<and>
        (\<exists>t. function_getType m (ex_index e) = Some t \<and> m_types m ! t = apply_type))"
    using ensure_apply_iff [OF assms] by blast
  have "module_validate m = Some (if memories_validation m \<noteq> Inr () then memories_validation m
      else if data_segments_validation m \<noteq> Inr () then data_segments_validation m
      else if tables_validation m \<noteq> Inr () then tables_validation m
      else if globals_validation m \<noteq> Inr () then globals_validation m
      else if s \<noteq> Inr () then s else a)"
    unfolding module_validate_def
    by (simp add: run_validators_Some run_validators_Cons [of maximum_function_stack m s, OF s(1)]
        run_validators_Cons [of ensure_apply_exported m a, OF a(1)] del: run_validators.simps(2))
  note v = this
  note iffs = memories_validation_iff [of m] data_segments_iff [OF d(3), folded data_segments_validation_def]
    tables_validation_iff [of m] globals_validation_iff [OF d(4)] s(2) a(2)
  show ?thesis unfolding within_limits_def
    by (rule exI, rule conjI, rule v) (simp only: first_failure, simp only: iffs conj_assoc)
qed

end
