(* ===== verification/WL_OpValidation.thy ===== *)
theory WL_OpValidation
  imports WL_Validation WL_Instr
begin

text \<open>
  The checks on the instructions of a module (\<open>op_constrainers\<close> and \<open>wasm_binary_validation\<close> in
  \<open>wasm_validation.hpp\<close>): unknown opcodes are blacklisted, the offsets of loads and stores are
  bounded and a counter of nested blocks is kept over all functions of the module.
\<close>

section \<open>The validators\<close>

text \<open>The static members of \<open>nested_validator\<close>.\<close>

record nested_state =
  nv_disabled :: bool
  nv_depth :: u16

definition nested_init :: "bool \<Rightarrow> nested_state" where
  "nested_init disable = \<lparr>nv_disabled = disable, nv_depth = 0\<rparr>"

definition nested_accept :: "instr \<Rightarrow> nested_state \<Rightarrow> nested_state result" where
  "nested_accept i s =
     (if \<not> nv_disabled s then
        if i_code i = 0x0B \<and> 0 < nv_depth s then Inr (s\<lparr>nv_depth := nv_depth s - 1\<rparr>)
        else let s = s\<lparr>nv_depth := nv_depth s + 1\<rparr>
             in bind_result (ftl_assert (nv_depth s < 1024) (wasm_runtime_exception ''Nested depth exceeded'')) (\<lambda>_. Inr s)
      else Inr s)"

fun large_offset_accept :: "instr \<Rightarrow> nested_state \<Rightarrow> nested_state result" where
  "large_offset_accept (Instr c (F_memarg a off)) s =
     (if maximum_linear_memory \<le> off
      then Inl (wasm_runtime_exception ''Smart contract used an invalid large memory store/load offset'')
      else Inr s)"
| "large_offset_accept (Instr c _) s = Inr s"

definition whitelist_accept :: "instr \<Rightarrow> nested_state \<Rightarrow> nested_state result" where
  "whitelist_accept i s = Inr s"

text \<open>Only the filler for unknown opcodes keeps the default validator; its name is \<open>error\<close>.\<close>

definition blacklist_accept :: "instr \<Rightarrow> nested_state \<Rightarrow> nested_state result" where
  "blacklist_accept i s = Inl (wasm_runtime_exception ''Error, blacklisted opcode $error '')"

text \<open>The validators of an opcode, in their order.\<close>

definition op_constrainers :: "u16 \<Rightarrow> (instr \<Rightarrow> nested_state \<Rightarrow> nested_state result) list" where
  "op_constrainers c =
     (if c \<in> {0x02, 0x03, 0x04, 0x05, 0x0B} then [whitelist_accept, nested_accept]
      else if 0x28 \<le> c \<and> c \<le> 0x3E then [large_offset_accept, whitelist_accept]
      else if op_kind c \<noteq> None then [whitelist_accept]
      else [blacklist_accept])"

fun visit_all :: "(instr \<Rightarrow> 's \<Rightarrow> 's result) list \<Rightarrow> instr \<Rightarrow> 's \<Rightarrow> 's result" where
  "visit_all [] i s = Inr s"
| "visit_all (v # vs) i s = bind_result (v i s) (visit_all vs i)"

section \<open>The pass over all functions\<close>

function validate_code :: "u8 list \<Rightarrow> nested_state \<Rightarrow> nested_state result" where
  "validate_code code s =
     (if code = [] then Inr s
      else case decodeOp code of
        Inl e \<Rightarrow> Inl e
      | Inr (op, rest) \<Rightarrow> bind_result (visit_all (op_constrainers (i_code op)) op s) (validate_code rest))"
  by pat_completeness auto
termination by (relation "measure (\<lambda>(code, s). length code)") (auto simp: decodeOp_shorter)

declare validate_code.simps [simp del]

fun validate_functions :: "function_def list \<Rightarrow> nested_state \<Rightarrow> nested_state result" where
  "validate_functions [] s = Inr s"
| "validate_functions (f # fs) s = bind_result (validate_code (fd_code f) s) (validate_functions fs)"

definition binary_validate :: "wasm_module \<Rightarrow> nested_state result option" where
  "binary_validate m =
     map_option (\<lambda>r. bind_result r (\<lambda>_. validate_functions (m_fdefs m) (nested_init False))) (module_validate m)"

section \<open>What passes\<close>

text \<open>The counter on numbers, the condition on a single instruction, and the depth the program text really has.\<close>

definition opens_block :: "instr \<Rightarrow> bool" where
  "opens_block i \<longleftrightarrow> i_code i \<in> {0x02, 0x03, 0x04}"

definition count_depth :: "nat \<Rightarrow> instr \<Rightarrow> nat" where
  "count_depth d i =
     (if i_code i = 0x0B then (if 0 < d then d - 1 else d + 1)
      else if opens_block i \<or> i_code i = 0x05 then d + 1 else d)"

fun allowed_instr :: "instr \<Rightarrow> bool" where
  "allowed_instr (Instr c (F_memarg a off)) \<longleftrightarrow> op_kind c \<noteq> None \<and> unat off < 33 * 1024 * 1024"
| "allowed_instr (Instr c _) \<longleftrightarrow> op_kind c \<noteq> None"

fun counts_ok :: "nat \<Rightarrow> instr list \<Rightarrow> bool" where
  "counts_ok d [] \<longleftrightarrow> True"
| "counts_ok d (i # is) \<longleftrightarrow> count_depth d i < 1024 \<and> counts_ok (count_depth d i) is"

definition nesting :: "instr list \<Rightarrow> int" where
  "nesting is = (\<Sum>i\<leftarrow>is. (if opens_block i then 1 else 0) - (if i_code i = 0x0B then 1 else 0))"

definition counting :: "nat \<Rightarrow> nested_state" where
  "counting d = \<lparr>nv_disabled = False, nv_depth = of_nat d\<rparr>"

lemma counting_init: "nested_init False = counting 0"
  by (simp add: nested_init_def counting_def)

lemma depth_word:
  assumes "d < 1024"
  shows "0 < (of_nat d :: u16) \<longleftrightarrow> 0 < d" and "(of_nat d :: u16) + 1 < 1024 \<longleftrightarrow> d + 1 < 1024"
    and "0 < d \<Longrightarrow> (of_nat d :: u16) - 1 = of_nat (d - 1)"
proof -
  have u: "unat (of_nat d :: u16) = d" using assms by (simp add: unat_of_nat)
  show "0 < (of_nat d :: u16) \<longleftrightarrow> 0 < d" using u by (metis unat_gt_0 word_neq_0_conv gr0I less_irrefl)
  have "unat (of_nat (d + 1) :: u16) = d + 1" using assms by (simp only: unat_of_nat) simp
  then have "unat ((of_nat d :: u16) + 1) = d + 1" by (simp only: of_nat_add of_nat_1)
  moreover have "unat (1024 :: u16) = 1024" by simp
  ultimately show "(of_nat d :: u16) + 1 < 1024 \<longleftrightarrow> d + 1 < 1024" by (simp only: word_less_nat_alt)
  show "0 < d \<Longrightarrow> (of_nat d :: u16) - 1 = of_nat (d - 1)" by (simp add: of_nat_diff)
qed

lemma nested_accept_counting:
  assumes "d < 1024"
  shows "nested_accept i (counting d) =
    (if i_code i = 0x0B \<and> 0 < d then Inr (counting (d - 1))
     else if d + 1 < 1024 then Inr (counting (d + 1)) else Inl (wasm_runtime_exception ''Nested depth exceeded''))"
  using depth_word [OF assms] by (simp add: nested_accept_def counting_def ftl_assert_def Let_def add.commute)

lemma large_offset_limit: "maximum_linear_memory \<le> off \<longleftrightarrow> \<not> unat off < 33 * 1024 * 1024"
  by (simp add: maximum_linear_memory_def word_le_nat_alt not_less)

lemma visit_counting:
  assumes "d < 1024" and "wf_instr op \<or> op = Instr 0xFF F_void"
  shows "visit_all (op_constrainers (i_code op)) op (counting d) = Inr s \<longleftrightarrow>
    allowed_instr op \<and> count_depth d op < 1024 \<and> s = counting (count_depth d op)"
proof -
  obtain c f where op: "op = Instr c f" by (cases op)
  consider "c \<in> {0x02, 0x03, 0x04, 0x05, 0x0B}" | "0x28 \<le> c \<and> c \<le> 0x3E" | "c \<notin> {0x02, 0x03, 0x04, 0x05, 0x0B}" "\<not> (0x28 \<le> c \<and> c \<le> 0x3E)" by blast
  then show ?thesis
  proof cases
    case 1
    then have k: "op_kind c \<noteq> None" "\<not> (0x28 \<le> c \<and> c \<le> 0x3E)" "op_kind c \<noteq> Some K_memarg" "c \<noteq> 0xFF" by (auto simp: op_kind_def)
    then have f: "allowed_instr op" using assms(2) op by (cases f) (auto simp: wf_instr_def)
    show ?thesis using 1 k f assms(1) op
      by (auto simp: op_constrainers_def whitelist_accept_def nested_accept_counting count_depth_def opens_block_def)
  next
    case 2
    then have k: "op_kind c = Some K_memarg" "c \<notin> {0x02, 0x03, 0x04, 0x05, 0x0B}"
      by (auto simp: op_kind_def word_le_nat_alt)
    then obtain a off where f: "f = F_memarg a off" using assms(2) op 2 by (cases f) (auto simp: wf_instr_def word_le_nat_alt)
    show ?thesis using 2 k f assms(1) op
      by (auto simp: op_constrainers_def whitelist_accept_def count_depth_def opens_block_def large_offset_limit)
  next
    case 3
    then have "op_kind c \<noteq> Some K_memarg" by (auto simp: op_kind_def)
    then have f: "allowed_instr op \<longleftrightarrow> op_kind c \<noteq> None" using assms(2) op by (cases f) (auto simp: wf_instr_def)
    show ?thesis using 3 f assms(1) op
      by (auto simp: op_constrainers_def whitelist_accept_def blacklist_accept_def count_depth_def opens_block_def)
  qed
qed

lemma decodeOp_wf: "decodeOp bs = Inr (i, rest) \<Longrightarrow> wf_instr i \<or> i = Instr 0xFF F_void"
  using decodeOp_bytes by blast

lemma bind_result_assoc: "bind_result (bind_result r f) g = bind_result r (\<lambda>x. bind_result (f x) g)"
  by (cases r) simp_all

fun final_depth :: "nat \<Rightarrow> instr list \<Rightarrow> nat" where
  "final_depth d [] = d"
| "final_depth d (i # is) = final_depth (count_depth d i) is"

lemma validate_code_Inr_iff:
  "d < 1024 \<Longrightarrow> validate_code code (counting d) = Inr s \<longleftrightarrow>
     (\<exists>is. decode_all code = Inr is \<and> list_all allowed_instr is \<and> counts_ok d is \<and> s = counting (final_depth d is))"
proof (induction code arbitrary: d rule: decode_all.induct)
  case (1 code)
  show ?case
  proof (cases "code = []")
    case True
    then show ?thesis by (auto simp: validate_code.simps decode_all.simps)
  next
    case False
    show ?thesis
    proof (cases "decodeOp code")
      case (Inl e)
      then show ?thesis using False by (simp add: validate_code.simps decode_all.simps)
    next
      case (Inr r)
      obtain op rest where r: "decodeOp code = Inr (op, rest)" using Inr by (cases r) auto
      note v = visit_counting [OF "1.prems" decodeOp_wf [OF r]]
      have "validate_code code (counting d) = Inr s \<longleftrightarrow>
          allowed_instr op \<and> count_depth d op < 1024 \<and> validate_code rest (counting (count_depth d op)) = Inr s"
        using False r v by (subst validate_code.simps) auto
      also have "\<dots> \<longleftrightarrow> allowed_instr op \<and> count_depth d op < 1024 \<and>
          (\<exists>js. decode_all rest = Inr js \<and> list_all allowed_instr js \<and> counts_ok (count_depth d op) js \<and>
             s = counting (final_depth (count_depth d op) js))"
        using "1.IH" [OF False r refl] by blast
      also have "\<dots> \<longleftrightarrow> (\<exists>is. decode_all code = Inr is \<and> list_all allowed_instr is \<and> counts_ok d is \<and> s = counting (final_depth d is))"
        using False r by (subst decode_all.simps) auto
      finally show ?thesis .
    qed
  qed
qed

lemma final_depth_less: "counts_ok d is \<Longrightarrow> d < 1024 \<Longrightarrow> final_depth d is < 1024"
  by (induction "is" arbitrary: d) auto

lemma counts_ok_append [simp]: "counts_ok d (is @ js) \<longleftrightarrow> counts_ok d is \<and> counts_ok (final_depth d is) js"
  by (induction "is" arbitrary: d) auto

lemma final_depth_append [simp]: "final_depth d (is @ js) = final_depth (final_depth d is) js"
  by (induction "is" arbitrary: d) auto

text \<open>The counter runs over the instructions of all functions, in their order.\<close>

lemma validate_functions_Inr_iff:
  "d < 1024 \<Longrightarrow> (\<exists>s. validate_functions fs (counting d) = Inr s) \<longleftrightarrow>
     (\<exists>iss. map (\<lambda>f. decode_all (fd_code f)) fs = map Inr iss \<and> (\<forall>is\<in>set iss. list_all allowed_instr is) \<and> counts_ok d (concat iss))"
proof (induction fs arbitrary: d)
  case Nil
  then show ?case by simp
next
  case (Cons f fs)
  have "(\<exists>s. validate_functions (f # fs) (counting d) = Inr s) \<longleftrightarrow>
      (\<exists>is. decode_all (fd_code f) = Inr is \<and> list_all allowed_instr is \<and> counts_ok d is \<and>
        (\<exists>s. validate_functions fs (counting (final_depth d is)) = Inr s))"
    using validate_code_Inr_iff [OF Cons.prems, of "fd_code f"] by auto
  also have "\<dots> \<longleftrightarrow> (\<exists>is. decode_all (fd_code f) = Inr is \<and> list_all allowed_instr is \<and> counts_ok d is \<and>
      (\<exists>iss. map (\<lambda>f. decode_all (fd_code f)) fs = map Inr iss \<and> (\<forall>is\<in>set iss. list_all allowed_instr is) \<and> counts_ok (final_depth d is) (concat iss)))"
    using Cons.IH final_depth_less [OF _ Cons.prems] by (intro ex_cong1) blast
  also have "\<dots> \<longleftrightarrow> (\<exists>iss. map (\<lambda>f. decode_all (fd_code f)) (f # fs) = map Inr iss \<and> (\<forall>is\<in>set iss. list_all allowed_instr is) \<and> counts_ok d (concat iss))"
    (is "?L \<longleftrightarrow> ?R")
  proof
    assume ?L
    then obtain "is" iss where "decode_all (fd_code f) = Inr is" "list_all allowed_instr is" "counts_ok d is"
        "map (\<lambda>f. decode_all (fd_code f)) fs = map Inr iss" "\<forall>is\<in>set iss. list_all allowed_instr is" "counts_ok (final_depth d is) (concat iss)" by blast
    then show ?R by (intro exI [of _ "is # iss"]) simp
  next
    assume ?R
    then obtain iss where "map (\<lambda>f. decode_all (fd_code f)) (f # fs) = map Inr iss" "\<forall>is\<in>set iss. list_all allowed_instr is" "counts_ok d (concat iss)" by blast
    then show ?L by (cases iss) auto
  qed
  finally show ?case .
qed

text \<open>The real nesting never exceeds the counter.\<close>

lemma nesting_Nil [simp]: "nesting [] = 0"
  by (simp add: nesting_def)

lemma nesting_Cons [simp]: "nesting (i # is) = (if opens_block i then 1 else 0) - (if i_code i = 0x0B then 1 else 0) + nesting is"
  by (simp add: nesting_def)

lemma nesting_append [simp]: "nesting (is @ js) = nesting is + nesting js"
  by (simp add: nesting_def)

lemma nesting_le_count: "int d + nesting is \<le> int (final_depth d is)"
proof (induction "is" arbitrary: d)
  case (Cons i "is")
  have "int d + ((if opens_block i then 1 else 0) - (if i_code i = 0x0B then 1 else 0)) \<le> int (count_depth d i)"
    by (auto simp: count_depth_def opens_block_def)
  then show ?case using Cons.IH [of "count_depth d i"] by simp
qed simp

lemma counts_ok_nesting: "counts_ok d (is @ js) \<Longrightarrow> d < 1024 \<Longrightarrow> nesting is < 1024"
  using nesting_le_count [of d "is"] final_depth_less [of d "is"] by simp

text \<open>Every \<open>else\<close> stays counted for good.\<close>

definition if_else_end :: "instr list" where
  "if_else_end = [Instr 0x04 (F_block 0x40), Instr 0x05 F_void, Instr 0x0B F_void]"

lemma if_else_end_count: "final_depth d if_else_end = d + 1" "counts_ok d if_else_end \<longleftrightarrow> d + 2 < 1024"
  by (auto simp: if_else_end_def count_depth_def opens_block_def)

lemma repeated_if_else:
  "final_depth d (concat (replicate n if_else_end)) = d + n"
  "counts_ok d (concat (replicate n if_else_end)) \<longleftrightarrow> n = 0 \<or> d + n + 1 < 1024"
proof -
  have "final_depth d (concat (replicate n if_else_end)) = d + n \<and> (counts_ok d (concat (replicate n if_else_end)) \<longleftrightarrow> n = 0 \<or> d + n + 1 < 1024)"
  proof (induction n arbitrary: d)
    case (Suc n)
    show ?case using Suc.IH [of "d + 1"] by (auto simp: if_else_end_count)
  qed simp
  then show "final_depth d (concat (replicate n if_else_end)) = d + n"
    "counts_ok d (concat (replicate n if_else_end)) \<longleftrightarrow> n = 0 \<or> d + n + 1 < 1024" by blast+
qed

lemma repeated_if_else_nesting: "nesting (take k (concat (replicate n if_else_end))) \<le> 1"
proof (induction n arbitrary: k)
  case (Suc n)
  have "k = 0 \<or> k = 1 \<or> k = 2 \<or> 3 \<le> k" by linarith
  then have "nesting (take k if_else_end) \<le> 1" by (elim disjE) (simp_all add: if_else_end_def opens_block_def)
  moreover have "3 \<le> k \<Longrightarrow> nesting (take k if_else_end) = 0" by (simp add: if_else_end_def opens_block_def)
  moreover have "length if_else_end = 3" by (simp add: if_else_end_def)
  ultimately show ?case using Suc.IH [of "k - 3"] by (cases "3 \<le> k") simp_all
qed simp

end
