(* ===== verification/WL_Injection.thy ===== *)
theory WL_Injection
  imports WL_Gas WL_OpValidation
begin

text \<open>
  Code injection (\<open>wasm_injection.hpp\<close>, \<open>wasm_injection.cpp\<close>): imports that the module did not have are
  put in front of its imports, calls of \<open>use_gas\<close> are inserted, floating-point instructions are replaced
  by calls of the software floating point, and finally every call is renumbered.
\<close>

section \<open>The tables of the injectors\<close>

text \<open>\<open>std::map\<close> as an association list: \<open>emplace\<close> keeps what is there, \<open>find\<close> is \<open>map_of\<close>, the size is the length.\<close>

definition emplace :: "'k \<Rightarrow> 'v \<Rightarrow> ('k \<times> 'v) list \<Rightarrow> ('k \<times> 'v) list" where
  "emplace k v xs = (if map_of xs k = None then (k, v) # xs else xs)"

record injector =
  type_slots :: "(u16 list \<times> u32) list"
  registered_injected :: "(string \<times> u32) list"
  injected_index_mapping :: "(u32 \<times> u32) list"
  next_injected_index :: u32

definition type_slot :: "function_type \<Rightarrow> u16 list" where
  "type_slot t = result_type_code (ft_ret t) # map value_type_code (ft_parameters t)"

fun build_type_slots :: "function_type list \<Rightarrow> nat \<Rightarrow> (u16 list \<times> u32) list \<Rightarrow> (u16 list \<times> u32) list" where
  "build_type_slots [] i slots = slots"
| "build_type_slots (t # ts) i slots = build_type_slots ts (i + 1) (emplace (type_slot t) (of_nat i) slots)"

definition injector_init :: "wasm_module \<Rightarrow> injector" where
  "injector_init m =
     \<lparr>type_slots = build_type_slots (m_types m) 0 [], registered_injected = [], injected_index_mapping = [], next_injected_index = 0\<rparr>"

definition add_type_slot :: "function_type \<Rightarrow> wasm_module \<times> injector \<Rightarrow> wasm_module \<times> injector" where
  "add_type_slot t = (\<lambda>(m, ij).
     if map_of (type_slots ij) (type_slot t) = None
     then (m\<lparr>m_types := m_types m @ [t]\<rparr>, ij\<lparr>type_slots := emplace (type_slot t) (of_nat (length (m_types m))) (type_slots ij)\<rparr>)
     else (m, ij))"

text \<open>The number under which the new function is called until the calls are renumbered, and its real number.\<close>

definition get_next_indices :: "wasm_module \<times> injector \<Rightarrow> u32 \<times> u32 \<times> injector" where
  "get_next_indices = (\<lambda>(m, ij).
     (of_nat (length (m_fimports m) + length (m_fdefs m) + length (registered_injected ij)),
      next_injected_index ij, ij\<lparr>next_injected_index := next_injected_index ij + 1\<rparr>))"

definition shift_export :: "export \<Rightarrow> export" where
  "shift_export e = (if ex_kind e = OK_function then e\<lparr>ex_index := ex_index e + 1\<rparr> else e)"

definition insert_at :: "nat \<Rightarrow> 'a \<Rightarrow> 'a list \<Rightarrow> 'a list" where
  "insert_at i x xs = take i xs @ x # drop i xs"

definition add_import :: "function_type \<Rightarrow> string \<Rightarrow> wasm_module \<times> injector \<Rightarrow> u32 \<times> wasm_module \<times> injector" where
  "add_import t func_name = (\<lambda>(m, ij).
     if m_fimports m = [] \<or> map_of (registered_injected ij) func_name = None then
       let (m, ij) = add_type_slot t (m, ij);
           func_type_index = (case map_of (type_slots ij) (type_slot t) of Some i \<Rightarrow> i | None \<Rightarrow> 0);
           (index, actual_index, ij) = get_next_indices (m, ij);
           ij = ij\<lparr>registered_injected := emplace func_name index (registered_injected ij)\<rparr>;
           new_import = \<lparr>fi_type = unat func_type_index, fi_module = ''eosio_injection'', fi_name = func_name\<rparr>;
           m = m\<lparr>m_fimports := insert_at (length (registered_injected ij) - 1) new_import (m_fimports m)\<rparr>;
           ij = ij\<lparr>injected_index_mapping := emplace index actual_index (injected_index_mapping ij)\<rparr>;
           m = m\<lparr>m_exports := map shift_export (m_exports m)\<rparr>;
           m = (if m_start m \<noteq> - 1 then m\<lparr>m_start := m_start m + 1\<rparr> else m);
           m = m\<lparr>m_table_segments := map (map Suc) (m_table_segments m)\<rparr>
       in (index, m, ij)
     else (the (map_of (registered_injected ij) func_name), m, ij))"

definition max_memory_inject :: "wasm_module \<Rightarrow> wasm_module" where
  "max_memory_inject m =
     (case m_memories m of
        [] \<Rightarrow> m
      | s # ss \<Rightarrow> if ucast (maximum_linear_memory div wasm_page_size) < size_max s
                  then m\<lparr>m_memories := s\<lparr>size_max := ucast (maximum_linear_memory div wasm_page_size)\<rparr> # ss\<rparr> else m)"

section \<open>Floating-point instructions\<close>

text \<open>\<open>inject_which_op\<close>; \<open>None\<close> where it throws.\<close>

definition inject_which_op :: "u16 \<Rightarrow> string option" where
  "inject_which_op = map_of
     [(0x92, ''_eosio_f32_add''), (0x93, ''_eosio_f32_sub''), (0x94, ''_eosio_f32_mul''), (0x95, ''_eosio_f32_div''),
      (0x96, ''_eosio_f32_min''), (0x97, ''_eosio_f32_max''), (0x98, ''_eosio_f32_copysign''), (0x8B, ''_eosio_f32_abs''),
      (0x8C, ''_eosio_f32_neg''), (0x91, ''_eosio_f32_sqrt''), (0x8D, ''_eosio_f32_ceil''), (0x8E, ''_eosio_f32_floor''),
      (0x8F, ''_eosio_f32_trunc''), (0x90, ''_eosio_f32_nearest''), (0x5B, ''_eosio_f32_eq''), (0x5C, ''_eosio_f32_ne''),
      (0x5D, ''_eosio_f32_lt''), (0x5F, ''_eosio_f32_le''), (0x5E, ''_eosio_f32_gt''), (0x60, ''_eosio_f32_ge''),
      (0xA0, ''_eosio_f64_add''), (0xA1, ''_eosio_f64_sub''), (0xA2, ''_eosio_f64_mul''), (0xA3, ''_eosio_f64_div''),
      (0xA4, ''_eosio_f64_min''), (0xA5, ''_eosio_f64_max''), (0xA6, ''_eosio_f64_copysign''), (0x99, ''_eosio_f64_abs''),
      (0x9A, ''_eosio_f64_neg''), (0x9F, ''_eosio_f64_sqrt''), (0x9B, ''_eosio_f64_ceil''), (0x9C, ''_eosio_f64_floor''),
      (0x9D, ''_eosio_f64_trunc''), (0x9E, ''_eosio_f64_nearest''), (0x61, ''_eosio_f64_eq''), (0x62, ''_eosio_f64_ne''),
      (0x63, ''_eosio_f64_lt''), (0x65, ''_eosio_f64_le''), (0x64, ''_eosio_f64_gt''), (0x66, ''_eosio_f64_ge''),
      (0xBB, ''_eosio_f32_promote''), (0xB6, ''_eosio_f64_demote''),
      (0xA9, ''_eosio_f32_trunc_i32u''), (0xA8, ''_eosio_f32_trunc_i32s''), (0xAB, ''_eosio_f64_trunc_i32u''),
      (0xAA, ''_eosio_f64_trunc_i32s''), (0xAF, ''_eosio_f32_trunc_i64u''), (0xAE, ''_eosio_f32_trunc_i64s''),
      (0xB1, ''_eosio_f64_trunc_i64u''), (0xB0, ''_eosio_f64_trunc_i64s''),
      (0xB2, ''_eosio_i32_to_f32''), (0xB3, ''_eosio_ui32_to_f32''), (0xB4, ''_eosio_i64_f32''), (0xB5, ''_eosio_ui64_to_f32''),
      (0xB7, ''_eosio_i32_to_f64''), (0xB8, ''_eosio_ui32_to_f64''), (0xB9, ''_eosio_i64_to_f64''), (0xBA, ''_eosio_ui64_to_f64'')]"

text \<open>
  The injectors, each by the type of the function it imports; all of them drop the instruction.
\<close>

definition f32_binop_injector :: function_type where "f32_binop_injector = \<lparr>ft_ret = RT_f32, ft_parameters = [VT_f32, VT_f32]\<rparr>"
definition f32_unop_injector :: function_type where "f32_unop_injector = \<lparr>ft_ret = RT_f32, ft_parameters = [VT_f32]\<rparr>"
definition f32_relop_injector :: function_type where "f32_relop_injector = \<lparr>ft_ret = RT_i32, ft_parameters = [VT_f32, VT_f32]\<rparr>"
definition f64_binop_injector :: function_type where "f64_binop_injector = \<lparr>ft_ret = RT_f64, ft_parameters = [VT_f64, VT_f64]\<rparr>"
definition f64_unop_injector :: function_type where "f64_unop_injector = \<lparr>ft_ret = RT_f64, ft_parameters = [VT_f64]\<rparr>"
definition f64_relop_injector :: function_type where "f64_relop_injector = \<lparr>ft_ret = RT_i32, ft_parameters = [VT_f64, VT_f64]\<rparr>"
definition f32_trunc_i32_injector :: function_type where "f32_trunc_i32_injector = \<lparr>ft_ret = RT_i32, ft_parameters = [VT_f32]\<rparr>"
definition f32_trunc_i64_injector :: function_type where "f32_trunc_i64_injector = \<lparr>ft_ret = RT_i64, ft_parameters = [VT_f32]\<rparr>"
definition f64_trunc_i32_injector :: function_type where "f64_trunc_i32_injector = \<lparr>ft_ret = RT_i32, ft_parameters = [VT_f64]\<rparr>"
definition f64_trunc_i64_injector :: function_type where "f64_trunc_i64_injector = \<lparr>ft_ret = RT_i64, ft_parameters = [VT_f64]\<rparr>"
definition i32_convert_f32_injector :: function_type where "i32_convert_f32_injector = \<lparr>ft_ret = RT_f32, ft_parameters = [VT_i32]\<rparr>"
definition i64_convert_f32_injector :: function_type where "i64_convert_f32_injector = \<lparr>ft_ret = RT_f32, ft_parameters = [VT_i64]\<rparr>"
definition i32_convert_f64_injector :: function_type where "i32_convert_f64_injector = \<lparr>ft_ret = RT_f64, ft_parameters = [VT_i32]\<rparr>"
definition i64_convert_f64_injector :: function_type where "i64_convert_f64_injector = \<lparr>ft_ret = RT_f64, ft_parameters = [VT_i64]\<rparr>"
definition f32_promote_injector :: function_type where "f32_promote_injector = \<lparr>ft_ret = RT_f64, ft_parameters = [VT_f32]\<rparr>"
definition f64_demote_injector :: function_type where "f64_demote_injector = \<lparr>ft_ret = RT_f32, ft_parameters = [VT_f64]\<rparr>"

text \<open>
  The opcodes whose type \<open>pre_op_injectors\<close> redefines, in its order. The conversions from integers are
  not among them: their aliases lack the suffix of the names that the decoder looks up.
\<close>

definition pre_op_injectors :: "(u16 \<times> function_type) list" where
  "pre_op_injectors =
     [(0x92, f32_binop_injector), (0x93, f32_binop_injector), (0x95, f32_binop_injector), (0x94, f32_binop_injector),
      (0x96, f32_binop_injector), (0x97, f32_binop_injector), (0x98, f32_binop_injector), (0x8B, f32_unop_injector),
      (0x8C, f32_unop_injector), (0x91, f32_unop_injector), (0x8E, f32_unop_injector), (0x8D, f32_unop_injector),
      (0x8F, f32_unop_injector), (0x90, f32_unop_injector), (0x5B, f32_relop_injector), (0x5C, f32_relop_injector),
      (0x5D, f32_relop_injector), (0x5F, f32_relop_injector), (0x5E, f32_relop_injector), (0x60, f32_relop_injector),
      (0xA0, f64_binop_injector), (0xA1, f64_binop_injector), (0xA3, f64_binop_injector), (0xA2, f64_binop_injector),
      (0xA4, f64_binop_injector), (0xA5, f64_binop_injector), (0xA6, f64_binop_injector), (0x99, f64_unop_injector),
      (0x9A, f64_unop_injector), (0x9F, f64_unop_injector), (0x9C, f64_unop_injector), (0x9B, f64_unop_injector),
      (0x9D, f64_unop_injector), (0x9E, f64_unop_injector), (0x61, f64_relop_injector), (0x62, f64_relop_injector),
      (0x63, f64_relop_injector), (0x65, f64_relop_injector), (0x64, f64_relop_injector), (0x66, f64_relop_injector),
      (0xBB, f32_promote_injector), (0xB6, f64_demote_injector), (0xA8, f32_trunc_i32_injector), (0xA9, f32_trunc_i32_injector),
      (0xAA, f64_trunc_i32_injector), (0xAB, f64_trunc_i32_injector), (0xAE, f32_trunc_i64_injector), (0xAF, f32_trunc_i64_injector),
      (0xB0, f64_trunc_i64_injector), (0xB1, f64_trunc_i64_injector)]"

definition pre_op_signature :: "u16 \<Rightarrow> function_type option" where
  "pre_op_signature = map_of pre_op_injectors"

section \<open>The passes\<close>

type_synonym pass_state = "(wasm_module \<times> injector) \<times> instruction_stream"

text \<open>An injector writes the call and the instruction itself is dropped; every other instruction is copied.\<close>

definition pre_visit :: "instr \<Rightarrow> pass_state \<Rightarrow> pass_state option" where
  "pre_visit op = (\<lambda>(mi, out).
     case pre_op_signature (i_code op) of
       None \<Rightarrow> map_option (\<lambda>out. (mi, out)) (pack op out)
     | Some t \<Rightarrow> Option.bind (inject_which_op (i_code op)) (\<lambda>func_name.
         let (idx, mi) = add_import t func_name mi in map_option (\<lambda>out. (mi, out)) (pack (call_instr idx) out)))"

fun fix_call_index :: "injector \<Rightarrow> instr \<Rightarrow> instr" where
  "fix_call_index ij (Instr c (F_u32 field)) =
     (if c = 0x10
      then call_instr (case map_of (injected_index_mapping ij) field of Some i \<Rightarrow> i | None \<Rightarrow> field + of_nat (length (registered_injected ij)))
      else Instr c (F_u32 field))"
| "fix_call_index ij (Instr c f) = Instr c f"

definition post_visit :: "instr \<Rightarrow> pass_state \<Rightarrow> pass_state option" where
  "post_visit op = (\<lambda>((m, ij), out). map_option (\<lambda>out. ((m, ij), out)) (pack (fix_call_index ij op) out))"

function visit_code :: "(instr \<Rightarrow> pass_state \<Rightarrow> pass_state option) \<Rightarrow> u8 list \<Rightarrow> pass_state \<Rightarrow> pass_state result option" where
  "visit_code v code s =
     (if code = [] then Some (Inr s)
      else case decodeOp code of
        Inl e \<Rightarrow> Some (Inl e)
      | Inr (op, rest) \<Rightarrow> (case v op s of None \<Rightarrow> None | Some s \<Rightarrow> visit_code v rest s))"
  by pat_completeness auto
termination by (relation "measure (\<lambda>(v, code, s). length code)") (auto simp: decodeOp_shorter)

declare visit_code.simps [simp del]

text \<open>Sequencing of steps that may be undefined or throw.\<close>

definition bind_step :: "'a result option \<Rightarrow> ('a \<Rightarrow> 'b result option) \<Rightarrow> 'b result option" where
  "bind_step r f = (case r of None \<Rightarrow> None | Some (Inl e) \<Rightarrow> Some (Inl e) | Some (Inr x) \<Rightarrow> f x)"

text \<open>
  The passes run over the function definitions in place; imports and tables change meanwhile, but not
  the number of definitions, which is all that the injectors read of them.
\<close>

fun visit_functions ::
    "(instr \<Rightarrow> pass_state \<Rightarrow> pass_state option) \<Rightarrow> function_def list \<Rightarrow> wasm_module \<times> injector \<Rightarrow>
       (function_def list \<times> wasm_module \<times> injector) result option" where
  "visit_functions v [] mi = Some (Inr ([], mi))"
| "visit_functions v (fd # fds) mi =
     bind_step (visit_code v (fd_code fd) (mi, stream_new (length (fd_code fd) * 2))) (\<lambda>(mi, out).
     bind_step (visit_functions v fds mi) (\<lambda>(fds, mi). Some (Inr (fd\<lparr>fd_code := stream_get out\<rparr> # fds, mi))))"

fun usegas_functions :: "u32 \<Rightarrow> function_def list \<Rightarrow> function_def list result option" where
  "usegas_functions idx [] = Some (Inr [])"
| "usegas_functions idx (fd # fds) =
     bind_step (usegas_code idx (fd_code fd)) (\<lambda>code.
     bind_step (usegas_functions idx fds) (\<lambda>fds. Some (Inr (fd\<lparr>fd_code := code\<rparr> # fds))))"

definition use_gas_type :: function_type where
  "use_gas_type = \<lparr>ft_ret = RT_none, ft_parameters = [VT_i64]\<rparr>"

definition binary_inject :: "wasm_module \<Rightarrow> (wasm_module \<times> injector) result option" where
  "binary_inject m =
     (let ij = injector_init m;
          m = max_memory_inject m;
          (use_gas_idx, m, ij) = add_import use_gas_type ''use_gas'' (m, ij)
      in bind_step (usegas_functions use_gas_idx (m_fdefs m)) (\<lambda>fds.
         bind_step (visit_functions pre_visit fds (m\<lparr>m_fdefs := fds\<rparr>, ij)) (\<lambda>(fds, m, ij).
         bind_step (visit_functions post_visit fds (m\<lparr>m_fdefs := fds\<rparr>, ij)) (\<lambda>(fds, m, ij).
           Some (Inr (m\<lparr>m_fdefs := fds\<rparr>, ij))))))"

end
