(* ===== verification/WL_Link.thy ===== *)
theory WL_Link
  imports WL_Injection
begin

text \<open>
  What the code injection produces: a module in which every reference to a function of the original
  module, and every inserted call, means the function it should mean.
\<close>

section \<open>Maps\<close>

lemma emplace_new: "map_of xs k = None \<Longrightarrow> emplace k v xs = (k, v) # xs"
  by (simp add: emplace_def)

lemma map_of_emplace: "map_of (emplace k v xs) = (if map_of xs k = None then (map_of xs)(k \<mapsto> v) else map_of xs)"
  by (auto simp: emplace_def)

section \<open>Type slots\<close>

lemma value_type_code_inj: "value_type_code s = value_type_code t \<longleftrightarrow> s = t"
  by (cases s; cases t) simp_all

lemma result_type_code_inj: "result_type_code s = result_type_code t \<longleftrightarrow> s = t"
  by (cases s; cases t) simp_all

lemma type_slot_inj: "type_slot s = type_slot t \<longleftrightarrow> s = t"
proof
  assume e: "type_slot s = type_slot t"
  then have "ft_ret s = ft_ret t" by (simp add: type_slot_def result_type_code_inj)
  moreover have "inj value_type_code" by (rule injI) (simp add: value_type_code_inj)
  then have "ft_parameters s = ft_parameters t" using e by (simp add: type_slot_def inj_map_eq_map)
  ultimately show "s = t" by simp
qed simp

text \<open>Every slot names a type with that key, and every type has a slot.\<close>

definition slots_ok :: "function_type list \<Rightarrow> (u16 list \<times> u32) list \<Rightarrow> bool" where
  "slots_ok ts slots \<longleftrightarrow>
     (\<forall>k i. map_of slots k = Some i \<longrightarrow> unat i < length ts \<and> type_slot (ts ! unat i) = k) \<and>
     (\<forall>t\<in>set ts. map_of slots (type_slot t) \<noteq> None)"

lemma unat_of_nat32: "n < 2 ^ 32 \<Longrightarrow> unat (of_nat n :: u32) = n"
  by (simp add: unat_of_nat)

lemma slots_ok_emplace:
  assumes "slots_ok ts slots" and "length ts < 2 ^ 32"
  shows "slots_ok (ts @ [t]) (emplace (type_slot t) (of_nat (length ts)) slots)"
  using assms unat_of_nat32 [OF assms(2)]
  by (fastforce simp: slots_ok_def map_of_emplace nth_append split: if_splits)

lemma build_type_slots_ok:
  "slots_ok pre slots \<Longrightarrow> length pre + length ts < 2 ^ 32 \<Longrightarrow> slots_ok (pre @ ts) (build_type_slots ts (length pre) slots)"
proof (induction ts arbitrary: pre slots)
  case (Cons t ts)
  have "slots_ok (pre @ [t]) (emplace (type_slot t) (of_nat (length pre)) slots)"
    using Cons.prems by (intro slots_ok_emplace) simp_all
  from Cons.IH [OF this] show ?case using Cons.prems by simp
qed simp

lemma add_type_slot_ok:
  assumes "slots_ok (m_types m) (type_slots ij)" and "length (m_types m) < 2 ^ 32"
  shows "\<exists>ts slots i. add_type_slot t (m, ij) = (m\<lparr>m_types := m_types m @ ts\<rparr>, ij\<lparr>type_slots := slots\<rparr>) \<and>
    slots_ok (m_types m @ ts) slots \<and> length ts \<le> 1 \<and> map_of slots (type_slot t) = Some i \<and>
    unat i < length (m_types m @ ts) \<and> (m_types m @ ts) ! unat i = t"
proof -
  obtain ts slots where r: "add_type_slot t (m, ij) = (m\<lparr>m_types := m_types m @ ts\<rparr>, ij\<lparr>type_slots := slots\<rparr>)"
      "slots_ok (m_types m @ ts) slots" "length ts \<le> 1" "map_of slots (type_slot t) \<noteq> None"
  proof (cases "map_of (type_slots ij) (type_slot t)")
    case None
    have "slots_ok (m_types m @ [t]) (emplace (type_slot t) (of_nat (length (m_types m))) (type_slots ij))"
      by (rule slots_ok_emplace [OF assms])
    then show ?thesis using that [of "[t]" "emplace (type_slot t) (of_nat (length (m_types m))) (type_slots ij)"] None
      by (simp add: add_type_slot_def map_of_emplace)
  next
    case (Some i)
    then show ?thesis using that [of "[]" "type_slots ij"] assms(1) by (simp add: add_type_slot_def)
  qed
  then obtain i where "map_of slots (type_slot t) = Some i" by auto
  moreover from this r(2) have "unat i < length (m_types m @ ts)" "type_slot ((m_types m @ ts) ! unat i) = type_slot t"
    by (auto simp: slots_ok_def)
  ultimately show ?thesis using r by (auto simp: type_slot_inj)
qed

section \<open>The state of the injector\<close>

text \<open>The \<open>k\<close>-th injected function is called by this number before the calls are renumbered.\<close>

definition call_key :: "wasm_module \<Rightarrow> nat \<Rightarrow> u32" where
  "call_key m k = of_nat (length (m_fimports m) + length (m_fdefs m) + 2 * k)"

definition shift_exports :: "nat \<Rightarrow> export list \<Rightarrow> export list" where
  "shift_exports r = map (\<lambda>e. if ex_kind e = OK_function then e\<lparr>ex_index := ex_index e + r\<rparr> else e)"

definition shift_start :: "nat \<Rightarrow> u64 \<Rightarrow> u64" where
  "shift_start r s = (if s = - 1 then s else s + of_nat r)"

text \<open>The imports for the names and types of \<open>N\<close>.\<close>

definition imports_for :: "function_type list \<Rightarrow> (string \<times> function_type) list \<Rightarrow> function_import list \<Rightarrow> bool" where
  "imports_for types N imps \<longleftrightarrow>
     list_all2 (\<lambda>(name, t) i. fi_module i = ''eosio_injection'' \<and> fi_name i = name \<and> fi_type i < length types \<and> types ! fi_type i = t) N imps"

text \<open>
  After the functions \<open>N\<close> have been injected into the module \<open>m0\<close>: everything but the code of the functions.
\<close>

definition injected :: "wasm_module \<Rightarrow> (string \<times> function_type) list \<Rightarrow> wasm_module \<Rightarrow> bool" where
  "injected m0 N m \<longleftrightarrow>
     (\<exists>ts. m_types m = m_types m0 @ ts \<and> length ts \<le> length N) \<and>
     (\<exists>imps. m_fimports m = imps @ m_fimports m0 \<and> imports_for (m_types m) N imps) \<and>
     length (m_fdefs m) = length (m_fdefs m0) \<and>
     m_tables m = m_tables m0 \<and> m_memories m = m_memories m0 \<and> m_globals m = m_globals m0 \<and> m_data m = m_data m0 \<and>
     m_exports m = shift_exports (length N) (m_exports m0) \<and>
     m_start m = shift_start (length N) (m_start m0) \<and>
     m_table_segments m = map (map (\<lambda>i. i + length N)) (m_table_segments m0)"

definition tables_ok :: "wasm_module \<Rightarrow> (string \<times> function_type) list \<Rightarrow> function_type list \<Rightarrow> injector \<Rightarrow> bool" where
  "tables_ok m0 N types ij \<longleftrightarrow>
     slots_ok types (type_slots ij) \<and>
     registered_injected ij = rev (zip (map fst N) (map (call_key m0) [0..<length N])) \<and>
     injected_index_mapping ij = rev (map (\<lambda>k. (call_key m0 k, of_nat k)) [0..<length N]) \<and>
     next_injected_index ij = of_nat (length N)"

definition inj_state :: "wasm_module \<Rightarrow> (string \<times> function_type) list \<Rightarrow> wasm_module \<times> injector \<Rightarrow> bool" where
  "inj_state m0 N mi \<longleftrightarrow> distinct (map fst N) \<and> injected m0 N (fst mi) \<and> tables_ok m0 N (m_types (fst mi)) (snd mi)"

text \<open>Modules whose counts leave room for the injected functions in the 32-bit numbers.\<close>

definition small_module :: "wasm_module \<Rightarrow> bool" where
  "small_module m \<longleftrightarrow> length (m_types m) < 2 ^ 30 \<and> length (m_fimports m) + length (m_fdefs m) < 2 ^ 30 \<and>
     (m_start m = - 1 \<or> unat (m_start m) < 2 ^ 30)"

lemma call_key_inj:
  assumes "small_module m" and "j < 2 ^ 29" and "k < 2 ^ 29"
  shows "call_key m j = call_key m k \<longleftrightarrow> j = k"
proof -
  define c where "c = length (m_fimports m) + length (m_fdefs m)"
  have c: "c < 2 ^ 30" using assms(1) by (simp add: small_module_def c_def)
  have u: "unat (call_key m i) = c + 2 * i" if "i < 2 ^ 29" for i
    unfolding call_key_def c_def [symmetric] by (rule unat_of_nat32) (use c that in simp)
  show ?thesis using u [OF assms(2)] u [OF assms(3)] by (metis add_left_cancel mult_left_cancel zero_neq_numeral)
qed

lemma map_of_rev_zip:
  "distinct xs \<Longrightarrow> length xs = length ys \<Longrightarrow> map_of (rev (zip xs ys)) x = Some y \<longleftrightarrow> (\<exists>k<length xs. xs ! k = x \<and> ys ! k = y)"
proof -
  assume d: "distinct xs" "length xs = length ys"
  then have "distinct (map fst (rev (zip xs ys)))" by (simp add: rev_map [symmetric])
  then have "map_of (rev (zip xs ys)) x = Some y \<longleftrightarrow> (x, y) \<in> set (zip xs ys)" by (simp add: map_of_eq_Some_iff)
  then show ?thesis using d(2) by (auto simp: set_zip)
qed

lemma map_of_rev_zip_None:
  "length xs = length ys \<Longrightarrow> map_of (rev (zip xs ys)) x = None \<longleftrightarrow> x \<notin> set xs"
  by (simp add: map_of_eq_None_iff flip: list.set_map)

text \<open>Where a name stands.\<close>

definition position :: "(string \<times> function_type) list \<Rightarrow> string \<Rightarrow> nat" where
  "position N name = length (takeWhile (\<lambda>p. fst p \<noteq> name) N)"

lemma position_nth: "name \<in> fst ` set N \<Longrightarrow> position N name < length N \<and> fst (N ! position N name) = name"
proof -
  assume "name \<in> fst ` set N"
  then have l: "position N name < length N"
    unfolding position_def by (induction N) auto
  then have "\<not> fst (N ! position N name) \<noteq> name" unfolding position_def by (rule nth_length_takeWhile)
  then show ?thesis using l by simp
qed

lemma position_unique: "distinct (map fst N) \<Longrightarrow> k < length N \<Longrightarrow> fst (N ! k) = name \<Longrightarrow> position N name = k"
proof -
  assume a: "distinct (map fst N)" "k < length N" "fst (N ! k) = name"
  then have "name \<in> fst ` set N" by (metis imageI nth_mem)
  from position_nth [OF this] show ?thesis using a by (metis length_map nth_eq_iff_index_eq nth_map)
qed

lemma position_append: "name \<in> fst ` set N \<Longrightarrow> position (N @ N') name = position N name"
  unfolding position_def by (induction N) auto

lemma position_new: "name \<notin> fst ` set N \<Longrightarrow> position (N @ [(name, t)]) name = length N"
  unfolding position_def by (induction N) auto

definition register :: "string \<times> function_type \<Rightarrow> (string \<times> function_type) list \<Rightarrow> (string \<times> function_type) list" where
  "register p N = (if fst p \<in> fst ` set N then N else N @ [p])"


lemma imports_for_append_types: "imports_for types N imps \<Longrightarrow> imports_for (types @ ts) N imps"
  unfolding imports_for_def by (erule list_all2_mono) (auto simp: nth_append)

lemma insert_at_append: "insert_at (length xs) x (xs @ ys) = xs @ x # ys"
  by (simp add: insert_at_def)

lemma shift_start_Suc: "small_module m0 \<Longrightarrow> n < 2 ^ 29 \<Longrightarrow>
    (if shift_start n (m_start m0) \<noteq> - 1 then shift_start n (m_start m0) + 1 else shift_start n (m_start m0)) = shift_start (Suc n) (m_start m0)"
proof -
  assume a: "small_module m0" "n < 2 ^ 29"
  show ?thesis
  proof (cases "m_start m0 = - 1")
    case False
    then have s: "unat (m_start m0) < 2 ^ 30" using a(1) by (simp add: small_module_def)
    have n: "unat (of_nat n :: u64) = n" using a(2) by (simp add: unat_of_nat)
    have "unat (m_start m0 + of_nat n) = unat (m_start m0) + n" using s a(2) n by (subst unat_add_small) simp_all
    moreover have "unat (- 1 :: u64) = 2 ^ 64 - 1" by (simp add: unsigned_minus_1_eq_mask mask_eq_exp_minus_1)
    ultimately have "unat (m_start m0 + of_nat n) \<noteq> unat (- 1 :: u64)" using s a(2) by simp
    then have "m_start m0 + of_nat n \<noteq> - 1" by metis
    then show ?thesis using False by (simp add: shift_start_def add.assoc)
  qed (simp add: shift_start_def)
qed

lemma tables_registered:
  assumes "tables_ok m0 N types ij" and "distinct (map fst N)"
  shows "map_of (registered_injected ij) name = (if name \<in> fst ` set N then Some (call_key m0 (position N name)) else None)"
    and "length (registered_injected ij) = length N"
proof -
  have r: "registered_injected ij = rev (zip (map fst N) (map (call_key m0) [0..<length N]))" using assms(1) by (simp add: tables_ok_def)
  show "length (registered_injected ij) = length N" by (simp add: r)
  show "map_of (registered_injected ij) name = (if name \<in> fst ` set N then Some (call_key m0 (position N name)) else None)"
  proof (cases "name \<in> fst ` set N")
    case True
    note p = position_nth [OF this]
    have "map_of (registered_injected ij) name = Some (call_key m0 (position N name))"
      unfolding r using assms(2) p by (subst map_of_rev_zip) auto
    then show ?thesis using True by simp
  next
    case False
    then show ?thesis unfolding r by (subst map_of_rev_zip_None [THEN iffD2]) simp_all
  qed
qed

lemma tables_mapping:
  assumes "tables_ok m0 N types ij" and "small_module m0" and "length N < 2 ^ 29" and "k < 2 ^ 29"
  shows "map_of (injected_index_mapping ij) (call_key m0 k) = (if k < length N then Some (of_nat k) else None)"
proof -
  define xs where "xs = map (call_key m0) [0..<length N]"
  have d: "distinct xs" unfolding xs_def distinct_map
    using call_key_inj [OF assms(2)] assms(3) by (auto intro!: inj_onI)
  have "map (\<lambda>k. (call_key m0 k, of_nat k :: u32)) [0..<length N] = zip xs (map of_nat [0..<length N])"
    by (simp add: xs_def zip_map1 zip_map2 zip_same_conv_map)
  then have m: "injected_index_mapping ij = rev (zip xs (map of_nat [0..<length N]))" using assms(1) by (simp add: tables_ok_def)
  show ?thesis
  proof (cases "k < length N")
    case True
    then have "map_of (injected_index_mapping ij) (call_key m0 k) = Some (of_nat k)"
      unfolding m using d by (subst map_of_rev_zip) (auto simp: xs_def)
    then show ?thesis using True by simp
  next
    case False
    have "call_key m0 k \<notin> set xs"
    proof
      assume "call_key m0 k \<in> set xs"
      then obtain x where "x < length N" "call_key m0 k = call_key m0 x" by (auto simp: xs_def)
      then show False using call_key_inj [OF assms(2,4), of x] assms(3) False by simp
    qed
    then show ?thesis using False unfolding m by (subst map_of_rev_zip_None [THEN iffD2]) (simp_all add: xs_def)
  qed
qed

lemma inj_state_add_import:
  assumes s: "inj_state m0 N (m, ij)" and small: "small_module m0" and N: "length N < 2 ^ 28"
  shows "\<exists>m' ij'. add_import t name (m, ij) = (call_key m0 (position (register (name, t) N) name), m', ij') \<and>
    inj_state m0 (register (name, t) N) (m', ij') \<and> m_fdefs m' = m_fdefs m"
proof -
  have st: "distinct (map fst N)" "injected m0 N m" "tables_ok m0 N (m_types m) ij" using s by (simp_all add: inj_state_def)
  note reg = tables_registered [OF st(3,1)]
  obtain ts imps where inj: "m_types m = m_types m0 @ ts" "length ts \<le> length N"
      "m_fimports m = imps @ m_fimports m0" "imports_for (m_types m) N imps" "length (m_fdefs m) = length (m_fdefs m0)"
      "m_tables m = m_tables m0 \<and> m_memories m = m_memories m0 \<and> m_globals m = m_globals m0 \<and> m_data m = m_data m0"
      "m_exports m = shift_exports (length N) (m_exports m0)" "m_start m = shift_start (length N) (m_start m0)"
      "m_table_segments m = map (map (\<lambda>i. i + length N)) (m_table_segments m0)"
    using st(2) by (auto simp: injected_def)
  have imps: "length imps = length N" using inj(4) by (auto simp: imports_for_def dest: list_all2_lengthD)
  show ?thesis
  proof (cases "name \<in> fst ` set N")
    case True
    then have "N \<noteq> []" by auto
    then have "m_fimports m \<noteq> []" using imps inj(3) by auto
    then have "add_import t name (m, ij) = (call_key m0 (position N name), m, ij)"
      using reg(1) [of name] True by (simp add: add_import_def)
    then show ?thesis using True s by (simp add: register_def)
  next
    case False
    have tl: "length (m_types m) < 2 ^ 32" using inj(1,2) N small by (simp add: small_module_def)
    have sl: "slots_ok (m_types m) (type_slots ij)" using st(3) by (simp add: tables_ok_def)
    obtain ts' slots i where t: "add_type_slot t (m, ij) = (m\<lparr>m_types := m_types m @ ts'\<rparr>, ij\<lparr>type_slots := slots\<rparr>)"
        "slots_ok (m_types m @ ts') slots" "length ts' \<le> 1" "map_of slots (type_slot t) = Some i"
        "unat i < length (m_types m @ ts')" "(m_types m @ ts') ! unat i = t"
      using add_type_slot_ok [OF sl tl, of t] by blast
    define key where "key = call_key m0 (length N)"
    define imp where "imp = \<lparr>fi_type = unat i, fi_module = ''eosio_injection'', fi_name = name\<rparr>"
    define N' where "N' = N @ [(name, t)]"
    define m' where "m' = m\<lparr>m_types := m_types m @ ts', m_fimports := imps @ imp # m_fimports m0, m_exports := map shift_export (m_exports m),
      m_start := shift_start (length N') (m_start m0), m_table_segments := map (map Suc) (m_table_segments m)\<rparr>"
    define ij' where "ij' = ij\<lparr>type_slots := slots, registered_injected := (name, key) # registered_injected ij,
      injected_index_mapping := (key, next_injected_index ij) # injected_index_mapping ij, next_injected_index := next_injected_index ij + 1\<rparr>"
    have r: "register (name, t) N = N'" using False by (simp add: register_def N'_def)
    have key: "(of_nat (length (m_fimports m) + length (m_fdefs m) + length (registered_injected ij)) :: u32) = key"
    proof -
      have "length (m_fimports m) + length (m_fdefs m) + length (registered_injected ij) = length (m_fimports m0) + length (m_fdefs m0) + 2 * length N"
        using imps inj(5) reg(2) by (simp add: inj(3))
      then show ?thesis unfolding key_def call_key_def by (rule arg_cong)
    qed
    have none: "map_of (registered_injected ij) name = None" using reg(1) [of name] False by simp
    have mnone: "map_of (injected_index_mapping ij) key = None"
      unfolding key_def using tables_mapping [OF st(3) small _ _, of "length N"] N by simp
    have start: "(if m_start m \<noteq> - 1 then m_start m + 1 else m_start m) = shift_start (length N') (m_start m0)"
      unfolding inj(8) N'_def using shift_start_Suc [OF small, of "length N"] N by simp
    have ins: "insert_at (length N) imp (m_fimports m) = imps @ imp # m_fimports m0"
      unfolding inj(3) imps [symmetric] by (rule insert_at_append)
    have "add_import t name (m, ij) = (key, m', ij')"
      using start none mnone ins key unfolding add_import_def m'_def ij'_def
      by (cases "m_start m = - 1") (simp_all add: t(1,4) get_next_indices_def emplace_new reg(2) imp_def)
    moreover have "inj_state m0 N' (m', ij')"
    proof -
      have "distinct (map fst N')" using st(1) False by (auto simp: N'_def)
      have "imports_for (m_types m @ ts') N' (imps @ [imp])"
        using imports_for_append_types [OF inj(4)] t(5,6)
        unfolding imports_for_def N'_def by (intro list_all2_appendI) (simp_all add: imp_def)
      then have f: "m_fimports m' = (imps @ [imp]) @ m_fimports m0 \<and> imports_for (m_types m') N' (imps @ [imp])" by (simp add: m'_def)
      have ty: "m_types m' = m_types m0 @ ts @ ts' \<and> length (ts @ ts') \<le> length N'" using inj(1,2) t(3) by (simp add: m'_def N'_def)
      have e: "m_exports m' = shift_exports (length N') (m_exports m0)"
        unfolding m'_def using inj(7) by (simp add: N'_def shift_exports_def shift_export_def)
      have ta: "m_table_segments m' = map (map (\<lambda>i. i + length N')) (m_table_segments m0)"
        unfolding m'_def using inj(9) by (simp add: N'_def)
      have rest: "length (m_fdefs m') = length (m_fdefs m0)" "m_tables m' = m_tables m0" "m_memories m' = m_memories m0"
          "m_globals m' = m_globals m0" "m_data m' = m_data m0" "m_start m' = shift_start (length N') (m_start m0)"
        using inj(5,6) by (simp_all add: m'_def)
      have "injected m0 N' m'" unfolding injected_def using f ty e ta rest by blast
      have "tables_ok m0 N' (m_types m') ij'"
        using st(3) t(2) unfolding tables_ok_def m'_def ij'_def N'_def key_def by simp
      show ?thesis unfolding inj_state_def fst_conv snd_conv by (intro conjI) fact+
    qed
    ultimately show ?thesis
      unfolding r using position_new [OF False, of t] by (auto simp: N'_def key_def m'_def)
  qed
qed

section \<open>The functions that can be injected\<close>

definition float_import :: "u16 \<Rightarrow> (string \<times> function_type) option" where
  "float_import c = Option.bind (pre_op_signature c) (\<lambda>t. map_option (\<lambda>name. (name, t)) (inject_which_op c))"

definition injectable :: "(string \<times> function_type) list" where
  "injectable = (''use_gas'', use_gas_type) # List.map_filter (float_import \<circ> fst) pre_op_injectors"

lemma injectable_distinct: "distinct (map fst injectable)"
  by code_simp

lemma injectable_length: "length injectable \<le> 64"
  by code_simp

lemma pre_op_named: "pre_op_signature c \<noteq> None \<Longrightarrow> inject_which_op c \<noteq> None"
proof -
  assume "pre_op_signature c \<noteq> None"
  then obtain t where "(c, t) \<in> set pre_op_injectors" by (auto simp: pre_op_signature_def dest: map_of_SomeD)
  moreover have "list_all (\<lambda>p. inject_which_op (fst p) \<noteq> None) pre_op_injectors" by code_simp
  ultimately show ?thesis unfolding list_all_iff by fastforce
qed

lemma float_import_None: "float_import c = None \<longleftrightarrow> pre_op_signature c = None"
  using pre_op_named [of c] by (auto simp: float_import_def split: Option.bind_splits)

lemma float_import_injectable: "float_import c = Some p \<Longrightarrow> p \<in> set injectable"
proof -
  assume p: "float_import c = Some p"
  then obtain t where "(c, t) \<in> set pre_op_injectors"
    by (auto simp: float_import_def pre_op_signature_def dest: map_of_SomeD split: Option.bind_splits)
  then have "p \<in> set (List.map_filter (float_import \<circ> fst) pre_op_injectors)"
    using p unfolding List.map_filter_def by (auto intro!: image_eqI [of _ _ "(c, t)"])
  then show ?thesis by (simp add: injectable_def)
qed

lemma injected_length:
  assumes "distinct (map fst N)" and "set N \<subseteq> set injectable"
  shows "length N \<le> 64"
proof -
  have "distinct N" using assms(1) by (simp add: distinct_map)
  then have "length N = card (set N)" by (simp add: distinct_card)
  also have "\<dots> \<le> card (set injectable)" using assms(2) by (intro card_mono) simp_all
  also have "\<dots> \<le> length injectable" by (rule card_length)
  finally show ?thesis using injectable_length by simp
qed

section \<open>The first pass: redirecting floating-point instructions\<close>

definition register_op :: "instr \<Rightarrow> (string \<times> function_type) list \<Rightarrow> (string \<times> function_type) list" where
  "register_op i N = (case float_import (i_code i) of None \<Rightarrow> N | Some p \<Rightarrow> register p N)"

definition redirect :: "wasm_module \<Rightarrow> (string \<times> function_type) list \<Rightarrow> instr \<Rightarrow> instr" where
  "redirect m N i = (case float_import (i_code i) of None \<Rightarrow> i | Some (name, t) \<Rightarrow> call_instr (call_key m (position N name)))"

definition registered_op :: "(string \<times> function_type) list \<Rightarrow> instr \<Rightarrow> bool" where
  "registered_op N i \<longleftrightarrow> (\<forall>p. float_import (i_code i) = Some p \<longrightarrow> fst p \<in> fst ` set N)"

lemma register_extends: "\<exists>X. register_op i N = N @ X"
  by (auto simp: register_op_def register_def split: option.splits)

lemma registers_extend: "\<exists>X. fold register_op is N = N @ X"
proof (induction "is" arbitrary: N)
  case (Cons i "is")
  obtain X where X: "register_op i N = N @ X" using register_extends by blast
  obtain Y where "fold register_op is (N @ X) = (N @ X) @ Y" using Cons.IH by blast
  then show ?case by (simp add: X)
qed simp

lemma register_op_registered: "registered_op (register_op i N) i"
  by (auto simp: register_op_def register_def registered_op_def)

lemma registered_op_append: "registered_op N i \<Longrightarrow> registered_op (N @ X) i"
  by (auto simp: registered_op_def)

lemma registers_registered: "i \<in> set is \<Longrightarrow> registered_op (fold register_op is N) i"
proof (induction "is" arbitrary: N)
  case (Cons j "is")
  show ?case
  proof (cases "i \<in> set is")
    case True
    then show ?thesis using Cons.IH by simp
  next
    case False
    then have "registered_op (register_op j N) i" using Cons.prems register_op_registered by simp
    then show ?thesis using registers_extend [of "is" "register_op j N"] registered_op_append by auto
  qed
qed simp

lemma redirect_append: "registered_op N i \<Longrightarrow> redirect m (N @ X) i = redirect m N i"
  by (auto simp: redirect_def registered_op_def position_append split: option.splits)

lemma registers_injectable: "set N \<subseteq> set injectable \<Longrightarrow> set (fold register_op is N) \<subseteq> set injectable"
proof (induction "is" arbitrary: N)
  case (Cons i "is")
  have "set (register_op i N) \<subseteq> set injectable"
    using Cons.prems float_import_injectable by (auto simp: register_op_def register_def split: option.splits)
  from Cons.IH [OF this] show ?case by simp
qed simp

lemma inj_state_length: "inj_state m0 N mi \<Longrightarrow> set N \<subseteq> set injectable \<Longrightarrow> length N < 2 ^ 28"
  using injected_length [of N] by (simp add: inj_state_def)

lemma pre_visit_ok:
  assumes "inj_state m0 N mi" and "small_module m0" and "set N \<subseteq> set injectable" and "stream_ok out"
  shows "\<exists>mi' out'. pre_visit op (mi, out) = Some (mi', out') \<and> inj_state m0 (register_op op N) mi' \<and>
    m_fdefs (fst mi') = m_fdefs (fst mi) \<and> stream_ok out' \<and>
    stream_get out' = stream_get out @ pack_bytes (redirect m0 (register_op op N) op)"
proof (cases "pre_op_signature (i_code op)")
  case None
  then have f: "float_import (i_code op) = None" by (simp add: float_import_None)
  obtain out' where "pack op out = Some out'" "stream_ok out'" "stream_get out' = stream_get out @ pack_bytes op"
    using pack_ok [OF assms(4)] by blast
  then show ?thesis using None f assms(1) by (simp add: pre_visit_def register_op_def redirect_def)
next
  case (Some t)
  obtain name where name: "inject_which_op (i_code op) = Some name" using pre_op_named [of "i_code op"] Some by auto
  then have f: "float_import (i_code op) = Some (name, t)" using Some by (simp add: float_import_def)
  obtain m ij where mi: "mi = (m, ij)" by (cases mi)
  define k where "k = call_key m0 (position (register (name, t) N) name)"
  obtain m' ij' where a: "add_import t name (m, ij) = (k, m', ij')" "inj_state m0 (register (name, t) N) (m', ij')" "m_fdefs m' = m_fdefs m"
    using inj_state_add_import [OF assms(1) [unfolded mi] assms(2) inj_state_length [OF assms(1,3)], of t name] unfolding k_def by blast
  obtain out' where "pack (call_instr k) out = Some out'" "stream_ok out'" "stream_get out' = stream_get out @ pack_bytes (call_instr k)"
    using pack_ok [OF assms(4)] by blast
  then show ?thesis using Some name f a mi by (simp add: pre_visit_def register_op_def redirect_def k_def)
qed

lemma decode_all_step:
  assumes "decode_all code = Inr is" and "code \<noteq> []"
  obtains op rest js where "decodeOp code = Inr (op, rest)" and "decode_all rest = Inr js" and "is = op # js"
  using assms by (subst (asm) decode_all.simps) (auto split: sum.splits prod.splits)

lemma pre_code_ok:
  "decode_all code = Inr is \<Longrightarrow> small_module m0 \<Longrightarrow> inj_state m0 N mi \<Longrightarrow> set N \<subseteq> set injectable \<Longrightarrow> stream_ok out \<Longrightarrow>
    \<exists>mi' out'. visit_code pre_visit code (mi, out) = Some (Inr (mi', out')) \<and> inj_state m0 (fold register_op is N) mi' \<and>
      m_fdefs (fst mi') = m_fdefs (fst mi) \<and>
      stream_get out' = stream_get out @ code_bytes (map (redirect m0 (fold register_op is N)) is)"
proof (induction code arbitrary: "is" N mi out rule: decode_all.induct)
  case (1 code)
  show ?case
  proof (cases "code = []")
    case True
    then show ?thesis using "1.prems" by (simp add: decode_all.simps visit_code.simps code_bytes_def)
  next
    case False
    obtain op rest js where d: "decodeOp code = Inr (op, rest)" "decode_all rest = Inr js" "is = op # js"
      by (rule decode_all_step [OF "1.prems"(1) False])
    obtain mi1 out1 where v: "pre_visit op (mi, out) = Some (mi1, out1)" "inj_state m0 (register_op op N) mi1"
        "m_fdefs (fst mi1) = m_fdefs (fst mi)" "stream_ok out1"
        "stream_get out1 = stream_get out @ pack_bytes (redirect m0 (register_op op N) op)"
      using pre_visit_ok [OF "1.prems"(3,2,4,5)] by blast
    have "set (register_op op N) \<subseteq> set injectable" using registers_injectable [OF "1.prems"(4), of "[op]"] by simp
    from "1.IH" [OF False d(1) refl d(2) "1.prems"(2) v(2) this v(4)] obtain mi2 out2 where
      w: "visit_code pre_visit rest (mi1, out1) = Some (Inr (mi2, out2))" "inj_state m0 (fold register_op js (register_op op N)) mi2"
        "m_fdefs (fst mi2) = m_fdefs (fst mi1)"
        "stream_get out2 = stream_get out1 @ code_bytes (map (redirect m0 (fold register_op js (register_op op N))) js)" by blast
    have "visit_code pre_visit code (mi, out) = Some (Inr (mi2, out2))"
      using False d(1) v(1) w(1) by (subst visit_code.simps) simp
    moreover have "redirect m0 (fold register_op js (register_op op N)) op = redirect m0 (register_op op N) op"
      using registers_extend [of js "register_op op N"] redirect_append [OF register_op_registered] by metis
    ultimately show ?thesis using v w d(3) by (auto simp: code_bytes_def)
  qed
qed

end
