(* ===== verification/WL_Linked.thy ===== *)
theory WL_Linked
  imports WL_Link
begin

text \<open>
  The passes of the code injection over all functions, and the module they produce.
\<close>

section \<open>All functions, first pass\<close>

definition with_code :: "function_def list \<Rightarrow> instr list list \<Rightarrow> function_def list" where
  "with_code fds iss = map2 (\<lambda>fd is. fd\<lparr>fd_code := code_bytes is\<rparr>) fds iss"

definition bodies :: "function_def list \<Rightarrow> instr list list \<Rightarrow> bool" where
  "bodies fds iss \<longleftrightarrow> list_all2 (\<lambda>fd is. decode_all (fd_code fd) = Inr is) fds iss"

lemma bodies_Cons: "bodies (fd # fds) jss \<longleftrightarrow> (\<exists>is iss. jss = is # iss \<and> decode_all (fd_code fd) = Inr is \<and> bodies fds iss)"
  by (cases jss) (auto simp: bodies_def)

lemma length_with_code [simp]: "length fds = length iss \<Longrightarrow> length (with_code fds iss) = length fds"
  by (simp add: with_code_def)

lemma bodies_with_code:
  "length fds = length iss \<Longrightarrow> (\<forall>is\<in>set iss. list_all wf_instr is) \<Longrightarrow> bodies (with_code fds iss) iss"
proof (induction fds iss rule: list_induct2)
  case (Cons fd fds "is" iss)
  then show ?case using decode_all_pack [of "is"] by (simp add: with_code_def bodies_def code_bytes_def)
qed (simp add: with_code_def bodies_def)

lemma with_code_twice: "length fds = length iss \<Longrightarrow> length iss = length jss \<Longrightarrow> with_code (with_code fds iss) jss = with_code fds jss"
  unfolding with_code_def by (induction fds iss jss rule: list_induct3) simp_all

lemma pre_functions_ok:
  "bodies fds iss \<Longrightarrow> small_module m0 \<Longrightarrow> inj_state m0 N mi \<Longrightarrow> set N \<subseteq> set injectable \<Longrightarrow>
    \<exists>mi'. visit_functions pre_visit fds mi =
        Some (Inr (with_code fds (map (map (redirect m0 (fold register_op (concat iss) N))) iss), mi')) \<and>
      inj_state m0 (fold register_op (concat iss) N) mi' \<and> m_fdefs (fst mi') = m_fdefs (fst mi)"
proof (induction fds arbitrary: iss N mi)
  case Nil
  then show ?case by (simp add: bodies_def with_code_def)
next
  case (Cons fd fds)
  obtain "is" jss where b: "iss = is # jss" "decode_all (fd_code fd) = Inr is" "bodies fds jss"
    using Cons.prems(1) by (auto simp: bodies_Cons)
  define N1 N2 where "N1 = fold register_op is N" and "N2 = fold register_op (concat jss) N1"
  obtain mi1 out where 1: "visit_code pre_visit (fd_code fd) (mi, stream_new (length (fd_code fd) * 2)) = Some (Inr (mi1, out))"
      "inj_state m0 N1 mi1" "m_fdefs (fst mi1) = m_fdefs (fst mi)" "stream_get out = code_bytes (map (redirect m0 N1) is)"
    using pre_code_ok [OF b(2) Cons.prems(2-4), of "stream_new (length (fd_code fd) * 2)"] unfolding N1_def by auto
  have "set N1 \<subseteq> set injectable" unfolding N1_def by (rule registers_injectable [OF Cons.prems(4)])
  from Cons.IH [OF b(3) Cons.prems(2) 1(2) this] obtain mi2 where
    2: "visit_functions pre_visit fds mi1 = Some (Inr (with_code fds (map (map (redirect m0 N2)) jss), mi2))"
      "inj_state m0 N2 mi2" "m_fdefs (fst mi2) = m_fdefs (fst mi1)" unfolding N2_def by blast
  have "redirect m0 N2 i = redirect m0 N1 i" if "i \<in> set is" for i
    using registers_extend [of "concat jss" N1] redirect_append registers_registered [OF that, of N] by (metis N1_def N2_def)
  then have r: "map (redirect m0 N1) is = map (redirect m0 N2) is" by simp
  have "visit_functions pre_visit (fd # fds) mi = Some (Inr (with_code (fd # fds) (map (map (redirect m0 N2)) iss), mi2))"
    using 1(1,4) 2(1) r by (simp add: bind_step_def b(1) with_code_def)
  then show ?case using 1(3) 2(2,3) by (simp add: b(1) N1_def [symmetric] N2_def [symmetric])
qed

section \<open>All functions, second pass\<close>

lemma post_code_ok:
  "decode_all code = Inr is \<Longrightarrow> stream_ok out \<Longrightarrow>
    \<exists>out'. visit_code post_visit code ((m, ij), out) = Some (Inr ((m, ij), out')) \<and>
      stream_get out' = stream_get out @ code_bytes (map (fix_call_index ij) is)"
proof (induction code arbitrary: "is" out rule: decode_all.induct)
  case (1 code)
  show ?case
  proof (cases "code = []")
    case True
    then show ?thesis using "1.prems" by (simp add: decode_all.simps visit_code.simps code_bytes_def)
  next
    case False
    obtain op rest js where d: "decodeOp code = Inr (op, rest)" "decode_all rest = Inr js" "is = op # js"
      by (rule decode_all_step [OF "1.prems"(1) False])
    obtain out1 where v: "pack (fix_call_index ij op) out = Some out1" "stream_ok out1"
        "stream_get out1 = stream_get out @ pack_bytes (fix_call_index ij op)"
      using pack_ok [OF "1.prems"(2)] by blast
    from "1.IH" [OF False d(1) refl d(2) v(2)] obtain out2 where
      w: "visit_code post_visit rest ((m, ij), out1) = Some (Inr ((m, ij), out2))"
        "stream_get out2 = stream_get out1 @ code_bytes (map (fix_call_index ij) js)" by blast
    have "visit_code post_visit code ((m, ij), out) = Some (Inr ((m, ij), out2))"
      using False d(1) v(1) w(1) by (subst visit_code.simps) (simp add: post_visit_def)
    then show ?thesis using v(3) w(2) d(3) by (simp add: code_bytes_def)
  qed
qed

lemma post_functions_ok:
  "bodies fds iss \<Longrightarrow>
     visit_functions post_visit fds (m, ij) = Some (Inr (with_code fds (map (map (fix_call_index ij)) iss), m, ij))"
proof (induction fds arbitrary: iss)
  case (Cons fd fds)
  obtain "is" jss where b: "iss = is # jss" "decode_all (fd_code fd) = Inr is" "bodies fds jss"
    using Cons.prems by (auto simp: bodies_Cons)
  obtain out where "visit_code post_visit (fd_code fd) ((m, ij), stream_new (length (fd_code fd) * 2)) = Some (Inr ((m, ij), out))"
      "stream_get out = code_bytes (map (fix_call_index ij) is)"
    using post_code_ok [OF b(2), of "stream_new (length (fd_code fd) * 2)" m ij] by auto
  then show ?case using Cons.IH [OF b(3)] by (simp add: bind_step_def b(1) with_code_def)
qed (simp add: bodies_def with_code_def)

section \<open>Gas, all functions\<close>

lemma usegas_functions_ok:
  "bodies fds iss \<Longrightarrow> (\<forall>is\<in>set iss. list_all priced is) \<Longrightarrow>
     usegas_functions idx fds = Some (Inr (with_code fds (map (meter idx 0 []) iss)))"
proof (induction fds arbitrary: iss)
  case (Cons fd fds)
  obtain "is" jss where b: "iss = is # jss" "decode_all (fd_code fd) = Inr is" "bodies fds jss"
    using Cons.prems(1) by (auto simp: bodies_Cons)
  have "usegas_code idx (fd_code fd) = Some (Inr (code_bytes (meter idx 0 [] is)))"
    using usegas_code_meter [OF b(2)] Cons.prems(2) b(1) by simp
  then show ?case using Cons.IH [OF b(3)] Cons.prems(2) by (simp add: bind_step_def b(1) with_code_def)
qed (simp add: bodies_def with_code_def)

lemma meter_elements: "set (meter idx gas T is) \<subseteq> set T \<union> set is \<union> range i64_const \<union> {call_instr idx}"
proof (induction "is" arbitrary: gas T)
  case (Cons op ops)
  define h where "h = gas + word_of_int (the (gas_cost (i_code op)))"
  show ?case
  proof (cases "ends_block (i_code op)")
    case True
    then show ?thesis using Cons.IH [of "if 0 <s h then 0 else h" "[]"] by (auto simp: Let_def h_def [symmetric])
  next
    case False
    then show ?thesis using Cons.IH [of h "T @ [op]"] by (auto simp: Let_def h_def [symmetric])
  qed
qed simp

lemma wf_inserted [simp]: "wf_instr (i64_const g)" "wf_instr (call_instr idx)"
  by (simp_all add: wf_instr_def i64_const_def call_instr_def op_kind_def)

lemma meter_wf: "list_all wf_instr is \<Longrightarrow> list_all wf_instr (meter idx 0 [] is)"
  using meter_elements [of idx 0 "[]" "is"] by (auto simp: list_all_iff)

lemma redirect_wf: "wf_instr i \<Longrightarrow> wf_instr (redirect m N i)"
  by (simp add: redirect_def split: option.splits prod.splits)

section \<open>The linked code\<close>

text \<open>
  The instruction as it stands in the new module: a floating-point instruction is the call of the
  injected function with its name, and a call of one of the original functions moves up by the
  number of injected functions.
\<close>

definition link :: "(string \<times> function_type) list \<Rightarrow> instr \<Rightarrow> instr" where
  "link N i =
     (case float_import (i_code i) of
        Some (name, t) \<Rightarrow> call_instr (of_nat (position N name))
      | None \<Rightarrow>
          (case i_field i of F_u32 j \<Rightarrow> if i_code i = 0x10 then call_instr (j + of_nat (length N)) else i | _ \<Rightarrow> i))"

definition linked_code :: "(string \<times> function_type) list \<Rightarrow> instr list \<Rightarrow> instr list" where
  "linked_code N is =
     concat (map (\<lambda>seg. (if 0 < total_price seg then [i64_const (of_nat (total_price seg)), call_instr 0] else []) @ map (link N) seg)
       (stretches [] is))"

definition calls_in_range :: "wasm_module \<Rightarrow> instr \<Rightarrow> bool" where
  "calls_in_range m i \<longleftrightarrow> (\<forall>j. i = call_instr j \<longrightarrow> unat j < length (m_fimports m) + length (m_fdefs m))"

lemma float_import_call: "float_import 0x10 = None" "float_import 0x42 = None"
  by code_simp+

lemma fix_call_index_key:
  assumes "tables_ok m0 N types ij" and "small_module m0" and "length N < 2 ^ 29" and "k < length N"
  shows "fix_call_index ij (call_instr (call_key m0 k)) = call_instr (of_nat k)"
  using tables_mapping [OF assms(1-3), of k] assms(3,4) by (simp add: call_instr_def)

lemma call_key_not_original:
  assumes "small_module m0" and "unat j < length (m_fimports m0) + length (m_fdefs m0)" and "k < 2 ^ 29"
  shows "j \<noteq> call_key m0 k"
proof -
  define c where "c = length (m_fimports m0) + length (m_fdefs m0)"
  have "c < 2 ^ 30" using assms(1) by (simp add: small_module_def c_def)
  then have "unat (call_key m0 k) = c + 2 * k"
    unfolding call_key_def c_def [symmetric] using assms(3) by (intro unat_of_nat32) simp
  then show ?thesis using assms(2) c_def by auto
qed

lemma fix_call_index_original:
  assumes "tables_ok m0 N types ij" and "distinct (map fst N)" and "small_module m0" and "length N < 2 ^ 29"
    and "unat j < length (m_fimports m0) + length (m_fdefs m0)"
  shows "fix_call_index ij (call_instr j) = call_instr (j + of_nat (length N))"
proof -
  have "j \<notin> fst ` set (injected_index_mapping ij)"
  proof
    assume "j \<in> fst ` set (injected_index_mapping ij)"
    then obtain k where "k < length N" "j = call_key m0 k" using assms(1) by (auto simp: tables_ok_def)
    then show False using call_key_not_original [OF assms(3,5), of k] assms(4) by simp
  qed
  then have "map_of (injected_index_mapping ij) j = None" by (simp add: map_of_eq_None_iff)
  then show ?thesis using tables_registered(2) [OF assms(1,2)] by (simp add: call_instr_def)
qed

lemma fix_call_index_other: "i_code i \<noteq> 0x10 \<Longrightarrow> fix_call_index ij i = i"
  by (cases i; cases "i_field i") auto

lemma link_correct:
  assumes t: "tables_ok m0 N types ij" "distinct (map fst N)" "small_module m0" "length N < 2 ^ 29"
    and i: "wf_instr i" "registered_op N i" "calls_in_range m0 i"
  shows "fix_call_index ij (redirect m0 N i) = link N i"
proof (cases "float_import (i_code i)")
  case (Some p)
  obtain name ty where p: "p = (name, ty)" by (cases p)
  have "position N name < length N" using i(2) Some position_nth [of name N] by (auto simp: registered_op_def p)
  then show ?thesis using Some fix_call_index_key [OF t(1,3,4)] by (simp add: redirect_def link_def p)
next
  case None
  show ?thesis
  proof (cases "i_code i = 0x10")
    case True
    then obtain j where "i = call_instr j" using i(1) by (cases i; cases "i_field i") (auto simp: wf_instr_def op_kind_def call_instr_def)
    then show ?thesis
      using fix_call_index_original [OF t, of j] i(3) None by (simp add: redirect_def link_def calls_in_range_def) (simp add: call_instr_def)
  next
    case False
    then show ?thesis using None fix_call_index_other [OF False, of ij] by (simp add: redirect_def link_def split: op_field.split)
  qed
qed

lemma register_op_inserted: "register_op (i64_const g) N = N" "register_op (call_instr idx) N = N"
  by (simp_all add: register_op_def i64_const_def call_instr_def float_import_call)

lemma fold_register_meter:
  assumes "closed_code is" and "list_all priced is" and "length is < 2 ^ 50"
  shows "fold register_op (meter idx 0 [] is) N = fold register_op is N"
proof -
  have c: "fold register_op (charge idx seg) N = fold register_op seg N" for seg N
    by (simp add: charge_def register_op_inserted)
  have "fold register_op (concat (map (charge idx) segs)) N = fold register_op (concat segs) N" for segs N
    by (induction segs arbitrary: N) (simp_all add: c)
  then show ?thesis using meter_charges [OF assms(2,3), of idx] stretches_concat [OF assms(1), of "[]"] by simp
qed

text \<open>Code that the passes can process: decoded, priced, closed, with calls of functions of the module.\<close>

definition linkable :: "wasm_module \<Rightarrow> instr list \<Rightarrow> bool" where
  "linkable m is \<longleftrightarrow> list_all wf_instr is \<and> list_all priced is \<and> closed_code is \<and> length is < 2 ^ 50 \<and> list_all (calls_in_range m) is"

lemma fold_register_meters:
  "\<forall>is\<in>set iss. linkable m is \<Longrightarrow> fold register_op (concat (map (meter idx 0 []) iss)) N = fold register_op (concat iss) N"
  by (induction iss arbitrary: N) (simp_all add: linkable_def fold_register_meter)

lemma metered_linked:
  assumes t: "tables_ok m0 N types ij" "distinct (map fst N)" "small_module m0" "length N < 2 ^ 29" "N \<noteq> []"
    and i: "linkable m0 is" "\<forall>i\<in>set is. registered_op N i"
  shows "map (fix_call_index ij) (map (redirect m0 N) (meter (call_key m0 0) 0 [] is)) = linked_code N is"
proof -
  have l: "list_all wf_instr is" "list_all priced is" "closed_code is" "length is < 2 ^ 50" "list_all (calls_in_range m0) is"
    using i(1) by (simp_all add: linkable_def)
  have c: "fix_call_index ij (redirect m0 N (call_instr (call_key m0 0))) = call_instr 0"
    using fix_call_index_key [OF t(1,3,4), of 0] t(5) by (simp add: redirect_def call_instr_def float_import_call)
  have g: "fix_call_index ij (redirect m0 N (i64_const g)) = i64_const g" for g
    by (simp add: redirect_def i64_const_def float_import_call)
  have s: "map (fix_call_index ij) (map (redirect m0 N) (charge (call_key m0 0) seg)) =
      (if 0 < total_price seg then [i64_const (of_nat (total_price seg)), call_instr 0] else []) @ map (link N) seg"
    if "seg \<in> set (stretches [] is)" for seg
  proof -
    have "set seg \<subseteq> set is" using stretches_elements [OF that] by simp
    then have "fix_call_index ij (redirect m0 N i) = link N i" if "i \<in> set seg" for i
      using that l(1,5) i(2) link_correct [OF t(1-4), of i] by (auto simp: list_all_iff)
    then show ?thesis by (simp add: charge_def c g)
  qed
  show ?thesis
    unfolding meter_charges [OF l(2,4)] linked_code_def map_concat map_map
    by (intro arg_cong [of _ _ concat] map_cong refl) (use s in \<open>simp add: comp_def\<close>)
qed

section \<open>The whole injection\<close>

lemma max_memory_inject_sel [simp]:
  "m_types (max_memory_inject m) = m_types m" "m_fimports (max_memory_inject m) = m_fimports m" "m_fdefs (max_memory_inject m) = m_fdefs m"
  "m_tables (max_memory_inject m) = m_tables m" "m_globals (max_memory_inject m) = m_globals m" "m_exports (max_memory_inject m) = m_exports m"
  "m_data (max_memory_inject m) = m_data m" "m_table_segments (max_memory_inject m) = m_table_segments m" "m_start (max_memory_inject m) = m_start m"
  by (simp_all add: max_memory_inject_def split: list.split)

lemma inj_state_fdefs: "inj_state m0 N (m, ij) \<Longrightarrow> length fds = length (m_fdefs m) \<Longrightarrow> inj_state m0 N (m\<lparr>m_fdefs := fds\<rparr>, ij)"
  by (simp add: inj_state_def injected_def)

lemma inj_state_init:
  assumes "small_module m"
  shows "inj_state (max_memory_inject m) [] (max_memory_inject m, injector_init m)"
proof -
  have "slots_ok ([] @ m_types m) (build_type_slots (m_types m) (length ([] :: function_type list)) [])"
    using assms by (intro build_type_slots_ok) (simp_all add: slots_ok_def small_module_def)
  then have "tables_ok (max_memory_inject m) [] (m_types m) (injector_init m)"
    by (simp add: tables_ok_def injector_init_def)
  moreover have "injected (max_memory_inject m) [] (max_memory_inject m)"
    by (simp add: injected_def imports_for_def shift_exports_def shift_start_def map_idI)
  ultimately show ?thesis by (simp add: inj_state_def)
qed

text \<open>The functions that the code of the module makes the injection add.\<close>

definition injected_functions :: "instr list list \<Rightarrow> (string \<times> function_type) list" where
  "injected_functions iss = fold register_op (concat iss) [(''use_gas'', use_gas_type)]"

lemma binary_inject_linked:
  assumes b: "bodies (m_fdefs m) iss" and l: "\<forall>is\<in>set iss. linkable m is" and small: "small_module m"
  shows "\<exists>m' ij. binary_inject m = Some (Inr (m', ij)) \<and> distinct (map fst (injected_functions iss)) \<and>
    injected (max_memory_inject m) (injected_functions iss) m' \<and>
    m_fdefs m' = with_code (m_fdefs m) (map (linked_code (injected_functions iss)) iss)"
proof -
  define m0 where "m0 = max_memory_inject m"
  define N0 where "N0 = [(''use_gas'', use_gas_type)]"
  define N where "N = injected_functions iss"
  define key where "key = call_key m0 0"
  have small0: "small_module m0" using small by (simp add: small_module_def m0_def)
  have "calls_in_range m0 = calls_in_range m" by (rule ext) (simp add: calls_in_range_def m0_def)
  then have linkable0: "linkable m0 is" if "is \<in> set iss" for "is" using l that by (simp add: linkable_def)
  have len: "length (m_fdefs m) = length iss" using b by (auto simp: bodies_def dest: list_all2_lengthD)
  have i0: "set N0 \<subseteq> set injectable" by (simp add: N0_def injectable_def)
  have r0: "register (''use_gas'', use_gas_type) [] = N0" "position N0 ''use_gas'' = 0" by (simp_all add: register_def N0_def position_def)
  obtain m1 ij1 where 1: "add_import use_gas_type ''use_gas'' (m0, injector_init m) = (key, m1, ij1)"
      "inj_state m0 N0 (m1, ij1)" "m_fdefs m1 = m_fdefs m"
    using inj_state_add_import [OF inj_state_init [OF small, folded m0_def] small0, of use_gas_type "''use_gas''"]
    unfolding r0 key_def by (auto simp: m0_def)
  define mss where "mss = map (meter key 0 []) iss"
  define fds1 where "fds1 = with_code (m_fdefs m) mss"
  have len1: "length (m_fdefs m) = length mss" "length fds1 = length mss" using len by (simp_all add: mss_def fds1_def)
  have g: "usegas_functions key (m_fdefs m) = Some (Inr fds1)"
    unfolding fds1_def mss_def using l by (intro usegas_functions_ok [OF b]) (simp add: linkable_def)
  have b1: "bodies fds1 mss"
    unfolding fds1_def using l by (intro bodies_with_code len1) (auto simp: mss_def linkable_def meter_wf)
  have s1: "inj_state m0 N0 (m1\<lparr>m_fdefs := fds1\<rparr>, ij1)" using inj_state_fdefs [OF 1(2)] len1 1(3) by simp
  have N: "fold register_op (concat mss) N0 = N"
    unfolding N_def injected_functions_def mss_def N0_def by (rule fold_register_meters [OF l])
  define rss where "rss = map (map (redirect m0 N)) mss"
  obtain m2 ij2 where 2: "visit_functions pre_visit fds1 (m1\<lparr>m_fdefs := fds1\<rparr>, ij1) = Some (Inr (with_code fds1 rss, m2, ij2))"
      "inj_state m0 N (m2, ij2)" "m_fdefs m2 = fds1"
    using pre_functions_ok [OF b1 small0 s1 i0] unfolding N rss_def by auto
  have len2: "length fds1 = length rss" "length mss = length rss" using len1 by (simp_all add: rss_def)
  define fds2 where "fds2 = with_code fds1 rss"
  have "\<forall>is\<in>set mss. list_all wf_instr is" using l by (auto simp: mss_def linkable_def meter_wf)
  then have b2: "bodies fds2 rss"
    unfolding fds2_def by (intro bodies_with_code len2) (auto simp: rss_def list_all_iff redirect_wf)
  define m3 where "m3 = m2\<lparr>m_fdefs := fds2\<rparr>"
  have s3: "inj_state m0 N (m3, ij2)" unfolding m3_def using inj_state_fdefs [OF 2(2)] 2(3) len2 by (simp add: fds2_def)
  define pss where "pss = map (map (fix_call_index ij2)) rss"
  have 3: "visit_functions post_visit fds2 (m3, ij2) = Some (Inr (with_code fds2 pss, m3, ij2))"
    unfolding pss_def by (rule post_functions_ok [OF b2])
  have NI: "set N \<subseteq> set injectable" unfolding N [symmetric] by (rule registers_injectable [OF i0])
  have t: "tables_ok m0 N (m_types m3) ij2" "distinct (map fst N)" using s3 by (simp_all add: inj_state_def)
  have NL: "length N < 2 ^ 29" using injected_length [OF t(2) NI] by simp
  have N1: "N \<noteq> []" using registers_extend [of "concat mss" N0] by (auto simp: N [symmetric] N0_def)
  have "\<forall>i\<in>set is. registered_op N i" if "is \<in> set iss" for "is"
    unfolding N_def injected_functions_def using registers_registered that by (metis concat.simps(2) UN_I set_concat)
  then have "map (fix_call_index ij2) (map (redirect m0 N) (meter key 0 [] is)) = linked_code N is" if "is \<in> set iss" for "is"
    using metered_linked [OF t small0 NL N1 linkable0 [OF that]] that unfolding key_def by blast
  then have p: "pss = map (linked_code N) iss" by (simp add: pss_def rss_def mss_def)
  define m4 where "m4 = m3\<lparr>m_fdefs := with_code fds2 pss\<rparr>"
  have len3: "length rss = length pss" by (simp add: pss_def)
  have fd: "with_code fds2 pss = with_code (m_fdefs m) pss"
    unfolding fds2_def fds1_def using len1 len2 len3 by (simp add: with_code_twice)
  have "injected m0 N m3" using s3 by (simp add: inj_state_def)
  then have "injected m0 N m4" using len2 len3 2(3) by (simp add: m4_def injected_def m3_def fds2_def)
  moreover have "binary_inject m = Some (Inr (m4, ij2))"
    unfolding binary_inject_def Let_def m0_def [symmetric] 1(1) prod.case 1(3) g bind_step_def option.case sum.case 2(1) fds2_def [symmetric]
      m3_def [symmetric] 3 m4_def ..
  moreover have "m_fdefs m4 = with_code (m_fdefs m) (map (linked_code N) iss)" by (simp add: m4_def p fd [unfolded p])
  ultimately show ?thesis using t(2) unfolding N_def m0_def by blast
qed

section \<open>Validated modules\<close>

lemma allowed_wf: "wf_instr i \<or> i = Instr 0xFF F_void \<Longrightarrow> allowed_instr i \<Longrightarrow> wf_instr i \<and> priced i"
proof -
  assume a: "wf_instr i \<or> i = Instr 0xFF F_void" "allowed_instr i"
  have "length gas_table = 192" by (simp add: gas_table_def)
  moreover have "op_kind c \<noteq> None \<Longrightarrow> unat c < 192" for c
    by (auto simp: op_kind_def word_le_nat_alt split: if_splits)
  moreover have "op_kind (i_code i) \<noteq> None" using a(2) by (cases i; cases "i_field i") auto
  ultimately have "priced i" by (simp add: priced_def)
  then show ?thesis using a by (auto simp: op_kind_def)
qed

lemma decode_all_wf: "decode_all bs = Inr is \<Longrightarrow> i \<in> set is \<Longrightarrow> wf_instr i \<or> i = Instr 0xFF F_void"
proof (induction bs arbitrary: "is" rule: decode_all.induct)
  case (1 bs)
  show ?case
  proof (cases "bs = []")
    case False
    obtain op rest js where d: "decodeOp bs = Inr (op, rest)" "decode_all rest = Inr js" "is = op # js"
      by (rule decode_all_step [OF "1.prems"(1) False])
    then show ?thesis using "1.IH" [OF False d(1) refl d(2)] decodeOp_wf [OF d(1)] "1.prems"(2) by auto
  qed (use "1.prems" in \<open>simp add: decode_all.simps\<close>)
qed

lemma bodies_map: "map (\<lambda>f. decode_all (fd_code f)) fds = map Inr iss \<longleftrightarrow> bodies fds iss"
proof (induction fds arbitrary: iss)
  case (Cons f fds)
  then show ?case by (cases iss) (auto simp: bodies_def)
qed (simp add: bodies_def)

lemma bodies_unique: "bodies fds iss \<Longrightarrow> bodies fds jss \<Longrightarrow> iss = jss"
  by (induction fds arbitrary: iss jss) (auto simp: bodies_Cons, auto simp: bodies_def)

lemma validated_bodies:
  assumes "binary_validate m = Some (Inr s)"
  obtains iss where "bodies (m_fdefs m) iss" and "\<forall>is\<in>set iss. list_all wf_instr is \<and> list_all priced is \<and> list_all allowed_instr is"
    and "counts_ok 0 (concat iss)" and "module_validate m = Some (Inr ())"
proof -
  have v: "module_validate m = Some (Inr ())" "validate_functions (m_fdefs m) (counting 0) = Inr s"
    using assms by (auto simp: binary_validate_def counting_init)
  obtain iss where i: "bodies (m_fdefs m) iss" "\<forall>is\<in>set iss. list_all allowed_instr is" "counts_ok 0 (concat iss)"
    using validate_functions_Inr_iff [of 0 "m_fdefs m"] v(2) by (auto simp: bodies_map)
  have "list_all wf_instr is \<and> list_all priced is" if m: "is \<in> set iss" for "is"
  proof -
    obtain n where "n < length iss" "is = iss ! n" using m by (auto simp: in_set_conv_nth)
    then have "decode_all (fd_code (m_fdefs m ! n)) = Inr is" using i(1) by (simp add: bodies_def list_all2_conv_all_nth)
    from decode_all_wf [OF this] have "wf_instr x \<and> priced x" if "x \<in> set is" for x
      using allowed_wf [of x] that i(2) m unfolding list_all_iff by blast
    then show ?thesis by (simp add: list_all_iff)
  qed
  then show ?thesis using that i v(1) by blast
qed

lemma counts_ok_member:
  assumes "counts_ok d (concat iss)" and "js @ ks \<in> set iss" and "d < 1024"
  shows "nesting js < 1024"
  using assms
proof (induction iss arbitrary: d)
  case (Cons is0 iss)
  show ?case
  proof (cases "js @ ks = is0")
    case True
    then show ?thesis using Cons.prems(1,3) counts_ok_nesting [of d js ks] by auto
  next
    case False
    then show ?thesis using Cons.IH [of "final_depth d is0"] Cons.prems final_depth_less [of d is0] by auto
  qed
qed simp

section \<open>Conditionals\<close>

lemma else_blocks_accepted:
  assumes "module_validate m = Some (Inr ())" and "m_fdefs m = [fd]"
    and "fd_code fd = code_bytes (concat (replicate n if_else_end) @ [Instr 0x0B F_void])"
  shows "(\<exists>s. binary_validate m = Some (Inr s)) \<longleftrightarrow> n \<le> 1022"
proof -
  define js where "js = concat (replicate n if_else_end) @ [Instr 0x0B F_void]"
  have wf: "\<forall>i\<in>set js. wf_instr i \<and> allowed_instr i"
    by (auto simp: js_def if_else_end_def wf_instr_def op_kind_def)
  then have "decode_all (fd_code fd) = Inr js"
    unfolding assms(3) js_def [symmetric] code_bytes_def by (intro decode_all_pack) (simp add: list_all_iff)
  then have "bodies (m_fdefs m) iss \<longleftrightarrow> iss = [js]" for iss
    using assms(2) by (auto simp: bodies_Cons) (auto simp: bodies_def)
  then have "(\<exists>s. binary_validate m = Some (Inr s)) \<longleftrightarrow> counts_ok 0 js"
    using validate_functions_Inr_iff [of 0 "m_fdefs m"] assms(1) wf
    by (auto simp: binary_validate_def counting_init bodies_map list_all_iff)
  also have "\<dots> \<longleftrightarrow> n \<le> 1022"
    using repeated_if_else [of 0 n] by (auto simp: js_def count_depth_def)
  finally show ?thesis .
qed

section \<open>References to functions\<close>

definition function_type_at :: "wasm_module \<Rightarrow> nat \<Rightarrow> function_type option" where
  "function_type_at m i = Option.bind (function_getType m i) (\<lambda>t. if t < length (m_types m) then Some (m_types m ! t) else None)"

lemma with_code_nth: "length fds = length iss \<Longrightarrow> i < length fds \<Longrightarrow> with_code fds iss ! i = (fds ! i)\<lparr>fd_code := code_bytes (iss ! i)\<rparr>"
  by (simp add: with_code_def)

lemma decoded_type_indices:
  assumes "decoded_module m" and "function_getType m j = Some t"
  shows "t < length (m_types m)"
  using assms by (auto simp: function_getType_def decoded_module_def split: if_splits)

lemma injected_getType:
  assumes "injected m0 N m'" and "m_fdefs m' = with_code (m_fdefs m0) iss" and "length (m_fdefs m0) = length iss"
  shows "function_getType m' (j + length N) = function_getType m0 j"
    and "k < length N \<Longrightarrow> function_type_at m' k = Some (snd (N ! k))"
proof -
  obtain imps where i: "m_fimports m' = imps @ m_fimports m0" "imports_for (m_types m') N imps" using assms(1) by (auto simp: injected_def)
  have l: "length imps = length N" using i(2) by (auto simp: imports_for_def dest: list_all2_lengthD)
  show "function_getType m' (j + length N) = function_getType m0 j"
    using l assms(3) by (auto simp: function_getType_def i(1) assms(2) nth_append with_code_nth)
  assume k: "k < length N"
  then have "fi_type (imps ! k) < length (m_types m')" "m_types m' ! fi_type (imps ! k) = snd (N ! k)"
    using i(2) l by (cases "N ! k"; auto simp: imports_for_def list_all2_conv_all_nth split: prod.splits)+
  then show "function_type_at m' k = Some (snd (N ! k))"
    using k l by (simp add: function_type_at_def function_getType_def i(1) nth_append)
qed

lemma injected_type_at:
  assumes "injected m0 N m'" and "m_fdefs m' = with_code (m_fdefs m0) iss" and "length (m_fdefs m0) = length iss" and "decoded_module m0"
  shows "function_type_at m' (j + length N) = function_type_at m0 j"
proof -
  obtain ts where "m_types m' = m_types m0 @ ts" using assms(1) by (auto simp: injected_def)
  then show ?thesis
    using decoded_type_indices [OF assms(4), of j]
    unfolding function_type_at_def injected_getType(1) [OF assms(1-3)]
    by (cases "function_getType m0 j") (auto simp: nth_append)
qed

lemma decoded_max_memory: "decoded_module (max_memory_inject m) \<longleftrightarrow> decoded_module m"
  by (simp add: decoded_module_def)

lemma function_getType_max_memory [simp]: "function_getType (max_memory_inject m) = function_getType m"
  by (rule ext) (simp add: function_getType_def)

lemma function_type_at_max_memory [simp]: "function_type_at (max_memory_inject m) = function_type_at m"
  by (rule ext) (simp add: function_type_at_def cong: if_cong)

text \<open>The limits that the validation established still hold after the injection.\<close>

lemma injected_within_limits:
  assumes "injected (max_memory_inject m) N m'" and "m_fdefs m' = with_code (m_fdefs m) iss" and "length (m_fdefs m) = length iss"
    and "decoded_module m" and "within_limits m"
  shows "within_limits m'"
proof -
  define m0 where "m0 = max_memory_inject m"
  have d0: "decoded_module m0" using assms(4) by (simp add: m0_def decoded_max_memory)
  have i: "injected m0 N m'" "m_fdefs m' = with_code (m_fdefs m0) iss" "length (m_fdefs m0) = length iss"
    using assms(1-3) by (simp_all add: m0_def)
  obtain ts where ts: "m_types m' = m_types m @ ts" using assms(1) by (auto simp: injected_def)
  have same: "m_tables m' = m_tables m" "m_globals m' = m_globals m" "m_data m' = m_data m" "m_memories m' = m_memories m0"
      "m_exports m' = shift_exports (length N) (m_exports m)"
    using assms(1) by (simp_all add: injected_def m0_def)
  note w = assms(5) [unfolded within_limits_def]
  have "\<forall>s. m_memories m' \<noteq> [] \<and> s = hd (m_memories m') \<longrightarrow> unat (size_min s) * 65536 \<le> 33 * 1024 * 1024"
    using w unfolding same(4) m0_def max_memory_inject_def by (cases "m_memories m") auto
  moreover have "(\<Sum>t\<leftarrow>fd_locals f. type_bytes t) + (\<Sum>t\<leftarrow>ft_parameters (m_types m' ! fd_type f). type_bytes t) \<le> 8192"
    if f: "f \<in> set (m_fdefs m')" for f
  proof -
    obtain n where n: "n < length (m_fdefs m)" "f = with_code (m_fdefs m) iss ! n"
      using f assms(2,3) by (auto simp: in_set_conv_nth)
    define g where "g = m_fdefs m ! n"
    have g: "g \<in> set (m_fdefs m)" "fd_locals f = fd_locals g" "fd_type f = fd_type g"
      using n assms(3) by (simp_all add: g_def with_code_nth)
    have "fd_type g < length (m_types m)" using assms(4) g(1) by (auto simp: decoded_module_def)
    then have "m_types m' ! fd_type f = m_types m ! fd_type g" using g(3) ts by (simp add: nth_append)
    then show ?thesis using w g(1,2) by simp
  qed
  moreover have "\<exists>e\<in>set (m_exports m'). ex_kind e = OK_function \<and> ex_name e = ''apply'' \<and>
      (\<exists>t. function_getType m' (ex_index e) = Some t \<and> m_types m' ! t = apply_type)"
  proof -
    obtain e t where e: "e \<in> set (m_exports m)" "ex_kind e = OK_function" "ex_name e = ''apply''"
        "function_getType m (ex_index e) = Some t" "m_types m ! t = apply_type"
      using w by blast
    have "t < length (m_types m)" by (rule decoded_type_indices [OF assms(4) e(4)])
    then have "m_types m' ! t = apply_type" using e(5) ts by (simp add: nth_append)
    moreover have "function_getType m' (ex_index e + length N) = Some t"
      using injected_getType(1) [OF i] e(4) by (simp add: m0_def)
    moreover have "e\<lparr>ex_index := ex_index e + length N\<rparr> \<in> set (m_exports m')"
      using e(1,2) unfolding same(5) shift_exports_def set_map by (intro image_eqI [of _ _ e]) simp_all
    ultimately show ?thesis using e(2,3) by (intro bexI [of _ "e\<lparr>ex_index := ex_index e + length N\<rparr>"]) simp_all
  qed
  ultimately show ?thesis using w unfolding within_limits_def same(1-3) by blast
qed

text \<open>
  A validated module whose code ends in \<open>end\<close> and calls functions of the module, as the decoder of the
  code guarantees, with the instructions \<open>iss\<close> of its functions.
\<close>

definition ready_module :: "wasm_module \<Rightarrow> instr list list \<Rightarrow> bool" where
  "ready_module m iss \<longleftrightarrow>
     (\<exists>s. binary_validate m = Some (Inr s)) \<and> decoded_module m \<and> small_module m \<and> bodies (m_fdefs m) iss \<and>
     (\<forall>is\<in>set iss. closed_code is \<and> length is < 2 ^ 50 \<and> list_all (calls_in_range m) is)"

lemma ready_module_inject:
  assumes "ready_module m iss"
  shows "\<exists>m' ij. binary_inject m = Some (Inr (m', ij)) \<and> distinct (map fst (injected_functions iss)) \<and>
    injected (max_memory_inject m) (injected_functions iss) m' \<and>
    m_fdefs m' = with_code (m_fdefs m) (map (linked_code (injected_functions iss)) iss) \<and>
    length (m_fdefs m) = length iss \<and> decoded_module m \<and> within_limits m"
proof -
  note r = assms [unfolded ready_module_def]
  obtain s where "binary_validate m = Some (Inr s)" using r by blast
  then obtain jss where j: "bodies (m_fdefs m) jss" "\<forall>is\<in>set jss. list_all wf_instr is \<and> list_all priced is \<and> list_all allowed_instr is"
      "module_validate m = Some (Inr ())"
    by (rule validated_bodies)
  have "jss = iss" using bodies_unique j(1) r by blast
  then have "\<forall>is\<in>set iss. linkable m is" using j(2) r by (simp add: linkable_def)
  moreover have "within_limits m" using module_validate_iff [of m] j(3) r by auto
  moreover have "length (m_fdefs m) = length iss" using r by (auto simp: bodies_def dest: list_all2_lengthD)
  ultimately show ?thesis using binary_inject_linked [of m iss] r by blast
qed

end
