(* ===== verification/WL_Image.thy ===== *)
theory WL_Image
  imports WL_Memory WL_Linked
begin

text \<open>
  What the memory of a contract holds when it starts: the image of the data segments
  (\<open>parse_initial_memory\<close> of \<open>wasm_interface.hpp\<close>) and the one memory instance that all
  contracts of a call share (\<open>createMemory\<close>, \<open>growMemory\<close>, \<open>shrinkMemory\<close> and \<open>resetMemory\<close> of
  \<open>Runtime/Memory.cpp\<close>). Whether the operating system can provide pages is a parameter.
\<close>

section \<open>The image of the data segments\<close>

definition segment_error :: ftl_exception where
  "segment_error = wasm_runtime_exception ''WASM data segment outside of valid memory range''"

text \<open>\<open>resize\<close> with zeros, when the segment ends behind the image, and the copy.\<close>

definition place_segment :: "nat \<Rightarrow> u8 list \<Rightarrow> u8 list \<Rightarrow> u8 list" where
  "place_segment base bs img = overwrite base bs (img @ replicate (base + length bs - length img) 0)"

fun parse_segments :: "size_constraints list \<Rightarrow> data_segment list \<Rightarrow> u8 list \<Rightarrow> u8 list result" where
  "parse_segments mems [] mem_image = Inr mem_image"
| "parse_segments mems (d # ds) mem_image =
     (case (ds_base d, mems) of
        (Init_i32_const base, s # _) \<Rightarrow>
          let base_offset = ucast base :: u64;
              memory_size = push_bit 16 (size_min s);
              segment_end = base_offset + of_nat (length (ds_data d))
          in if memory_size \<le> base_offset \<or> memory_size < segment_end then Inl segment_error
             else parse_segments mems ds (place_segment (unat base) (ds_data d) mem_image)
      | _ \<Rightarrow> Inl (wasm_runtime_exception ''''))"

definition parse_initial_memory :: "wasm_module \<Rightarrow> u8 list result" where
  "parse_initial_memory m = parse_segments (m_memories m) (m_data m) []"

text \<open>The description: the last segment that covers an address gives its byte.\<close>

definition covers :: "data_segment \<Rightarrow> nat \<Rightarrow> bool" where
  "covers d i \<longleftrightarrow> (case ds_base d of Init_i32_const base \<Rightarrow> unat base \<le> i \<and> i < unat base + length (ds_data d) | _ \<Rightarrow> False)"

definition segment_byte :: "data_segment \<Rightarrow> nat \<Rightarrow> u8" where
  "segment_byte d i = (case ds_base d of Init_i32_const base \<Rightarrow> ds_data d ! (i - unat base) | _ \<Rightarrow> 0)"

fun initial_byte :: "data_segment list \<Rightarrow> nat \<Rightarrow> u8 \<Rightarrow> u8" where
  "initial_byte [] i b = b"
| "initial_byte (d # ds) i b = initial_byte ds i (if covers d i then segment_byte d i else b)"

definition fits :: "size_constraints list \<Rightarrow> data_segment \<Rightarrow> bool" where
  "fits mems d \<longleftrightarrow> (\<exists>base. ds_base d = Init_i32_const base \<and> mems \<noteq> [] \<and>
     unat base < 65536 * unat (size_min (hd mems)) \<and> unat base + length (ds_data d) \<le> 65536 * unat (size_min (hd mems)))"

definition image_end :: "data_segment \<Rightarrow> nat" where
  "image_end d = (case ds_base d of Init_i32_const base \<Rightarrow> unat base + length (ds_data d) | _ \<Rightarrow> 0)"

lemma initial_byte_append: "initial_byte (xs @ ys) i b = initial_byte ys i (initial_byte xs i b)"
  by (induction xs arbitrary: b) auto

lemma initial_byte_uncovered: "\<forall>d\<in>set ds. \<not> covers d i \<Longrightarrow> initial_byte ds i b = b"
  by (induction ds) auto

lemma initial_byte_last:
  assumes "ds = xs @ d # ys" and "covers d i" and "\<forall>e\<in>set ys. \<not> covers e i"
  shows "initial_byte ds i b = segment_byte d i"
  using assms by (simp add: initial_byte_append initial_byte_uncovered)

lemma length_place_segment: "length (place_segment base bs img) = max (length img) (base + length bs)"
  by (auto simp: place_segment_def overwrite_def)

lemma place_segment_nth:
  assumes "i < max (length img) (base + length bs)"
  shows "place_segment base bs img ! i =
    (if base \<le> i \<and> i < base + length bs then bs ! (i - base) else if i < length img then img ! i else 0)"
  using assms by (auto simp: place_segment_def overwrite_nth nth_append)

text \<open>The comparison on 64-bit words is the one on numbers, for memories of real size.\<close>

lemma segment_check:
  fixes base :: u32 and pages :: u64
  assumes "unat pages \<le> 65536" and "n < 2 ^ 63"
  shows "(push_bit 16 pages \<le> ucast base \<or> push_bit 16 pages < ucast base + of_nat n) =
    (\<not> (unat base < 65536 * unat pages \<and> unat base + n \<le> 65536 * unat pages))"
proof -
  have p: "unat (push_bit 16 pages :: u64) = 65536 * unat pages"
    using assms(1) by (simp add: push_bit_eq_mult unat_word_ariths)
  have b: "unat (ucast base :: u64) = unat base" by (simp add: unat_ucast_up)
  have "unat base < 2 ^ 32" using unat_lt [of base] by simp
  then have s: "unat (ucast base + of_nat n :: u64) = unat base + n"
    using assms(2) by (simp add: unat_word_ariths b unat_of_nat)
  show ?thesis by (auto simp: word_le_nat_alt word_less_nat_alt p b s)
qed

lemma parse_segments_correct:
  assumes "mems \<noteq> [] \<longrightarrow> unat (size_min (hd mems)) \<le> 65536" and "\<forall>d\<in>set ds. length (ds_data d) < 2 ^ 63"
  shows "((\<exists>img'. parse_segments mems ds img = Inr img') = (\<forall>d\<in>set ds. fits mems d)) \<and>
    (\<forall>img'. parse_segments mems ds img = Inr img' \<longrightarrow>
       length img' = Max (insert (length img) (image_end ` set ds)) \<and>
       (\<forall>i < length img'. img' ! i = initial_byte ds i (if i < length img then img ! i else 0)))"
  using assms(2)
proof (induction ds arbitrary: img)
  case (Cons d ds)
  show ?case
  proof (cases "fits mems d")
    case True
    then obtain base s ms where b: "ds_base d = Init_i32_const base" "mems = s # ms"
        "unat base < 65536 * unat (size_min s) \<and> unat base + length (ds_data d) \<le> 65536 * unat (size_min s)"
      by (cases mems) (auto simp: fits_def)
    have e: "parse_segments mems (d # ds) img = parse_segments mems ds (place_segment (unat base) (ds_data d) img)"
      using segment_check [of "size_min s" "length (ds_data d)" base] b assms(1) Cons.prems by (simp add: Let_def)
    have mx: "Max (insert (length (place_segment (unat base) (ds_data d) img)) (image_end ` set ds)) =
        Max (insert (length img) (image_end ` set (d # ds)))"
      by (cases "set ds = {}") (simp_all add: length_place_segment image_end_def b(1) Max_insert2 ac_simps)
    have v: "initial_byte ds i (if i < length (place_segment (unat base) (ds_data d) img) then place_segment (unat base) (ds_data d) img ! i else 0) =
        initial_byte (d # ds) i (if i < length img then img ! i else 0)" for i
      by (auto simp: length_place_segment place_segment_nth covers_def segment_byte_def b(1))
    show ?thesis using Cons.IH [of "place_segment (unat base) (ds_data d) img"] Cons.prems True unfolding e mx v by simp
  next
    case False
    have "\<exists>x. parse_segments mems (d # ds) img = Inl x"
    proof (cases "ds_base d")
      case (Init_i32_const base)
      then show ?thesis
        using False segment_check [of "size_min (hd mems)" "length (ds_data d)" base] assms(1) Cons.prems
        by (cases mems) (auto simp: fits_def Let_def)
    qed auto
    then show ?thesis using False by auto
  qed
qed simp

lemma parse_segments_code: "parse_segments mems ds img = Inl e \<Longrightarrow> exception_code e = 20003"
  by (induction ds arbitrary: img) (auto simp: segment_error_def Let_def split: init_expr.splits list.splits if_splits)

lemma parse_initial_memory_correct:
  assumes "decoded_module m" and "m_memories m \<noteq> [] \<longrightarrow> unat (size_min (hd (m_memories m))) \<le> 65536"
  shows "(\<exists>img. parse_initial_memory m = Inr img) = (\<forall>d\<in>set (m_data m). fits (m_memories m) d)"
    and "parse_initial_memory m = Inr img \<Longrightarrow> length img = Max (insert 0 (image_end ` set (m_data m)))"
    and "parse_initial_memory m = Inr img \<Longrightarrow> i < length img \<Longrightarrow> img ! i = initial_byte (m_data m) i 0"
  using parse_segments_correct [of "m_memories m" "m_data m" "[]"] assms
  by (auto simp: parse_initial_memory_def decoded_module_def)

lemma image_length:
  assumes "decoded_module m" and "m_memories m = s # ms" and "unat (size_min s) \<le> 65536" and "parse_initial_memory m = Inr img"
  shows "length img \<le> 65536 * unat (size_min s)"
proof -
  have "\<forall>d\<in>set (m_data m). image_end d \<le> 65536 * unat (size_min s)"
    using parse_initial_memory_correct(1) [OF assms(1)] assms(2-4) by (auto simp: fits_def image_end_def)
  then show ?thesis using parse_initial_memory_correct(2) [OF assms(1) _ assms(4)] assms(2,3) by auto
qed

section \<open>The memory instance\<close>

text \<open>
  The bytes are those of the pages in use; the address space behind them is reserved and traps.
\<close>

record memory_instance =
  mi_pages :: u64
  mi_type :: size_constraints
  mi_bytes :: "u8 list"

definition pages_ok :: "memory_instance \<Rightarrow> bool" where
  "pages_ok mi \<longleftrightarrow> length (mi_bytes mi) = 65536 * unat (mi_pages mi)"

text \<open>
  \<open>commit p n\<close> tells whether the system provides \<open>n\<close> pages behind the first \<open>p\<close>; all ones is the
  failure.
\<close>

definition growMemory :: "(u64 \<Rightarrow> u64 \<Rightarrow> bool) \<Rightarrow> u64 \<Rightarrow> memory_instance \<Rightarrow> u64 \<times> memory_instance" where
  "growMemory commit numNewPages mi =
     (if 0 < numNewPages then
        if size_max (mi_type mi) < numNewPages \<or> size_max (mi_type mi) - numNewPages < mi_pages mi then (- 1, mi)
        else if \<not> commit (mi_pages mi) numNewPages then (- 1, mi)
        else (mi_pages mi, mi\<lparr>mi_pages := mi_pages mi + numNewPages, mi_bytes := mi_bytes mi @ replicate (65536 * unat numNewPages) 0\<rparr>)
      else (mi_pages mi, mi))"

definition shrinkMemory :: "u64 \<Rightarrow> memory_instance \<Rightarrow> u64 \<times> memory_instance" where
  "shrinkMemory numPagesToShrink mi =
     (if 0 < numPagesToShrink then
        if mi_pages mi < numPagesToShrink \<or> mi_pages mi - numPagesToShrink < size_min (mi_type mi) then (- 1, mi)
        else (let n = mi_pages mi - numPagesToShrink
              in (mi_pages mi, mi\<lparr>mi_pages := n, mi_bytes := take (65536 * unat n) (mi_bytes mi)\<rparr>))
      else (mi_pages mi, mi))"

definition createMemory :: "bool \<Rightarrow> (u64 \<Rightarrow> u64 \<Rightarrow> bool) \<Rightarrow> size_constraints \<Rightarrow> memory_instance option" where
  "createMemory reserved commit type =
     (if \<not> reserved then None
      else let (r, mi) = growMemory commit (size_min type) \<lparr>mi_pages = 0, mi_type = type, mi_bytes = []\<rparr>
           in if r = - 1 then None else Some mi)"

text \<open>\<open>resetMemory\<close>; the first component tells that it did not end in an out-of-memory exception.\<close>

definition resetMemory :: "(u64 \<Rightarrow> u64 \<Rightarrow> bool) \<Rightarrow> size_constraints \<Rightarrow> memory_instance \<Rightarrow> bool \<times> memory_instance" where
  "resetMemory commit newMemoryType mi =
     (let mi = mi\<lparr>mi_type := (mi_type mi)\<lparr>size_min := 1\<rparr>\<rparr>;
          (r, mi) = shrinkMemory (mi_pages mi - 1) mi
      in if r = - 1 then (False, mi)
         else
           let mi = mi\<lparr>mi_bytes := overwrite 0 (replicate 65536 0) (mi_bytes mi)\<rparr>;
               mi = mi\<lparr>mi_type := newMemoryType\<rparr>;
               (r, mi) = growMemory commit (size_min (mi_type mi) - 1) mi
           in (r \<noteq> - 1, mi))"

lemma unat_minus_one64: "unat (- 1 :: u64) = 18446744073709551615"
  by (simp add: unsigned_minus_1_eq_mask mask_eq_exp_minus_1)

text \<open>
  What the reset provides, given one page of the old instance: a type of one page always, one of more
  pages when they are not more than its maximum and the system provides them, and one of no pages never,
  since the growth by one page less is then a growth by all ones.
\<close>

definition pages_provided :: "(u64 \<Rightarrow> u64 \<Rightarrow> bool) \<Rightarrow> size_constraints \<Rightarrow> bool" where
  "pages_provided commit ty \<longleftrightarrow>
     size_min ty = 1 \<or> 1 < size_min ty \<and> size_min ty \<le> size_max ty \<and> commit 1 (size_min ty - 1)"

abbreviation zero_pages :: "u64 \<Rightarrow> size_constraints \<Rightarrow> memory_instance" where
  "zero_pages n ty \<equiv> \<lparr>mi_pages = n, mi_type = ty, mi_bytes = replicate (65536 * unat n) 0\<rparr>"

lemma growMemory_first_page:
  "growMemory commit (size_min ty - 1) (zero_pages 1 ty) =
    (if pages_provided commit ty then (1, zero_pages (size_min ty) ty) else (- 1, zero_pages 1 ty))"
proof -
  consider "size_min ty = 0" | "size_min ty = 1" | "1 < size_min ty" by (metis linorder_neqE word_less_1)
  then show ?thesis
  proof cases
    case 1
    have "size_max ty < - 1 \<or> size_max ty - (- 1) < 1" by (cases "size_max ty = - 1") (simp_all add: word_order.not_eq_extremum)
    then show ?thesis using 1 by (simp add: growMemory_def pages_provided_def word_gt_0)
  next
    case 2
    then show ?thesis by (simp add: growMemory_def pages_provided_def)
  next
    case 3
    then have u: "unat (size_min ty - 1) = unat (size_min ty) - 1" "1 < unat (size_min ty)" by (simp_all add: unat_sub word_less_nat_alt word_le_nat_alt)
    have m: "size_min ty \<le> size_max ty \<longleftrightarrow> \<not> (size_max ty < size_min ty - 1 \<or> size_max ty - (size_min ty - 1) < 1)"
      using u by (auto simp: word_less_nat_alt word_le_nat_alt unat_sub_if_size)
    have r: "replicate 65536 0 @ replicate (65536 * unat (size_min ty - 1)) 0 = replicate (65536 * unat (size_min ty)) (0 :: u8)"
      using u by (simp add: replicate_add [symmetric] algebra_simps)
    have "0 < size_min ty - 1" "size_min ty \<noteq> 1" using u by (auto simp: word_less_nat_alt)
    then show ?thesis using 3 by (simp add: growMemory_def pages_provided_def m r)
  qed
qed

lemma resetMemory_exact:
  assumes "pages_ok mi" and "unat (mi_pages mi) \<le> 65536"
  shows "resetMemory commit ty mi =
    (if mi_pages mi = 0 then (False, mi\<lparr>mi_type := (mi_type mi)\<lparr>size_min := 1\<rparr>\<rparr>)
     else if pages_provided commit ty then (True, zero_pages (size_min ty) ty) else (False, zero_pages 1 ty))"
proof -
  define mi1 where "mi1 = mi\<lparr>mi_type := (mi_type mi)\<lparr>size_min := 1\<rparr>\<rparr>"
  show ?thesis
  proof (cases "mi_pages mi = 0")
    case True
    have "shrinkMemory (mi_pages mi - 1) mi1 = (- 1, mi1)" using True by (simp add: shrinkMemory_def mi1_def word_gt_0)
    moreover have "mi_pages mi1 = mi_pages mi" by (simp add: mi1_def)
    ultimately show ?thesis using True unfolding resetMemory_def mi1_def [symmetric] Let_def by simp
  next
    case False
    have s: "shrinkMemory (mi_pages mi - 1) mi1 = (mi_pages mi, mi1\<lparr>mi_pages := 1, mi_bytes := take 65536 (mi_bytes mi)\<rparr>)"
    proof (cases "mi_pages mi = 1")
      case n: False
      have "unat (mi_pages mi - 1) = unat (mi_pages mi) - 1" using False by (simp add: unat_minus_one)
      then have "\<not> mi_pages mi < mi_pages mi - 1" by (simp add: word_less_nat_alt)
      then show ?thesis using False n by (simp add: shrinkMemory_def mi1_def word_gt_0 Let_def)
    qed (use assms(1) in \<open>simp add: shrinkMemory_def mi1_def pages_ok_def\<close>)
    have n1: "mi_pages mi \<noteq> - 1" using assms(2) unat_minus_one64 by auto
    have "0 < unat (mi_pages mi)" using False by (simp add: unat_gt_0)
    then have "length (take 65536 (mi_bytes mi)) = 65536" using assms(1) by (simp add: pages_ok_def)
    then have o: "overwrite 0 (replicate 65536 0) (take 65536 (mi_bytes mi)) = replicate 65536 0" by (simp add: overwrite_def)
    have c: "mi\<lparr>mi_pages := 1, mi_bytes := bs, mi_type := ty\<rparr> = \<lparr>mi_pages = 1, mi_type = ty, mi_bytes = bs\<rparr>" for bs by (cases mi) simp
    have g: "growMemory commit (size_min ty - 1) \<lparr>mi_pages = 1, mi_type = ty, mi_bytes = replicate 65536 0\<rparr> =
        (if pages_provided commit ty then (1, zero_pages (size_min ty) ty) else (- 1, zero_pages 1 ty))"
      using growMemory_first_page [of commit ty] by simp
    show ?thesis unfolding resetMemory_def mi1_def [symmetric] Let_def using s n1 False
      by (simp add: mi1_def o c g)
  qed
qed

end
