(* ===== verification/WL_Runtime.thy ===== *)
theory WL_Runtime
  imports WL_Image
begin

text \<open>
  Running a contract: \<open>wasm_interface::validate\<close>, \<open>apply\<close> and \<open>get_instantiated_module\<close>,
  \<open>wasm_instantiated_module::call\<close> with the parts of \<open>Runtime\<close> it uses, and the entry \<open>execute\<close> of
  \<open>wasmlib.cpp\<close>. The decoder, the linker and the machine code are parameters.
\<close>

section \<open>Instances and calls\<close>

datatype run_stop =
    Stopped stop
  | Out_of_memory
  | Signature_mismatch

text \<open>The values of the globals are of any type; \<open>in_initial\<close> are those after the instantiation.\<close>

record 'g module_instance =
  in_module :: wasm_module
  in_image :: "u8 list"
  in_initial :: 'g
  in_globals :: 'g

text \<open>A later export of the same name replaces an earlier one in \<open>exportMap\<close>.\<close>

definition getInstanceExport :: "wasm_module \<Rightarrow> string \<Rightarrow> (object_kind \<times> nat) option" where
  "getInstanceExport m = map_of (rev (map (\<lambda>e. (ex_name e, ex_kind e, ex_index e)) (m_exports m)))"

fun asFunctionNullable :: "(object_kind \<times> nat) option \<Rightarrow> nat option" where
  "asFunctionNullable (Some (OK_function, i)) = Some i"
| "asFunctionNullable _ = None"

text \<open>
  The machine code of a module: called with a function and the bits of its arguments. Leaving it
  through \<open>immediately_exit\<close> is a normal return for \<open>invokeFunction\<close>.
\<close>

type_synonym ('g, 'w) machine = "nat \<Rightarrow> u64 list \<Rightarrow> 'g \<times> 'w host_state \<Rightarrow> (stop + unit) \<times> 'g \<times> 'w host_state"

definition invokeFunction ::
    "wasm_module \<Rightarrow> ('g, 'w) machine \<Rightarrow> nat \<Rightarrow> (value_type \<times> u64) list \<Rightarrow> 'g \<times> 'w host_state \<Rightarrow> (run_stop + unit) \<times> 'g \<times> 'w host_state" where
  "invokeFunction m machine f args st =
     (case function_type_at m f of
        None \<Rightarrow> (Inl (Stopped Undefined), st)
      | Some t \<Rightarrow>
          if length args \<noteq> length (ft_parameters t) then (Inl Signature_mismatch, st)
          else if ft_parameters t \<noteq> map fst args then (Inl Signature_mismatch, st)
          else (case machine f (map snd args) st of
                  (Inl Exited, st') \<Rightarrow> (Inr (), st')
                | (Inl e, st') \<Rightarrow> (Inl (Stopped e), st')
                | (Inr _, st') \<Rightarrow> (Inr (), st')))"

definition runInstanceStartFunc ::
    "wasm_module \<Rightarrow> ('g, 'w) machine \<Rightarrow> 'g \<times> 'w host_state \<Rightarrow> (run_stop + unit) \<times> 'g \<times> 'w host_state" where
  "runInstanceStartFunc m machine st =
     (if m_start m \<noteq> - 1 then invokeFunction m machine (unat (m_start m)) [] st else (Inr (), st))"

text \<open>The end of \<open>call\<close>, from \<open>resetGlobalInstances\<close> on.\<close>

definition run_entry ::
    "('g, 'w) machine \<Rightarrow> nat \<Rightarrow> (value_type \<times> u64) list \<Rightarrow> 'g module_instance \<Rightarrow> 'w host_state \<Rightarrow> (run_stop + unit) \<times> 'g \<times> 'w host_state" where
  "run_entry machine f args inst s =
     (case runInstanceStartFunc (in_module inst) machine (in_initial inst, s) of
        (Inl e, st) \<Rightarrow> (Inl e, st)
      | (Inr _, st) \<Rightarrow> invokeFunction (in_module inst) machine f args st)"

text \<open>The memory instance after a run that left these bytes in the memory.\<close>

definition memory_after :: "memory_instance \<Rightarrow> 'w host_state \<Rightarrow> memory_instance" where
  "memory_after mi s =
     (case memory s of None \<Rightarrow> mi | Some bs \<Rightarrow> mi\<lparr>mi_pages := of_nat (length bs div 65536), mi_bytes := bs\<rparr>)"

definition instance_call ::
    "(u64 \<Rightarrow> u64 \<Rightarrow> bool) \<Rightarrow> ('g, 'w) machine \<Rightarrow> string \<Rightarrow> (value_type \<times> u64) list \<Rightarrow>
     memory_instance option \<Rightarrow> 'g module_instance \<Rightarrow> 'w host_state \<Rightarrow>
     (run_stop + unit) \<times> memory_instance option \<times> 'g module_instance \<times> 'w host_state" where
  "instance_call commit machine entry_point args mi inst s =
     (case asFunctionNullable (getInstanceExport (in_module inst) entry_point) of
        None \<Rightarrow> (Inr (), mi, inst, s)
      | Some f \<Rightarrow>
        (case function_type_at (in_module inst) f of
           None \<Rightarrow> (Inl (Stopped Undefined), mi, inst, s)
         | Some t \<Rightarrow>
           if length (ft_parameters t) \<noteq> length args then (Inl (Stopped (Thrown (wasm_runtime_exception ''''))), mi, inst, s)
           else
             (case m_memories (in_module inst) of
                [] \<Rightarrow>
                  (case run_entry machine f args inst (s\<lparr>memory := None\<rparr>) of (r, g, s') \<Rightarrow> (r, mi, inst\<lparr>in_globals := g\<rparr>, s'))
              | ty # _ \<Rightarrow>
                (case mi of
                   None \<Rightarrow> (Inl (Stopped Undefined), mi, inst, s)
                 | Some default_mem \<Rightarrow>
                   (case resetMemory commit ty default_mem of (ok, default_mem) \<Rightarrow>
                      if \<not> ok then (Inl Out_of_memory, Some default_mem, inst, s)
                      else if length (mi_bytes default_mem) < length (in_image inst) then (Inl (Stopped Undefined), Some default_mem, inst, s)
                      else
                        let default_mem = default_mem\<lparr>mi_bytes := overwrite 0 (in_image inst) (mi_bytes default_mem)\<rparr>
                        in (case run_entry machine f args inst (s\<lparr>memory := Some (mi_bytes default_mem)\<rparr>) of
                              (r, g, s') \<Rightarrow> (r, Some (memory_after default_mem s'), inst\<lparr>in_globals := g\<rparr>, s')))))))"

definition instance_apply ::
    "(u64 \<Rightarrow> u64 \<Rightarrow> bool) \<Rightarrow> ('g, 'w) machine \<Rightarrow> wasm_context \<Rightarrow> memory_instance option \<Rightarrow> 'g module_instance \<Rightarrow> 'w host_state \<Rightarrow>
     (run_stop + unit) \<times> memory_instance option \<times> 'g module_instance \<times> 'w host_state" where
  "instance_apply commit machine cx = instance_call commit machine ''apply'' [(VT_i64, act_name cx)]"

section \<open>Instantiation and the entry\<close>

text \<open>
  \<open>relink\<close> stands for writing the injected module, reading it back, linking and compiling it; it
  gives the initial values of the globals. Without a shared memory the module's own is created.
\<close>

definition instantiate_module ::
    "(wasm_module \<Rightarrow> 'g result) \<Rightarrow> bool \<Rightarrow> (u64 \<Rightarrow> u64 \<Rightarrow> bool) \<Rightarrow> wasm_module \<Rightarrow> u8 list \<Rightarrow> memory_instance option \<Rightarrow>
     (run_stop + 'g module_instance) \<times> memory_instance option" where
  "instantiate_module relink reserved commit m initial_memory mi =
     (case relink m of
        Inl e \<Rightarrow> (Inl (Stopped (Thrown e)), mi)
      | Inr g \<Rightarrow>
          let inst = \<lparr>in_module = m, in_image = initial_memory, in_initial = g, in_globals = g\<rparr>
          in (case (m_memories m, mi) of
                (ty # _, None) \<Rightarrow>
                  (case createMemory reserved commit ty of
                     None \<Rightarrow> (Inl Out_of_memory, None)
                   | Some mem \<Rightarrow> (Inr inst, Some mem))
              | _ \<Rightarrow> (Inr inst, mi)))"

type_synonym 'g cache = "u8 list \<rightharpoonup> 'g module_instance"

definition get_instantiated_module ::
    "(u8 list \<Rightarrow> wasm_module result) \<Rightarrow> (wasm_module \<Rightarrow> 'g result) \<Rightarrow> bool \<Rightarrow> (u64 \<Rightarrow> u64 \<Rightarrow> bool) \<Rightarrow>
     u8 list \<Rightarrow> u8 list \<Rightarrow> 'g cache \<Rightarrow> memory_instance option \<Rightarrow> (run_stop + 'g module_instance) \<times> 'g cache \<times> memory_instance option" where
  "get_instantiated_module decode relink reserved commit code_id code instantiation_cache mi =
     (case instantiation_cache code_id of
        Some inst \<Rightarrow> (Inr inst, instantiation_cache, mi)
      | None \<Rightarrow>
        (case decode code of
           Inl e \<Rightarrow> (Inl (Stopped (Thrown e)), instantiation_cache, mi)
         | Inr m \<Rightarrow>
           (case binary_inject m of
              None \<Rightarrow> (Inl (Stopped Undefined), instantiation_cache, mi)
            | Some (Inl e) \<Rightarrow> (Inl (Stopped (Thrown e)), instantiation_cache, mi)
            | Some (Inr (m', _)) \<Rightarrow>
              (case parse_initial_memory m' of
                 Inl e \<Rightarrow> (Inl (Stopped (Thrown e)), instantiation_cache, mi)
               | Inr img \<Rightarrow>
                 (case instantiate_module relink reserved commit m' img mi of
                    (Inl e, mi) \<Rightarrow> (Inl e, instantiation_cache, mi)
                  | (Inr inst, mi) \<Rightarrow> (Inr inst, instantiation_cache(code_id \<mapsto> inst), mi))))))"

text \<open>\<open>wasm_interface::apply\<close>; a run changes the globals of the cached instance.\<close>

definition interface_apply ::
    "(u8 list \<Rightarrow> wasm_module result) \<Rightarrow> (wasm_module \<Rightarrow> 'g result) \<Rightarrow> bool \<Rightarrow> (u64 \<Rightarrow> u64 \<Rightarrow> bool) \<Rightarrow>
     (wasm_context \<Rightarrow> wasm_module \<Rightarrow> ('g, 'w) machine) \<Rightarrow> u8 list \<Rightarrow> u8 list \<Rightarrow> wasm_context \<Rightarrow>
     'g cache \<Rightarrow> memory_instance option \<Rightarrow> 'w host_state \<Rightarrow>
     (run_stop + unit) \<times> 'g cache \<times> memory_instance option \<times> 'w host_state" where
  "interface_apply decode relink reserved commit machine code_id code cx cache mi s =
     (case get_instantiated_module decode relink reserved commit code_id code cache mi of
        (Inl e, cache, mi) \<Rightarrow> (Inl e, cache, mi, s)
      | (Inr inst, cache, mi) \<Rightarrow>
          (case instance_apply commit (machine cx (in_module inst)) cx mi inst s of
             (r, mi, inst, s) \<Rightarrow> (r, cache(code_id \<mapsto> inst), mi, s)))"

text \<open>
  \<open>execute\<close>: the first eight bytes of the action are its name. Only exceptions of the library
  become a return code; everything else leaves the function.
\<close>

definition execute ::
    "(u8 list \<Rightarrow> u8 list) \<Rightarrow> (u8 list \<Rightarrow> wasm_module result) \<Rightarrow> (wasm_module \<Rightarrow> 'g result) \<Rightarrow> bool \<Rightarrow> (u64 \<Rightarrow> u64 \<Rightarrow> bool) \<Rightarrow>
     (wasm_context \<Rightarrow> wasm_module \<Rightarrow> ('g, 'w) machine) \<Rightarrow> u8 list \<Rightarrow> u8 list \<Rightarrow> u8 list \<times> u8 list \<times> u8 list \<times> u8 list \<Rightarrow> u64 \<Rightarrow> u64 \<Rightarrow>
     memory_instance option \<Rightarrow> 'w host_state \<Rightarrow> (run_stop + int) \<times> 'w host_state" where
  "execute sha256 decode relink reserved commit machine code action_bytes addrs amount key mi s =
     (if length action_bytes < 8 then (Inl (Stopped Undefined), s)
      else
        let (from_addr, to_addr, owner_addr, user_addr) = addrs;
            cx = \<lparr>act_name = read_le (take 8 action_bytes), act_data = drop 8 action_bytes,
                  from_addr_bytes = from_addr, to_addr_bytes = to_addr, owner_addr_bytes = owner_addr, user_addr_bytes = user_addr,
                  transfer_amount = amount, state_key = key\<rparr>
        in (case interface_apply decode relink reserved commit machine (sha256 code) code cx Map.empty mi s of
              (Inl (Stopped (Thrown e)), _, _, s') \<Rightarrow> (Inr (exception_code e), s')
            | (Inl e, _, _, s') \<Rightarrow> (Inl e, s')
            | (Inr _, _, _, s') \<Rightarrow> (Inr 0, s')))"

text \<open>\<open>wasm_interface::validate\<close>; \<open>linkModule\<close> may throw.\<close>

definition interface_validate ::
    "(u8 list \<Rightarrow> wasm_module result) \<Rightarrow> (wasm_module \<Rightarrow> unit result) \<Rightarrow> u8 list \<Rightarrow> unit result option" where
  "interface_validate decode linkModule code =
     (case decode code of
        Inl e \<Rightarrow> Some (Inl e)
      | Inr m \<Rightarrow>
        (case binary_validate m of
           None \<Rightarrow> None
         | Some (Inl e) \<Rightarrow> Some (Inl e)
         | Some (Inr _) \<Rightarrow> Some (linkModule m)))"

section \<open>Fresh starts\<close>

text \<open>
  The memory a run begins with, and all the outcomes of a call of an exported function: which of them it is
  depends on the module and on what the system provides.
\<close>

definition fresh_memory :: "size_constraints \<Rightarrow> u8 list \<Rightarrow> memory_instance" where
  "fresh_memory ty img =
     \<lparr>mi_pages = size_min ty, mi_type = ty, mi_bytes = img @ replicate (65536 * unat (size_min ty) - length img) 0\<rparr>"

lemma instance_call_exact:
  assumes "asFunctionNullable (getInstanceExport (in_module inst) entry_point) = Some f"
    and "function_type_at (in_module inst) f = Some t" and "length (ft_parameters t) = length args"
    and "pages_ok mem" and "unat (mi_pages mem) \<le> 65536"
  shows "instance_call commit machine entry_point args (Some mem) inst s =
    (case m_memories (in_module inst) of
       [] \<Rightarrow> (case run_entry machine f args inst (s\<lparr>memory := None\<rparr>) of (r, g, s') \<Rightarrow> (r, Some mem, inst\<lparr>in_globals := g\<rparr>, s'))
     | ty # _ \<Rightarrow>
         if mi_pages mem = 0 then (Inl Out_of_memory, Some (mem\<lparr>mi_type := (mi_type mem)\<lparr>size_min := 1\<rparr>\<rparr>), inst, s)
         else if \<not> pages_provided commit ty then (Inl Out_of_memory, Some (zero_pages 1 ty), inst, s)
         else if 65536 * unat (size_min ty) < length (in_image inst) then (Inl (Stopped Undefined), Some (zero_pages (size_min ty) ty), inst, s)
         else (case run_entry machine f args inst (s\<lparr>memory := Some (mi_bytes (fresh_memory ty (in_image inst)))\<rparr>) of (r, g, s') \<Rightarrow>
                 (r, Some (memory_after (fresh_memory ty (in_image inst)) s'), inst\<lparr>in_globals := g\<rparr>, s')))"
proof (cases "m_memories (in_module inst)")
  case (Cons ty tys)
  have o: "overwrite 0 (in_image inst) (replicate (65536 * unat (size_min ty)) 0) = mi_bytes (fresh_memory ty (in_image inst))"
    by (simp add: overwrite_def fresh_memory_def)
  have e: "(zero_pages (size_min ty) ty)\<lparr>mi_bytes := mi_bytes (fresh_memory ty (in_image inst))\<rparr> = fresh_memory ty (in_image inst)"
    by (simp add: fresh_memory_def)
  show ?thesis
    by (simp add: instance_call_def assms(1-3) Cons resetMemory_exact [OF assms(4,5)] o e [simplified] Let_def)
qed (simp add: instance_call_def assms(1-3))

section \<open>Validated contracts\<close>

lemma distinct_export:
  assumes "distinct (map ex_name (m_exports m))" and "e \<in> set (m_exports m)"
  shows "getInstanceExport m (ex_name e) = Some (ex_kind e, ex_index e)"
proof -
  have "distinct (map fst (rev (map (\<lambda>e. (ex_name e, ex_kind e, ex_index e)) (m_exports m))))"
    using assms(1) by (simp add: rev_map [symmetric] comp_def)
  then show ?thesis
    using assms(2) unfolding getInstanceExport_def by (intro map_of_is_SomeI) auto
qed

lemma shifted_names: "map ex_name (shift_exports r es) = map ex_name es"
  by (auto simp: shift_exports_def)

text \<open>\<open>apply\<close> of a module that the injection made of a validated one has three parameters.\<close>

lemma injected_apply:
  assumes "ready_module m iss" and "distinct (map ex_name (m_exports m))" and "binary_inject m = Some (Inr (m', ij))"
  shows "\<exists>f. getInstanceExport m' ''apply'' = Some (OK_function, f) \<and> function_type_at m' f = Some apply_type"
proof -
  define N where "N = injected_functions iss"
  have r: "injected (max_memory_inject m) N m'" "m_fdefs m' = with_code (m_fdefs (max_memory_inject m)) (map (linked_code N) iss)"
      "length (m_fdefs (max_memory_inject m)) = length (map (linked_code N) iss)" "decoded_module (max_memory_inject m)"
      "decoded_module m" "within_limits m"
    using ready_module_inject [OF assms(1)] assms(3) by (auto simp: decoded_max_memory N_def)
  obtain e t where e: "e \<in> set (m_exports m)" "ex_kind e = OK_function" "ex_name e = ''apply''"
      "function_getType m (ex_index e) = Some t" "m_types m ! t = apply_type"
    using r(6) by (auto simp: within_limits_def)
  define e' where "e' = e\<lparr>ex_index := ex_index e + length N\<rparr>"
  have x: "m_exports m' = shift_exports (length N) (m_exports m)" using r(1) by (simp add: injected_def)
  have "e' \<in> set (m_exports m')" using e(1,2) by (auto simp: x shift_exports_def e'_def intro!: image_eqI [where x = e])
  moreover have "distinct (map ex_name (m_exports m'))" using assms(2) by (simp add: x shifted_names)
  ultimately have "getInstanceExport m' ''apply'' = Some (OK_function, ex_index e + length N)"
    using distinct_export [of m' e'] e(2,3) by (simp add: e'_def)
  moreover have "function_type_at m (ex_index e) = Some apply_type"
    using e(4,5) decoded_type_indices [OF r(5) e(4)] by (simp add: function_type_at_def)
  then have "function_type_at m' (ex_index e + length N) = Some apply_type"
    using injected_type_at [OF r(1-4), of "ex_index e"] by simp
  ultimately show ?thesis by blast
qed

lemma injected_apply_refused:
  assumes "ready_module m iss" and "distinct (map ex_name (m_exports m))" and "binary_inject m = Some (Inr (m', ij))"
    and "in_module inst = m'"
  shows "instance_apply commit machine cx mi inst s = (Inl (Stopped (Thrown (wasm_runtime_exception ''''))), mi, inst, s)"
  using injected_apply [OF assms(1-3)]
  by (auto simp: instance_apply_def instance_call_def assms(4) apply_type_def)

lemma instantiated_module: "instantiate_module relink reserved commit m img mi = (Inr inst, mi') \<Longrightarrow> in_module inst = m"
  by (auto simp: instantiate_module_def Let_def split: sum.splits list.splits option.splits)

lemma validated_apply_refused:
  assumes "ready_module m iss" and "distinct (map ex_name (m_exports m))" and "decode code = Inr m"
  shows "\<exists>e cache mi'. interface_apply decode relink reserved commit machine code_id code cx Map.empty mi s = (Inl e, cache, mi', s)"
proof -
  obtain m' ij where i: "binary_inject m = Some (Inr (m', ij))" using ready_module_inject [OF assms(1)] by blast
  show ?thesis
    by (auto dest!: instantiated_module simp: injected_apply_refused [OF assms(1,2) i] interface_apply_def get_instantiated_module_def assms(3) i split: sum.splits prod.splits)
qed

lemma exception_code_positive: "0 < exception_code e"
  by (cases e) simp_all

lemma validated_never_run:
  assumes "ready_module m iss" and "distinct (map ex_name (m_exports m))" and "decode code = Inr m"
  shows "fst (execute sha256 decode relink reserved commit machine code action addrs amount key mi s) \<noteq> Inr 0 \<and>
    snd (execute sha256 decode relink reserved commit machine code action addrs amount key mi s) = s"
proof (cases "length action < 8")
  case False
  define cx where "cx = (let (from_addr, to_addr, owner_addr, user_addr) = addrs in
     \<lparr>act_name = read_le (take 8 action), act_data = drop 8 action,
      from_addr_bytes = from_addr, to_addr_bytes = to_addr, owner_addr_bytes = owner_addr, user_addr_bytes = user_addr,
      transfer_amount = amount, state_key = key\<rparr>)"
  obtain e cache mi' where i: "interface_apply decode relink reserved commit machine (sha256 code) code cx Map.empty mi s = (Inl e, cache, mi', s)"
    using validated_apply_refused [where decode = decode, OF assms] by blast
  obtain a b c d where a: "addrs = (a, b, c, d)" by (cases addrs)
  show ?thesis
    using False exception_code_positive i [unfolded cx_def a]
    by (auto simp: execute_def a Let_def less_le split: run_stop.splits stop.splits)
qed (simp add: execute_def)

end
