(* ===== verification/Spec2Isabelle.thy ===== *)
theory Spec2Isabelle
  imports Float_Truncate F64_Compare F32_Special F64_Special Api_Convert WL_Runtime
begin

text \<open>
  A verification of fractal-wasm, the library that runs WebAssembly contracts for a chain.

  What the program does. A contract is stored after \<open>wasm_interface::validate\<close> has checked its module
  (\<open>wasm_validation.cpp\<close>, \<open>wasm_validation.hpp\<close>). \<open>execute\<close> (\<open>wasmlib.cpp\<close>) runs a contract: it decodes the
  module, rewrites its code (\<open>wasm_injection.hpp\<close>) so that every stretch of instructions pays for itself
  and floating-point instructions become calls of a software implementation, instantiates it with
  the compiler of \<open>wasm-jit\<close>, resets the shared memory, copies the data segments into it and calls the
  exported function \<open>apply\<close>. The compiled code calls back into host functions (\<open>wasm_interface.cpp\<close>), whose
  arguments \<open>wavm.hpp\<close> checks against the memory and which take gas from the account of \<open>wasm_context.hpp\<close>.
  Floating point, in the host functions and the compiler builtins, is Berkeley SoftFloat
  (\<open>libraries/softfloat\<close>) with the 8086-SSE specialization, and \<open>libraries/builtins\<close> converts 128-bit integers.

  Floating point, theories without prefix \<open>WL\<close>.
  \<^item> \<open>SF_Prelude\<close>, \<open>SF_State\<close>: word lemmas; the global state of SoftFloat (rounding mode, tininess, flags) as
    a record that every operation takes and returns. \<open>Rounding\<close> says what IEEE 754 rounding is, on reals and
    for every format at once; \<open>Format\<close> gives it a locale \<open>fp_format\<close>, interpreted for 32 and 64 bits.
  \<^item> \<open>Primitives\<close>: the integer primitives (\<open>s_add128.c\<close>, \<open>s_mul64To128.c\<close>, \<open>s_shiftRightJam128.c\<close>, ...), each with
    the number it computes.
  \<^item> \<open>F32_Format\<close>, \<open>F64_Format\<close>: field macros, NaN rules, normalization, \<open>roundPackTo\<close>; \<open>F32_Arith\<close>, \<open>F64_Arith\<close>,
    \<open>F64_Div\<close>: the four operations, proved correctly rounded in all five modes with exact flags;
    \<open>F32_Special\<close>, \<open>F64_Special\<close>: NaNs, infinities and zero divisors; \<open>FP_Compare\<close>, \<open>F32_Compare\<close>, \<open>F64_Compare\<close>:
    the comparisons through a locale that states their contract.
  \<^item> \<open>Approx_Sqrt\<close>: the approximation of the reciprocal square root from two tables, below the true value by
    little more than two units; \<open>F32_Sqrt\<close>, \<open>F64_Sqrt\<close>: the square roots on top of it, correctly rounded.
  \<^item> \<open>Int_To_Float\<close>, \<open>Float_Convert\<close>, \<open>Float_To_Int\<close>, \<open>Float_Truncate\<close>, \<open>Round_Int\<close>, \<open>F32_RoundToInt\<close>,
    \<open>F64_RoundToInt\<close>: all conversions of the two formats and rounding to an integral value.
  \<^item> \<open>Builtins\<close>: \<open>fixsfti.c\<close> to \<open>fixunstfti.c\<close>, \<open>floattidf.c\<close>, \<open>floatuntidf.c\<close>, on 128-bit words.
  \<^item> \<open>Softfloat_Api\<close>, \<open>Api_Round\<close>, \<open>Api_Nearest\<close>, \<open>Api_Convert\<close>: the host class \<open>softfloat_api\<close> on top of these, whose
    \<open>ceil\<close>, \<open>floor\<close>, \<open>trunc\<close> and \<open>nearest\<close> are algorithms of their own.

  Contracts, theories with prefix \<open>WL\<close>.
  \<^item> \<open>WL_Prelude\<close>: exceptions with their codes and results that may throw. \<open>WL_Name\<close>: \<open>name.hpp\<close>, \<open>name.cpp\<close>.
  \<^item> \<open>WL_Module\<close>, \<open>WL_Validation\<close>: decoded modules (\<open>IR/Types.h\<close>, \<open>IR/Module.h\<close>) and the module validators in
    their order, equivalent to limits on numbers (\<open>within_limits\<close>). \<open>WL_Instr\<close>: the code streams of
    \<open>wasm_binary_ops.hpp\<close>. \<open>WL_OpValidation\<close>: the validators of single instructions and the block counter.
  \<^item> \<open>WL_Gas\<close>: the price table and the pass that inserts calls of \<open>use_gas\<close>, refined to cutting code into
    stretches that are paid in advance. \<open>WL_Injection\<close>: imports, renumbering and the three passes;
    \<open>WL_Link\<close>, \<open>WL_Linked\<close>: the module they produce, in which every reference means what it meant.
  \<^item> \<open>WL_Host\<close>: the host functions as functions on the state (gas, memory, console, world) that return or
    stop the contract, and all of them as one type of calls. \<open>WL_Metering\<close>: what every call keeps and
    pays. \<open>WL_Memory\<close>: the memory functions byte by byte and the 128-bit integer builtins.
  \<^item> \<open>WL_Image\<close>: the image of the data segments and the shared memory instance (\<open>Runtime/Memory.cpp\<close>).
    \<open>WL_Runtime\<close>: calls of exports (\<open>wavm.cpp\<close>), instantiation with its cache (\<open>wasm_interface.hpp\<close>), \<open>validate\<close>
    and \<open>execute\<close>.

  How the parts are modelled. A C or C++ integer is a word of its width, arrays and vectors are lists,
  global variables are passed along, exceptions and undefined behaviour are values (\<open>Inl\<close>, \<open>None\<close>,
  \<open>Undefined\<close>), signed 128-bit arithmetic that leaves its type included. Loops are recursive functions with termination proofs; no fuel is used anywhere, so every
  operation returns. Code outside the model is a parameter: the callbacks of the embedding program, the
  decoder, the linker, the machine code and whether the system has memory pages.

  Assumptions of the theorems. \<open>decoded_module\<close> states what the decoder guarantees (indices in range, no
  pseudo types, vectors of real size); \<open>small_module\<close> leaves room for the injected functions in 32-bit
  numbers (fewer than 2^30 functions and types), and functions have fewer than 2^50 instructions, so
  that the 64-bit gas counter of the pass cannot wrap around. Memories have at most 2^32 bytes, which
  is what WebAssembly addresses; the data of an action is shorter than 2^31 bytes, as its length is an
  \<open>int\<close>. \<open>no_refund\<close> says that calling another contract gives no gas back. Each of these has a witness.

  Not modelled. Remainder and fused multiply-add of SoftFloat, which WebAssembly has not, its 16-, 80- and 128-bit
  formats and its variants that work in memory (not compiled in this configuration); with them the
  128-bit floating-point builtins and the printing of floating-point numbers of the host. The other
  specializations of SoftFloat are not selected by the build. Of \<open>wavm.hpp\<close> the checks are modelled and the
  template code that passes arguments on is not. \<open>wasm-jit\<close> (decoder, validator of the specification,
  compiler on LLVM) is outside, except for the memory, export and call functions named above. The bodies
  of the hash and signature functions of the host are comments in the source; the model keeps the gas they
  take. What \<open>wasm_context::exec\<close> writes to the standard output is left out.
\<close>

text \<open>
  C1: wasm_binary_injection::inject on a validated module never fails, and the module it produces is
  the abstract result: the functions needed (use_gas first, then each floating-point operator on its
  first use, every name once) stand in front of the imports with the right types, all function
  references outside the code are moved up by their number, and the code of every function is its
  stretches, each with its gas charge (a call of function 0) in front, with floating-point operators
  replaced by calls of the injected function of that name and every original call moved up.
\<close>

theorem injection_links_module:
  assumes "ready_module m iss" and "N = injected_functions iss"
  shows "\<exists>m' ij. binary_inject m = Some (Inr (m', ij)) \<and> distinct (map fst N) \<and> injected (max_memory_inject m) N m' \<and>
    m_fdefs m' = with_code (m_fdefs m) (map (linked_code N) iss)"
  using ready_module_inject [OF assms(1)] unfolding assms(2) by blast

theorem injection_links_module_witness:
  "\<exists>m m' ij. binary_inject m = Some (Inr (m', ij)) \<and>
     map fd_code (m_fdefs m') = [code_bytes [i64_const 205, call_instr 0, Instr 0x44 (F_u64 0), Instr 0x44 (F_u64 0), call_instr 1, Instr 0x1A F_void, call_instr 2, Instr 0x0B F_void]]"
proof -
  define m where "m = \<lparr>m_types = [apply_type], m_fimports = [\<lparr>fi_type = 0, fi_module = ''env'', fi_name = ''f''\<rparr>],
    m_fdefs = [\<lparr>fd_type = 0, fd_locals = [], fd_code = code_bytes [Instr 0x44 (F_u64 0), Instr 0x44 (F_u64 0), Instr 0xA0 F_void, Instr 0x1A F_void, call_instr 0, Instr 0x0B F_void]\<rparr>],
    m_tables = [], m_memories = [], m_globals = [], m_exports = [\<lparr>ex_name = ''apply'', ex_kind = OK_function, ex_index = 1\<rparr>], m_data = [],
    m_table_segments = [[1]], m_start = - 1\<rparr>"
  define js where "js = [Instr 0x44 (F_u64 0), Instr 0x44 (F_u64 0), Instr 0xA0 F_void, Instr 0x1A F_void, call_instr 0, Instr 0x0B F_void]"
  have "binary_validate m = Some (Inr \<lparr>nv_disabled = False, nv_depth = 1\<rparr>)" unfolding m_def by code_simp
  moreover have "decoded_module m" by (simp add: m_def decoded_module_def operand_types_def apply_type_def)
  moreover have "small_module m" by (simp add: m_def small_module_def)
  moreover have "decode_all (code_bytes js) = Inr js" unfolding js_def by code_simp
  then have "bodies (m_fdefs m) [js]" by (simp add: m_def js_def bodies_def)
  moreover have "closed_code js" unfolding js_def by code_simp
  moreover have "length js < 2 ^ 50" by (simp add: js_def)
  moreover have "list_all (calls_in_range m) js" by (simp add: js_def m_def calls_in_range_def call_instr_def)
  ultimately have r: "ready_module m [js]" by (simp add: ready_module_def)
  have "linked_code (injected_functions [js]) js =
      [i64_const 205, call_instr 0, Instr 0x44 (F_u64 0), Instr 0x44 (F_u64 0), call_instr 1, Instr 0x1A F_void, call_instr 2, Instr 0x0B F_void]"
    unfolding js_def by code_simp
  then show ?thesis using injection_links_module [OF r refl] by (fastforce simp: m_def with_code_def)
qed

text \<open>
  C2: The use_gas pass over the bytes of a function (decoding, accumulating gas_table prices in a
  64-bit counter, buffering the code in a temporary stream and writing both streams out at control
  instructions) produces exactly the bytes of the abstract result: the instructions cut into
  stretches that end in a control instruction, each stretch with a positive price preceded by
  i64.const of its total price and a call of use_gas.
\<close>

theorem gas_pass_refines_charging:
  assumes "decode_all code = Inr is" and "list_all priced is" and "length is < 2 ^ 50"
  shows "usegas_code idx code = Some (Inr (code_bytes (concat (map (charge idx) (stretches [] is)))))"
  using usegas_code_meter [OF assms(1,2)] meter_charges [OF assms(2,3)] by simp

theorem gas_pass_refines_charging_witness:
  "usegas_code 9 [0x01, 0, 0x41, 0, 5, 0, 0, 0, 0x0F, 0, 0x0B, 0] =
     Some (Inr [0x42, 0, 3, 0, 0, 0, 0, 0, 0, 0, 0x10, 0, 9, 0, 0, 0, 0x01, 0, 0x41, 0, 5, 0, 0, 0, 0x0F, 0, 0x0B, 0])"
proof -
  have d: "decode_all [0x01, 0, 0x41, 0, 5, 0, 0, 0, 0x0F, 0, 0x0B, 0] = Inr [Instr 0x01 F_void, Instr 0x41 (F_u32 5), Instr 0x0F F_void, Instr 0x0B F_void]"
    by code_simp
  have p: "list_all priced [Instr 0x01 F_void, Instr 0x41 (F_u32 5), Instr 0x0F F_void, Instr 0x0B F_void]" by code_simp
  have b: "code_bytes (concat (map (charge 9) (stretches [] [Instr 0x01 F_void, Instr 0x41 (F_u32 5), Instr 0x0F F_void, Instr 0x0B F_void]))) =
      [0x42, 0, 3, 0, 0, 0, 0, 0, 0, 0, 0x10, 0, 9, 0, 0, 0, 0x01, 0, 0x41, 0, 5, 0, 0, 0, 0x0F, 0, 0x0B, 0]" by code_simp
  have l: "length [Instr 0x01 F_void, Instr 0x41 (F_u32 5), Instr 0x0F F_void, Instr 0x0B F_void] < 2 ^ 50" by simp
  show ?thesis using gas_pass_refines_charging [OF d p l, of 9] unfolding b .
qed

text \<open>
  C3: Metered code pays before it runs: reading the metered code of a function from top to bottom,
  the charges inserted so far always cover the price of the instructions passed so far, nothing is
  charged that is not spent, and removing the charges gives the original code back.
\<close>

theorem metered_code_is_prepaid:
  assumes "closed_code is" and "call_instr idx \<notin> set is" and "list_all priced is" and "length is < 2 ^ 50"
    and "decode_all code = Inr is"
  shows "\<exists>out. usegas_code idx code = Some (Inr (code_bytes out)) \<and> prepaid idx 0 out \<and> uncharge idx out = is"
  using meter_paid [OF assms(1-4)] usegas_code_meter [OF assms(5,3)] by blast

theorem metered_code_is_prepaid_witness:
  "\<exists>out. usegas_code 9 [0x01, 0, 0x0F, 0, 0x0B, 0] = Some (Inr (code_bytes out)) \<and> prepaid 9 0 out \<and>
     uncharge 9 out = [Instr 0x01 F_void, Instr 0x0F F_void, Instr 0x0B F_void]"
proof -
  have d: "decode_all [0x01, 0, 0x0F, 0, 0x0B, 0] = Inr [Instr 0x01 F_void, Instr 0x0F F_void, Instr 0x0B F_void]" by code_simp
  have p: "list_all priced [Instr 0x01 F_void, Instr 0x0F F_void, Instr 0x0B F_void]" by code_simp
  have c: "closed_code [Instr 0x01 F_void, Instr 0x0F F_void, Instr 0x0B F_void]" by code_simp
  have i: "call_instr 9 \<notin> set [Instr 0x01 F_void, Instr 0x0F F_void, Instr 0x0B F_void]" by (simp add: call_instr_def)
  show ?thesis by (rule metered_code_is_prepaid [OF c i p _ d]) simp
qed

text \<open>
  C4: wasm_binary_validation as a whole: a decoded module is accepted exactly when it respects the
  limits on the module and all its code decodes to allowed instructions along which the block
  counter, kept over all functions in their order (one up for block, loop, if and else, one down for
  end, but one up again for an end at zero), stays below 1024.
\<close>

theorem binary_validation_exact:
  assumes "decoded_module m"
  shows "(\<exists>s. binary_validate m = Some (Inr s)) \<longleftrightarrow>
    within_limits m \<and> (\<exists>iss. bodies (m_fdefs m) iss \<and> (\<forall>is\<in>set iss. list_all allowed_instr is) \<and> counts_ok 0 (concat iss))"
proof -
  obtain r where r: "module_validate m = Some r" "r = Inr () \<longleftrightarrow> within_limits m" using module_validate_iff [OF assms] by blast
  show ?thesis
    using validate_functions_Inr_iff [of 0 "m_fdefs m"] r by (cases r) (auto simp: binary_validate_def counting_init bodies_map)
qed

theorem binary_validation_exact_witness:
  "\<exists>m. decoded_module m \<and> within_limits m \<and> \<not> (\<exists>s. binary_validate m = Some (Inr s))"
proof -
  define m where "m = \<lparr>m_types = [apply_type], m_fimports = [], m_fdefs = [\<lparr>fd_type = 0, fd_locals = [], fd_code = [0x06, 0, 0x0B, 0]\<rparr>],
    m_tables = [], m_memories = [], m_globals = [], m_exports = [\<lparr>ex_name = ''apply'', ex_kind = OK_function, ex_index = 0\<rparr>], m_data = [],
    m_table_segments = [], m_start = - 1\<rparr>"
  have d: "decoded_module m" by (simp add: m_def decoded_module_def operand_types_def apply_type_def)
  have "decode_all [0x06, 0, 0x0B, 0] = Inr [Instr 0xFF F_void, Instr 0x0B F_void]" by code_simp
  then have "\<not> (\<exists>iss. bodies (m_fdefs m) iss \<and> (\<forall>is\<in>set iss. list_all allowed_instr is))"
    by (auto simp: m_def bodies_Cons op_kind_def)
  then have "\<not> (\<exists>s. binary_validate m = Some (Inr s))" using binary_validation_exact [OF d] by blast
  moreover have "module_validate m = Some (Inr ())" unfolding m_def by code_simp
  then have "within_limits m" using module_validate_iff [OF d] by auto
  ultimately show ?thesis using d by blast
qed

text \<open>
  C5: f32_add: for finite operands the result of the 32-bit addition is the exact real sum rounded
  once in the rounding mode of the state (all five modes, subnormals and overflow included), a zero
  result has the IEEE sign (the common sign of the operands, else negative only when rounding down),
  and exactly the inexact, underflow and overflow flags of that rounding are raised.
\<close>

theorem f32_add_correctly_rounded:
  assumes "f32_finite a" and "f32_finite b"
  shows "f32_rounded st (if 2 ^ 31 \<le> unat a \<longleftrightarrow> 2 ^ 31 \<le> unat b then 2 ^ 31 \<le> unat a else mode st = Round_min)
    (f32_real a + f32_real b) (f32_add a b st)"
  by (rule f32_add_correct [OF assms])

theorem f32_add_correctly_rounded_witness:
  "f32_finite 0x3F800000 \<and> f32_finite 0x40000000 \<and> f32_real 0x40000000 \<noteq> 0 \<and>
   f32_add 0x3F800000 0x40000000 softfloat_init = (0x40400000, softfloat_init) \<and>
   f32_rounded softfloat_init False (f32_real 0x3F800000 + f32_real 0x40000000) (f32_add 0x3F800000 0x40000000 softfloat_init)"
proof -
  have f: "f32_finite 0x3F800000" "f32_finite 0x40000000" by (simp_all add: f32_finite_def)
  have r: "f32_real 0x40000000 \<noteq> 0" by (simp add: f32_real_def fmag_def)
  have "f32_add 0x3F800000 0x40000000 softfloat_init = (0x40400000, softfloat_init)" by code_simp
  then show ?thesis using f r f32_add_correctly_rounded [OF f, of softfloat_init] by simp
qed

text \<open>
  C6: f32_sub: for finite operands the result of the 32-bit subtraction is the exact real difference
  rounded once in the rounding mode of the state (all five modes, subnormals and overflow included),
  a zero result has the IEEE sign (negative only when rounding down, for operands of one sign), and
  exactly the inexact, underflow and overflow flags of that rounding are raised.
\<close>

theorem f32_sub_correctly_rounded:
  assumes "f32_finite a" and "f32_finite b"
  shows "f32_rounded st (if 2 ^ 31 \<le> unat a \<longleftrightarrow> 2 ^ 31 \<le> unat b then mode st = Round_min else 2 ^ 31 \<le> unat a)
    (f32_real a - f32_real b) (f32_sub a b st)"
  by (rule f32_sub_correct [OF assms])

theorem f32_sub_correctly_rounded_witness:
  "f32_finite 0x40400000 \<and> f32_finite 0x3F800000 \<and> f32_real 0x3F800000 \<noteq> 0 \<and>
   f32_sub 0x40400000 0x3F800000 softfloat_init = (0x40000000, softfloat_init) \<and>
   f32_rounded softfloat_init False (f32_real 0x40400000 - f32_real 0x3F800000) (f32_sub 0x40400000 0x3F800000 softfloat_init)"
proof -
  have f: "f32_finite 0x40400000" "f32_finite 0x3F800000" by (simp_all add: f32_finite_def)
  have r: "f32_real 0x3F800000 \<noteq> 0" by (simp add: f32_real_def fmag_def)
  have "f32_sub 0x40400000 0x3F800000 softfloat_init = (0x40000000, softfloat_init)" by code_simp
  then show ?thesis using f r f32_sub_correctly_rounded [OF f, of softfloat_init] by simp
qed

text \<open>
  C7: f32_mul: for finite operands the result of the 32-bit multiplication is the exact real product
  rounded once in the rounding mode of the state (all five modes, subnormals and overflow included),
  a zero result has the IEEE sign (the exclusive or of the signs), and exactly the inexact,
  underflow and overflow flags of that rounding are raised.
\<close>

theorem f32_mul_correctly_rounded:
  assumes "f32_finite a" and "f32_finite b"
  shows "f32_rounded st ((2 ^ 31 \<le> unat a) \<noteq> (2 ^ 31 \<le> unat b))
    (f32_real a * f32_real b) (f32_mul a b st)"
  by (rule f32_mul_correct [OF assms])

theorem f32_mul_correctly_rounded_witness:
  "f32_finite 0x3F800000 \<and> f32_finite 0x40000000 \<and> f32_real 0x40000000 \<noteq> 0 \<and>
   f32_mul 0x3F800000 0x40000000 softfloat_init = (0x40000000, softfloat_init) \<and>
   f32_rounded softfloat_init False (f32_real 0x3F800000 * f32_real 0x40000000) (f32_mul 0x3F800000 0x40000000 softfloat_init)"
proof -
  have f: "f32_finite 0x3F800000" "f32_finite 0x40000000" by (simp_all add: f32_finite_def)
  have r: "f32_real 0x40000000 \<noteq> 0" by (simp add: f32_real_def fmag_def)
  have "f32_mul 0x3F800000 0x40000000 softfloat_init = (0x40000000, softfloat_init)" by code_simp
  then show ?thesis using f r f32_mul_correctly_rounded [OF f, of softfloat_init] by simp
qed

text \<open>
  C8: f32_div: for finite operands the result of the 32-bit division is the exact real quotient
  rounded once in the rounding mode of the state (all five modes, subnormals and overflow included),
  a zero result has the IEEE sign (the exclusive or of the signs), and exactly the inexact,
  underflow and overflow flags of that rounding are raised.
\<close>

theorem f32_div_correctly_rounded:
  assumes "f32_finite a" and "f32_finite b" and "f32_real b \<noteq> 0"
  shows "f32_rounded st ((2 ^ 31 \<le> unat a) \<noteq> (2 ^ 31 \<le> unat b))
    (f32_real a / f32_real b) (f32_div a b st)"
  by (rule f32_div_correct [OF assms])

theorem f32_div_correctly_rounded_witness:
  "f32_finite 0x3F800000 \<and> f32_finite 0x40000000 \<and> f32_real 0x40000000 \<noteq> 0 \<and>
   f32_div 0x3F800000 0x40000000 softfloat_init = (0x3F000000, softfloat_init) \<and>
   f32_rounded softfloat_init False (f32_real 0x3F800000 / f32_real 0x40000000) (f32_div 0x3F800000 0x40000000 softfloat_init)"
proof -
  have f: "f32_finite 0x3F800000" "f32_finite 0x40000000" by (simp_all add: f32_finite_def)
  have r: "f32_real 0x40000000 \<noteq> 0" by (simp add: f32_real_def fmag_def)
  have "f32_div 0x3F800000 0x40000000 softfloat_init = (0x3F000000, softfloat_init)" by code_simp
  then show ?thesis using f r f32_div_correctly_rounded [OF f r, of softfloat_init] by simp
qed

text \<open>
  C9: f64_add: for finite operands the result of the 64-bit addition is the exact real sum rounded
  once in the rounding mode of the state (all five modes, subnormals and overflow included), a zero
  result has the IEEE sign (the common sign of the operands, else negative only when rounding down),
  and exactly the inexact, underflow and overflow flags of that rounding are raised.
\<close>

theorem f64_add_correctly_rounded:
  assumes "f64_finite a" and "f64_finite b"
  shows "f64_rounded st (if 2 ^ 63 \<le> unat a \<longleftrightarrow> 2 ^ 63 \<le> unat b then 2 ^ 63 \<le> unat a else mode st = Round_min)
    (f64_real a + f64_real b) (f64_add a b st)"
  by (rule f64_add_correct [OF assms])

theorem f64_add_correctly_rounded_witness:
  "f64_finite 0x3FF0000000000000 \<and> f64_finite 0x4000000000000000 \<and> f64_real 0x4000000000000000 \<noteq> 0 \<and>
   f64_add 0x3FF0000000000000 0x4000000000000000 softfloat_init = (0x4008000000000000, softfloat_init) \<and>
   f64_rounded softfloat_init False (f64_real 0x3FF0000000000000 + f64_real 0x4000000000000000) (f64_add 0x3FF0000000000000 0x4000000000000000 softfloat_init)"
proof -
  have f: "f64_finite 0x3FF0000000000000" "f64_finite 0x4000000000000000" by (simp_all add: f64_finite_def)
  have r: "f64_real 0x4000000000000000 \<noteq> 0" by (simp add: f64_real_def fmag_def)
  have "f64_add 0x3FF0000000000000 0x4000000000000000 softfloat_init = (0x4008000000000000, softfloat_init)" by code_simp
  then show ?thesis using f r f64_add_correctly_rounded [OF f, of softfloat_init] by simp
qed

text \<open>
  C10: f64_sub: for finite operands the result of the 64-bit subtraction is the exact real
  difference rounded once in the rounding mode of the state (all five modes, subnormals and overflow
  included), a zero result has the IEEE sign (negative only when rounding down, for operands of one
  sign), and exactly the inexact, underflow and overflow flags of that rounding are raised.
\<close>

theorem f64_sub_correctly_rounded:
  assumes "f64_finite a" and "f64_finite b"
  shows "f64_rounded st (if 2 ^ 63 \<le> unat a \<longleftrightarrow> 2 ^ 63 \<le> unat b then mode st = Round_min else 2 ^ 63 \<le> unat a)
    (f64_real a - f64_real b) (f64_sub a b st)"
  by (rule f64_sub_correct [OF assms])

theorem f64_sub_correctly_rounded_witness:
  "f64_finite 0x4008000000000000 \<and> f64_finite 0x3FF0000000000000 \<and> f64_real 0x3FF0000000000000 \<noteq> 0 \<and>
   f64_sub 0x4008000000000000 0x3FF0000000000000 softfloat_init = (0x4000000000000000, softfloat_init) \<and>
   f64_rounded softfloat_init False (f64_real 0x4008000000000000 - f64_real 0x3FF0000000000000) (f64_sub 0x4008000000000000 0x3FF0000000000000 softfloat_init)"
proof -
  have f: "f64_finite 0x4008000000000000" "f64_finite 0x3FF0000000000000" by (simp_all add: f64_finite_def)
  have r: "f64_real 0x3FF0000000000000 \<noteq> 0" by (simp add: f64_real_def fmag_def)
  have "f64_sub 0x4008000000000000 0x3FF0000000000000 softfloat_init = (0x4000000000000000, softfloat_init)" by code_simp
  then show ?thesis using f r f64_sub_correctly_rounded [OF f, of softfloat_init] by simp
qed

text \<open>
  C11: f64_mul: for finite operands the result of the 64-bit multiplication is the exact real
  product rounded once in the rounding mode of the state (all five modes, subnormals and overflow
  included), a zero result has the IEEE sign (the exclusive or of the signs), and exactly the
  inexact, underflow and overflow flags of that rounding are raised.
\<close>

theorem f64_mul_correctly_rounded:
  assumes "f64_finite a" and "f64_finite b"
  shows "f64_rounded st ((2 ^ 63 \<le> unat a) \<noteq> (2 ^ 63 \<le> unat b))
    (f64_real a * f64_real b) (f64_mul a b st)"
  by (rule f64_mul_correct [OF assms])

theorem f64_mul_correctly_rounded_witness:
  "f64_finite 0x3FF0000000000000 \<and> f64_finite 0x4000000000000000 \<and> f64_real 0x4000000000000000 \<noteq> 0 \<and>
   f64_mul 0x3FF0000000000000 0x4000000000000000 softfloat_init = (0x4000000000000000, softfloat_init) \<and>
   f64_rounded softfloat_init False (f64_real 0x3FF0000000000000 * f64_real 0x4000000000000000) (f64_mul 0x3FF0000000000000 0x4000000000000000 softfloat_init)"
proof -
  have f: "f64_finite 0x3FF0000000000000" "f64_finite 0x4000000000000000" by (simp_all add: f64_finite_def)
  have r: "f64_real 0x4000000000000000 \<noteq> 0" by (simp add: f64_real_def fmag_def)
  have "f64_mul 0x3FF0000000000000 0x4000000000000000 softfloat_init = (0x4000000000000000, softfloat_init)" by code_simp
  then show ?thesis using f r f64_mul_correctly_rounded [OF f, of softfloat_init] by simp
qed

text \<open>
  C12: f64_div: for finite operands the result of the 64-bit division is the exact real quotient
  rounded once in the rounding mode of the state (all five modes, subnormals and overflow included),
  a zero result has the IEEE sign (the exclusive or of the signs), and exactly the inexact,
  underflow and overflow flags of that rounding are raised.
\<close>

theorem f64_div_correctly_rounded:
  assumes "f64_finite a" and "f64_finite b" and "f64_real b \<noteq> 0"
  shows "f64_rounded st ((2 ^ 63 \<le> unat a) \<noteq> (2 ^ 63 \<le> unat b))
    (f64_real a / f64_real b) (f64_div a b st)"
  by (rule f64_div_correct [OF assms])

theorem f64_div_correctly_rounded_witness:
  "f64_finite 0x3FF0000000000000 \<and> f64_finite 0x4000000000000000 \<and> f64_real 0x4000000000000000 \<noteq> 0 \<and>
   f64_div 0x3FF0000000000000 0x4000000000000000 softfloat_init = (0x3FE0000000000000, softfloat_init) \<and>
   f64_rounded softfloat_init False (f64_real 0x3FF0000000000000 / f64_real 0x4000000000000000) (f64_div 0x3FF0000000000000 0x4000000000000000 softfloat_init)"
proof -
  have f: "f64_finite 0x3FF0000000000000" "f64_finite 0x4000000000000000" by (simp_all add: f64_finite_def)
  have r: "f64_real 0x4000000000000000 \<noteq> 0" by (simp add: f64_real_def fmag_def)
  have "f64_div 0x3FF0000000000000 0x4000000000000000 softfloat_init = (0x3FE0000000000000, softfloat_init)" by code_simp
  then show ?thesis using f r f64_div_correctly_rounded [OF f r, of softfloat_init] by simp
qed

text \<open>
  C13: f32_sqrt and f64_sqrt behind _eosio_f32_sqrt and _eosio_f64_sqrt: for a finite operand that
  is not negative the result is the real square root of its value rounded once in the rounding mode
  of the state (all five modes, subnormal operands included), with exactly the exceptions of that
  rounding; a zero keeps its sign. The estimate comes from a table and one Newton step, and the last
  bits from the sign of a remainder. A negative operand raises invalid and gives the default NaN,
  positive infinity is returned as it is, a NaN is propagated.
\<close>

theorem sqrt_correctly_rounded:
  assumes "f32_finite a" and "0 \<le> f32_real a" and "f64_finite b" and "0 \<le> f64_real b"
  shows "f32_rounded st (f32_negative a) (sqrt (f32_real a)) (eosio_f32_sqrt a st) \<and>
    f64_rounded st (f64_negative b) (sqrt (f64_real b)) (eosio_f64_sqrt b st) \<and>
    (f32_negative c \<and> \<not> f32_nan c \<and> f32_real c \<noteq> 0 \<longrightarrow> eosio_f32_sqrt c st = (0xFFC00000, softfloat_raiseFlags softfloat_flag_invalid st)) \<and>
    (f64_negative d \<and> \<not> f64_nan d \<and> f64_real d \<noteq> 0 \<longrightarrow> eosio_f64_sqrt d st = (0xFFF8000000000000, softfloat_raiseFlags softfloat_flag_invalid st)) \<and>
    eosio_f32_sqrt (f32_infinity False) st = (f32_infinity False, st) \<and> eosio_f64_sqrt (f64_infinity False) st = (f64_infinity False, st) \<and>
    (f32_nan c \<longrightarrow> eosio_f32_sqrt c st = f32_nan_result c 0 st) \<and> (f64_nan d \<longrightarrow> eosio_f64_sqrt d st = f64_nan_result d 0 st)"
proof -
  have "f32_inf (f32_infinity False)" "\<not> f32_negative (f32_infinity False)" "f64_inf (f64_infinity False)" "\<not> f64_negative (f64_infinity False)"
    by (simp_all add: f32_inf_def f32_negative_def f32_infinity_def f64_inf_def f64_negative_def f64_infinity_def)
  then show ?thesis
    using f32_sqrt_correct [OF assms(1,2)] f64_sqrt_correct [OF assms(3,4)] f32_sqrt_special [of c st] f64_sqrt_special [of d st]
      f32_sqrt_special(2) [of "f32_infinity False" st] f64_sqrt_special(2) [of "f64_infinity False" st]
    by (auto simp: eosio_f32_sqrt_def eosio_f64_sqrt_def f32_invalid_def f64_invalid_def defaultNaNF32UI_def defaultNaNF64UI_def)
qed

theorem sqrt_correctly_rounded_witness:
  "f32_rounded softfloat_init False (sqrt 2) (eosio_f32_sqrt 0x40000000 softfloat_init) \<and>
    f64_rounded softfloat_init False (sqrt 2) (eosio_f64_sqrt 0x4000000000000000 softfloat_init) \<and>
    eosio_f32_sqrt 0xC0000000 softfloat_init = (0xFFC00000, softfloat_raiseFlags softfloat_flag_invalid softfloat_init)"
proof -
  have f: "f32_finite 0x40000000" "f32_real 0x40000000 = 2" "f64_finite 0x4000000000000000" "f64_real 0x4000000000000000 = 2"
      "\<not> f32_negative 0x40000000" "\<not> f64_negative 0x4000000000000000"
    by (simp_all add: f32_finite_def f32_real_def f64_finite_def f64_real_def f32_negative_def f64_negative_def fmag_def)
  have c: "f32_negative 0xC0000000" "\<not> f32_nan 0xC0000000" "f32_real 0xC0000000 \<noteq> 0"
    by (simp_all add: f32_negative_def f32_nan_def f32_real_def fmag_def)
  show ?thesis
    using sqrt_correctly_rounded [of "0x40000000" "0x4000000000000000" softfloat_init "0xC0000000" 0] f c by simp
qed

text \<open>
  C14: After the injection every function of the original module is found under its old index plus
  the number of injected functions, with the same type, the k-th injected function has the type of
  its operator, and exports, table entries and the start function refer to the functions they
  referred to before.
\<close>

theorem injection_preserves_function_types:
  assumes "ready_module m iss" and "N = injected_functions iss" and "binary_inject m = Some (Inr (m', ij))"
  shows "function_type_at m' (j + length N) = function_type_at m j \<and> (k < length N \<longrightarrow> function_type_at m' k = Some (snd (N ! k))) \<and>
    m_exports m' = shift_exports (length N) (m_exports m) \<and> m_start m' = shift_start (length N) (m_start m) \<and>
    m_table_segments m' = map (map (\<lambda>i. i + length N)) (m_table_segments m)"
proof -
  have r: "injected (max_memory_inject m) N m'" "m_fdefs m' = with_code (m_fdefs (max_memory_inject m)) (map (linked_code N) iss)"
      "length (m_fdefs (max_memory_inject m)) = length (map (linked_code N) iss)" "decoded_module (max_memory_inject m)"
    using ready_module_inject [OF assms(1)] assms(2,3) by (auto simp: decoded_max_memory)
  show ?thesis
    using injected_type_at [OF r, of j] injected_getType(2) [OF r(1-3), of k] r(1) by (simp add: injected_def)
qed

theorem injection_preserves_function_types_witness:
  "\<exists>m m' ij. binary_inject m = Some (Inr (m', ij)) \<and> m_table_segments m = [[1]] \<and> m_table_segments m' = [[3]] \<and>
     function_type_at m' 1 = Some \<lparr>ft_ret = RT_f64, ft_parameters = [VT_f64, VT_f64]\<rparr> \<and> function_type_at m' 3 = function_type_at m 1"
proof -
  define m where "m = \<lparr>m_types = [apply_type], m_fimports = [\<lparr>fi_type = 0, fi_module = ''env'', fi_name = ''f''\<rparr>],
    m_fdefs = [\<lparr>fd_type = 0, fd_locals = [], fd_code = code_bytes [Instr 0x44 (F_u64 0), Instr 0x44 (F_u64 0), Instr 0xA0 F_void, Instr 0x1A F_void, call_instr 0, Instr 0x0B F_void]\<rparr>],
    m_tables = [], m_memories = [], m_globals = [], m_exports = [\<lparr>ex_name = ''apply'', ex_kind = OK_function, ex_index = 1\<rparr>], m_data = [],
    m_table_segments = [[1]], m_start = - 1\<rparr>"
  define js where "js = [Instr 0x44 (F_u64 0), Instr 0x44 (F_u64 0), Instr 0xA0 F_void, Instr 0x1A F_void, call_instr 0, Instr 0x0B F_void]"
  have "binary_validate m = Some (Inr \<lparr>nv_disabled = False, nv_depth = 1\<rparr>)" unfolding m_def by code_simp
  moreover have "decoded_module m" by (simp add: m_def decoded_module_def operand_types_def apply_type_def)
  moreover have "small_module m" by (simp add: m_def small_module_def)
  moreover have "decode_all (code_bytes js) = Inr js" unfolding js_def by code_simp
  then have "bodies (m_fdefs m) [js]" by (simp add: m_def js_def bodies_def)
  moreover have "closed_code js" unfolding js_def by code_simp
  moreover have "length js < 2 ^ 50" by (simp add: js_def)
  moreover have "list_all (calls_in_range m) js" by (simp add: js_def m_def calls_in_range_def call_instr_def)
  ultimately have r: "ready_module m [js]" by (simp add: ready_module_def)
  obtain m' ij where i: "binary_inject m = Some (Inr (m', ij))" using ready_module_inject [OF r] by blast
  have n: "injected_functions [js] = [(''use_gas'', use_gas_type), (''_eosio_f64_add'', \<lparr>ft_ret = RT_f64, ft_parameters = [VT_f64, VT_f64]\<rparr>)]"
    unfolding js_def by code_simp
  note t = injection_preserves_function_types [OF r n [symmetric] i]
  have "m_table_segments m = [[1]]" by (simp add: m_def)
  moreover from this have "m_table_segments m' = [[3]]" using t [of 0 0] by simp
  ultimately show ?thesis using i t [of 1 1] by (intro exI [of _ m] exI [of _ m'] exI [of _ ij]) (simp add: numeral_3_eq_3)
qed

text \<open>
  C15: Every sequence of calls of host functions (memory, database, chain, control, hashes, actions,
  console, integer builtins): the contract's memory keeps its size, the gas account never grows, and
  when all calls return, at least the sum of their prices has been taken, where the price of a call
  is the listed one for its arguments; it needs that the host does not give gas back when another
  contract is called.
\<close>

theorem host_calls_metered:
  assumes "addressable s" and "no_refund cb" and "length (act_data cx) < 2 ^ 31" and "run_hosts cb cx cs s = (r, s')"
  shows "map_option length (memory s') = map_option length (memory s) \<and> unat (remained_gas s') \<le> unat (remained_gas s) \<and>
    (\<forall>vs. r = Inr vs \<longrightarrow> length vs = length cs \<and> unat (remained_gas s') + (\<Sum>c\<leftarrow>cs. host_price cx c) \<le> unat (remained_gas s))"
  by (rule run_hosts_paid [OF assms])

theorem host_calls_metered_witness:
  "\<exists>cb :: unit callbacks. \<exists>cx s s'. no_refund cb \<and> addressable s \<and>
     run_hosts cb cx [Action Get_amount, Action (Call_action 0 0 0 0 0 0 0), Action (Use_gas 1)] s = (Inl (Thrown (invalid_address_exception ''address exception'')), s') \<and>
     run_hosts cb cx [Action Get_amount, Action (Use_gas 7)] s = (Inr [Some 5, None], s\<lparr>remained_gas := 393\<rparr>) \<and>
     unat (remained_gas s') \<le> 500"
proof -
  define cb :: "unit callbacks" where "cb = \<lparr>cb_store = \<lambda>_ _ _ _ w. w, cb_load = \<lambda>_ _ _ old w. (0, old, w), cb_has_key = \<lambda>_ _ _ w. (0, w),
    cb_remove_key = \<lambda>_ _ _ w. w, cb_has_table = \<lambda>_ _ w. (0, w), cb_remove_table = \<lambda>_ _ w. w, cb_current_time = \<lambda>_ w. (0, w),
    cb_current_height = \<lambda>_ w. (0, w), cb_current_hash = \<lambda>_ a b w. (a, b, w), cb_add_log = \<lambda>_ _ _ _ w. w, cb_transfer = \<lambda>_ _ _ w. w,
    cb_call_action = \<lambda>_ _ _ _ _ _ (g, w). (0, g, w), cb_call_result = \<lambda>_ old w. (0, old, w), cb_set_result = \<lambda>_ _ w. (0, w)\<rparr>"
  define cx where "cx = \<lparr>act_name = 0, act_data = [], from_addr_bytes = [], to_addr_bytes = [], owner_addr_bytes = [], user_addr_bytes = [],
    transfer_amount = 5, state_key = 0\<rparr>"
  define s where "s = \<lparr>remained_gas = 500, memory = Some [1, 2], console_output = [], world = ()\<rparr>"
  have n: "no_refund cb" by (simp add: no_refund_def cb_def)
  have a: "addressable s" by (simp add: addressable_def s_def)
  have d: "length (act_data cx) < 2 ^ 31" by (simp add: cx_def)
  have o: "run_hosts cb cx [Action Get_amount, Action (Use_gas 7)] s = (Inr [Some 5, None], s\<lparr>remained_gas := 393\<rparr>)"
    unfolding cb_def cx_def s_def by code_simp
  have r: "run_hosts cb cx [Action Get_amount, Action (Call_action 0 0 0 0 0 0 0), Action (Use_gas 1)] s =
      (Inl (Thrown (invalid_address_exception ''address exception'')), s\<lparr>remained_gas := 300\<rparr>)"
    unfolding cb_def cx_def s_def by code_simp
  have "unat (remained_gas (s\<lparr>remained_gas := 300\<rparr>)) \<le> unat (remained_gas s)" using host_calls_metered [OF a n d r] by blast
  then show ?thesis using n a o r by (intro exI [of _ cb] exI [of _ cx] exI [of _ s] exI [of _ "s\<lparr>remained_gas := 300\<rparr>"]) (simp add: s_def)
qed

text \<open>
  C16: The injection keeps what the module validation established: the produced module respects the
  same limits on memory, data, tables, globals and stack usage, and still exports apply with its
  type.
\<close>

theorem injection_keeps_limits:
  assumes "ready_module m iss" and "binary_inject m = Some (Inr (m', ij))"
  shows "within_limits m'"
proof -
  have "injected (max_memory_inject m) (injected_functions iss) m'" "m_fdefs m' = with_code (m_fdefs m) (map (linked_code (injected_functions iss)) iss)"
      "length (m_fdefs m) = length (map (linked_code (injected_functions iss)) iss)" "decoded_module m" "within_limits m"
    using ready_module_inject [OF assms(1)] assms(2) by auto
  then show ?thesis by (rule injected_within_limits)
qed

theorem injection_keeps_limits_witness:
  "\<exists>m m' ij. binary_inject m = Some (Inr (m', ij)) \<and> within_limits m'"
proof -
  define m where "m = \<lparr>m_types = [apply_type], m_fimports = [\<lparr>fi_type = 0, fi_module = ''env'', fi_name = ''f''\<rparr>],
    m_fdefs = [\<lparr>fd_type = 0, fd_locals = [], fd_code = code_bytes [Instr 0x44 (F_u64 0), Instr 0x44 (F_u64 0), Instr 0xA0 F_void, Instr 0x1A F_void, call_instr 0, Instr 0x0B F_void]\<rparr>],
    m_tables = [], m_memories = [], m_globals = [], m_exports = [\<lparr>ex_name = ''apply'', ex_kind = OK_function, ex_index = 1\<rparr>], m_data = [],
    m_table_segments = [[1]], m_start = - 1\<rparr>"
  define js where "js = [Instr 0x44 (F_u64 0), Instr 0x44 (F_u64 0), Instr 0xA0 F_void, Instr 0x1A F_void, call_instr 0, Instr 0x0B F_void]"
  have "binary_validate m = Some (Inr \<lparr>nv_disabled = False, nv_depth = 1\<rparr>)" unfolding m_def by code_simp
  moreover have "decoded_module m" by (simp add: m_def decoded_module_def operand_types_def apply_type_def)
  moreover have "small_module m" by (simp add: m_def small_module_def)
  moreover have "decode_all (code_bytes js) = Inr js" unfolding js_def by code_simp
  then have "bodies (m_fdefs m) [js]" by (simp add: m_def js_def bodies_def)
  moreover have "closed_code js" unfolding js_def by code_simp
  moreover have "length js < 2 ^ 50" by (simp add: js_def)
  moreover have "list_all (calls_in_range m) js" by (simp add: js_def m_def calls_in_range_def call_instr_def)
  ultimately have r: "ready_module m [js]" by (simp add: ready_module_def)
  obtain m' ij where i: "binary_inject m = Some (Inr (m', ij))" using ready_module_inject [OF r] by blast
  show ?thesis using i injection_keeps_limits [OF r i] by blast
qed

text \<open>
  C17: A contract that wasm_interface::validate accepts cannot be run: validation requires an
  exported apply with three 64-bit parameters, whereas call passes the action name alone and
  requires one parameter. Whatever the code of the contract does, execute never returns 0 for it and
  leaves gas, memory, console and world as they were.
\<close>

theorem validated_contracts_never_run:
  assumes "interface_validate decode linkModule code = Some (Inr ())" and "decode code = Inr m" and "decoded_module m" and "small_module m"
    and "bodies (m_fdefs m) iss" and "\<forall>is\<in>set iss. closed_code is \<and> length is < 2 ^ 50 \<and> list_all (calls_in_range m) is"
    and "distinct (map ex_name (m_exports m))"
  shows "fst (execute sha256 decode relink reserved commit machine code action addrs amount key mi s) \<noteq> Inr 0 \<and>
    snd (execute sha256 decode relink reserved commit machine code action addrs amount key mi s) = s"
proof -
  have "\<exists>s. binary_validate m = Some (Inr s)"
    using assms(1,2) by (cases "binary_validate m") (auto simp: interface_validate_def split: sum.splits)
  then have "ready_module m iss" using assms(3-6) by (simp add: ready_module_def)
  then show ?thesis using validated_never_run [where decode = decode, OF _ assms(7,2)] by blast
qed

theorem validated_contracts_never_run_witness:
  "\<exists>m. interface_validate (\<lambda>_. Inr m) (\<lambda>_. Inr ()) [] = Some (Inr ()) \<and>
     (\<forall>machine s. fst (execute id (\<lambda>_. Inr m) (\<lambda>_. Inr ()) True (\<lambda>_ _. True) machine [] [1, 2, 3, 4, 5, 6, 7, 8] ([], [], [], []) 0 0 None s) \<noteq> Inr 0)"
proof -
  define m where "m = \<lparr>m_types = [apply_type], m_fimports = [\<lparr>fi_type = 0, fi_module = ''env'', fi_name = ''f''\<rparr>],
    m_fdefs = [\<lparr>fd_type = 0, fd_locals = [], fd_code = code_bytes [Instr 0x44 (F_u64 0), Instr 0x44 (F_u64 0), Instr 0xA0 F_void, Instr 0x1A F_void, call_instr 0, Instr 0x0B F_void]\<rparr>],
    m_tables = [], m_memories = [], m_globals = [], m_exports = [\<lparr>ex_name = ''apply'', ex_kind = OK_function, ex_index = 1\<rparr>], m_data = [],
    m_table_segments = [[1]], m_start = - 1\<rparr>"
  define js where "js = [Instr 0x44 (F_u64 0), Instr 0x44 (F_u64 0), Instr 0xA0 F_void, Instr 0x1A F_void, call_instr 0, Instr 0x0B F_void]"
  have "binary_validate m = Some (Inr \<lparr>nv_disabled = False, nv_depth = 1\<rparr>)" unfolding m_def by code_simp
  moreover have "decoded_module m" by (simp add: m_def decoded_module_def operand_types_def apply_type_def)
  moreover have "small_module m" by (simp add: m_def small_module_def)
  moreover have "decode_all (code_bytes js) = Inr js" unfolding js_def by code_simp
  then have "bodies (m_fdefs m) [js]" by (simp add: m_def js_def bodies_def)
  moreover have "closed_code js" unfolding js_def by code_simp
  moreover have "length js < 2 ^ 50" by (simp add: js_def)
  moreover have "list_all (calls_in_range m) js" by (simp add: js_def m_def calls_in_range_def call_instr_def)
  ultimately have r: "ready_module m [js]" by (simp add: ready_module_def)
  have v: "interface_validate (\<lambda>_. Inr m) (\<lambda>_. Inr ()) [] = Some (Inr ())" using r by (auto simp: interface_validate_def ready_module_def)
  have d: "distinct (map ex_name (m_exports m))" by (simp add: m_def)
  have w: "decoded_module m" "small_module m" "bodies (m_fdefs m) [js]" "\<forall>is\<in>set [js]. closed_code is \<and> length is < 2 ^ 50 \<and> list_all (calls_in_range m) is"
    using r by (simp_all add: ready_module_def)
  show ?thesis using v validated_contracts_never_run [where decode = "\<lambda>_. Inr m", OF v refl w d] by blast
qed

text \<open>
  C18: A call of an exported function with as many arguments as it has parameters, on a shared
  memory instance of at most 65536 pages. Whatever ran before, that is for every content of that
  instance and all values left in the instance's globals: a module without memory runs from the
  initial values of its globals. A module with a memory runs when the memory instance has a page,
  the module's memory has one initial page, or more than one, at most its maximum, and the system
  commits them, and the image of the data segments fits: it then begins with the image followed by
  zeros up to the initial size and with the initial values of the globals, and the outcome is the
  same. In all other cases nothing is run and gas, console and world are as they were: the call ends
  out of memory, which is also the fate of every module whose memory has zero initial pages
  (Memory.cpp:97), or is undefined when the image does not fit.
\<close>

theorem runs_start_fresh:
  assumes "asFunctionNullable (getInstanceExport (in_module inst) entry_point) = Some f"
    and "function_type_at (in_module inst) f = Some t" and "length (ft_parameters t) = length args"
    and "pages_ok mem" and "unat (mi_pages mem) \<le> 65536"
  shows "instance_call commit machine entry_point args (Some mem) (inst\<lparr>in_globals := left\<rparr>) s =
    (case m_memories (in_module inst) of
       [] \<Rightarrow> (case run_entry machine f args inst (s\<lparr>memory := None\<rparr>) of (r, g, s') \<Rightarrow> (r, Some mem, inst\<lparr>in_globals := g\<rparr>, s'))
     | ty # _ \<Rightarrow>
         if mi_pages mem = 0 then (Inl Out_of_memory, Some (mem\<lparr>mi_type := (mi_type mem)\<lparr>size_min := 1\<rparr>\<rparr>), inst\<lparr>in_globals := left\<rparr>, s)
         else if \<not> pages_provided commit ty then (Inl Out_of_memory, Some (zero_pages 1 ty), inst\<lparr>in_globals := left\<rparr>, s)
         else if 65536 * unat (size_min ty) < length (in_image inst)
         then (Inl (Stopped Undefined), Some (zero_pages (size_min ty) ty), inst\<lparr>in_globals := left\<rparr>, s)
         else (case run_entry machine f args inst (s\<lparr>memory := Some (mi_bytes (fresh_memory ty (in_image inst)))\<rparr>) of (r, g, s') \<Rightarrow>
                 (r, Some (memory_after (fresh_memory ty (in_image inst)) s'), inst\<lparr>in_globals := g\<rparr>, s')))"
proof -
  have r: "run_entry machine f args (inst\<lparr>in_globals := left\<rparr>) = run_entry machine f args inst" by (rule ext) (simp add: run_entry_def split: sum.split prod.split)
  have m: "asFunctionNullable (getInstanceExport (in_module (inst\<lparr>in_globals := left\<rparr>)) entry_point) = Some f"
    "function_type_at (in_module (inst\<lparr>in_globals := left\<rparr>)) f = Some t" using assms(1,2) by simp_all
  have g: "inst\<lparr>in_globals := left\<rparr>\<lparr>in_globals := x\<rparr> = inst\<lparr>in_globals := x\<rparr>" for x by simp
  have i: "in_module (inst\<lparr>in_globals := left\<rparr>) = in_module inst" "in_image (inst\<lparr>in_globals := left\<rparr>) = in_image inst" by simp_all
  show ?thesis using instance_call_exact [where commit = commit and machine = machine and s = s, OF m assms(3-5)] unfolding r g i .
qed

theorem runs_start_fresh_witness:
  "\<exists>inst zero mem1 mem2. mi_bytes mem1 \<noteq> mi_bytes mem2 \<and> (\<forall>machine s.
     instance_call (\<lambda>_ _. True) machine ''apply'' [(VT_i64, 7)] (Some mem1) (inst\<lparr>in_globals := 1 :: nat\<rparr>) s =
     instance_call (\<lambda>_ _. True) machine ''apply'' [(VT_i64, 7)] (Some mem2) (inst\<lparr>in_globals := 2\<rparr>) s \<and>
     fst (instance_call (\<lambda>_ _. True) machine ''apply'' [(VT_i64, 7)] (Some mem1) (zero\<lparr>in_globals := 1 :: nat\<rparr>) s) = Inl Out_of_memory)"
proof -
  define m where "m ty = \<lparr>m_types = [\<lparr>ft_ret = RT_none, ft_parameters = [VT_i64]\<rparr>], m_fimports = [], m_fdefs = [\<lparr>fd_type = 0, fd_locals = [], fd_code = []\<rparr>],
    m_tables = [], m_memories = [ty], m_globals = [], m_exports = [\<lparr>ex_name = ''apply'', ex_kind = OK_function, ex_index = 0\<rparr>],
    m_data = [], m_table_segments = [], m_start = - 1\<rparr>" for ty
  define inst where "inst ty = \<lparr>in_module = m ty, in_image = [], in_initial = 0 :: nat, in_globals = 0\<rparr>" for ty
  define one :: size_constraints where "one = \<lparr>size_min = 1, size_max = 2\<rparr>"
  define zero :: size_constraints where "zero = \<lparr>size_min = 0, size_max = 2\<rparr>"
  define mem where "mem b = \<lparr>mi_pages = 1, mi_type = one, mi_bytes = replicate 65536 b\<rparr>" for b
  have e: "asFunctionNullable (getInstanceExport (in_module (inst ty)) ''apply'') = Some 0"
    "function_type_at (in_module (inst ty)) 0 = Some \<lparr>ft_ret = RT_none, ft_parameters = [VT_i64]\<rparr>"
    "length (ft_parameters \<lparr>ft_ret = RT_none, ft_parameters = [VT_i64]\<rparr>) = length [(VT_i64, 7 :: u64)]" for ty
    by (simp_all add: inst_def m_def getInstanceExport_def function_type_at_def function_getType_def)
  have p: "pages_ok (mem b)" "unat (mi_pages (mem b)) \<le> 65536" "(mi_pages (mem b) = 0) = False" for b by (simp_all add: mem_def pages_ok_def)
  have l: "m_memories (in_module (inst ty)) = [ty]" for ty by (simp add: inst_def m_def)
  have z: "pages_provided (\<lambda>_ _. True) zero = False" by (simp add: pages_provided_def zero_def)
  have n: "mi_bytes (mem 1) \<noteq> mi_bytes (mem 2)"
    unfolding mem_def memory_instance.simps by (subst replicate_eq_replicate) simp
  have q: "instance_call (\<lambda>_ _. True) machine ''apply'' [(VT_i64, 7)] (Some (mem 1)) ((inst one)\<lparr>in_globals := 1\<rparr>) s =
      instance_call (\<lambda>_ _. True) machine ''apply'' [(VT_i64, 7)] (Some (mem 2)) ((inst one)\<lparr>in_globals := 2\<rparr>) s"
    "fst (instance_call (\<lambda>_ _. True) machine ''apply'' [(VT_i64, 7)] (Some (mem 1)) ((inst zero)\<lparr>in_globals := 1\<rparr>) s) = Inl Out_of_memory"
    for machine s
    unfolding runs_start_fresh [OF e p(1,2)] p(3) l z list.case if_False by (simp_all add: pages_provided_def one_def inst_def)
  show ?thesis by (intro exI [of _ "inst one"] exI [of _ "inst zero"] exI [of _ "mem 1"] exI [of _ "mem 2"] conjI allI n q)
qed

text \<open>
  C19: parse_initial_memory on a decoded module whose memory has at most 65536 pages: it succeeds
  exactly when every data segment has a constant offset inside it and ends inside it; the image ends
  with the last byte of a segment, fits into the memory, and each of its bytes is that of the last
  segment covering it, or zero.
\<close>

theorem initial_memory_of_segments:
  assumes "decoded_module m" and "m_memories m = s # ms" and "unat (size_min s) \<le> 65536"
  shows "((\<exists>img. parse_initial_memory m = Inr img) \<longleftrightarrow> (\<forall>d\<in>set (m_data m). fits (m_memories m) d)) \<and>
    (\<forall>img. parse_initial_memory m = Inr img \<longrightarrow>
       length img = Max (insert 0 (image_end ` set (m_data m))) \<and> length img \<le> 65536 * unat (size_min s) \<and>
       (\<forall>i < length img. ((\<forall>d\<in>set (m_data m). \<not> covers d i) \<longrightarrow> img ! i = 0) \<and>
          (\<forall>xs d ys. m_data m = xs @ d # ys \<and> covers d i \<and> (\<forall>e\<in>set ys. \<not> covers e i) \<longrightarrow> img ! i = segment_byte d i)))"
proof -
  have b: "m_memories m \<noteq> [] \<longrightarrow> unat (size_min (hd (m_memories m))) \<le> 65536" using assms(2,3) by simp
  note c = parse_initial_memory_correct [OF assms(1) b]
  show ?thesis
    using c image_length [OF assms] initial_byte_last [of "m_data m"] initial_byte_uncovered [of "m_data m"] by auto
qed

theorem initial_memory_of_segments_witness:
  "\<exists>m img. parse_initial_memory m = Inr img \<and> img = [0, 7, 9] \<and> length (m_data m) = 2 \<and> length img \<le> 65536"
proof -
  define m where "m = \<lparr>m_types = [], m_fimports = [], m_fdefs = [], m_tables = [], m_memories = [\<lparr>size_min = 1, size_max = 1\<rparr>], m_globals = [], m_exports = [],
    m_data = [\<lparr>ds_base = Init_i32_const 1, ds_data = [7, 8]\<rparr>, \<lparr>ds_base = Init_i32_const 2, ds_data = [9]\<rparr>], m_table_segments = [], m_start = - 1\<rparr>"
  have d: "decoded_module m" by (simp add: m_def decoded_module_def)
  have s: "m_memories m = \<lparr>size_min = 1, size_max = 1\<rparr> # []" "unat (size_min \<lparr>size_min = 1, size_max = 1\<rparr>) \<le> 65536" by (simp_all add: m_def)
  have "parse_initial_memory m = Inr [0, 7, 9]" unfolding m_def by code_simp
  moreover have "length (m_data m) = 2" by (simp add: m_def)
  moreover have "length [0, 7, 9 :: u8] \<le> 65536 * unat (size_min \<lparr>size_min = 1, size_max = 1\<rparr>)" if "parse_initial_memory m = Inr [0, 7, 9]"
    using initial_memory_of_segments [OF d s] that by blast
  ultimately show ?thesis by (intro exI [of _ m] exI [of _ "[0, 7, 9]"]) simp
qed

text \<open>
  C20: Code that passes wasm_binary_validation decodes completely and has no unknown opcode, every
  load and store has an offset below 33 MiB, and no prefix of a function opens 1024 blocks more than
  it closes.
\<close>

theorem validated_code_is_bounded:
  assumes "binary_validate m = Some (Inr s)"
  shows "\<exists>iss. bodies (m_fdefs m) iss \<and>
    (\<forall>is\<in>set iss. list_all allowed_instr is \<and> (\<forall>js ks. is = js @ ks \<longrightarrow> nesting js < 1024))"
proof -
  obtain iss where i: "bodies (m_fdefs m) iss" "\<forall>is\<in>set iss. list_all wf_instr is \<and> list_all priced is \<and> list_all allowed_instr is"
      "counts_ok 0 (concat iss)"
    by (rule validated_bodies [OF assms])
  have "nesting js < 1024" if "js @ ks \<in> set iss" for js ks
    by (rule counts_ok_member [OF i(3) that]) simp
  then show ?thesis using i by blast
qed

theorem validated_code_is_bounded_witness:
  "\<exists>m s. m_fdefs m \<noteq> [] \<and> binary_validate m = Some (Inr s) \<and> (\<exists>iss. bodies (m_fdefs m) iss \<and> (\<forall>is\<in>set iss. list_all allowed_instr is))"
proof -
  define m where "m = \<lparr>m_types = [apply_type], m_fimports = [], m_fdefs = [\<lparr>fd_type = 0, fd_locals = [], fd_code = [0x28, 0, 2, 0, 0, 0, 8, 0, 0, 0, 0x1A, 0, 0x0B, 0]\<rparr>],
    m_tables = [], m_memories = [], m_globals = [], m_exports = [\<lparr>ex_name = ''apply'', ex_kind = OK_function, ex_index = 0\<rparr>], m_data = [],
    m_table_segments = [], m_start = - 1\<rparr>"
  have v: "binary_validate m = Some (Inr \<lparr>nv_disabled = False, nv_depth = 1\<rparr>)" unfolding m_def by code_simp
  have "m_fdefs m \<noteq> []" by (simp add: m_def)
  then show ?thesis using v validated_code_is_bounded [OF v] by metis
qed

text \<open>
  C21: memcpy, memmove, memset and memcmp of the host on a memory of at most 4 GiB: ranges outside
  the memory end in an access violation before anything is paid; then 100 plus three per byte is
  taken or the gas limit is reported; memcpy then refuses exactly the overlapping ranges; otherwise
  the result is the copy of the bytes as they were (memmove also when they overlap), the filled
  range, or the sign of the lexicographic comparison.
\<close>

theorem memory_functions_exact:
  assumes "memory s = Some m" and "length m \<le> 2 ^ 32" and "n = unat sz"
  shows "host_memcpy d r sz s =
     (if \<not> (in_range m d sz \<and> in_range m r sz) then (Inl Access_violation, s)
      else charge_call n s
        (if unat d < unat r + n \<and> unat r < unat d + n
         then (Inl (Thrown (overlapping_memory_error ''memcpy can only accept non-aliasing pointers'')), charged n s)
         else (Inr d, (charged n s)\<lparr>memory := Some (copied (unat d) (unat r) n m)\<rparr>))) \<and>
   host_memmove d r sz s =
     (if \<not> (in_range m d sz \<and> in_range m r sz) then (Inl Access_violation, s)
      else charge_call n s (Inr d, (charged n s)\<lparr>memory := Some (copied (unat d) (unat r) n m)\<rparr>)) \<and>
   host_memset d v sz s =
     (if \<not> in_range m d sz then (Inl Access_violation, s)
      else charge_call n s (Inr d, (charged n s)\<lparr>memory := Some (filled (unat d) (ucast v) n m)\<rparr>)) \<and>
   host_memcmp d r sz s =
     (if \<not> (in_range m d sz \<and> in_range m r sz) then (Inl Access_violation, s)
      else charge_call n s (Inr (if slice (unat d) n m = slice (unat r) n m then 0
        else if (slice (unat d) n m, slice (unat r) n m) \<in> lexord {(a, b). a < b} then - 1 else 1), charged n s))"
  by (intro conjI host_memcpy_eq [OF assms] host_memmove_eq [OF assms] host_memset_eq [OF assms] host_memcmp_eq [OF assms refl refl])

theorem memory_functions_exact_witness:
  "\<exists>s :: unit host_state. memory s = Some [1, 2, 3, 4] \<and> fst (host_memcpy 0 1 2 s) = Inl (Thrown (overlapping_memory_error ''memcpy can only accept non-aliasing pointers'')) \<and>
     map_option (take 3) (memory (snd (host_memmove 0 1 2 s))) = Some [2, 3, 3] \<and> fst (host_memset 3 0 2 s) = Inl Access_violation"
proof -
  define s where "s = \<lparr>remained_gas = 200, memory = Some [1, 2, 3, 4 :: u8], console_output = [], world = ()\<rparr>"
  have m: "memory s = Some [1, 2, 3, 4]" "length [1, 2, 3, 4 :: u8] \<le> 2 ^ 32" by (simp_all add: s_def)
  note e = memory_functions_exact [OF m refl]
  have c: "copied 0 1 2 [1, 2, 3, 4 :: u8] = [2, 3, 3, 4]" unfolding copied_def by code_simp
  have "fst (host_memcpy 0 1 2 s) = Inl (Thrown (overlapping_memory_error ''memcpy can only accept non-aliasing pointers''))"
    using e [where d = 0 and r = 1 and sz = 2 and v = 0] by (simp add: in_range_def charge_call_def s_def)
  moreover have "map_option (take 3) (memory (snd (host_memmove 0 1 2 s))) = Some [2, 3, 3]"
    using e [where d = 0 and r = 1 and sz = 2 and v = 0] c by (simp add: in_range_def charge_call_def s_def)
  moreover have "fst (host_memset 3 0 2 s) = Inl Access_violation" using e [where d = 3 and r = 0 and sz = 2 and v = 0] by (simp add: in_range_def)
  ultimately show ?thesis using m(1) by blast
qed

text \<open>
  C22: f32_eq, f32_le, f32_lt, f64_eq, f64_le, f64_lt and their quiet and signaling variants: on
  operands that are not NaN (infinities and both zeros included) they answer exactly whether the
  value of the first equals, is at most, is less than the value of the second, and they leave the
  state unchanged.
\<close>

theorem comparisons_order:
  assumes "\<not> f32_nan a" and "\<not> f32_nan b" and "\<not> f64_nan c" and "\<not> f64_nan d"
  shows "f32_eq a b st = (f32_real a = f32_real b, st) \<and> f32_eq_signaling a b st = (f32_real a = f32_real b, st) \<and>
    f32_le a b st = (f32_real a \<le> f32_real b, st) \<and> f32_le_quiet a b st = (f32_real a \<le> f32_real b, st) \<and>
    f32_lt a b st = (f32_real a < f32_real b, st) \<and> f32_lt_quiet a b st = (f32_real a < f32_real b, st) \<and>
    f64_eq c d st = (f64_real c = f64_real d, st) \<and> f64_eq_signaling c d st = (f64_real c = f64_real d, st) \<and>
    f64_le c d st = (f64_real c \<le> f64_real d, st) \<and> f64_le_quiet c d st = (f64_real c \<le> f64_real d, st) \<and>
    f64_lt c d st = (f64_real c < f64_real d, st) \<and> f64_lt_quiet c d st = (f64_real c < f64_real d, st)"
  using f32_cmp.number [OF assms(1,2), of st] f64_cmp.number [OF assms(3,4), of st] by blast

theorem comparisons_order_witness:
  "\<not> f32_nan 0xBF800000 \<and> \<not> f32_nan 0x40000000 \<and> \<not> f64_nan 0xBFF0000000000000 \<and> \<not> f64_nan 0x4000000000000000 \<and>
   f32_real 0xBF800000 = - 1 \<and> f64_real 0x4000000000000000 = 2 \<and>
   f32_lt 0xBF800000 0x40000000 softfloat_init = (True, softfloat_init) \<and> f64_le 0xBFF0000000000000 0x4000000000000000 softfloat_init = (True, softfloat_init)"
proof -
  have n: "\<not> f32_nan 0xBF800000" "\<not> f32_nan 0x40000000" "\<not> f64_nan 0xBFF0000000000000" "\<not> f64_nan 0x4000000000000000"
    by (simp_all add: f32_nan_def f64_nan_def)
  have r: "f32_real 0xBF800000 = - 1" "f32_real 0x40000000 = 2" "f64_real 0xBFF0000000000000 = - 1" "f64_real 0x4000000000000000 = 2"
    by (simp_all add: f32_real_def f64_real_def fmag_def)
  show ?thesis using n r comparisons_order [OF n, of softfloat_init] by simp
qed

text \<open>
  C23: f32_to_i32, f32_to_ui32, f32_to_i64, f32_to_ui64 and their 64-bit counterparts: the result is
  the value of the operand rounded to an integer in the mode given; when that integer does not fit
  (infinities and NaN included) the invalid flag is raised and the indefinite value of the target is
  returned; the inexact flag is raised exactly when asked for and the value changed.
\<close>

theorem float_to_int_rounded:
  "f32_to_i32 a rm exact st = int_rounded (- (2 ^ 31)) (2 ^ 31 - 1) (- (2 ^ 31)) (rmode_of rm) exact (f32_real a) st \<and>
   apfst uint (f32_to_ui32 a rm exact st) = int_rounded 0 (2 ^ 32 - 1) (2 ^ 32 - 1) (rmode_of rm) exact (f32_real a) st \<and>
   f32_to_i64 a rm exact st = int_rounded (- (2 ^ 63)) (2 ^ 63 - 1) (- (2 ^ 63)) (rmode_of rm) exact (f32_real a) st \<and>
   apfst uint (f32_to_ui64 a rm exact st) = int_rounded 0 (2 ^ 64 - 1) (2 ^ 64 - 1) (rmode_of rm) exact (f32_real a) st \<and>
   f64_to_i32 b rm exact st = int_rounded (- (2 ^ 31)) (2 ^ 31 - 1) (- (2 ^ 31)) (rmode_of rm) exact (f64_real b) st \<and>
   apfst uint (f64_to_ui32 b rm exact st) = int_rounded 0 (2 ^ 32 - 1) (2 ^ 32 - 1) (rmode_of rm) exact (f64_real b) st \<and>
   f64_to_i64 b rm exact st = int_rounded (- (2 ^ 63)) (2 ^ 63 - 1) (- (2 ^ 63)) (rmode_of rm) exact (f64_real b) st \<and>
   apfst uint (f64_to_ui64 b rm exact st) = int_rounded 0 (2 ^ 64 - 1) (2 ^ 64 - 1) (rmode_of rm) exact (f64_real b) st"
  by (intro conjI f32_to_i32_eq f32_to_ui32_eq f32_to_i64_eq f32_to_ui64_eq f64_to_i32_eq f64_to_ui32_eq f64_to_i64_eq f64_to_ui64_eq)

text \<open>
  C24: The eight dedicated truncation routines (f32_to_i32_r_minMag to f64_to_ui64_r_minMag), which
  decode the operand and shift the significand themselves, return the same integer and raise the
  same flags as the general conversion in the mode that rounds towards zero, for every operand.
\<close>

theorem truncation_routines_agree:
  "f32_to_i32_r_minMag a exact st = f32_to_i32 a softfloat_round_minMag exact st \<and>
   f32_to_ui32_r_minMag a exact st = f32_to_ui32 a softfloat_round_minMag exact st \<and>
   f32_to_i64_r_minMag a exact st = f32_to_i64 a softfloat_round_minMag exact st \<and>
   f32_to_ui64_r_minMag a exact st = f32_to_ui64 a softfloat_round_minMag exact st \<and>
   f64_to_i32_r_minMag b exact st = f64_to_i32 b softfloat_round_minMag exact st \<and>
   f64_to_ui32_r_minMag b exact st = f64_to_ui32 b softfloat_round_minMag exact st \<and>
   f64_to_i64_r_minMag b exact st = f64_to_i64 b softfloat_round_minMag exact st \<and>
   f64_to_ui64_r_minMag b exact st = f64_to_ui64 b softfloat_round_minMag exact st"
proof -
  have u: "x = y" if "apfst uint x = apfst uint y" for x y :: "'c::len word \<times> softfloat_state"
    using that by (cases x; cases y) (simp add: word_uint_eq_iff)
  have m: "rmode_of softfloat_round_minMag = Round_minMag" by (simp add: rmode_of_def)
  show ?thesis
    by (intro conjI; (rule u)?; simp only: f32_to_i32_r_minMag_eq f32_to_i32_eq f32_to_ui32_r_minMag_eq f32_to_ui32_eq f32_to_i64_r_minMag_eq f32_to_i64_eq f32_to_ui64_r_minMag_eq f32_to_ui64_eq f64_to_i32_r_minMag_eq f64_to_i32_eq f64_to_ui32_r_minMag_eq f64_to_ui32_eq f64_to_i64_r_minMag_eq f64_to_i64_eq f64_to_ui64_r_minMag_eq f64_to_ui64_eq m)
qed

text \<open>
  C25: f32_roundToInt and f64_roundToInt: for a finite operand the result is the floating-point
  number that is the value of the operand rounded to an integer in the mode given, with the sign of
  the operand kept (also on a zero result), and inexact is raised exactly when asked for and the
  value changed.
\<close>

theorem round_to_integral_value:
  assumes "f32_finite a" and "f64_finite b"
  shows "f32_integral (rmode_of rm) exact a st (f32_roundToInt a rm exact st) \<and>
    f64_integral (rmode_of rm) exact b st (f64_roundToInt b rm exact st)"
  by (intro conjI f32_roundToInt_correct [OF assms(1)] f64_roundToInt_correct [OF assms(2)])

theorem round_to_integral_value_witness:
  "f32_finite 0x40200000 \<and> f64_finite 0xBFD0000000000000 \<and> f32_roundToInt 0x40200000 0 True softfloat_init = (0x40000000, softfloat_raiseFlags softfloat_flag_inexact softfloat_init) \<and>
   f64_roundToInt 0xBFD0000000000000 0 False softfloat_init = (0x8000000000000000, softfloat_init) \<and>
   f32_integral (rmode_of 0) True 0x40200000 softfloat_init (f32_roundToInt 0x40200000 0 True softfloat_init)"
proof -
  have f: "f32_finite 0x40200000" "f64_finite 0xBFD0000000000000" by (simp_all add: f32_finite_def f64_finite_def)
  have "f32_roundToInt 0x40200000 0 True softfloat_init = (0x40000000, softfloat_raiseFlags softfloat_flag_inexact softfloat_init)" by code_simp
  moreover have "f64_roundToInt 0xBFD0000000000000 0 False softfloat_init = (0x8000000000000000, softfloat_init)" by code_simp
  ultimately show ?thesis using f round_to_integral_value [OF f, of 0 True softfloat_init] by simp
qed

text \<open>
  C26: ui32_to_f32, ui64_to_f32, i32_to_f32, i64_to_f32 and the four conversions to 64-bit format:
  every integer is converted to its value correctly rounded in the current mode (positive zero for
  zero), raising inexact exactly when the value is not representable; from 32 bits to the 64-bit
  format the state is not touched.
\<close>

theorem int_to_float_correctly_rounded:
  "f32_rounded st False (real (unat (a :: u32))) (ui32_to_f32 a st) \<and> f32_rounded st False (real (unat (b :: u64))) (ui64_to_f32 b st) \<and>
   f32_rounded st False (of_int (sint a)) (i32_to_f32 a st) \<and> f32_rounded st False (of_int (sint b)) (i64_to_f32 b st) \<and>
   f64_rounded st False (real (unat a)) (ui32_to_f64 a, st) \<and> f64_rounded st False (real (unat b)) (ui64_to_f64 b st) \<and>
   f64_rounded st False (of_int (sint a)) (i32_to_f64 a, st) \<and> f64_rounded st False (of_int (sint b)) (i64_to_f64 b st)"
  by (intro conjI ui32_to_f32_correct ui64_to_f32_correct i32_to_f32_correct i64_to_f32_correct
      ui32_to_f64_correct ui64_to_f64_correct i32_to_f64_correct i64_to_f64_correct)

text \<open>
  C27: f64_to_f32: every finite 64-bit number is converted to its value correctly rounded to 32-bit
  format, keeping its sign, with the exceptions of that rounding.
\<close>

theorem f64_to_f32_correctly_rounded:
  assumes "f64_finite a"
  shows "f32_rounded st (2 ^ 63 \<le> unat a) (f64_real a) (f64_to_f32 a st)"
  by (rule f64_to_f32_correct [OF assms])

theorem f64_to_f32_correctly_rounded_witness:
  "f64_finite 0x3FD5555555555555 \<and> f64_to_f32 0x3FD5555555555555 softfloat_init = (0x3EAAAAAB, softfloat_raiseFlags softfloat_flag_inexact softfloat_init) \<and>
   f32_rounded softfloat_init False (f64_real 0x3FD5555555555555) (f64_to_f32 0x3FD5555555555555 softfloat_init)"
proof -
  have f: "f64_finite 0x3FD5555555555555" by (simp add: f64_finite_def)
  have "f64_to_f32 0x3FD5555555555555 softfloat_init = (0x3EAAAAAB, softfloat_raiseFlags softfloat_flag_inexact softfloat_init)"
    by code_simp
  then show ?thesis using f f64_to_f32_correctly_rounded [OF f, of softfloat_init] by simp
qed

text \<open>
  C28: __fixsfti, __fixdfti, __fixtfti and their unsigned variants, for every bit pattern: the value
  is truncated towards zero; the unsigned conversions give zero for negative numbers and all ones
  from 2^128 on. The signed ones saturate for magnitudes from 2^128 on, so also for infinities and
  NaNs; from magnitude 2^127 (and -2^127 itself) up to 2^128 they have no value (None): the test for
  values too large lets the exponent 127 pass and the shift of the signed significand then leaves
  its type, which C leaves undefined, although the comment at fixsfti.c:30 (the same in fixdfti.c
  and fixtfti.c) promises saturation for them too.
\<close>

theorem builtins_fix_truncate:
  "fixsfti a = trunc_int128 (f32_real a) \<and> fixdfti b = trunc_int128 (f64_real b) \<and> fixtfti c = trunc_int128 (f128_real c) \<and>
   fixunssfti a = trunc_uint128 (f32_real a) \<and> fixunsdfti b = trunc_uint128 (f64_real b) \<and> fixunstfti c = trunc_uint128 (f128_real c)"
  by (intro conjI fixsfti_correct fixdfti_correct fixtfti_correct)

text \<open>
  C29: __floattidf and __floatuntidf convert 128-bit integers to the nearest 64-bit number, ties to
  even; on 64-bit values they agree with softfloat's i64_to_f64 and ui64_to_f64 in the default mode,
  although they round with guard bits of their own. The only exception is the least signed integer:
  its negation at floattidf.c:32 leaves the signed type, which C leaves undefined (None); the lines
  after it still give the correctly rounded -2^127 when they go on with the wrapped difference.
\<close>

theorem integer_builtins_to_f64:
  "(\<exists>z st. f64_rounded softfloat_init False (of_int (sint a)) (z, st) \<and>
     (if sint a = - (2 ^ 127) then floattidf a = None \<and> floattidf_bits (- 1) (push_bit 127 1) = z else floattidf a = Some z)) \<and>
   (\<exists>st. f64_rounded softfloat_init False (real (unat a)) (floatuntidf a, st)) \<and>
   floattidf (scast b) = Some (fst (i64_to_f64 b softfloat_init)) \<and> floatuntidf (ucast b) = fst (ui64_to_f64 b softfloat_init)"
  by (intro conjI floattidf_correct floatuntidf_correct floattidf_i64 floatuntidf_ui64)

text \<open>
  C30: The 128-bit integer builtins of the host on operands given as two words, on all operands.
  Division and remainder, signed and unsigned, truncate towards zero; a zero divisor throws
  arithmetic_exception in all four; the signed ones are undefined for the least integer divided by
  -1. The signed product is exact when it fits the type and undefined otherwise. Shifts by 128 or
  more are undefined; below 128, __ashrti3 shifts the whole value with its sign, whereas __ashlti3,
  __lshlti3 and __lshrti3 shift the low word only: the high word is lost, although
  builtins/README.txt (lines 34 to 39) documents a << b and a >> b of the whole value.
\<close>

theorem integer_builtins_arithmetic:
  assumes "A = words128 la ha" and "B = words128 lb hb"
  shows "(B = 0 \<longrightarrow> divti3 la ha lb hb = Inl divide_by_zero \<and> modti3 la ha lb hb = Inl divide_by_zero \<and>
      udivti3 la ha lb hb = Inl divide_by_zero \<and> umodti3 la ha lb hb = Inl divide_by_zero) \<and>
    (sint A = - (2 ^ 127) \<and> sint B = - 1 \<longrightarrow> divti3 la ha lb hb = Inl Undefined \<and> modti3 la ha lb hb = Inl Undefined) \<and>
    (B \<noteq> 0 \<and> \<not> (sint A = - (2 ^ 127) \<and> sint B = - 1) \<longrightarrow>
      (\<exists>q. divti3 la ha lb hb = Inr q \<and> sint q = sint A sdiv sint B) \<and> (\<exists>q. modti3 la ha lb hb = Inr q \<and> sint q = sint A smod sint B)) \<and>
    (B \<noteq> 0 \<longrightarrow>
      (\<exists>q. udivti3 la ha lb hb = Inr q \<and> unat q = unat A div unat B) \<and> (\<exists>q. umodti3 la ha lb hb = Inr q \<and> unat q = unat A mod unat B)) \<and>
    (if - (2 ^ 127) \<le> sint A * sint B \<and> sint A * sint B < 2 ^ 127
     then \<exists>q. multi3 la ha lb hb = Inr q \<and> sint q = sint A * sint B else multi3 la ha lb hb = Inl Undefined) \<and>
    (if unat n < 128
     then ashrti3 la ha n = Inr (signed_drop_bit (unat n) A) \<and> ashlti3 la ha n = Inr (push_bit (unat n) (ucast la)) \<and>
       lshlti3 la ha n = Inr (push_bit (unat n) (ucast la)) \<and> lshrti3 la ha n = Inr (drop_bit (unat n) (ucast la))
     else ashrti3 la ha n = Inl Undefined \<and> ashlti3 la ha n = Inl Undefined \<and>
       lshlti3 la ha n = Inl Undefined \<and> lshrti3 la ha n = Inl Undefined)"
proof (intro conjI)
  show "B = 0 \<longrightarrow> divti3 la ha lb hb = Inl divide_by_zero \<and> modti3 la ha lb hb = Inl divide_by_zero \<and>
      udivti3 la ha lb hb = Inl divide_by_zero \<and> umodti3 la ha lb hb = Inl divide_by_zero"
    using assms by (simp add: divti3_def modti3_def udivti3_def umodti3_def)
  have n: "sint B = - 1 \<Longrightarrow> B \<noteq> 0" by auto
  show "sint A = - (2 ^ 127) \<and> sint B = - 1 \<longrightarrow> divti3 la ha lb hb = Inl Undefined \<and> modti3 la ha lb hb = Inl Undefined"
    using divti3_exact(1,2) [OF assms n] by simp
  show "B \<noteq> 0 \<and> \<not> (sint A = - (2 ^ 127) \<and> sint B = - 1) \<longrightarrow>
      (\<exists>q. divti3 la ha lb hb = Inr q \<and> sint q = sint A sdiv sint B) \<and> (\<exists>q. modti3 la ha lb hb = Inr q \<and> sint q = sint A smod sint B)"
    using divti3_exact [OF assms] by (metis (no_types))
  show "B \<noteq> 0 \<longrightarrow>
      (\<exists>q. udivti3 la ha lb hb = Inr q \<and> unat q = unat A div unat B) \<and> (\<exists>q. umodti3 la ha lb hb = Inr q \<and> unat q = unat A mod unat B)"
    using unsigned_builtins(1,2) [of la ha lb hb] unsigned_builtins(3,4) [of A B] assms by simp
  show "if - (2 ^ 127) \<le> sint A * sint B \<and> sint A * sint B < 2 ^ 127
     then \<exists>q. multi3 la ha lb hb = Inr q \<and> sint q = sint A * sint B else multi3 la ha lb hb = Inl Undefined"
    using multi3_exact [of la ha lb hb, folded assms] unfolding in_int128_def by (metis (no_types))
  show "if unat n < 128
     then ashrti3 la ha n = Inr (signed_drop_bit (unat n) A) \<and> ashlti3 la ha n = Inr (push_bit (unat n) (ucast la)) \<and>
       lshlti3 la ha n = Inr (push_bit (unat n) (ucast la)) \<and> lshrti3 la ha n = Inr (drop_bit (unat n) (ucast la))
     else ashrti3 la ha n = Inl Undefined \<and> ashlti3 la ha n = Inl Undefined \<and>
       lshlti3 la ha n = Inl Undefined \<and> lshrti3 la ha n = Inl Undefined"
    using shifts_lose_high [of n la ha] shifts_undefined [of n la ha] assms(1) by simp
qed

theorem integer_builtins_arithmetic_witness:
  "(\<exists>q. divti3 (- 7) (- 1) 2 0 = Inr q \<and> sint q = - 3) \<and> (\<exists>q. multi3 (- 7) (- 1) 2 0 = Inr q \<and> sint q = - 14) \<and>
   ashlti3 (- 7) (- 1) 4 = Inr 0xFFFFFFFFFFFFFFF90 \<and> multi3 0 (push_bit 62 1) 2 0 = Inl Undefined"
proof -
  have a: "words128 (- 7) (- 1) = - 7" "words128 2 0 = 2" "words128 0 (push_bit 62 1) = push_bit 126 1" by code_simp+
  have s: "sint (- 7 :: u128) = - 7" "sint (2 :: u128) = 2" "sint (push_bit 126 1 :: u128) = 2 ^ 126" by code_simp+
  have d: "(- 7) sdiv (2 :: int) = - 3" by code_simp
  have p: "push_bit (unat (4 :: u32)) (ucast (- 7 :: u64)) = (0xFFFFFFFFFFFFFFF90 :: u128)" by code_simp
  note e = integer_builtins_arithmetic [where la = "- 7" and ha = "- 1" and lb = 2 and hb = 0 and n = 4, OF refl refl, unfolded a s d p]
  note u = integer_builtins_arithmetic [where la = 0 and ha = "push_bit 62 1" and lb = 2 and hb = 0 and n = 4, OF refl refl, unfolded a s]
  have "(\<exists>q. divti3 (- 7) (- 1) 2 0 = Inr q \<and> sint q = - 3) \<and> (\<exists>q. multi3 (- 7) (- 1) 2 0 = Inr q \<and> sint q = - 14) \<and>
      ashlti3 (- 7) (- 1) 4 = Inr 0xFFFFFFFFFFFFFFF90"
    using e by simp
  moreover have "multi3 0 (push_bit 62 1) 2 0 = Inl Undefined" using u by simp
  ultimately show ?thesis by blast
qed

text \<open>
  C31: _eosio_f32_ceil, _eosio_f32_floor, _eosio_f32_trunc and _eosio_f64_trunc, which mask and
  adjust the pattern directly, return for every operand that is not a NaN the same pattern as
  softfloat's f32_roundToInt and f64_roundToInt in the modes max, min and minMag. For finite
  operands _eosio_f32_nearest, _eosio_f64_nearest, _eosio_f64_ceil and _eosio_f64_floor, which add
  and subtract 2 ^ 23 or 2 ^ 52: for a finite operand the result is the value rounded to an integer
  (in the current mode, upwards, downwards) with the sign of the operand, for every rounding mode
  set in the state.
\<close>

theorem api_rounding_equivalent:
  assumes "\<not> f32_nan a" and "\<not> f64_nan b" and "f32_finite c" and "f64_finite d"
  shows "eosio_f32_ceil a = fst (f32_roundToInt a softfloat_round_max exact st) \<and>
    eosio_f32_floor a = fst (f32_roundToInt a softfloat_round_min exact st) \<and>
    eosio_f32_trunc a = fst (f32_roundToInt a softfloat_round_minMag exact st) \<and>
    eosio_f64_trunc b = fst (f64_roundToInt b softfloat_round_minMag exact st) \<and>
    f32_integral (mode st) False c st (fst (eosio_f32_nearest c st), st) \<and>
    f64_integral (mode st) False d st (fst (eosio_f64_nearest d st), st) \<and>
    f64_integral Round_max False d st (fst (eosio_f64_ceil d st), st) \<and>
    f64_integral Round_min False d st (fst (eosio_f64_floor d st), st)"
  by (intro conjI f32_ceil_eq [OF assms(1)] f32_floor_eq [OF assms(1)] f32_trunc_eq [OF assms(1)] f64_trunc_eq [OF assms(2)]
      f32_nearest_integral [OF assms(3)] f64_nearest_integral [OF assms(4)] f64_ceil_integral [OF assms(4)] f64_floor_integral [OF assms(4)])

theorem api_rounding_equivalent_witness:
  "\<not> f32_nan 0xBF000000 \<and> \<not> f64_nan 0x4004000000000000 \<and> f32_finite 0x40200000 \<and> f64_finite 0xC004000000000000 \<and>
   eosio_f32_ceil 0xBF000000 = 0x80000000 \<and> eosio_f64_trunc 0x4004000000000000 = 0x4000000000000000 \<and>
   fst (f32_roundToInt 0xBF000000 softfloat_round_max False softfloat_init) = 0x80000000 \<and>
   fst (eosio_f32_nearest 0x40200000 softfloat_init) = 0x40000000 \<and>
   f64_integral Round_min False 0xC004000000000000 softfloat_init (0xC008000000000000, softfloat_init)"
proof -
  have n: "\<not> f32_nan 0xBF000000" "\<not> f64_nan 0x4004000000000000" "f32_finite 0x40200000" "f64_finite 0xC004000000000000"
    by (simp_all add: f32_nan_def f64_nan_def f32_finite_def f64_finite_def)
  have "eosio_f32_ceil 0xBF000000 = 0x80000000" "eosio_f64_trunc 0x4004000000000000 = 0x4000000000000000"
    "fst (eosio_f32_nearest 0x40200000 softfloat_init) = 0x40000000" "fst (eosio_f64_floor 0xC004000000000000 softfloat_init) = 0xC008000000000000"
    by code_simp+
  then show ?thesis using n api_rounding_equivalent [OF n, of False softfloat_init] by simp
qed

text \<open>
  C32: The eight checked truncations _eosio_f32_trunc_i32s to _eosio_f64_trunc_i64u: a NaN throws
  the unrepresentable error (and raises invalid); a number outside the range of the target (below
  -2^(n-1) or at least 2^(n-1) when signed, at most -1 or at least 2^n when unsigned) throws the
  overflow error; every other number gives its value rounded towards zero, with the flags untouched.
\<close>

theorem checked_truncations:
  "truncates ''f32.convert_s/i32'' (f32_nan a) (- (2 ^ 31) \<le> f32_real a \<and> f32_real a < 2 ^ 31) (f32_real a) st sint (eosio_f32_trunc_i32s a st) \<and>
   truncates ''f32.convert_u/i32'' (f32_nan a) (- 1 < f32_real a \<and> f32_real a < 2 ^ 32) (f32_real a) st uint (eosio_f32_trunc_i32u a st) \<and>
   truncates ''f32.convert_s/i64'' (f32_nan a) (- (2 ^ 63) \<le> f32_real a \<and> f32_real a < 2 ^ 63) (f32_real a) st sint (eosio_f32_trunc_i64s a st) \<and>
   truncates ''f32.convert_u/i64'' (f32_nan a) (- 1 < f32_real a \<and> f32_real a < 2 ^ 64) (f32_real a) st uint (eosio_f32_trunc_i64u a st) \<and>
   truncates ''f64.convert_s/i32'' (f64_nan b) (- (2 ^ 31) \<le> f64_real b \<and> f64_real b < 2 ^ 31) (f64_real b) st sint (eosio_f64_trunc_i32s b st) \<and>
   truncates ''f64.convert_u/i32'' (f64_nan b) (- 1 < f64_real b \<and> f64_real b < 2 ^ 32) (f64_real b) st uint (eosio_f64_trunc_i32u b st) \<and>
   truncates ''f64.convert_s/i64'' (f64_nan b) (- (2 ^ 63) \<le> f64_real b \<and> f64_real b < 2 ^ 63) (f64_real b) st sint (eosio_f64_trunc_i64s b st) \<and>
   truncates ''f64.convert_u/i64'' (f64_nan b) (- 1 < f64_real b \<and> f64_real b < 2 ^ 64) (f64_real b) st uint (eosio_f64_trunc_i64u b st)"
  by (intro conjI eosio_f32_trunc_i32s_truncates eosio_f32_trunc_i32u_truncates eosio_f32_trunc_i64s_truncates eosio_f32_trunc_i64u_truncates eosio_f64_trunc_i32s_truncates eosio_f64_trunc_i32u_truncates eosio_f64_trunc_i64s_truncates eosio_f64_trunc_i64u_truncates)

text \<open>
  C33: _eosio_f32_abs, neg and copysign change only the sign of the value; _eosio_f32_min and
  _eosio_f32_max (and the 64-bit ones) return the smaller and the greater of two numbers, negative
  zero counting as smaller than positive zero, and leave the flags alone.
\<close>

theorem api_sign_and_extrema:
  assumes "\<not> f32_nan a" and "\<not> f32_nan b" and "\<not> f64_nan c" and "\<not> f64_nan d"
  shows "f32_real (eosio_f32_abs a) = \<bar>f32_real a\<bar> \<and> f32_real (eosio_f32_neg a) = - f32_real a \<and>
    f32_real (eosio_f32_copysign a b) = (if 2 ^ 31 \<le> unat b then - \<bar>f32_real a\<bar> else \<bar>f32_real a\<bar>) \<and>
    eosio_f32_min a b st = (if f32_real a < f32_real b \<or> f32_real a = f32_real b \<and> 2 ^ 31 \<le> unat a then a else b, st) \<and>
    eosio_f32_max a b st = (if f32_real a < f32_real b \<or> f32_real a = f32_real b \<and> 2 ^ 31 \<le> unat a then b else a, st) \<and>
    f64_real (eosio_f64_abs c) = \<bar>f64_real c\<bar> \<and> f64_real (eosio_f64_neg c) = - f64_real c \<and>
    f64_real (eosio_f64_copysign c d) = (if 2 ^ 63 \<le> unat d then - \<bar>f64_real c\<bar> else \<bar>f64_real c\<bar>) \<and>
    eosio_f64_min c d st = (if f64_real c < f64_real d \<or> f64_real c = f64_real d \<and> 2 ^ 63 \<le> unat c then c else d, st) \<and>
    eosio_f64_max c d st = (if f64_real c < f64_real d \<or> f64_real c = f64_real d \<and> 2 ^ 63 \<le> unat c then d else c, st)"
  by (intro conjI f32_sign_values f64_sign_values f32_min_max [OF assms(1,2)] f64_min_max [OF assms(3,4)])

theorem api_sign_and_extrema_witness:
  "\<not> f32_nan 0x80000000 \<and> \<not> f32_nan 0 \<and> \<not> f64_nan 0x3FF0000000000000 \<and> \<not> f64_nan 0xC000000000000000 \<and>
   eosio_f32_min 0x80000000 0 softfloat_init = (0x80000000, softfloat_init) \<and>
   eosio_f64_max 0x3FF0000000000000 0xC000000000000000 softfloat_init = (0x3FF0000000000000, softfloat_init)"
proof -
  have n: "\<not> f32_nan 0x80000000" "\<not> f32_nan 0" "\<not> f64_nan 0x3FF0000000000000" "\<not> f64_nan 0xC000000000000000" by (simp_all add: f32_nan_def f64_nan_def)
  have r: "f32_real 0x80000000 = 0" "f32_real 0 = 0" "f64_real 0x3FF0000000000000 = 1" "f64_real 0xC000000000000000 = - 2"
    by (simp_all add: f32_real_def f64_real_def fmag_def)
  show ?thesis using n r api_sign_and_extrema [OF n, of softfloat_init] by simp
qed

text \<open>
  C34: name: every 64-bit value is recovered from its string form, and every normalized string (at
  most 13 characters of the alphabet, not ending in a dot, the 13th among the first 16 symbols) is
  recovered from its value. name::set accepts exactly the normalized strings and then stores their
  encoding; every other string throws invalid_name_exception (code 20001).
\<close>

theorem name_round_trip:
  assumes "normalized_name s"
  shows "string_to_name (name_to_string v) = v \<and> name_to_string (string_to_name s) = s \<and>
    (name_set t = Inr w \<longleftrightarrow> normalized_name t \<and> w = string_to_name t) \<and>
    (\<not> normalized_name t \<longleftrightarrow> (\<exists>e. name_set t = Inl e \<and> exception_code e = 20001))"
proof -
  have r: "name_set t = Inr w \<longleftrightarrow> normalized_name t \<and> w = string_to_name t" for w
    using name_set_Inr_iff [of t w] normalized_name_iff [of t] by (metis string_to_name_to_string)
  have "name_set t = Inl e \<Longrightarrow> exception_code e = 20001" for e
    by (auto simp: name_set_def Let_def ftl_assert_def split: if_splits)
  then have "\<not> normalized_name t \<longleftrightarrow> (\<exists>e. name_set t = Inl e \<and> exception_code e = 20001)" using r by (cases "name_set t") auto
  then show ?thesis using r string_to_name_to_string [of v] normalized_name_round_trip [OF assms] by blast
qed

theorem name_round_trip_witness:
  "normalized_name ''fractal.1abcj'' \<and> name_to_string (string_to_name ''fractal.1abcj'') = ''fractal.1abcj'' \<and> string_to_name (name_to_string 7) = 7"
proof -
  have n: "normalized_name ''fractal.1abcj''" by code_simp
  show ?thesis using n name_round_trip [OF n, of 7] by blast
qed

text \<open>
  C35: Packing well-formed instructions one after the other into an instruction_stream never writes
  outside the buffer, and decoding the bytes of the stream gives the instructions back; in the other
  direction, code that decodes without unknown opcodes is reproduced byte for byte by packing its
  instructions.
\<close>

theorem packed_code_round_trip:
  assumes "list_all wf_instr is" and "decode_all code = Inr js" and "Instr 0xFF F_void \<notin> set js"
  shows "(\<exists>out. fold (\<lambda>i out. Option.bind out (pack i)) is (Some (stream_new n)) = Some out \<and> decode_all (stream_get out) = Inr is) \<and>
    (\<exists>out. fold (\<lambda>i out. Option.bind out (pack i)) js (Some (stream_new n)) = Some out \<and> stream_get out = code)"
  using pack_all_ok [of "stream_new n" "is"] pack_all_ok [of "stream_new n" js] decode_all_pack [OF assms(1)] decode_all_bytes [OF assms(2,3)]
  by auto

theorem packed_code_round_trip_witness:
  "\<exists>out. fold (\<lambda>i out. Option.bind out (pack i)) [Instr 0x41 (F_u32 0x01020304), Instr 0x0B F_void] (Some (stream_new 0)) = Some out \<and>
     stream_get out = [0x41, 0, 4, 3, 2, 1, 0x0B, 0]"
proof -
  have w: "list_all wf_instr [Instr 0x41 (F_u32 0x01020304), Instr 0x0B F_void]" by code_simp
  have d: "decode_all [0x41, 0, 4, 3, 2, 1, 0x0B, 0] = Inr [Instr 0x41 (F_u32 0x01020304), Instr 0x0B F_void]" by code_simp
  have n: "Instr 0xFF F_void \<notin> set [Instr 0x41 (F_u32 0x01020304), Instr 0x0B F_void]" by simp
  show ?thesis using packed_code_round_trip [OF w d n, of 0] by blast
qed

text \<open>
  C36: add, sub, mul and div of both formats with a NaN operand return a quiet NaN with the payload
  of the first NaN operand, and raise the invalid flag exactly when an operand is a signaling NaN.
\<close>

theorem arithmetic_on_nan:
  assumes "f32_nan a \<or> f32_nan b" and "f64_nan c \<or> f64_nan d"
  shows "f32_add a b st = f32_nan_result a b st \<and>
    f32_sub a b st = f32_nan_result a b st \<and>
    f32_mul a b st = f32_nan_result a b st \<and>
    f32_div a b st = f32_nan_result a b st \<and>
    f64_add c d st = f64_nan_result c d st \<and>
    f64_sub c d st = f64_nan_result c d st \<and>
    f64_mul c d st = f64_nan_result c d st \<and>
    f64_div c d st = f64_nan_result c d st"
  using f32_arith_nan [OF assms(1), of st] f64_arith_nan [OF assms(2), of st] by blast

theorem arithmetic_on_nan_witness:
  "f32_nan 0x7F800001 \<and> f64_nan 0x7FF8000000000007 \<and>
   f32_add 0x3F800000 0x7F800001 softfloat_init = (0x7FC00001, softfloat_raiseFlags softfloat_flag_invalid softfloat_init) \<and>
   f64_mul 0x7FF8000000000007 0 softfloat_init = (0x7FF8000000000007, softfloat_init)"
proof -
  have n: "f32_nan 0x7F800001" "f32_snan 0x7F800001" "\<not> f32_nan 0x3F800000" "f64_nan 0x7FF8000000000007" "\<not> f64_snan 0x7FF8000000000007" "\<not> f64_snan 0"
    by (simp_all add: f32_nan_def f32_snan_def f64_nan_def f64_snan_def)
  show ?thesis
    using n arithmetic_on_nan [of "0x3F800000" "0x7F800001" "0x7FF8000000000007" 0 softfloat_init]
    by (simp add: f32_nan_result_def f64_nan_result_def)
qed

text \<open>
  C37: add, sub and mul with an infinite operand, and div with an infinite operand or a zero
  divisor, in both formats: infinity minus infinity, infinity times zero, infinity over infinity and
  zero over zero give the default NaN and raise invalid; a nonzero number over zero gives the signed
  infinity and raises the divide-by-zero flag; every other case gives the signed infinity or zero
  and raises nothing.
\<close>

theorem infinities_and_zero_divisor:
  assumes "\<not> f32_nan a" and "\<not> f32_nan b" and "f32_inf a \<or> f32_inf b"
    and "\<not> f32_nan c" and "\<not> f32_nan d" and "f32_inf c \<or> f32_inf d \<or> f32_real d = 0"
    and "\<not> f64_nan p" and "\<not> f64_nan q" and "f64_inf p \<or> f64_inf q"
    and "\<not> f64_nan r" and "\<not> f64_nan t" and "f64_inf r \<or> f64_inf t \<or> f64_real t = 0"
  shows "f32_add a b st = (if f32_inf a \<and> f32_inf b \<and> f32_negative a \<noteq> f32_negative b then f32_invalid st
        else (f32_infinity (if f32_inf a then f32_negative a else f32_negative b), st)) \<and>
    f32_sub a b st = (if f32_inf a \<and> f32_inf b \<and> f32_negative a = f32_negative b then f32_invalid st
        else (f32_infinity (if f32_inf a then f32_negative a else \<not> f32_negative b), st)) \<and>
    f32_mul a b st = (if \<not> f32_inf a \<and> f32_real a = 0 \<or> \<not> f32_inf b \<and> f32_real b = 0 then f32_invalid st
        else (f32_infinity (f32_negative a \<noteq> f32_negative b), st)) \<and>
    f32_div c d st = (if f32_inf c \<and> f32_inf d \<or> \<not> f32_inf c \<and> f32_real c = 0 \<and> f32_real d = 0 then f32_invalid st
        else if f32_inf c then (f32_infinity (f32_negative c \<noteq> f32_negative d), st)
        else if f32_inf d then (f32_zero (f32_negative c \<noteq> f32_negative d), st)
        else (f32_infinity (f32_negative c \<noteq> f32_negative d), softfloat_raiseFlags softfloat_flag_infinite st)) \<and>
    f64_add p q st = (if f64_inf p \<and> f64_inf q \<and> f64_negative p \<noteq> f64_negative q then f64_invalid st
        else (f64_infinity (if f64_inf p then f64_negative p else f64_negative q), st)) \<and>
    f64_sub p q st = (if f64_inf p \<and> f64_inf q \<and> f64_negative p = f64_negative q then f64_invalid st
        else (f64_infinity (if f64_inf p then f64_negative p else \<not> f64_negative q), st)) \<and>
    f64_mul p q st = (if \<not> f64_inf p \<and> f64_real p = 0 \<or> \<not> f64_inf q \<and> f64_real q = 0 then f64_invalid st
        else (f64_infinity (f64_negative p \<noteq> f64_negative q), st)) \<and>
    f64_div r t st = (if f64_inf r \<and> f64_inf t \<or> \<not> f64_inf r \<and> f64_real r = 0 \<and> f64_real t = 0 then f64_invalid st
        else if f64_inf r then (f64_infinity (f64_negative r \<noteq> f64_negative t), st)
        else if f64_inf t then (f64_zero (f64_negative r \<noteq> f64_negative t), st)
        else (f64_infinity (f64_negative r \<noteq> f64_negative t), softfloat_raiseFlags softfloat_flag_infinite st))"
  by (intro conjI f32_add_inf(1) [OF assms(1-3)] f32_add_inf(2) [OF assms(1-3)] f32_mul_inf [OF assms(1-3)] f32_div_special [OF assms(4-6)]
      f64_add_inf(1) [OF assms(7-9)] f64_add_inf(2) [OF assms(7-9)] f64_mul_inf [OF assms(7-9)] f64_div_special [OF assms(10-12)])

theorem infinities_and_zero_divisor_witness:
  "\<not> f32_nan 0x7F800000 \<and> f32_inf 0x7F800000 \<and> \<not> f64_nan 0x7FF0000000000000 \<and> f64_inf 0x7FF0000000000000 \<and> f32_real 0 = 0 \<and> f64_real 0 = 0 \<and>
   f32_add 0x7F800000 0xFF800000 softfloat_init = f32_invalid softfloat_init \<and> f32_div 0x3F800000 0 softfloat_init = (0x7F800000, softfloat_raiseFlags softfloat_flag_infinite softfloat_init) \<and>
   f64_add 0x7FF0000000000000 0xFFF0000000000000 softfloat_init = f64_invalid softfloat_init \<and> f64_div 0x3FF0000000000000 0 softfloat_init = (0x7FF0000000000000, softfloat_raiseFlags softfloat_flag_infinite softfloat_init)"
proof -
  have nf32: "\<not> f32_nan 0x7F800000" "\<not> f32_nan 0xFF800000" "\<not> f32_nan 0x3F800000" "\<not> f32_nan 0" "f32_inf 0x7F800000" "f32_inf 0xFF800000" "\<not> f32_inf 0x3F800000" "\<not> f32_inf 0"
    by (simp_all add: f32_nan_def f32_inf_def)
  have rf32: "f32_real 0 = 0" "f32_real 0x3F800000 \<noteq> 0" by (simp_all add: f32_real_def fmag_def)
  have gf32: "\<not> f32_negative 0x7F800000" "f32_negative 0xFF800000" "\<not> f32_negative 0x3F800000" "\<not> f32_negative 0" "f32_infinity False = 0x7F800000"
    by (simp_all add: f32_negative_def f32_infinity_def)
  have nf64: "\<not> f64_nan 0x7FF0000000000000" "\<not> f64_nan 0xFFF0000000000000" "\<not> f64_nan 0x3FF0000000000000" "\<not> f64_nan 0" "f64_inf 0x7FF0000000000000" "f64_inf 0xFFF0000000000000" "\<not> f64_inf 0x3FF0000000000000" "\<not> f64_inf 0"
    by (simp_all add: f64_nan_def f64_inf_def)
  have rf64: "f64_real 0 = 0" "f64_real 0x3FF0000000000000 \<noteq> 0" by (simp_all add: f64_real_def fmag_def)
  have gf64: "\<not> f64_negative 0x7FF0000000000000" "f64_negative 0xFFF0000000000000" "\<not> f64_negative 0x3FF0000000000000" "\<not> f64_negative 0" "f64_infinity False = 0x7FF0000000000000"
    by (simp_all add: f64_negative_def f64_infinity_def)
  note i = infinities_and_zero_divisor [of "0x7F800000" "0xFF800000" "0x3F800000" 0 "0x7FF0000000000000" "0xFFF0000000000000" "0x3FF0000000000000" 0 softfloat_init]
  show ?thesis using nf32 rf32 gf32 nf64 rf64 gf64 i by simp
qed

text \<open>
  C38: With a NaN operand every comparison of 32-bit and of 64-bit numbers answers false; eq,
  le_quiet and lt_quiet raise the invalid flag exactly when an operand is a signaling NaN,
  eq_signaling, le and lt always.
\<close>

theorem comparisons_unordered:
  assumes "f32_nan a \<or> f32_nan b" and "f64_nan c \<or> f64_nan d"
    and "qst = (if f32_snan a \<or> f32_snan b then softfloat_raiseFlags softfloat_flag_invalid st else st)"
    and "qst' = (if f64_snan c \<or> f64_snan d then softfloat_raiseFlags softfloat_flag_invalid st else st)"
  shows "f32_eq a b st = (False, qst) \<and> f32_le_quiet a b st = (False, qst) \<and> f32_lt_quiet a b st = (False, qst) \<and>
    f32_eq_signaling a b st = (False, softfloat_raiseFlags softfloat_flag_invalid st) \<and>
    f32_le a b st = (False, softfloat_raiseFlags softfloat_flag_invalid st) \<and>
    f32_lt a b st = (False, softfloat_raiseFlags softfloat_flag_invalid st) \<and>
    f64_eq c d st = (False, qst') \<and> f64_le_quiet c d st = (False, qst') \<and> f64_lt_quiet c d st = (False, qst') \<and>
    f64_eq_signaling c d st = (False, softfloat_raiseFlags softfloat_flag_invalid st) \<and>
    f64_le c d st = (False, softfloat_raiseFlags softfloat_flag_invalid st) \<and>
    f64_lt c d st = (False, softfloat_raiseFlags softfloat_flag_invalid st)"
  unfolding assms(3,4) using f32_cmp.unordered [OF assms(1), of st] f64_cmp.unordered [OF assms(2), of st] by blast

theorem comparisons_unordered_witness:
  "f32_nan 0x7FC00000 \<and> f64_nan 0x7FF0000000000001 \<and>
   f32_eq 0x7FC00000 0xBF800000 softfloat_init = (False, softfloat_init) \<and>
   f64_eq 0xBFF0000000000000 0x7FF0000000000001 softfloat_init = (False, softfloat_raiseFlags softfloat_flag_invalid softfloat_init)"
proof -
  have n: "f32_nan 0x7FC00000" "\<not> f32_snan 0x7FC00000" "\<not> f32_snan 0xBF800000" "f64_nan 0x7FF0000000000001" "f64_snan 0x7FF0000000000001"
    by (simp_all add: f32_nan_def f32_snan_def f64_nan_def f64_snan_def)
  note c = comparisons_unordered [of "0x7FC00000" "0xBF800000" "0xBFF0000000000000" "0x7FF0000000000001", OF _ _ refl refl, of softfloat_init]
  show ?thesis using n c by simp
qed

text \<open>
  C39: f64_to_f32 after f32_to_f64 gives back every 32-bit pattern that is not a NaN (zeros,
  subnormals and infinities included) and raises nothing, in every rounding mode; of a finite number
  f32_to_f64 keeps the value and the sign and raises nothing.
\<close>

theorem f32_f64_f32_round_trip:
  assumes "\<not> f32_nan a" and "f32_finite b"
  shows "f64_to_f32 (fst (f32_to_f64 a st)) st' = (a, st') \<and>
    f64_finite (fst (f32_to_f64 b st)) \<and> f64_real (fst (f32_to_f64 b st)) = f32_real b \<and>
    (2 ^ 63 \<le> unat (fst (f32_to_f64 b st)) \<longleftrightarrow> 2 ^ 31 \<le> unat b) \<and> snd (f32_to_f64 b st) = st"
  using f32_f64_round_trip [OF assms(1), of st st'] f32_to_f64_exact [OF assms(2), of st] by blast

theorem f32_f64_f32_round_trip_witness:
  "\<not> f32_nan 0x80000001 \<and> f64_to_f32 (fst (f32_to_f64 0x80000001 softfloat_init)) softfloat_init = (0x80000001, softfloat_init) \<and>
   f32_to_f64 1 softfloat_init = (0x36A0000000000000, softfloat_init) \<and> f64_real 0x36A0000000000000 = f32_real 1"
proof -
  have n: "\<not> f32_nan 0x80000001" "f32_finite 1" by (simp_all add: f32_nan_def f32_finite_def)
  have "f32_to_f64 1 softfloat_init = (0x36A0000000000000, softfloat_init)" by code_simp
  then show ?thesis using n f32_f64_f32_round_trip [OF n, of softfloat_init softfloat_init] by simp
qed

text \<open>
  C40: nested_validator counts an else but never uncounts it: a function of n conditionals one after
  the other, never nested deeper than one block, is accepted only up to n = 1022.
\<close>

theorem else_blocks_use_up_the_depth:
  assumes "module_validate m = Some (Inr ())" and "m_fdefs m = [fd]"
    and "fd_code fd = code_bytes (concat (replicate n if_else_end) @ [Instr 0x0B F_void])"
  shows "((\<exists>s. binary_validate m = Some (Inr s)) \<longleftrightarrow> n \<le> 1022) \<and>
    (\<forall>k. nesting (take k (concat (replicate n if_else_end))) \<le> 1)"
  using else_blocks_accepted [OF assms] repeated_if_else_nesting by blast

theorem else_blocks_use_up_the_depth_witness:
  "\<exists>m. module_validate m = Some (Inr ()) \<and> \<not> (\<exists>s. binary_validate m = Some (Inr s)) \<and>
     m_fdefs m = [\<lparr>fd_type = 0, fd_locals = [], fd_code = code_bytes (concat (replicate 1023 if_else_end) @ [Instr 0x0B F_void])\<rparr>]"
proof -
  define fd where "fd = \<lparr>fd_type = 0, fd_locals = [], fd_code = code_bytes (concat (replicate 1023 if_else_end) @ [Instr 0x0B F_void])\<rparr>"
  define m where "m = \<lparr>m_types = [apply_type], m_fimports = [], m_fdefs = [fd], m_tables = [], m_memories = [], m_globals = [],
    m_exports = [\<lparr>ex_name = ''apply'', ex_kind = OK_function, ex_index = 0\<rparr>], m_data = [], m_table_segments = [], m_start = - 1\<rparr>"
  have t: "fd_type fd = 0" "fd_locals fd = []" by (simp_all add: fd_def)
  have "decoded_module m" by (simp add: m_def decoded_module_def operand_types_def apply_type_def t)
  moreover have "within_limits m" by (simp add: m_def within_limits_def t apply_type_def type_bytes_def function_getType_def)
  ultimately have v: "module_validate m = Some (Inr ())" using module_validate_iff [of m] by auto
  have f: "m_fdefs m = [fd]" "fd_code fd = code_bytes (concat (replicate 1023 if_else_end) @ [Instr 0x0B F_void])" by (simp_all add: m_def fd_def)
  have "\<not> (\<exists>s. binary_validate m = Some (Inr s))" using else_blocks_use_up_the_depth [OF v f] by simp
  then show ?thesis using v f(1) unfolding fd_def by blast
qed

end
